(* ===== verification/A2_Prelude.thy ===== *)
theory A2_Prelude
  imports Main "HOL-Library.Word"
begin

text \<open>
  Prelude of the development: the types every component shares (bytes, error values, the
  result-and-state pairs of fallible stateful operations), size_t arithmetic with its
  wrap-around written out, and the generic facts on lists that the component proofs use.
  It models no function of the program by itself.
\<close>

named_theorems u64_simps "facts on wrapping size_t arithmetic"
named_theorems bytes_simps "facts on slices of byte buffers"

section \<open>Bytes, errors, results\<close>

type_synonym byte = "8 word"
type_synonym bytes = "byte list"

text \<open>
  One constructor per exception class the modelled code throws or lets through. AssertFailed
  is a failed assert(false) of the source; Hang is a loop of the source that would not end
  (the model's loops run on fuel, and the theorems show that the fuel suffices).
\<close>

datatype exn =
    BackendError string
  | InputSizeError
  | WriteSizeError
  | ReadSizeError
  | JsonError
  | MemoryError
  | ReadBounds
  | WriteTypeError
  | ReadOnlyFS
  | AssertFailed
  | Hang

text \<open>The exceptions that derive from BackendException.\<close>

fun is_backend_exn :: "exn \<Rightarrow> bool" where
  "is_backend_exn (BackendError _) = True"
| "is_backend_exn InputSizeError = True"
| "is_backend_exn WriteSizeError = True"
| "is_backend_exn ReadSizeError = True"
| "is_backend_exn JsonError = True"
| "is_backend_exn _ = False"

text \<open>
  A fallible stateful operation returns its result (Inl for an exception) with the new
  state: an exception does not undo the state changes made before it was thrown.
\<close>

type_synonym ('a, 'w) outcome = "(exn + 'a) \<times> 'w"

fun bindE :: "('a, 'w) outcome \<Rightarrow> ('a \<Rightarrow> 'w \<Rightarrow> ('b, 'w) outcome) \<Rightarrow> ('b, 'w) outcome" where
  "bindE (Inl e, w) f = (Inl e, w)"
| "bindE (Inr x, w) f = f x w"

text \<open>A catch block that handles every exception: the handler may change the state.\<close>

fun catchE :: "('a, 'w) outcome \<Rightarrow> (exn \<Rightarrow> 'w \<Rightarrow> ('a, 'w) outcome) \<Rightarrow> ('a, 'w) outcome" where
  "catchE (Inl e, w) h = h e w"
| "catchE (Inr x, w) h = (Inr x, w)"

lemma bindE_cases:
  "bindE m f = (case fst m of Inl e \<Rightarrow> (Inl e, snd m) | Inr x \<Rightarrow> f x (snd m))"
  by (cases m; cases "fst m") auto

lemma catchE_cases:
  "catchE m h = (case fst m of Inl e \<Rightarrow> h e (snd m) | Inr x \<Rightarrow> (Inr x, snd m))"
  by (cases m; cases "fst m") auto

text \<open>
  The rule every stateful proof uses: a property of a sequence follows from a property of
  its first half, whether that half throws or not.
\<close>

lemma bindE_rule:
  assumes "P (fst m) (snd m)"
    and "\<And>e w. P (Inl e) w \<Longrightarrow> Q (Inl e) w"
    and "\<And>x w. P (Inr x) w \<Longrightarrow> Q (fst (f x w)) (snd (f x w))"
  shows "Q (fst (bindE m f)) (snd (bindE m f))"
  using assms by (cases m; cases "fst m") auto

lemma catchE_rule:
  assumes "P (fst m) (snd m)"
    and "\<And>e w. P (Inl e) w \<Longrightarrow> Q (fst (h e w)) (snd (h e w))"
    and "\<And>x w. P (Inr x) w \<Longrightarrow> Q (Inr x) w"
  shows "Q (fst (catchE m h)) (snd (catchE m h))"
  using assms by (cases m; cases "fst m") auto

section \<open>size_t and uint64_t arithmetic\<close>

text \<open>
  Counters that the code adds to and subtracts from as size_t are natural numbers below
  2^64, and the two operations wrap as the unsigned arithmetic of C++ does.
\<close>

definition u64 :: "nat \<Rightarrow> nat" where
  "u64 x = x mod 2 ^ 64"

definition uadd :: "nat \<Rightarrow> nat \<Rightarrow> nat" where
  "uadd a b = u64 (a + b)"

definition usub :: "nat \<Rightarrow> nat \<Rightarrow> nat" where
  "usub a b = u64 (a + (2 ^ 64 - u64 b))"

definition umul :: "nat \<Rightarrow> nat \<Rightarrow> nat" where
  "umul a b = u64 (a * b)"

lemma u64_small [u64_simps]: "x < 2 ^ 64 \<Longrightarrow> u64 x = x"
  by (simp add: u64_def)

lemma u64_less [simp]: "u64 x < 18446744073709551616"
  by (simp add: u64_def)

lemma u64_idem [simp]: "u64 (u64 x) = u64 x"
  by (simp add: u64_def)

lemma u64_0 [simp]: "u64 0 = 0"
  by (simp add: u64_def)

lemma uadd_less [simp]: "uadd a b < 18446744073709551616"
  by (simp add: uadd_def)

lemma usub_less [simp]: "usub a b < 18446744073709551616"
  by (simp add: usub_def)

lemma uadd_u64 [u64_simps]: "uadd (u64 a) b = u64 (a + b)"
  by (simp add: uadd_def u64_def mod_simps)

lemma uadd_u64_right [u64_simps]: "uadd a (u64 b) = u64 (a + b)"
  by (simp add: uadd_def u64_def mod_simps)

lemma uadd_small [u64_simps]: "a + b < 2 ^ 64 \<Longrightarrow> uadd a b = a + b"
  by (simp add: uadd_def u64_def)

text \<open>Taking away a summand cancels it, whatever overflowed before.\<close>

lemma usub_u64 [u64_simps]: "b \<le> a \<Longrightarrow> usub (u64 a) b = u64 (a - b)"
proof -
  assume le: "b \<le> a"
  then obtain c where a: "a = b + c" using le_Suc_ex by blast
  have "usub (u64 a) b = ((b + c) mod 2 ^ 64 + (2 ^ 64 - b mod 2 ^ 64)) mod 2 ^ 64"
    by (simp add: usub_def u64_def a)
  also have "\<dots> = (b mod 2 ^ 64 + c + (2 ^ 64 - b mod 2 ^ 64)) mod 2 ^ 64"
    by (metis mod_add_left_eq)
  also have "b mod 2 ^ 64 + c + (2 ^ 64 - b mod 2 ^ 64) = c + (2 ^ 64 :: nat)"
  proof -
    have "b mod 2 ^ 64 \<le> (2 ^ 64 :: nat)" by (simp add: less_imp_le)
    then show ?thesis by linarith
  qed
  finally show ?thesis by (simp add: u64_def a)
qed

lemma usub_small [u64_simps]: "b \<le> a \<Longrightarrow> a < 2 ^ 64 \<Longrightarrow> usub a b = a - b"
  using usub_u64 [of b a] by (simp add: u64_small)

text \<open>min64st of PageBackend.hpp: the size_t minimum of a uint64_t and a size_t.\<close>

definition min64st :: "nat \<Rightarrow> nat \<Rightarrow> nat" where
  "min64st s1 s2 = min s1 s2"

lemma min64st_le [simp]: "min64st a b \<le> a" "min64st a b \<le> b"
  by (auto simp: min64st_def)

section \<open>Buffers\<close>

text \<open>memcpy into a buffer at an offset, for a source that fits.\<close>

definition splice :: "'a list \<Rightarrow> nat \<Rightarrow> 'a list \<Rightarrow> 'a list" where
  "splice xs off ys = take off xs @ ys @ drop (off + length ys) xs"

lemma length_splice [bytes_simps]:
  "off + length ys \<le> length xs \<Longrightarrow> length (splice xs off ys) = length xs"
  by (simp add: splice_def)

lemma nth_splice [bytes_simps]:
  assumes "off + length ys \<le> length xs" and "i < length xs"
  shows "splice xs off ys ! i =
    (if off \<le> i \<and> i < off + length ys then ys ! (i - off) else xs ! i)"
  using assms by (auto simp: splice_def nth_append min_def)

text \<open>
  Overwriting a stored file: bytes between the old end and the offset read as zero.
\<close>

definition patch :: "bytes \<Rightarrow> nat \<Rightarrow> bytes \<Rightarrow> bytes" where
  "patch xs off ys = take off (xs @ replicate (off - length xs) 0) @ ys @ drop (off + length ys) xs"

definition resize_bytes :: "bytes \<Rightarrow> nat \<Rightarrow> bytes" where
  "resize_bytes xs n = take n xs @ replicate (n - length xs) 0"

definition nth0 :: "bytes \<Rightarrow> nat \<Rightarrow> byte" where
  "nth0 xs i = (if i < length xs then xs ! i else 0)"

lemma length_patch [bytes_simps]: "length (patch xs off ys) = max (length xs) (off + length ys)"
  by (auto simp: patch_def max_def)

lemma nth0_patch [bytes_simps]:
  "nth0 (patch xs off ys) i =
    (if off \<le> i \<and> i < off + length ys then ys ! (i - off) else nth0 xs i)"
  by (auto simp: patch_def nth0_def nth_append min_def)

lemma length_resize_bytes [simp]: "length (resize_bytes xs n) = n"
  by (simp add: resize_bytes_def)

lemma nth0_resize_bytes [bytes_simps]:
  "nth0 (resize_bytes xs n) i = (if i < n then nth0 xs i else 0)"
  by (auto simp: resize_bytes_def nth0_def nth_append)

lemma nth0_beyond [simp]: "length xs \<le> i \<Longrightarrow> nth0 xs i = 0"
  by (simp add: nth0_def)

lemma nth0_nth: "i < length xs \<Longrightarrow> nth0 xs i = xs ! i"
  by (simp add: nth0_def)

lemma nth0_append: "nth0 (xs @ ys) i = (if i < length xs then nth0 xs i else nth0 ys (i - length xs))"
  by (auto simp: nth0_def nth_append)

section \<open>Position within a page\<close>

lemma page_index_split:
  fixes i :: nat
  assumes "0 < n" and "k * n \<le> i" and "i < k * n + n"
  shows "i div n = k" and "i mod n = i - k * n"
proof -
  have "i = k * n + (i - k * n)" and "i - k * n < n" using assms by auto
  then show "i div n = k"
    by (metis Euclidean_Rings.div_eq_0_iff add_cancel_right_right assms(1) div_mult_self3
        less_nat_zero_code not_gr_zero)
  then show "i mod n = i - k * n"
    by (metis minus_div_mult_eq_mod)
qed

lemma page_index_bounds:
  fixes i :: nat
  assumes "0 < n"
  shows "(i div n) * n \<le> i" and "i < (i div n) * n + n"
  using assms by (simp_all add: dividend_less_div_times add.commute)

section \<open>Any type of exceptions\<close>

text \<open>Sequencing of fallible operations on a state, with exceptions of any type.\<close>

fun bindR :: "('e + 'a) \<times> 's \<Rightarrow> ('a \<Rightarrow> 's \<Rightarrow> ('e + 'b) \<times> 's) \<Rightarrow> ('e + 'b) \<times> 's" where
  "bindR (Inl e, s) f = (Inl e, s)"
| "bindR (Inr x, s) f = f x s"

lemma bindR_Inr: "bindR m f = (Inr y, s') \<longleftrightarrow> (\<exists>x s. m = (Inr x, s) \<and> f x s = (Inr y, s'))"
  by (cases m; cases "fst m") auto

lemma bindR_Inl: "bindR m f = (Inl e, s') \<longleftrightarrow> m = (Inl e, s') \<or> (\<exists>x s. m = (Inr x, s) \<and> f x s = (Inl e, s'))"
  by (cases m; cases "fst m") auto

end
