(* ===== verification/Std_Map.thy ===== *)
theory Std_Map
  imports A2_Prelude
begin

text \<open>
  The ordered associative container std::map of the C++ standard library, as a list of
  key-value pairs in strictly increasing key order: the operations the program calls
  (find, emplace, operator[], erase, lower_bound, upper_bound) and their laws, stated once
  as the contract ordered_map and proved for the model by its interpretation.
\<close>

type_synonym ('k, 'v) smap = "('k \<times> 'v) list"

definition smap_ok :: "('k::linorder, 'v) smap \<Rightarrow> bool" where
  "smap_ok m \<longleftrightarrow> sorted_wrt (<) (map fst m)"

definition sm_find :: "('k, 'v) smap \<Rightarrow> 'k \<Rightarrow> 'v option" where
  "sm_find m k = map_of m k"

text \<open>operator[] and assignment: replaces the value of an existing key.\<close>

fun sm_assign :: "'k::linorder \<Rightarrow> 'v \<Rightarrow> ('k, 'v) smap \<Rightarrow> ('k, 'v) smap" where
  "sm_assign k v [] = [(k, v)]"
| "sm_assign k v ((a, b) # m) =
     (if k < a then (k, v) # (a, b) # m
      else if k = a then (k, v) # m
      else (a, b) # sm_assign k v m)"

text \<open>emplace and try_emplace: keep the value of an existing key.\<close>

definition sm_emplace :: "'k::linorder \<Rightarrow> 'v \<Rightarrow> ('k, 'v) smap \<Rightarrow> ('k, 'v) smap" where
  "sm_emplace k v m = (if map_of m k = None then sm_assign k v m else m)"

fun sm_erase :: "'k \<Rightarrow> ('k, 'v) smap \<Rightarrow> ('k, 'v) smap" where
  "sm_erase k [] = []"
| "sm_erase k ((a, b) # m) = (if k = a then m else (a, b) # sm_erase k m)"

definition sm_upper_bound :: "('k::linorder, 'v) smap \<Rightarrow> 'k \<Rightarrow> ('k \<times> 'v) option" where
  "sm_upper_bound m k = List.find (\<lambda>kv. k < fst kv) m"

definition sm_lower_bound :: "('k::linorder, 'v) smap \<Rightarrow> 'k \<Rightarrow> ('k \<times> 'v) option" where
  "sm_lower_bound m k = List.find (\<lambda>kv. k \<le> fst kv) m"

text \<open>Iterating from the iterator that find returned: the entries from that key on.\<close>

definition sm_from :: "('k, 'v) smap \<Rightarrow> 'k \<Rightarrow> ('k, 'v) smap" where
  "sm_from m k = dropWhile (\<lambda>kv. fst kv \<noteq> k) m"

section \<open>Laws of the model\<close>

lemma smap_ok_Nil [simp]: "smap_ok []"
  by (simp add: smap_ok_def)

lemma smap_ok_Cons: "smap_ok ((k, v) # m) \<longleftrightarrow> (\<forall>k' \<in> fst ` set m. k < k') \<and> smap_ok m"
  by (auto simp: smap_ok_def)

lemma smap_ok_append:
  "smap_ok (m @ n) \<longleftrightarrow> smap_ok m \<and> smap_ok n \<and> (\<forall>a \<in> fst ` set m. \<forall>b \<in> fst ` set n. a < b)"
  by (auto simp: smap_ok_def sorted_wrt_append)

lemma smap_ok_distinct: "smap_ok m \<Longrightarrow> distinct (map fst m)"
  by (simp add: smap_ok_def strict_sorted_iff)

lemma map_of_assign [simp]: "map_of (sm_assign k v m) = (map_of m)(k \<mapsto> v)"
  by (induction k v m rule: sm_assign.induct) (auto simp: fun_eq_iff)

lemma keys_assign [simp]: "fst ` set (sm_assign k v m) = insert k (fst ` set m)"
  by (induction k v m rule: sm_assign.induct) auto

lemma smap_ok_assign: "smap_ok m \<Longrightarrow> smap_ok (sm_assign k v m)"
  by (induction k v m rule: sm_assign.induct) (auto simp: smap_ok_Cons)

lemma map_of_emplace [simp]:
  "map_of (sm_emplace k v m) = (if k \<in> dom (map_of m) then map_of m else (map_of m)(k \<mapsto> v))"
  by (auto simp: sm_emplace_def)

lemma smap_ok_emplace: "smap_ok m \<Longrightarrow> smap_ok (sm_emplace k v m)"
  by (simp add: sm_emplace_def smap_ok_assign)

lemma keys_emplace [simp]: "fst ` set (sm_emplace k v m) = insert k (fst ` set m)"
  by (auto simp: sm_emplace_def dom_def) (metis fst_conv image_eqI map_of_SomeD)

lemma set_erase_subset: "set (sm_erase k m) \<subseteq> set m"
  by (induction k m rule: sm_erase.induct) auto

lemma smap_ok_erase: "smap_ok m \<Longrightarrow> smap_ok (sm_erase k m)"
proof (induction k m rule: sm_erase.induct)
  case (2 k a b m)
  then show ?case using set_erase_subset [of k m] by (auto simp: smap_ok_Cons)
qed simp

lemma map_of_erase [simp]: "smap_ok m \<Longrightarrow> map_of (sm_erase k m) = (map_of m)(k := None)"
proof (induction k m rule: sm_erase.induct)
  case (2 k a b m)
  have "map_of m a = None" using 2 by (force simp: smap_ok_Cons map_of_eq_None_iff)
  then show ?case using 2 by (auto simp: smap_ok_Cons fun_eq_iff)
qed simp

lemma keys_erase: "smap_ok m \<Longrightarrow> fst ` set (sm_erase k m) = fst ` set m - {k}"
  by (induction k m rule: sm_erase.induct) (auto simp: smap_ok_Cons)

lemma sm_find_in: "sm_find m k = Some v \<Longrightarrow> (k, v) \<in> set m"
  by (simp add: sm_find_def map_of_SomeD)

lemma in_sm_find: "smap_ok m \<Longrightarrow> (k, v) \<in> set m \<Longrightarrow> map_of m k = Some v"
  by (simp add: smap_ok_distinct)

lemma sm_upper_bound_Some:
  assumes "smap_ok m" and "sm_upper_bound m k = Some (a, b)"
  shows "k < a \<and> map_of m a = Some b \<and> (\<forall>c. k < c \<and> c < a \<longrightarrow> map_of m c = None)"
  using assms
proof (induction m)
  case (Cons x m)
  obtain a' b' where x: "x = (a', b')" by force
  show ?case
  proof (cases "k < a'")
    case True
    then have "a = a'" "b = b'" using Cons.prems(2) by (auto simp: sm_upper_bound_def x)
    moreover have "\<forall>c < a'. map_of m c = None"
      using Cons.prems(1) by (force simp: smap_ok_Cons x map_of_eq_None_iff)
    ultimately show ?thesis using True by (auto simp: x)
  next
    case False
    then have "sm_upper_bound m k = Some (a, b)"
      using Cons.prems(2) by (simp add: sm_upper_bound_def x)
    with Cons have "k < a \<and> map_of m a = Some b \<and> (\<forall>c. k < c \<and> c < a \<longrightarrow> map_of m c = None)"
      by (simp add: smap_ok_Cons x)
    with False show ?thesis by (auto simp: x)
  qed
qed (simp add: sm_upper_bound_def)

lemma sm_upper_bound_None:
  assumes "sm_upper_bound m k = None"
  shows "k < c \<Longrightarrow> map_of m c = None"
  using assms by (induction m) (auto simp: sm_upper_bound_def split: if_splits)

lemma sm_lower_bound_Some:
  assumes "sm_lower_bound m k = Some (a, b)"
  shows "k \<le> a \<and> (a, b) \<in> set m"
  using assms unfolding sm_lower_bound_def
  by (metis find_Some_iff fst_conv nth_mem)

lemma sm_from_found:
  "(k, v) \<in> set m \<Longrightarrow> distinct (map fst m) \<Longrightarrow> \<exists>pre rest. m = pre @ (k, v) # rest \<and> sm_from m k = (k, v) # rest"
proof (induction m)
  case (Cons x m)
  show ?case
  proof (cases "fst x = k")
    case True
    then have "x = (k, v)" using Cons.prems by (force simp: image_iff)
    then have "x # m = [] @ (k, v) # m \<and> sm_from (x # m) k = (k, v) # m"
      by (simp add: sm_from_def)
    then show ?thesis by blast
  next
    case False
    then obtain pre rest where "m = pre @ (k, v) # rest" "sm_from m k = (k, v) # rest"
      using Cons by fastforce
    then have "x # m = (x # pre) @ (k, v) # rest \<and> sm_from (x # m) k = (k, v) # rest"
      using False by (simp add: sm_from_def)
    then show ?thesis by blast
  qed
qed simp

section \<open>The contract\<close>

locale ordered_map =
  fixes find :: "'m \<Rightarrow> 'k::linorder \<Rightarrow> 'v option"
    and assign :: "'k \<Rightarrow> 'v \<Rightarrow> 'm \<Rightarrow> 'm"
    and emplace :: "'k \<Rightarrow> 'v \<Rightarrow> 'm \<Rightarrow> 'm"
    and erase :: "'k \<Rightarrow> 'm \<Rightarrow> 'm"
    and ok :: "'m \<Rightarrow> bool"
  assumes find_assign: "ok m \<Longrightarrow> find (assign k v m) = (find m)(k \<mapsto> v)"
    and find_emplace: "ok m \<Longrightarrow> find (emplace k v m) = (if find m k = None then (find m)(k \<mapsto> v) else find m)"
    and find_erase: "ok m \<Longrightarrow> find (erase k m) = (find m)(k := None)"
    and ok_assign: "ok m \<Longrightarrow> ok (assign k v m)"
    and ok_emplace: "ok m \<Longrightarrow> ok (emplace k v m)"
    and ok_erase: "ok m \<Longrightarrow> ok (erase k m)"
begin

lemmas laws = find_assign find_emplace find_erase ok_assign ok_emplace ok_erase

lemma erase_then_emplace: "ok m \<Longrightarrow> find (emplace k v (erase k m)) = (find m)(k \<mapsto> v)"
  by (simp add: laws)

lemma emplace_keeps: "ok m \<Longrightarrow> find m k = Some v \<Longrightarrow> find (emplace k v' m) k = Some v"
  by (simp add: laws)

lemma rekey:
  assumes "ok m" and "find m k = Some v" and "k \<noteq> k'"
  shows "find (assign k' v (erase k m)) = (find m)(k := None, k' \<mapsto> v)"
  using assms by (simp add: laws)

end

interpretation sm: ordered_map sm_find sm_assign sm_emplace sm_erase smap_ok
  by unfold_locales
    (auto simp: sm_find_def fun_eq_iff smap_ok_assign smap_ok_emplace smap_ok_erase)

end
