(* ===== verification/File_Page.thy ===== *)
theory File_Page
  imports Std_Map
begin

text \<open>
  Page and the page arithmetic of MemoryAllocator (src/lib/andromeda/filesystem/filedata):
  a page is its buffer and its dirty flag, and its memory usage is counted in whole OS pages.
  Memory that the allocator hands out has unspecified content; the model passes that content
  in as an argument (junk), so that a theorem about all junk is a theorem that no
  uninitialised byte is used. The second half models the page map of one file as the bytes
  it stands for.
\<close>

section \<open>Memory pages\<close>

text \<open>getNumPages and getNumBytes; os is the OS page size.\<close>

definition num_pages :: "nat \<Rightarrow> nat \<Rightarrow> nat" where
  "num_pages os bytes = (if bytes \<noteq> 0 then (bytes - 1) div os + 1 else 0)"

definition num_bytes :: "nat \<Rightarrow> nat \<Rightarrow> nat" where
  "num_bytes os bytes = num_pages os bytes * os"

lemma num_pages_bounds:
  assumes "0 < os"
  shows "bytes \<le> num_pages os bytes * os" and "num_pages os bytes * os < bytes + os"
proof -
  have "bytes \<le> num_pages os bytes * os \<and> num_pages os bytes * os < bytes + os"
  proof (cases "bytes = 0")
    case False
    have "num_pages os bytes * os = (bytes - 1) div os * os + os"
      using False by (simp add: num_pages_def)
    with False page_index_bounds [OF assms, of "bytes - 1"] show ?thesis by linarith
  qed (use assms in \<open>simp add: num_pages_def\<close>)
  then show "bytes \<le> num_pages os bytes * os" and "num_pages os bytes * os < bytes + os"
    by blast+
qed

lemma num_pages_0 [simp]: "num_pages os 0 = 0"
  by (simp add: num_pages_def)

lemma num_pages_mono: "a \<le> b \<Longrightarrow> num_pages os a \<le> num_pages os b"
  by (auto simp: num_pages_def intro!: div_le_mono)

section \<open>Page\<close>

record page =
  pg_data :: bytes
  pg_dirty :: bool

definition pg_size :: "page \<Rightarrow> nat" where
  "pg_size p = length (pg_data p)"

text \<open>The constructor: a buffer of the given size with unspecified content, not dirty.\<close>

definition page_new :: "(nat \<Rightarrow> byte) \<Rightarrow> nat \<Rightarrow> page" where
  "page_new junk n = \<lparr>pg_data = map junk [0..<n], pg_dirty = False\<rparr>"

definition page_capacity :: "nat \<Rightarrow> page \<Rightarrow> nat" where
  "page_capacity os p = num_pages os (pg_size p) * os"

definition set_dirty :: "bool \<Rightarrow> page \<Rightarrow> page" where
  "set_dirty d p = p\<lparr>pg_dirty := d\<rparr>"

text \<open>
  Page::resize: if the number of memory pages changes the buffer is reallocated and the common
  prefix copied, otherwise only the size changes; either way the bytes past the old size are
  whatever the memory holds.
\<close>

definition page_resize :: "nat \<Rightarrow> (nat \<Rightarrow> byte) \<Rightarrow> nat \<Rightarrow> page \<Rightarrow> page" where
  "page_resize os junk n p =
     (if num_pages os n \<noteq> num_pages os (pg_size p)
      then p\<lparr>pg_data := splice (map junk [0..<n]) 0 (take (min n (pg_size p)) (pg_data p))\<rparr>
      else p\<lparr>pg_data := take n (pg_data p) @ map junk [pg_size p..<n]\<rparr>)"

text \<open>The page half of PageManager::ResizePage: resize, then memset what is new to zero.\<close>

definition resize_zeroed :: "nat \<Rightarrow> (nat \<Rightarrow> byte) \<Rightarrow> nat \<Rightarrow> page \<Rightarrow> page" where
  "resize_zeroed os junk n p =
     (let old = pg_size p in
      if old = n then p
      else let p' = page_resize os junk n p
           in if n > old then p'\<lparr>pg_data := splice (pg_data p') old (replicate (n - old) 0)\<rparr> else p')"

lemma pg_size_resize [simp]: "pg_size (page_resize os junk n p) = n"
  by (auto simp: page_resize_def pg_size_def splice_def)

lemma pg_dirty_resize [simp]: "pg_dirty (page_resize os junk n p) = pg_dirty p"
  by (auto simp: page_resize_def)

lemma page_resize_prefix:
  "i < n \<Longrightarrow> i < pg_size p \<Longrightarrow> pg_data (page_resize os junk n p) ! i = pg_data p ! i"
  by (auto simp: page_resize_def pg_size_def nth_splice nth_append)

lemma resize_zeroed_data: "pg_data (resize_zeroed os junk n p) = resize_bytes (pg_data p) n"
proof (rule nth_equalityI)
  have size: "length (pg_data (resize_zeroed os junk n p)) = n"
    using pg_size_resize [of os junk n p]
    by (auto simp: resize_zeroed_def Let_def pg_size_def length_splice)
  then show "length (pg_data (resize_zeroed os junk n p)) = length (resize_bytes (pg_data p) n)"
    by simp
  fix i assume "i < length (pg_data (resize_zeroed os junk n p))"
  then have i: "i < n" by (simp add: size)
  then show "pg_data (resize_zeroed os junk n p) ! i = resize_bytes (pg_data p) n ! i"
    using pg_size_resize [of os junk n p] page_resize_prefix [of i n p os junk]
    by (auto simp: resize_zeroed_def Let_def pg_size_def nth_splice resize_bytes_def nth_append)
qed

lemma pg_size_resize_zeroed [simp]: "pg_size (resize_zeroed os junk n p) = n"
  by (simp add: pg_size_def resize_zeroed_data)

lemma pg_dirty_resize_zeroed [simp]: "pg_dirty (resize_zeroed os junk n p) = pg_dirty p"
  by (auto simp: resize_zeroed_def Let_def)

lemma pg_dirty_set [simp]: "pg_dirty (set_dirty d p) = d" and
  pg_data_set_dirty [simp]: "pg_data (set_dirty d p) = pg_data p" and
  pg_size_set_dirty [simp]: "pg_size (set_dirty d p) = pg_size p"
  by (simp_all add: set_dirty_def pg_size_def)

section \<open>The bytes of a page map\<close>

text \<open>
  What the pages of a file stand for: byte i of the file is in page i div n, and where no
  page is loaded it is the byte stored on the backend.
\<close>

definition view :: "nat \<Rightarrow> (nat, page) smap \<Rightarrow> (nat \<Rightarrow> byte) \<Rightarrow> nat \<Rightarrow> byte" where
  "view n pages srv i =
     (case map_of pages (i div n) of None \<Rightarrow> srv i | Some p \<Rightarrow> nth0 (pg_data p) (i mod n))"

lemma view_in_page:
  assumes "0 < n" and "k * n \<le> i" and "i < k * n + n" and "map_of pages k = Some p"
  shows "view n pages srv i = nth0 (pg_data p) (i - k * n)"
  using assms page_index_split [OF assms(1-3)] by (simp add: view_def)

lemma view_cong:
  assumes "\<And>i. map_of pages' (i div n) = map_of pages (i div n)"
    and "\<And>i. map_of pages (i div n) = None \<Longrightarrow> srv' i = srv i"
  shows "view n pages' srv' = view n pages srv"
  using assms by (auto simp: view_def fun_eq_iff split: option.splits)

text \<open>Writing length bytes at an offset of the file, as a function on positions.\<close>

definition overlay :: "(nat \<Rightarrow> byte) \<Rightarrow> nat \<Rightarrow> bytes \<Rightarrow> nat \<Rightarrow> byte" where
  "overlay f off ys i = (if off \<le> i \<and> i < off + length ys then ys ! (i - off) else f i)"

lemma overlay_Nil [simp]: "overlay f off [] = f"
  by (auto simp: overlay_def fun_eq_iff)

lemma overlay_append:
  "overlay (overlay f off xs) (off + length xs) ys = overlay f off (xs @ ys)"
  by (auto simp: overlay_def fun_eq_iff nth_append)

text \<open>The file as a byte list of a given length.\<close>

definition take_view :: "(nat \<Rightarrow> byte) \<Rightarrow> nat \<Rightarrow> nat \<Rightarrow> bytes" where
  "take_view f off len = map f [off..<off + len]"

lemma length_take_view [simp]: "length (take_view f off len) = len"
  by (simp add: take_view_def)

lemma nth_take_view [simp]: "i < len \<Longrightarrow> take_view f off len ! i = f (off + i)"
  by (simp add: take_view_def)

lemma take_view_append:
  "take_view f off (a + b) = take_view f off a @ take_view f (off + a) b"
  unfolding take_view_def by (metis add.assoc map_append upt_add_eq_append le_add1)

lemma take_view_cong:
  "(\<And>i. off \<le> i \<Longrightarrow> i < off + len \<Longrightarrow> f i = g i) \<Longrightarrow> take_view f off len = take_view g off len"
  by (simp add: take_view_def)

end
