(* ===== verification/Ordered_Map.thy ===== *)
theory Ordered_Map
  imports A2_Prelude
begin

text \<open>
  The program's OrderedMap (src/lib/andromeda/OrderedMap.hpp): a std::list of entries with a
  std::unordered_map from keys to list iterators. The model keeps both halves: the list
  holds nodes, each with the identity an iterator points to, and the lookup table maps a key
  to a node identity. The lemmas show that the two halves stay in agreement and that, seen
  as a plain list of key-value pairs, each operation does what its comment promises. The
  contract lru_queue states the latter for the clients (CacheManager and CachingAllocator).
\<close>

record ('k, 'v) omap =
  om_queue :: "(nat \<times> 'k \<times> 'v) list"
  om_lookup :: "'k \<rightharpoonup> nat"
  om_next :: nat

definition om_empty :: "('k, 'v) omap" where
  "om_empty = \<lparr>om_queue = [], om_lookup = Map.empty, om_next = 0\<rparr>"

text \<open>Dereferencing a list iterator, and erasing the node it points to.\<close>

definition om_node :: "('k, 'v) omap \<Rightarrow> nat \<Rightarrow> ('k \<times> 'v) option" where
  "om_node m n = map_of (om_queue m) n"

definition om_drop_node :: "nat \<Rightarrow> (nat \<times> 'k \<times> 'v) list \<Rightarrow> (nat \<times> 'k \<times> 'v) list" where
  "om_drop_node n q = filter (\<lambda>e. fst e \<noteq> n) q"

definition om_size :: "('k, 'v) omap \<Rightarrow> nat" where
  "om_size m = length (om_queue m)"

definition om_is_empty :: "('k, 'v) omap \<Rightarrow> bool" where
  "om_is_empty m \<longleftrightarrow> om_queue m = []"

definition om_front :: "('k, 'v) omap \<Rightarrow> ('k \<times> 'v) option" where
  "om_front m = (case om_queue m of [] \<Rightarrow> None | e # _ \<Rightarrow> Some (snd e))"

definition om_back :: "('k, 'v) omap \<Rightarrow> ('k \<times> 'v) option" where
  "om_back m = (case rev (om_queue m) of [] \<Rightarrow> None | e # _ \<Rightarrow> Some (snd e))"

definition om_clear :: "('k, 'v) omap \<Rightarrow> ('k, 'v) omap" where
  "om_clear m = m\<lparr>om_queue := [], om_lookup := Map.empty\<rparr>"

definition om_exists :: "('k, 'v) omap \<Rightarrow> 'k \<Rightarrow> bool" where
  "om_exists m k \<longleftrightarrow> om_lookup m k \<noteq> None"

definition om_find :: "('k, 'v) omap \<Rightarrow> 'k \<Rightarrow> ('k \<times> 'v) option" where
  "om_find m k = (case om_lookup m k of None \<Rightarrow> None | Some n \<Rightarrow> om_node m n)"

text \<open>Assigning through the iterator that find returned.\<close>

definition om_modify :: "'k \<Rightarrow> ('v \<Rightarrow> 'v) \<Rightarrow> ('k, 'v) omap \<Rightarrow> ('k, 'v) omap" where
  "om_modify k f m =
     (case om_lookup m k of None \<Rightarrow> m
      | Some n \<Rightarrow> m\<lparr>om_queue := map (\<lambda>(i, a, v). if i = n then (i, a, f v) else (i, a, v)) (om_queue m)\<rparr>)"

definition om_erase :: "'k \<Rightarrow> ('k, 'v) omap \<Rightarrow> bool \<times> ('k, 'v) omap" where
  "om_erase k m =
     (case om_lookup m k of None \<Rightarrow> (False, m)
      | Some n \<Rightarrow> (True, m\<lparr>om_queue := om_drop_node n (om_queue m),
                            om_lookup := (om_lookup m)(k := None)\<rparr>))"

definition om_pop :: "'k \<Rightarrow> ('k, 'v) omap \<Rightarrow> 'v option \<times> ('k, 'v) omap" where
  "om_pop k m =
     (case om_lookup m k of None \<Rightarrow> (None, m)
      | Some n \<Rightarrow> (map_option snd (om_node m n),
                   m\<lparr>om_queue := om_drop_node n (om_queue m),
                     om_lookup := (om_lookup m)(k := None)\<rparr>))"

text \<open>pop_front and pop_back of an empty map are undefined behaviour in the source: None.\<close>

definition om_pop_front :: "('k, 'v) omap \<Rightarrow> (('k \<times> 'v) \<times> ('k, 'v) omap) option" where
  "om_pop_front m =
     (case om_queue m of [] \<Rightarrow> None
      | (n, k, v) # q \<Rightarrow> Some ((k, v), m\<lparr>om_queue := q, om_lookup := (om_lookup m)(k := None)\<rparr>))"

definition om_pop_back :: "('k, 'v) omap \<Rightarrow> (('k \<times> 'v) \<times> ('k, 'v) omap) option" where
  "om_pop_back m =
     (case rev (om_queue m) of [] \<Rightarrow> None
      | (n, k, v) # q \<Rightarrow> Some ((k, v), m\<lparr>om_queue := rev q, om_lookup := (om_lookup m)(k := None)\<rparr>))"

definition om_enqueue_front :: "'k \<Rightarrow> 'v \<Rightarrow> ('k, 'v) omap \<Rightarrow> ('k, 'v) omap" where
  "om_enqueue_front k v m =
     m\<lparr>om_queue := (om_next m, k, v) # om_queue m,
       om_lookup := (om_lookup m)(k \<mapsto> om_next m), om_next := Suc (om_next m)\<rparr>"

definition om_enqueue_back :: "'k \<Rightarrow> 'v \<Rightarrow> ('k, 'v) omap \<Rightarrow> ('k, 'v) omap" where
  "om_enqueue_back k v m =
     m\<lparr>om_queue := om_queue m @ [(om_next m, k, v)],
       om_lookup := (om_lookup m)(k \<mapsto> om_next m), om_next := Suc (om_next m)\<rparr>"

definition om_of_list :: "('k \<times> 'v) list \<Rightarrow> ('k, 'v) omap" where
  "om_of_list xs = fold (\<lambda>(k, v) m. om_enqueue_back k v m) xs om_empty"

fun om_equal_lists :: "('k \<times> 'v) list \<Rightarrow> ('k \<times> 'v) list \<Rightarrow> bool" where
  "om_equal_lists [] _ = True"
| "om_equal_lists (a # xs) (b # ys) = (if a \<noteq> b then False else om_equal_lists xs ys)"
| "om_equal_lists (a # xs) [] = False"

definition om_equal :: "('k, 'v) omap \<Rightarrow> ('k, 'v) omap \<Rightarrow> bool" where
  "om_equal m n =
     (if om_size m \<noteq> om_size n then False
      else if om_size m = 0 \<and> om_size n = 0 then True
      else om_equal_lists (map snd (om_queue m)) (map snd (om_queue n)))"

section \<open>Agreement of the two halves\<close>

definition om_ok :: "('k, 'v) omap \<Rightarrow> bool" where
  "om_ok m \<longleftrightarrow>
     distinct (map fst (om_queue m)) \<and>
     distinct (map (fst \<circ> snd) (om_queue m)) \<and>
     (\<forall>e \<in> set (om_queue m). fst e < om_next m) \<and>
     (\<forall>k n. om_lookup m k = Some n \<longleftrightarrow> (\<exists>v. (n, k, v) \<in> set (om_queue m)))"

text \<open>The map seen from outside: its entries in order.\<close>

definition om_list :: "('k, 'v) omap \<Rightarrow> ('k \<times> 'v) list" where
  "om_list m = map snd (om_queue m)"

lemma om_ok_empty [simp]: "om_ok om_empty" and om_list_empty [simp]: "om_list om_empty = []"
  by (auto simp: om_ok_def om_empty_def om_list_def)

lemma om_list_distinct: "om_ok m \<Longrightarrow> distinct (map fst (om_list m))"
  by (simp add: om_ok_def om_list_def comp_def)

lemma om_lookup_None: "om_ok m \<Longrightarrow> om_lookup m k = None \<longleftrightarrow> k \<notin> fst ` set (om_list m)"
proof -
  assume ok: "om_ok m"
  have "om_lookup m k \<noteq> None \<longleftrightarrow> (\<exists>n v. (n, k, v) \<in> set (om_queue m))"
    using ok unfolding om_ok_def by blast
  also have "\<dots> \<longleftrightarrow> k \<in> fst ` set (om_list m)"
    by (force simp: om_list_def image_iff)
  finally show ?thesis by blast
qed

lemma om_node_in: "om_ok m \<Longrightarrow> (n, k, v) \<in> set (om_queue m) \<Longrightarrow> om_node m n = Some (k, v)"
  by (auto simp: om_node_def om_ok_def)

lemma om_list_map_of: "om_ok m \<Longrightarrow> (n, k, v) \<in> set (om_queue m) \<Longrightarrow> map_of (om_list m) k = Some v"
  using om_list_distinct [of m] by (force simp: om_list_def image_iff intro: map_of_is_SomeI)

lemma om_find_list: "om_ok m \<Longrightarrow> om_find m k = map_option (Pair k) (map_of (om_list m) k)"
proof (cases "om_lookup m k")
  case None
  moreover assume "om_ok m"
  ultimately show ?thesis
    by (metis map_of_eq_None_iff om_find_def om_lookup_None option.simps(4) option.map(1))
next
  case (Some n)
  moreover assume ok: "om_ok m"
  ultimately obtain v where "(n, k, v) \<in> set (om_queue m)" unfolding om_ok_def by blast
  then show ?thesis using ok Some by (simp add: om_find_def om_node_in om_list_map_of)
qed

lemma om_drop_node_list:
  assumes "om_ok m" and "(n, k, v) \<in> set (om_queue m)"
  shows "map snd (om_drop_node n (om_queue m)) = filter (\<lambda>e. fst e \<noteq> k) (om_list m)"
proof -
  have "fst e \<noteq> n \<longleftrightarrow> fst (snd e) \<noteq> k" if "e \<in> set (om_queue m)" for e
  proof -
    obtain n' k' v' where e: "e = (n', k', v')" by (cases e) auto
    have "n' = n \<longleftrightarrow> k' = k"
      using assms that e unfolding om_ok_def
      by (metis (no_types, lifting) option.inject om_list_map_of om_node_in assms(1) prod.inject)
    then show ?thesis by (simp add: e)
  qed
  then have "om_drop_node n (om_queue m) = filter (\<lambda>e. fst (snd e) \<noteq> k) (om_queue m)"
    unfolding om_drop_node_def by (intro filter_cong) auto
  then show ?thesis by (simp add: om_list_def filter_map comp_def)
qed

lemma om_ok_drop:
  assumes ok: "om_ok m" and n: "(n, k, v) \<in> set (om_queue m)"
  shows "om_ok (m\<lparr>om_queue := om_drop_node n (om_queue m), om_lookup := (om_lookup m)(k := None)\<rparr>)"
proof -
  have uniq: "n' = n \<longleftrightarrow> k' = k" if "(n', k', v') \<in> set (om_queue m)" for n' k' v'
    using that n ok om_node_in [OF ok] unfolding om_ok_def
    by (metis option.inject prod.inject)
  show ?thesis
    using ok uniq unfolding om_ok_def om_drop_node_def
    by (auto simp: distinct_map_filter)
qed

lemma om_erase_spec:
  assumes ok: "om_ok m"
  shows "om_ok (snd (om_erase k m))"
    and "om_list (snd (om_erase k m)) = filter (\<lambda>e. fst e \<noteq> k) (om_list m)"
    and "fst (om_erase k m) \<longleftrightarrow> k \<in> fst ` set (om_list m)"
proof -
  have "om_ok (snd (om_erase k m)) \<and>
    om_list (snd (om_erase k m)) = filter (\<lambda>e. fst e \<noteq> k) (om_list m) \<and>
    (fst (om_erase k m) \<longleftrightarrow> k \<in> fst ` set (om_list m))"
  proof (cases "om_lookup m k")
    case None
    then have "k \<notin> fst ` set (om_list m)" using om_lookup_None [OF ok] by blast
    moreover from this have "filter (\<lambda>e. fst e \<noteq> k) (om_list m) = om_list m"
      by (intro filter_True) (force simp: image_iff)
    ultimately show ?thesis using None ok by (simp add: om_erase_def)
  next
    case (Some n)
    then obtain v where v: "(n, k, v) \<in> set (om_queue m)" using ok unfolding om_ok_def by blast
    have "k \<in> fst ` set (om_list m)" using om_lookup_None [OF ok, of k] Some by simp
    then show ?thesis
      using Some om_ok_drop [OF ok v] om_drop_node_list [OF ok v]
      by (simp add: om_erase_def om_list_def)
  qed
  then show "om_ok (snd (om_erase k m))"
    and "om_list (snd (om_erase k m)) = filter (\<lambda>e. fst e \<noteq> k) (om_list m)"
    and "fst (om_erase k m) \<longleftrightarrow> k \<in> fst ` set (om_list m)" by blast+
qed

lemma om_pop_spec:
  assumes ok: "om_ok m"
  shows "om_pop k m = (map_of (om_list m) k, snd (om_erase k m))"
proof (cases "om_lookup m k")
  case None
  then have "map_of (om_list m) k = None"
    using om_lookup_None [OF ok, of k] by (simp add: map_of_eq_None_iff)
  then show ?thesis using None by (simp add: om_pop_def om_erase_def)
next
  case (Some n)
  then obtain v where v: "(n, k, v) \<in> set (om_queue m)" using ok unfolding om_ok_def by blast
  show ?thesis using Some om_node_in [OF ok v] om_list_map_of [OF ok v]
    by (simp add: om_pop_def om_erase_def)
qed

lemma om_enqueue_front_spec:
  assumes ok: "om_ok m" and new: "k \<notin> fst ` set (om_list m)"
  shows "om_ok (om_enqueue_front k v m)"
    and "om_list (om_enqueue_front k v m) = (k, v) # om_list m"
proof -
  have nk: "\<And>n v. (n, k, v) \<notin> set (om_queue m)" using new by (force simp: om_list_def image_iff)
  show "om_ok (om_enqueue_front k v m)"
    using ok nk unfolding om_ok_def om_enqueue_front_def
    by (auto simp: image_iff less_Suc_eq)
  show "om_list (om_enqueue_front k v m) = (k, v) # om_list m"
    by (simp add: om_list_def om_enqueue_front_def)
qed

lemma om_enqueue_back_spec:
  assumes ok: "om_ok m" and new: "k \<notin> fst ` set (om_list m)"
  shows "om_ok (om_enqueue_back k v m)"
    and "om_list (om_enqueue_back k v m) = om_list m @ [(k, v)]"
proof -
  have nk: "\<And>n v. (n, k, v) \<notin> set (om_queue m)" using new by (force simp: om_list_def image_iff)
  show "om_ok (om_enqueue_back k v m)"
    using ok nk unfolding om_ok_def om_enqueue_back_def
    by (auto simp: image_iff less_Suc_eq)
  show "om_list (om_enqueue_back k v m) = om_list m @ [(k, v)]"
    by (simp add: om_list_def om_enqueue_back_def)
qed

lemma map_modify_keys:
  "map (\<lambda>(i, a, v). (i, a)) (map (\<lambda>(i, a, v). if i = n then (i, a, f v) else (i, a, v)) q) =
   map (\<lambda>(i, a, v). (i, a)) q"
  by (induction q) auto

lemma om_modify_spec:
  assumes ok: "om_ok m"
  shows "om_ok (om_modify k f m)"
    and "om_list (om_modify k f m) = map (\<lambda>(a, v). if a = k then (a, f v) else (a, v)) (om_list m)"
proof -
  have "om_ok (om_modify k f m) \<and>
    om_list (om_modify k f m) = map (\<lambda>(a, v). if a = k then (a, f v) else (a, v)) (om_list m)"
  proof (cases "om_lookup m k")
    case None
    then have "k \<notin> fst ` set (om_list m)" using om_lookup_None [OF ok] by blast
    then have "map (\<lambda>(a, v). if a = k then (a, f v) else (a, v)) (om_list m) = om_list m"
      by (intro map_idI) (force simp: image_iff)
    then show ?thesis using None ok by (simp add: om_modify_def)
  next
    case (Some n)
    then obtain v where v: "(n, k, v) \<in> set (om_queue m)" using ok unfolding om_ok_def by blast
    have uniq: "n' = n \<longleftrightarrow> k' = k" if "(n', k', v') \<in> set (om_queue m)" for n' k' v'
      using that v ok om_node_in [OF ok] unfolding om_ok_def
      by (metis option.inject prod.inject)
    let ?g = "\<lambda>(i, a, v). if i = n then (i, a, f v) else (i, a, v)"
    have fsts: "map fst (map ?g q) = map fst q" "map (fst \<circ> snd) (map ?g q) = map (fst \<circ> snd) q" for q
      by (induction q) auto
    have proj: "(\<exists>v. (n', k', v) \<in> set q) \<longleftrightarrow> (n', k') \<in> set (map (\<lambda>(a, b, c). (a, b)) q)"
      for n' k' and q :: "(nat \<times> 'a \<times> 'b) list" by force
    have mem: "(\<exists>v. (n', k', v) \<in> set (map ?g (om_queue m))) \<longleftrightarrow> (\<exists>v. (n', k', v) \<in> set (om_queue m))" for n' k'
      unfolding proj map_modify_keys ..
    have bound: "\<forall>e \<in> set (map ?g (om_queue m)). fst e < om_next m"
      using ok unfolding om_ok_def by (force split: if_splits)
    have eq: "om_modify k f m = m\<lparr>om_queue := map ?g (om_queue m)\<rparr>"
      using Some by (simp add: om_modify_def)
    have sel: "om_queue (om_modify k f m) = map ?g (om_queue m)"
      "om_lookup (om_modify k f m) = om_lookup m" "om_next (om_modify k f m) = om_next m"
      unfolding eq by simp_all
    have "om_ok (om_modify k f m)"
      using ok bound unfolding om_ok_def sel fsts mem by blast
    moreover have "map snd (map ?g (om_queue m)) =
        map ((\<lambda>(a, v). if a = k then (a, f v) else (a, v)) \<circ> snd) (om_queue m)"
      using uniq by (auto simp: comp_def)
    ultimately show ?thesis using Some by (simp add: om_modify_def om_list_def)
  qed
  then show "om_ok (om_modify k f m)"
    and "om_list (om_modify k f m) = map (\<lambda>(a, v). if a = k then (a, f v) else (a, v)) (om_list m)"
    by blast+
qed

lemma om_ok_tail:
  assumes "om_ok m" and "om_queue m = q1 @ (n, k, v) # q2" and "q1 = [] \<or> q2 = []"
  shows "om_ok (m\<lparr>om_queue := q1 @ q2, om_lookup := (om_lookup m)(k := None)\<rparr>)"
proof -
  have v: "(n, k, v) \<in> set (om_queue m)" using assms by simp
  have "om_drop_node n (om_queue m) = q1 @ q2"
  proof -
    have "n \<notin> fst ` set q1" and "n \<notin> fst ` set q2" using assms(1,2) by (simp_all add: om_ok_def)
    then have "filter (\<lambda>e. fst e \<noteq> n) q1 = q1" and "filter (\<lambda>e. fst e \<noteq> n) q2 = q2"
      unfolding filter_id_conv by blast+
    then show ?thesis by (simp add: om_drop_node_def assms(2))
  qed
  then show ?thesis using om_ok_drop [OF assms(1) v] by simp
qed

lemma om_pop_front_spec:
  assumes ok: "om_ok m"
  shows "om_pop_front m = None \<longleftrightarrow> om_list m = []"
    and "om_pop_front m = Some (e, m') \<Longrightarrow> om_ok m' \<and> om_list m = e # om_list m'"
proof -
  show "om_pop_front m = None \<longleftrightarrow> om_list m = []"
    by (auto simp: om_pop_front_def om_list_def split: list.splits)
  assume "om_pop_front m = Some (e, m')"
  then obtain n k v q where q: "om_queue m = (n, k, v) # q" and e: "e = (k, v)"
    and m': "m' = m\<lparr>om_queue := q, om_lookup := (om_lookup m)(k := None)\<rparr>"
    by (auto simp: om_pop_front_def split: list.splits)
  then show "om_ok m' \<and> om_list m = e # om_list m'"
    using om_ok_tail [OF ok, of "[]" n k v q] by (simp add: om_list_def)
qed

lemma om_pop_back_spec:
  assumes ok: "om_ok m"
  shows "om_pop_back m = None \<longleftrightarrow> om_list m = []"
    and "om_pop_back m = Some (e, m') \<Longrightarrow> om_ok m' \<and> om_list m = om_list m' @ [e]"
proof -
  show "om_pop_back m = None \<longleftrightarrow> om_list m = []"
    by (auto simp: om_pop_back_def om_list_def split: list.splits)
  assume "om_pop_back m = Some (e, m')"
  then obtain n k v q where q: "rev (om_queue m) = (n, k, v) # q" and e: "e = (k, v)"
    and m': "m' = m\<lparr>om_queue := rev q, om_lookup := (om_lookup m)(k := None)\<rparr>"
    by (auto simp: om_pop_back_def split: list.splits)
  from q have "om_queue m = rev q @ (n, k, v) # []" by (metis rev.simps(2) rev_swap)
  then show "om_ok m' \<and> om_list m = om_list m' @ [e]"
    using om_ok_tail [OF ok, of "rev q" n k v "[]"] by (simp add: m' e om_list_def)
qed

lemma om_front_list: "om_front m = (case om_list m of [] \<Rightarrow> None | e # _ \<Rightarrow> Some e)"
  by (auto simp: om_front_def om_list_def split: list.splits)

lemma om_back_list: "om_back m = (if om_list m = [] then None else Some (last (om_list m)))"
  by (cases "om_queue m" rule: rev_cases) (auto simp: om_back_def om_list_def)

lemma om_size_list: "om_size m = length (om_list m)"
  by (simp add: om_size_def om_list_def)

lemma om_ok_clear: "om_ok m \<Longrightarrow> om_ok (om_clear m)" and om_list_clear [simp]: "om_list (om_clear m) = []"
  by (auto simp: om_ok_def om_clear_def om_list_def)

lemma om_equal_lists_eq: "length xs = length ys \<Longrightarrow> om_equal_lists xs ys \<longleftrightarrow> xs = ys"
  by (induction xs ys rule: om_equal_lists.induct) auto

lemma om_equal_iff: "om_equal m n \<longleftrightarrow> om_list m = om_list n"
  by (auto simp: om_equal_def om_list_def om_size_def om_equal_lists_eq dest: map_eq_imp_length_eq)

lemma om_of_list_gen:
  "om_ok m \<Longrightarrow> distinct (map fst xs) \<Longrightarrow> fst ` set xs \<inter> fst ` set (om_list m) = {} \<Longrightarrow>
   om_ok (fold (\<lambda>(k, v) m. om_enqueue_back k v m) xs m) \<and>
   om_list (fold (\<lambda>(k, v) m. om_enqueue_back k v m) xs m) = om_list m @ xs"
proof (induction xs arbitrary: m)
  case (Cons x xs)
  obtain k v where x: "x = (k, v)" by force
  have new: "k \<notin> fst ` set (om_list m)" using Cons.prems(3) by (auto simp: x)
  note s = om_enqueue_back_spec [OF Cons.prems(1) new, of v]
  have "fst ` set xs \<inter> fst ` set (om_list (om_enqueue_back k v m)) = {}"
    using Cons.prems(2,3) by (force simp: s x)
  with Cons.IH [OF s(1)] Cons.prems(2) show ?case by (simp add: x s)
qed simp

lemma om_of_list_spec:
  "distinct (map fst xs) \<Longrightarrow> om_ok (om_of_list xs) \<and> om_list (om_of_list xs) = xs"
  using om_of_list_gen [of om_empty xs] by (simp add: om_of_list_def)

section \<open>The contract towards the clients\<close>

locale lru_queue =
  fixes entries :: "'q \<Rightarrow> ('k \<times> 'v) list"
    and ok :: "'q \<Rightarrow> bool"
    and empty :: 'q
    and find :: "'q \<Rightarrow> 'k \<Rightarrow> ('k \<times> 'v) option"
    and enqueue_front :: "'k \<Rightarrow> 'v \<Rightarrow> 'q \<Rightarrow> 'q"
    and erase :: "'k \<Rightarrow> 'q \<Rightarrow> bool \<times> 'q"
    and modify :: "'k \<Rightarrow> ('v \<Rightarrow> 'v) \<Rightarrow> 'q \<Rightarrow> 'q"
    and last_of :: "'q \<Rightarrow> ('k \<times> 'v) option"
    and pop_back :: "'q \<Rightarrow> (('k \<times> 'v) \<times> 'q) option"
  assumes empty_ok: "ok empty" and empty_entries: "entries empty = []"
    and distinct_entries: "ok q \<Longrightarrow> distinct (map fst (entries q))"
    and find_entries: "ok q \<Longrightarrow> find q k = map_option (Pair k) (map_of (entries q) k)"
    and enqueue_ok: "ok q \<Longrightarrow> k \<notin> fst ` set (entries q) \<Longrightarrow> ok (enqueue_front k v q)"
    and enqueue_entries: "ok q \<Longrightarrow> k \<notin> fst ` set (entries q) \<Longrightarrow> entries (enqueue_front k v q) = (k, v) # entries q"
    and erase_ok: "ok q \<Longrightarrow> ok (snd (erase k q))"
    and erase_entries: "ok q \<Longrightarrow> entries (snd (erase k q)) = filter (\<lambda>e. fst e \<noteq> k) (entries q)"
    and modify_ok: "ok q \<Longrightarrow> ok (modify k f q)"
    and modify_entries: "ok q \<Longrightarrow> entries (modify k f q) = map (\<lambda>(a, v). if a = k then (a, f v) else (a, v)) (entries q)"
    and back_entries: "last_of q = (if entries q = [] then None else Some (last (entries q)))"
    and pop_back_None: "ok q \<Longrightarrow> pop_back q = None \<longleftrightarrow> entries q = []"
    and pop_back_Some: "ok q \<Longrightarrow> pop_back q = Some (e, q') \<Longrightarrow> ok q' \<and> entries q = entries q' @ [e]"
begin

lemmas oks = empty_ok enqueue_ok erase_ok modify_ok

text \<open>A key that is moved to the front: the LRU touch.\<close>

definition touch :: "'k \<Rightarrow> 'v \<Rightarrow> 'q \<Rightarrow> 'q" where
  "touch k v q = enqueue_front k v (snd (erase k q))"

lemma touch_spec:
  assumes "ok q"
  shows "ok (touch k v q)"
    and "entries (touch k v q) = (k, v) # filter (\<lambda>e. fst e \<noteq> k) (entries q)"
proof -
  have "k \<notin> fst ` set (entries (snd (erase k q)))" using assms by (auto simp: erase_entries)
  then show "ok (touch k v q)"
    and "entries (touch k v q) = (k, v) # filter (\<lambda>e. fst e \<noteq> k) (entries q)"
    using assms by (simp_all add: touch_def enqueue_ok enqueue_entries erase_ok erase_entries)
qed

text \<open>Erasing a key takes exactly its own weight out of a total over the entries.\<close>

lemma erase_sum:
  fixes w :: "'v \<Rightarrow> nat"
  assumes "ok q"
  shows "(\<Sum>e\<leftarrow>entries (snd (erase k q)). w (snd e)) +
         (case map_of (entries q) k of None \<Rightarrow> 0 | Some v \<Rightarrow> w v) = (\<Sum>e\<leftarrow>entries q. w (snd e))"
proof -
  have "(\<Sum>e\<leftarrow>filter (\<lambda>e. fst e \<noteq> k) xs. w (snd e)) +
        (case map_of xs k of None \<Rightarrow> 0 | Some v \<Rightarrow> w v) = (\<Sum>e\<leftarrow>xs. w (snd e))"
    if "distinct (map fst xs)" for xs :: "('k \<times> 'v) list"
    using that
  proof (induction xs)
    case (Cons x xs)
    show ?case
    proof (cases "fst x = k")
      case True
      then have "k \<notin> fst ` set xs" using Cons.prems by auto
      then have "filter (\<lambda>e. fst e \<noteq> k) xs = xs" by (intro filter_True) (force simp: image_iff)
      then show ?thesis using True by (cases x) simp
    next
      case False
      then show ?thesis using Cons by (cases x) simp
    qed
  qed simp
  then show ?thesis using assms by (simp add: erase_entries distinct_entries)
qed

end

interpretation om: lru_queue om_list om_ok om_empty om_find om_enqueue_front om_erase om_modify
    om_back om_pop_back
  by unfold_locales
    (simp_all add: om_list_distinct om_find_list om_enqueue_front_spec om_erase_spec om_modify_spec
      om_back_list om_pop_back_spec)

section \<open>Histories of calls\<close>

text \<open>
  Every call of the public interface of OrderedMap that changes it, and what it does to the
  plain list of entries. A client enqueues a key only when it is not present (the comment of
  enqueue_front and enqueue_back: KEY MUST NOT EXIST); om_call is that guarded call.
\<close>

datatype ('k, 'v) om_op =
    EnqueueFront 'k 'v | EnqueueBack 'k 'v | Erase 'k | Pop 'k | PopFront | PopBack | Clear | Assign 'k 'v

fun om_call :: "('k, 'v) om_op \<Rightarrow> ('k, 'v) omap \<Rightarrow> ('k, 'v) omap" where
  "om_call (EnqueueFront k v) m = (if om_exists m k then m else om_enqueue_front k v m)"
| "om_call (EnqueueBack k v) m = (if om_exists m k then m else om_enqueue_back k v m)"
| "om_call (Erase k) m = snd (om_erase k m)"
| "om_call (Pop k) m = snd (om_pop k m)"
| "om_call PopFront m = (case om_pop_front m of None \<Rightarrow> m | Some (_, m') \<Rightarrow> m')"
| "om_call PopBack m = (case om_pop_back m of None \<Rightarrow> m | Some (_, m') \<Rightarrow> m')"
| "om_call Clear m = om_clear m"
| "om_call (Assign k v) m = om_modify k (\<lambda>_. v) m"

fun list_call :: "('k, 'v) om_op \<Rightarrow> ('k \<times> 'v) list \<Rightarrow> ('k \<times> 'v) list" where
  "list_call (EnqueueFront k v) xs = (if k \<in> fst ` set xs then xs else (k, v) # xs)"
| "list_call (EnqueueBack k v) xs = (if k \<in> fst ` set xs then xs else xs @ [(k, v)])"
| "list_call (Erase k) xs = filter (\<lambda>e. fst e \<noteq> k) xs"
| "list_call (Pop k) xs = filter (\<lambda>e. fst e \<noteq> k) xs"
| "list_call PopFront xs = tl xs"
| "list_call PopBack xs = butlast xs"
| "list_call Clear xs = []"
| "list_call (Assign k v) xs = map (\<lambda>e. if fst e = k then (k, v) else e) xs"

lemma om_call_step:
  assumes ok: "om_ok m"
  shows "om_ok (om_call c m) \<and> om_list (om_call c m) = list_call c (om_list m)"
proof -
  have ex: "om_exists m k \<longleftrightarrow> k \<in> fst ` set (om_list m)" for k
    using om_lookup_None [OF ok, of k] by (auto simp: om_exists_def)
  show ?thesis
  proof (cases c)
    case PopFront
    show ?thesis
    proof (cases "om_pop_front m")
      case None
      then show ?thesis using PopFront om_pop_front_spec(1) [OF ok] ok by simp
    next
      case (Some r)
      then show ?thesis using PopFront om_pop_front_spec(2) [OF ok] by (cases r) fastforce
    qed
  next
    case PopBack
    show ?thesis
    proof (cases "om_pop_back m")
      case None
      then show ?thesis using PopBack om_pop_back_spec(1) [OF ok] ok by simp
    next
      case (Some r)
      then show ?thesis using PopBack om_pop_back_spec(2) [OF ok] by (cases r) fastforce
    qed
  qed (auto simp: ok ex om_enqueue_front_spec om_enqueue_back_spec om_erase_spec om_pop_spec
      om_ok_clear om_modify_spec intro!: map_cong)
qed

text \<open>C7: After any history of calls on an OrderedMap, its list of nodes and its hash index
  agree, its entries in order are exactly those of the plain list the same calls yield, and
  find, front, back and size answer from that list.\<close>

theorem ordered_map_refines_list:
  "om_ok (fold om_call cs om_empty) \<and>
   (let m = fold om_call cs om_empty; xs = fold list_call cs [] in
    om_list m = xs \<and> om_size m = length xs \<and>
    om_find m k = map_option (Pair k) (map_of xs k) \<and> (om_exists m k \<longleftrightarrow> k \<in> fst ` set xs) \<and>
    om_front m = (case xs of [] \<Rightarrow> None | e # _ \<Rightarrow> Some e) \<and>
    om_back m = (if xs = [] then None else Some (last xs)) \<and>
    fst (om_pop k m) = map_of xs k)"
proof -
  have "om_ok m \<Longrightarrow> om_ok (fold om_call cs m) \<and> om_list (fold om_call cs m) = fold list_call cs (om_list m)" for m
    by (induction cs arbitrary: m) (simp_all add: om_call_step)
  from this [OF om_ok_empty] have ok: "om_ok (fold om_call cs om_empty)"
    and l: "om_list (fold om_call cs om_empty) = fold list_call cs []" by simp_all
  show ?thesis using ok om_lookup_None [OF ok, of k]
    by (auto simp: l [symmetric] Let_def om_size_list om_find_list om_exists_def om_front_list
        om_back_list om_pop_spec)
qed

end
