(* ===== verification/Cache_Manager.thy ===== *)
theory Cache_Manager
  imports Std_Map Ordered_Map
begin

text \<open>
  CacheManager and BandwidthMeasure (src/lib/andromeda/filesystem/filedata): the LRU queues of
  pages and dirty pages, the memory counters, the decision to evict or flush, and the two
  passes of the cleanup threads. Every function here runs under mMutex in the source, so a
  call is one atomic step. A page is identified by the pair of its PageManager (a number) and
  its index there, which stands for the address of the page in the manager's page map.
  What a call does outside mMutex (EvictPage and FlushPage of a PageManager) is a parameter
  here; Page_Manager supplies the PageManager of the program.
\<close>

section \<open>BandwidthMeasure\<close>

record bandwidth =
  bm_history :: "nat list"
  bm_index :: nat

definition bandwidth_window :: nat where
  "bandwidth_window = 4"

definition bw_init :: bandwidth where
  "bw_init = \<lparr>bm_history = replicate bandwidth_window 0, bm_index = 0\<rparr>"

text \<open>
  UpdateBandwidth: target is the floating-point quotient targetBytesN that the source computes
  from the byte count, the elapsed time and the time target.
\<close>

definition bw_update :: "nat \<Rightarrow> nat \<Rightarrow> bandwidth \<Rightarrow> nat \<times> bandwidth" where
  "bw_update bytes target b =
     (let b' = (if bytes > 0
                then b\<lparr>bm_history := (bm_history b)[bm_index b := target],
                       bm_index := (bm_index b + 1) mod bandwidth_window\<rparr>
                else b)
      in (fold (\<lambda>x acc. uadd acc x) (bm_history b') 0 div bandwidth_window, b'))"

definition bw_ok :: "bandwidth \<Rightarrow> bool" where
  "bw_ok b \<longleftrightarrow> length (bm_history b) = bandwidth_window \<and> bm_index b < bandwidth_window"

lemma bw_ok_init [simp]: "bw_ok bw_init"
  by (simp add: bw_ok_def bw_init_def bandwidth_window_def)

lemma bw_ok_update: "bw_ok b \<Longrightarrow> bw_ok (snd (bw_update n t b))"
  by (auto simp: bw_ok_def bw_update_def Let_def bandwidth_window_def)

lemma fold_uadd: "fold (\<lambda>x acc. uadd acc x) xs (u64 a) = u64 (a + sum_list xs)"
proof (induction xs arbitrary: a)
  case (Cons x xs)
  show ?case using Cons [of "a + x"] by (simp add: u64_simps add.assoc)
qed simp

lemma bw_update_average:
  assumes "sum_list (bm_history (snd (bw_update n t b))) < 2 ^ 64"
  shows "fst (bw_update n t b) = sum_list (bm_history (snd (bw_update n t b))) div 4"
  using assms fold_uadd [of _ 0]
  by (simp add: bw_update_def Let_def bandwidth_window_def u64_simps split: if_splits)

section \<open>State\<close>

type_synonym pkey = "nat \<times> nat"

record page_info =
  pi_mgr :: nat
  pi_index :: nat
  pi_size :: nat

record cache_opts =
  co_memory_limit :: nat
  co_evict_frac :: nat

record cache =
  cm_pages :: "(pkey, page_info) omap"
  cm_dirty :: "(pkey, page_info) omap"
  cm_total :: nat
  cm_cur_dirty :: nat
  cm_dirty_limit :: nat
  cm_evict_failure :: "exn option"
  cm_flush_failure :: "exn option"
  cm_skip_evict :: "nat option"
  cm_skip_flush :: "nat option"
  cm_bandwidth :: bandwidth

definition cache_init :: cache where
  "cache_init = \<lparr>cm_pages = om_empty, cm_dirty = om_empty, cm_total = 0, cm_cur_dirty = 0,
     cm_dirty_limit = 0, cm_evict_failure = None, cm_flush_failure = None,
     cm_skip_evict = None, cm_skip_flush = None, cm_bandwidth = bw_init\<rparr>"

text \<open>The baseline of the allocator that the constructor computes from the options.\<close>

definition alloc_baseline :: "cache_opts \<Rightarrow> nat" where
  "alloc_baseline opts = usub (co_memory_limit opts) (co_memory_limit opts div co_evict_frac opts)"

section \<open>Operations under the mutex\<close>

definition cm_remove_dirty :: "pkey \<Rightarrow> cache \<Rightarrow> cache" where
  "cm_remove_dirty k c =
     (case om_find (cm_dirty c) k of None \<Rightarrow> c
      | Some (_, i) \<Rightarrow> c\<lparr>cm_cur_dirty := usub (cm_cur_dirty c) (pi_size i),
                          cm_dirty := snd (om_erase k (cm_dirty c))\<rparr>)"

definition cm_remove_page :: "pkey \<Rightarrow> cache \<Rightarrow> nat \<times> cache" where
  "cm_remove_page k c =
     (case om_find (cm_pages c) k of None \<Rightarrow> (0, cm_remove_dirty k c)
      | Some (_, i) \<Rightarrow> (pi_size i,
          cm_remove_dirty k (c\<lparr>cm_total := usub (cm_total c) (pi_size i),
                               cm_pages := snd (om_erase k (cm_pages c))\<rparr>)))"

definition cm_enqueue_page :: "nat \<Rightarrow> nat \<Rightarrow> nat \<Rightarrow> bool \<Rightarrow> cache \<Rightarrow> nat \<times> cache" where
  "cm_enqueue_page mgr idx new_size dirty c =
     (let (old_size, c1) = cm_remove_page (mgr, idx) c;
          info = \<lparr>pi_mgr = mgr, pi_index = idx, pi_size = new_size\<rparr>;
          c2 = c1\<lparr>cm_pages := om_enqueue_front (mgr, idx) info (cm_pages c1),
                  cm_total := uadd (cm_total c1) new_size\<rparr>;
          c3 = (if dirty
                then c2\<lparr>cm_dirty := om_enqueue_front (mgr, idx) info (cm_dirty c2),
                        cm_cur_dirty := uadd (cm_cur_dirty c2) new_size\<rparr>
                else c2)
      in (old_size, c3))"

definition cm_should_evict :: "cache_opts \<Rightarrow> cache \<Rightarrow> bool" where
  "cm_should_evict opts c \<longleftrightarrow> cm_total c > co_memory_limit opts"

definition cm_should_flush :: "cache \<Rightarrow> bool" where
  "cm_should_flush c \<longleftrightarrow> cm_cur_dirty c > cm_dirty_limit c"

definition cm_should_skip_wait :: "nat \<Rightarrow> cache \<Rightarrow> bool" where
  "cm_should_skip_wait mgr c \<longleftrightarrow> cm_skip_evict c = Some mgr \<or> cm_skip_flush c = Some mgr"

definition cm_should_await_evict :: "cache_opts \<Rightarrow> nat \<Rightarrow> cache \<Rightarrow> exn + bool" where
  "cm_should_await_evict opts mgr c =
     (let should = cm_should_evict opts c in
      if should \<and> cm_evict_failure c \<noteq> None then Inl MemoryError
      else Inr (should \<and> \<not> cm_should_skip_wait mgr c))"

definition cm_should_await_flush :: "nat \<Rightarrow> cache \<Rightarrow> exn + bool" where
  "cm_should_await_flush mgr c =
     (let should = cm_should_flush c in
      if should \<and> cm_flush_failure c \<noteq> None then Inl MemoryError
      else Inr (should \<and> \<not> cm_should_skip_wait mgr c))"

text \<open>
  The two halves of ResizePage: the page queue entry, then (after the source has handled
  memory) the dirty queue entry. The first component says whether the entry grew.
\<close>

definition cm_resize_total :: "pkey \<Rightarrow> nat \<Rightarrow> cache \<Rightarrow> bool \<times> cache" where
  "cm_resize_total k new_size c =
     (case om_find (cm_pages c) k of None \<Rightarrow> (False, c)
      | Some (_, i) \<Rightarrow> (new_size > pi_size i,
          c\<lparr>cm_total := uadd (cm_total c) (usub new_size (pi_size i)),
            cm_pages := om_modify k (\<lambda>i. i\<lparr>pi_size := new_size\<rparr>) (cm_pages c)\<rparr>))"

definition cm_resize_dirty :: "pkey \<Rightarrow> nat \<Rightarrow> cache \<Rightarrow> bool \<times> cache" where
  "cm_resize_dirty k new_size c =
     (case om_find (cm_dirty c) k of None \<Rightarrow> (False, c)
      | Some (_, i) \<Rightarrow> (new_size > pi_size i,
          c\<lparr>cm_cur_dirty := uadd (cm_cur_dirty c) (usub new_size (pi_size i)),
            cm_dirty := om_modify k (\<lambda>i. i\<lparr>pi_size := new_size\<rparr>) (cm_dirty c)\<rparr>))"

text \<open>The accounting at the end of CacheManager::FlushPage.\<close>

definition cm_note_flush :: "nat \<Rightarrow> nat \<Rightarrow> cache \<Rightarrow> cache" where
  "cm_note_flush written target c =
     (let (limit, b) = bw_update written target (cm_bandwidth c)
      in c\<lparr>cm_dirty_limit := limit, cm_bandwidth := b\<rparr>)"

section \<open>Accounting invariant\<close>

definition q_sum :: "(pkey, page_info) omap \<Rightarrow> nat" where
  "q_sum q = (\<Sum>e\<leftarrow>om_list q. pi_size (snd e))"

definition keys_match :: "(pkey \<times> page_info) list \<Rightarrow> bool" where
  "keys_match xs \<longleftrightarrow> (\<forall>(k, i) \<in> set xs. k = (pi_mgr i, pi_index i))"

definition cache_ok :: "cache \<Rightarrow> bool" where
  "cache_ok c \<longleftrightarrow>
     om_ok (cm_pages c) \<and> om_ok (cm_dirty c) \<and>
     cm_total c = u64 (q_sum (cm_pages c)) \<and>
     cm_cur_dirty c = u64 (q_sum (cm_dirty c)) \<and>
     keys_match (om_list (cm_pages c)) \<and> keys_match (om_list (cm_dirty c)) \<and>
     fst ` set (om_list (cm_dirty c)) \<subseteq> fst ` set (om_list (cm_pages c))"

definition cm_keys :: "cache \<Rightarrow> pkey set" where
  "cm_keys c = fst ` set (om_list (cm_pages c))"

definition cm_dirty_keys :: "cache \<Rightarrow> pkey set" where
  "cm_dirty_keys c = fst ` set (om_list (cm_dirty c))"

lemma cache_ok_init [simp]: "cache_ok cache_init"
  by (simp add: cache_ok_def cache_init_def q_sum_def keys_match_def)

lemma keys_match_filter: "keys_match xs \<Longrightarrow> keys_match (filter P xs)"
  by (auto simp: keys_match_def)

lemma keys_filter [simp]: "fst ` {x \<in> A. fst x \<noteq> k} = fst ` A - {k}"
  by auto

lemma keys_match_Cons [simp]:
  "keys_match ((k, i) # xs) \<longleftrightarrow> k = (pi_mgr i, pi_index i) \<and> keys_match xs"
  by (auto simp: keys_match_def)

lemma q_sum_erase:
  assumes "om_ok q" and "om_find q k = Some (a, i)"
  shows "q_sum (snd (om_erase k q)) = q_sum q - pi_size i" and "pi_size i \<le> q_sum q"
proof -
  have "map_of (om_list q) k = Some i" using assms by (auto simp: om_find_list)
  then have "q_sum (snd (om_erase k q)) + pi_size i = q_sum q"
    using om.erase_sum [OF assms(1), of pi_size k] by (simp add: q_sum_def)
  then show "q_sum (snd (om_erase k q)) = q_sum q - pi_size i" and "pi_size i \<le> q_sum q"
    by linarith+
qed

lemma om_erase_absent: "om_ok q \<Longrightarrow> om_find q k = None \<Longrightarrow> filter (\<lambda>e. fst e \<noteq> k) (om_list q) = om_list q"
  by (auto simp: om_find_list map_of_eq_None_iff filter_id_conv image_iff)

lemma cm_remove_dirty_sel [simp]:
  "cm_pages (cm_remove_dirty k c) = cm_pages c" "cm_total (cm_remove_dirty k c) = cm_total c"
  "cm_dirty_limit (cm_remove_dirty k c) = cm_dirty_limit c"
  "cm_evict_failure (cm_remove_dirty k c) = cm_evict_failure c"
  "cm_flush_failure (cm_remove_dirty k c) = cm_flush_failure c"
  "cm_skip_evict (cm_remove_dirty k c) = cm_skip_evict c"
  "cm_skip_flush (cm_remove_dirty k c) = cm_skip_flush c"
  "cm_bandwidth (cm_remove_dirty k c) = cm_bandwidth c"
  by (auto simp: cm_remove_dirty_def split: option.splits)

lemma cm_remove_dirty_list:
  "om_ok (cm_dirty c) \<Longrightarrow>
   om_list (cm_dirty (cm_remove_dirty k c)) = filter (\<lambda>e. fst e \<noteq> k) (om_list (cm_dirty c))"
  by (auto simp: cm_remove_dirty_def om_erase_spec om_erase_absent split: option.splits)

lemma cm_remove_dirty_ok: "cache_ok c \<Longrightarrow> cache_ok (cm_remove_dirty k c)"
proof (cases "om_find (cm_dirty c) k")
  case (Some e)
  moreover obtain a i where "e = (a, i)" by (meson surj_pair)
  moreover assume ok: "cache_ok c"
  ultimately have f: "om_find (cm_dirty c) k = Some (a, i)" by simp
  show ?thesis
    using ok q_sum_erase [OF _ f] unfolding cache_ok_def cm_remove_dirty_def f
    by (auto simp: om_erase_spec keys_match_filter usub_u64)
qed (simp add: cm_remove_dirty_def)

lemma cm_remove_page_list:
  assumes "om_ok (cm_pages c)"
  shows "om_list (cm_pages (snd (cm_remove_page k c))) = filter (\<lambda>e. fst e \<noteq> k) (om_list (cm_pages c))"
  using assms by (auto simp: cm_remove_page_def om_erase_spec om_erase_absent split: option.splits)

lemma cm_remove_page_dirty_list:
  assumes "om_ok (cm_dirty c)"
  shows "om_list (cm_dirty (snd (cm_remove_page k c))) = filter (\<lambda>e. fst e \<noteq> k) (om_list (cm_dirty c))"
  using assms by (auto simp: cm_remove_page_def cm_remove_dirty_list split: option.splits)

lemma cm_remove_page_ok:
  assumes ok: "cache_ok c"
  shows "cache_ok (snd (cm_remove_page k c))"
proof (cases "om_find (cm_pages c) k")
  case None
  then show ?thesis using cm_remove_dirty_ok [OF ok] by (simp add: cm_remove_page_def)
next
  case (Some e)
  obtain a i where e: "e = (a, i)" by (meson surj_pair)
  have f: "om_find (cm_pages c) k = Some (a, i)" using Some e by simp
  let ?c = "c\<lparr>cm_total := usub (cm_total c) (pi_size i), cm_pages := snd (om_erase k (cm_pages c))\<rparr>"
  define r where "r = cm_remove_dirty k ?c"
  have sel: "cm_pages r = snd (om_erase k (cm_pages c))" "cm_total r = usub (cm_total c) (pi_size i)"
    by (simp_all add: r_def)
  have okp: "om_ok (cm_pages c)" "om_ok (cm_dirty c)" using ok by (auto simp: cache_ok_def)
  have dl: "om_list (cm_dirty r) = filter (\<lambda>e. fst e \<noteq> k) (om_list (cm_dirty c))"
    using cm_remove_dirty_list [of ?c k] okp by (simp add: r_def)
  have dirty: "om_ok (cm_dirty r) \<and> cm_cur_dirty r = u64 (q_sum (cm_dirty r))"
  proof (cases "om_find (cm_dirty c) k")
    case None
    then show ?thesis using ok by (simp add: r_def cm_remove_dirty_def cache_ok_def)
  next
    case (Some d)
    obtain b j where d: "d = (b, j)" by (meson surj_pair)
    show ?thesis using Some ok q_sum_erase [OF okp(2) Some [unfolded d]]
      by (simp add: r_def cm_remove_dirty_def d cache_ok_def om_erase_spec usub_u64)
  qed
  have "cache_ok r"
    using ok dirty q_sum_erase [OF okp(1) f] unfolding cache_ok_def sel
    by (simp add: om_erase_spec keys_match_filter usub_u64 dl Diff_mono)
  then show ?thesis by (simp add: cm_remove_page_def f r_def)
qed

lemma cm_keys_remove: "cache_ok c \<Longrightarrow> cm_keys (snd (cm_remove_page k c)) = cm_keys c - {k}"
  by (auto simp: cm_keys_def cm_remove_page_list cache_ok_def)

lemma cm_dirty_keys_remove: "cache_ok c \<Longrightarrow> cm_dirty_keys (snd (cm_remove_page k c)) = cm_dirty_keys c - {k}"
  by (auto simp: cm_dirty_keys_def cm_remove_page_dirty_list cache_ok_def)

lemma cm_keys_remove_dirty [simp]: "cm_keys (cm_remove_dirty k c) = cm_keys c"
  by (simp add: cm_keys_def)

lemma cm_dirty_keys_remove_dirty: "cache_ok c \<Longrightarrow> cm_dirty_keys (cm_remove_dirty k c) = cm_dirty_keys c - {k}"
  by (auto simp: cm_dirty_keys_def cm_remove_dirty_list cache_ok_def)

lemma cm_enqueue_unfold:
  assumes "cm_remove_page (mgr, idx) c = (old, c1)"
  shows "cm_enqueue_page mgr idx n dirty c = (old,
     (if dirty
      then c1\<lparr>cm_pages := om_enqueue_front (mgr, idx) \<lparr>pi_mgr = mgr, pi_index = idx, pi_size = n\<rparr> (cm_pages c1),
              cm_total := uadd (cm_total c1) n,
              cm_dirty := om_enqueue_front (mgr, idx) \<lparr>pi_mgr = mgr, pi_index = idx, pi_size = n\<rparr> (cm_dirty c1),
              cm_cur_dirty := uadd (cm_cur_dirty c1) n\<rparr>
      else c1\<lparr>cm_pages := om_enqueue_front (mgr, idx) \<lparr>pi_mgr = mgr, pi_index = idx, pi_size = n\<rparr> (cm_pages c1),
              cm_total := uadd (cm_total c1) n\<rparr>))"
  using assms by (simp add: cm_enqueue_page_def Let_def)

lemma q_sum_enqueue:
  "om_ok q \<Longrightarrow> k \<notin> fst ` set (om_list q) \<Longrightarrow> q_sum (om_enqueue_front k i q) = q_sum q + pi_size i"
  by (simp add: q_sum_def om_enqueue_front_spec)

lemma cm_enqueue_ok:
  assumes ok: "cache_ok c"
  shows "cache_ok (snd (cm_enqueue_page mgr idx n dirty c))"
    and "cm_keys (snd (cm_enqueue_page mgr idx n dirty c)) = insert (mgr, idx) (cm_keys c)"
    and "cm_dirty_keys (snd (cm_enqueue_page mgr idx n dirty c)) =
           (if dirty then insert (mgr, idx) (cm_dirty_keys c) else cm_dirty_keys c - {(mgr, idx)})"
    and "fst (cm_enqueue_page mgr idx n dirty c) = fst (cm_remove_page (mgr, idx) c)"
proof -
  obtain old c1 where r: "cm_remove_page (mgr, idx) c = (old, c1)" by (meson surj_pair)
  have ok1: "cache_ok c1" using cm_remove_page_ok [OF ok, of "(mgr, idx)"] by (simp add: r)
  have k1: "cm_keys c1 = cm_keys c - {(mgr, idx)}" "cm_dirty_keys c1 = cm_dirty_keys c - {(mgr, idx)}"
    using cm_keys_remove [OF ok, of "(mgr, idx)"] cm_dirty_keys_remove [OF ok, of "(mgr, idx)"]
    by (simp_all add: r)
  have new: "(mgr, idx) \<notin> fst ` set (om_list (cm_pages c1))" "(mgr, idx) \<notin> fst ` set (om_list (cm_dirty c1))"
    using k1 by (auto simp: cm_keys_def cm_dirty_keys_def)
  have oks: "om_ok (cm_pages c1)" "om_ok (cm_dirty c1)" using ok1 by (auto simp: cache_ok_def)
  note u = cm_enqueue_unfold [OF r] and es = om_enqueue_front_spec [OF oks(1) new(1)]
    om_enqueue_front_spec [OF oks(2) new(2)] q_sum_enqueue [OF oks(1) new(1)] q_sum_enqueue [OF oks(2) new(2)]
  show "cache_ok (snd (cm_enqueue_page mgr idx n dirty c))"
    using ok1 by (auto simp: u cache_ok_def es uadd_u64)
  show "cm_keys (snd (cm_enqueue_page mgr idx n dirty c)) = insert (mgr, idx) (cm_keys c)"
    using k1 by (auto simp: u cm_keys_def es)
  show "cm_dirty_keys (snd (cm_enqueue_page mgr idx n dirty c)) =
           (if dirty then insert (mgr, idx) (cm_dirty_keys c) else cm_dirty_keys c - {(mgr, idx)})"
    using k1 by (auto simp: u cm_dirty_keys_def es)
  show "fst (cm_enqueue_page mgr idx n dirty c) = fst (cm_remove_page (mgr, idx) c)"
    by (simp add: u r)
qed

lemma q_sum_modify:
  assumes ok: "om_ok q" and f: "om_find q k = Some (a, i)"
  shows "q_sum (om_modify k (\<lambda>i. i\<lparr>pi_size := n\<rparr>) q) = q_sum q - pi_size i + n"
proof -
  have "(\<Sum>e\<leftarrow>map (\<lambda>(a, v). if a = k then (a, v\<lparr>pi_size := n\<rparr>) else (a, v)) xs. pi_size (snd e)) + pi_size i
      = (\<Sum>e\<leftarrow>xs. pi_size (snd e)) + n"
    if "distinct (map fst xs)" "map_of xs k = Some i" for xs :: "(pkey \<times> page_info) list"
    using that
  proof (induction xs)
    case (Cons x xs)
    obtain b j where x: "x = (b, j)" by (meson surj_pair)
    show ?case
    proof (cases "b = k")
      case True
      then have "map (\<lambda>(a, v). if a = k then (a, v\<lparr>pi_size := n\<rparr>) else (a, v)) xs = xs"
        using Cons.prems(1) by (intro map_idI) (force simp: x image_iff)
      then show ?thesis using True Cons.prems(2) by (simp add: x)
    next
      case False
      then show ?thesis using Cons by (simp add: x)
    qed
  qed simp
  moreover have "map_of (om_list q) k = Some i" using ok f by (auto simp: om_find_list)
  ultimately have "q_sum (om_modify k (\<lambda>i. i\<lparr>pi_size := n\<rparr>) q) + pi_size i = q_sum q + n"
    using om_list_distinct [OF ok] by (simp add: q_sum_def om_modify_spec [OF ok])
  moreover have "pi_size i \<le> q_sum q" using q_sum_erase [OF ok f] by simp
  ultimately show ?thesis by linarith
qed

lemma modify_keys:
  "fst ` (\<lambda>(a, v). if a = k then (a, f v) else (a, v)) ` A = fst ` A"
  by (force simp: image_iff)

lemma keys_match_modify:
  "keys_match xs \<Longrightarrow> keys_match (map (\<lambda>(a, v). if a = k then (a, v\<lparr>pi_size := n\<rparr>) else (a, v)) xs)"
  by (induction xs) (auto simp: keys_match_def split: if_splits)

lemma uadd_usub_swap: "b \<le> a \<Longrightarrow> uadd (u64 a) (usub n b) = u64 (a - b + n)"
proof -
  assume le: "b \<le> a"
  define c where "c = a - b"
  have a: "a = c + b" using le by (simp add: c_def)
  have bm: "b mod 2 ^ 64 \<le> (2 ^ 64 :: nat)" by (simp add: less_imp_le)
  have "(c + b + (n + (2 ^ 64 - b mod 2 ^ 64))) mod 2 ^ 64 =
        (c + b mod 2 ^ 64 + (n + (2 ^ 64 - b mod 2 ^ 64))) mod (2 ^ 64 :: nat)"
    by (metis mod_add_left_eq mod_add_right_eq)
  also have "c + b mod 2 ^ 64 + (n + (2 ^ 64 - b mod 2 ^ 64)) = c + n + (2 ^ 64 :: nat)"
    using bm by linarith
  finally have "(c + b + (n + (2 ^ 64 - b mod 2 ^ 64))) mod 2 ^ 64 = (c + n) mod (2 ^ 64 :: nat)"
    by simp
  then show ?thesis unfolding uadd_def usub_def u64_def a mod_add_left_eq mod_add_right_eq by simp
qed

lemma cm_resize_total_ok:
  assumes ok: "cache_ok c"
  shows "cache_ok (snd (cm_resize_total k n c))"
    and "cm_keys (snd (cm_resize_total k n c)) = cm_keys c"
    and "cm_dirty_keys (snd (cm_resize_total k n c)) = cm_dirty_keys c"
proof -
  have okq: "om_ok (cm_pages c)" using ok by (simp add: cache_ok_def)
  have "cache_ok (snd (cm_resize_total k n c)) \<and> cm_keys (snd (cm_resize_total k n c)) = cm_keys c \<and>
    cm_dirty_keys (snd (cm_resize_total k n c)) = cm_dirty_keys c"
  proof (cases "om_find (cm_pages c) k")
    case (Some e)
    obtain a i where e: "e = (a, i)" by (meson surj_pair)
    note f = Some [unfolded e]
    show ?thesis using ok q_sum_erase [OF okq f]
      by (simp add: cm_resize_total_def f cache_ok_def om_modify_spec [OF okq] q_sum_modify [OF okq f]
          uadd_usub_swap keys_match_modify modify_keys cm_keys_def cm_dirty_keys_def)
  qed (use ok in \<open>simp add: cm_resize_total_def\<close>)
  then show "cache_ok (snd (cm_resize_total k n c))"
    and "cm_keys (snd (cm_resize_total k n c)) = cm_keys c"
    and "cm_dirty_keys (snd (cm_resize_total k n c)) = cm_dirty_keys c" by blast+
qed

lemma cm_resize_dirty_ok:
  assumes ok: "cache_ok c"
  shows "cache_ok (snd (cm_resize_dirty k n c))"
    and "cm_keys (snd (cm_resize_dirty k n c)) = cm_keys c"
    and "cm_dirty_keys (snd (cm_resize_dirty k n c)) = cm_dirty_keys c"
proof -
  have okq: "om_ok (cm_dirty c)" using ok by (simp add: cache_ok_def)
  have "cache_ok (snd (cm_resize_dirty k n c)) \<and> cm_keys (snd (cm_resize_dirty k n c)) = cm_keys c \<and>
    cm_dirty_keys (snd (cm_resize_dirty k n c)) = cm_dirty_keys c"
  proof (cases "om_find (cm_dirty c) k")
    case (Some e)
    obtain a i where e: "e = (a, i)" by (meson surj_pair)
    note f = Some [unfolded e]
    show ?thesis using ok q_sum_erase [OF okq f]
      by (simp add: cm_resize_dirty_def f cache_ok_def om_modify_spec [OF okq] q_sum_modify [OF okq f]
          uadd_usub_swap keys_match_modify modify_keys cm_keys_def cm_dirty_keys_def)
  qed (use ok in \<open>simp add: cm_resize_dirty_def\<close>)
  then show "cache_ok (snd (cm_resize_dirty k n c))"
    and "cm_keys (snd (cm_resize_dirty k n c)) = cm_keys c"
    and "cm_dirty_keys (snd (cm_resize_dirty k n c)) = cm_dirty_keys c" by blast+
qed

lemma cm_note_flush_ok [simp]:
  "cache_ok (cm_note_flush w t c) \<longleftrightarrow> cache_ok c"
  "cm_keys (cm_note_flush w t c) = cm_keys c" "cm_dirty_keys (cm_note_flush w t c) = cm_dirty_keys c"
  by (simp_all add: cm_note_flush_def cache_ok_def cm_keys_def cm_dirty_keys_def split: prod.splits)

section \<open>Histories of cache operations\<close>

text \<open>The changes that the operations above make to the queues, as one step each.\<close>

datatype cm_op =
    CmEnqueue nat nat nat bool | CmRemove pkey | CmRemoveDirty pkey | CmResize pkey nat | CmFlushed nat nat

fun cm_step :: "cm_op \<Rightarrow> cache \<Rightarrow> cache" where
  "cm_step (CmEnqueue mgr idx n dirty) c = snd (cm_enqueue_page mgr idx n dirty c)"
| "cm_step (CmRemove k) c = snd (cm_remove_page k c)"
| "cm_step (CmRemoveDirty k) c = cm_remove_dirty k c"
| "cm_step (CmResize k n) c = snd (cm_resize_dirty k n (snd (cm_resize_total k n c)))"
| "cm_step (CmFlushed written target) c = cm_note_flush written target c"

lemma cm_step_ok: "cache_ok c \<Longrightarrow> cache_ok (cm_step op c)"
  by (cases op) (simp_all add: cm_enqueue_ok cm_remove_page_ok cm_remove_dirty_ok cm_resize_total_ok cm_resize_dirty_ok)

text \<open>C8: After any history of page and dirty-page operations the two counters of the
  CacheManager are the sums (in size_t) of the sizes in its two queues, no page is queued
  twice, and every dirty page is also in the page queue.\<close>

theorem cache_totals_exact:
  "let c = fold cm_step ops cache_init in
   cm_total c = (\<Sum>e\<leftarrow>om_list (cm_pages c). pi_size (snd e)) mod 2 ^ 64 \<and>
   cm_cur_dirty c = (\<Sum>e\<leftarrow>om_list (cm_dirty c). pi_size (snd e)) mod 2 ^ 64 \<and>
   distinct (map fst (om_list (cm_pages c))) \<and> distinct (map fst (om_list (cm_dirty c))) \<and>
   fst ` set (om_list (cm_dirty c)) \<subseteq> fst ` set (om_list (cm_pages c))"
proof -
  have "cache_ok c \<Longrightarrow> cache_ok (fold cm_step ops c)" for c
    by (induction ops arbitrary: c) (simp_all add: cm_step_ok)
  from this [OF cache_ok_init] show ?thesis
    by (simp add: Let_def cache_ok_def q_sum_def u64_def om_list_distinct)
qed

end
