(* ===== verification/Page_Backend.thy ===== *)
theory Page_Backend
  imports File_Page Cache_Manager
begin

text \<open>
  PageBackend (src/lib/andromeda/filesystem/filedata/PageBackend.cpp): reading pages from and
  writing runs of pages to the backend. The state of one open file is the record world: the
  page map and sizes of its PageManager, the mBackendSize and mBackendExists of its
  PageBackend, the CacheManager it shares, and env, the outside (the server, the clock).
  The requests of the backend are parameters, collected in the record backend_ops, with their
  documented behaviour in the predicate backend_ok.
\<close>

section \<open>Write functions\<close>

text \<open>
  WriteFunc of RunnerInput.hpp: asked for up to buflen bytes from an offset, it returns
  whether there may be more and the bytes it wrote into the buffer.
\<close>

type_synonym write_func = "nat \<Rightarrow> nat \<Rightarrow> bool \<times> bytes"

text \<open>RunnerInput_StreamIn::FromString.\<close>

definition from_string :: "bytes \<Rightarrow> write_func" where
  "from_string data soffset buflen =
     (if soffset \<ge> length data then (False, [])
      else (True, take (min (length data - soffset) buflen) (drop soffset data)))"

text \<open>The writeFunc that PageBackend::FlushPageList builds over its list of pages.\<close>

definition page_list_writer :: "nat \<Rightarrow> page list \<Rightarrow> write_func" where
  "page_list_writer psize pages offset buflen =
     (let idx = offset div psize in
      if idx \<ge> length pages then (False, [])
      else let p = pages ! idx;
               poff = offset - idx * psize
           in if poff \<ge> pg_size p then (False, [])
              else (True, take (min (pg_size p - poff) buflen) (drop poff (pg_data p))))"

text \<open>
  The contract of a write function: it serves exactly the bytes of data, from any offset, and
  makes progress whenever it is given room.
\<close>

definition serves :: "write_func \<Rightarrow> bytes \<Rightarrow> bool" where
  "serves f data \<longleftrightarrow>
     (\<forall>off n. 0 < n \<longrightarrow>
        (if length data \<le> off then f off n = (False, [])
         else \<exists>m. 0 < m \<and> m \<le> n \<and> off + m \<le> length data \<and> f off n = (True, take m (drop off data))))"

locale write_stream =
  fixes stream :: "'a \<Rightarrow> write_func" and bytes_of :: "'a \<Rightarrow> bytes" and valid :: "'a \<Rightarrow> bool"
  assumes stream_serves: "valid a \<Longrightarrow> serves (stream a) (bytes_of a)"
begin

lemma stream_end: "valid a \<Longrightarrow> length (bytes_of a) \<le> off \<Longrightarrow> 0 < n \<Longrightarrow> stream a off n = (False, [])"
  using stream_serves [of a] by (auto simp: serves_def)

lemma stream_progress:
  assumes "valid a" and "off < length (bytes_of a)" and "0 < n"
  obtains m where "0 < m" "m \<le> n" "off + m \<le> length (bytes_of a)"
    "stream a off n = (True, take m (drop off (bytes_of a)))"
  using stream_serves [OF assms(1)] assms(2,3) unfolding serves_def by (metis linorder_not_le)

end

lemma from_string_serves: "serves (from_string data) data"
proof -
  have "\<exists>m. 0 < m \<and> m \<le> n \<and> off + m \<le> length data \<and> from_string data off n = (True, take m (drop off data))"
    if "0 < n" "off < length data" for off n
    using that by (intro exI [of _ "min (length data - off) n"]) (auto simp: from_string_def)
  then show ?thesis by (auto simp: serves_def from_string_def)
qed

text \<open>A run of pages of which all but the last are full.\<close>

fun full_run :: "nat \<Rightarrow> page list \<Rightarrow> bool" where
  "full_run n [] = True"
| "full_run n [p] = (0 < pg_size p \<and> pg_size p \<le> n)"
| "full_run n (p # q # ps) = (pg_size p = n \<and> full_run n (q # ps))"

definition run_bytes :: "page list \<Rightarrow> bytes" where
  "run_bytes ps = concat (map pg_data ps)"

lemma run_bytes_Nil [simp]: "run_bytes [] = []"
  and run_bytes_Cons [simp]: "run_bytes (p # ps) = pg_data p @ run_bytes ps"
  by (simp_all add: run_bytes_def)

lemma full_run_tl: "full_run n (p # ps) \<Longrightarrow> full_run n ps"
  by (cases ps) auto

lemma full_run_size: "full_run n (p # ps) \<Longrightarrow> pg_size p \<le> n"
  by (cases ps) auto

lemma page_list_writer_shift:
  assumes "0 < n" and "n \<le> off"
  shows "page_list_writer n (p # ps) off b = page_list_writer n ps (off - n) b"
proof -
  have "off div n = Suc ((off - n) div n)" using assms by (simp add: le_div_geq)
  then show ?thesis using assms by (simp add: page_list_writer_def Let_def)
qed

lemma page_list_writer_serves:
  assumes "0 < n" and "full_run n ps"
  shows "serves (page_list_writer n ps) (run_bytes ps)"
  using assms(2)
proof (induction ps)
  case Nil
  then show ?case by (simp add: serves_def page_list_writer_def)
next
  case (Cons p ps)
  note IH = Cons.IH [OF full_run_tl [OF Cons.prems]]
  have le: "pg_size p \<le> n" using Cons.prems by (rule full_run_size)
  show ?case unfolding serves_def
  proof (intro allI impI)
    fix off b :: nat assume b: "0 < b"
    let ?data = "run_bytes (p # ps)"
    let ?out = "page_list_writer n (p # ps) off b"
    show "if length ?data \<le> off then ?out = (False, [])
      else \<exists>m. 0 < m \<and> m \<le> b \<and> off + m \<le> length ?data \<and> ?out = (True, take m (drop off ?data))"
    proof (cases "off < n")
      case True
      then have idx: "off div n = 0" by simp
      show ?thesis
      proof (cases "off < pg_size p")
        case True
        define m where "m = min (pg_size p - off) b"
        have "take m (drop off ?data) = take m (drop off (pg_data p))"
          using True by (simp add: m_def pg_size_def)
        then have "0 < m \<and> m \<le> b \<and> off + m \<le> length ?data \<and> ?out = (True, take m (drop off ?data))"
          using True b by (auto simp: page_list_writer_def idx m_def pg_size_def)
        then show ?thesis by (auto simp: pg_size_def)
      next
        case False
        then have "ps = []" using Cons.prems \<open>off < n\<close> by (cases ps) auto
        then show ?thesis using False by (simp add: page_list_writer_def idx pg_size_def)
      qed
    next
      case False
      then have off: "n \<le> off" by simp
      note shift = page_list_writer_shift [OF assms(1) off, of p ps b]
      show ?thesis
      proof (cases ps)
        case Nil
        moreover have "page_list_writer n [] (off - n) b = (False, [])"
          by (simp add: page_list_writer_def)
        ultimately show ?thesis using off le shift by (simp add: pg_size_def)
      next
        case (Cons q qs)
        then have full: "length (pg_data p) = n" using Cons.prems by (simp add: pg_size_def)
        have dr: "drop off ?data = drop (off - n) (run_bytes ps)" using full off by simp
        have le_eq: "length ?data \<le> off \<longleftrightarrow> length (run_bytes ps) \<le> off - n"
          "off + m \<le> length ?data \<longleftrightarrow> off - n + m \<le> length (run_bytes ps)" for m
          using full off by auto
        show ?thesis unfolding shift dr le_eq
          using IH b unfolding serves_def by blast
      qed
    qed
  qed
qed

interpretation str_in: write_stream from_string "\<lambda>d. d" "\<lambda>_. True"
  by unfold_locales (rule from_string_serves)

interpretation page_in: write_stream "\<lambda>(n, ps). page_list_writer n ps" "\<lambda>(n, ps). run_bytes ps"
    "\<lambda>(n, ps). 0 < n \<and> full_run n ps"
  by unfold_locales (auto intro: page_list_writer_serves)

section \<open>State of an open file\<close>

text \<open>FSConfig::WriteMode, ordered as its underlying integers.\<close>

datatype write_mode = UPLOAD | APPEND | RANDOM

fun mode_rank :: "write_mode \<Rightarrow> nat" where
  "mode_rank UPLOAD = 0"
| "mode_rank APPEND = 1"
| "mode_rank RANDOM = 2"

lemma mode_rank_inj: "mode_rank a = mode_rank b \<Longrightarrow> a = b"
  by (cases a; cases b) simp_all

instantiation write_mode :: linorder
begin

definition less_eq_write_mode :: "write_mode \<Rightarrow> write_mode \<Rightarrow> bool" where
  "less_eq_write_mode a b \<longleftrightarrow> mode_rank a \<le> mode_rank b"

definition less_write_mode :: "write_mode \<Rightarrow> write_mode \<Rightarrow> bool" where
  "less_write_mode a b \<longleftrightarrow> mode_rank a < mode_rank b"

instance
  by standard (auto simp: less_eq_write_mode_def less_write_mode_def intro: mode_rank_inj)

end

lemma mode_order [simp]:
  "UPLOAD \<le> m" "m \<le> RANDOM" "\<not> APPEND \<le> UPLOAD" "\<not> RANDOM \<le> UPLOAD" "\<not> RANDOM \<le> APPEND"
  "UPLOAD < APPEND" "UPLOAD < RANDOM" "APPEND < RANDOM" "\<not> m < UPLOAD" "\<not> RANDOM < m"
  "\<not> APPEND < APPEND"
  by (cases m; simp add: less_eq_write_mode_def less_write_mode_def)+

datatype cache_type = CacheNone | CacheMemory | CacheNormal

text \<open>
  What stays fixed while a file is open. fc_me is the identity of its PageManager, fc_os the OS
  page size, fc_cachemgr whether there is a CacheManager, fc_threads whether its cleanup
  threads run.
\<close>

record file_cfg =
  fc_me :: nat
  fc_psize :: nat
  fc_os :: nat
  fc_fsmode :: write_mode
  fc_randwrite :: bool
  fc_readonly :: bool
  fc_cachetype :: cache_type
  fc_cachemgr :: bool
  fc_threads :: bool
  fc_opts :: cache_opts
  fc_ahead :: nat
  fc_maxfrac :: nat

text \<open>File::GetWriteMode.\<close>

definition get_write_mode :: "file_cfg \<Rightarrow> write_mode" where
  "get_write_mode cfg = (if \<not> fc_randwrite cfg then min (fc_fsmode cfg) APPEND else fc_fsmode cfg)"

definition is_memory :: "file_cfg \<Rightarrow> bool" where
  "is_memory cfg \<longleftrightarrow> fc_cachetype cfg = CacheMemory"

record 's world =
  w_pages :: "(nat, page) smap"
  w_fsize :: nat
  w_fetch :: nat
  w_bw :: bandwidth
  w_deferred :: "nat list"
  w_bsize :: nat
  w_exists :: bool
  w_cache :: cache
  w_env :: 's

text \<open>
  The outside: requests to the backend (each returns its result and the new outside state),
  the current upload limit of the configuration, the clock behind the bandwidth measurement,
  the content of fresh memory, and what the cleanup threads do to the cache while this thread
  waits for them. A read delivers chunks (offset, bytes) before it succeeds or throws; create
  and upload return the size in the item data of the response.
\<close>

record 's backend_ops =
  op_read :: "nat \<Rightarrow> nat \<Rightarrow> 's \<Rightarrow> ((nat \<times> bytes) list \<times> exn option) \<times> 's"
  op_read_all :: "nat \<Rightarrow> nat \<Rightarrow> 's \<Rightarrow> (bytes, 's) outcome"
  op_write :: "nat \<Rightarrow> write_func \<Rightarrow> 's \<Rightarrow> (unit, 's) outcome"
  op_truncate :: "nat \<Rightarrow> 's \<Rightarrow> (unit, 's) outcome"
  op_create :: "'s \<Rightarrow> (nat, 's) outcome"
  op_upload :: "write_func \<Rightarrow> bool \<Rightarrow> 's \<Rightarrow> (nat, 's) outcome"
  op_max_upload :: "'s \<Rightarrow> nat"
  op_target :: "'s \<Rightarrow> nat \<Rightarrow> nat"
  op_junk :: "'s \<Rightarrow> nat \<Rightarrow> byte"
  op_wait_evict :: "nat \<Rightarrow> 's \<Rightarrow> cache \<Rightarrow> exn option \<times> cache"
  op_wait_flush :: "nat \<Rightarrow> 's \<Rightarrow> cache \<Rightarrow> exn option \<times> cache"

definition with_env :: "('a, 's) outcome \<Rightarrow> 's world \<Rightarrow> ('a, 's world) outcome" where
  "with_env r w = (fst r, w\<lparr>w_env := snd r\<rparr>)"

text \<open>
  The chunks of a download: each continues where the last one ended or, after a retry, starts
  again at 0; a complete download ends with the last byte, and not before.
\<close>

fun chunks_from :: "bytes \<Rightarrow> nat \<Rightarrow> (nat \<times> bytes) list \<Rightarrow> bool" where
  "chunks_from data pos [] = True"
| "chunks_from data pos ((off, bs) # cs) \<longleftrightarrow>
     pos < length data \<and> (off = pos \<or> off = 0) \<and> off + length bs \<le> length data \<and>
     bs = take (length bs) (drop off data) \<and> chunks_from data (off + length bs) cs"

fun chunks_end :: "nat \<Rightarrow> (nat \<times> bytes) list \<Rightarrow> nat" where
  "chunks_end pos [] = pos"
| "chunks_end pos ((off, bs) # cs) = chunks_end (off + length bs) cs"

text \<open>
  What is assumed of the backend, content being what it stores for this file: a download
  returns what is stored; a write overwrites at its offset, extending with zeroes; truncate
  cuts or extends with zeroes; create makes an empty file and upload one with the given bytes.
  Two of the conditions are not promised by the source; the theorems hold of the calls in
  which they are met. A write or a truncate that fails has stored nothing: SendFile sends
  several chunks, and a response can be lost after the server acted. A download that fails has
  not delivered its last byte: FetchPages allows for an exception after reading, and
  GetPageWrite would then leave the page it emplaced in the map, unknown to the cache. A
  cleanup thread that runs while we wait cannot touch our pages,
  since we hold the lock of the file: it keeps the accounting correct and the entries of this
  file.
\<close>

definition only_others :: "nat \<Rightarrow> cache \<Rightarrow> cache \<Rightarrow> bool" where
  "only_others me c c' \<longleftrightarrow>
     (cache_ok c \<longrightarrow> cache_ok c' \<and> {k \<in> cm_keys c'. fst k = me} = {k \<in> cm_keys c. fst k = me} \<and>
       {k \<in> cm_dirty_keys c'. fst k = me} = {k \<in> cm_dirty_keys c. fst k = me})"

text \<open>
  What a request or a wait for the cache can throw: an exception that derives from
  BackendException, or the MemoryException that the allocator raised in a cleanup thread.
\<close>

definition ext_fail :: "exn \<Rightarrow> bool" where
  "ext_fail e \<longleftrightarrow> is_backend_exn e \<or> e = MemoryError"

definition read_ok :: "'s backend_ops \<Rightarrow> ('s \<Rightarrow> bytes) \<Rightarrow> bool" where
  "read_ok ops content \<longleftrightarrow>
     (\<forall>off len s. off + len \<le> length (content s) \<longrightarrow>
        (let ((cs, r), s') = op_read ops off len s; data = take len (drop off (content s)) in
         content s' = content s \<and> chunks_from data 0 cs \<and> (r = None \<longrightarrow> chunks_end 0 cs = len) \<and>
         (\<forall>e. r = Some e \<longrightarrow> ext_fail e \<and> chunks_end 0 cs < len)))"

definition read_all_ok :: "'s backend_ops \<Rightarrow> ('s \<Rightarrow> bytes) \<Rightarrow> bool" where
  "read_all_ok ops content \<longleftrightarrow>
     (\<forall>off len s. off + len \<le> length (content s) \<longrightarrow>
        content (snd (op_read_all ops off len s)) = content s \<and>
        (case fst (op_read_all ops off len s) of Inl e \<Rightarrow> ext_fail e
         | Inr d \<Rightarrow> d = take len (drop off (content s))))"

definition write_ok :: "'s backend_ops \<Rightarrow> ('s \<Rightarrow> bytes) \<Rightarrow> bool" where
  "write_ok ops content \<longleftrightarrow>
     (\<forall>off f data s. serves f data \<longrightarrow>
        (case fst (op_write ops off f s) of
           Inl e \<Rightarrow> ext_fail e \<and> content (snd (op_write ops off f s)) = content s
         | Inr _ \<Rightarrow> content (snd (op_write ops off f s)) = patch (content s) off data))"

definition truncate_ok :: "'s backend_ops \<Rightarrow> ('s \<Rightarrow> bytes) \<Rightarrow> bool" where
  "truncate_ok ops content \<longleftrightarrow>
     (\<forall>n s. case fst (op_truncate ops n s) of
        Inl e \<Rightarrow> ext_fail e \<and> content (snd (op_truncate ops n s)) = content s
      | Inr _ \<Rightarrow> content (snd (op_truncate ops n s)) = resize_bytes (content s) n)"

definition create_ok :: "'s backend_ops \<Rightarrow> ('s \<Rightarrow> bytes) \<Rightarrow> bool" where
  "create_ok ops content \<longleftrightarrow>
     (\<forall>s. case fst (op_create ops s) of Inl e \<Rightarrow> ext_fail e | Inr _ \<Rightarrow> content (snd (op_create ops s)) = [])"

definition upload_ok :: "'s backend_ops \<Rightarrow> ('s \<Rightarrow> bytes) \<Rightarrow> bool" where
  "upload_ok ops content \<longleftrightarrow>
     (\<forall>f data oneshot s. serves f data \<longrightarrow>
        (case fst (op_upload ops f oneshot s) of Inl e \<Rightarrow> ext_fail e
         | Inr _ \<Rightarrow> content (snd (op_upload ops f oneshot s)) = data))"

definition wait_ok :: "'s backend_ops \<Rightarrow> bool" where
  "wait_ok ops \<longleftrightarrow>
     (\<forall>me s c. only_others me c (snd (op_wait_evict ops me s c)) \<and>
              only_others me c (snd (op_wait_flush ops me s c)) \<and>
              (\<forall>e. fst (op_wait_evict ops me s c) = Some e \<longrightarrow> ext_fail e) \<and>
              (\<forall>e. fst (op_wait_flush ops me s c) = Some e \<longrightarrow> ext_fail e))"

definition backend_ok :: "'s backend_ops \<Rightarrow> ('s \<Rightarrow> bytes) \<Rightarrow> bool" where
  "backend_ok ops content \<longleftrightarrow>
     read_ok ops content \<and> read_all_ok ops content \<and> write_ok ops content \<and>
     truncate_ok ops content \<and> create_ok ops content \<and> upload_ok ops content \<and> wait_ok ops"

end
