(* ===== verification/Flush_Correct.thy ===== *)
theory Flush_Correct
  imports Page_Flush
begin

text \<open>
  The invariant of an open file and the proof that writing back keeps both the invariant and
  the bytes the file stands for: GetWriteList yields runs of consecutive full dirty pages,
  FlushPageList of PageBackend stores exactly such a run at its offset, and the operations of
  PageManager built on it leave the file's bytes unchanged whether they succeed or throw.
\<close>

section \<open>The invariant\<close>

text \<open>The bytes stored on the backend as far as mBackendSize, and the bytes of the file.\<close>

definition srv :: "('s \<Rightarrow> bytes) \<Rightarrow> 's world \<Rightarrow> nat \<Rightarrow> byte" where
  "srv content w i = (if i < w_bsize w then nth0 (content (w_env w)) i else 0)"

text \<open>
  While GetPageWrite prepares a page it is in the page map without being part of the file
  yet; X holds the index of such a page, and known the pages that count.
\<close>

definition known :: "nat set \<Rightarrow> 's world \<Rightarrow> (nat, page) smap" where
  "known X w = filter (\<lambda>e. fst e \<notin> X) (w_pages w)"

definition file_view :: "file_cfg \<Rightarrow> ('s \<Rightarrow> bytes) \<Rightarrow> nat set \<Rightarrow> 's world \<Rightarrow> nat \<Rightarrow> byte" where
  "file_view cfg content X w = view (fc_psize cfg) (known X w) (srv content w)"

definition sizes_ok :: "file_cfg \<Rightarrow> nat set \<Rightarrow> 's world \<Rightarrow> bool" where
  "sizes_ok cfg X w \<longleftrightarrow>
     (\<forall>(k, p) \<in> set (known X w). (pg_dirty p \<longrightarrow> k * fc_psize cfg < w_fsize w) \<and>
        min (fc_psize cfg) (w_fsize w - k * fc_psize cfg) \<le> pg_size p \<and> pg_size p \<le> fc_psize cfg)"

definition backend_agrees :: "('s \<Rightarrow> bytes) \<Rightarrow> 's world \<Rightarrow> bool" where
  "backend_agrees content w \<longleftrightarrow>
     (if w_exists w then w_bsize w = length (content (w_env w)) else w_bsize w = 0)"

definition clean_agrees :: "file_cfg \<Rightarrow> ('s \<Rightarrow> bytes) \<Rightarrow> nat set \<Rightarrow> 's world \<Rightarrow> bool" where
  "clean_agrees cfg content X w \<longleftrightarrow>
     (\<forall>(k, p) \<in> set (known X w). \<not> pg_dirty p \<longrightarrow>
        (\<forall>j < fc_psize cfg. nth0 (pg_data p) j = srv content w (k * fc_psize cfg + j)))"

definition file_inv :: "file_cfg \<Rightarrow> ('s \<Rightarrow> bytes) \<Rightarrow> nat set \<Rightarrow> 's world \<Rightarrow> bool" where
  "file_inv cfg content X w \<longleftrightarrow>
     0 < fc_psize cfg \<and> 0 < w_fetch w \<and> w_fsize w + fc_psize cfg \<le> 2 ^ 64 \<and>
     smap_ok (w_pages w) \<and> sizes_ok cfg X w \<and> backend_agrees content w \<and>
     clean_agrees cfg content X w \<and> (\<forall>(k, p) \<in> set (w_pages w). k \<in> X \<longrightarrow> \<not> pg_dirty p) \<and>
     (\<forall>i \<ge> w_fsize w. srv content w i = 0 \<and> file_view cfg content X w i = 0)"

text \<open>
  The queues of the cache mention only pages of this file that are in its page map.
\<close>

definition cache_inv :: "file_cfg \<Rightarrow> 's world \<Rightarrow> bool" where
  "cache_inv cfg w \<longleftrightarrow>
     cache_ok (w_cache w) \<and>
     (fc_cachemgr cfg \<longrightarrow> (\<forall>k. (fc_me cfg, k) \<in> cm_keys (w_cache w) \<longrightarrow> k \<in> fst ` set (w_pages w)))"

text \<open>The file is only longer than what is stored and what is dirty before it is created.\<close>

definition tail_ok :: "file_cfg \<Rightarrow> 's world \<Rightarrow> bool" where
  "tail_ok cfg w \<longleftrightarrow>
     (w_exists w \<longrightarrow> w_fsize w \<le> max (w_bsize w) (max_dirty (fc_psize cfg) (w_pages w)))"

lemma file_invD:
  assumes "file_inv cfg content X w"
  shows "0 < fc_psize cfg" "smap_ok (w_pages w)" "sizes_ok cfg X w" "backend_agrees content w"
    "clean_agrees cfg content X w"
    "\<And>i. w_fsize w \<le> i \<Longrightarrow> srv content w i = 0"
    "\<And>i. w_fsize w \<le> i \<Longrightarrow> file_view cfg content X w i = 0"
    "w_fsize w + fc_psize cfg \<le> 2 ^ 64"
    "\<And>k p. (k, p) \<in> set (w_pages w) \<Longrightarrow> k \<in> X \<Longrightarrow> \<not> pg_dirty p" "0 < w_fetch w"
  using assms by (auto simp: file_inv_def)

lemma known_simps [simp]:
  "known {} w = w_pages w" "(k, p) \<in> set (known X w) \<longleftrightarrow> (k, p) \<in> set (w_pages w) \<and> k \<notin> X"
  by (auto simp: known_def)

lemma known_ok [simp]: "smap_ok (w_pages w) \<Longrightarrow> smap_ok (known X w)"
  by (auto simp: known_def smap_ok_def sorted_wrt_map sorted_wrt_filter)

lemma map_of_known: "map_of (known X w) k = (if k \<in> X then None else map_of (w_pages w) k)"
proof -
  have "map_of (filter (\<lambda>e. fst e \<notin> X) m) k = (if k \<in> X then None else map_of m k)" for m :: "(nat, page) smap"
    by (induction m) auto
  then show ?thesis by (simp add: known_def)
qed

lemma sizes_okD:
  assumes "sizes_ok cfg X w" and "(k, p) \<in> set (known X w)"
  shows "pg_dirty p \<Longrightarrow> k * fc_psize cfg < w_fsize w"
    and "min (fc_psize cfg) (w_fsize w - k * fc_psize cfg) \<le> pg_size p"
    and "pg_size p \<le> fc_psize cfg"
  using assms by (auto simp: sizes_ok_def)

lemma page_nonempty:
  assumes "file_inv cfg content X w" and "(k, p) \<in> set (known X w)" and "pg_dirty p"
  shows "0 < pg_size p"
  using sizes_okD(1) [OF file_invD(3) [OF assms(1)] assms(2,3)] sizes_okD(2) [OF file_invD(3) [OF assms(1)] assms(2)]
    file_invD(1) [OF assms(1)] by linarith

text \<open>A page that is followed by another one of the file is full.\<close>

lemma page_full:
  assumes "file_inv cfg content X w" and "(k, p) \<in> set (known X w)" and "(Suc k, q) \<in> set (known X w)"
    and "pg_dirty q"
  shows "pg_size p = fc_psize cfg"
proof -
  note s = file_invD(3) [OF assms(1)]
  have "k * fc_psize cfg + fc_psize cfg < w_fsize w" using sizes_okD(1) [OF s assms(3,4)] by simp
  with sizes_okD(2,3) [OF s assms(2)] show ?thesis by linarith
qed

text \<open>Past the end of a page that does not fill its slot there is nothing but zeroes.\<close>

lemma past_page_zero:
  assumes "file_inv cfg content X w" and "(k, p) \<in> set (known X w)" and "pg_size p \<le> j" "j < fc_psize cfg"
  shows "srv content w (k * fc_psize cfg + j) = 0" and "w_fsize w \<le> k * fc_psize cfg + j"
proof -
  show "w_fsize w \<le> k * fc_psize cfg + j"
    using sizes_okD(2) [OF file_invD(3) [OF assms(1)] assms(2)] assms(3,4) by linarith
  then show "srv content w (k * fc_psize cfg + j) = 0" by (rule file_invD(6) [OF assms(1)])
qed

lemma file_view_page:
  assumes "file_inv cfg content X w" and "(k, p) \<in> set (known X w)" and "j < fc_psize cfg"
  shows "file_view cfg content X w (k * fc_psize cfg + j) = nth0 (pg_data p) j"
  unfolding file_view_def
  by (subst view_in_page [of _ k _ _ p])
    (use assms file_invD(1,2) [OF assms(1)] in \<open>auto simp: in_sm_find\<close>)

section \<open>Write runs\<close>

text \<open>A run: consecutive dirty entries of the page map.\<close>

fun consecutive :: "(nat \<times> page) list \<Rightarrow> bool" where
  "consecutive [] = True"
| "consecutive [(k, p)] = True"
| "consecutive ((k, p) # (l, q) # es) = (l = Suc k \<and> consecutive ((l, q) # es))"

definition is_run :: "(nat, page) smap \<Rightarrow> nat \<Rightarrow> (nat \<times> page) list \<Rightarrow> bool" where
  "is_run pages start wl \<longleftrightarrow>
     wl \<noteq> [] \<and> fst (hd wl) = start \<and> set wl \<subseteq> set pages \<and> consecutive wl \<and> (\<forall>(k, p) \<in> set wl. pg_dirty p)"

lemma consecutive_append:
  "consecutive (wl @ [(k, p)]) \<longleftrightarrow> consecutive wl \<and> (wl \<noteq> [] \<longrightarrow> k = Suc (fst (last wl)))"
  by (induction wl rule: consecutive.induct) auto

lemma consecutive_nth: "consecutive wl \<Longrightarrow> i < length wl \<Longrightarrow> fst (wl ! i) = fst (hd wl) + i"
proof (induction wl arbitrary: i rule: consecutive.induct)
  case (3 k p l q es)
  then show ?case by (cases i) auto
qed auto

lemma consecutive_tl: "consecutive (e # es) \<Longrightarrow> consecutive es"
  by (cases es; cases e) auto

lemma get_write_list_run_gen:
  assumes "get_write_list maxw cur lk wl start es = (s, out, rest)"
    and "set es \<subseteq> set pages"
    and "wl \<noteq> [] \<longrightarrow> is_run pages start wl \<and> fst (last wl) = lk"
  shows "(out \<noteq> [] \<longrightarrow> is_run pages s out) \<and> set rest \<subseteq> set pages \<and>
         (\<exists>pre. es = pre @ rest \<and>
           {e \<in> set wl \<union> set pre. pg_dirty (snd e)} = set out)"
  using assms
proof (induction maxw cur lk wl start es rule: get_write_list.induct)
  case (1 maxw cur lk wl start)
  then show ?case by (auto simp: is_run_def split: prod.splits)
next
  case (2 maxw cur lk wl start k p rest')
  show ?case
  proof (cases "pg_dirty p")
    case dirty: True
    show ?thesis
    proof (cases "wl = []")
      case True
      then have "get_write_list maxw (uadd cur (pg_size p)) k [(k, p)] k rest' = (s, out, rest)"
        using 2(4) dirty by simp
      from 2(1) [OF dirty True this] 2(5) dirty
      have "(out \<noteq> [] \<longrightarrow> is_run pages s out) \<and> set rest \<subseteq> set pages \<and>
         (\<exists>pre. rest' = pre @ rest \<and> {e \<in> set [(k, p)] \<union> set pre. pg_dirty (snd e)} = set out)"
        by (auto simp: is_run_def)
      then obtain pre where pre: "rest' = pre @ rest" "{e \<in> set [(k, p)] \<union> set pre. pg_dirty (snd e)} = set out"
        and o: "out \<noteq> [] \<longrightarrow> is_run pages s out" "set rest \<subseteq> set pages" by blast
      then show ?thesis using True by (intro conjI exI [of _ "(k, p) # pre"]) auto
    next
      case wl: False
      show ?thesis
      proof (cases "lk + 1 \<noteq> k \<or> uadd cur (pg_size p) < cur \<or> (maxw \<noteq> 0 \<and> uadd cur (pg_size p) > maxw)")
        case True
        then have "(start, wl, (k, p) # rest') = (s, out, rest)" using 2(4) dirty wl by (auto split: if_splits)
        then show ?thesis using 2(5,6) wl by (auto simp: is_run_def intro!: exI [of _ "[]"])
      next
        case False
        then have "get_write_list maxw (uadd cur (pg_size p)) k (wl @ [(k, p)]) start rest' = (s, out, rest)"
          using 2(4) dirty wl by auto
        moreover have "is_run pages start (wl @ [(k, p)])"
          using 2(5,6) wl dirty False by (auto simp: is_run_def consecutive_append)
        ultimately have "(out \<noteq> [] \<longrightarrow> is_run pages s out) \<and> set rest \<subseteq> set pages \<and>
         (\<exists>pre. rest' = pre @ rest \<and> {e \<in> set (wl @ [(k, p)]) \<union> set pre. pg_dirty (snd e)} = set out)"
          using 2(2) [OF dirty wl] 2(5) False by auto
        then obtain pre where pre: "rest' = pre @ rest"
          "{e \<in> set (wl @ [(k, p)]) \<union> set pre. pg_dirty (snd e)} = set out"
          and o: "out \<noteq> [] \<longrightarrow> is_run pages s out" "set rest \<subseteq> set pages" by blast
        then show ?thesis by (intro conjI exI [of _ "(k, p) # pre"]) auto
      qed
    qed
  next
    case clean: False
    show ?thesis
    proof (cases "wl = []")
      case True
      then have "get_write_list maxw cur lk wl start rest' = (s, out, rest)"
        using 2(4) clean by simp
      from 2(3) [OF clean _ this] 2(5) True
      have "(out \<noteq> [] \<longrightarrow> is_run pages s out) \<and> set rest \<subseteq> set pages \<and>
         (\<exists>pre. rest' = pre @ rest \<and> {e \<in> set wl \<union> set pre. pg_dirty (snd e)} = set out)"
        by auto
      then obtain pre where pre: "rest' = pre @ rest" "{e \<in> set wl \<union> set pre. pg_dirty (snd e)} = set out"
        and o: "out \<noteq> [] \<longrightarrow> is_run pages s out" "set rest \<subseteq> set pages" by blast
      then show ?thesis using clean by (intro conjI exI [of _ "(k, p) # pre"]) auto
    next
      case False
      then have "(start, wl, (k, p) # rest') = (s, out, rest)" using 2(4) clean by simp
      then show ?thesis using 2(5,6) False by (auto simp: is_run_def intro!: exI [of _ "[]"])
    qed
  qed
qed

section \<open>What a run stores\<close>

lemma run_known:
  assumes "file_inv cfg content X w" and "is_run (w_pages w) start wl"
  shows "set wl \<subseteq> {e \<in> set (known X w). pg_dirty (snd e)}"
  using assms(2) file_invD(9) [OF assms(1)] by (fastforce simp: is_run_def)

lemma consecutive_keys: "consecutive ((k, p) # es) \<Longrightarrow> (l, q) \<in> set es \<Longrightarrow> k < l"
proof (induction es arbitrary: k p)
  case (Cons e es)
  obtain a r where e: "e = (a, r)" by force
  then have "a = Suc k" and "consecutive ((a, r) # es)" using Cons.prems(1) by auto
  then show ?case using Cons.IH [of a r] Cons.prems(2) e by (auto dest: less_trans)
qed simp

lemma consecutive_full_run:
  assumes inv: "file_inv cfg content X w"
  shows "set wl \<subseteq> {e \<in> set (known X w). pg_dirty (snd e)} \<Longrightarrow> consecutive wl \<Longrightarrow> full_run (fc_psize cfg) (map snd wl)"
proof (induction wl rule: consecutive.induct)
  case (2 k p)
  then show ?case using page_nonempty [OF inv] sizes_okD(3) [OF file_invD(3) [OF inv]] by auto
next
  case (3 k p l q es)
  then show ?case using page_full [OF inv, of k p q] by auto
qed simp

lemma run_span:
  assumes inv: "file_inv cfg content X w"
  shows "set wl \<subseteq> {e \<in> set (known X w). pg_dirty (snd e)} \<Longrightarrow> consecutive wl \<Longrightarrow> wl \<noteq> [] \<Longrightarrow>
    fst (hd wl) * fc_psize cfg + length (run_bytes (map snd wl)) =
    fst (last wl) * fc_psize cfg + pg_size (snd (last wl))"
proof (induction wl rule: consecutive.induct)
  case (2 k p)
  then show ?case by (simp add: pg_size_def)
next
  case (3 k p l q es)
  then have "pg_size p = fc_psize cfg" "l = Suc k" using page_full [OF inv, of k p q] by auto
  then show ?case using 3 by (simp add: pg_size_def algebra_simps)
qed simp

lemma run_end_bound:
  assumes inv: "file_inv cfg content X w" and run: "is_run (w_pages w) start wl"
  shows "start * fc_psize cfg + length (run_bytes (map snd wl)) < 2 ^ 64"
proof -
  obtain k p where l: "last wl = (k, p)" by force
  have kp: "(k, p) \<in> set (known X w)" "pg_dirty p"
    using run l last_in_set [of wl] run_known [OF inv run] by (auto simp: is_run_def)
  have "start * fc_psize cfg + length (run_bytes (map snd wl)) = k * fc_psize cfg + pg_size p"
    using run_span [OF inv run_known [OF inv run]] run l by (auto simp: is_run_def)
  also have "\<dots> < w_fsize w + fc_psize cfg"
    using sizes_okD(1) [OF file_invD(3) [OF inv] kp] sizes_okD(3) [OF file_invD(3) [OF inv] kp(1)] by linarith
  also have "\<dots> \<le> 2 ^ 64" using file_invD(8) [OF inv] .
  finally show ?thesis .
qed

lemma total_size_u64: "total_size ps = u64 (length (run_bytes ps))"
proof -
  have "total_size ps = fold (\<lambda>x acc. uadd acc x) (map pg_size ps) (u64 0)"
    by (simp add: total_size_def fold_map comp_def)
  also have "\<dots> = u64 (length (run_bytes ps))"
    unfolding fold_uadd by (simp add: run_bytes_def length_concat comp_def pg_size_def [abs_def])
  finally show ?thesis .
qed

text \<open>
  Overlaying the bytes of a run on what is stored is the same as reading the pages of the run
  in front of it.
\<close>

lemma overlay_run_view:
  assumes n: "0 < n"
  shows "consecutive wl \<Longrightarrow> full_run n (map snd wl) \<Longrightarrow> wl \<noteq> [] \<Longrightarrow>
    (\<And>k p j. (k, p) \<in> set wl \<Longrightarrow> pg_size p \<le> j \<Longrightarrow> j < n \<Longrightarrow> f (k * n + j) = 0) \<Longrightarrow>
    overlay f (fst (hd wl) * n) (run_bytes (map snd wl)) = view n wl f"
proof (induction wl arbitrary: f)
  case (Cons e es)
  obtain k p where e: "e = (k, p)" by force
  have le: "pg_size p \<le> n" using Cons.prems(2) full_run_size e by fastforce
  have slot: "i div n = k \<longleftrightarrow> k * n \<le> i \<and> i < k * n + n" for i
    using page_index_split(1) [OF n, of k i] page_index_bounds [OF n, of i] by auto
  have nk: "map_of es k = None"
    using consecutive_keys [of k p es] Cons.prems(1) e by (fastforce simp: map_of_eq_None_iff)
  define f1 where "f1 = overlay f (k * n) (pg_data p)"
  have f1: "f1 i = (if i div n = k then nth0 (pg_data p) (i mod n) else f i)" for i
  proof (cases "i div n = k")
    case True
    then have i: "i = k * n + i mod n" by (metis div_mult_mod_eq)
    have lt: "i mod n < n" using n by simp
    have z: "f i = 0" if "pg_size p \<le> i mod n"
      using Cons.prems(4) [of k p "i mod n"] e i that lt by auto
    have "k * n \<le> i" "i - k * n = i mod n" "i < k * n + length (pg_data p) \<longleftrightarrow> i mod n < length (pg_data p)"
      using i by linarith+
    then show ?thesis using True z by (auto simp: f1_def overlay_def nth0_def pg_size_def)
  next
    case False
    then show ?thesis using slot [of i] le by (auto simp: f1_def overlay_def pg_size_def)
  qed
  have v: "view n (e # es) f i = view n es f1 i" for i
    using nk by (auto simp: view_def e f1 split: option.splits)
  show ?case
  proof (cases es)
    case Nil
    have "view n es f1 = f1" by (simp add: Nil view_def fun_eq_iff)
    then have "view n (e # es) f = f1" using v by (simp add: fun_eq_iff)
    then show ?thesis by (simp add: Nil e f1_def)
  next
    case (Cons e2 es2)
    obtain l q where e2: "e2 = (l, q)" by force
    have full: "length (pg_data p) = n" and l: "l = Suc k"
      using Cons.prems(1,2) by (simp_all add: Cons e e2 pg_size_def)
    have z1: "f1 (k' * n + j) = 0" if "(k', p') \<in> set es" "pg_size p' \<le> j" "j < n" for k' p' j
    proof -
      have "k < k'" using consecutive_keys [of k p es] Cons.prems(1) that(1) e by auto
      moreover have "(k' * n + j) div n = k'" using that(3) n by simp
      ultimately have "f1 (k' * n + j) = f (k' * n + j)" by (simp add: f1)
      moreover have "f (k' * n + j) = 0"
        by (rule Cons.prems(4) [OF _ that(2,3)]) (use that(1) in simp)
      ultimately show ?thesis by simp
    qed
    have "full_run n (map snd es)" "es \<noteq> []" using full_run_tl Cons.prems(2) by (auto simp: Cons)
    from Cons.IH [of f1, OF consecutive_tl [OF Cons.prems(1)] this z1]
    have "overlay f1 (Suc k * n) (run_bytes (map snd es)) = view n es f1"
      by (simp add: Cons e2 l)
    moreover have "overlay f (k * n) (run_bytes (map snd (e # es))) =
        overlay f1 (Suc k * n) (run_bytes (map snd es))"
      using overlay_append [of f "k * n" "pg_data p" "run_bytes (map snd es)"] full
      by (simp add: e f1_def add.commute)
    ultimately show ?thesis using v by (simp add: e fun_eq_iff)
  qed
qed simp

lemma run_overlay:
  assumes inv: "file_inv cfg content X w" and run: "is_run (w_pages w) start wl"
  shows "overlay (srv content w) (start * fc_psize cfg) (run_bytes (map snd wl)) =
         view (fc_psize cfg) wl (srv content w)"
proof -
  have c: "consecutive wl" "set wl \<subseteq> {e \<in> set (known X w). pg_dirty (snd e)}" "wl \<noteq> []" "fst (hd wl) = start"
    using run run_known [OF inv run] by (auto simp: is_run_def)
  show ?thesis
    using overlay_run_view [OF file_invD(1) [OF inv] c(1) consecutive_full_run [OF inv c(2,1)] c(3),
        of "srv content w"] past_page_zero(1) [OF inv] c(2,4) by blast
qed

section \<open>The backend half\<close>

lemma srv_content:
  "backend_agrees content w \<Longrightarrow>
   srv content w i = (if w_exists w then nth0 (content (w_env w)) i else 0)"
  by (auto simp: srv_def backend_agrees_def split: if_splits)

text \<open>What requests to the backend leave alone: everything this client keeps but its sizes.\<close>

definition same_pages :: "'s world \<Rightarrow> 's world \<Rightarrow> bool" where
  "same_pages w w' \<longleftrightarrow>
     w_pages w' = w_pages w \<and> w_fsize w' = w_fsize w \<and> w_fetch w' = w_fetch w \<and>
     w_deferred w' = w_deferred w \<and> w_cache w' = w_cache w"

lemma same_pages_trans: "same_pages a b \<Longrightarrow> same_pages b c \<Longrightarrow> same_pages a c"
  by (simp add: same_pages_def)

lemma refresh_new [simp]: "\<not> w_exists w \<Longrightarrow> refresh_size cfg n w = w"
  by (simp add: refresh_size_def remote_changed_def)

lemma with_env_simps [simp]:
  "fst (with_env r w) = fst r" "w_env (snd (with_env r w)) = snd r"
  "w_pages (snd (with_env r w)) = w_pages w" "w_fsize (snd (with_env r w)) = w_fsize w"
  "w_fetch (snd (with_env r w)) = w_fetch w" "w_deferred (snd (with_env r w)) = w_deferred w"
  "w_cache (snd (with_env r w)) = w_cache w" "w_bsize (snd (with_env r w)) = w_bsize w"
  "w_exists (snd (with_env r w)) = w_exists w"
  by (simp_all add: with_env_def)

lemma backend_create_spec:
  fixes cfg
  assumes ops: "backend_ok ops content" and ag: "backend_agrees content w"
  defines "r \<equiv> backend_flush_create cfg ops w"
  shows "same_pages w (snd r)" and "backend_agrees content (snd r)" and "srv content (snd r) = srv content w"
    and "w_bsize (snd r) = w_bsize w" and "w_exists w \<Longrightarrow> r = (Inr (), w)"
    and "fst r = Inr () \<Longrightarrow> w_exists (snd r)" and "fst r = Inl e \<Longrightarrow> ext_fail e \<and> \<not> w_exists (snd r)"
proof -
  note cr = ops [unfolded backend_ok_def create_ok_def, THEN conjunct2, THEN conjunct2, THEN conjunct2,
      THEN conjunct2, THEN conjunct1, rule_format, of "w_env w"]
  have b0: "\<not> w_exists w \<Longrightarrow> w_bsize w = 0" using ag by (simp add: backend_agrees_def)
  have all: "same_pages w (snd r) \<and> backend_agrees content (snd r) \<and> w_bsize (snd r) = w_bsize w \<and>
    (fst r = Inr () \<longrightarrow> w_exists (snd r)) \<and> (\<forall>e. fst r = Inl e \<longrightarrow> ext_fail e \<and> \<not> w_exists (snd r)) \<and>
    srv content (snd r) = srv content w"
    using cr ag b0 unfolding r_def backend_flush_create_def bindE_cases
    by (auto simp: same_pages_def backend_agrees_def srv_def fun_eq_iff split: sum.splits)
  then show "same_pages w (snd r)" "backend_agrees content (snd r)" "srv content (snd r) = srv content w"
    "w_bsize (snd r) = w_bsize w" "fst r = Inr () \<Longrightarrow> w_exists (snd r)"
    "fst r = Inl e \<Longrightarrow> ext_fail e \<and> \<not> w_exists (snd r)" by blast+
  show "w_exists w \<Longrightarrow> r = (Inr (), w)" by (simp add: r_def backend_flush_create_def)
qed

lemma backend_truncate_spec:
  fixes n
  assumes ops: "backend_ok ops content" and ag: "backend_agrees content w"
  defines "r \<equiv> backend_truncate ops n w"
  shows "same_pages w (snd r)" and "backend_agrees content (snd r)" and "w_exists (snd r) = w_exists w"
    and "fst r = Inl e \<Longrightarrow> ext_fail e \<and> w_bsize (snd r) = w_bsize w \<and> srv content (snd r) = srv content w"
    and "fst r = Inr () \<Longrightarrow> w_bsize (snd r) = (if w_exists w then n else 0) \<and>
          srv content (snd r) = (\<lambda>i. if i < n then srv content w i else 0)"
proof -
  note tr = ops [unfolded backend_ok_def truncate_ok_def, THEN conjunct2, THEN conjunct2, THEN conjunct2,
      THEN conjunct1, rule_format, of n "w_env w"]
  have all: "same_pages w (snd r) \<and> backend_agrees content (snd r) \<and> w_exists (snd r) = w_exists w \<and>
    (\<forall>e. fst r = Inl e \<longrightarrow> ext_fail e \<and> w_bsize (snd r) = w_bsize w \<and> srv content (snd r) = srv content w) \<and>
    (fst r = Inr () \<longrightarrow> w_bsize (snd r) = (if w_exists w then n else 0) \<and>
          srv content (snd r) = (\<lambda>i. if i < n then srv content w i else 0))"
    using tr ag unfolding r_def backend_truncate_def bindE_cases
    by (auto simp: same_pages_def backend_agrees_def srv_def fun_eq_iff nth0_resize_bytes split: sum.splits)
  then show "same_pages w (snd r)" "backend_agrees content (snd r)" "w_exists (snd r) = w_exists w"
    "fst r = Inl e \<Longrightarrow> ext_fail e \<and> w_bsize (snd r) = w_bsize w \<and> srv content (snd r) = srv content w"
    "fst r = Inr () \<Longrightarrow> w_bsize (snd r) = (if w_exists w then n else 0) \<and>
          srv content (snd r) = (\<lambda>i. if i < n then srv content w i else 0)" by blast+
qed

lemma run_writer_serves:
  assumes "file_inv cfg content X w" and "is_run (w_pages w) start wl"
  shows "serves (page_list_writer (fc_psize cfg) (map snd wl)) (run_bytes (map snd wl))"
  using page_list_writer_serves [OF file_invD(1) [OF assms(1)]]
    consecutive_full_run [OF assms(1) run_known [OF assms]] assms(2)
  by (auto simp: is_run_def)

lemma run_nonempty:
  assumes "file_inv cfg content X w" and "is_run (w_pages w) start wl"
  shows "0 < length (run_bytes (map snd wl))"
proof -
  obtain k p es where wl: "wl = (k, p) # es" using assms(2) by (cases wl) (auto simp: is_run_def)
  then have "0 < pg_size p" using page_nonempty [OF assms(1), of k p] run_known [OF assms] by auto
  then show ?thesis by (simp add: wl pg_size_def)
qed

text \<open>The last step of FlushPageList: a write at the offset of the run, or an upload from 0.\<close>

definition store_step :: "file_cfg \<Rightarrow> 's backend_ops \<Rightarrow> nat \<Rightarrow> page list \<Rightarrow> 's world \<Rightarrow> (unit, 's world) outcome" where
  "store_step cfg ops index pages w1 =
     (let writer = page_list_writer (fc_psize cfg) pages in
      if \<not> w_exists w1
      then bindE (with_env (op_upload ops writer (get_write_mode cfg < APPEND) (w_env w1)) w1) (\<lambda>size w2.
             (Inr (), (refresh_size cfg size w2)\<lparr>w_exists := True\<rparr>))
      else with_env (op_write ops (index * fc_psize cfg) writer (w_env w1)) w1)"

lemma store_step_spec:
  fixes cfg
  assumes ops: "backend_ok ops content" and ag: "backend_agrees content w"
    and sv: "serves (page_list_writer (fc_psize cfg) ps) data"
    and first: "\<not> w_exists w \<longrightarrow> index = 0"
  defines "r \<equiv> store_step cfg ops index ps w"
  shows "same_pages w (snd r)" and "w_bsize (snd r) = w_bsize w"
    and "fst r = Inl e \<Longrightarrow> ext_fail e \<and> w_exists (snd r) = w_exists w \<and>
           srv content (snd r) = srv content w \<and> backend_agrees content (snd r)"
    and "fst r = Inr () \<Longrightarrow> w_exists (snd r) \<and>
           length (content (w_env (snd r))) = max (w_bsize w) (index * fc_psize cfg + length data) \<and>
           nth0 (content (w_env (snd r))) = overlay (srv content w) (index * fc_psize cfg) data"
proof -
  let ?wr = "page_list_writer (fc_psize cfg) ps"
  have W: "case fst (op_write ops (index * fc_psize cfg) ?wr (w_env w)) of
      Inl e \<Rightarrow> ext_fail e \<and> content (snd (op_write ops (index * fc_psize cfg) ?wr (w_env w))) = content (w_env w)
    | Inr _ \<Rightarrow> content (snd (op_write ops (index * fc_psize cfg) ?wr (w_env w))) =
        patch (content (w_env w)) (index * fc_psize cfg) data"
    using ops sv unfolding backend_ok_def write_ok_def by blast
  have U: "case fst (op_upload ops ?wr b (w_env w)) of Inl e \<Rightarrow> ext_fail e
    | Inr _ \<Rightarrow> content (snd (op_upload ops ?wr b (w_env w))) = data" for b
    using ops sv unfolding backend_ok_def upload_ok_def by blast
  have "same_pages w (snd r) \<and> w_bsize (snd r) = w_bsize w \<and>
    (\<forall>e. fst r = Inl e \<longrightarrow> ext_fail e \<and> w_exists (snd r) = w_exists w \<and>
           srv content (snd r) = srv content w \<and> backend_agrees content (snd r)) \<and>
    (fst r = Inr () \<longrightarrow> w_exists (snd r) \<and>
           length (content (w_env (snd r))) = max (w_bsize w) (index * fc_psize cfg + length data) \<and>
           nth0 (content (w_env (snd r))) = overlay (srv content w) (index * fc_psize cfg) data)"
  proof (cases "w_exists w")
    case True
    then show ?thesis using W ag unfolding r_def store_step_def Let_def
      by (auto simp: same_pages_def backend_agrees_def srv_def fun_eq_iff length_patch nth0_patch overlay_def
          split: sum.splits)
  next
    case False
    then have "index = 0" "w_bsize w = 0" using first ag by (auto simp: backend_agrees_def)
    with False U [of "get_write_mode cfg < APPEND"] ag show ?thesis
      unfolding r_def store_step_def Let_def bindE_cases
      by (auto simp: same_pages_def backend_agrees_def srv_def fun_eq_iff overlay_def nth0_def
          split: sum.splits)
  qed
  then show "same_pages w (snd r)" and "w_bsize (snd r) = w_bsize w"
    and "fst r = Inl e \<Longrightarrow> ext_fail e \<and> w_exists (snd r) = w_exists w \<and>
           srv content (snd r) = srv content w \<and> backend_agrees content (snd r)"
    and "fst r = Inr () \<Longrightarrow> w_exists (snd r) \<and>
           length (content (w_env (snd r))) = max (w_bsize w) (index * fc_psize cfg + length data) \<and>
           nth0 (content (w_env (snd r))) = overlay (srv content w) (index * fc_psize cfg) data"
    by blast+
qed

lemma backend_flush_list_steps:
  "backend_flush_list cfg ops index pages w =
     (if pages = [] \<or> (get_write_mode cfg = UPLOAD \<and> w_exists w) \<or>
         (get_write_mode cfg = APPEND \<and> w_exists w \<and> index * fc_psize cfg \<noteq> w_bsize w) \<or>
         (\<not> w_exists w \<and> index \<noteq> 0 \<and> get_write_mode cfg < RANDOM)
      then (Inl AssertFailed, w)
      else bindE (if \<not> w_exists w \<and> index \<noteq> 0 then backend_flush_create cfg ops w else (Inr (), w))
             (\<lambda>_ w1. bindE (store_step cfg ops index pages w1)
               (\<lambda>_ w3. (Inr (total_size pages), w3\<lparr>w_bsize := max (w_bsize w3) (index * fc_psize cfg + total_size pages)\<rparr>))))"
  by (simp add: backend_flush_list_def store_step_def Let_def)

lemma backend_flush_list_spec:
  fixes cfg
  assumes ops: "backend_ok ops content" and inv: "file_inv cfg content X w"
    and run: "is_run (w_pages w) start wl"
  defines "r \<equiv> backend_flush_list cfg ops start (map snd wl) w" and "data \<equiv> run_bytes (map snd wl)"
  shows "same_pages w (snd r)" and "backend_agrees content (snd r)" and "w_exists w \<longrightarrow> w_exists (snd r)"
    and "fst r = Inl e \<Longrightarrow> srv content (snd r) = srv content w \<and> w_bsize (snd r) = w_bsize w \<and>
           (ext_fail e \<or> e = AssertFailed \<and> get_write_mode cfg \<noteq> RANDOM)"
    and "fst r = Inr n \<Longrightarrow> n = length data \<and> w_exists (snd r) \<and>
           w_bsize (snd r) = max (w_bsize w) (start * fc_psize cfg + length data) \<and>
           srv content (snd r) = overlay (srv content w) (start * fc_psize cfg) data"
proof -
  have ag: "backend_agrees content w" using inv by (rule file_invD)
  have total: "total_size (map snd wl) = length data"
    using run_end_bound [OF inv run] by (simp add: total_size_u64 data_def u64_small)
  have sv: "serves (page_list_writer (fc_psize cfg) (map snd wl)) data"
    using run_writer_serves [OF inv run] by (simp add: data_def)
  define good where "good r' \<longleftrightarrow>
    same_pages w (snd r') \<and> backend_agrees content (snd r') \<and> (w_exists w \<longrightarrow> w_exists (snd r')) \<and>
    (\<forall>e. fst r' = Inl e \<longrightarrow> srv content (snd r') = srv content w \<and> w_bsize (snd r') = w_bsize w \<and>
           (ext_fail e \<or> e = AssertFailed \<and> get_write_mode cfg \<noteq> RANDOM)) \<and>
    (\<forall>n. fst r' = Inr n \<longrightarrow> n = length data \<and> w_exists (snd r') \<and>
           w_bsize (snd r') = max (w_bsize w) (start * fc_psize cfg + length data) \<and>
           srv content (snd r') = overlay (srv content w) (start * fc_psize cfg) data)"
    for r' :: "(exn + nat) \<times> _"
  have store: "good (bindE (store_step cfg ops start (map snd wl) w1)
      (\<lambda>_ w3. (Inr (total_size (map snd wl)), w3\<lparr>w_bsize := max (w_bsize w3) (start * fc_psize cfg + total_size (map snd wl))\<rparr>)))"
    if w1: "same_pages w w1" "backend_agrees content w1" "srv content w1 = srv content w" "w_bsize w1 = w_bsize w"
      "w_exists w \<longrightarrow> w_exists w1" "\<not> w_exists w1 \<longrightarrow> start = 0" for w1
  proof -
    define s where "s = store_step cfg ops start (map snd wl) w1"
    note st = store_step_spec [OF ops w1(2) sv w1(6), folded s_def, unfolded w1(3,4)]
    have sp: "same_pages w (snd s)" by (rule same_pages_trans [OF w1(1) st(1)])
    show ?thesis
    proof (cases "fst s")
      case (Inl e)
      then show ?thesis unfolding s_def [symmetric] bindE_cases good_def
        using st(2) st(3) [of e] sp w1(5) by auto
    next
      case (Inr u)
      define w4 where "w4 = (snd s)\<lparr>w_bsize := max (w_bsize (snd s)) (start * fc_psize cfg + length data)\<rparr>"
      have "fst s = Inr ()" using Inr by simp
      note ok = st(4) [OF this]
      have ag4: "backend_agrees content w4"
        using ok st(2) by (simp add: w4_def backend_agrees_def)
      have "srv content w4 = overlay (srv content w) (start * fc_psize cfg) data"
        using ok by (intro ext, subst srv_content [OF ag4]) (simp add: w4_def)
      then show ?thesis unfolding s_def [symmetric] bindE_cases good_def total w4_def [symmetric]
        using Inr ag4 ok st(2) sp by (simp add: w4_def same_pages_def)
    qed
  qed
  have "good r"
  proof (cases "map snd wl = [] \<or> (get_write_mode cfg = UPLOAD \<and> w_exists w) \<or>
         (get_write_mode cfg = APPEND \<and> w_exists w \<and> start * fc_psize cfg \<noteq> w_bsize w) \<or>
         (\<not> w_exists w \<and> start \<noteq> 0 \<and> get_write_mode cfg < RANDOM)")
    case True
    then show ?thesis using run ag
      by (auto simp: r_def backend_flush_list_steps good_def same_pages_def is_run_def)
  next
    case False
    then have r: "r = bindE (if \<not> w_exists w \<and> start \<noteq> 0 then backend_flush_create cfg ops w else (Inr (), w))
      (\<lambda>_ w1. bindE (store_step cfg ops start (map snd wl) w1)
        (\<lambda>_ w3. (Inr (total_size (map snd wl)), w3\<lparr>w_bsize := max (w_bsize w3) (start * fc_psize cfg + total_size (map snd wl))\<rparr>)))"
      unfolding r_def backend_flush_list_steps by (rule if_not_P)
    show ?thesis
    proof (cases "\<not> w_exists w \<and> start \<noteq> 0")
      case True
      note cs = backend_create_spec [OF ops ag, where cfg = cfg]
      show ?thesis
      proof (cases "fst (backend_flush_create cfg ops w)")
        case (Inl e)
        then show ?thesis using r True cs by (auto simp: bindE_cases good_def)
      next
        case (Inr u)
        then show ?thesis using store [OF cs(1-4)] r True cs(6) by (simp add: bindE_cases [of "backend_flush_create _ _ _"])
      qed
    next
      case False
      have "good (bindE (Inr (), w) (\<lambda>_ w1. bindE (store_step cfg ops start (map snd wl) w1)
          (\<lambda>_ w3. (Inr (total_size (map snd wl)),
            w3\<lparr>w_bsize := max (w_bsize w3) (start * fc_psize cfg + total_size (map snd wl))\<rparr>))))"
        unfolding bindE.simps by (rule store) (use ag False in \<open>auto simp: same_pages_def\<close>)
      then show ?thesis unfolding r if_not_P [OF False] .
    qed
  qed
  then show "same_pages w (snd r)" and "backend_agrees content (snd r)" and "w_exists w \<longrightarrow> w_exists (snd r)"
    and "fst r = Inl e \<Longrightarrow> srv content (snd r) = srv content w \<and> w_bsize (snd r) = w_bsize w \<and>
           (ext_fail e \<or> e = AssertFailed \<and> get_write_mode cfg \<noteq> RANDOM)"
    and "fst r = Inr n \<Longrightarrow> n = length data \<and> w_exists (snd r) \<and>
           w_bsize (snd r) = max (w_bsize w) (start * fc_psize cfg + length data) \<and>
           srv content (snd r) = overlay (srv content w) (start * fc_psize cfg) data"
    unfolding good_def by blast+
qed

section \<open>Marking pages clean\<close>

lemma view_same_data:
  assumes "\<And>k. map_option pg_data (map_of pages' k) = map_option pg_data (map_of pages k)"
  shows "view n pages' f = view n pages f"
proof
  fix i
  show "view n pages' f i = view n pages f i"
    using assms [of "i div n"] by (auto simp: view_def split: option.splits)
qed

lemma map_of_map_page:
  "map_of (map (\<lambda>(a, p). (a, f a p)) m) k = map_option (f k) (map_of m k)"
  by (induction m) auto

lemma page_update_alt: "page_update k f m = map (\<lambda>(a, p). (a, if a = k then f p else p)) m"
  by (auto simp: page_update_def)

lemma page_update_simps [simp]:
  "map fst (page_update k f m) = map fst m"
  "map_of (page_update k f m) l = (if l = k then map_option f (map_of m k) else map_of m l)"
  by (auto simp: page_update_alt map_of_map_page option.map_ident)

lemma keys_page_update [simp]: "fst ` set (page_update k f m) = fst ` set m"
  by (metis list.set_map page_update_simps(1))

lemma smap_ok_map_fst: "map fst m' = map fst m \<Longrightarrow> smap_ok m \<Longrightarrow> smap_ok m'"
  by (simp add: smap_ok_def)

lemma smap_ok_page_update [simp]: "smap_ok (page_update k f m) \<longleftrightarrow> smap_ok m"
  by (simp add: smap_ok_def)

definition clean_keys :: "nat set \<Rightarrow> (nat, page) smap \<Rightarrow> (nat, page) smap" where
  "clean_keys K m = map (\<lambda>(a, p). (a, if a \<in> K then set_dirty False p else p)) m"

lemma clean_keys_simps [simp]:
  "map fst (clean_keys K m) = map fst m"
  "map_of (clean_keys K m) l = (if l \<in> K then map_option (set_dirty False) (map_of m l) else map_of m l)"
  "smap_ok (clean_keys K m) \<longleftrightarrow> smap_ok m"
  by (auto simp: clean_keys_def map_of_map_page option.map_ident smap_ok_def comp_def split_beta)

lemma set_clean_keys:
  "(k, p') \<in> set (clean_keys K m) \<longleftrightarrow>
     (\<exists>p. (k, p) \<in> set m \<and> p' = (if k \<in> K then set_dirty False p else p))"
  by (induction m) (auto simp: clean_keys_def)

lemma clean_keys_step: "clean_keys K (page_update k (set_dirty False) m) = clean_keys (insert k K) m"
  by (auto simp: clean_keys_def page_update_alt set_dirty_def)

lemma cache_do_simps [simp]:
  "w_pages (cache_do cfg f w) = w_pages w" "w_fsize (cache_do cfg f w) = w_fsize w"
  "w_fetch (cache_do cfg f w) = w_fetch w" "w_deferred (cache_do cfg f w) = w_deferred w"
  "w_bsize (cache_do cfg f w) = w_bsize w" "w_exists (cache_do cfg f w) = w_exists w"
  "w_env (cache_do cfg f w) = w_env w"
  "known X (cache_do cfg f w) = known X w"
  "w_cache (cache_do cfg f w) = (if fc_cachemgr cfg then f (w_cache w) else w_cache w)"
  by (simp_all add: cache_do_def known_def)

text \<open>What writing back may do to the cache: pages leave its queues, the accounting stays right.\<close>

definition cm_shrinks :: "cache \<Rightarrow> cache \<Rightarrow> bool" where
  "cm_shrinks c c' \<longleftrightarrow>
     (cache_ok c \<longrightarrow> cache_ok c' \<and> cm_keys c' \<subseteq> cm_keys c \<and> cm_dirty_keys c' \<subseteq> cm_dirty_keys c)"

lemma cm_shrinks_refl [simp]: "cm_shrinks c c"
  by (simp add: cm_shrinks_def)

lemma cm_shrinks_trans: "cm_shrinks a b \<Longrightarrow> cm_shrinks b c \<Longrightarrow> cm_shrinks a c"
  by (auto simp: cm_shrinks_def)

lemma cm_shrinks_remove [simp]:
  "cm_shrinks c (cm_remove_dirty k c)" "cm_shrinks c (snd (cm_remove_page k c))"
  by (auto simp: cm_shrinks_def cm_remove_dirty_ok cm_remove_page_ok cm_keys_remove cm_dirty_keys_remove
      cm_dirty_keys_remove_dirty)

lemma mark_clean_spec:
  fixes cfg
  defines "w' wl w \<equiv> mark_clean cfg wl w"
  shows "w_pages (w' wl w) = clean_keys (fst ` set wl) (w_pages w)"
    and "w_fsize (w' wl w) = w_fsize w" and "w_fetch (w' wl w) = w_fetch w"
    and "w_deferred (w' wl w) = w_deferred w" and "w_bsize (w' wl w) = w_bsize w"
    and "w_exists (w' wl w) = w_exists w" and "w_env (w' wl w) = w_env w"
    and "cm_shrinks (w_cache w) (w_cache (w' wl w))"
    and "cm_keys (w_cache (w' wl w)) = cm_keys (w_cache w)"
    and "cache_ok (w_cache w) \<Longrightarrow> fc_cachemgr cfg \<Longrightarrow>
          cm_dirty_keys (w_cache (w' wl w)) = cm_dirty_keys (w_cache w) - Pair (fc_me cfg) ` fst ` set wl"
proof -
  have "w_pages (w' wl w) = clean_keys (fst ` set wl) (w_pages w) \<and>
    w_fsize (w' wl w) = w_fsize w \<and> w_fetch (w' wl w) = w_fetch w \<and>
    w_deferred (w' wl w) = w_deferred w \<and> w_bsize (w' wl w) = w_bsize w \<and>
    w_exists (w' wl w) = w_exists w \<and> w_env (w' wl w) = w_env w \<and>
    cm_shrinks (w_cache w) (w_cache (w' wl w)) \<and> cm_keys (w_cache (w' wl w)) = cm_keys (w_cache w) \<and>
    (cache_ok (w_cache w) \<longrightarrow> fc_cachemgr cfg \<longrightarrow>
      cm_dirty_keys (w_cache (w' wl w)) = cm_dirty_keys (w_cache w) - Pair (fc_me cfg) ` fst ` set wl)"
  proof (induction wl arbitrary: w)
    case Nil
    have "clean_keys {} (w_pages w) = w_pages w" by (auto simp: clean_keys_def intro!: map_idI)
    then show ?case by (simp add: w'_def mark_clean_def)
  next
    case (Cons e es)
    obtain k p where e: "e = (k, p)" by force
    define v where "v = cache_do cfg (cm_remove_dirty (fc_me cfg, k))
            (w\<lparr>w_pages := page_update k (set_dirty False) (w_pages w)\<rparr>)"
    have step: "w' (e # es) w = w' es v" by (simp add: w'_def mark_clean_def e v_def)
    have v: "w_pages v = page_update k (set_dirty False) (w_pages w)" "w_fsize v = w_fsize w"
      "w_fetch v = w_fetch w" "w_deferred v = w_deferred w" "w_bsize v = w_bsize w"
      "w_exists v = w_exists w" "w_env v = w_env w" "cm_keys (w_cache v) = cm_keys (w_cache w)"
      and sh: "cm_shrinks (w_cache w) (w_cache v)"
      and dk: "cache_ok (w_cache w) \<Longrightarrow> fc_cachemgr cfg \<Longrightarrow>
        cm_dirty_keys (w_cache v) = cm_dirty_keys (w_cache w) - {(fc_me cfg, k)} \<and> cache_ok (w_cache v)"
      by (simp_all add: v_def cm_dirty_keys_remove_dirty cm_remove_dirty_ok)
    note IH = Cons.IH [of v]
    have "cm_shrinks (w_cache w) (w_cache (w' es v))" using IH cm_shrinks_trans [OF sh] by blast
    moreover have "cm_dirty_keys (w_cache (w' es v)) = cm_dirty_keys (w_cache w) - Pair (fc_me cfg) ` fst ` set (e # es)"
      if "cache_ok (w_cache w)" "fc_cachemgr cfg"
      using IH dk [OF that] that by (auto simp: e)
    ultimately show ?case using IH unfolding step by (simp add: v clean_keys_step e)
  qed
  then show "w_pages (w' wl w) = clean_keys (fst ` set wl) (w_pages w)"
    "w_fsize (w' wl w) = w_fsize w" "w_fetch (w' wl w) = w_fetch w"
    "w_deferred (w' wl w) = w_deferred w" "w_bsize (w' wl w) = w_bsize w"
    "w_exists (w' wl w) = w_exists w" "w_env (w' wl w) = w_env w"
    "cm_shrinks (w_cache w) (w_cache (w' wl w))" "cm_keys (w_cache (w' wl w)) = cm_keys (w_cache w)"
    "cache_ok (w_cache w) \<Longrightarrow> fc_cachemgr cfg \<Longrightarrow>
      cm_dirty_keys (w_cache (w' wl w)) = cm_dirty_keys (w_cache w) - Pair (fc_me cfg) ` fst ` set wl"
    by blast+
qed

section \<open>Writing back keeps the file\<close>

text \<open>
  The contract of every operation that writes back or evicts: whether it returns or throws,
  the invariants hold, the file stands for the same bytes and has the same size, only pages
  with an index in K left the page map, and the pages that stayed have their bytes.
\<close>

text \<open>
  Nothing reaches past a given size, which is at least the size of the file. With the size of
  the file itself this says that neither the backend nor a page is longer than the file.
\<close>

definition within :: "file_cfg \<Rightarrow> nat \<Rightarrow> 's world \<Rightarrow> bool" where
  "within cfg L w \<longleftrightarrow>
     w_fsize w \<le> L \<and> w_bsize w \<le> L \<and>
     (\<forall>(k, p) \<in> set (w_pages w). k * fc_psize cfg < L \<and> (pg_dirty p \<longrightarrow> k * fc_psize cfg + pg_size p \<le> L))"

lemma withinD:
  assumes "within cfg L w"
  shows "w_fsize w \<le> L" "w_bsize w \<le> L" "(k, p) \<in> set (w_pages w) \<Longrightarrow> k * fc_psize cfg < L"
    "(k, p) \<in> set (w_pages w) \<Longrightarrow> pg_dirty p \<Longrightarrow> k * fc_psize cfg + pg_size p \<le> L"
  using assms by (auto simp: within_def)

definition trims :: "file_cfg \<Rightarrow> ('s \<Rightarrow> bytes) \<Rightarrow> nat set \<Rightarrow> nat set \<Rightarrow> 's world \<Rightarrow> 's world \<Rightarrow> bool" where
  "trims cfg content X K w w' \<longleftrightarrow>
     file_inv cfg content X w' \<and> cache_inv cfg w' \<and> file_view cfg content X w' = file_view cfg content X w \<and>
     w_fsize w' = w_fsize w \<and> w_fetch w' = w_fetch w \<and> (w_exists w \<longrightarrow> w_exists w') \<and>
     cm_shrinks (w_cache w) (w_cache w') \<and> (\<forall>L. within cfg L w \<longrightarrow> within cfg L w') \<and>
     fst ` set (w_pages w) - K \<subseteq> fst ` set (w_pages w') \<and>
     (\<forall>k p'. map_of (w_pages w') k = Some p' \<longrightarrow>
        (\<exists>p. map_of (w_pages w) k = Some p \<and> pg_data p' = pg_data p \<and> (pg_dirty p' \<longrightarrow> pg_dirty p)))"

lemma trimsD:
  assumes "trims cfg content X K w w'"
  shows "file_inv cfg content X w'" "cache_inv cfg w'" "file_view cfg content X w' = file_view cfg content X w"
    "w_fsize w' = w_fsize w" "w_fetch w' = w_fetch w" "w_exists w \<Longrightarrow> w_exists w'"
    "cm_shrinks (w_cache w) (w_cache w')"
    "fst ` set (w_pages w) - K \<subseteq> fst ` set (w_pages w')"
    "map_of (w_pages w') k = Some p' \<Longrightarrow>
       \<exists>p. map_of (w_pages w) k = Some p \<and> pg_data p' = pg_data p \<and> (pg_dirty p' \<longrightarrow> pg_dirty p)"
    "within cfg L w \<Longrightarrow> within cfg L w'"
  using assms by (auto simp: trims_def)

lemma trims_refl: "file_inv cfg content X w \<Longrightarrow> cache_inv cfg w \<Longrightarrow> trims cfg content X K w w"
  by (auto simp: trims_def)

lemma trims_trans: "trims cfg content X K a b \<Longrightarrow> trims cfg content X L b c \<Longrightarrow> trims cfg content X (K \<union> L) a c"
  unfolding trims_def
proof (elim conjE, intro conjI, goal_cases)
  case 9
  then show ?case by blast
next
  case 10
  then show ?case by metis
qed (auto intro: cm_shrinks_trans)

lemma trims_mono: "trims cfg content X K a b \<Longrightarrow> K \<subseteq> L \<Longrightarrow> trims cfg content X L a b"
  unfolding trims_def by blast

lemma file_inv_srv:
  assumes inv: "file_inv cfg content X w" and same: "same_pages w w1" and ag: "backend_agrees content w1"
    and sv: "srv content w1 = srv content w"
  shows "file_inv cfg content X w1" and "file_view cfg content X w1 = file_view cfg content X w"
proof -
  have "known X w1 = known X w" using same by (simp add: known_def same_pages_def)
  then show "file_inv cfg content X w1" and "file_view cfg content X w1 = file_view cfg content X w"
    using assms by (auto simp: file_inv_def same_pages_def sizes_ok_def clean_agrees_def file_view_def)
qed

lemma srv_trims:
  assumes "file_inv cfg content X w" "cache_inv cfg w" "same_pages w w1" "backend_agrees content w1"
    "srv content w1 = srv content w" "w_exists w \<longrightarrow> w_exists w1" "w_bsize w1 \<le> max (w_bsize w) (w_fsize w)"
  shows "trims cfg content X {} w w1"
proof -
  have "within cfg L w1" if "within cfg L w" for L
    using that assms(3,7) by (auto simp: within_def same_pages_def le_max_iff_disj)
  then show ?thesis
    using file_inv_srv [OF assms(1,3-5)] assms by (auto simp: trims_def same_pages_def cache_inv_def)
qed

lemma map_of_sub:
  "smap_ok m \<Longrightarrow> set wl \<subseteq> set m \<Longrightarrow> map_of wl k = Some p \<Longrightarrow> map_of m k = Some p"
  by (auto dest!: map_of_SomeD intro: in_sm_find)

lemma view_over_sub:
  assumes "smap_ok m" and "set wl \<subseteq> set m"
  shows "view n m (view n wl f) = view n m f"
  using map_of_sub [OF assms] by (fastforce simp: view_def fun_eq_iff split: option.splits)

text \<open>Once a run is stored its pages can be marked clean.\<close>

lemma stored_run_trims:
  assumes inv: "file_inv cfg content X w" and cinv: "cache_inv cfg w" and sub: "set wl \<subseteq> set (known X w)"
    and same: "same_pages w w1" and ag: "backend_agrees content w1" and ex: "w_exists w \<longrightarrow> w_exists w1"
    and sv: "srv content w1 = view (fc_psize cfg) wl (srv content w)"
    and bound: "\<And>L. within cfg L w \<Longrightarrow> w_bsize w1 \<le> L"
  shows "trims cfg content X {} w (mark_clean cfg wl w1)"
proof -
  define w' where "w' = mark_clean cfg wl w1"
  note mc = mark_clean_spec [where cfg = cfg and wl = wl and w = w1, folded w'_def]
  let ?K = "fst ` set wl" and ?n = "fc_psize cfg"
  have pages: "w_pages w' = clean_keys ?K (w_pages w)" using mc(1) same by (simp add: same_pages_def)
  have kn: "known X w' = clean_keys ?K (known X w)"
    by (simp add: known_def pages clean_keys_def filter_map comp_def split_beta)
  have ok: "smap_ok (known X w)" and n: "0 < ?n" using file_invD(1,2) [OF inv] by simp_all
  have srv': "srv content w' = srv content w1" by (simp add: srv_def mc fun_eq_iff)
  have "view ?n (known X w') (srv content w') = view ?n (known X w) (view ?n wl (srv content w))"
    unfolding srv' sv by (rule view_same_data) (auto simp: kn option.map_comp comp_def)
  then have view': "file_view cfg content X w' = file_view cfg content X w"
    by (simp add: file_view_def view_over_sub [OF ok sub])
  have in_wl: "map_of wl k = Some p" if "k \<in> ?K" "(k, p) \<in> set (known X w)" for k p
  proof -
    obtain q where q: "map_of wl k = Some q" using \<open>k \<in> ?K\<close> by (metis map_of_eq_None_iff option.exhaust)
    then show ?thesis using map_of_sub [OF ok sub q] in_sm_find [OF ok that(2)] by simp
  qed
  have clean: "clean_agrees cfg content X w'"
    unfolding clean_agrees_def
  proof (clarify, goal_cases)
    case (1 k p' j)
    then obtain p where p: "(k, p) \<in> set (known X w)" and p': "p' = (if k \<in> ?K then set_dirty False p else p)"
      by (auto simp: kn set_clean_keys simp del: known_simps(2))
    have kj: "(k * ?n + j) div ?n = k" "(k * ?n + j) mod ?n = j" using 1(3) n by simp_all
    show ?case
    proof (cases "k \<in> ?K")
      case True
      then show ?thesis using in_wl [OF True p] 1(3) by (simp add: srv' sv view_def kj p')
    next
      case False
      then have "map_of wl k = None" by (simp add: map_of_eq_None_iff)
      moreover have "nth0 (pg_data p) j = srv content w (k * ?n + j)"
        using file_invD(5) [OF inv] p 1(2,3) False p' by (fastforce simp: clean_agrees_def)
      ultimately show ?thesis using False 1(3) by (simp add: srv' sv view_def kj p')
    qed
  qed
  have past: "srv content w' i = 0" if "w_fsize w \<le> i" for i
  proof (cases "map_of wl (i div ?n)")
    case None
    then show ?thesis using file_invD(6) [OF inv that] by (simp add: srv' sv view_def)
  next
    case (Some p)
    then show ?thesis using file_invD(7) [OF inv that] map_of_sub [OF ok sub Some]
      by (simp add: srv' sv view_def file_view_def)
  qed
  have sizes: "sizes_ok cfg X w'" unfolding sizes_ok_def
  proof (clarify, goal_cases)
    case (1 k p')
    then obtain p where "(k, p) \<in> set (known X w)" and "pg_size p' = pg_size p" "pg_dirty p' \<longrightarrow> pg_dirty p"
      by (auto simp: kn set_clean_keys simp del: known_simps(2))
    then show ?case using sizes_okD [OF file_invD(3) [OF inv], of k p] mc(2) same by (simp add: same_pages_def)
  qed
  have fs: "w_fsize w' = w_fsize w" using mc(2) same by (simp add: same_pages_def)
  have xs: "\<not> pg_dirty p" if "(k, p) \<in> set (w_pages w')" "k \<in> X" for k p
    using that file_invD(9) [OF inv] by (auto simp: pages set_clean_keys split: if_splits)
  have inv': "file_inv cfg content X w'"
    unfolding file_inv_def view' fs
    using n file_invD(2,7,8,10) [OF inv] sizes clean past ag xs same
    by (auto simp: pages backend_agrees_def mc same_pages_def)
  have keys: "fst ` set (w_pages w') = fst ` set (w_pages w)"
    using clean_keys_simps(1) [of ?K "w_pages w"] by (metis list.set_map pages)
  have "cm_keys (w_cache w') = cm_keys (w_cache w)" "w_cache w1 = w_cache w"
    using mc(9) same by (simp_all add: same_pages_def)
  moreover have "within cfg L w'" if L: "within cfg L w" for L
  proof -
    have "k * fc_psize cfg < L \<and> (pg_dirty p \<longrightarrow> k * fc_psize cfg + pg_size p \<le> L)"
      if "(k, p) \<in> set (w_pages w')" for k p
      using that withinD(3,4) [OF L] by (auto simp: pages set_clean_keys split: if_splits)
    then show ?thesis using withinD(1) [OF L] bound [OF L] fs mc(5) by (auto simp: within_def)
  qed
  ultimately show ?thesis using inv' view' fs keys cinv mc(3,6,8) same ex unfolding w'_def [symmetric] trims_def
    by (auto simp: cache_inv_def same_pages_def cm_shrinks_def pages split: if_splits)
qed

lemma max_dirty_le:
  "max_dirty n m \<le> b \<longleftrightarrow> (\<forall>(k, p) \<in> set m. pg_dirty p \<longrightarrow> k * n + pg_size p \<le> b)"
proof -
  have "fold (\<lambda>(k, p) m. if pg_dirty p then max m (k * n + pg_size p) else m) xs a \<le> b \<longleftrightarrow>
    a \<le> b \<and> (\<forall>(k, p) \<in> set xs. pg_dirty p \<longrightarrow> k * n + pg_size p \<le> b)" for xs a
    by (induction xs arbitrary: a) (auto split: prod.splits)
  from this [of m 0] show ?thesis by (simp add: max_dirty_def)
qed

lemma max_dirty_ge: "(k, p) \<in> set m \<Longrightarrow> pg_dirty p \<Longrightarrow> k * n + pg_size p \<le> max_dirty n m"
  using max_dirty_le [of n m "max_dirty n m"] by fastforce

lemma run_entry_end:
  assumes inv: "file_inv cfg content X w"
  shows "set wl \<subseteq> {e \<in> set (known X w). pg_dirty (snd e)} \<Longrightarrow> consecutive wl \<Longrightarrow> (k, p) \<in> set wl \<Longrightarrow>
    k * fc_psize cfg + pg_size p \<le> fst (hd wl) * fc_psize cfg + length (run_bytes (map snd wl))"
proof (induction wl rule: consecutive.induct)
  case (2 a b)
  then show ?case by (simp add: pg_size_def)
next
  case (3 a p' l q es)
  have full: "pg_size p' = fc_psize cfg" and l: "l = Suc a"
    using page_full [OF inv, of a p' q] 3(2,3) by auto
  show ?case
  proof (cases "(k, p) = (a, p')")
    case False
    then show ?thesis using 3 full l by (auto simp: pg_size_def algebra_simps)
  qed (simp add: pg_size_def)
qed simp

text \<open>PageManager::FlushCreate once the file exists, or when nothing had to be written.\<close>

lemma manager_create_spec:
  fixes cfg
  assumes ops: "backend_ok ops content" and inv: "file_inv cfg content X w"
  defines "r \<equiv> manager_flush_create cfg ops w"
  shows "same_pages w (snd r)" and "backend_agrees content (snd r)" and "srv content (snd r) = srv content w"
    and "w_exists w \<longrightarrow> w_exists (snd r)" and "fst r = Inl e \<Longrightarrow> ext_fail e"
    and "fst r = Inr () \<Longrightarrow> w_exists (snd r) \<and> tail_ok cfg (snd r)"
    and "w_bsize (snd r) \<le> max (w_bsize w) (w_fsize w)"
proof -
  have ag: "backend_agrees content w" using inv by (rule file_invD)
  note cr = backend_create_spec [OF ops ag, where cfg = cfg]
  define w1 where "w1 = snd (backend_flush_create cfg ops w)"
  note tr = backend_truncate_spec [OF ops cr(2), folded w1_def, of "w_fsize w1"]
  have zero: "(\<lambda>i. if i < w_fsize w then srv content w i else 0) = srv content w"
    using file_invD(6) [OF inv] by (auto simp: fun_eq_iff)
  have fs: "w_fsize w1 = w_fsize w" and sp: "same_pages w w1" using cr(1) by (simp_all add: w1_def same_pages_def)
  have "same_pages w (snd r) \<and> backend_agrees content (snd r) \<and> srv content (snd r) = srv content w \<and>
    (w_exists w \<longrightarrow> w_exists (snd r)) \<and> (\<forall>e. fst r = Inl e \<longrightarrow> ext_fail e) \<and>
    (fst r = Inr () \<longrightarrow> w_exists (snd r) \<and> tail_ok cfg (snd r)) \<and> w_bsize (snd r) \<le> max (w_bsize w) (w_fsize w)"
  proof (cases "fst (backend_flush_create cfg ops w)")
    case (Inl e)
    then show ?thesis using cr(1-5) cr(7) [OF Inl] by (auto simp: r_def manager_flush_create_def bindE_cases)
  next
    case (Inr u)
    then have ex: "w_exists w1" using cr(6) by (simp add: w1_def)
    have r: "r = (if max (w_bsize w1) (max_dirty (fc_psize cfg) (w_pages w1)) < w_fsize w1
       then backend_truncate ops (w_fsize w1) w1 else (Inr (), w1))"
      using Inr by (simp add: r_def manager_flush_create_def bindE_cases w1_def)
    show ?thesis
    proof (cases "max (w_bsize w1) (max_dirty (fc_psize cfg) (w_pages w1)) < w_fsize w1")
      case True
      then have r: "r = backend_truncate ops (w_fsize w1) w1" by (simp add: r)
      have "srv content (snd r) = srv content w"
        using tr(4,5) [unfolded cr(3) [folded w1_def] fs zero] by (cases "fst r") (auto simp: r fs)
      moreover have "w_exists (snd r) \<and> tail_ok cfg (snd r)" if "fst r = Inr ()"
        using tr(1,3) tr(5) that ex fs by (simp add: r tail_ok_def same_pages_def)
      moreover have "w_bsize (snd r) \<le> max (w_bsize w) (w_fsize w)"
        using tr(4,5) cr(4) [folded w1_def] fs by (cases "fst r") (auto simp: r)
      ultimately show ?thesis using tr same_pages_trans [OF sp] ex by (auto simp: r)
    next
      case False
      then have "r = (Inr (), w1)" "tail_ok cfg w1" by (auto simp: r tail_ok_def not_less le_max_iff_disj)
      then show ?thesis using cr(2,3,4) [folded w1_def] ex sp by simp
    qed
  qed
  then show "same_pages w (snd r)" "backend_agrees content (snd r)" "srv content (snd r) = srv content w"
    "w_exists w \<longrightarrow> w_exists (snd r)" "fst r = Inl e \<Longrightarrow> ext_fail e"
    "fst r = Inr () \<Longrightarrow> w_exists (snd r) \<and> tail_ok cfg (snd r)"
    "w_bsize (snd r) \<le> max (w_bsize w) (w_fsize w)" by blast+
qed

lemma run_within:
  assumes inv: "file_inv cfg content X w" and run: "is_run (w_pages w) start wl" and L: "within cfg L w"
  shows "start * fc_psize cfg + length (run_bytes (map snd wl)) \<le> L"
proof -
  obtain k p where l: "last wl = (k, p)" by force
  have "(k, p) \<in> set (w_pages w)" "pg_dirty p"
    using run l last_in_set [of wl] by (auto simp: is_run_def)
  moreover have "start * fc_psize cfg + length (run_bytes (map snd wl)) = k * fc_psize cfg + pg_size p"
    using run_span [OF inv run_known [OF inv run]] run l by (auto simp: is_run_def)
  ultimately show ?thesis using withinD(4) [OF L] by simp
qed

text \<open>
  The failures that writing back may end in: those of the backend and, when the write mode of
  the folder is not RANDOM, the failed assertion of an out-of-order flush.
\<close>

definition flush_fail :: "file_cfg \<Rightarrow> exn \<Rightarrow> bool" where
  "flush_fail cfg e \<longleftrightarrow> ext_fail e \<or> e = AssertFailed \<and> get_write_mode cfg \<noteq> RANDOM"

lemma ext_flush_fail: "ext_fail e \<Longrightarrow> flush_fail cfg e"
  by (simp add: flush_fail_def)

lemma flush_page_list_spec:
  fixes cfg
  assumes ops: "backend_ok ops content" and inv: "file_inv cfg content X w" and cinv: "cache_inv cfg w"
    and run: "wl = [] \<or> is_run (w_pages w) index wl"
  defines "r \<equiv> flush_page_list cfg ops index wl w"
  shows "trims cfg content X {} w (snd r)" and "fst r = Inl e \<Longrightarrow> flush_fail cfg e"
    and "fst r = Inr n \<Longrightarrow> w_pages (snd r) = clean_keys (fst ` set wl) (w_pages w) \<and> w_exists (snd r) \<and>
          n = length (run_bytes (map snd wl)) \<and> (tail_ok cfg w \<longrightarrow> tail_ok cfg (snd r)) \<and>
          (cache_ok (w_cache w) \<longrightarrow> fc_cachemgr cfg \<longrightarrow> cm_keys (w_cache (snd r)) = cm_keys (w_cache w) \<and>
            cm_dirty_keys (w_cache (snd r)) = cm_dirty_keys (w_cache w) - Pair (fc_me cfg) ` fst ` set wl)"
proof -
  define r1 where "r1 = (if wl = [] then (Inr 0, w) else backend_flush_list cfg ops index (map snd wl) w)"
  have ag: "backend_agrees content w" and n: "0 < fc_psize cfg" using inv by (rule file_invD)+
  have sub: "set wl \<subseteq> set (known X w)" using run run_known [OF inv] by (cases "wl = []") auto
  have r: "r = bindE r1 (\<lambda>total w1. let w2 = mark_clean cfg wl w1 in
        if \<not> w_exists w then bindE (manager_flush_create cfg ops w2) (\<lambda>_ w3. (Inr total, w3))
        else (Inr total, w2))" by (simp add: r_def flush_page_list_def r1_def Let_def)
  have r1: "same_pages w (snd r1)" "backend_agrees content (snd r1)" "w_exists w \<longrightarrow> w_exists (snd r1)"
    "\<And>e. fst r1 = Inl e \<Longrightarrow> srv content (snd r1) = srv content w \<and> flush_fail cfg e \<and> w_bsize (snd r1) = w_bsize w"
    "\<And>n. fst r1 = Inr n \<Longrightarrow> n = length (run_bytes (map snd wl)) \<and> srv content (snd r1) = view (fc_psize cfg) wl (srv content w) \<and>
        (\<forall>L. within cfg L w \<longrightarrow> w_bsize (snd r1) \<le> L) \<and>
      (w_exists w \<longrightarrow> tail_ok cfg w \<longrightarrow>
        max (w_bsize w) (max_dirty (fc_psize cfg) (w_pages w)) \<le>
        max (w_bsize (snd r1)) (max_dirty (fc_psize cfg) (clean_keys (fst ` set wl) (w_pages w))))"
  proof -
    have all: "same_pages w (snd r1) \<and> backend_agrees content (snd r1) \<and> (w_exists w \<longrightarrow> w_exists (snd r1)) \<and>
      (\<forall>e. fst r1 = Inl e \<longrightarrow> srv content (snd r1) = srv content w \<and> flush_fail cfg e \<and> w_bsize (snd r1) = w_bsize w) \<and>
      (\<forall>n. fst r1 = Inr n \<longrightarrow> n = length (run_bytes (map snd wl)) \<and>
        srv content (snd r1) = view (fc_psize cfg) wl (srv content w) \<and>
        (\<forall>L. within cfg L w \<longrightarrow> w_bsize (snd r1) \<le> L) \<and>
        max (w_bsize w) (max_dirty (fc_psize cfg) (w_pages w)) \<le>
        max (w_bsize (snd r1)) (max_dirty (fc_psize cfg) (clean_keys (fst ` set wl) (w_pages w))))"
    proof (cases "wl = []")
      case True
      have "view (fc_psize cfg) [] (srv content w) = srv content w" by (simp add: view_def fun_eq_iff)
      moreover have "clean_keys {} (w_pages w) = w_pages w" by (auto simp: clean_keys_def intro!: map_idI)
      ultimately show ?thesis using ag by (auto simp: r1_def True same_pages_def dest: withinD(2))
    next
      case False
      then have run: "is_run (w_pages w) index wl" using run by simp
      have c: "consecutive wl" "fst (hd wl) = index" using run by (auto simp: is_run_def)
      have e: "r1 = backend_flush_list cfg ops index (map snd wl) w" using False by (simp add: r1_def)
      note bl = backend_flush_list_spec [OF ops inv run, folded e]
      have "max (w_bsize w) (max_dirty (fc_psize cfg) (w_pages w)) \<le>
        max (max (w_bsize w) (index * fc_psize cfg + length (run_bytes (map snd wl))))
            (max_dirty (fc_psize cfg) (clean_keys (fst ` set wl) (w_pages w)))" (is "_ \<le> ?b")
      proof -
        have "k * fc_psize cfg + pg_size p \<le> ?b" if kp: "(k, p) \<in> set (w_pages w)" "pg_dirty p" for k p
        proof (cases "k \<in> fst ` set wl")
          case True
          then obtain q where q: "(k, q) \<in> set wl" by force
          then have "(k, q) \<in> set (w_pages w)" using sub by auto
          from in_sm_find [OF file_invD(2) [OF inv] this] in_sm_find [OF file_invD(2) [OF inv] kp(1)]
          have "q = p" by simp
          then show ?thesis using run_entry_end [OF inv run_known [OF inv run] c(1) q] c(2) by (simp add: le_max_iff_disj)
        next
          case False
          then have "(k, p) \<in> set (clean_keys (fst ` set wl) (w_pages w))" using kp by (auto simp: set_clean_keys)
          from max_dirty_ge [OF this kp(2)] show ?thesis by (simp add: le_max_iff_disj)
        qed
        then have "max_dirty (fc_psize cfg) (w_pages w) \<le> ?b" by (subst max_dirty_le) blast
        then show ?thesis by simp
      qed
      then show ?thesis using bl(1,2,3) bl(4) bl(5) run_within [OF inv run] withinD(2)
        by (fastforce simp: flush_fail_def run_overlay [OF inv run])
    qed
    then show "same_pages w (snd r1)" "backend_agrees content (snd r1)" "w_exists w \<longrightarrow> w_exists (snd r1)"
      "\<And>e. fst r1 = Inl e \<Longrightarrow> srv content (snd r1) = srv content w \<and> flush_fail cfg e \<and> w_bsize (snd r1) = w_bsize w"
      "\<And>n. fst r1 = Inr n \<Longrightarrow> n = length (run_bytes (map snd wl)) \<and> srv content (snd r1) = view (fc_psize cfg) wl (srv content w) \<and>
        (\<forall>L. within cfg L w \<longrightarrow> w_bsize (snd r1) \<le> L) \<and>
        (w_exists w \<longrightarrow> tail_ok cfg w \<longrightarrow>
        max (w_bsize w) (max_dirty (fc_psize cfg) (w_pages w)) \<le>
        max (w_bsize (snd r1)) (max_dirty (fc_psize cfg) (clean_keys (fst ` set wl) (w_pages w))))" by blast+
  qed
  have "trims cfg content X {} w (snd r) \<and> (\<forall>e. fst r = Inl e \<longrightarrow> flush_fail cfg e) \<and>
    (\<forall>n. fst r = Inr n \<longrightarrow> w_pages (snd r) = clean_keys (fst ` set wl) (w_pages w) \<and> w_exists (snd r) \<and>
          n = length (run_bytes (map snd wl)) \<and> (tail_ok cfg w \<longrightarrow> tail_ok cfg (snd r)) \<and>
          (cache_ok (w_cache w) \<longrightarrow> fc_cachemgr cfg \<longrightarrow> cm_keys (w_cache (snd r)) = cm_keys (w_cache w) \<and>
            cm_dirty_keys (w_cache (snd r)) = cm_dirty_keys (w_cache w) - Pair (fc_me cfg) ` fst ` set wl))"
  proof (cases "fst r1")
    case (Inl e)
    then show ?thesis using srv_trims [OF inv cinv r1(1,2) _ r1(3)] r1(4) [OF Inl]
      by (simp add: r bindE_cases)
  next
    case (Inr n)
    define w2 where "w2 = mark_clean cfg wl (snd r1)"
    note mc = mark_clean_spec [where cfg = cfg and wl = wl and w = "snd r1", folded w2_def]
    have t: "trims cfg content X {} w w2" unfolding w2_def
      using r1(5) [OF Inr] by (intro stored_run_trims [OF inv cinv sub r1(1,2,3)]) simp_all
    have pages: "w_pages w2 = clean_keys (fst ` set wl) (w_pages w)" and c1: "w_cache (snd r1) = w_cache w"
      and f2: "w_fsize w2 = w_fsize w" using mc(1,2) r1(1) by (simp_all add: same_pages_def)
    show ?thesis
    proof (cases "w_exists w")
      case True
      then have "w_exists w2" using mc(6) r1(3) by simp
      moreover have "tail_ok cfg w \<longrightarrow> tail_ok cfg w2"
        using r1(5) [OF Inr] True f2 by (auto simp: tail_ok_def pages mc(5))
      ultimately show ?thesis using Inr True t pages r1(5) [OF Inr] mc(9,10)
        by (auto simp: r bindE_cases w2_def [symmetric] c1 Let_def)
    next
      case False
      note cr = manager_create_spec [OF ops trimsD(1) [OF t]]
      define w3 where "w3 = snd (manager_flush_create cfg ops w2)"
      have t3: "trims cfg content X {} w2 w3"
        unfolding w3_def by (rule srv_trims [OF trimsD(1,2) [OF t] cr(1,2,3,4,7)])
      have tt: "trims cfg content X {} w w3" using trims_trans [OF t t3] by simp
      have e3: "w_pages w3 = w_pages w2" "w_cache w3 = w_cache w2"
        using cr(1) by (simp_all add: w3_def same_pages_def)
      show ?thesis
        using Inr False tt pages r1(5) [OF Inr] mc(9,10) cr(5,6) ext_flush_fail e3
        by (cases "fst (manager_flush_create cfg ops w2)")
          (auto simp: r bindE_cases w2_def [symmetric] w3_def [symmetric] c1 Let_def)
    qed
  qed
  then show "trims cfg content X {} w (snd r)" and "fst r = Inl e \<Longrightarrow> flush_fail cfg e"
    and "fst r = Inr n \<Longrightarrow> w_pages (snd r) = clean_keys (fst ` set wl) (w_pages w) \<and> w_exists (snd r) \<and>
          n = length (run_bytes (map snd wl)) \<and> (tail_ok cfg w \<longrightarrow> tail_ok cfg (snd r)) \<and>
          (cache_ok (w_cache w) \<longrightarrow> fc_cachemgr cfg \<longrightarrow> cm_keys (w_cache (snd r)) = cm_keys (w_cache w) \<and>
            cm_dirty_keys (w_cache (snd r)) = cm_dirty_keys (w_cache w) - Pair (fc_me cfg) ` fst ` set wl)"
    by blast+
qed

section \<open>Runs from the page map\<close>

lemma get_write_list_extends:
  "wl \<noteq> [] \<Longrightarrow> fst (get_write_list maxw cur lk wl start es) = start \<and>
     (\<exists>xs. fst (snd (get_write_list maxw cur lk wl start es)) = wl @ xs)"
  by (induction maxw cur lk wl start es rule: get_write_list.induct) (auto split: if_splits)

lemma write_list_run:
  assumes "set es \<subseteq> set (w_pages w)"
  shows "fst (snd (write_list_from cfg ops w es)) = [] \<or>
         is_run (w_pages w) (fst (write_list_from cfg ops w es)) (fst (snd (write_list_from cfg ops w es)))"
    and "set (snd (snd (write_list_from cfg ops w es))) \<subseteq> set (w_pages w)"
    and "\<exists>pre. es = pre @ snd (snd (write_list_from cfg ops w es)) \<and>
           {e \<in> set pre. pg_dirty (snd e)} = set (fst (snd (write_list_from cfg ops w es)))"
  using get_write_list_run_gen [of "op_max_upload ops (w_env w)" 0 0 "[]" "usub (w_fsize w) 1 div fc_psize cfg + 1" es,
      OF prod.collapse [symmetric, THEN trans, OF arg_cong2 [where f = Pair, OF refl prod.collapse [symmetric]]]
         assms]
  by (auto simp: write_list_from_def)

lemma sm_from_sub: "set (sm_from m k) \<subseteq> set m"
  by (auto simp: sm_from_def dest: set_dropWhileD)

lemma write_list_at:
  fixes cfg ops
  assumes ok: "smap_ok (w_pages w)" and k: "map_of (w_pages w) k = Some p" and d: "pg_dirty p"
  defines "wl \<equiv> fst (snd (write_list_from cfg ops w (sm_from (w_pages w) k)))"
  shows "is_run (w_pages w) k wl" and "k \<in> fst ` set wl"
proof -
  obtain rest where r: "sm_from (w_pages w) k = (k, p) # rest"
    using sm_from_found [OF map_of_SomeD [OF k] smap_ok_distinct [OF ok]] by blast
  let ?W = "write_list_from cfg ops w (sm_from (w_pages w) k)"
  have "fst ?W = k \<and> (\<exists>xs. wl = [(k, p)] @ xs)"
    using get_write_list_extends [of "[(k, p)]"] d by (simp add: wl_def write_list_from_def r)
  moreover have "wl = [] \<or> is_run (w_pages w) (fst ?W) wl"
    unfolding wl_def by (rule write_list_run(1) [OF sm_from_sub])
  ultimately show "is_run (w_pages w) k wl" and "k \<in> fst ` set wl" by auto
qed

section \<open>Evicting and flushing single pages\<close>

lemma remove_clean_trims:
  assumes inv: "file_inv cfg content X w" and cinv: "cache_inv cfg w"
    and k: "map_of (w_pages w) k = Some p" and clean: "\<not> pg_dirty p" and kX: "k \<notin> X"
  defines "w2 \<equiv> cache_do cfg (\<lambda>c. snd (cm_remove_page (fc_me cfg, k) c)) w"
  defines "w' \<equiv> w2\<lparr>w_pages := sm_erase k (w_pages w2)\<rparr>"
  shows "trims cfg content X {k} w w'"
    and "tail_ok cfg w \<Longrightarrow> tail_ok cfg w'"
proof -
  note iD = file_invD [OF inv]
  have pages: "w_pages w' = sm_erase k (w_pages w)" and srv': "srv content w' = srv content w"
    and m: "map_of (w_pages w') = (map_of (w_pages w))(k := None)"
    using iD(2) by (simp_all add: w'_def w2_def srv_def fun_eq_iff)
  have sub: "set (w_pages w') \<subseteq> set (w_pages w)" by (simp add: pages set_erase_subset)
  have view': "file_view cfg content X w' = file_view cfg content X w"
  proof
    fix i
    show "file_view cfg content X w' i = file_view cfg content X w i"
    proof (cases "i div fc_psize cfg = k")
      case True
      have "i mod fc_psize cfg < fc_psize cfg" using iD(1) by simp
      then have "nth0 (pg_data p) (i mod fc_psize cfg) = srv content w (k * fc_psize cfg + i mod fc_psize cfg)"
        using iD(5) clean map_of_SomeD [OF k] kX by (force simp: clean_agrees_def)
      also have "k * fc_psize cfg + i mod fc_psize cfg = i" using True by (metis div_mult_mod_eq)
      finally show ?thesis using True k kX by (simp add: file_view_def view_def srv' m map_of_known)
    next
      case False
      then show ?thesis by (simp add: file_view_def view_def srv' m map_of_known)
    qed
  qed
  have szeq: "w_fsize w' = w_fsize w" "w_bsize w' = w_bsize w" "w_exists w' = w_exists w" "w_env w' = w_env w"
    "w_fetch w' = w_fetch w" by (simp_all add: w'_def w2_def)
  have "clean_agrees cfg content X w'" and "sizes_ok cfg X w'"
    using iD(3,5) sub unfolding clean_agrees_def sizes_ok_def srv' szeq known_def by auto
  then have inv': "file_inv cfg content X w'"
    unfolding file_inv_def view' srv' szeq
    using iD smap_ok_erase [OF iD(2), of k] sub by (fastforce simp: backend_agrees_def szeq pages)
  have keys: "fst ` set (w_pages w') = fst ` set (w_pages w) - {k}" using iD(2) by (simp add: pages keys_erase)
  have "cache_inv cfg w'"
    using cinv unfolding cache_inv_def keys
    by (auto simp: w'_def w2_def cm_remove_page_ok cm_keys_remove)
  moreover have "within cfg L w'" if "within cfg L w" for L
    using that sub by (auto simp: within_def szeq)
  ultimately show "trims cfg content X {k} w w'"
    unfolding trims_def view' szeq keys m
    using inv' by (auto simp: w'_def w2_def split: if_splits)
  assume tail: "tail_ok cfg w"
  have "max_dirty (fc_psize cfg) (w_pages w) \<le> max_dirty (fc_psize cfg) (w_pages w')"
    unfolding max_dirty_le
  proof (clarify, goal_cases)
    case (1 a b)
    then have "a \<noteq> k" using in_sm_find [OF iD(2)] k clean by fastforce
    then have "map_of (w_pages w') a = Some b" using in_sm_find [OF iD(2) 1(1)] by (simp add: m)
    then show ?case using 1(2) by (intro max_dirty_ge map_of_SomeD)
  qed
  then show "tail_ok cfg w'" using tail by (auto simp: tail_ok_def szeq)
qed

lemma drop_cache_trims:
  assumes "file_inv cfg content X w" and "cache_inv cfg w" and "\<And>c. cm_shrinks c (f c)"
  shows "trims cfg content X {} w (cache_do cfg f w)" and "tail_ok cfg (cache_do cfg f w) = tail_ok cfg w"
proof -
  have "srv content (cache_do cfg f w) = srv content w" by (simp add: srv_def fun_eq_iff)
  moreover from this have "file_inv cfg content X (cache_do cfg f w)"
    using assms(1) by (simp add: file_inv_def file_view_def sizes_ok_def clean_agrees_def backend_agrees_def)
  moreover have "cache_inv cfg (cache_do cfg f w)"
    using assms(2) assms(3) [of "w_cache w"] by (auto simp: cache_inv_def cm_shrinks_def)
  ultimately show "trims cfg content X {} w (cache_do cfg f w)"
    using assms(3) by (simp add: trims_def file_view_def within_def)
qed (simp add: tail_ok_def)

text \<open>Writing back does not touch the list of deferred evictions.\<close>

lemma deferred_simps [simp]:
  "w_deferred (remote_changed cfg n w) = w_deferred w"
  "w_deferred (refresh_size cfg n w) = w_deferred w"
  "w_deferred (snd (backend_flush_create cfg ops w)) = w_deferred w"
  "w_deferred (snd (backend_truncate ops n w)) = w_deferred w"
  "w_deferred (snd (store_step cfg ops index ps w)) = w_deferred w"
  by (auto simp: remote_changed_def refresh_size_def backend_flush_create_def backend_truncate_def
      store_step_def bindE_cases Let_def split: sum.splits)

lemma deferred_flush_list [simp]: "w_deferred (snd (backend_flush_list cfg ops index ps w)) = w_deferred w"
  by (auto simp: backend_flush_list_steps bindE_cases split: sum.splits)

lemma deferred_flush_page_list [simp]: "w_deferred (snd (flush_page_list cfg ops index wl w)) = w_deferred w"
proof -
  have "w_deferred (snd (manager_flush_create cfg ops w)) = w_deferred w" for w :: "'a world"
    by (auto simp: manager_flush_create_def bindE_cases split: sum.splits)
  then show ?thesis
    by (auto simp: flush_page_list_def bindE_cases Let_def mark_clean_spec split: sum.splits)
qed

lemma trims_deferred [simp]: "trims cfg content X K w (w'\<lparr>w_deferred := d\<rparr>) = trims cfg content X K w w'"
proof -
  have "srv content (w'\<lparr>w_deferred := d\<rparr>) = srv content w'" by (simp add: srv_def fun_eq_iff)
  moreover have "known X (w'\<lparr>w_deferred := d\<rparr>) = known X w'" by (simp add: known_def)
  ultimately show ?thesis
    by (simp add: trims_def file_inv_def file_view_def sizes_ok_def clean_agrees_def backend_agrees_def cache_inv_def within_def)
qed

lemma evict_page_spec:
  fixes cfg index
  assumes ops: "backend_ok ops content" and inv: "file_inv cfg content X w" and cinv: "cache_inv cfg w"
    and idx: "index \<notin> X"
  defines "r \<equiv> evict_page cfg ops index w"
  shows "trims cfg content X {index} w (snd r)" and "fst r = Inl e \<Longrightarrow> flush_fail cfg e"
    and "fst r = Inr () \<Longrightarrow> (fc_cachemgr cfg \<longrightarrow> (fc_me cfg, index) \<notin> cm_keys (w_cache (snd r))) \<and>
          (get_write_mode cfg = RANDOM \<longrightarrow> index \<notin> fst ` set (w_pages (snd r))) \<and>
          (tail_ok cfg w \<longrightarrow> tail_ok cfg (snd r)) \<and>
          w_deferred (snd r) \<in> {w_deferred w, w_deferred w @ [index]}"
proof -
  let ?rm = "\<lambda>w. cache_do cfg (\<lambda>c. snd (cm_remove_page (fc_me cfg, index) c)) w"
  have "trims cfg content X {index} w (snd r) \<and> (\<forall>e. fst r = Inl e \<longrightarrow> flush_fail cfg e) \<and>
    (fst r = Inr () \<longrightarrow> (fc_cachemgr cfg \<longrightarrow> (fc_me cfg, index) \<notin> cm_keys (w_cache (snd r))) \<and>
          (get_write_mode cfg = RANDOM \<longrightarrow> index \<notin> fst ` set (w_pages (snd r))) \<and>
          (tail_ok cfg w \<longrightarrow> tail_ok cfg (snd r)) \<and>
          w_deferred (snd r) \<in> {w_deferred w, w_deferred w @ [index]})"
  proof (cases "map_of (w_pages w) index")
    case None
    then have "index \<notin> fst ` set (w_pages w)" by (simp add: map_of_eq_None_iff)
    then show ?thesis using None trims_refl [OF inv cinv] cinv
      by (auto simp: r_def evict_page_def sm_find_def cache_inv_def)
  next
    case (Some p)
    define r1 where "r1 = (if pg_dirty p \<and> RANDOM \<le> get_write_mode cfg
       then bindE (flush_page_list cfg ops index
              (fst (snd (write_list_from cfg ops w (sm_from (w_pages w) index)))) w) (\<lambda>_ w1. (Inr (), w1))
       else (Inr (), w))"
    have r: "r = bindE r1 (\<lambda>_ w1. case sm_find (w_pages (?rm w1)) index of None \<Rightarrow> (Inr (), ?rm w1)
       | Some p2 \<Rightarrow> if \<not> pg_dirty p2 \<or> RANDOM \<le> get_write_mode cfg
           then (Inr (), (?rm w1)\<lparr>w_pages := sm_erase index (w_pages (?rm w1))\<rparr>)
           else (Inr (), (?rm w1)\<lparr>w_deferred := w_deferred (?rm w1) @ [index]\<rparr>))"
      by (simp add: r_def evict_page_def sm_find_def Some r1_def Let_def)
    have r1: "trims cfg content X {} w (snd r1) \<and> (\<forall>e. fst r1 = Inl e \<longrightarrow> flush_fail cfg e) \<and>
      (fst r1 = Inr () \<longrightarrow> (\<exists>p'. map_of (w_pages (snd r1)) index = Some p' \<and>
        (get_write_mode cfg = RANDOM \<longrightarrow> \<not> pg_dirty p')) \<and> (tail_ok cfg w \<longrightarrow> tail_ok cfg (snd r1)))"
    proof (cases "pg_dirty p \<and> RANDOM \<le> get_write_mode cfg")
      case True
      note wl = write_list_at [OF file_invD(2) [OF inv] Some conjunct1 [OF True], of cfg ops]
      note fl = flush_page_list_spec [OF ops inv cinv disjI2 [OF wl(1)]]
      show ?thesis using fl(1) fl(2) fl(3) wl(2) Some True
        by (cases "fst (flush_page_list cfg ops index
              (fst (snd (write_list_from cfg ops w (sm_from (w_pages w) index)))) w)")
          (auto simp: r1_def bindE_cases)
    next
      case False
      then show ?thesis using trims_refl [OF inv cinv] Some
        by (cases "get_write_mode cfg") (auto simp: r1_def)
    qed
    show ?thesis
    proof (cases "fst r1")
      case (Inl e)
      then show ?thesis using r1 trims_mono [of cfg content X "{}" w "snd r1" "{index}"] by (simp add: r bindE_cases)
    next
      case (Inr u)
      then obtain p' where p': "map_of (w_pages (snd r1)) index = Some p'"
        "get_write_mode cfg = RANDOM \<longrightarrow> \<not> pg_dirty p'" and tail: "tail_ok cfg w \<longrightarrow> tail_ok cfg (snd r1)"
        using r1 by auto
      have t: "trims cfg content X {} w (snd r1)" using r1 by blast
      note inv1 = trimsD(1) [OF t] and cinv1 = trimsD(2) [OF t]
      have gone: "fc_cachemgr cfg \<longrightarrow> (fc_me cfg, index) \<notin> cm_keys (w_cache (?rm (snd r1)))"
        using cinv1 by (simp add: cache_inv_def cm_keys_remove)
      have def1: "w_deferred (snd r1) = w_deferred w" by (auto simp: r1_def bindE_cases split: sum.splits)
      show ?thesis
      proof (cases "pg_dirty p'")
        case False
        note rc = remove_clean_trims [OF inv1 cinv1 p'(1) False idx]
        have "index \<notin> fst ` set (sm_erase index (w_pages (snd r1)))"
          using file_invD(2) [OF inv1] by (simp add: keys_erase)
        then show ?thesis using Inr False p'(1) trims_trans [OF t rc(1)] rc(2) tail gone def1
          by (simp add: r bindE_cases sm_find_def)
      next
        case True
        then have nr: "\<not> RANDOM \<le> get_write_mode cfg" using p'(2) by (cases "get_write_mode cfg") auto
        note dc = drop_cache_trims [OF inv1 cinv1, of "\<lambda>c. snd (cm_remove_page (fc_me cfg, index) c)"]
        have "trims cfg content X {} w ((?rm (snd r1))\<lparr>w_deferred := w_deferred (?rm (snd r1)) @ [index]\<rparr>)"
          using trims_trans [OF t dc(1)] by simp
        then show ?thesis using Inr True p'(1) dc(2) tail gone def1 nr
            trims_mono [of cfg content X "{}" w _ "{index}"]
          by (auto simp: r bindE_cases sm_find_def tail_ok_def)
      qed
    qed
  qed
  then show "trims cfg content X {index} w (snd r)" and "fst r = Inl e \<Longrightarrow> flush_fail cfg e"
    and "fst r = Inr () \<Longrightarrow> (fc_cachemgr cfg \<longrightarrow> (fc_me cfg, index) \<notin> cm_keys (w_cache (snd r))) \<and>
          (get_write_mode cfg = RANDOM \<longrightarrow> index \<notin> fst ` set (w_pages (snd r))) \<and>
          (tail_ok cfg w \<longrightarrow> tail_ok cfg (snd r)) \<and>
          w_deferred (snd r) \<in> {w_deferred w, w_deferred w @ [index]}"
    by blast+
qed

lemma flush_page_spec:
  fixes cfg index
  assumes ops: "backend_ok ops content" and inv: "file_inv cfg content X w" and cinv: "cache_inv cfg w"
  defines "r \<equiv> flush_page cfg ops index w"
  shows "trims cfg content X {} w (snd r)" and "fst r = Inl e \<Longrightarrow> flush_fail cfg e"
    and "fst r = Inr n \<Longrightarrow> (fc_cachemgr cfg \<longrightarrow> (fc_me cfg, index) \<notin> cm_dirty_keys (w_cache (snd r))) \<and>
          (tail_ok cfg w \<longrightarrow> tail_ok cfg (snd r))"
proof -
  have cok: "cache_ok (w_cache w)" using cinv by (simp add: cache_inv_def)
  have "trims cfg content X {} w (snd r) \<and> (\<forall>e. fst r = Inl e \<longrightarrow> flush_fail cfg e) \<and>
    (\<forall>n. fst r = Inr n \<longrightarrow> (fc_cachemgr cfg \<longrightarrow> (fc_me cfg, index) \<notin> cm_dirty_keys (w_cache (snd r))) \<and>
          (tail_ok cfg w \<longrightarrow> tail_ok cfg (snd r)))"
  proof (cases "map_of (w_pages w) index")
    case None
    then have "index \<notin> fst ` set (w_pages w)" by (simp add: map_of_eq_None_iff)
    then have "fc_cachemgr cfg \<longrightarrow> (fc_me cfg, index) \<notin> cm_dirty_keys (w_cache w)"
      using cinv by (auto simp: cache_inv_def cache_ok_def cm_keys_def cm_dirty_keys_def)
    then show ?thesis using None trims_refl [OF inv cinv]
      by (auto simp: r_def flush_page_def sm_find_def)
  next
    case (Some p)
    show ?thesis
    proof (cases "pg_dirty p \<and> RANDOM \<le> get_write_mode cfg")
      case True
      let ?wl = "fst (snd (write_list_from cfg ops w (sm_from (w_pages w) index)))"
      note wl = write_list_at [OF file_invD(2) [OF inv] Some conjunct1 [OF True], of cfg ops]
      note fl = flush_page_list_spec [OF ops inv cinv disjI2 [OF wl(1)]]
      have r: "r = flush_page_list cfg ops index ?wl w" using True wl(2) Some
        by (auto simp: r_def flush_page_def sm_find_def Let_def)
      show ?thesis using fl wl(2) cok by (auto simp: r)
    next
      case False
      then have r: "r = (Inr 0, cache_do cfg (cm_remove_dirty (fc_me cfg, index)) w)" using Some
        by (auto simp: r_def flush_page_def sm_find_def Let_def)
      show ?thesis
        using drop_cache_trims [OF inv cinv, of "cm_remove_dirty (fc_me cfg, index)"] cok
        by (simp add: r cm_dirty_keys_remove_dirty)
    qed
  qed
  then show "trims cfg content X {} w (snd r)" and "fst r = Inl e \<Longrightarrow> flush_fail cfg e"
    and "fst r = Inr n \<Longrightarrow> (fc_cachemgr cfg \<longrightarrow> (fc_me cfg, index) \<notin> cm_dirty_keys (w_cache (snd r))) \<and>
          (tail_ok cfg w \<longrightarrow> tail_ok cfg (snd r))" by blast+
qed

section \<open>Flushing the whole file\<close>

lemma get_write_list_filter:
  "\<exists>pre. es = pre @ snd (snd (get_write_list maxw cur lk wl start es)) \<and>
    fst (snd (get_write_list maxw cur lk wl start es)) = wl @ filter (\<lambda>e. pg_dirty (snd e)) pre"
proof (induction maxw cur lk wl start es rule: get_write_list.induct)
  case (2 maxw cur lk wl start k p rest)
  have stop: ?case if "get_write_list maxw cur lk wl start ((k, p) # rest) = (start, wl, (k, p) # rest)"
    using that by (intro exI [of _ "[]"]) simp
  have go: ?case if eq: "get_write_list maxw cur lk wl start ((k, p) # rest) = get_write_list maxw cur' lk' wl' start' rest"
    and wl': "wl' = wl @ filter (\<lambda>e. pg_dirty (snd e)) [(k, p)]"
    and ex: "\<exists>pre. rest = pre @ snd (snd (get_write_list maxw cur' lk' wl' start' rest)) \<and>
      fst (snd (get_write_list maxw cur' lk' wl' start' rest)) = wl' @ filter (\<lambda>e. pg_dirty (snd e)) pre" for cur' lk' wl' start'
  proof -
    obtain pre where "rest = pre @ snd (snd (get_write_list maxw cur' lk' wl' start' rest))"
      "fst (snd (get_write_list maxw cur' lk' wl' start' rest)) = wl' @ filter (\<lambda>e. pg_dirty (snd e)) pre"
      using ex by blast
    then show ?thesis using eq wl' by (intro exI [of _ "(k, p) # pre"]) (auto simp del: get_write_list.simps)
  qed
  show ?case
  proof (cases "pg_dirty p")
    case dirty: True
    show ?thesis
    proof (cases "wl = []")
      case True
      show ?thesis by (rule go [OF _ _ 2(1) [OF dirty True]]) (use dirty True in simp_all)
    next
      case wl: False
      show ?thesis
      proof (cases "lk + 1 \<noteq> k \<or> uadd cur (pg_size p) < cur \<or> (maxw \<noteq> 0 \<and> uadd cur (pg_size p) > maxw)")
        case True
        then show ?thesis using dirty wl by (intro stop) auto
      next
        case False
        then show ?thesis using dirty wl 2(2) [OF dirty wl] by (intro go) auto
      qed
    qed
  next
    case clean: False
    show ?thesis
    proof (cases "wl = []")
      case True
      show ?thesis by (rule go [OF _ _ 2(3) [OF clean]]) (use clean True in simp_all)
    next
      case False
      then show ?thesis using clean by (intro stop) simp
    qed
  qed
qed simp

lemma all_write_lists_runs:
  "set es \<subseteq> set (w_pages w) \<Longrightarrow>
     (\<forall>(s, wl) \<in> set (all_write_lists cfg ops w es). is_run (w_pages w) s wl) \<and>
     concat (map snd (all_write_lists cfg ops w es)) = filter (\<lambda>e. pg_dirty (snd e)) es"
proof (induction cfg ops w es rule: all_write_lists.induct)
  case (1 cfg ops w es)
  show ?case
  proof (cases "es = []")
    case True
    then show ?thesis by (simp add: all_write_lists.simps)
  next
    case False
    obtain s wl rest where W: "write_list_from cfg ops w es = (s, wl, rest)" by (metis prod_cases3)
    have sub: "set rest \<subseteq> set (w_pages w)" and run: "wl = [] \<or> is_run (w_pages w) s wl"
      using write_list_run(1,2) [OF 1(3), of cfg ops] by (simp_all add: W)
    obtain pre where pre: "es = pre @ rest" "wl = filter (\<lambda>e. pg_dirty (snd e)) pre"
      using get_write_list_filter [of es "op_max_upload ops (w_env w)" 0 0 "[]" "usub (w_fsize w) 1 div fc_psize cfg + 1"] W
      by (auto simp: write_list_from_def)
    have IH: "(\<forall>(s, wl) \<in> set (all_write_lists cfg ops w rest). is_run (w_pages w) s wl) \<and>
     concat (map snd (all_write_lists cfg ops w rest)) = filter (\<lambda>e. pg_dirty (snd e)) rest"
      using 1(1,2) [OF False W [symmetric] refl refl] sub W False by (cases "wl = []") auto
    have step: "all_write_lists cfg ops w es =
        (if wl \<noteq> [] then (s, wl) # all_write_lists cfg ops w rest else all_write_lists cfg ops w rest)"
      using False W by (simp add: all_write_lists.simps [of cfg ops w es])
    have "filter (\<lambda>e. pg_dirty (snd e)) es = wl @ filter (\<lambda>e. pg_dirty (snd e)) rest"
      by (simp add: pre)
    then show ?thesis using IH run by (auto simp: step)
  qed
qed

text \<open>Runs over disjoint pages can be flushed one after the other.\<close>

lemma is_run_clean_keys:
  assumes "is_run m s wl" and "fst ` set wl \<inter> K = {}"
  shows "is_run (clean_keys K m) s wl"
  using assms unfolding is_run_def by (fastforce simp: set_clean_keys)

lemma clean_keys_clean_keys: "clean_keys A (clean_keys B m) = clean_keys (A \<union> B) m"
  by (auto simp: clean_keys_def set_dirty_def)

lemma flush_lists_spec:
  assumes ops: "backend_ok ops content"
  shows "file_inv cfg content X w \<Longrightarrow> cache_inv cfg w \<Longrightarrow>
    (\<forall>(s, wl) \<in> set ls. is_run (w_pages w) s wl) \<Longrightarrow> distinct (map fst (concat (map snd ls))) \<Longrightarrow>
    (let r = flush_lists cfg ops ls w in
     trims cfg content X {} w (snd r) \<and> (\<forall>e. fst r = Inl e \<longrightarrow> flush_fail cfg e) \<and>
     w_deferred (snd r) = w_deferred w \<and>
     (fst r = Inr () \<longrightarrow> w_pages (snd r) = clean_keys (fst ` set (concat (map snd ls))) (w_pages w) \<and>
        (ls \<noteq> [] \<longrightarrow> w_exists (snd r)) \<and> (tail_ok cfg w \<longrightarrow> tail_ok cfg (snd r))))"
proof (induction ls arbitrary: w)
  case Nil
  have "clean_keys {} (w_pages w) = w_pages w" by (auto simp: clean_keys_def intro!: map_idI)
  then show ?case using trims_refl [OF Nil(1,2)] by simp
next
  case (Cons l ls)
  obtain s wl where l: "l = (s, wl)" by force
  have run: "is_run (w_pages w) s wl" using Cons.prems(3) l by simp
  define r1 where "r1 = flush_page_list cfg ops s wl w"
  note fl = flush_page_list_spec [OF ops Cons.prems(1,2) disjI2 [OF run], folded r1_def]
  have d1: "w_deferred (snd r1) = w_deferred w" by (simp add: r1_def)
  show ?case
  proof (cases "fst r1")
    case (Inl e)
    then show ?thesis using fl(1,2) d1 by (simp add: l bindE_cases r1_def [symmetric] Let_def)
  next
    case (Inr n)
    have pages: "w_pages (snd r1) = clean_keys (fst ` set wl) (w_pages w)" and ex: "w_exists (snd r1)"
      and tl: "tail_ok cfg w \<longrightarrow> tail_ok cfg (snd r1)" using fl(3) [OF Inr] by auto
    have "\<forall>(s', wl') \<in> set ls. is_run (w_pages (snd r1)) s' wl'"
    proof clarify
      fix s' wl' assume in_ls: "(s', wl') \<in> set ls"
      then have "fst ` set wl' \<inter> fst ` set wl = {}" using Cons.prems(4) by (force simp: l)
      moreover have "is_run (w_pages w) s' wl'" using Cons.prems(3) in_ls by auto
      ultimately show "is_run (w_pages (snd r1)) s' wl'" by (simp add: pages is_run_clean_keys)
    qed
    moreover have "distinct (map fst (concat (map snd ls)))" using Cons.prems(4) by simp
    ultimately have IH: "let r = flush_lists cfg ops ls (snd r1) in
     trims cfg content X {} (snd r1) (snd r) \<and> (\<forall>e. fst r = Inl e \<longrightarrow> flush_fail cfg e) \<and>
     w_deferred (snd r) = w_deferred (snd r1) \<and>
     (fst r = Inr () \<longrightarrow> w_pages (snd r) = clean_keys (fst ` set (concat (map snd ls))) (w_pages (snd r1)) \<and>
        (ls \<noteq> [] \<longrightarrow> w_exists (snd r)) \<and> (tail_ok cfg (snd r1) \<longrightarrow> tail_ok cfg (snd r)))"
      using Cons.IH [OF trimsD(1,2) [OF fl(1)]] by blast
    define r2 where "r2 = flush_lists cfg ops ls (snd r1)"
    have step: "flush_lists cfg ops (l # ls) w = r2" using Inr by (simp add: l bindE_cases r1_def [symmetric] r2_def)
    have t2: "trims cfg content X {} (snd r1) (snd r2)" using IH by (simp add: r2_def Let_def)
    have "w_exists (snd r2)" using trimsD(6) [OF t2] ex .
    then show ?thesis unfolding step using IH trims_trans [OF fl(1) t2] tl d1
      by (simp add: r2_def Let_def l pages clean_keys_clean_keys image_Un Un_commute)
  qed
qed

text \<open>Evicting when nothing is dirty neither fails nor defers.\<close>

definition all_clean :: "'s world \<Rightarrow> bool" where
  "all_clean w \<longleftrightarrow> (\<forall>(k, p) \<in> set (w_pages w). \<not> pg_dirty p)"

lemma all_clean_trims: "all_clean w \<Longrightarrow> trims cfg content X K w w' \<Longrightarrow> all_clean w'"
  unfolding all_clean_def
proof (clarify, goal_cases)
  case (1 k p')
  have "map_of (w_pages w') k = Some p'" using in_sm_find [OF file_invD(2) [OF trimsD(1) [OF 1(2)]] 1(3)] .
  from trimsD(9) [OF 1(2) this] obtain p where "map_of (w_pages w) k = Some p" "pg_dirty p' \<longrightarrow> pg_dirty p" by blast
  with 1(1,4) show ?case by (auto dest: map_of_SomeD)
qed

lemma all_clean_clean_keys: "all_clean (w\<lparr>w_pages := clean_keys (fst ` set (filter (\<lambda>e. pg_dirty (snd e)) m)) m\<rparr>)"
  unfolding all_clean_def
proof (clarify, goal_cases)
  case (1 k p')
  then obtain p where p: "(k, p) \<in> set m"
    and p': "p' = (if k \<in> fst ` set (filter (\<lambda>e. pg_dirty (snd e)) m) then set_dirty False p else p)"
    by (auto simp: set_clean_keys)
  have "pg_dirty p \<Longrightarrow> k \<in> fst ` set (filter (\<lambda>e. pg_dirty (snd e)) m)"
    using p by (intro rev_image_eqI [of "(k, p)"]) simp_all
  then show False using p' 1(2) by (auto split: if_splits)
qed

lemma evict_page_clean:
  assumes "all_clean w"
  shows "fst (evict_page cfg ops index w) = Inr ()" and "w_deferred (snd (evict_page cfg ops index w)) = w_deferred w"
proof -
  have "\<not> pg_dirty p" if "map_of (w_pages w) index = Some p" for p
    using map_of_SomeD [OF that] assms by (auto simp: all_clean_def)
  then show "fst (evict_page cfg ops index w) = Inr ()" "w_deferred (snd (evict_page cfg ops index w)) = w_deferred w"
    by (auto simp: evict_page_def sm_find_def Let_def split: option.splits)
qed

lemma evict_deferred_spec:
  assumes ops: "backend_ok ops content"
  shows "file_inv cfg content {} w \<Longrightarrow> cache_inv cfg w \<Longrightarrow> all_clean w \<Longrightarrow> length (w_deferred w) - i < fuel \<Longrightarrow>
    (let r = evict_deferred cfg ops fuel i w in
     fst r = Inr () \<and> trims cfg content {} (set (drop i (w_deferred w))) w (snd r) \<and>
     (tail_ok cfg w \<longrightarrow> tail_ok cfg (snd r)))"
proof (induction fuel arbitrary: i w)
  case (Suc fuel)
  show ?case
  proof (cases "i < length (w_deferred w)")
    case True
    define r1 where "r1 = evict_page cfg ops (w_deferred w ! i) w"
    note ev = evict_page_spec [OF ops Suc.prems(1,2), of "w_deferred w ! i", simplified, folded r1_def]
    have ok: "fst r1 = Inr ()" and d1: "w_deferred (snd r1) = w_deferred w"
      unfolding r1_def by (rule evict_page_clean [OF Suc.prems(3)])+
    have IH: "let r = evict_deferred cfg ops fuel (Suc i) (snd r1) in
     fst r = Inr () \<and> trims cfg content {} (set (drop (Suc i) (w_deferred (snd r1)))) (snd r1) (snd r) \<and>
     (tail_ok cfg (snd r1) \<longrightarrow> tail_ok cfg (snd r))"
      using Suc.prems(4) True d1
      by (intro Suc.IH trimsD(1,2) [OF ev(1)] all_clean_trims [OF Suc.prems(3) ev(1)]) simp
    have "set (drop i (w_deferred w)) = {w_deferred w ! i} \<union> set (drop (Suc i) (w_deferred w))"
      using True by (metis Cons_nth_drop_Suc insert_is_Un list.simps(15))
    then show ?thesis using IH True ok ev(3) trims_trans [OF ev(1)]
      by (auto simp: bindE_cases r1_def [symmetric] Let_def d1)
  next
    case False
    then show ?thesis using trims_refl [OF Suc.prems(1,2)] by simp
  qed
qed simp

lemma flush_pages_spec:
  fixes cfg
  assumes ops: "backend_ok ops content" and inv: "file_inv cfg content {} w" and cinv: "cache_inv cfg w"
  defines "r \<equiv> flush_pages cfg ops w"
  shows "trims cfg content {} (set (w_deferred w)) w (snd r)" and "fst r = Inl e \<Longrightarrow> flush_fail cfg e"
    and "fst r = Inr () \<Longrightarrow> all_clean (snd r) \<and> w_deferred (snd r) = [] \<and> w_exists (snd r) \<and>
          (tail_ok cfg w \<longrightarrow> tail_ok cfg (snd r))"
proof -
  define ls where "ls = all_write_lists cfg ops w (w_pages w)"
  define r1 where "r1 = (if ls = [] then bindE (flush_page_list cfg ops 0 [] w) (\<lambda>_ w1. (Inr (), w1))
             else flush_lists cfg ops ls w)"
  have runs: "\<forall>(s, wl) \<in> set ls. is_run (w_pages w) s wl"
    and dirty: "concat (map snd ls) = filter (\<lambda>e. pg_dirty (snd e)) (w_pages w)"
    unfolding ls_def using all_write_lists_runs [of "w_pages w" w cfg ops] by auto
  have dist: "distinct (map fst (concat (map snd ls)))"
    unfolding dirty using smap_ok_distinct [OF file_invD(2) [OF inv]] by (rule distinct_map_filter)
  have r: "r = bindE r1 (\<lambda>_ w1. bindE (evict_deferred cfg ops (Suc (length (w_deferred w1))) 0 w1)
         (\<lambda>_ w2. (Inr (), w2\<lparr>w_deferred := []\<rparr>)))"
    by (simp add: r_def flush_pages_def r1_def ls_def Let_def)
  have r1: "trims cfg content {} {} w (snd r1) \<and> (\<forall>e. fst r1 = Inl e \<longrightarrow> flush_fail cfg e) \<and>
    w_deferred (snd r1) = w_deferred w \<and>
    (fst r1 = Inr () \<longrightarrow> all_clean (snd r1) \<and> w_exists (snd r1) \<and> (tail_ok cfg w \<longrightarrow> tail_ok cfg (snd r1)))"
  proof (cases "ls = []")
    case True
    note fl = flush_page_list_spec [OF ops inv cinv, of "[]" 0]
    have "filter (\<lambda>e. pg_dirty (snd e)) (w_pages w) = []" using dirty True by simp
    then have "all_clean w" by (auto simp: all_clean_def filter_empty_conv)
    then show ?thesis using fl all_clean_trims [OF _ fl(1)]
      by (cases "fst (flush_page_list cfg ops 0 [] w)") (auto simp: r1_def True bindE_cases)
  next
    case False
    have "all_clean w'" if "w_pages w' = clean_keys (fst ` set (filter (\<lambda>e. pg_dirty (snd e)) (w_pages w))) (w_pages w)"
      for w' :: "'a world" using all_clean_clean_keys [where w = w' and m = "w_pages w"] by (simp add: all_clean_def that)
    then show ?thesis
      using flush_lists_spec [OF ops inv cinv runs dist] False by (auto simp: r1_def Let_def dirty)
  qed
  have "trims cfg content {} (set (w_deferred w)) w (snd r) \<and> (\<forall>e. fst r = Inl e \<longrightarrow> flush_fail cfg e) \<and>
    (fst r = Inr () \<longrightarrow> all_clean (snd r) \<and> w_deferred (snd r) = [] \<and> w_exists (snd r) \<and>
          (tail_ok cfg w \<longrightarrow> tail_ok cfg (snd r)))"
  proof (cases "fst r1")
    case (Inl e)
    then show ?thesis using r1 trims_mono [of cfg content "{}" "{}"] by (auto simp: r bindE_cases)
  next
    case (Inr u)
    then have ok: "all_clean (snd r1)" "w_exists (snd r1)" "tail_ok cfg w \<longrightarrow> tail_ok cfg (snd r1)"
      and t1: "trims cfg content {} {} w (snd r1)" and d1: "w_deferred (snd r1) = w_deferred w" using r1 by auto
    define r2 where "r2 = evict_deferred cfg ops (Suc (length (w_deferred (snd r1)))) 0 (snd r1)"
    have ev: "fst r2 = Inr ()" "trims cfg content {} (set (w_deferred w)) (snd r1) (snd r2)"
      "tail_ok cfg (snd r1) \<longrightarrow> tail_ok cfg (snd r2)"
      using evict_deferred_spec [OF ops trimsD(1,2) [OF t1] ok(1), of 0 "Suc (length (w_deferred (snd r1)))"]
      by (simp_all add: r2_def Let_def d1)
    have "r = (Inr (), (snd r2)\<lparr>w_deferred := []\<rparr>)" using Inr ev(1) by (simp add: r bindE_cases r2_def)
    then show ?thesis
      using trims_trans [OF t1 ev(2)] all_clean_trims [OF ok(1) ev(2)] trimsD(6) [OF ev(2) ok(2)] ok(3) ev(3)
      by (simp add: all_clean_def tail_ok_def)
  qed
  then show "trims cfg content {} (set (w_deferred w)) w (snd r)" and "fst r = Inl e \<Longrightarrow> flush_fail cfg e"
    and "fst r = Inr () \<Longrightarrow> all_clean (snd r) \<and> w_deferred (snd r) = [] \<and> w_exists (snd r) \<and>
          (tail_ok cfg w \<longrightarrow> tail_ok cfg (snd r))" by blast+
qed

text \<open>A flushed file is stored.\<close>

lemma flushed_stored:
  assumes inv: "file_inv cfg content {} w" and clean: "all_clean w" and ex: "w_exists w" and tail: "tail_ok cfg w"
  shows "w_fsize w \<le> length (content (w_env w))"
    and "take (w_fsize w) (content (w_env w)) = take_view (file_view cfg content {} w) 0 (w_fsize w)"
proof -
  have "max_dirty (fc_psize cfg) (w_pages w) = 0"
    using clean max_dirty_le [of "fc_psize cfg" "w_pages w" 0] by (fastforce simp: all_clean_def)
  then show len: "w_fsize w \<le> length (content (w_env w))"
    using tail ex file_invD(4) [OF inv] by (simp add: tail_ok_def backend_agrees_def)
  have "file_view cfg content {} w i = content (w_env w) ! i" if i: "i < w_fsize w" for i
  proof -
    have s: "srv content w i = content (w_env w) ! i"
      using srv_content [OF file_invD(4) [OF inv]] ex i len by (simp add: nth0_nth)
    show ?thesis
    proof (cases "map_of (w_pages w) (i div fc_psize cfg)")
      case None
      then show ?thesis by (simp add: file_view_def view_def s)
    next
      case (Some p)
      have "\<not> pg_dirty p" using map_of_SomeD [OF Some] clean by (auto simp: all_clean_def)
      then have "nth0 (pg_data p) (i mod fc_psize cfg) =
          srv content w (i div fc_psize cfg * fc_psize cfg + i mod fc_psize cfg)"
        using file_invD(5) [OF inv] map_of_SomeD [OF Some] file_invD(1) [OF inv]
        by (auto simp: clean_agrees_def)
      then show ?thesis using Some by (simp add: file_view_def view_def s)
    qed
  qed
  then show "take (w_fsize w) (content (w_env w)) = take_view (file_view cfg content {} w) 0 (w_fsize w)"
    using len by (intro nth_equalityI) auto
qed

end
