(* ===== verification/Page_Fetch.thy ===== *)
theory Page_Fetch
  imports Flush_Correct
begin

text \<open>
  Reading from the backend: PageBackend::FetchPages, which cuts the chunks of a download into
  pages and hands each finished page to a callback, and the fetch thread of PageManager
  (PageManager::FetchPages) run to its end. The lemmas show that the pages handed over are
  exactly the stored bytes, in order, however the download is chunked and restarted, and that
  a fetch leaves the bytes of the file as they are.
\<close>

section \<open>PageBackend::FetchPages\<close>

text \<open>
  The state of the download callback: curIndex, curPage, and what the page handler has done.
\<close>

record 'w fetch_state =
  ft_cur :: nat
  ft_page :: "page option"
  ft_world :: 'w

text \<open>
  One call of the download callback: the loop over its buffer (rbuf at rbyte). A page size of
  0 would never advance; it is guarded so that the loop is a function.
\<close>

function fetch_chunk :: "nat \<Rightarrow> nat \<Rightarrow> nat \<Rightarrow> (nat \<Rightarrow> byte) \<Rightarrow> (nat \<Rightarrow> page \<Rightarrow> 'w \<Rightarrow> 'w) \<Rightarrow>
    nat \<Rightarrow> bytes \<Rightarrow> 'w fetch_state \<Rightarrow> 'w fetch_state" where
  "fetch_chunk ps bsize index junk handler rbyte rbuf s =
     (if rbuf = [] \<or> ps = 0 then s
      else
        let cur_start = ft_cur s * ps;
            page_size = min64st (usub bsize cur_start) ps;
            page = (case ft_page s of None \<Rightarrow> page_new junk page_size | Some p \<Rightarrow> p);
            rindex = rbyte div ps;
            off = rbyte - rindex * ps;
            len = min64st (length rbuf) (ps - off);
            s' = (if rindex = ft_cur s - index
                  then let p = page\<lparr>pg_data := splice (pg_data page) off (take len rbuf)\<rparr>
                       in if off + len = pg_size p
                          then \<lparr>ft_cur = Suc (ft_cur s), ft_page = None,
                                ft_world = handler (ft_cur s) p (ft_world s)\<rparr>
                          else s\<lparr>ft_page := Some p\<rparr>
                  else s\<lparr>ft_page := Some page\<rparr>)
        in fetch_chunk ps bsize index junk handler (rbyte + len) (drop len rbuf) s')"
  by pat_completeness auto
termination
  by (relation "measure (\<lambda>(ps, bsize, index, junk, handler, rbyte, rbuf, s). length rbuf)")
    (auto simp: min64st_def Let_def minus_div_mult_eq_mod)

declare fetch_chunk.simps [simp del]

definition fetch_chunks :: "nat \<Rightarrow> nat \<Rightarrow> nat \<Rightarrow> (nat \<Rightarrow> byte) \<Rightarrow> (nat \<Rightarrow> page \<Rightarrow> 'w \<Rightarrow> 'w) \<Rightarrow>
    (nat \<times> bytes) list \<Rightarrow> 'w fetch_state \<Rightarrow> 'w fetch_state" where
  "fetch_chunks ps bsize index junk handler cs s =
     fold (\<lambda>(off, bs). fetch_chunk ps bsize index junk handler off bs) cs s"

definition backend_fetch_pages :: "file_cfg \<Rightarrow> 's backend_ops \<Rightarrow> nat \<Rightarrow> nat \<Rightarrow>
    (nat \<Rightarrow> page \<Rightarrow> 's world \<Rightarrow> 's world) \<Rightarrow> 's world \<Rightarrow> (nat, 's world) outcome" where
  "backend_fetch_pages cfg ops index count handler w =
     (let ps = fc_psize cfg in
      if count = 0 \<or> (index + count - 1) * ps \<ge> w_bsize w then (Inl AssertFailed, w)
      else
        let start = index * ps;
            read_size = min64st (w_bsize w - start) (ps * count);
            ((cs, fail), env') = op_read ops start read_size (w_env w);
            s = fetch_chunks ps (w_bsize w) index (op_junk ops env') handler cs
                  \<lparr>ft_cur = index, ft_page = None, ft_world = w\<lparr>w_env := env'\<rparr>\<rparr>
        in case fail of
             Some e \<Rightarrow> (Inl e, ft_world s)
           | None \<Rightarrow> if ft_page s \<noteq> None then (Inl AssertFailed, ft_world s)
                     else (Inr read_size, ft_world s))"

section \<open>The pages handed over\<close>

text \<open>Page i of a download, and the effect of handing over the first d pages.\<close>

definition ideal_page :: "nat \<Rightarrow> bytes \<Rightarrow> nat \<Rightarrow> page" where
  "ideal_page ps data i = \<lparr>pg_data = take ps (drop (i * ps) data), pg_dirty = False\<rparr>"

definition hand_over :: "nat \<Rightarrow> nat \<Rightarrow> bytes \<Rightarrow> (nat \<Rightarrow> page \<Rightarrow> 'w \<Rightarrow> 'w) \<Rightarrow> nat \<Rightarrow> 'w \<Rightarrow> 'w" where
  "hand_over ps index data handler d w =
     fold (\<lambda>i. handler (index + i) (ideal_page ps data i)) [0..<d] w"

lemma hand_over_Suc:
  "hand_over ps index data handler (Suc d) w =
     handler (index + d) (ideal_page ps data d) (hand_over ps index data handler d w)"
  by (simp add: hand_over_def)

text \<open>
  The state of the callback when pos is the next byte of the stream: d pages are handed over,
  and what the stream has already delivered of the next one is in curPage.
\<close>

definition fetch_inv :: "nat \<Rightarrow> nat \<Rightarrow> bytes \<Rightarrow> (nat \<Rightarrow> page \<Rightarrow> 'w \<Rightarrow> 'w) \<Rightarrow> 'w \<Rightarrow> nat \<Rightarrow> nat \<Rightarrow> 'w fetch_state \<Rightarrow> bool" where
  "fetch_inv ps index data handler w d pos s \<longleftrightarrow>
     ft_cur s = index + d \<and> ft_world s = hand_over ps index data handler d w \<and>
     (\<forall>i < d. i * ps < length data) \<and>
     (if d * ps < length data
      then pos < d * ps + min ps (length data - d * ps) \<and>
           (\<forall>p. ft_page s = Some p \<longrightarrow> pg_size p = min ps (length data - d * ps) \<and> \<not> pg_dirty p) \<and>
           (d * ps < pos \<longrightarrow> (\<exists>p. ft_page s = Some p \<and>
              (\<forall>j < pos - d * ps. pg_data p ! j = data ! (d * ps + j))))
      else pos = length data \<and> ft_page s = None)"

lemma fetch_inv_retry:
  "0 < ps \<Longrightarrow> pos < length data \<Longrightarrow> fetch_inv ps index data handler w d pos s \<Longrightarrow>
   fetch_inv ps index data handler w d 0 s"
  by (auto simp: fetch_inv_def split: if_splits)

text \<open>One round of the loop.\<close>

lemma fetch_round:
  fixes ps :: nat
  assumes ps: "0 < ps" and inv: "fetch_inv ps index data handler w d off s"
    and lt: "off < length data" and len: "len = min n (ps - off mod ps)" and n: "0 < n" "off + n \<le> length data"
    and piece: "piece = take len (drop off data)"
    and page: "page = (case ft_page s of None \<Rightarrow> page_new junk (min ps (length data - d * ps)) | Some p \<Rightarrow> p)"
    and s': "s' = (if off div ps = ft_cur s - index
                  then let p = page\<lparr>pg_data := splice (pg_data page) (off mod ps) piece\<rparr>
                       in if off mod ps + len = pg_size p
                          then \<lparr>ft_cur = Suc (ft_cur s), ft_page = None,
                                ft_world = handler (ft_cur s) p (ft_world s)\<rparr>
                          else s\<lparr>ft_page := Some p\<rparr>
                  else s\<lparr>ft_page := Some page\<rparr>)"
  shows "\<exists>d' \<ge> d. fetch_inv ps index data handler w d' (off + len) s'"
proof -
  let ?sz = "min ps (length data - d * ps)"
  have before: "i * ps < length data" if "i < d" for i using inv that by (simp add: fetch_inv_def)
  have dn: "d * ps < length data" using inv lt by (auto simp: fetch_inv_def split: if_splits)
  have cur: "ft_cur s = index + d" and wd: "ft_world s = hand_over ps index data handler d w"
    and off: "off < d * ps + ?sz" using inv dn by (auto simp: fetch_inv_def)
  have psz: "pg_size page = ?sz" "\<not> pg_dirty page"
    using inv dn by (cases "ft_page s"; simp add: page fetch_inv_def page_new_def pg_size_def)+
  have len_pos: "0 < len" "len \<le> n" "off mod ps + len \<le> ps"
    using len n mod_less_divisor [OF ps, of off] by (auto simp: min_def)
  have lp: "length piece = len" using piece len_pos n by simp
  have split: "off div ps * ps + off mod ps = off" "off mod ps < ps" using ps by simp_all
  show ?thesis
  proof (cases "off div ps = d")
    case True
    define b where "b = off mod ps"
    have offd: "off = d * ps + b" and b: "b < ps" using split by (simp_all add: True b_def)
    have "b + len \<le> ps" using len_pos(3) by (simp only: b_def)
    moreover have "d * ps + b + len \<le> length data" using len_pos(2) n(2) offd by linarith
    ultimately have fit: "b + len \<le> ?sz" by linarith
    define p where "p = page\<lparr>pg_data := splice (pg_data page) b piece\<rparr>"
    have sz: "length (pg_data p) = ?sz" using fit lp psz by (simp add: p_def length_splice pg_size_def)
    have old: "pg_data page ! j = data ! (d * ps + j)" if "j < b" for j
    proof -
      have "\<exists>q. ft_page s = Some q \<and> (\<forall>j < off - d * ps. pg_data q ! j = data ! (d * ps + j))"
        using inv dn offd that by (auto simp: fetch_inv_def)
      then show ?thesis using that offd by (auto simp: page)
    qed
    have new: "pg_data p ! j = data ! (d * ps + j)" if j: "j < b + len" for j
    proof (cases "b \<le> j")
      case True
      then have "piece ! (j - b) = data ! (off + (j - b))" using j n len_pos by (simp add: piece)
      then show ?thesis using True j fit lp psz offd by (simp add: p_def nth_splice pg_size_def)
    next
      case False
      then show ?thesis using old [of j] fit lp psz by (simp add: p_def nth_splice pg_size_def)
    qed
    show ?thesis
    proof (cases "b + len = ?sz")
      case True
      have "pg_data p = take ps (drop (d * ps) data)"
        using sz new True by (intro nth_equalityI) auto
      then have "p = ideal_page ps data d" using psz by (simp add: ideal_page_def p_def)
      moreover have "s' = \<lparr>ft_cur = Suc (ft_cur s), ft_page = None, ft_world = handler (ft_cur s) p (ft_world s)\<rparr>"
        using \<open>off div ps = d\<close> True sz unfolding s' by (simp add: cur Let_def pg_size_def p_def b_def)
      ultimately have "fetch_inv ps index data handler w (Suc d) (off + len) s'"
        using True offd ps dn before by (auto simp: fetch_inv_def cur wd hand_over_Suc min_def less_Suc_eq simp del: known_simps split: if_splits)
      then show ?thesis by (intro exI [of _ "Suc d"]) simp
    next
      case False
      then have "s' = s\<lparr>ft_page := Some p\<rparr>"
        using \<open>off div ps = d\<close> sz unfolding s' by (simp add: cur Let_def pg_size_def p_def b_def)
      then have "fetch_inv ps index data handler w d (off + len) s'"
        using False fit new sz psz offd dn before by (auto simp: fetch_inv_def cur wd pg_size_def p_def)
      then show ?thesis by blast
    qed
  next
    case False
    have "off div ps < Suc d" using off ps by (simp add: div_less_iff_less_mult)
    then have lt: "Suc (off div ps) \<le> d" using False by simp
    have "off + len \<le> Suc (off div ps) * ps" unfolding mult_Suc using split(1) len_pos(3) by linarith
    also have "\<dots> \<le> d * ps" using lt by (rule mult_le_mono1)
    finally have "off + len \<le> d * ps" .
    moreover have "s' = s\<lparr>ft_page := Some page\<rparr>" using False unfolding s' by (simp add: cur)
    ultimately have "fetch_inv ps index data handler w d (off + len) s'"
      using dn ps psz before by (auto simp: fetch_inv_def cur wd)
    then show ?thesis by blast
  qed
qed

lemma fetch_chunk_inv:
  assumes ps: "0 < ps"
    and size: "\<And>d. d * ps < length data \<Longrightarrow> min64st (usub bsize ((index + d) * ps)) ps = min ps (length data - d * ps)"
  shows "fetch_inv ps index data handler w d off s \<Longrightarrow> off + length bs \<le> length data \<Longrightarrow>
    bs = take (length bs) (drop off data) \<Longrightarrow>
    \<exists>d' \<ge> d. fetch_inv ps index data handler w d' (off + length bs) (fetch_chunk ps bsize index junk handler off bs s)"
proof (induction "length bs" arbitrary: bs off s d rule: less_induct)
  case less
  show ?case
  proof (cases "bs = []")
    case True
    then show ?thesis using less.prems(1) by (auto simp: fetch_chunk.simps [of _ _ _ _ _ _ "[]"])
  next
    case False
    define len where "len = min (length bs) (ps - off mod ps)"
    define page where "page = (case ft_page s of None \<Rightarrow> page_new junk (min64st (usub bsize (ft_cur s * ps)) ps) | Some p \<Rightarrow> p)"
    define s' where "s' = (if off div ps = ft_cur s - index
                  then let p = page\<lparr>pg_data := splice (pg_data page) (off mod ps) (take len bs)\<rparr>
                       in if off mod ps + len = pg_size p
                          then \<lparr>ft_cur = Suc (ft_cur s), ft_page = None,
                                ft_world = handler (ft_cur s) p (ft_world s)\<rparr>
                          else s\<lparr>ft_page := Some p\<rparr>
                  else s\<lparr>ft_page := Some page\<rparr>)"
    have step: "fetch_chunk ps bsize index junk handler off bs s =
        fetch_chunk ps bsize index junk handler (off + len) (drop len bs) s'"
    proof -
      have g: "(bs = [] \<or> ps = 0) = False" using False ps by simp
      show ?thesis
        by (subst fetch_chunk.simps) (simp only: g if_False Let_def len_def page_def s'_def min64st_def minus_div_mult_eq_mod)
    qed
    have lt: "off < length data" using less.prems(2) False by (cases bs) auto
    have dn: "d * ps < length data" and cur: "ft_cur s = index + d"
      using less.prems(1) lt by (auto simp: fetch_inv_def split: if_splits)
    have piece: "take len bs = take len (drop off data)"
      by (subst less.prems(3)) (simp add: len_def min_def)
    obtain d1 where d1: "d \<le> d1" "fetch_inv ps index data handler w d1 (off + len) s'"
      using fetch_round [OF ps less.prems(1) lt len_def _ less.prems(2) piece _ s'_def] False
      unfolding page_def cur size [OF dn] by blast
    have len: "0 < len" "len \<le> length bs" using False ps by (auto simp: len_def)
    have rest: "drop len bs = take (length (drop len bs)) (drop (off + len) data)"
      by (subst less.prems(3)) (simp add: drop_take add.commute)
    have shorter: "length (drop len bs) < length bs" "off + len + length (drop len bs) \<le> length data"
      using len less.prems(2) by auto
    from less.hyps [OF shorter(1) d1(2) shorter(2) rest]
    obtain d' where "d1 \<le> d'" "fetch_inv ps index data handler w d' (off + len + length (drop len bs))
        (fetch_chunk ps bsize index junk handler (off + len) (drop len bs) s')" by blast
    then show ?thesis using d1(1) len unfolding step by (intro exI [of _ d']) auto
  qed
qed

lemma fetch_chunks_inv:
  assumes ps: "0 < ps"
    and size: "\<And>d. d * ps < length data \<Longrightarrow> min64st (usub bsize ((index + d) * ps)) ps = min ps (length data - d * ps)"
  shows "chunks_from data pos cs \<Longrightarrow> fetch_inv ps index data handler w d pos s \<Longrightarrow>
    \<exists>d'. d \<le> d' \<and> fetch_inv ps index data handler w d' (chunks_end pos cs) (fetch_chunks ps bsize index junk handler cs s)"
proof (induction cs arbitrary: pos d s)
  case (Cons c cs)
  obtain off bs where c: "c = (off, bs)" by force
  have "fetch_inv ps index data handler w d off s"
    using Cons.prems fetch_inv_retry [OF ps _ Cons.prems(2)] by (auto simp: c)
  from fetch_chunk_inv [OF ps size this, of bs junk]
  obtain d1 where "d \<le> d1" "fetch_inv ps index data handler w d1 (off + length bs) (fetch_chunk ps bsize index junk handler off bs s)"
    using Cons.prems(1) by (auto simp: c)
  moreover from this Cons.IH [of "off + length bs" d1 "fetch_chunk ps bsize index junk handler off bs s"] Cons.prems(1)
  obtain d' where "d1 \<le> d'" "fetch_inv ps index data handler w d' (chunks_end (off + length bs) cs)
      (fetch_chunks ps bsize index junk handler cs (fetch_chunk ps bsize index junk handler off bs s))"
    by (auto simp: c)
  ultimately show ?case by (intro exI [of _ d']) (simp add: c fetch_chunks_def)
qed (auto simp: fetch_chunks_def)

text \<open>
  What FetchPages does with a backend that behaves as documented: it hands over the first d
  pages of the stored data; all of them if it returns, and it never trips its assertion.
\<close>

definition fetch_data :: "nat \<Rightarrow> nat \<Rightarrow> bytes \<Rightarrow> nat \<Rightarrow> nat \<Rightarrow> bytes" where
  "fetch_data ps bsize stored index count =
     take (min (bsize - index * ps) (ps * count)) (drop (index * ps) stored)"

lemma fetch_data_length:
  "length stored = bsize \<Longrightarrow> length (fetch_data ps bsize stored index count) = min (bsize - index * ps) (ps * count)"
  by (simp add: fetch_data_def)

lemma backend_fetch_pages_spec:
  fixes cfg index count handler
  assumes ops: "backend_ok ops content" and ps: "0 < fc_psize cfg"
    and len: "length (content (w_env w)) = w_bsize w" and b: "w_bsize w < 2 ^ 64"
    and count: "0 < count" and range: "(index + count - 1) * fc_psize cfg < w_bsize w"
  defines "r \<equiv> backend_fetch_pages cfg ops index count handler w"
    and "data \<equiv> fetch_data (fc_psize cfg) (w_bsize w) (content (w_env w)) index count"
  shows "\<exists>d env'. content env' = content (w_env w) \<and>
    snd r = hand_over (fc_psize cfg) index data handler d (w\<lparr>w_env := env'\<rparr>) \<and> d \<le> count \<and>
    (\<forall>i < d. i * fc_psize cfg < length data) \<and>
    (case fst r of Inl e \<Rightarrow> ext_fail e \<and> d < count | Inr n \<Rightarrow> d = count \<and> n = length data)"
proof -
  let ?ps = "fc_psize cfg" and ?start = "index * fc_psize cfg"
  define n where "n = min (w_bsize w - ?start) (?ps * count)"
  have le: "?start + (count - 1) * ?ps < w_bsize w"
  proof -
    have "index + count - 1 = index + (count - 1)" using count by simp
    then show ?thesis using range by (simp add: add_mult_distrib)
  qed
  have dlen: "length data = n" unfolding data_def n_def by (rule fetch_data_length [OF len])
  have "?start + n \<le> w_bsize w" using le by (simp add: n_def)
  then have fit: "?start + n \<le> length (content (w_env w))" by (simp add: len)
  have cn: "(count - 1) * ?ps < n" using le ps count by (simp add: n_def mult.commute)
  obtain cs fail env' where rd: "op_read ops ?start n (w_env w) = ((cs, fail), env')" by (metis surj_pair)
  have rok: "content env' = content (w_env w)" "chunks_from data 0 cs" "fail = None \<longrightarrow> chunks_end 0 cs = n"
    "\<And>e. fail = Some e \<Longrightarrow> ext_fail e \<and> chunks_end 0 cs < n"
  proof -
    have data: "data = take n (drop ?start (content (w_env w)))" by (simp add: data_def fetch_data_def n_def)
    have "read_ok ops content" using ops by (simp add: backend_ok_def)
    then have "let ((cs, r), s') = op_read ops ?start n (w_env w); data = take n (drop ?start (content (w_env w))) in
         content s' = content (w_env w) \<and> chunks_from data 0 cs \<and> (r = None \<longrightarrow> chunks_end 0 cs = n) \<and>
         (\<forall>e. r = Some e \<longrightarrow> ext_fail e \<and> chunks_end 0 cs < n)"
      using fit unfolding read_ok_def by blast
    then show "content env' = content (w_env w)" "chunks_from data 0 cs" "fail = None \<longrightarrow> chunks_end 0 cs = n"
      "\<And>e. fail = Some e \<Longrightarrow> ext_fail e \<and> chunks_end 0 cs < n" by (simp_all add: rd data)
  qed
  have size: "min64st (usub (w_bsize w) ((index + d) * ?ps)) ?ps = min ?ps (length data - d * ?ps)"
    if "d * ?ps < length data" for d
  proof -
    have d: "d * ?ps < n" "n \<le> w_bsize w - ?start" "n \<le> ?ps * count" using that dlen by (auto simp: n_def)
    then have "d < count" by (metis mult.commute mult_less_cancel2 order_less_le_trans)
    then have "Suc d * ?ps \<le> ?ps * count" by (metis Suc_leI mult.commute mult_le_mono1)
    then have e: "n - d * ?ps = w_bsize w - ?start - d * ?ps \<or> ?ps \<le> n - d * ?ps \<and> ?ps \<le> w_bsize w - ?start - d * ?ps"
      by (auto simp: n_def min_def)
    have "(index + d) * ?ps \<le> w_bsize w" using d by (simp add: add_mult_distrib)
    then have "usub (w_bsize w) ((index + d) * ?ps) = w_bsize w - ?start - d * ?ps"
      using b by (simp add: usub_small add_mult_distrib)
    then show ?thesis using e by (auto simp: min64st_def dlen)
  qed
  define s0 where "s0 = \<lparr>ft_cur = index, ft_page = None, ft_world = w\<lparr>w_env := env'\<rparr>\<rparr>"
  define s where "s = fetch_chunks ?ps (w_bsize w) index (op_junk ops env') handler cs s0"
  have "0 < n" using cn by simp
  then have "fetch_inv ?ps index data handler (w\<lparr>w_env := env'\<rparr>) 0 0 s0"
    using ps by (simp add: fetch_inv_def s0_def hand_over_def dlen)
  from fetch_chunks_inv [OF ps size rok(2) this, of "op_junk ops env'"]
  obtain d where inv: "fetch_inv ?ps index data handler (w\<lparr>w_env := env'\<rparr>) d (chunks_end 0 cs) s"
    unfolding s_def by blast
  have before: "\<And>i. i < d \<Longrightarrow> i * ?ps < length data" and world: "ft_world s = hand_over ?ps index data handler d (w\<lparr>w_env := env'\<rparr>)"
    using inv by (auto simp: fetch_inv_def)
  have dc: "d \<le> count"
  proof (rule ccontr)
    assume "\<not> d \<le> count"
    then have "count * ?ps < length data" using before [of count] by simp
    then show False using dlen by (simp add: n_def mult.commute)
  qed
  have r: "r = (case fail of Some e \<Rightarrow> (Inl e, ft_world s)
      | None \<Rightarrow> if ft_page s \<noteq> None then (Inl AssertFailed, ft_world s) else (Inr n, ft_world s))"
  proof -
    have g: "(count = 0 \<or> w_bsize w \<le> (index + count - 1) * ?ps) = False" using count range by simp
    show ?thesis unfolding r_def backend_fetch_pages_def
      by (simp only: g if_False Let_def min64st_def n_def [symmetric] rd prod.case s_def s0_def)
  qed
  have fin: "ft_page s = None \<and> d = count" if "fail = None"
  proof -
    have "chunks_end 0 cs = n" using rok(3) that by simp
    then have "n \<le> d * ?ps" and fp: "ft_page s = None"
      using inv dlen by (auto simp: fetch_inv_def split: if_splits)
    have "(count - 1) * ?ps < d * ?ps" using cn \<open>n \<le> d * ?ps\<close> by (rule order_less_le_trans)
    then have "count - 1 < d" by simp
    then show ?thesis using dc fp count by simp
  qed
  have part: "d < count" if e: "fail = Some e" for e
  proof -
    have "d * ?ps < n" using inv dlen rok(4) [OF e] by (auto simp: fetch_inv_def split: if_splits)
    then have "d * ?ps < count * ?ps" by (simp add: n_def mult.commute)
    then show ?thesis by simp
  qed
  show ?thesis
    using rok(1,4) world dc before fin dlen part
    by (intro exI [of _ d] exI [of _ env']) (cases fail; auto simp: r)
qed

section \<open>The fetch thread of PageManager\<close>

text \<open>CacheManager::InformPage without waiting: only the queue entry changes.\<close>

definition inform_nowait :: "file_cfg \<Rightarrow> nat \<Rightarrow> 's world \<Rightarrow> 's world" where
  "inform_nowait cfg index w =
     (if fc_cachemgr cfg \<and> \<not> is_memory cfg
      then (case sm_find (w_pages w) index of None \<Rightarrow> w
            | Some p \<Rightarrow> w\<lparr>w_cache := snd (cm_enqueue_page (fc_me cfg) index (page_capacity (fc_os cfg) p) False (w_cache w))\<rparr>)
      else w)"

text \<open>
  The page handler of PageManager::FetchPages. The size to extend to is computed from the
  first page of the fetch (index), as in the source.
\<close>

definition fetch_handler :: "file_cfg \<Rightarrow> 's backend_ops \<Rightarrow> nat \<Rightarrow> nat \<Rightarrow> page \<Rightarrow> 's world \<Rightarrow> 's world" where
  "fetch_handler cfg ops index page_index page w =
     (let page_start = index * fc_psize cfg;
          real_size = min64st (usub (w_fsize w) page_start) (fc_psize cfg);
          page' = (if pg_size page < real_size
                   then resize_zeroed (fc_os cfg) (op_junk ops (w_env w)) real_size page else page)
      in inform_nowait cfg page_index (w\<lparr>w_pages := sm_emplace page_index page' (w_pages w)\<rparr>))"

definition update_bandwidth :: "file_cfg \<Rightarrow> 's backend_ops \<Rightarrow> nat \<Rightarrow> 's world \<Rightarrow> 's world" where
  "update_bandwidth cfg ops n w =
     (let (target, b) = bw_update n (op_target ops (w_env w) n) (w_bw w);
          cache_max = co_memory_limit (fc_opts cfg) div fc_maxfrac cfg;
          target' = (if fc_cachemgr cfg \<and> target > cache_max then cache_max else target)
      in w\<lparr>w_bw := b, w_fetch := max 1 (target' div fc_psize cfg)\<rparr>)"

definition run_fetch :: "file_cfg \<Rightarrow> 's backend_ops \<Rightarrow> nat \<Rightarrow> nat \<Rightarrow> 's world \<Rightarrow> (unit, 's world) outcome" where
  "run_fetch cfg ops index count w =
     bindE (backend_fetch_pages cfg ops index count (fetch_handler cfg ops index) w)
       (\<lambda>n w1. (Inr (), if n \<ge> fc_psize cfg then update_bandwidth cfg ops n w1 else w1))"

text \<open>PageManager::isFetchPending and GetFetchSize; pend is mPendingPages.\<close>

definition is_fetch_pending :: "(nat \<times> nat) list \<Rightarrow> nat \<Rightarrow> bool" where
  "is_fetch_pending pend index \<longleftrightarrow> (\<exists>p \<in> set pend. fst p \<le> index \<and> index < fst p + snd p)"

definition get_fetch_size :: "file_cfg \<Rightarrow> (nat \<times> nat) list \<Rightarrow> nat \<Rightarrow> 's world \<Rightarrow> nat" where
  "get_fetch_size cfg pend index w =
     (let ps = fc_psize cfg; bsize = w_bsize w; last_page = (bsize - 1) div ps in
      if index * ps \<ge> w_fsize w then 0
      else if bsize = 0 then 0
      else if index > last_page then 0
      else if sm_find (w_pages w) index \<noteq> None then 0
      else
        let max_read = min64st (last_page - index + 1) (w_fetch w);
            count = (if index > 0 then max_read else 1);
            count' = (case sm_upper_bound (w_pages w) index of None \<Rightarrow> count
                      | Some (k, _) \<Rightarrow> min64st (k - index) count)
        in case List.find (\<lambda>c. is_fetch_pending pend (c + index)) [0..<count'] of
             Some c \<Rightarrow> c | None \<Rightarrow> count')"

lemma get_fetch_size_range:
  fixes cfg pend index
  assumes ok: "smap_ok (w_pages w)" and ps: "0 < fc_psize cfg"
  defines "n \<equiv> get_fetch_size cfg pend index w"
  assumes n: "0 < n"
  shows "(index + n - 1) * fc_psize cfg < w_bsize w" and "index * fc_psize cfg < w_fsize w"
    and "i < n \<Longrightarrow> index + i \<notin> fst ` set (w_pages w)" and "i < n \<Longrightarrow> \<not> is_fetch_pending pend (index + i)"
proof -
  let ?last = "(w_bsize w - 1) div fc_psize cfg"
  define count where "count = (if index > 0 then min64st (?last - index + 1) (w_fetch w) else 1)"
  define count' where "count' = (case sm_upper_bound (w_pages w) index of None \<Rightarrow> count
                      | Some (k, _) \<Rightarrow> min64st (k - index) count)"
  have cond: "index * fc_psize cfg < w_fsize w" "w_bsize w \<noteq> 0" "index \<le> ?last" "sm_find (w_pages w) index = None"
    using n unfolding n_def get_fetch_size_def by (auto simp: Let_def not_le split: if_splits)
  have neq: "n = (case List.find (\<lambda>c. is_fetch_pending pend (c + index)) [0..<count'] of
             Some c \<Rightarrow> c | None \<Rightarrow> count')"
  proof -
    have g: "(w_fsize w \<le> index * fc_psize cfg) = False" "(w_bsize w = 0) = False" "(?last < index) = False"
      "(sm_find (w_pages w) index \<noteq> None) = False" using cond by auto
    show ?thesis unfolding n_def get_fetch_size_def count'_def count_def by (simp only: Let_def g if_False)
  qed
  have nc: "n \<le> count'"
  proof (cases "List.find (\<lambda>c. is_fetch_pending pend (c + index)) [0..<count']")
    case (Some c)
    then have "c < count'" by (auto simp: find_Some_iff)
    then show ?thesis by (simp add: neq Some)
  qed (simp add: neq)
  have "count' \<le> count" by (auto simp: count'_def min64st_def split: option.splits)
  moreover have "count \<le> ?last - index + 1" using cond(3) by (auto simp: count_def min64st_def)
  ultimately have "index + n - 1 \<le> ?last" using nc cond(3) n by linarith
  then have "(index + n - 1) * fc_psize cfg \<le> ?last * fc_psize cfg" by (rule mult_le_mono1)
  also have "\<dots> \<le> w_bsize w - 1" by simp
  finally show "(index + n - 1) * fc_psize cfg < w_bsize w" using cond(2) by linarith
  show "index * fc_psize cfg < w_fsize w" by (rule cond(1))
  show "\<not> is_fetch_pending pend (index + i)" if "i < n" for i
  proof (cases "List.find (\<lambda>c. is_fetch_pending pend (c + index)) [0..<count']")
    case None
    then have "n = count'" by (simp add: neq)
    then show ?thesis using None that by (auto simp: find_None_iff add.commute)
  next
    case (Some c)
    then have "n = c" by (simp add: neq)
    then show ?thesis using Some that by (auto simp: find_Some_iff add.commute)
  qed
  show "index + i \<notin> fst ` set (w_pages w)" if i: "i < n" for i
  proof
    assume "index + i \<in> fst ` set (w_pages w)"
    then obtain p where p: "(index + i, p) \<in> set (w_pages w)" by force
    show False
    proof (cases "i = 0")
      case True
      then show False using in_sm_find [OF ok p] cond(4) by (simp add: sm_find_def)
    next
      case False
      then have gt: "index < index + i" by simp
      show False
      proof (cases "sm_upper_bound (w_pages w) index")
        case None
        then show False using sm_upper_bound_None [OF None gt] in_sm_find [OF ok p] by simp
      next
        case (Some e)
        obtain a b where e: "e = (a, b)" by force
        note ub = sm_upper_bound_Some [OF ok Some [unfolded e]]
        have "a \<le> index + i"
        proof (rule ccontr)
          assume "\<not> a \<le> index + i"
          then have "map_of (w_pages w) (index + i) = None" using ub gt by auto
          then show False using in_sm_find [OF ok p] by simp
        qed
        moreover have "count' \<le> a - index" using Some by (auto simp: count'_def min64st_def e)
        ultimately show False using i nc by linarith
      qed
    qed
  qed
qed

section \<open>A fetch leaves the file as it is\<close>

text \<open>
  The contract of operations that only bring pages in: the invariants hold, the file stands
  for the same bytes, and every page that was loaded still is, unchanged.
\<close>

definition grows :: "file_cfg \<Rightarrow> ('s \<Rightarrow> bytes) \<Rightarrow> 's world \<Rightarrow> 's world \<Rightarrow> bool" where
  "grows cfg content w w' \<longleftrightarrow>
     file_inv cfg content {} w' \<and> cache_inv cfg w' \<and> file_view cfg content {} w' = file_view cfg content {} w \<and>
     w_fsize w' = w_fsize w \<and> w_bsize w' = w_bsize w \<and> w_exists w' = w_exists w \<and>
     w_deferred w' = w_deferred w \<and> content (w_env w') = content (w_env w) \<and>
     map_of (w_pages w) \<subseteq>\<^sub>m map_of (w_pages w') \<and>
     (\<forall>(k, p) \<in> set (w_pages w'). pg_dirty p \<longrightarrow> (k, p) \<in> set (w_pages w)) \<and>
     (\<forall>k \<in> fst ` set (w_pages w'). k \<in> fst ` set (w_pages w) \<or> k * fc_psize cfg < max (w_bsize w) (w_fsize w))"

lemma growsD:
  assumes "grows cfg content w w'"
  shows "file_inv cfg content {} w'" "cache_inv cfg w'" "file_view cfg content {} w' = file_view cfg content {} w"
    "w_fsize w' = w_fsize w" "w_bsize w' = w_bsize w" "w_exists w' = w_exists w" "w_deferred w' = w_deferred w"
    "content (w_env w') = content (w_env w)"
    "map_of (w_pages w) k = Some p \<Longrightarrow> map_of (w_pages w') k = Some p"
    "(k, p) \<in> set (w_pages w') \<Longrightarrow> pg_dirty p \<Longrightarrow> (k, p) \<in> set (w_pages w)"
    "k \<in> fst ` set (w_pages w') \<Longrightarrow> k \<in> fst ` set (w_pages w) \<or> k * fc_psize cfg < max (w_bsize w) (w_fsize w)"
  using assms by (auto simp: grows_def map_le_def dom_def)

lemma grows_refl: "file_inv cfg content {} w \<Longrightarrow> cache_inv cfg w \<Longrightarrow> grows cfg content w w"
  by (auto simp: grows_def)

lemma grows_trans: "grows cfg content a b \<Longrightarrow> grows cfg content b c \<Longrightarrow> grows cfg content a c"
  unfolding grows_def
proof (elim conjE, intro conjI, goal_cases)
  case 9
  then show ?case by (metis map_le_trans)
next
  case 10
  then show ?case by blast
next
  case 11
  then show ?case by metis
qed simp_all

text \<open>Bringing in a page with the stored bytes.\<close>

lemma add_clean_page:
  assumes inv: "file_inv cfg content {} w" and cinv: "cache_inv cfg w"
    and new: "k \<notin> fst ` set (w_pages w)" and clean: "\<not> pg_dirty p"
    and reach: "k * fc_psize cfg < max (w_bsize w) (w_fsize w)"
    and size: "min (fc_psize cfg) (w_fsize w - k * fc_psize cfg) \<le> pg_size p" "pg_size p \<le> fc_psize cfg"
    and bytes: "\<And>j. j < fc_psize cfg \<Longrightarrow> nth0 (pg_data p) j = srv content w (k * fc_psize cfg + j)"
  defines "w' \<equiv> w\<lparr>w_pages := sm_emplace k p (w_pages w)\<rparr>"
  shows "grows cfg content w w'" and "map_of (w_pages w') k = Some p"
proof -
  note iD = file_invD [OF inv]
  have nk: "map_of (w_pages w) k = None" using new by (simp add: map_of_eq_None_iff)
  have m: "map_of (w_pages w') = (map_of (w_pages w))(k \<mapsto> p)"
    using nk by (auto simp: w'_def)
  have ok: "smap_ok (w_pages w')" using iD(2) by (simp add: w'_def smap_ok_emplace)
  have mem: "(a, q) \<in> set (w_pages w') \<longleftrightarrow> a = k \<and> q = p \<or> (a, q) \<in> set (w_pages w)" for a q
  proof -
    have "(a, q) \<in> set (w_pages w') \<longleftrightarrow> map_of (w_pages w') a = Some q"
      using ok by (metis in_sm_find map_of_SomeD)
    also have "\<dots> \<longleftrightarrow> a = k \<and> q = p \<or> map_of (w_pages w) a = Some q" using nk by (auto simp: m)
    also have "\<dots> \<longleftrightarrow> a = k \<and> q = p \<or> (a, q) \<in> set (w_pages w)" using iD(2) by (metis in_sm_find map_of_SomeD)
    finally show ?thesis .
  qed
  have srv': "srv content w' = srv content w" by (simp add: srv_def w'_def fun_eq_iff)
  have view': "file_view cfg content {} w' = file_view cfg content {} w"
  proof
    fix i
    have "i mod fc_psize cfg < fc_psize cfg" "i div fc_psize cfg * fc_psize cfg + i mod fc_psize cfg = i"
      using iD(1) by simp_all
    then show "file_view cfg content {} w' i = file_view cfg content {} w i"
      using bytes [of "i mod fc_psize cfg"] nk by (auto simp: file_view_def view_def m srv')
  qed
  have sz: "w_fsize w' = w_fsize w" "w_bsize w' = w_bsize w" "w_exists w' = w_exists w" "w_env w' = w_env w"
    "w_cache w' = w_cache w" "w_deferred w' = w_deferred w" by (simp_all add: w'_def)
  have "sizes_ok cfg {} w'" using iD(3) clean size unfolding sizes_ok_def by (auto simp: mem sz)
  moreover have "clean_agrees cfg content {} w'" unfolding clean_agrees_def known_simps
  proof (clarify, goal_cases)
    case (1 a q j)
    then consider "a = k \<and> q = p" | "(a, q) \<in> set (w_pages w)" using mem by blast
    then show ?case
    proof cases
      case 2
      then show ?thesis using iD(5) 1 by (auto simp: clean_agrees_def srv')
    qed (use bytes 1 in \<open>simp add: srv'\<close>)
  qed
  ultimately have "file_inv cfg content {} w'"
    unfolding file_inv_def view' srv' sz using iD ok by (simp add: backend_agrees_def sz w'_def)
  moreover have "cache_inv cfg w'"
    using cinv unfolding cache_inv_def sz by (auto simp: w'_def)
  ultimately show "grows cfg content w w'"
    using clean nk reach unfolding grows_def view' sz by (auto simp: m map_le_def mem image_iff)
  show "map_of (w_pages w') k = Some p" by (simp add: m)
qed

text \<open>A change of this file's queue entries for a loaded page.\<close>

lemma enqueue_grows:
  assumes inv: "file_inv cfg content {} w" and cinv: "cache_inv cfg w" and k: "k \<in> fst ` set (w_pages w)"
  shows "grows cfg content w (w\<lparr>w_cache := snd (cm_enqueue_page (fc_me cfg) k n d (w_cache w))\<rparr>)" (is "grows _ _ _ ?w'")
proof -
  have "srv content ?w' = srv content w" by (simp add: srv_def fun_eq_iff)
  moreover from this have "file_inv cfg content {} ?w'"
    using inv by (simp add: file_inv_def file_view_def sizes_ok_def clean_agrees_def backend_agrees_def)
  moreover have "cache_inv cfg ?w'" using cinv k by (auto simp: cache_inv_def cm_enqueue_ok)
  ultimately show ?thesis by (auto simp: grows_def file_view_def)
qed

lemma inform_nowait_grows:
  assumes "file_inv cfg content {} w" and "cache_inv cfg w"
  shows "grows cfg content w (inform_nowait cfg k w)" and "w_pages (inform_nowait cfg k w) = w_pages w"
    and "w_env (inform_nowait cfg k w) = w_env w"
proof -
  show "w_pages (inform_nowait cfg k w) = w_pages w" "w_env (inform_nowait cfg k w) = w_env w"
    by (simp_all add: inform_nowait_def split: option.splits)
  show "grows cfg content w (inform_nowait cfg k w)"
  proof (cases "map_of (w_pages w) k")
    case (Some p)
    then have "k \<in> fst ` set (w_pages w)" by (metis map_of_eq_None_iff option.distinct(1))
    then show ?thesis using enqueue_grows [OF assms] grows_refl [OF assms] Some
      by (simp add: inform_nowait_def sm_find_def)
  qed (simp add: inform_nowait_def sm_find_def grows_refl [OF assms])
qed

lemma fetch_handler_grows:
  assumes inv: "file_inv cfg content {} w" and cinv: "cache_inv cfg w"
    and new: "k \<notin> fst ` set (w_pages w)" and ik: "index \<le> k" and ex: "w_exists w" and fs: "w_fsize w < 2 ^ 64"
    and reach: "k * fc_psize cfg < max (w_bsize w) (w_fsize w)"
    and p: "pg_data p = take (fc_psize cfg) (drop (k * fc_psize cfg) (content (w_env w)))" "\<not> pg_dirty p"
  shows "grows cfg content w (fetch_handler cfg ops index k p w)"
    and "fst ` set (w_pages (fetch_handler cfg ops index k p w)) = insert k (fst ` set (w_pages w))"
proof -
  let ?ps = "fc_psize cfg"
  define real where "real = min64st (usub (w_fsize w) (index * ?ps)) ?ps"
  define p' where "p' = (if pg_size p < real then resize_zeroed (fc_os cfg) (op_junk ops (w_env w)) real p else p)"
  have small: "pg_size p \<le> ?ps" by (simp add: pg_size_def p)
  have "min ?ps (w_fsize w - k * ?ps) \<le> real"
  proof (cases "index * ?ps \<le> w_fsize w")
    case True
    have "w_fsize w - k * ?ps \<le> w_fsize w - index * ?ps" using ik by (simp add: diff_le_mono2)
    then show ?thesis using True fs by (auto simp: real_def min64st_def usub_small)
  next
    case False
    have "index * ?ps \<le> k * ?ps" using ik by (rule mult_le_mono1)
    then have "w_fsize w - k * ?ps = 0" using False by linarith
    then show ?thesis by simp
  qed
  moreover have "real \<le> ?ps" by (simp add: real_def)
  ultimately have size: "min ?ps (w_fsize w - k * ?ps) \<le> pg_size p'" "pg_size p' \<le> ?ps"
    using small by (auto simp: p'_def)
  have bytes: "nth0 (pg_data p') j = srv content w (k * ?ps + j)" if j: "j < ?ps" for j
  proof -
    have "nth0 (pg_data p) j = nth0 (content (w_env w)) (k * ?ps + j)" using j by (auto simp: p nth0_def)
    moreover have "nth0 (pg_data p') j = nth0 (pg_data p) j"
      by (auto simp: p'_def resize_zeroed_data nth0_resize_bytes pg_size_def)
    ultimately show ?thesis using srv_content [OF file_invD(4) [OF inv]] ex by simp
  qed
  have clean: "\<not> pg_dirty p'" using p by (simp add: p'_def)
  define w1 where "w1 = w\<lparr>w_pages := sm_emplace k p' (w_pages w)\<rparr>"
  have g1: "grows cfg content w w1"
    unfolding w1_def by (rule add_clean_page(1) [OF inv cinv new clean reach size bytes])
  have r: "fetch_handler cfg ops index k p w = inform_nowait cfg k w1"
    by (simp add: fetch_handler_def Let_def w1_def p'_def real_def)
  note g2 = inform_nowait_grows [OF growsD(1,2) [OF g1], of k]
  show "grows cfg content w (fetch_handler cfg ops index k p w)" unfolding r by (rule grows_trans [OF g1 g2(1)])
  show "fst ` set (w_pages (fetch_handler cfg ops index k p w)) = insert k (fst ` set (w_pages w))"
    unfolding r g2(2) by (simp add: w1_def)
qed

lemma ideal_page_stored:
  assumes "length stored = bsize" and "d < count"
  shows "pg_data (ideal_page ps (fetch_data ps bsize stored index count) d) = take ps (drop ((index + d) * ps) stored)"
proof -
  have "fetch_data ps bsize stored index count = take (ps * count) (drop (index * ps) stored)"
    using assms(1) by (simp add: fetch_data_def min_def)
  moreover have "Suc d * ps \<le> ps * count" using assms(2) by (metis Suc_leI mult.commute mult_le_mono1)
  then have "min ps (ps * count - d * ps) = ps" by (simp add: min_def)
  ultimately show ?thesis
    by (simp add: ideal_page_def drop_take take_take add_mult_distrib add.commute)
qed

lemma hand_over_grows:
  fixes cfg
  assumes inv: "file_inv cfg content {} w" and cinv: "cache_inv cfg w" and ex: "w_exists w"
    and new: "\<And>i. i < count \<Longrightarrow> index + i \<notin> fst ` set (w_pages w)"
    and range: "(index + count - 1) * fc_psize cfg < w_bsize w"
  defines "data \<equiv> fetch_data (fc_psize cfg) (w_bsize w) (content (w_env w)) index count"
  shows "d \<le> count \<Longrightarrow>
    grows cfg content w (hand_over (fc_psize cfg) index data (fetch_handler cfg ops index) d w) \<and>
    fst ` set (w_pages (hand_over (fc_psize cfg) index data (fetch_handler cfg ops index) d w)) =
      fst ` set (w_pages w) \<union> (\<lambda>i. index + i) ` {..<d}"
proof (induction d)
  case 0
  then show ?case using grows_refl [OF inv cinv] by (simp add: hand_over_def)
next
  case (Suc d)
  define v where "v = hand_over (fc_psize cfg) index data (fetch_handler cfg ops index) d w"
  have g: "grows cfg content w v" and keys: "fst ` set (w_pages v) = fst ` set (w_pages w) \<union> (\<lambda>i. index + i) ` {..<d}"
    using Suc by (simp_all add: v_def)
  have len: "length (content (w_env w)) = w_bsize w" using file_invD(4) [OF inv] ex by (simp add: backend_agrees_def)
  have p: "pg_data (ideal_page (fc_psize cfg) data d) = take (fc_psize cfg) (drop ((index + d) * fc_psize cfg) (content (w_env v)))"
    unfolding growsD(8) [OF g] data_def by (rule ideal_page_stored [OF len]) (use Suc.prems in simp)
  have "index + d \<notin> fst ` set (w_pages v)" using new [of d] Suc.prems by (auto simp: keys)
  moreover have "w_fsize v < 2 ^ 64"
    using file_invD(8) [OF growsD(1) [OF g]] file_invD(1) [OF inv] by linarith
  moreover have "w_exists v" using ex growsD(6) [OF g] by simp
  moreover have "(index + d) * fc_psize cfg < max (w_bsize v) (w_fsize v)"
  proof -
    have "(index + d) * fc_psize cfg \<le> (index + count - 1) * fc_psize cfg" using Suc.prems by (intro mult_le_mono1) simp
    then have "(index + d) * fc_psize cfg < w_bsize w" using range by (rule le_less_trans)
    then show ?thesis using growsD(5) [OF g] by simp
  qed
  ultimately have h: "grows cfg content v (fetch_handler cfg ops index (index + d) (ideal_page (fc_psize cfg) data d) v)"
    "fst ` set (w_pages (fetch_handler cfg ops index (index + d) (ideal_page (fc_psize cfg) data d) v)) =
      insert (index + d) (fst ` set (w_pages v))"
    using p by (intro fetch_handler_grows [OF growsD(1,2) [OF g]]; simp add: ideal_page_def)+
  show ?case unfolding hand_over_Suc v_def [symmetric]
    using grows_trans [OF g h(1)] h(2) by (auto simp: keys lessThan_Suc)
qed

lemma grows_env:
  assumes "file_inv cfg content {} w" "cache_inv cfg w" "content s = content (w_env w)"
  shows "grows cfg content w (w\<lparr>w_env := s\<rparr>)"
proof -
  have "srv content (w\<lparr>w_env := s\<rparr>) = srv content w" by (simp add: srv_def fun_eq_iff assms(3))
  then show ?thesis
    using assms by (auto simp: grows_def file_inv_def file_view_def sizes_ok_def clean_agrees_def backend_agrees_def cache_inv_def)
qed

lemma update_bandwidth_grows:
  assumes "file_inv cfg content {} w" "cache_inv cfg w"
  shows "grows cfg content w (update_bandwidth cfg ops n w)" and "w_pages (update_bandwidth cfg ops n w) = w_pages w"
proof -
  obtain b f where u: "update_bandwidth cfg ops n w = w\<lparr>w_bw := b, w_fetch := f\<rparr>" "0 < f"
    by (cases "bw_update n (op_target ops (w_env w) n) (w_bw w)") (auto simp: update_bandwidth_def Let_def)
  have "srv content (w\<lparr>w_bw := b, w_fetch := f\<rparr>) = srv content w" by (simp add: srv_def fun_eq_iff)
  then show "grows cfg content w (update_bandwidth cfg ops n w)"
    unfolding u(1) using assms u(2)
    by (auto simp: grows_def file_inv_def file_view_def sizes_ok_def clean_agrees_def backend_agrees_def cache_inv_def)
  show "w_pages (update_bandwidth cfg ops n w) = w_pages w" by (simp add: u)
qed

lemma run_fetch_spec:
  fixes cfg index count
  assumes ops: "backend_ok ops content" and inv: "file_inv cfg content {} w" and cinv: "cache_inv cfg w"
    and b: "w_bsize w < 2 ^ 64" and count: "0 < count" and range: "(index + count - 1) * fc_psize cfg < w_bsize w"
    and new: "\<And>i. i < count \<Longrightarrow> index + i \<notin> fst ` set (w_pages w)"
  defines "r \<equiv> run_fetch cfg ops index count w"
  shows "grows cfg content w (snd r)" and "fst r = Inl e \<Longrightarrow> ext_fail e"
    and "fst r = Inr () \<Longrightarrow> i < count \<Longrightarrow> index + i \<in> fst ` set (w_pages (snd r))"
proof -
  have ex: "w_exists w" using range file_invD(4) [OF inv] by (auto simp: backend_agrees_def split: if_splits)
  have len: "length (content (w_env w)) = w_bsize w" using file_invD(4) [OF inv] ex by (simp add: backend_agrees_def)
  define r1 where "r1 = backend_fetch_pages cfg ops index count (fetch_handler cfg ops index) w"
  define data where "data = fetch_data (fc_psize cfg) (w_bsize w) (content (w_env w)) index count"
  obtain d env' where d: "content env' = content (w_env w)" "d \<le> count"
    "snd r1 = hand_over (fc_psize cfg) index data (fetch_handler cfg ops index) d (w\<lparr>w_env := env'\<rparr>)"
    "case fst r1 of Inl e \<Rightarrow> ext_fail e \<and> d < count | Inr n \<Rightarrow> d = count \<and> n = length data"
    using backend_fetch_pages_spec [OF ops file_invD(1) [OF inv] len b count range, of "fetch_handler cfg ops index"]
    unfolding r1_def [symmetric] data_def [symmetric] by blast
  define w0 where "w0 = w\<lparr>w_env := env'\<rparr>"
  have g0: "grows cfg content w w0" unfolding w0_def by (rule grows_env [OF inv cinv d(1)])
  have "data = fetch_data (fc_psize cfg) (w_bsize w0) (content (w_env w0)) index count"
    by (simp add: data_def w0_def d(1))
  moreover have "\<And>i. i < count \<Longrightarrow> index + i \<notin> fst ` set (w_pages w0)" using new by (simp add: w0_def)
  moreover have "w_exists w0" using ex by (simp add: w0_def)
  ultimately have h: "grows cfg content w0 (snd r1)"
    "fst ` set (w_pages (snd r1)) = fst ` set (w_pages w0) \<union> (\<lambda>i. index + i) ` {..<d}"
    using hand_over_grows [OF growsD(1,2) [OF g0], of count index d ops] range d(2,3) by (auto simp: w0_def)
  have g: "grows cfg content w (snd r1)" by (rule grows_trans [OF g0 h(1)])
  have r: "r = (case fst r1 of Inl e \<Rightarrow> (Inl e, snd r1)
      | Inr n \<Rightarrow> (Inr (), if n \<ge> fc_psize cfg then update_bandwidth cfg ops n (snd r1) else snd r1))"
    unfolding r_def run_fetch_def r1_def [symmetric] bindE_cases ..
  have ub: "grows cfg content (snd r1) (if n \<ge> fc_psize cfg then update_bandwidth cfg ops n (snd r1) else snd r1)"
    "w_pages (if n \<ge> fc_psize cfg then update_bandwidth cfg ops n (snd r1) else snd r1) = w_pages (snd r1)" for n
    using update_bandwidth_grows [OF growsD(1,2) [OF g]] grows_refl [OF growsD(1,2) [OF g]] by simp_all
  show "grows cfg content w (snd r)"
    using g grows_trans [OF g ub(1)] by (cases "fst r1") (simp_all add: r)
  show "ext_fail e" if "fst r = Inl e" using that d(4) by (cases "fst r1") (simp_all add: r)
  show "index + i \<in> fst ` set (w_pages (snd r))" if "fst r = Inr ()" "i < count"
    using that d(4) by (cases "fst r1") (auto simp: r ub h(2))
qed

end
