(* ===== verification/Page_Manager.thy ===== *)
theory Page_Manager
  imports Page_Fetch
begin

text \<open>
  PageManager (src/lib/andromeda/filesystem/filedata/PageManager.cpp): reading and writing
  within one page, resizing pages, truncating, and the calls into CacheManager
  (CacheManager.cpp) that make room by evicting or flushing other pages of the same file.
  A page handed around by reference in the source is named by its index in the page map.
\<close>

section \<open>CacheManager: making room\<close>

definition set_cache :: "cache \<Rightarrow> 's world \<Rightarrow> 's world" where
  "set_cache c w = w\<lparr>w_cache := c\<rparr>"

text \<open>
  The synchronous eviction loop of HandleMemory: evict from the back of the queue while over
  the limit, as far as the back is another page of this file.
\<close>

fun sync_evict :: "file_cfg \<Rightarrow> 's backend_ops \<Rightarrow> nat \<Rightarrow> nat \<Rightarrow> 's world \<Rightarrow> (unit, 's world) outcome" where
  "sync_evict cfg ops key 0 w = (Inl Hang, w)"
| "sync_evict cfg ops key (Suc fuel) w =
     (if \<not> cm_should_evict (fc_opts cfg) (w_cache w) then (Inr (), w)
      else case om_back (cm_pages (w_cache w)) of
             None \<Rightarrow> (Inl AssertFailed, w)
           | Some (k, i) \<Rightarrow>
               if pi_mgr i = fc_me cfg \<and> k \<noteq> (fc_me cfg, key)
               then bindE (evict_page cfg ops (pi_index i) w) (\<lambda>_. sync_evict cfg ops key fuel)
               else (Inr (), w))"

text \<open>CacheManager::FlushPage: flush a page and update the dirty limit.\<close>

definition cm_flush_page :: "file_cfg \<Rightarrow> 's backend_ops \<Rightarrow> nat \<Rightarrow> 's world \<Rightarrow> (unit, 's world) outcome" where
  "cm_flush_page cfg ops index w =
     bindE (flush_page cfg ops index w) (\<lambda>written w1.
       (Inr (), set_cache (cm_note_flush written (op_target ops (w_env w1) written) (w_cache w1)) w1))"

fun sync_flush :: "file_cfg \<Rightarrow> 's backend_ops \<Rightarrow> nat \<Rightarrow> nat \<Rightarrow> 's world \<Rightarrow> (unit, 's world) outcome" where
  "sync_flush cfg ops key 0 w = (Inl Hang, w)"
| "sync_flush cfg ops key (Suc fuel) w =
     (if \<not> cm_should_flush (w_cache w) then (Inr (), w)
      else case om_back (cm_dirty (w_cache w)) of
             None \<Rightarrow> (Inl AssertFailed, w)
           | Some (k, i) \<Rightarrow>
               if pi_mgr i = fc_me cfg \<and> k \<noteq> (fc_me cfg, key)
               then bindE (cm_flush_page cfg ops (pi_index i) w) (\<lambda>_. sync_flush cfg ops key fuel)
               else (Inr (), w))"

text \<open>
  The second half of HandleMemory and HandleDirtyMemory: reset the stored failure, then wait
  for the cleanup threads if need be.
\<close>

definition await_evict :: "file_cfg \<Rightarrow> 's backend_ops \<Rightarrow> 's world \<Rightarrow> (unit, 's world) outcome" where
  "await_evict cfg ops w =
     (if \<not> fc_threads cfg then (Inr (), w)
      else let c = (w_cache w)\<lparr>cm_evict_failure := None\<rparr> in
        case cm_should_await_evict (fc_opts cfg) (fc_me cfg) c of
          Inl e \<Rightarrow> (Inl e, set_cache c w)
        | Inr False \<Rightarrow> (Inr (), set_cache c w)
        | Inr True \<Rightarrow> (case op_wait_evict ops (fc_me cfg) (w_env w) c of
                        (None, c') \<Rightarrow> (Inr (), set_cache c' w)
                      | (Some e, c') \<Rightarrow> (Inl e, set_cache c' w)))"

definition await_flush :: "file_cfg \<Rightarrow> 's backend_ops \<Rightarrow> 's world \<Rightarrow> (unit, 's world) outcome" where
  "await_flush cfg ops w =
     (if \<not> fc_threads cfg then (Inr (), w)
      else let c = (w_cache w)\<lparr>cm_flush_failure := None\<rparr> in
        case cm_should_await_flush (fc_me cfg) c of
          Inl e \<Rightarrow> (Inl e, set_cache c w)
        | Inr False \<Rightarrow> (Inr (), set_cache c w)
        | Inr True \<Rightarrow> (case op_wait_flush ops (fc_me cfg) (w_env w) c of
                        (None, c') \<Rightarrow> (Inr (), set_cache c' w)
                      | (Some e, c') \<Rightarrow> (Inl e, set_cache c' w)))"

text \<open>
  HandleMemory and HandleDirtyMemory; w_lock says whether the caller passed its write lock.
  Without can_wait the source only signals the cleanup threads.
\<close>

definition handle_memory :: "file_cfg \<Rightarrow> 's backend_ops \<Rightarrow> nat \<Rightarrow> bool \<Rightarrow> bool \<Rightarrow> 's world \<Rightarrow> (unit, 's world) outcome" where
  "handle_memory cfg ops key can_wait w_lock w =
     bindE (if w_lock \<and> can_wait then sync_evict cfg ops key (Suc (om_size (cm_pages (w_cache w)))) w else (Inr (), w))
       (\<lambda>_ w1. if can_wait then await_evict cfg ops w1 else (Inr (), w1))"

definition handle_dirty_memory :: "file_cfg \<Rightarrow> 's backend_ops \<Rightarrow> nat \<Rightarrow> bool \<Rightarrow> bool \<Rightarrow> 's world \<Rightarrow> (unit, 's world) outcome" where
  "handle_dirty_memory cfg ops key can_wait w_lock w =
     bindE (if w_lock \<and> can_wait then sync_flush cfg ops key (Suc (om_size (cm_dirty (w_cache w)))) w else (Inr (), w))
       (\<lambda>_ w1. if can_wait then await_flush cfg ops w1 else (Inr (), w1))"

text \<open>CacheManager::InformPage and CacheManager::ResizePage.\<close>

definition page_cap :: "file_cfg \<Rightarrow> 's world \<Rightarrow> nat \<Rightarrow> nat" where
  "page_cap cfg w index =
     (case sm_find (w_pages w) index of None \<Rightarrow> 0 | Some p \<Rightarrow> page_capacity (fc_os cfg) p)"

definition cm_inform_page :: "file_cfg \<Rightarrow> 's backend_ops \<Rightarrow> nat \<Rightarrow> bool \<Rightarrow> bool \<Rightarrow> bool \<Rightarrow> 's world \<Rightarrow> (unit, 's world) outcome" where
  "cm_inform_page cfg ops index dirty can_wait w_lock w =
     (let cap = page_cap cfg w index;
          (old_size, c) = cm_enqueue_page (fc_me cfg) index cap dirty (w_cache w);
          w1 = set_cache c w
      in if cap > old_size
         then bindE (handle_memory cfg ops index can_wait w_lock w1) (\<lambda>_ w2.
                if dirty then handle_dirty_memory cfg ops index can_wait w_lock w2 else (Inr (), w2))
         else (Inr (), w1))"

definition cm_resize_page :: "file_cfg \<Rightarrow> 's backend_ops \<Rightarrow> nat \<Rightarrow> bool \<Rightarrow> 's world \<Rightarrow> (unit, 's world) outcome" where
  "cm_resize_page cfg ops index w_lock w =
     (let cap = page_cap cfg w index;
          (grew, c) = cm_resize_total (fc_me cfg, index) cap (w_cache w);
          w1 = set_cache c w
      in bindE (if grew then handle_memory cfg ops index True w_lock w1 else (Inr (), w1)) (\<lambda>_ w2.
           let (grew_dirty, c2) = cm_resize_dirty (fc_me cfg, index) cap (w_cache w2);
               w3 = set_cache c2 w2
           in if grew_dirty then handle_dirty_memory cfg ops index True w_lock w3 else (Inr (), w3)))"

section \<open>PageManager: informing the cache\<close>

definition informed :: "file_cfg \<Rightarrow> bool" where
  "informed cfg \<longleftrightarrow> fc_cachemgr cfg \<and> \<not> is_memory cfg"

text \<open>Undoing the addition of a page, as the catch blocks do.\<close>

definition forget_page :: "file_cfg \<Rightarrow> nat \<Rightarrow> 's world \<Rightarrow> 's world" where
  "forget_page cfg index w =
     (let w1 = cache_do cfg (\<lambda>c. snd (cm_remove_page (fc_me cfg, index) c)) w
      in w1\<lparr>w_pages := sm_erase index (w_pages w1)\<rparr>)"

definition inform_new_page_read :: "file_cfg \<Rightarrow> 's backend_ops \<Rightarrow> nat \<Rightarrow> bool \<Rightarrow> bool \<Rightarrow> 's world \<Rightarrow> (unit, 's world) outcome" where
  "inform_new_page_read cfg ops index dirty can_wait w =
     (if \<not> informed cfg then (Inr (), w)
      else catchE (cm_inform_page cfg ops index dirty can_wait False w)
             (\<lambda>e w1. if e = MemoryError then (Inl e, forget_page cfg index w1) else (Inl e, w1)))"

definition inform_new_page_write :: "file_cfg \<Rightarrow> 's backend_ops \<Rightarrow> nat \<Rightarrow> bool \<Rightarrow> 's world \<Rightarrow> (unit, 's world) outcome" where
  "inform_new_page_write cfg ops index dirty w =
     (if \<not> informed cfg then (Inr (), w)
      else catchE (cm_inform_page cfg ops index dirty True True w)
             (\<lambda>e w1. (Inl e, forget_page cfg index w1)))"

text \<open>PageManager::ResizePage without and with the cache.\<close>

definition resize_only :: "file_cfg \<Rightarrow> 's backend_ops \<Rightarrow> nat \<Rightarrow> nat \<Rightarrow> 's world \<Rightarrow> 's world" where
  "resize_only cfg ops index n w =
     w\<lparr>w_pages := page_update index (resize_zeroed (fc_os cfg) (op_junk ops (w_env w)) n) (w_pages w)\<rparr>"

definition page_len :: "'s world \<Rightarrow> nat \<Rightarrow> nat" where
  "page_len w index = (case sm_find (w_pages w) index of None \<Rightarrow> 0 | Some p \<Rightarrow> pg_size p)"

definition resize_cached :: "file_cfg \<Rightarrow> 's backend_ops \<Rightarrow> nat \<Rightarrow> nat \<Rightarrow> 's world \<Rightarrow> (unit, 's world) outcome" where
  "resize_cached cfg ops index n w =
     (let old = page_len w index in
      if old = n then (Inr (), w)
      else if \<not> fc_cachemgr cfg then (Inr (), resize_only cfg ops index n w)
      else catchE (cm_resize_page cfg ops index True (resize_only cfg ops index n w)) (\<lambda>e w1.
             bindE (cm_resize_page cfg ops index True
                      (w1\<lparr>w_pages := page_update index (page_resize (fc_os cfg) (op_junk ops (w_env w1)) old) (w_pages w1)\<rparr>))
               (\<lambda>_ w2. (Inl e, w2))))"

definition inform_resize_page :: "file_cfg \<Rightarrow> 's backend_ops \<Rightarrow> nat \<Rightarrow> bool \<Rightarrow> nat \<Rightarrow> 's world \<Rightarrow> (unit, 's world) outcome" where
  "inform_resize_page cfg ops index dirty n w =
     (let old = page_len w index;
          w1 = resize_only cfg ops index n w
      in if \<not> informed cfg then (Inr (), w1)
         else catchE (cm_inform_page cfg ops index dirty True True w1) (\<lambda>e w2.
                bindE (cm_resize_page cfg ops index True (resize_only cfg ops index old w2))
                  (\<lambda>_ w3. (Inl e, w3))))"

section \<open>PageManager: writing\<close>

text \<open>PageManager::GetPageWrite; the page it returns is the entry at index.\<close>

definition get_page_write :: "file_cfg \<Rightarrow> 's backend_ops \<Rightarrow> nat \<Rightarrow> nat \<Rightarrow> bool \<Rightarrow> 's world \<Rightarrow> (unit, 's world) outcome" where
  "get_page_write cfg ops index n partial w =
     (let ps = fc_psize cfg; page_start = index * ps in
      if sm_find (w_pages w) index \<noteq> None
      then inform_resize_page cfg ops index True n w
      else if page_start \<ge> w_bsize w \<or> \<not> partial
      then
        let last_page = (w_fsize w - 1) div ps in
        bindE (if page_start > w_fsize w \<and> w_fsize w > 0 \<and> sm_find (w_pages w) last_page \<noteq> None
               then resize_cached cfg ops last_page ps w else (Inr (), w))
          (\<lambda>_ w1.
            let w2 = resize_only cfg ops index n
                       (w1\<lparr>w_pages := sm_emplace index \<lparr>pg_data = [], pg_dirty = False\<rparr> (w_pages w1)\<rparr>)
            in inform_new_page_write cfg ops index True w2)
      else
        bindE (backend_fetch_pages cfg ops index 1
                 (\<lambda>i p w. w\<lparr>w_pages := sm_emplace i p (w_pages w)\<rparr>) w)
          (\<lambda>_ w1. inform_new_page_write cfg ops index True (resize_only cfg ops index n w1)))"

text \<open>PageManager::WritePage.\<close>

definition write_page :: "file_cfg \<Rightarrow> 's backend_ops \<Rightarrow> bytes \<Rightarrow> nat \<Rightarrow> nat \<Rightarrow> 's world \<Rightarrow> (unit, 's world) outcome" where
  "write_page cfg ops buf index offset w =
     (let page_start = index * fc_psize cfg;
          new_size = max (w_fsize w) (page_start + offset + length buf);
          n = min64st (new_size - page_start) (fc_psize cfg);
          partial = (offset > 0 \<or> length buf < n)
      in bindE (get_page_write cfg ops index n partial w) (\<lambda>_ w1.
           (Inr (), w1\<lparr>w_fsize := new_size,
                       w_pages := page_update index (\<lambda>p. (set_dirty True p)\<lparr>pg_data := splice (pg_data p) offset buf\<rparr>)
                                    (w_pages w1)\<rparr>)))"

section \<open>PageManager: reading\<close>

text \<open>
  DoAdvanceRead and GetPageRead with no other thread at work (nothing pending); the fetch
  thread that StartFetch makes runs to its end before the reader goes on. A failed advance
  read is only recorded in mFailedPages, which the next StartFetch clears.
\<close>

fun advance_from :: "file_cfg \<Rightarrow> 's backend_ops \<Rightarrow> nat list \<Rightarrow> 's world \<Rightarrow> 's world" where
  "advance_from cfg ops [] w = w"
| "advance_from cfg ops (next # is) w =
     (if next * fc_psize cfg \<ge> w_fsize w then w
      else let n = get_fetch_size cfg [] next w
           in if n > 0 then snd (run_fetch cfg ops next n w) else advance_from cfg ops is w)"

definition do_advance_read :: "file_cfg \<Rightarrow> 's backend_ops \<Rightarrow> nat \<Rightarrow> 's world \<Rightarrow> 's world" where
  "do_advance_read cfg ops index w =
     (if index = 0 then w else advance_from cfg ops [index + 1..<index + fc_ahead cfg + 1] w)"

definition inform_read :: "file_cfg \<Rightarrow> 's backend_ops \<Rightarrow> nat \<Rightarrow> page \<Rightarrow> 's world \<Rightarrow> (page, 's world) outcome" where
  "inform_read cfg ops index p w =
     (if informed cfg
      then bindE (cm_inform_page cfg ops index (pg_dirty p) True False w) (\<lambda>_ w1. (Inr p, w1))
      else (Inr p, w))"

definition get_page_read :: "file_cfg \<Rightarrow> 's backend_ops \<Rightarrow> nat \<Rightarrow> 's world \<Rightarrow> (page, 's world) outcome" where
  "get_page_read cfg ops index w =
     (if index * fc_psize cfg \<ge> w_fsize w then (Inl AssertFailed, w)
      else case sm_find (w_pages w) index of
        Some p \<Rightarrow> inform_read cfg ops index p (do_advance_read cfg ops index w)
      | None \<Rightarrow>
          let n = get_fetch_size cfg [] index w in
          if n = 0
          then
            let p = resize_zeroed (fc_os cfg) (op_junk ops (w_env w)) (fc_psize cfg) \<lparr>pg_data = [], pg_dirty = False\<rparr>
            in bindE (inform_new_page_read cfg ops index False True (w\<lparr>w_pages := sm_emplace index p (w_pages w)\<rparr>))
                 (\<lambda>_ w1. (Inr p, w1))
          else
            let r = run_fetch cfg ops index n w in
            case sm_find (w_pages (snd r)) index of
              Some p \<Rightarrow> inform_read cfg ops index p (snd r)
            | None \<Rightarrow> (case fst r of Inl e \<Rightarrow> (Inl e, snd r) | Inr _ \<Rightarrow> (Inl Hang, snd r)))"

text \<open>PageManager::ReadPage.\<close>

definition read_page :: "file_cfg \<Rightarrow> 's backend_ops \<Rightarrow> nat \<Rightarrow> nat \<Rightarrow> nat \<Rightarrow> 's world \<Rightarrow> (bytes, 's world) outcome" where
  "read_page cfg ops index offset len w =
     (if index * fc_psize cfg + offset + len > w_fsize w then (Inl AssertFailed, w)
      else bindE (get_page_read cfg ops index w) (\<lambda>p w1. (Inr (take len (drop offset (pg_data p))), w1)))"

section \<open>PageManager: truncating\<close>

text \<open>
  The loop of Truncate over the page map, by the keys of the map at its start: making room for
  a page that grows may have evicted a later one, which the iterator then does not reach.
\<close>

fun truncate_pages :: "file_cfg \<Rightarrow> 's backend_ops \<Rightarrow> nat \<Rightarrow> nat list \<Rightarrow> 's world \<Rightarrow> (unit, 's world) outcome" where
  "truncate_pages cfg ops new_size [] w = (Inr (), w)"
| "truncate_pages cfg ops new_size (k # ks) w =
     (if sm_find (w_pages w) k = None
      then truncate_pages cfg ops new_size ks w
      else if new_size = 0 \<or> k > (new_size - 1) div fc_psize cfg
      then truncate_pages cfg ops new_size ks (forget_page cfg k w)
      else if k = (new_size - 1) div fc_psize cfg
      then bindE (resize_cached cfg ops k (new_size - k * fc_psize cfg) w) (\<lambda>_. truncate_pages cfg ops new_size ks)
      else if page_len w k \<noteq> fc_psize cfg
      then bindE (resize_cached cfg ops k (fc_psize cfg) w) (\<lambda>_. truncate_pages cfg ops new_size ks)
      else truncate_pages cfg ops new_size ks w)"

definition truncate_file :: "file_cfg \<Rightarrow> 's backend_ops \<Rightarrow> nat \<Rightarrow> 's world \<Rightarrow> (unit, 's world) outcome" where
  "truncate_file cfg ops new_size w =
     bindE (backend_truncate ops new_size w) (\<lambda>_ w1.
       truncate_pages cfg ops new_size (map fst (w_pages w1)) (w1\<lparr>w_fsize := new_size\<rparr>))"

end
