(* ===== verification/Manager_Correct.thy ===== *)
theory Manager_Correct
  imports Page_Manager
begin

text \<open>
  What the page operations do to the bytes of the file: making room in the cache changes
  nothing, a read returns the bytes of the file, WritePage overlays its buffer and extends the
  file, Truncate cuts or extends it. The contract of making room (settles) is stated once and
  shared by all of them; on an exception the file is as before.
\<close>

section \<open>Making room\<close>

definition settles :: "file_cfg \<Rightarrow> ('s \<Rightarrow> bytes) \<Rightarrow> nat set \<Rightarrow> nat \<Rightarrow> 's world \<Rightarrow> 's world \<Rightarrow> bool" where
  "settles cfg content X key w w' \<longleftrightarrow>
     file_inv cfg content X w' \<and> cache_inv cfg w' \<and> file_view cfg content X w' = file_view cfg content X w \<and>
     w_fsize w' = w_fsize w \<and> (w_exists w \<longrightarrow> w_exists w') \<and> (\<forall>L. within cfg L w \<longrightarrow> within cfg L w') \<and>
     (key \<in> fst ` set (w_pages w) \<longrightarrow> key \<in> fst ` set (w_pages w')) \<and>
     (\<forall>k p'. map_of (w_pages w') k = Some p' \<longrightarrow>
        (\<exists>p. map_of (w_pages w) k = Some p \<and> pg_data p' = pg_data p \<and> (pg_dirty p' \<longrightarrow> pg_dirty p)))"

lemma settlesD:
  assumes "settles cfg content X key w w'"
  shows "file_inv cfg content X w'" "cache_inv cfg w'" "file_view cfg content X w' = file_view cfg content X w"
    "w_fsize w' = w_fsize w" "w_exists w \<Longrightarrow> w_exists w'" "within cfg L w \<Longrightarrow> within cfg L w'"
    "key \<in> fst ` set (w_pages w) \<Longrightarrow> key \<in> fst ` set (w_pages w')"
    "map_of (w_pages w') k = Some p' \<Longrightarrow>
       \<exists>p. map_of (w_pages w) k = Some p \<and> pg_data p' = pg_data p \<and> (pg_dirty p' \<longrightarrow> pg_dirty p)"
  using assms by (auto simp: settles_def)

lemma settles_refl: "file_inv cfg content X w \<Longrightarrow> cache_inv cfg w \<Longrightarrow> settles cfg content X key w w"
  by (auto simp: settles_def)

lemma settles_trans:
  assumes ab: "settles cfg content X key a b" and bc: "settles cfg content X key b c"
  shows "settles cfg content X key a c"
  unfolding settles_def
proof (intro conjI allI impI)
  fix k p' assume "map_of (w_pages c) k = Some p'"
  from settlesD(8) [OF bc this] obtain q where q: "map_of (w_pages b) k = Some q" "pg_data p' = pg_data q"
    "pg_dirty p' \<longrightarrow> pg_dirty q" by blast
  from settlesD(8) [OF ab q(1)] q(2,3)
  show "\<exists>p. map_of (w_pages a) k = Some p \<and> pg_data p' = pg_data p \<and> (pg_dirty p' \<longrightarrow> pg_dirty p)" by auto
qed (use settlesD [OF ab] settlesD [OF bc] in auto)

lemma trims_settles: "trims cfg content X K w w' \<Longrightarrow> key \<notin> K \<Longrightarrow> settles cfg content X key w w'"
  unfolding trims_def settles_def by blast

lemma set_cache_simps [simp]:
  "w_pages (set_cache c w) = w_pages w" "w_fsize (set_cache c w) = w_fsize w" "w_bsize (set_cache c w) = w_bsize w"
  "w_exists (set_cache c w) = w_exists w" "w_env (set_cache c w) = w_env w" "w_cache (set_cache c w) = c"
  "w_deferred (set_cache c w) = w_deferred w" "w_fetch (set_cache c w) = w_fetch w" "known X (set_cache c w) = known X w"
  "srv content (set_cache c w) = srv content w" "within cfg L (set_cache c w) = within cfg L w"
  "tail_ok cfg (set_cache c w) = tail_ok cfg w" "set_cache d (set_cache c w) = set_cache d w"
  by (simp_all add: set_cache_def known_def srv_def within_def tail_ok_def fun_eq_iff)

lemma set_cache_settles:
  assumes "file_inv cfg content X w" and "cache_inv cfg (set_cache c w)"
  shows "settles cfg content X key w (set_cache c w)"
  using assms by (auto simp: settles_def file_inv_def file_view_def sizes_ok_def clean_agrees_def backend_agrees_def)

text \<open>Every queue entry has a size, so being over a limit means there is a last entry.\<close>

lemma om_list_length: "om_ok q \<Longrightarrow> length (om_list q) = card (fst ` set (om_list q))"
  using om_list_distinct [of q] by (metis distinct_card length_map list.set_map)

lemma over_limit_back:
  assumes "om_ok q" and "keys_match (om_list q)" and "t = u64 (q_sum q)" and "n < t"
  obtains k i where "om_back q = Some (k, i)" "k = (pi_mgr i, pi_index i)" "k \<in> fst ` set (om_list q)"
proof -
  have ne: "om_list q \<noteq> []" using assms(3,4) by (auto simp: q_sum_def)
  obtain k i where l: "last (om_list q) = (k, i)" by (meson surj_pair)
  then have "(k, i) \<in> set (om_list q)" using ne last_in_set by metis
  then show ?thesis using that [of k i] ne l assms(2) by (force simp: om_back_list keys_match_def)
qed

lemma sync_evict_spec:
  fixes cfg key
  assumes ops: "backend_ok ops content" and X: "X \<subseteq> {key}" and mgr: "fc_cachemgr cfg"
  shows "file_inv cfg content X w \<Longrightarrow> cache_inv cfg w \<Longrightarrow> om_size (cm_pages (w_cache w)) < fuel \<Longrightarrow>
    (let r = sync_evict cfg ops key fuel w in
     settles cfg content X key w (snd r) \<and> (\<forall>e. fst r = Inl e \<longrightarrow> flush_fail cfg e) \<and>
     (fst r = Inr () \<longrightarrow> tail_ok cfg w \<longrightarrow> tail_ok cfg (snd r)))"
proof (induction fuel arbitrary: w)
  case (Suc fuel)
  note inv = Suc.prems(1) and cinv = Suc.prems(2)
  have cok: "cache_ok (w_cache w)" using cinv by (simp add: cache_inv_def)
  show ?case
  proof (cases "cm_should_evict (fc_opts cfg) (w_cache w)")
    case False
    then show ?thesis using settles_refl [OF inv cinv] by simp
  next
    case over: True
    obtain k i where b: "om_back (cm_pages (w_cache w)) = Some (k, i)" "k = (pi_mgr i, pi_index i)"
      "k \<in> cm_keys (w_cache w)"
      using cok over over_limit_back [of "cm_pages (w_cache w)" "cm_total (w_cache w)" "co_memory_limit (fc_opts cfg)"]
      unfolding cm_should_evict_def cm_keys_def cache_ok_def by blast
    show ?thesis
    proof (cases "pi_mgr i = fc_me cfg \<and> k \<noteq> (fc_me cfg, key)")
      case False
      then show ?thesis using settles_refl [OF inv cinv] over b by simp
    next
      case True
      then have idx: "pi_index i \<notin> X" "key \<notin> {pi_index i}" using X b(2) by auto
      define r1 where "r1 = evict_page cfg ops (pi_index i) w"
      note ev = evict_page_spec [OF ops inv cinv idx(1), folded r1_def]
      have step: "sync_evict cfg ops key (Suc fuel) w = bindE r1 (\<lambda>_. sync_evict cfg ops key fuel)"
        using over b True by (simp add: r1_def)
      have s1: "settles cfg content X key w (snd r1)" by (rule trims_settles [OF ev(1) idx(2)])
      show ?thesis
      proof (cases "fst r1")
        case (Inl e)
        then show ?thesis using s1 ev(2) unfolding step by (simp add: bindE_cases)
      next
        case (Inr u)
        then have gone: "(fc_me cfg, pi_index i) \<notin> cm_keys (w_cache (snd r1))"
          and tl: "tail_ok cfg w \<longrightarrow> tail_ok cfg (snd r1)" using ev(3) mgr by auto
        have c1: "cache_ok (w_cache (snd r1))" and sub: "cm_keys (w_cache (snd r1)) \<subseteq> cm_keys (w_cache w)"
          using trimsD(7) [OF ev(1)] cok by (auto simp: cm_shrinks_def)
        have "cm_keys (w_cache (snd r1)) \<subset> cm_keys (w_cache w)" using gone sub b(2,3) True by auto
        then have "card (cm_keys (w_cache (snd r1))) < card (cm_keys (w_cache w))"
          by (intro psubset_card_mono) (simp_all add: cm_keys_def)
        then have "om_size (cm_pages (w_cache (snd r1))) < om_size (cm_pages (w_cache w))"
          using cok c1 by (simp add: om_size_list om_list_length cm_keys_def cache_ok_def)
        then have "om_size (cm_pages (w_cache (snd r1))) < fuel" using Suc.prems(3) by simp
        from Suc.IH [OF settlesD(1,2) [OF s1] this]
        show ?thesis unfolding step using Inr tl settles_trans [OF s1] by (simp add: bindE_cases Let_def)
      qed
    qed
  qed
qed simp

lemma note_flush_settles:
  assumes inv: "file_inv cfg content X w" and cinv: "cache_inv cfg w"
  shows "settles cfg content X key w (set_cache (cm_note_flush n t (w_cache w)) w)"
  by (rule set_cache_settles [OF inv]) (use cinv in \<open>simp add: cache_inv_def\<close>)

lemma sync_flush_spec:
  fixes cfg key
  assumes ops: "backend_ok ops content" and mgr: "fc_cachemgr cfg"
  shows "file_inv cfg content X w \<Longrightarrow> cache_inv cfg w \<Longrightarrow> om_size (cm_dirty (w_cache w)) < fuel \<Longrightarrow>
    (let r = sync_flush cfg ops key fuel w in
     settles cfg content X key w (snd r) \<and> (\<forall>e. fst r = Inl e \<longrightarrow> flush_fail cfg e) \<and>
     (fst r = Inr () \<longrightarrow> tail_ok cfg w \<longrightarrow> tail_ok cfg (snd r)))"
proof (induction fuel arbitrary: w)
  case (Suc fuel)
  note inv = Suc.prems(1) and cinv = Suc.prems(2)
  have cok: "cache_ok (w_cache w)" using cinv by (simp add: cache_inv_def)
  show ?case
  proof (cases "cm_should_flush (w_cache w)")
    case False
    then show ?thesis using settles_refl [OF inv cinv] by simp
  next
    case over: True
    obtain k i where b: "om_back (cm_dirty (w_cache w)) = Some (k, i)" "k = (pi_mgr i, pi_index i)"
      "k \<in> cm_dirty_keys (w_cache w)"
      using cok over over_limit_back [of "cm_dirty (w_cache w)" "cm_cur_dirty (w_cache w)" "cm_dirty_limit (w_cache w)"]
      unfolding cm_should_flush_def cm_dirty_keys_def cache_ok_def by blast
    show ?thesis
    proof (cases "pi_mgr i = fc_me cfg \<and> k \<noteq> (fc_me cfg, key)")
      case False
      then show ?thesis using settles_refl [OF inv cinv] over b by simp
    next
      case True
      define r1 where "r1 = flush_page cfg ops (pi_index i) w"
      note fl = flush_page_spec [OF ops inv cinv, of "pi_index i", folded r1_def]
      define r2 where "r2 = cm_flush_page cfg ops (pi_index i) w"
      have step: "sync_flush cfg ops key (Suc fuel) w = bindE r2 (\<lambda>_. sync_flush cfg ops key fuel)"
        using over b True by (simp add: r2_def)
      have s1: "settles cfg content X key w (snd r1)" by (rule trims_settles [OF fl(1)]) simp
      show ?thesis
      proof (cases "fst r1")
        case (Inl e)
        then have "r2 = (Inl e, snd r1)" by (simp add: r2_def cm_flush_page_def r1_def [symmetric] bindE_cases)
        then show ?thesis using s1 fl(2) [OF Inl] unfolding step by simp
      next
        case (Inr n)
        define w2 where "w2 = set_cache (cm_note_flush n (op_target ops (w_env (snd r1)) n) (w_cache (snd r1))) (snd r1)"
        have r2: "r2 = (Inr (), w2)" using Inr
          by (simp add: r2_def cm_flush_page_def r1_def [symmetric] bindE_cases w2_def)
        have s2: "settles cfg content X key w w2"
          unfolding w2_def by (rule settles_trans [OF s1 note_flush_settles [OF settlesD(1,2) [OF s1]]])
        have gone: "(fc_me cfg, pi_index i) \<notin> cm_dirty_keys (w_cache w2)"
          and tl: "tail_ok cfg w \<longrightarrow> tail_ok cfg w2" using fl(3) [OF Inr] mgr by (auto simp: w2_def)
        have c1: "cache_ok (w_cache w2)" and sub: "cm_dirty_keys (w_cache w2) \<subseteq> cm_dirty_keys (w_cache w)"
          using trimsD(7) [OF fl(1)] cok by (auto simp: cm_shrinks_def w2_def)
        have "cm_dirty_keys (w_cache w2) \<subset> cm_dirty_keys (w_cache w)" using gone sub b(2,3) True by auto
        then have "card (cm_dirty_keys (w_cache w2)) < card (cm_dirty_keys (w_cache w))"
          by (intro psubset_card_mono) (simp_all add: cm_dirty_keys_def)
        then have "om_size (cm_dirty (w_cache w2)) < om_size (cm_dirty (w_cache w))"
          using cok c1 by (simp add: om_size_list om_list_length cm_dirty_keys_def cache_ok_def)
        then have "om_size (cm_dirty (w_cache w2)) < fuel" using Suc.prems(3) by simp
        from Suc.IH [OF settlesD(1,2) [OF s2] this]
        show ?thesis unfolding step r2 using tl settles_trans [OF s2] by (simp add: Let_def)
      qed
    qed
  qed
qed simp

text \<open>Waiting for the cleanup threads, which cannot touch this file.\<close>

lemma only_others_cache_inv:
  assumes cinv: "cache_inv cfg w" and oth: "only_others (fc_me cfg) (w_cache w) c'"
  shows "cache_inv cfg (set_cache c' w)"
proof -
  have "cache_ok c'" and same: "{k \<in> cm_keys c'. fst k = fc_me cfg} = {k \<in> cm_keys (w_cache w). fst k = fc_me cfg}"
    using assms by (auto simp: cache_inv_def only_others_def)
  moreover have "(fc_me cfg, k) \<in> cm_keys (w_cache w)" if "(fc_me cfg, k) \<in> cm_keys c'" for k
    using same that by (auto simp: set_eq_iff)
  ultimately show ?thesis using cinv by (simp add: cache_inv_def)
qed

lemma cache_flags [simp]:
  "cache_ok (c\<lparr>cm_evict_failure := e\<rparr>) = cache_ok c" "cm_keys (c\<lparr>cm_evict_failure := e\<rparr>) = cm_keys c"
  "cm_dirty_keys (c\<lparr>cm_evict_failure := e\<rparr>) = cm_dirty_keys c"
  "cache_ok (c\<lparr>cm_flush_failure := e\<rparr>) = cache_ok c" "cm_keys (c\<lparr>cm_flush_failure := e\<rparr>) = cm_keys c"
  "cm_dirty_keys (c\<lparr>cm_flush_failure := e\<rparr>) = cm_dirty_keys c"
  by (simp_all add: cache_ok_def cm_keys_def cm_dirty_keys_def)

lemma set_cache_inv: "cache_inv cfg (set_cache c w) \<longleftrightarrow>
    cache_ok c \<and> (fc_cachemgr cfg \<longrightarrow> (\<forall>k. (fc_me cfg, k) \<in> cm_keys c \<longrightarrow> k \<in> fst ` set (w_pages w)))"
  by (simp add: cache_inv_def)

definition settled :: "file_cfg \<Rightarrow> ('s \<Rightarrow> bytes) \<Rightarrow> nat set \<Rightarrow> nat \<Rightarrow> 's world \<Rightarrow> (unit, 's world) outcome \<Rightarrow> bool" where
  "settled cfg content X key w r \<longleftrightarrow>
     settles cfg content X key w (snd r) \<and> (\<forall>e. fst r = Inl e \<longrightarrow> flush_fail cfg e) \<and>
     (fst r = Inr () \<longrightarrow> tail_ok cfg w \<longrightarrow> tail_ok cfg (snd r))"

lemma settled_bind:
  assumes r: "settled cfg content X key w r"
    and f: "\<And>w'. settles cfg content X key w w' \<Longrightarrow> settled cfg content X key w' (f () w')"
  shows "settled cfg content X key w (bindE r f)"
proof (cases "fst r")
  case (Inl e)
  then show ?thesis using r by (simp add: settled_def bindE_cases)
next
  case (Inr u)
  have s: "settles cfg content X key w (snd r)" using r by (simp add: settled_def)
  show ?thesis using f [OF s] r Inr settles_trans [OF s] by (simp add: settled_def bindE_cases)
qed

lemma settled_done: "file_inv cfg content X w \<Longrightarrow> cache_inv cfg w \<Longrightarrow> settled cfg content X key w (Inr (), w)"
  by (simp add: settled_def settles_refl)

lemma settled_cache:
  assumes inv: "file_inv cfg content X w" and c: "cache_inv cfg (set_cache c w)"
    and r: "r = (Inr (), set_cache c w) \<or> (\<exists>e. r = (Inl e, set_cache c w) \<and> ext_fail e)"
  shows "settled cfg content X key w r"
  using set_cache_settles [OF inv c, of key] r ext_flush_fail by (auto simp: settled_def)

lemma await_evict_settled:
  assumes ops: "backend_ok ops content" and inv: "file_inv cfg content X w" and cinv: "cache_inv cfg w"
  shows "settled cfg content X key w (await_evict cfg ops w)"
proof (cases "fc_threads cfg")
  case True
  define c where "c = (w_cache w)\<lparr>cm_evict_failure := None\<rparr>"
  have c1: "cache_inv cfg (set_cache c w)" using cinv by (simp add: set_cache_inv c_def cache_inv_def)
  obtain x c' where wt: "op_wait_evict ops (fc_me cfg) (w_env w) c = (x, c')" by force
  have wok: "only_others (fc_me cfg) c c'" "\<forall>e. x = Some e \<longrightarrow> ext_fail e"
    using ops wt unfolding backend_ok_def wait_ok_def by (metis fst_conv snd_conv)+
  have c2: "cache_inv cfg (set_cache c' w)"
    using only_others_cache_inv [OF c1, of c'] wok(1) by simp
  have a: "cm_should_await_evict (fc_opts cfg) (fc_me cfg) c \<noteq> Inl e" for e
    by (simp add: cm_should_await_evict_def c_def Let_def)
  show ?thesis
    using settled_cache [OF inv c1] settled_cache [OF inv c2] wok(2) a
    by (cases "cm_should_await_evict (fc_opts cfg) (fc_me cfg) c"; cases x)
      (auto simp: await_evict_def True Let_def c_def [symmetric] wt split: bool.splits)
qed (simp add: await_evict_def settled_done [OF inv cinv])

lemma await_flush_settled:
  assumes ops: "backend_ok ops content" and inv: "file_inv cfg content X w" and cinv: "cache_inv cfg w"
  shows "settled cfg content X key w (await_flush cfg ops w)"
proof (cases "fc_threads cfg")
  case True
  define c where "c = (w_cache w)\<lparr>cm_flush_failure := None\<rparr>"
  have c1: "cache_inv cfg (set_cache c w)" using cinv by (simp add: set_cache_inv c_def cache_inv_def)
  obtain x c' where wt: "op_wait_flush ops (fc_me cfg) (w_env w) c = (x, c')" by force
  have wok: "only_others (fc_me cfg) c c'" "\<forall>e. x = Some e \<longrightarrow> ext_fail e"
    using ops wt unfolding backend_ok_def wait_ok_def by (metis fst_conv snd_conv)+
  have c2: "cache_inv cfg (set_cache c' w)"
    using only_others_cache_inv [OF c1, of c'] wok(1) by simp
  have a: "cm_should_await_flush (fc_me cfg) c \<noteq> Inl e" for e
    by (simp add: cm_should_await_flush_def c_def Let_def)
  show ?thesis
    using settled_cache [OF inv c1] settled_cache [OF inv c2] wok(2) a
    by (cases "cm_should_await_flush (fc_me cfg) c"; cases x)
      (auto simp: await_flush_def True Let_def c_def [symmetric] wt split: bool.splits)
qed (simp add: await_flush_def settled_done [OF inv cinv])

lemma handle_memory_settled:
  assumes ops: "backend_ok ops content" and X: "X \<subseteq> {key}" and mgr: "fc_cachemgr cfg"
    and inv: "file_inv cfg content X w" and cinv: "cache_inv cfg w"
  shows "settled cfg content X key w (handle_memory cfg ops key can_wait w_lock w)"
  unfolding handle_memory_def
proof (rule settled_bind)
  show "settled cfg content X key w
      (if w_lock \<and> can_wait then sync_evict cfg ops key (Suc (om_size (cm_pages (w_cache w)))) w else (Inr (), w))"
    using sync_evict_spec [OF ops X mgr inv cinv lessI] settled_done [OF inv cinv] by (simp add: settled_def Let_def)
  fix w' assume s: "settles cfg content X key w w'"
  show "settled cfg content X key w' (if can_wait then await_evict cfg ops w' else (Inr (), w'))"
    using await_evict_settled [OF ops settlesD(1,2) [OF s]] settled_done [OF settlesD(1,2) [OF s]] by simp
qed

lemma handle_dirty_memory_settled:
  assumes ops: "backend_ok ops content" and mgr: "fc_cachemgr cfg"
    and inv: "file_inv cfg content X w" and cinv: "cache_inv cfg w"
  shows "settled cfg content X key w (handle_dirty_memory cfg ops key can_wait w_lock w)"
  unfolding handle_dirty_memory_def
proof (rule settled_bind)
  show "settled cfg content X key w
      (if w_lock \<and> can_wait then sync_flush cfg ops key (Suc (om_size (cm_dirty (w_cache w)))) w else (Inr (), w))"
    using sync_flush_spec [OF ops mgr inv cinv lessI] settled_done [OF inv cinv] by (simp add: settled_def Let_def)
  fix w' assume s: "settles cfg content X key w w'"
  show "settled cfg content X key w' (if can_wait then await_flush cfg ops w' else (Inr (), w'))"
    using await_flush_settled [OF ops settlesD(1,2) [OF s]] settled_done [OF settlesD(1,2) [OF s]] by simp
qed

lemmas room = handle_memory_settled handle_dirty_memory_settled

section \<open>Informing the cache\<close>

lemma inform_page_settled:
  assumes ops: "backend_ok ops content" and X: "X \<subseteq> {index}" and mgr: "fc_cachemgr cfg"
    and inv: "file_inv cfg content X w" and cinv: "cache_inv cfg w" and k: "index \<in> fst ` set (w_pages w)"
  shows "settled cfg content X index w (cm_inform_page cfg ops index dirty can_wait w_lock w)"
proof -
  obtain old c where e: "cm_enqueue_page (fc_me cfg) index (page_cap cfg w index) dirty (w_cache w) = (old, c)" by force
  have "cache_ok c \<and> cm_keys c = insert (fc_me cfg, index) (cm_keys (w_cache w))"
    using cm_enqueue_ok [of "w_cache w" "fc_me cfg" index "page_cap cfg w index" dirty] e cinv
    by (simp add: cache_inv_def)
  then have c1: "cache_inv cfg (set_cache c w)" using cinv k by (auto simp: set_cache_inv cache_inv_def)
  have s1: "settled cfg content X index w (Inr (), set_cache c w)" by (rule settled_cache [OF inv c1]) simp
  note s2 = set_cache_settles [OF inv c1, of index]
  have "settled cfg content X index w (bindE (Inr (), set_cache c w) (\<lambda>_ w1.
      bindE (handle_memory cfg ops index can_wait w_lock w1) (\<lambda>_ w2.
        if dirty then handle_dirty_memory cfg ops index can_wait w_lock w2 else (Inr (), w2))))"
    by (intro settled_bind [OF s1] settled_bind [OF handle_memory_settled [OF ops X mgr]])
      (auto intro: handle_dirty_memory_settled [OF ops mgr] settled_done dest: settlesD(1,2))
  then show ?thesis using s1 by (simp add: cm_inform_page_def Let_def e)
qed

lemma resize_queue_inv:
  assumes "cache_inv cfg w"
  shows "cache_inv cfg (set_cache (snd (cm_resize_total k n (w_cache w))) w)"
    and "cache_inv cfg (set_cache (snd (cm_resize_dirty k n (w_cache w))) w)"
  using assms by (simp_all add: cache_inv_def cm_resize_total_ok cm_resize_dirty_ok)

lemma resize_page_settled:
  assumes ops: "backend_ok ops content" and X: "X \<subseteq> {index}" and mgr: "fc_cachemgr cfg"
    and inv: "file_inv cfg content X w" and cinv: "cache_inv cfg w"
  shows "settled cfg content X index w (cm_resize_page cfg ops index w_lock w)"
proof -
  let ?n = "page_cap cfg w index"
  obtain g c where e: "cm_resize_total (fc_me cfg, index) ?n (w_cache w) = (g, c)" by force
  have c1: "cache_inv cfg (set_cache c w)" using resize_queue_inv(1) [OF cinv, of "(fc_me cfg, index)" ?n] e by simp
  have s1: "settled cfg content X index w (Inr (), set_cache c w)" by (rule settled_cache [OF inv c1]) simp
  have dirty: "settled cfg content X index w2 (let (g2, c2) = cm_resize_dirty (fc_me cfg, index) ?n (w_cache w2);
         w3 = set_cache c2 w2
       in if g2 then handle_dirty_memory cfg ops index True w_lock w3 else (Inr (), w3))"
    if inv2: "file_inv cfg content X w2" and cinv2: "cache_inv cfg w2" for w2
  proof -
    obtain g2 c2 where e2: "cm_resize_dirty (fc_me cfg, index) ?n (w_cache w2) = (g2, c2)" by force
    have c3: "cache_inv cfg (set_cache c2 w2)"
      using resize_queue_inv(2) [OF cinv2, of "(fc_me cfg, index)" ?n] e2 by simp
    have s3: "settled cfg content X index w2 (Inr (), set_cache c2 w2)" by (rule settled_cache [OF inv2 c3]) simp
    have "settled cfg content X index w2 (bindE (Inr (), set_cache c2 w2)
        (\<lambda>_. handle_dirty_memory cfg ops index True w_lock))"
      by (intro settled_bind [OF s3]) (auto intro: handle_dirty_memory_settled [OF ops mgr] dest: settlesD(1,2))
    then show ?thesis using s3 by (simp add: e2 Let_def)
  qed
  have "settled cfg content X index w (bindE (Inr (), set_cache c w) (\<lambda>_ w1.
      bindE (if g then handle_memory cfg ops index True w_lock w1 else (Inr (), w1)) (\<lambda>_ w2.
       let (g2, c2) = cm_resize_dirty (fc_me cfg, index) ?n (w_cache w2);
         w3 = set_cache c2 w2
       in if g2 then handle_dirty_memory cfg ops index True w_lock w3 else (Inr (), w3))))"
    by (intro settled_bind [OF s1] settled_bind dirty)
      (auto intro: handle_memory_settled [OF ops X mgr] settled_done dest: settlesD(1,2))
  then show ?thesis by (simp add: cm_resize_page_def Let_def e)
qed

end
