(* ===== verification/Write_Correct.thy ===== *)
theory Write_Correct
  imports Manager_Correct
begin

text \<open>
  WritePage and Truncate of PageManager: on success the file stands for the old bytes with the
  buffer laid over them (or cut, or extended with zeroes), on an exception for the old bytes.
\<close>

section \<open>Unchanged files\<close>

text \<open>What holds after an operation that failed, or one that only reads.\<close>

definition unchanged :: "file_cfg \<Rightarrow> ('s \<Rightarrow> bytes) \<Rightarrow> 's world \<Rightarrow> 's world \<Rightarrow> bool" where
  "unchanged cfg content w w' \<longleftrightarrow>
     file_inv cfg content {} w' \<and> cache_inv cfg w' \<and> file_view cfg content {} w' = file_view cfg content {} w \<and>
     w_fsize w' = w_fsize w"

lemma unchanged_trans: "unchanged cfg content a b \<Longrightarrow> unchanged cfg content b c \<Longrightarrow> unchanged cfg content a c"
  by (simp add: unchanged_def)

lemma settles_unchanged: "settles cfg content {} key w w' \<Longrightarrow> unchanged cfg content w w'"
  by (simp add: settles_def unchanged_def)

section \<open>Resizing a page of the file\<close>

lemma resize_only_simps [simp]:
  "w_fsize (resize_only cfg ops k n w) = w_fsize w" "w_bsize (resize_only cfg ops k n w) = w_bsize w"
  "w_exists (resize_only cfg ops k n w) = w_exists w" "w_env (resize_only cfg ops k n w) = w_env w"
  "w_cache (resize_only cfg ops k n w) = w_cache w" "w_fetch (resize_only cfg ops k n w) = w_fetch w"
  "map fst (w_pages (resize_only cfg ops k n w)) = map fst (w_pages w)"
  "smap_ok (w_pages (resize_only cfg ops k n w)) = smap_ok (w_pages w)"
  "srv content (resize_only cfg ops k n w) = srv content w"
  by (simp_all add: resize_only_def srv_def fun_eq_iff)

lemma resize_only_pages:
  "map_of (w_pages (resize_only cfg ops k n w)) a =
     (if a = k then map_option (\<lambda>p. p\<lparr>pg_data := resize_bytes (pg_data p) n\<rparr>) (map_of (w_pages w) k)
      else map_of (w_pages w) a)"
proof -
  have "resize_zeroed os junk n p = p\<lparr>pg_data := resize_bytes (pg_data p) n\<rparr>" for os junk and p :: page
  proof -
    have "pg_dirty (resize_zeroed os junk n p) = pg_dirty p" "pg_data (resize_zeroed os junk n p) = resize_bytes (pg_data p) n"
      by (simp_all add: resize_zeroed_data)
    then show ?thesis by (cases "resize_zeroed os junk n p"; cases p) simp
  qed
  note eq = this
  show ?thesis by (cases "map_of (w_pages w) k") (simp_all add: resize_only_def eq)
qed

lemma keys_resize_only [simp]: "fst ` set (w_pages (resize_only cfg ops k n w)) = fst ` set (w_pages w)"
  by (metis list.set_map resize_only_simps(7))

lemma mem_map_of: "smap_ok m \<Longrightarrow> (k, p) \<in> set m \<longleftrightarrow> map_of m k = Some p"
  by (metis in_sm_find map_of_SomeD)

text \<open>A new size that still covers the file does not change its bytes.\<close>

lemma resize_only_inv:
  assumes inv: "file_inv cfg content X w" and cinv: "cache_inv cfg w" and kX: "k \<notin> X"
    and n: "min (fc_psize cfg) (w_fsize w - k * fc_psize cfg) \<le> n" "n \<le> fc_psize cfg"
  shows "file_inv cfg content X (resize_only cfg ops k n w)" (is "file_inv _ _ _ ?w'")
    and "cache_inv cfg (resize_only cfg ops k n w)"
    and "file_view cfg content X (resize_only cfg ops k n w) = file_view cfg content X w"
proof -
  note iD = file_invD [OF inv]
  have mem': "(a, q) \<in> set (w_pages ?w') \<longleftrightarrow> (\<exists>p. (a, p) \<in> set (w_pages w) \<and>
      q = (if a = k then p\<lparr>pg_data := resize_bytes (pg_data p) n\<rparr> else p))" for a q
    using iD(2) by (auto simp: mem_map_of resize_only_pages)
  have same: "nth0 (resize_bytes (pg_data p) n) j = nth0 (pg_data p) j"
    if "(k, p) \<in> set (w_pages w)" "j < fc_psize cfg" for p j
  proof (cases "j < n")
    case False
    then have "w_fsize w \<le> k * fc_psize cfg + j" using n(1) that(2) by linarith
    then have "nth0 (pg_data p) j = 0"
      using iD(7) file_view_page [OF inv, of k p j] that kX by simp
    then show ?thesis by (simp add: nth0_resize_bytes False)
  qed (simp add: nth0_resize_bytes)
  show view': "file_view cfg content X ?w' = file_view cfg content X w"
  proof
    fix i
    have m: "i mod fc_psize cfg < fc_psize cfg" using iD(1) by simp
    show "file_view cfg content X ?w' i = file_view cfg content X w i"
      using same [OF _ m] by (auto simp: file_view_def view_def map_of_known resize_only_pages
          dest: map_of_SomeD split: option.splits)
  qed
  have sizes: "sizes_ok cfg X ?w'" unfolding sizes_ok_def
  proof (clarify, goal_cases)
    case (1 a q)
    then obtain p where p: "(a, p) \<in> set (w_pages w)" "a \<notin> X"
      "q = (if a = k then p\<lparr>pg_data := resize_bytes (pg_data p) n\<rparr> else p)" by (auto simp: mem')
    then show ?case using sizes_okD [OF iD(3), of a p] n by (auto simp: pg_size_def)
  qed
  have "clean_agrees cfg content X ?w'" unfolding clean_agrees_def
  proof (clarify, goal_cases)
    case (1 a q j)
    then obtain p where p: "(a, p) \<in> set (w_pages w)" "a \<notin> X"
      "q = (if a = k then p\<lparr>pg_data := resize_bytes (pg_data p) n\<rparr> else p)" by (auto simp: mem')
    then have "nth0 (pg_data q) j = nth0 (pg_data p) j" using same 1(3) by auto
    moreover have "nth0 (pg_data p) j = srv content w (a * fc_psize cfg + j)"
      using iD(5,10) p 1(2,3) by (fastforce simp: clean_agrees_def split: if_splits)
    ultimately show ?case by simp
  qed
  moreover have "\<not> pg_dirty q" if "(a, q) \<in> set (w_pages ?w')" "a \<in> X" for a q
    using that iD(9,10) by (auto simp: mem' split: if_splits)
  ultimately show "file_inv cfg content X ?w'"
    unfolding file_inv_def view' using iD(1-8,10) sizes by (auto simp: backend_agrees_def)
  show "cache_inv cfg ?w'" using cinv by (simp add: cache_inv_def)
qed

lemma page_len_map: "map_of (w_pages w) k = Some p \<Longrightarrow> page_len w k = pg_size p"
  by (simp add: page_len_def sm_find_def)

text \<open>
  InformResizePage and ResizePage with the cache: on success the page has the new size and
  room was made, on an exception it has its old size back and the file is unchanged.
\<close>

lemma resize_back:
  assumes inv: "file_inv cfg content {} w" and s: "settles cfg content {} k (resize_only cfg ops k n w) w2"
    and p: "map_of (w_pages w) k = Some p" and n: "min (fc_psize cfg) (w_fsize w - k * fc_psize cfg) \<le> n" "n \<le> fc_psize cfg"
    and cinv: "cache_inv cfg w"
  shows "unchanged cfg content w (resize_only cfg ops k (pg_size p) w2)"
proof -
  have kp: "(k, p) \<in> set (w_pages w)" using p by (rule map_of_SomeD)
  have sz: "min (fc_psize cfg) (w_fsize w - k * fc_psize cfg) \<le> pg_size p" "pg_size p \<le> fc_psize cfg"
    using sizes_okD(2,3) [OF file_invD(3) [OF inv], of k p] kp by auto
  note r = resize_only_inv(3) [OF inv cinv, where k = k and n = n and ops = ops]
  have "w_fsize w2 = w_fsize w" using settlesD(4) [OF s] by simp
  then show ?thesis
    using resize_only_inv [OF settlesD(1,2) [OF s], where k = k and n = "pg_size p" and ops = ops] sz r n settlesD(3) [OF s]
    by (simp add: unchanged_def)
qed

lemma inform_resize_spec:
  fixes cfg dirty
  assumes ops: "backend_ok ops content" and inv: "file_inv cfg content {} w" and cinv: "cache_inv cfg w"
    and p: "map_of (w_pages w) k = Some p" and n: "min (fc_psize cfg) (w_fsize w - k * fc_psize cfg) \<le> n" "n \<le> fc_psize cfg"
  defines "r \<equiv> inform_resize_page cfg ops k dirty n w"
  shows "fst r = Inl e \<Longrightarrow> unchanged cfg content w (snd r) \<and> flush_fail cfg e"
    and "fst r = Inr () \<Longrightarrow> settles cfg content {} k (resize_only cfg ops k n w) (snd r) \<and>
           (tail_ok cfg (resize_only cfg ops k n w) \<longrightarrow> tail_ok cfg (snd r))"
proof -
  define w1 where "w1 = resize_only cfg ops k n w"
  note ri = resize_only_inv [OF inv cinv _ n, of ops, folded w1_def]
  have i1: "file_inv cfg content {} w1" "cache_inv cfg w1" using ri(1,2) n by simp_all
  have k1: "k \<in> fst ` set (w_pages w1)" using p by (metis keys_resize_only w1_def map_of_eq_None_iff option.distinct(1))
  have "(\<forall>e. fst r = Inl e \<longrightarrow> unchanged cfg content w (snd r) \<and> flush_fail cfg e) \<and>
    (fst r = Inr () \<longrightarrow> settles cfg content {} k w1 (snd r) \<and> (tail_ok cfg w1 \<longrightarrow> tail_ok cfg (snd r)))"
  proof (cases "informed cfg")
    case False
    then show ?thesis using settles_refl [OF i1] by (simp add: r_def inform_resize_page_def w1_def Let_def)
  next
    case True
    then have mgr: "fc_cachemgr cfg" by (simp add: informed_def)
    define r1 where "r1 = cm_inform_page cfg ops k dirty True True w1"
    have s1: "settled cfg content {} k w1 r1"
      unfolding r1_def by (rule inform_page_settled [OF ops _ mgr i1 k1]) simp
    show ?thesis
    proof (cases "fst r1")
      case (Inl e)
      define w3 where "w3 = resize_only cfg ops k (pg_size p) (snd r1)"
      have u: "unchanged cfg content w w3" unfolding w3_def
        by (rule resize_back [OF inv _ p n cinv]) (use s1 in \<open>simp add: settled_def w1_def\<close>)
      have s3: "settled cfg content {} k w3 (cm_resize_page cfg ops k True w3)"
        using u by (intro resize_page_settled [OF ops _ mgr]) (auto simp: unchanged_def)
      have "r = bindE (cm_resize_page cfg ops k True w3) (\<lambda>_ w3. (Inl e, w3))"
        using Inl True p by (simp add: r_def inform_resize_page_def w1_def [symmetric] r1_def [symmetric] Let_def catchE_cases
            page_len_map w3_def)
      then show ?thesis using s1 s3 Inl unchanged_trans [OF u settles_unchanged]
        by (cases "fst (cm_resize_page cfg ops k True w3)") (auto simp: bindE_cases settled_def)
    next
      case (Inr u)
      then show ?thesis using s1 True
        by (simp add: r_def inform_resize_page_def w1_def [symmetric] r1_def [symmetric] Let_def catchE_cases settled_def)
    qed
  qed
  then show "fst r = Inl e \<Longrightarrow> unchanged cfg content w (snd r) \<and> flush_fail cfg e"
    and "fst r = Inr () \<Longrightarrow> settles cfg content {} k (resize_only cfg ops k n w) (snd r) \<and>
           (tail_ok cfg (resize_only cfg ops k n w) \<longrightarrow> tail_ok cfg (snd r))"
    by (auto simp: w1_def)
qed

text \<open>Shrinking a page back with Page::resize is the same as with ResizePage.\<close>

lemma page_resize_shrink: "n \<le> pg_size p \<Longrightarrow> page_resize os junk n p = resize_zeroed os junk' n p"
  by (cases "pg_size p = n")
    (auto simp: resize_zeroed_def page_resize_def pg_size_def splice_def Let_def min_def)

lemma resize_cached_spec:
  fixes cfg
  assumes ops: "backend_ok ops content" and inv: "file_inv cfg content {} w" and cinv: "cache_inv cfg w"
    and p: "map_of (w_pages w) k = Some p" and n: "min (fc_psize cfg) (w_fsize w - k * fc_psize cfg) \<le> n" "n \<le> fc_psize cfg"
  defines "r \<equiv> resize_cached cfg ops k n w"
  shows "fst r = Inl e \<Longrightarrow> pg_size p \<le> n \<Longrightarrow> unchanged cfg content w (snd r) \<and> flush_fail cfg e"
    and "fst r = Inr () \<Longrightarrow> settles cfg content {} k (resize_only cfg ops k n w) (snd r) \<and>
           (tail_ok cfg (resize_only cfg ops k n w) \<longrightarrow> tail_ok cfg (snd r))"
proof -
  define w1 where "w1 = resize_only cfg ops k n w"
  note ri = resize_only_inv [OF inv cinv _ n, of ops, folded w1_def]
  have i1: "file_inv cfg content {} w1" "cache_inv cfg w1" using ri(1,2) n by simp_all
  have same: "w1 = w" if "pg_size p = n"
  proof -
    have "page_update k (resize_zeroed (fc_os cfg) (op_junk ops (w_env w)) n) (w_pages w) = w_pages w"
      unfolding page_update_alt
    proof (intro map_idI, clarify, goal_cases)
      case (1 a q)
      then show ?case using in_sm_find [OF file_invD(2) [OF inv] 1] p that by (auto simp: resize_zeroed_def Let_def)
    qed
    then show ?thesis by (simp add: w1_def resize_only_def)
  qed
  have "(\<forall>e. fst r = Inl e \<longrightarrow> pg_size p \<le> n \<longrightarrow> unchanged cfg content w (snd r) \<and> flush_fail cfg e) \<and>
    (fst r = Inr () \<longrightarrow> settles cfg content {} k w1 (snd r) \<and> (tail_ok cfg w1 \<longrightarrow> tail_ok cfg (snd r)))"
  proof (cases "pg_size p = n \<or> \<not> fc_cachemgr cfg")
    case True
    then show ?thesis using settles_refl [OF i1] same p
      by (auto simp: r_def resize_cached_def page_len_map w1_def [symmetric] Let_def)
  next
    case False
    then have mgr: "fc_cachemgr cfg" by simp
    define r1 where "r1 = cm_resize_page cfg ops k True w1"
    have s1: "settled cfg content {} k w1 r1"
      unfolding r1_def by (rule resize_page_settled [OF ops _ mgr i1]) simp
    show ?thesis
    proof (cases "fst r1")
      case (Inl e)
      define w3 where "w3 = (snd r1)\<lparr>w_pages := page_update k (page_resize (fc_os cfg) (op_junk ops (w_env (snd r1))) (pg_size p)) (w_pages (snd r1))\<rparr>"
      have r: "r = bindE (cm_resize_page cfg ops k True w3) (\<lambda>_ w3. (Inl e, w3))"
        using Inl False p by (simp add: r_def resize_cached_def w1_def [symmetric] r1_def [symmetric] Let_def catchE_cases
            page_len_map w3_def)
      have "unchanged cfg content w (snd r) \<and> (\<forall>e. fst r = Inl e \<longrightarrow> flush_fail cfg e)" if le: "pg_size p \<le> n"
      proof -
        have s: "settles cfg content {} k (resize_only cfg ops k n w) (snd r1)" using s1 by (simp add: settled_def w1_def)
        have "w3 = resize_only cfg ops k (pg_size p) (snd r1)"
        proof -
          have "page_update k (page_resize (fc_os cfg) j (pg_size p)) (w_pages (snd r1)) =
              page_update k (resize_zeroed (fc_os cfg) j (pg_size p)) (w_pages (snd r1))" for j
            unfolding page_update_alt
          proof (intro map_cong refl, clarify, goal_cases)
            case (1 a q)
            then have "map_of (w_pages (snd r1)) a = Some q"
              using in_sm_find [OF file_invD(2) [OF settlesD(1) [OF s]]] by simp
            from settlesD(8) [OF s this] p have "pg_size q = n" if "a = k"
              using that by (auto simp: resize_only_pages pg_size_def)
            then show ?case using le page_resize_shrink [of "pg_size p" q] by auto
          qed
          then show ?thesis by (simp add: w3_def resize_only_def)
        qed
        then have u: "unchanged cfg content w w3" using resize_back [OF inv s p n cinv] by simp
        have s3: "settled cfg content {} k w3 (cm_resize_page cfg ops k True w3)"
          using u by (intro resize_page_settled [OF ops _ mgr]) (auto simp: unchanged_def)
        then show ?thesis using s1 Inl unchanged_trans [OF u settles_unchanged] r
          by (cases "fst (cm_resize_page cfg ops k True w3)") (auto simp: bindE_cases settled_def)
      qed
      moreover have "fst r \<noteq> Inr ()" by (cases "fst (cm_resize_page cfg ops k True w3)") (simp_all add: r bindE_cases)
      ultimately show ?thesis by blast
    next
      case (Inr u)
      then show ?thesis using s1 False p
        by (simp add: r_def resize_cached_def w1_def [symmetric] r1_def [symmetric] Let_def catchE_cases settled_def page_len_map)
    qed
  qed
  then show "fst r = Inl e \<Longrightarrow> pg_size p \<le> n \<Longrightarrow> unchanged cfg content w (snd r) \<and> flush_fail cfg e"
    and "fst r = Inr () \<Longrightarrow> settles cfg content {} k (resize_only cfg ops k n w) (snd r) \<and>
           (tail_ok cfg (resize_only cfg ops k n w) \<longrightarrow> tail_ok cfg (snd r))"
    by (auto simp: w1_def)
qed

section \<open>Adding a page that is about to be written\<close>

lemma hidden_page:
  assumes inv: "file_inv cfg content {} w" and cinv: "cache_inv cfg w"
    and new: "map_of (w_pages w) k = None" and p: "\<not> pg_dirty p"
  defines "w' \<equiv> w\<lparr>w_pages := sm_emplace k p (w_pages w)\<rparr>"
  shows "file_inv cfg content {k} w'" and "cache_inv cfg w'"
    and "file_view cfg content {k} w' = file_view cfg content {} w"
    and "map_of (w_pages w') = (map_of (w_pages w))(k \<mapsto> p)"
    and "k * fc_psize cfg < L \<Longrightarrow> within cfg L w \<Longrightarrow> within cfg L w'"
    and "tail_ok cfg w \<Longrightarrow> tail_ok cfg w'"
proof -
  note iD = file_invD [OF inv]
  show m: "map_of (w_pages w') = (map_of (w_pages w))(k \<mapsto> p)" using new by (auto simp: w'_def)
  have ok: "smap_ok (w_pages w')" using iD(2) by (simp add: w'_def smap_ok_emplace)
  have mem: "(a, q) \<in> set (w_pages w') \<longleftrightarrow> (if a = k then q = p else (a, q) \<in> set (w_pages w))" for a q
    using iD(2) ok by (auto simp: mem_map_of m)
  have nk: "(k, q) \<notin> set (w_pages w)" for q using new by (metis map_of_eq_None_iff image_eqI fst_conv)
  have sub: "(a, q) \<in> set (w_pages w') \<and> a \<noteq> k \<longleftrightarrow> (a, q) \<in> set (w_pages w)" for a q
    using nk mem by auto
  have srv': "srv content w' = srv content w" by (simp add: srv_def w'_def fun_eq_iff)
  have sz: "w_fsize w' = w_fsize w" "w_bsize w' = w_bsize w" "w_exists w' = w_exists w" "w_env w' = w_env w"
    "w_cache w' = w_cache w" by (simp_all add: w'_def)
  show view': "file_view cfg content {k} w' = file_view cfg content {} w"
    using new by (auto simp: file_view_def view_def map_of_known m srv' fun_eq_iff)
  have s': "sizes_ok cfg {k} w'" and c': "clean_agrees cfg content {k} w'"
    using iD(3,5) unfolding sizes_ok_def clean_agrees_def srv' sz by (auto simp: sub)
  have d': "\<not> pg_dirty q" if "(a, q) \<in> set (w_pages w')" "a \<in> {k}" for a q
    using that mem [of a q] p by auto
  show "file_inv cfg content {k} w'"
    unfolding file_inv_def view' srv' sz using iD ok s' c' d' by (auto simp: backend_agrees_def sz w'_def)
  show "cache_inv cfg w'" using cinv by (auto simp: cache_inv_def w'_def)
  show "within cfg L w'" if "k * fc_psize cfg < L" "within cfg L w" for L
  proof -
    have "a * fc_psize cfg < L \<and> (pg_dirty q \<longrightarrow> a * fc_psize cfg + pg_size q \<le> L)"
      if "(a, q) \<in> set (w_pages w')" for a q
      using that mem [of a q] withinD(3,4) [OF \<open>within cfg L w\<close>] p \<open>k * fc_psize cfg < L\<close> by (auto split: if_splits)
    then show ?thesis using withinD(1,2) [OF \<open>within cfg L w\<close>] by (auto simp: within_def sz)
  qed
  show "tail_ok cfg w'" if "tail_ok cfg w"
  proof -
    have "max_dirty (fc_psize cfg) (w_pages w) \<le> max_dirty (fc_psize cfg) (w_pages w')"
      unfolding max_dirty_le by (auto intro!: max_dirty_ge simp: sub [symmetric])
    then show ?thesis using that by (auto simp: tail_ok_def sz)
  qed
qed

lemma forget_hidden:
  assumes inv: "file_inv cfg content {k} w" and cinv: "cache_inv cfg w"
  shows "file_inv cfg content {} (forget_page cfg k w)" and "cache_inv cfg (forget_page cfg k w)"
    and "file_view cfg content {} (forget_page cfg k w) = file_view cfg content {k} w"
    and "w_fsize (forget_page cfg k w) = w_fsize w"
proof -
  let ?w' = "forget_page cfg k w"
  note iD = file_invD [OF inv]
  have f: "w_fsize ?w' = w_fsize w" "w_bsize ?w' = w_bsize w" "w_exists ?w' = w_exists w" "w_env ?w' = w_env w"
    "w_fetch ?w' = w_fetch w"
    "w_pages ?w' = sm_erase k (w_pages w)" "srv content ?w' = srv content w"
    by (simp_all add: forget_page_def Let_def srv_def fun_eq_iff)
  have m: "map_of (w_pages ?w') = (map_of (w_pages w))(k := None)" using iD(2) by (simp add: f)
  have ok: "smap_ok (w_pages ?w')" using iD(2) by (simp add: f smap_ok_erase)
  have mem: "(a, q) \<in> set (w_pages ?w') \<longleftrightarrow> (a, q) \<in> set (w_pages w) \<and> a \<noteq> k" for a q
    using iD(2) ok by (auto simp: mem_map_of m)
  show v: "file_view cfg content {} ?w' = file_view cfg content {k} w"
    by (auto simp: file_view_def view_def map_of_known m f(7) fun_eq_iff)
  have "sizes_ok cfg {} ?w'" "clean_agrees cfg content {} ?w'"
    using iD(3,5) unfolding sizes_ok_def clean_agrees_def f(1,7) by (auto simp: mem)
  then show "file_inv cfg content {} ?w'"
    unfolding file_inv_def v f(1,7) using iD ok by (auto simp: backend_agrees_def f)
  have "fst ` set (w_pages ?w') = fst ` set (w_pages w) - {k}" using iD(2) by (simp add: f keys_erase)
  then show "cache_inv cfg ?w'" using cinv
    by (auto simp: cache_inv_def forget_page_def Let_def cm_remove_page_ok cm_keys_remove)
  show "w_fsize ?w' = w_fsize w" by (rule f(1))
qed

lemma inform_new_write_spec:
  fixes cfg
  assumes ops: "backend_ok ops content" and inv: "file_inv cfg content {k} w" and cinv: "cache_inv cfg w"
    and k: "map_of (w_pages w) k = Some p"
  defines "r \<equiv> inform_new_page_write cfg ops k True w"
  shows "fst r = Inl e \<Longrightarrow> flush_fail cfg e \<and> file_inv cfg content {} (snd r) \<and> cache_inv cfg (snd r) \<and>
           file_view cfg content {} (snd r) = file_view cfg content {k} w \<and> w_fsize (snd r) = w_fsize w"
    and "fst r = Inr () \<Longrightarrow> settles cfg content {k} k w (snd r) \<and> (tail_ok cfg w \<longrightarrow> tail_ok cfg (snd r))"
proof -
  have kk: "k \<in> fst ` set (w_pages w)" using k by (metis map_of_eq_None_iff option.distinct(1))
  have "(\<forall>e. fst r = Inl e \<longrightarrow> flush_fail cfg e \<and> file_inv cfg content {} (snd r) \<and> cache_inv cfg (snd r) \<and>
           file_view cfg content {} (snd r) = file_view cfg content {k} w \<and> w_fsize (snd r) = w_fsize w) \<and>
    (fst r = Inr () \<longrightarrow> settles cfg content {k} k w (snd r) \<and> (tail_ok cfg w \<longrightarrow> tail_ok cfg (snd r)))"
  proof (cases "informed cfg")
    case False
    then show ?thesis using settles_refl [OF inv cinv] by (simp add: r_def inform_new_page_write_def)
  next
    case True
    then have mgr: "fc_cachemgr cfg" by (simp add: informed_def)
    define r1 where "r1 = cm_inform_page cfg ops k True True True w"
    have s: "settled cfg content {k} k w r1"
      unfolding r1_def by (rule inform_page_settled [OF ops _ mgr inv cinv kk]) simp
    have r: "r = catchE r1 (\<lambda>e w1. (Inl e, forget_page cfg k w1))"
      using True by (simp add: r_def inform_new_page_write_def r1_def)
    have s1: "settles cfg content {k} k w (snd r1)" using s by (simp add: settled_def)
    show ?thesis
      using s forget_hidden [OF settlesD(1,2) [OF s1]] settlesD(3,4) [OF s1]
      by (cases "fst r1") (auto simp: r catchE_cases settled_def)
  qed
  then show "fst r = Inl e \<Longrightarrow> flush_fail cfg e \<and> file_inv cfg content {} (snd r) \<and> cache_inv cfg (snd r) \<and>
           file_view cfg content {} (snd r) = file_view cfg content {k} w \<and> w_fsize (snd r) = w_fsize w"
    and "fst r = Inr () \<Longrightarrow> settles cfg content {k} k w (snd r) \<and> (tail_ok cfg w \<longrightarrow> tail_ok cfg (snd r))"
    by blast+
qed

section \<open>Writing into a prepared page\<close>

text \<open>
  What GetPageWrite leaves behind for a write that ends at new: the page has its final size
  n, holds the bytes of the file outside the buffer, and every other page is long enough.
\<close>

definition prepared :: "file_cfg \<Rightarrow> ('s \<Rightarrow> bytes) \<Rightarrow> nat \<Rightarrow> nat \<Rightarrow> nat \<Rightarrow> nat \<Rightarrow> nat \<Rightarrow> 's world \<Rightarrow> 's world \<Rightarrow> bool" where
  "prepared cfg content k off len n new w w1 \<longleftrightarrow>
     (\<exists>X. X \<subseteq> {k} \<and> file_inv cfg content X w1 \<and> file_view cfg content X w1 = file_view cfg content {} w) \<and>
     cache_inv cfg w1 \<and> w_fsize w1 = w_fsize w \<and>
     (\<exists>p. map_of (w_pages w1) k = Some p \<and> pg_size p = n \<and>
        (\<forall>j < n. j < off \<or> off + len \<le> j \<longrightarrow> nth0 (pg_data p) j = file_view cfg content {} w (k * fc_psize cfg + j))) \<and>
     (\<forall>a q. map_of (w_pages w1) a = Some q \<longrightarrow> a \<noteq> k \<longrightarrow> min (fc_psize cfg) (new - a * fc_psize cfg) \<le> pg_size q) \<and>
     (within cfg new w \<longrightarrow> within cfg new w1) \<and> (tail_ok cfg w \<longrightarrow> tail_ok cfg w1)"

definition write_into :: "nat \<Rightarrow> nat \<Rightarrow> nat \<Rightarrow> bytes \<Rightarrow> 's world \<Rightarrow> 's world" where
  "write_into k new off buf w =
     w\<lparr>w_fsize := new,
       w_pages := page_update k (\<lambda>p. (set_dirty True p)\<lparr>pg_data := splice (pg_data p) off buf\<rparr>) (w_pages w)\<rparr>"

lemma write_into_spec:
  assumes pr: "prepared cfg content k off (length buf) n new w w1"
    and buf: "buf \<noteq> []" "off + length buf \<le> fc_psize cfg"
    and new: "new = max (w_fsize w) (k * fc_psize cfg + off + length buf)" "new + fc_psize cfg \<le> 2 ^ 64"
    and n: "n = min (new - k * fc_psize cfg) (fc_psize cfg)"
  defines "w2 \<equiv> write_into k new off buf w1"
  shows "file_inv cfg content {} w2" and "cache_inv cfg w2"
    and "file_view cfg content {} w2 = overlay (file_view cfg content {} w) (k * fc_psize cfg + off) buf"
    and "within cfg new w \<Longrightarrow> within cfg new w2" and "tail_ok cfg w \<Longrightarrow> tail_ok cfg w2"
proof -
  let ?ps = "fc_psize cfg"
  let ?f = "\<lambda>p. (set_dirty True p)\<lparr>pg_data := splice (pg_data p) off buf\<rparr>"
  obtain X p where X: "X \<subseteq> {k}" and inv: "file_inv cfg content X w1"
    and vw: "file_view cfg content X w1 = file_view cfg content {} w" and cinv: "cache_inv cfg w1"
    and fs: "w_fsize w1 = w_fsize w" and p: "map_of (w_pages w1) k = Some p" "pg_size p = n"
    and base: "\<And>j. j < n \<Longrightarrow> j < off \<or> off + length buf \<le> j \<Longrightarrow>
       nth0 (pg_data p) j = file_view cfg content {} w (k * ?ps + j)"
    and others: "\<And>a q. map_of (w_pages w1) a = Some q \<Longrightarrow> a \<noteq> k \<Longrightarrow> min ?ps (new - a * ?ps) \<le> pg_size q"
    and wi: "within cfg new w \<longrightarrow> within cfg new w1" and to: "tail_ok cfg w \<longrightarrow> tail_ok cfg w1"
    using pr unfolding prepared_def by blast
  note iD = file_invD [OF inv]
  have ps: "0 < ?ps" by (rule iD(1))
  have len: "0 < length buf" using buf by simp
  have offn: "off + length buf \<le> n" using buf(2) by (simp add: n new)
  have fsn: "w_fsize w1 \<le> new" by (simp add: new fs)
  have klt: "k * ?ps < new" 
    by (rule less_le_trans [of _ "k * ?ps + off + length buf"]) (use len in \<open>linarith\<close>, simp add: new(1))
  have sz: "w_fsize w2 = new" "w_bsize w2 = w_bsize w1" "w_exists w2 = w_exists w1" "w_env w2 = w_env w1"
    "w_cache w2 = w_cache w1" "w_fetch w2 = w_fetch w1" "w_pages w2 = page_update k ?f (w_pages w1)"
    by (simp_all add: w2_def write_into_def)
  have srv2: "srv content w2 = srv content w1" by (simp add: srv_def sz fun_eq_iff)
  have ok2: "smap_ok (w_pages w2)" using iD(2) by (simp add: sz)
  have m2: "map_of (w_pages w2) a = (if a = k then Some (?f p) else map_of (w_pages w1) a)" for a
    by (simp add: sz p)
  have fsz: "pg_size (?f p) = n" using p(2) offn by (simp add: pg_size_def length_splice)
  have mem2: "(a, q) \<in> set (w_pages w2) \<longleftrightarrow> (if a = k then q = ?f p else (a, q) \<in> set (w_pages w1))" for a q
    using iD(2) ok2 by (auto simp: mem_map_of m2)
  have kX: "(a, q) \<in> set (known X w1)" if "(a, q) \<in> set (w_pages w1)" "a \<noteq> k" for a q
    using that X by auto
  have view2: "file_view cfg content {} w2 i = overlay (file_view cfg content {} w) (k * ?ps + off) buf i" for i
  proof (cases "i div ?ps = k")
    case False
    have out: "\<not> (k * ?ps + off \<le> i \<and> i < k * ?ps + off + length buf)"
    proof
      assume a: "k * ?ps + off \<le> i \<and> i < k * ?ps + off + length buf"
      then have "k * ?ps \<le> i" "i < k * ?ps + ?ps" using buf(2) by auto
      then have "i div ?ps = k" using page_index_split [OF ps] by blast
      then show False using False by simp
    qed
    have "file_view cfg content {} w2 i = file_view cfg content X w1 i"
      using False X by (auto simp: file_view_def view_def map_of_known m2 srv2 split: option.splits)
    then show ?thesis using out vw by (auto simp: overlay_def)
  next
    case True
    define j where "j = i mod ?ps"
    have i: "i = k * ?ps + j" and j: "j < ?ps" using True ps by (auto simp: j_def)
    have v: "file_view cfg content {} w2 i = nth0 (splice (pg_data p) off buf) j"
      using True by (simp add: file_view_def view_def m2 j_def)
    show ?thesis
    proof (cases "j < n")
      case True
      then show ?thesis using v base [of j] p(2) offn len
        by (auto simp: overlay_def i nth0_def length_splice nth_splice pg_size_def)
    next
      case False
      then have "new \<le> k * ?ps + j" using j by (simp add: n)
      then have "w_fsize w1 \<le> i" using fsn by (simp add: i)
      then have "file_view cfg content {} w i = 0" using iD(7) vw by simp
      moreover have "nth0 (splice (pg_data p) off buf) j = 0"
        using False fsz by (simp add: pg_size_def)
      moreover have "\<not> j < off + length buf" using False offn by simp
      ultimately show ?thesis using v by (simp add: overlay_def i)
    qed
  qed
  then show "file_view cfg content {} w2 = overlay (file_view cfg content {} w) (k * ?ps + off) buf" by blast
  have "sizes_ok cfg {} w2"
    unfolding sizes_ok_def
  proof (clarify, goal_cases)
    case (1 a q)
    show ?case
    proof (cases "a = k")
      case True
      then have "q = ?f p" using 1 by (simp add: mem2)
      then show ?thesis using True fsz n klt by (auto simp: sz(1))
    next
      case False
      then have q: "(a, q) \<in> set (w_pages w1)" using 1 by (simp add: mem2)
      from sizes_okD [OF iD(3) kX [OF q False]] others [of a q] False q fsn iD(2)
      show ?thesis by (auto simp: mem_map_of sz(1))
    qed
  qed
  moreover have "clean_agrees cfg content {} w2"
    using iD(5) kX by (fastforce simp: clean_agrees_def mem2 srv2 split: if_splits)
  moreover have "file_view cfg content {} w2 i = 0" if "new \<le> i" for i
    using that iD(7) [of i] vw fsn new(1) by (auto simp: view2 overlay_def)
  ultimately show "file_inv cfg content {} w2"
    using iD ok2 new(2) fsn by (auto simp: file_inv_def sz(1-6) srv2 backend_agrees_def)
  show "cache_inv cfg w2" using cinv by (simp add: cache_inv_def sz)
  show "within cfg new w2" if "within cfg new w"
  proof -
    have wi1: "within cfg new w1" using wi that by simp
    have "k * ?ps + n \<le> new" by (simp add: n new(1))
    then show ?thesis using withinD [OF wi1] fsz klt
      by (auto simp: within_def sz(1,2) mem2 split: if_splits)
  qed
  show "tail_ok cfg w2" if "tail_ok cfg w"
  proof -
    have "k * ?ps + n \<le> max_dirty ?ps (w_pages w2)"
      using max_dirty_ge [of k "?f p" "w_pages w2" ?ps] fsz by (simp add: mem2)
    moreover have "max_dirty ?ps (w_pages w1) \<le> max_dirty ?ps (w_pages w2)"
      unfolding max_dirty_le
    proof (clarify, goal_cases)
      case (1 a q)
      then show ?case
        using calculation p iD(2) by (cases "a = k") (auto simp: mem_map_of intro!: max_dirty_ge simp: mem2)
    qed
    ultimately show ?thesis using to that offn fs new(1) by (auto simp: tail_ok_def sz)
  qed
qed

section \<open>GetPageWrite\<close>

lemma resize_only_emplace:
  assumes "map_of (w_pages w) k = None"
  shows "resize_only cfg ops k n (w\<lparr>w_pages := sm_emplace k p (w_pages w)\<rparr>) =
    w\<lparr>w_pages := sm_emplace k (resize_zeroed (fc_os cfg) (op_junk ops (w_env w)) n p) (w_pages w)\<rparr>"
proof -
  have "k \<notin> fst ` set m \<Longrightarrow> page_update k f (sm_assign k p m) = sm_assign k (f p) m" for f m
  proof (induction m)
    case (Cons e m)
    obtain a q where e: "e = (a, q)" by force
    have id: "k \<notin> fst ` set m \<Longrightarrow> map (\<lambda>(a, p). if a = k then (a, f p) else (a, p)) m = m"
      by (induction m) auto
    show ?case using Cons id by (auto simp: e page_update_def)
  qed (simp add: page_update_def)
  moreover have "k \<notin> fst ` set (w_pages w)" using assms by (simp add: map_of_eq_None_iff)
  ultimately show ?thesis using assms by (simp add: resize_only_def sm_emplace_def sm_find_def)
qed

lemma resize_only_tail:
  assumes inv: "file_inv cfg content {} w" and t: "tail_ok cfg w"
    and n: "min (fc_psize cfg) (w_fsize w - k * fc_psize cfg) \<le> n"
  shows "tail_ok cfg (resize_only cfg ops k n w)"
  unfolding tail_ok_def resize_only_simps
proof
  let ?w' = "resize_only cfg ops k n w" and ?ps = "fc_psize cfg"
  note iD = file_invD [OF inv]
  assume "w_exists w"
  show "w_fsize w \<le> max (w_bsize w) (max_dirty ?ps (w_pages ?w'))"
  proof (cases "w_fsize w \<le> w_bsize w")
    case False
    then have "\<not> max_dirty ?ps (w_pages w) \<le> w_fsize w - 1" using t \<open>w_exists w\<close> by (auto simp: tail_ok_def)
    then obtain a q where q: "(a, q) \<in> set (w_pages w)" "pg_dirty q" "w_fsize w \<le> a * ?ps + pg_size q"
      using False unfolding max_dirty_le by (clarsimp simp: not_le) (metis Suc_leI Suc_pred less_nat_zero_code not_gr_zero not_less)
    have le: "pg_size q \<le> ?ps" using sizes_okD(3) [OF iD(3), of a q] q by simp
    define q' where "q' = (if a = k then q\<lparr>pg_data := resize_bytes (pg_data q) n\<rparr> else q)"
    have "(a, q') \<in> set (w_pages ?w')"
      using q(1) iD(2) by (auto simp: mem_map_of resize_only_pages q'_def)
    then have "a * ?ps + pg_size q' \<le> max_dirty ?ps (w_pages ?w')"
      by (rule max_dirty_ge) (use q(2) in \<open>simp add: q'_def\<close>)
    moreover have "w_fsize w \<le> a * ?ps + pg_size q'"
      using q(3) n le by (auto simp: q'_def pg_size_def)
    ultimately show ?thesis by simp
  qed simp
qed

lemma resize_only_within:
  assumes ok: "smap_ok (w_pages w)" and L: "within cfg L w" and n: "k * fc_psize cfg + n \<le> L"
  shows "within cfg L (resize_only cfg ops k n w)"
proof -
  have "a * fc_psize cfg < L \<and> (pg_dirty q \<longrightarrow> a * fc_psize cfg + pg_size q \<le> L)"
    if "(a, q) \<in> set (w_pages (resize_only cfg ops k n w))" for a q
    using that ok withinD(3,4) [OF L] n
    by (auto simp: mem_map_of resize_only_pages pg_size_def split: if_splits)
  then show ?thesis using withinD(1,2) [OF L] by (auto simp: within_def)
qed

lemma fresh_prepared:
  fixes cfg k n p
  assumes ops: "backend_ok ops content" and inv: "file_inv cfg content {} w0" and cinv: "cache_inv cfg w0"
    and new_page: "map_of (w_pages w0) k = None" and p: "\<not> pg_dirty p"
    and vw: "file_view cfg content {} w0 = file_view cfg content {} w" and fs: "w_fsize w0 = w_fsize w"
    and base: "\<And>j. j < n \<Longrightarrow> j < off \<or> off + len \<le> j \<Longrightarrow>
       nth0 (pg_data p) j = file_view cfg content {} w (k * fc_psize cfg + j)"
    and others: "\<And>a q. map_of (w_pages w0) a = Some q \<Longrightarrow> a \<noteq> k \<Longrightarrow> min (fc_psize cfg) (new - a * fc_psize cfg) \<le> pg_size q"
    and k: "k * fc_psize cfg < new"
    and wi: "within cfg new w \<Longrightarrow> within cfg new w0" and to: "tail_ok cfg w \<Longrightarrow> tail_ok cfg w0"
  defines "r \<equiv> inform_new_page_write cfg ops k True
                 (resize_only cfg ops k n (w0\<lparr>w_pages := sm_emplace k p (w_pages w0)\<rparr>))"
  shows "fst r = Inl e \<Longrightarrow> unchanged cfg content w (snd r) \<and> flush_fail cfg e"
    and "fst r = Inr () \<Longrightarrow> prepared cfg content k off len n new w (snd r)"
proof -
  let ?q = "resize_zeroed (fc_os cfg) (op_junk ops (w_env w0)) n p"
  define w1 where "w1 = w0\<lparr>w_pages := sm_emplace k ?q (w_pages w0)\<rparr>"
  have r: "r = inform_new_page_write cfg ops k True w1"
    by (simp add: r_def w1_def resize_only_emplace [OF new_page])
  have q: "\<not> pg_dirty ?q" using p by simp
  note h = hidden_page [OF inv cinv new_page q, folded w1_def]
  have k1: "map_of (w_pages w1) k = Some ?q" by (simp add: h(4))
  note spec = inform_new_write_spec [OF ops h(1,2) k1, folded r]
  have fs1: "w_fsize w1 = w_fsize w" by (simp add: w1_def fs)
  show "unchanged cfg content w (snd r) \<and> flush_fail cfg e" if "fst r = Inl e"
    using spec(1) [OF that] fs1 by (simp add: unchanged_def h(3) vw)
  show "prepared cfg content k off len n new w (snd r)" if "fst r = Inr ()"
  proof -
    have s: "settles cfg content {k} k w1 (snd r)" and t: "tail_ok cfg w1 \<longrightarrow> tail_ok cfg (snd r)"
      using spec(2) [OF that] by simp_all
    have "k \<in> fst ` set (w_pages (snd r))"
      using settlesD(7) [OF s] k1 by (metis map_of_eq_None_iff option.distinct(1))
    then obtain p1 where p1: "map_of (w_pages (snd r)) k = Some p1"
      by (metis map_of_eq_None_iff not_None_eq)
    have d1: "pg_data p1 = resize_bytes (pg_data p) n"
      using settlesD(8) [OF s p1] k1 by (auto simp: resize_zeroed_data)
    have o1: "min (fc_psize cfg) (new - a * fc_psize cfg) \<le> pg_size q1"
      if "map_of (w_pages (snd r)) a = Some q1" "a \<noteq> k" for a q1
      using settlesD(8) [OF s that(1)] others [of a] that(2) by (auto simp: h(4) pg_size_def)
    have X: "file_inv cfg content {k} (snd r) \<and> file_view cfg content {k} (snd r) = file_view cfg content {} w"
      using settlesD(1,3) [OF s] by (simp add: h(3) vw)
    have pg: "pg_size p1 = n \<and> (\<forall>j < n. j < off \<or> off + len \<le> j \<longrightarrow>
        nth0 (pg_data p1) j = file_view cfg content {} w (k * fc_psize cfg + j))"
      using base by (simp add: d1 pg_size_def nth0_resize_bytes)
    have wt: "within cfg new w \<longrightarrow> within cfg new (snd r)" "tail_ok cfg w \<longrightarrow> tail_ok cfg (snd r)"
      using settlesD(6) [OF s] h(5) [OF k wi] h(6) [OF to] t by blast+
    show ?thesis unfolding prepared_def
      using X settlesD(2) [OF s] settlesD(4) [OF s] p1 pg o1 wt fs1 by (intro conjI exI [of _ "{k}"]) auto
  qed
qed

text \<open>Every other page is long enough for the file after the write.\<close>

lemma others_long:
  fixes new :: nat
  assumes inv: "file_inv cfg content {} w" and wi: "within cfg (w_fsize w) w"
    and q: "map_of (w_pages w) a = Some q" "a \<noteq> k"
    and new: "new = max (w_fsize w) (k * fc_psize cfg + e)" "e \<le> fc_psize cfg"
    and last: "w_fsize w < k * fc_psize cfg \<Longrightarrow> a = (w_fsize w - 1) div fc_psize cfg \<Longrightarrow> pg_size q = fc_psize cfg"
  shows "min (fc_psize cfg) (new - a * fc_psize cfg) \<le> pg_size q"
proof -
  let ?ps = "fc_psize cfg"
  note iD = file_invD [OF inv]
  have kp: "(a, q) \<in> set (w_pages w)" using q(1) by (rule map_of_SomeD)
  have sz: "min ?ps (w_fsize w - a * ?ps) \<le> pg_size q" using sizes_okD(2) [OF iD(3), of a q] kp by simp
  have lt: "a * ?ps < w_fsize w" using withinD(3) [OF wi kp] .
  show ?thesis
  proof (cases "Suc a * ?ps \<le> w_fsize w \<or> new = w_fsize w")
    case True
    then show ?thesis using sz by auto
  next
    case False
    then have f: "w_fsize w < Suc a * ?ps" "new = k * ?ps + e" using new(1) by auto
    show ?thesis
    proof (cases "k < a")
      case True
      then have "Suc k * ?ps \<le> a * ?ps" by (intro mult_le_mono1) simp
      then show ?thesis using f(2) new(2) by simp
    next
      case False
      then have "Suc a * ?ps \<le> k * ?ps" using q(2) by (intro mult_le_mono1) simp
      moreover have "(w_fsize w - 1) div ?ps = a"
        using page_index_split(1) [OF iD(1), of a "w_fsize w - 1"] lt f(1) by simp
      ultimately show ?thesis using last f(1) by simp
    qed
  qed
qed

lemma unchanged_refl: "file_inv cfg content {} w \<Longrightarrow> cache_inv cfg w \<Longrightarrow> unchanged cfg content w w"
  by (simp add: unchanged_def)

lemma no_page_view:
  "map_of (w_pages w) k = None \<Longrightarrow> j < fc_psize cfg \<Longrightarrow>
   file_view cfg content {} w (k * fc_psize cfg + j) = srv content w (k * fc_psize cfg + j)"
  by (simp add: file_view_def view_def)

lemma get_write_existing:
  fixes cfg
  assumes ops: "backend_ok ops content" and inv: "file_inv cfg content {} w" and cinv: "cache_inv cfg w"
    and wi: "within cfg (w_fsize w) w" and p: "map_of (w_pages w) k = Some p" and len: "0 < len"
    and new: "new = max (w_fsize w) (k * fc_psize cfg + off + len)" "off + len \<le> fc_psize cfg"
    and n: "n = min (new - k * fc_psize cfg) (fc_psize cfg)"
  defines "r \<equiv> inform_resize_page cfg ops k True n w"
  shows "fst r = Inl e \<Longrightarrow> unchanged cfg content w (snd r) \<and> flush_fail cfg e"
    and "fst r = Inr () \<Longrightarrow> prepared cfg content k off len n new w (snd r)"
proof -
  let ?w1 = "resize_only cfg ops k n w"
  note iD = file_invD [OF inv]
  have nn: "min (fc_psize cfg) (w_fsize w - k * fc_psize cfg) \<le> n" "n \<le> fc_psize cfg"
    using n new(1) by (auto simp: min_def max_def)
  note spec = inform_resize_spec [OF ops inv cinv p nn, of True, folded r_def]
  note ri = resize_only_inv [OF inv cinv _ nn, of ops, simplified]
  show "unchanged cfg content w (snd r) \<and> flush_fail cfg e" if "fst r = Inl e" using spec(1) [OF that] .
  show "prepared cfg content k off len n new w (snd r)" if "fst r = Inr ()"
  proof -
    have s: "settles cfg content {} k ?w1 (snd r)" and t: "tail_ok cfg ?w1 \<longrightarrow> tail_ok cfg (snd r)"
      using spec(2) [OF that] by simp_all
    have k1: "map_of (w_pages ?w1) k = Some (p\<lparr>pg_data := resize_bytes (pg_data p) n\<rparr>)"
      using p by (simp add: resize_only_pages)
    then have "k \<in> fst ` set (w_pages (snd r))"
      using settlesD(7) [OF s] by (metis map_of_eq_None_iff option.distinct(1))
    then obtain p1 where p1: "map_of (w_pages (snd r)) k = Some p1" by (metis map_of_eq_None_iff not_None_eq)
    have d1: "pg_data p1 = resize_bytes (pg_data p) n" using settlesD(8) [OF s p1] k1 by auto
    have base: "nth0 (pg_data p1) j = file_view cfg content {} w (k * fc_psize cfg + j)" if "j < n" for j
      using file_view_page [OF inv, of k p j] map_of_SomeD [OF p] that nn(2) by (simp add: d1 nth0_resize_bytes)
    have others: "min (fc_psize cfg) (new - a * fc_psize cfg) \<le> pg_size q1"
      if "map_of (w_pages (snd r)) a = Some q1" "a \<noteq> k" for a q1
    proof -
      note a = that
      obtain q where q: "map_of (w_pages w) a = Some q" "pg_size q1 = pg_size q"
        using settlesD(8) [OF s a(1)] a(2) by (auto simp: resize_only_pages pg_size_def)
      show ?thesis unfolding q(2)
        by (rule others_long [OF inv wi q(1) a(2), of new "off + len"])
          (use new withinD(3) [OF wi map_of_SomeD [OF p]] in \<open>auto simp: add.assoc\<close>)
    qed
    have "k * fc_psize cfg + n \<le> new" using n new(1) by (auto simp: min_def max_def)
    then have "within cfg new w \<longrightarrow> within cfg new (snd r)" "tail_ok cfg w \<longrightarrow> tail_ok cfg (snd r)"
      using settlesD(6) [OF s] resize_only_within [OF iD(2)] t resize_only_tail [OF inv _ nn(1)] by blast+
    then show ?thesis unfolding prepared_def
      using settlesD(1-4) [OF s] p1 base others ri(3) d1
      by (intro conjI exI [of _ "{}"]) (auto simp: pg_size_def)
  qed
qed

text \<open>A new page that the write fills, or that lies past what is stored.\<close>

lemma get_write_empty:
  fixes cfg
  assumes ops: "backend_ok ops content" and inv: "file_inv cfg content {} w" and cinv: "cache_inv cfg w"
    and wi: "within cfg (w_fsize w) w" and p: "map_of (w_pages w) k = None" and len: "0 < len"
    and new: "new = max (w_fsize w) (k * fc_psize cfg + off + len)" "off + len \<le> fc_psize cfg"
    and n: "n = min (new - k * fc_psize cfg) (fc_psize cfg)"
    and empty: "w_bsize w \<le> k * fc_psize cfg \<or> off = 0 \<and> n \<le> len"
    and r: "r = bindE (if k * fc_psize cfg > w_fsize w \<and> w_fsize w > 0 \<and> sm_find (w_pages w) ((w_fsize w - 1) div fc_psize cfg) \<noteq> None
               then resize_cached cfg ops ((w_fsize w - 1) div fc_psize cfg) (fc_psize cfg) w else (Inr (), w))
          (\<lambda>_ w1. inform_new_page_write cfg ops k True (resize_only cfg ops k n
                       (w1\<lparr>w_pages := sm_emplace k \<lparr>pg_data = [], pg_dirty = False\<rparr> (w_pages w1)\<rparr>)))"
  shows "(fst r = Inl e \<longrightarrow> unchanged cfg content w (snd r) \<and> flush_fail cfg e) \<and>
    (fst r = Inr () \<longrightarrow> prepared cfg content k off len n new w (snd r))"
proof -
  let ?ps = "fc_psize cfg" and ?p = "\<lparr>pg_data = [], pg_dirty = False\<rparr>"
  define l where "l = (w_fsize w - 1) div ?ps"
  define f where "f w1 = inform_new_page_write cfg ops k True (resize_only cfg ops k n
                       (w1\<lparr>w_pages := sm_emplace k ?p (w_pages w1)\<rparr>))" for w1
  have r': "r = bindE (if k * ?ps > w_fsize w \<and> w_fsize w > 0 \<and> sm_find (w_pages w) l \<noteq> None
      then resize_cached cfg ops l ?ps w else (Inr (), w)) (\<lambda>_. f)"
    unfolding r l_def f_def by (rule refl)
  note iD = file_invD [OF inv]
  have klt: "k * ?ps < new"
    by (rule less_le_trans [of _ "k * ?ps + off + len"]) (use len in \<open>linarith\<close>, simp add: new(1))
  have base: "nth0 (pg_data ?p) j = file_view cfg content {} w (k * ?ps + j)"
    if "j < n" "j < off \<or> off + len \<le> j" for j
  proof -
    have "w_bsize w \<le> k * ?ps" using empty that by auto
    then show ?thesis using no_page_view [OF p, of j cfg content] that(1) n by (simp add: srv_def nth0_def)
  qed
  have clean: "\<not> pg_dirty ?p" by simp
  have step: "(fst (f w1) = Inl e \<longrightarrow> unchanged cfg content w (snd (f w1)) \<and> flush_fail cfg e) \<and>
    (fst (f w1) = Inr () \<longrightarrow> prepared cfg content k off len n new w (snd (f w1)))"
    if "file_inv cfg content {} w1" "cache_inv cfg w1" "map_of (w_pages w1) k = None"
      "file_view cfg content {} w1 = file_view cfg content {} w" "w_fsize w1 = w_fsize w"
      "\<And>a q. map_of (w_pages w1) a = Some q \<Longrightarrow> a \<noteq> k \<Longrightarrow> min ?ps (new - a * ?ps) \<le> pg_size q"
      "within cfg new w \<Longrightarrow> within cfg new w1" "tail_ok cfg w \<Longrightarrow> tail_ok cfg w1" for w1
  proof -
    note fp = fresh_prepared [OF ops that(1-3) clean that(4,5), of n off len new]
    show ?thesis unfolding f_def
      by (rule conjI; rule impI; (rule fp(1) | rule fp(2));
          (erule (1) base | erule (1) that(6) | rule klt | erule that(7) | erule that(8) | assumption))
  qed
  show ?thesis
  proof (cases "k * ?ps > w_fsize w \<and> w_fsize w > 0 \<and> sm_find (w_pages w) l \<noteq> None")
    case False
    have r: "r = f w" unfolding r' by (subst if_not_P [OF False]) simp
    have "min ?ps (new - a * ?ps) \<le> pg_size q" if "map_of (w_pages w) a = Some q" "a \<noteq> k" for a q
    proof (rule others_long [OF inv wi that, of new "off + len"])
      assume "w_fsize w < k * ?ps" "a = (w_fsize w - 1) div ?ps"
      then show "pg_size q = ?ps" using False that(1) withinD(3) [OF wi map_of_SomeD [OF that(1)]]
        by (auto simp: l_def sm_find_def)
    qed (use new in auto)
    then show ?thesis unfolding r by (intro step inv cinv p) auto
  next
    case True
    then obtain q0 where q0: "map_of (w_pages w) l = Some q0" by (auto simp: sm_find_def)
    define r1 where "r1 = resize_cached cfg ops l ?ps w"
    have r: "r = bindE r1 (\<lambda>_. f)" unfolding r' r1_def by (subst if_P [OF True]) simp
    have le: "min ?ps (w_fsize w - l * ?ps) \<le> ?ps" "?ps \<le> ?ps" by simp_all
    have q0s: "pg_size q0 \<le> ?ps" using sizes_okD(3) [OF iD(3), of l q0] map_of_SomeD [OF q0] by simp
    note spec = resize_cached_spec [OF ops inv cinv q0 le, folded r1_def]
    show ?thesis
    proof (cases "fst r1")
      case (Inl e')
      then have "r = (Inl e', snd r1)" by (simp add: r bindE_cases)
      then show ?thesis using spec(1) [OF Inl q0s] by auto
    next
      case (Inr u)
      then have rf: "r = f (snd r1)" by (simp add: r bindE_cases)
      define w1 where "w1 = resize_only cfg ops l ?ps w"
      have s: "settles cfg content {} l w1 (snd r1)" and t: "tail_ok cfg w1 \<longrightarrow> tail_ok cfg (snd r1)"
        using spec(2) Inr by (simp_all add: w1_def)
      have v1: "file_view cfg content {} w1 = file_view cfg content {} w"
        using resize_only_inv(3) [OF inv cinv _ le] by (simp add: w1_def)
      have none: "map_of (w_pages (snd r1)) k = None"
      proof (cases "map_of (w_pages (snd r1)) k")
        case (Some p')
        from settlesD(8) [OF s this] show ?thesis using p by (auto simp: w1_def resize_only_pages split: if_splits)
      qed
      have o: "min ?ps (new - a * ?ps) \<le> pg_size q1" if "map_of (w_pages (snd r1)) a = Some q1" "a \<noteq> k" for a q1
      proof -
        note ak = that
        obtain q' where q': "map_of (w_pages w1) a = Some q'" "pg_size q1 = pg_size q'"
          using settlesD(8) [OF s ak(1)] by (auto simp: pg_size_def)
        show ?thesis
        proof (cases "a = l")
          case True
          then have "pg_size q' = ?ps" using q'(1) q0 by (auto simp: w1_def resize_only_pages pg_size_def)
          then show ?thesis using q'(2) by simp
        next
          case False
          then have q: "map_of (w_pages w) a = Some q'" using q'(1) by (simp add: w1_def resize_only_pages)
          show ?thesis unfolding q'(2)
            by (rule others_long [OF inv wi q ak(2), of new "off + len"]) (use new False in \<open>auto simp: l_def\<close>)
        qed
      qed
      have "l * ?ps + ?ps \<le> k * ?ps"
      proof -
        have "l < k" using True page_index_bounds [OF iD(1), of "w_fsize w - 1"]
          by (metis (no_types, lifting) l_def le_less_trans less_imp_diff_less linorder_not_less mult_le_mono1 order.strict_trans)
        then have "Suc l * ?ps \<le> k * ?ps" by (intro mult_le_mono1) simp
        then show ?thesis by simp
      qed
      then have "within cfg new w \<Longrightarrow> within cfg new (snd r1)"
        using settlesD(6) [OF s, of new] resize_only_within [OF iD(2), of cfg new l ?ps ops] klt by (simp add: w1_def)
      moreover have "tail_ok cfg w \<Longrightarrow> tail_ok cfg (snd r1)"
        using t resize_only_tail [OF inv _ le(1)] by (simp add: w1_def)
      ultimately show ?thesis unfolding rf
        using settlesD(1-4) [OF s] v1 none o by (intro step) (auto simp: w1_def)
    qed
  qed
qed

text \<open>A new page that the write covers in part: its stored bytes are fetched first.\<close>

lemma get_write_fetch:
  fixes cfg
  assumes ops: "backend_ok ops content" and inv: "file_inv cfg content {} w" and cinv: "cache_inv cfg w"
    and wi: "within cfg (w_fsize w) w" and p: "map_of (w_pages w) k = None" and len: "0 < len"
    and new: "new = max (w_fsize w) (k * fc_psize cfg + off + len)" "off + len \<le> fc_psize cfg"
    and n: "n = min (new - k * fc_psize cfg) (fc_psize cfg)"
    and stored: "k * fc_psize cfg < w_bsize w"
    and r: "r = bindE (backend_fetch_pages cfg ops k 1 (\<lambda>i p w. w\<lparr>w_pages := sm_emplace i p (w_pages w)\<rparr>) w)
          (\<lambda>_ w1. inform_new_page_write cfg ops k True (resize_only cfg ops k n w1))"
  shows "(fst r = Inl e \<longrightarrow> unchanged cfg content w (snd r) \<and> flush_fail cfg e) \<and>
    (fst r = Inr () \<longrightarrow> prepared cfg content k off len n new w (snd r))"
proof -
  let ?ps = "fc_psize cfg"
  define h where "h i p w = w\<lparr>w_pages := sm_emplace i p (w_pages w)\<rparr>" for i and p :: page and w :: "'a world"
  define r1 where "r1 = backend_fetch_pages cfg ops k 1 h w"
  note iD = file_invD [OF inv]
  have le: "w_bsize w \<le> w_fsize w" using withinD(2) [OF wi] .
  have ex: "w_exists w" using stored iD(4) by (auto simp: backend_agrees_def split: if_splits)
  have clen: "length (content (w_env w)) = w_bsize w" using iD(4) ex by (simp add: backend_agrees_def)
  have b: "w_bsize w < 2 ^ 64" using le iD(8) iD(1) by linarith
  define data where "data = fetch_data ?ps (w_bsize w) (content (w_env w)) k 1"
  obtain d env' where env: "content env' = content (w_env w)"
    and snd1: "snd r1 = hand_over ?ps k data h d (w\<lparr>w_env := env'\<rparr>)"
    and out: "case fst r1 of Inl e \<Rightarrow> ext_fail e \<and> d < 1 | Inr m \<Rightarrow> d = 1 \<and> m = length data"
    using backend_fetch_pages_spec [OF ops iD(1) clen b, of 1 k h] stored
    unfolding r1_def data_def by auto
  define w0 where "w0 = w\<lparr>w_env := env'\<rparr>"
  have same: "same_pages w w0" by (simp add: same_pages_def w0_def)
  have s0: "srv content w0 = srv content w" by (simp add: srv_def w0_def env fun_eq_iff)
  have a0: "backend_agrees content w0" using iD(4) by (simp add: backend_agrees_def w0_def env)
  note inv0 = file_inv_srv [OF inv same a0 s0]
  have cinv0: "cache_inv cfg w0" using cinv by (simp add: cache_inv_def w0_def)
  have r1': "r = bindE r1 (\<lambda>_ w1. inform_new_page_write cfg ops k True (resize_only cfg ops k n w1))"
    unfolding r r1_def h_def by (rule refl)
  show ?thesis
  proof (cases "fst r1")
    case (Inl e')
    then have "r = (Inl e', w0)" using snd1 out by (simp add: r1' bindE_cases w0_def hand_over_def)
    then show ?thesis using inv0 cinv0 out Inl
      by (auto simp: unchanged_def w0_def ext_flush_fail)
  next
    case (Inr m)
    define q where "q = ideal_page ?ps data 0"
    have "snd r1 = w0\<lparr>w_pages := sm_emplace k q (w_pages w0)\<rparr>"
      using snd1 out Inr by (simp add: hand_over_def h_def q_def w0_def)
    then have rf: "r = inform_new_page_write cfg ops k True
        (resize_only cfg ops k n (w0\<lparr>w_pages := sm_emplace k q (w_pages w0)\<rparr>))"
      using Inr by (simp add: r1' bindE_cases)
    have none: "map_of (w_pages w0) k = None" using p by (simp add: w0_def)
    have q: "\<not> pg_dirty q" by (simp add: q_def ideal_page_def)
    have base: "nth0 (pg_data q) j = file_view cfg content {} w (k * ?ps + j)" if "j < n" "j < off \<or> off + len \<le> j" for j
    proof -
      have j: "j < ?ps" using that(1) n by simp
      have "nth0 (pg_data q) j = srv content w (k * ?ps + j)"
        using j clen by (auto simp: q_def ideal_page_def data_def fetch_data_def srv_def nth0_def)
      then show ?thesis using no_page_view [OF p j] by simp
    qed
    have others: "min ?ps (new - a * ?ps) \<le> pg_size q1" if "map_of (w_pages w0) a = Some q1" "a \<noteq> k" for a q1
      by (rule others_long [OF inv wi _ that(2), of q1 new "off + len"])
        (use that(1) new stored le in \<open>auto simp: w0_def\<close>)
    have klt: "k * ?ps < new" using stored le by (simp add: new(1))
    have wt: "within cfg new w \<Longrightarrow> within cfg new w0" "tail_ok cfg w \<Longrightarrow> tail_ok cfg w0" "w_fsize w0 = w_fsize w"
      by (auto simp: w0_def within_def tail_ok_def)
    note fp = fresh_prepared [OF ops inv0(1) cinv0 none q inv0(2) wt(3), of n off len new, folded rf]
    show ?thesis
      by (rule conjI; rule impI; (rule fp(1) | rule fp(2));
          (erule (1) base | erule (1) others | rule klt | erule wt(1) | erule wt(2) | assumption))
  qed
qed

lemma get_page_write_spec:
  fixes cfg
  assumes ops: "backend_ok ops content" and inv: "file_inv cfg content {} w" and cinv: "cache_inv cfg w"
    and wi: "within cfg (w_fsize w) w" and len: "0 < len"
    and new: "new = max (w_fsize w) (k * fc_psize cfg + off + len)" "off + len \<le> fc_psize cfg"
    and n: "n = min (new - k * fc_psize cfg) (fc_psize cfg)"
  defines "r \<equiv> get_page_write cfg ops k n (off > 0 \<or> len < n) w"
  shows "(fst r = Inl e \<longrightarrow> unchanged cfg content w (snd r) \<and> flush_fail cfg e) \<and>
    (fst r = Inr () \<longrightarrow> prepared cfg content k off len n new w (snd r))"
proof (cases "map_of (w_pages w) k")
  case (Some p)
  then have "r = inform_resize_page cfg ops k True n w" by (simp add: r_def get_page_write_def sm_find_def Let_def)
  then show ?thesis using get_write_existing [OF ops inv cinv wi Some len new n] by simp
next
  case None
  note gw = get_page_write_def [of cfg ops k n "off > 0 \<or> len < n" w, folded r_def, unfolded Let_def]
  have f: "(sm_find (w_pages w) k \<noteq> None) = False" using None by (simp add: sm_find_def)
  show ?thesis
  proof (cases "w_bsize w \<le> k * fc_psize cfg \<or> \<not> (off > 0 \<or> len < n)")
    case True
    show ?thesis
      by (rule get_write_empty [OF ops inv cinv wi None len new n])
        (use True in \<open>force\<close>, use gw True in \<open>simp only: f if_False if_True\<close>)
  next
    case False
    show ?thesis
      by (rule get_write_fetch [OF ops inv cinv wi None len new n])
        (use False in \<open>force\<close>, use gw False in \<open>simp only: f if_False\<close>)
  qed
qed

text \<open>
  WritePage: on success the bytes of the file are overlaid with the buffer and the file is
  extended to its end; on an exception the file is as before.
\<close>

lemma write_page_spec:
  fixes cfg
  assumes ops: "backend_ok ops content" and inv: "file_inv cfg content {} w" and cinv: "cache_inv cfg w"
    and wi: "within cfg (w_fsize w) w" and buf: "buf \<noteq> []" "off + length buf \<le> fc_psize cfg"
    and new: "new = max (w_fsize w) (k * fc_psize cfg + off + length buf)" "new + fc_psize cfg \<le> 2 ^ 64"
  defines "r \<equiv> write_page cfg ops buf k off w"
  shows "(case fst r of Inl e \<Rightarrow> unchanged cfg content w (snd r) \<and> flush_fail cfg e
     | Inr _ \<Rightarrow> file_inv cfg content {} (snd r) \<and> cache_inv cfg (snd r) \<and> w_fsize (snd r) = new \<and>
         within cfg new (snd r) \<and> (tail_ok cfg w \<longrightarrow> tail_ok cfg (snd r)) \<and>
         file_view cfg content {} (snd r) = overlay (file_view cfg content {} w) (k * fc_psize cfg + off) buf)"
proof -
  define n where "n = min (new - k * fc_psize cfg) (fc_psize cfg)"
  define r1 where "r1 = get_page_write cfg ops k n (off > 0 \<or> length buf < n) w"
  have len: "0 < length buf" using buf by simp
  have r: "r = bindE r1 (\<lambda>_ w1. (Inr (), write_into k new off buf w1))"
    unfolding r_def write_page_def r1_def n_def write_into_def Let_def min64st_def new(1) by (rule refl)
  have wn: "within cfg new w" using wi new(1)
    by (auto simp: within_def less_max_iff_disj le_max_iff_disj)
  show ?thesis
  proof (cases "fst r1")
    case (Inl e)
    then show ?thesis using get_page_write_spec [OF ops inv cinv wi len new(1) buf(2) n_def, of e]
      by (simp add: r bindE_cases r1_def)
  next
    case (Inr u)
    then have pr: "prepared cfg content k off (length buf) n new w (snd r1)"
      using get_page_write_spec [OF ops inv cinv wi len new(1) buf(2) n_def] by (simp add: r1_def)
    note spec = write_into_spec [OF pr buf new n_def]
    have "w_fsize (write_into k new off buf (snd r1)) = new" by (simp add: write_into_def)
    then show ?thesis using spec wn Inr by (simp add: r bindE_cases)
  qed
qed

end
