(* ===== verification/Read_Correct.thy ===== *)
theory Read_Correct
  imports Write_Correct
begin

text \<open>
  ReadPage and Truncate of PageManager. Reading brings pages in, by fetching them or by making
  empty ones, and makes room for them; the bytes it returns are those of the file, and the
  file is left as it is. Truncating cuts the file or extends it with zeroes.
\<close>

section \<open>Bringing pages in\<close>

text \<open>The contract of the operations that only read.\<close>

definition reads :: "file_cfg \<Rightarrow> ('s \<Rightarrow> bytes) \<Rightarrow> 's world \<Rightarrow> ('a, 's world) outcome \<Rightarrow> bool" where
  "reads cfg content w r \<longleftrightarrow>
     unchanged cfg content w (snd r) \<and> (within cfg (w_fsize w) w \<longrightarrow> within cfg (w_fsize w) (snd r)) \<and>
     (\<forall>e. fst r = Inl e \<longrightarrow> flush_fail cfg e) \<and> (\<forall>x. fst r = Inr x \<longrightarrow> tail_ok cfg w \<longrightarrow> tail_ok cfg (snd r))"

lemma reads_bind:
  assumes r: "reads cfg content w r"
    and f: "\<And>x. fst r = Inr x \<Longrightarrow> reads cfg content (snd r) (f x (snd r))"
  shows "reads cfg content w (bindE r f)"
proof (cases "fst r")
  case (Inl e)
  then show ?thesis using r by (simp add: reads_def bindE_cases)
next
  case (Inr x)
  then show ?thesis using r f [OF Inr] by (auto simp: reads_def bindE_cases unchanged_def)
qed

lemma reads_done: "file_inv cfg content {} w \<Longrightarrow> cache_inv cfg w \<Longrightarrow> reads cfg content w (Inr x, w)"
  by (simp add: reads_def unchanged_def)

lemma settled_reads: "settled cfg content {} key w r \<Longrightarrow> reads cfg content w r"
  using settlesD(6) [of cfg content "{}" key w "snd r" "w_fsize w"]
  by (auto simp: settled_def reads_def settles_unchanged)

lemma grows_within:
  assumes g: "grows cfg content w w'" and wi: "within cfg (w_fsize w) w"
  shows "within cfg (w_fsize w) w'"
proof -
  note gD = growsD [OF g]
  have "k * fc_psize cfg < w_fsize w \<and> (pg_dirty p \<longrightarrow> k * fc_psize cfg + pg_size p \<le> w_fsize w)"
    if "(k, p) \<in> set (w_pages w')" for k p
  proof -
    have "k \<in> fst ` set (w_pages w')" using that by force
    then have "k * fc_psize cfg < w_fsize w"
      using gD(11) withinD(2,3) [OF wi] by (metis (no_types, lifting) imageE max.absorb2 prod.collapse)
    then show ?thesis using gD(10) [OF that] withinD(4) [OF wi] by blast
  qed
  then show ?thesis using wi gD(4,5) by (auto simp: within_def)
qed

lemma grows_tail:
  assumes g: "grows cfg content w w'" and ok: "smap_ok (w_pages w)" and t: "tail_ok cfg w"
  shows "tail_ok cfg w'"
proof -
  have "max_dirty (fc_psize cfg) (w_pages w) \<le> max_dirty (fc_psize cfg) (w_pages w')"
    unfolding max_dirty_le
  proof (clarify, goal_cases)
    case (1 k p)
    then have "(k, p) \<in> set (w_pages w')"
      using growsD(9) [OF g, of k p] in_sm_find [OF ok] map_of_SomeD by metis
    then show ?case using 1 by (intro max_dirty_ge)
  qed
  then show ?thesis using t growsD(4-6) [OF g] by (auto simp: tail_ok_def)
qed

lemma grows_reads:
  assumes g: "grows cfg content w w'" and inv: "file_inv cfg content {} w" and r: "snd r = w'"
    and e: "\<And>e. fst r = Inl e \<Longrightarrow> flush_fail cfg e"
  shows "reads cfg content w r"
  using grows_within [OF g] grows_tail [OF g file_invD(2) [OF inv]] growsD(1-4) [OF g] r e
  by (auto simp: reads_def unchanged_def)

text \<open>The chunk of a fetch that GetFetchSize allows.\<close>

lemma run_fetch_grows:
  fixes index w
  assumes ops: "backend_ok ops content" and inv: "file_inv cfg content {} w" and cinv: "cache_inv cfg w"
    and b: "w_bsize w < 2 ^ 64" and n: "n = get_fetch_size cfg [] index w" "0 < n"
  shows "grows cfg content w (snd (run_fetch cfg ops index n w))"
    and "fst (run_fetch cfg ops index n w) = Inl e \<Longrightarrow> ext_fail e"
    and "fst (run_fetch cfg ops index n w) = Inr () \<Longrightarrow> index \<in> fst ` set (w_pages (snd (run_fetch cfg ops index n w)))"
proof -
  have "0 < get_fetch_size cfg [] index w" using n by simp
  note range = get_fetch_size_range [OF file_invD(2,1) [OF inv] this, folded n(1)]
  note spec = run_fetch_spec [OF ops inv cinv b n(2) range(1,3)]
  show "grows cfg content w (snd (run_fetch cfg ops index n w))"
    and "fst (run_fetch cfg ops index n w) = Inl e \<Longrightarrow> ext_fail e"
    and "fst (run_fetch cfg ops index n w) = Inr () \<Longrightarrow> index \<in> fst ` set (w_pages (snd (run_fetch cfg ops index n w)))"
    using spec(1,2) spec(3) [of 0] n(2) by auto
qed

lemma advance_grows:
  assumes ops: "backend_ok ops content" and inv: "file_inv cfg content {} w" and cinv: "cache_inv cfg w"
    and b: "w_bsize w < 2 ^ 64"
  shows "grows cfg content w (advance_from cfg ops is w)"
  by (induction "is")
    (auto simp: Let_def grows_refl [OF inv cinv] intro: run_fetch_grows [OF ops inv cinv b refl])

lemma do_advance_grows:
  assumes "backend_ok ops content" and "file_inv cfg content {} w" and "cache_inv cfg w" and "w_bsize w < 2 ^ 64"
  shows "grows cfg content w (do_advance_read cfg ops index w)"
  using advance_grows [OF assms] grows_refl [OF assms(2,3)] by (simp add: do_advance_read_def)

text \<open>Where nothing is fetched for a page of the file, nothing is stored.\<close>

lemma no_fetch_nothing_stored:
  assumes inv: "file_inv cfg content {} w" and none: "map_of (w_pages w) index = None"
    and lt: "index * fc_psize cfg < w_fsize w" and n: "get_fetch_size cfg [] index w = 0"
  shows "w_bsize w \<le> index * fc_psize cfg"
proof (rule ccontr)
  assume stored: "\<not> w_bsize w \<le> index * fc_psize cfg"
  let ?ps = "fc_psize cfg" and ?last = "(w_bsize w - 1) div fc_psize cfg"
  note iD = file_invD [OF inv]
  have "index \<le> ?last"
  proof -
    have "index * ?ps div ?ps \<le> ?last" using stored by (intro div_le_mono) simp
    then show ?thesis using iD(1) by simp
  qed
  define count where "count = (if index > 0 then min64st (?last - index + 1) (w_fetch w) else 1)"
  define count' where "count' = (case sm_upper_bound (w_pages w) index of None \<Rightarrow> count
                      | Some (k, _) \<Rightarrow> min64st (k - index) count)"
  have g: "(w_fsize w \<le> index * ?ps) = False" "(w_bsize w = 0) = False" "(?last < index) = False"
    "(sm_find (w_pages w) index \<noteq> None) = False"
    using lt stored \<open>index \<le> ?last\<close> none by (auto simp: sm_find_def)
  have "get_fetch_size cfg [] index w = (case List.find (\<lambda>c. is_fetch_pending [] (c + index)) [0..<count'] of
             Some c \<Rightarrow> c | None \<Rightarrow> count')"
    unfolding get_fetch_size_def count'_def count_def by (simp only: Let_def g if_False)
  moreover have "List.find (\<lambda>c. is_fetch_pending [] (c + index)) [0..<count'] = None"
    by (simp add: find_None_iff is_fetch_pending_def)
  ultimately have "count' = 0" using n by simp
  moreover have "0 < count" using iD(10) by (simp add: count_def min64st_def)
  moreover have "0 < k - index" if "sm_upper_bound (w_pages w) index = Some (k, q)" for k q
    using sm_upper_bound_Some [OF iD(2) that] by simp
  ultimately show False by (auto simp: count'_def min64st_def split: option.splits)
qed

section \<open>GetPageRead and ReadPage\<close>

text \<open>What a reader relies on: the page holds the bytes of the file as far as the file goes.\<close>

definition page_serves :: "file_cfg \<Rightarrow> ('s \<Rightarrow> bytes) \<Rightarrow> 's world \<Rightarrow> nat \<Rightarrow> page \<Rightarrow> bool" where
  "page_serves cfg content w index p \<longleftrightarrow>
     (\<forall>j < fc_psize cfg. index * fc_psize cfg + j < w_fsize w \<longrightarrow>
        j < pg_size p \<and> pg_data p ! j = file_view cfg content {} w (index * fc_psize cfg + j))"

lemma page_serves_map:
  assumes inv: "file_inv cfg content {} w" and p: "map_of (w_pages w) index = Some p"
  shows "page_serves cfg content w index p"
  unfolding page_serves_def
proof (intro allI impI)
  fix j assume j: "j < fc_psize cfg" "index * fc_psize cfg + j < w_fsize w"
  have kp: "(index, p) \<in> set (known {} w)" using map_of_SomeD [OF p] by simp
  have "j < pg_size p" using sizes_okD(2) [OF file_invD(3) [OF inv] kp] j by linarith
  then show "j < pg_size p \<and> pg_data p ! j = file_view cfg content {} w (index * fc_psize cfg + j)"
    using file_view_page [OF inv kp j(1)] by (simp add: nth0_def pg_size_def)
qed

lemma page_serves_unchanged:
  "unchanged cfg content w w' \<Longrightarrow> page_serves cfg content w' index p \<longleftrightarrow> page_serves cfg content w index p"
  by (simp add: page_serves_def unchanged_def)

lemma map_of_keys: "map_of m k = Some p \<Longrightarrow> k \<in> fst ` set m"
  by (metis fst_conv image_eqI map_of_SomeD)

lemma inform_read_reads:
  assumes ops: "backend_ok ops content" and inv: "file_inv cfg content {} w" and cinv: "cache_inv cfg w"
    and p: "map_of (w_pages w) index = Some p"
  shows "reads cfg content w (inform_read cfg ops index p w)"
    and "fst (inform_read cfg ops index p w) = Inr q \<Longrightarrow> q = p"
proof -
  have "reads cfg content w (bindE (cm_inform_page cfg ops index (pg_dirty p) True False w) (\<lambda>_ w1. (Inr p, w1)))"
    if "informed cfg"
  proof -
    have s: "settled cfg content {} index w (cm_inform_page cfg ops index (pg_dirty p) True False w)"
      using that by (intro inform_page_settled [OF ops _ _ inv cinv map_of_keys [OF p]]) (auto simp: informed_def)
    then have "settles cfg content {} index w (snd (cm_inform_page cfg ops index (pg_dirty p) True False w))"
      by (simp add: settled_def)
    then show ?thesis by (intro reads_bind [OF settled_reads [OF s]] reads_done) (auto dest: settlesD(1,2))
  qed
  then show "reads cfg content w (inform_read cfg ops index p w)"
    using reads_done [OF inv cinv, of p] by (cases "informed cfg") (simp_all add: inform_read_def)
  show "q = p" if "fst (inform_read cfg ops index p w) = Inr q"
    using that by (auto simp: inform_read_def bindE_cases split: if_splits sum.splits)
qed

text \<open>The empty page that a reader makes where nothing is stored, and what undoes it.\<close>

lemma inform_new_read_reads:
  assumes ops: "backend_ok ops content" and inv: "file_inv cfg content {} w" and cinv: "cache_inv cfg w"
    and p: "map_of (w_pages w) index = Some p" "\<not> pg_dirty p"
  shows "reads cfg content w (inform_new_page_read cfg ops index False True w)"
proof (cases "informed cfg")
  case True
  define r1 where "r1 = cm_inform_page cfg ops index False True False w"
  have s: "settled cfg content {} index w r1" unfolding r1_def
    using True by (intro inform_page_settled [OF ops _ _ inv cinv map_of_keys [OF p(1)]]) (auto simp: informed_def)
  have r: "inform_new_page_read cfg ops index False True w =
      catchE r1 (\<lambda>e w1. if e = MemoryError then (Inl e, forget_page cfg index w1) else (Inl e, w1))"
    using True by (simp add: inform_new_page_read_def r1_def)
  show ?thesis
  proof (cases "fst r1")
    case (Inl e)
    have ss: "settles cfg content {} index w (snd r1)" using s by (simp add: settled_def)
    obtain q where q: "map_of (w_pages (snd r1)) index = Some q"
      using settlesD(7) [OF ss map_of_keys [OF p(1)]] by (metis map_of_eq_None_iff not_None_eq)
    have qc: "\<not> pg_dirty q" using settlesD(8) [OF ss q] p by auto
    have t: "trims cfg content {} {index} (snd r1) (forget_page cfg index (snd r1))"
      using remove_clean_trims(1) [OF settlesD(1,2) [OF ss] q qc] by (simp add: forget_page_def Let_def)
    have "unchanged cfg content (snd r1) (forget_page cfg index (snd r1))" using trimsD(1-4) [OF t] by (simp add: unchanged_def)
    then show ?thesis
      using s Inl settles_unchanged [OF ss] unchanged_trans settlesD(4,6) [OF ss] trimsD(10) [OF t]
      by (simp add: r catchE_cases reads_def settled_def) blast
  next
    case (Inr u)
    then show ?thesis using settled_reads [OF s] by (simp add: r catchE_cases reads_def)
  qed
qed (simp add: inform_new_page_read_def reads_done [OF inv cinv])

lemma get_page_read_spec:
  fixes cfg index
  assumes ops: "backend_ok ops content" and inv: "file_inv cfg content {} w" and cinv: "cache_inv cfg w"
    and wi: "within cfg (w_fsize w) w" and lt: "index * fc_psize cfg < w_fsize w"
  defines "r \<equiv> get_page_read cfg ops index w"
  shows "reads cfg content w r" and "fst r = Inr p \<Longrightarrow> page_serves cfg content w index p"
proof -
  note iD = file_invD [OF inv]
  have b: "w_bsize w < 2 ^ 64" using withinD(2) [OF wi] iD(1,8) by linarith
  have f: "(w_fsize w \<le> index * fc_psize cfg) = False" using lt by simp
  have found: "reads cfg content w (inform_read cfg ops index p w1) \<and>
      (\<forall>q. fst (inform_read cfg ops index p w1) = Inr q \<longrightarrow> page_serves cfg content w index q)"
    if g: "grows cfg content w w1" and p: "map_of (w_pages w1) index = Some p" for w1 p
  proof -
    note ir = inform_read_reads [OF ops growsD(1,2) [OF g] p]
    have "reads cfg content w (Inr p, w1)" by (rule grows_reads [OF g inv]) simp_all
    from reads_bind [OF this, of "\<lambda>p. inform_read cfg ops index p"] ir(1)
    have "reads cfg content w (inform_read cfg ops index p w1)" by simp
    moreover have "page_serves cfg content w index p"
      using page_serves_map [OF growsD(1) [OF g] p] growsD(3,4) [OF g] by (simp add: page_serves_def)
    ultimately show ?thesis using ir(2) by blast
  qed
  have "reads cfg content w r \<and> (\<forall>p. fst r = Inr p \<longrightarrow> page_serves cfg content w index p)"
  proof (cases "map_of (w_pages w) index")
    case (Some p)
    note g = do_advance_grows [OF ops inv cinv b, where index = index]
    have "r = inform_read cfg ops index p (do_advance_read cfg ops index w)"
      using Some by (simp add: r_def get_page_read_def f sm_find_def)
    then show ?thesis using found [OF g growsD(9) [OF g Some]] by simp
  next
    case None
    define n where "n = get_fetch_size cfg [] index w"
    show ?thesis
    proof (cases "n = 0")
      case True
      define p where "p = resize_zeroed (fc_os cfg) (op_junk ops (w_env w)) (fc_psize cfg) \<lparr>pg_data = [], pg_dirty = False\<rparr>"
      define w1 where "w1 = w\<lparr>w_pages := sm_emplace index p (w_pages w)\<rparr>"
      have r: "r = bindE (inform_new_page_read cfg ops index False True w1) (\<lambda>_ w2. (Inr p, w2))"
        using None True unfolding n_def by (simp add: r_def get_page_read_def f sm_find_def Let_def p_def w1_def)
      have empty: "w_bsize w \<le> index * fc_psize cfg"
        using no_fetch_nothing_stored [OF inv None lt] True by (simp add: n_def)
      have k: "index \<notin> fst ` set (w_pages w)" using None by (simp add: map_of_eq_None_iff)
      have reach: "index * fc_psize cfg < max (w_bsize w) (w_fsize w)" using lt by simp
      have sz: "min (fc_psize cfg) (w_fsize w - index * fc_psize cfg) \<le> pg_size p" "pg_size p \<le> fc_psize cfg" "\<not> pg_dirty p"
        by (simp_all add: p_def)
      have bytes: "nth0 (pg_data p) j = srv content w (index * fc_psize cfg + j)" for j
        using empty by (simp add: p_def resize_zeroed_data srv_def nth0_resize_bytes)
      note ac = add_clean_page [OF inv cinv k sz(3) reach sz(1,2) bytes, folded w1_def]
      note nr = inform_new_read_reads [OF ops growsD(1,2) [OF ac(1)] ac(2) sz(3)]
      have "reads cfg content w (Inr (), w1)" by (rule grows_reads [OF ac(1) inv]) simp_all
      from reads_bind [OF this, of "\<lambda>_. inform_new_page_read cfg ops index False True"] nr
      have r1: "reads cfg content w (inform_new_page_read cfg ops index False True w1)" by simp
      have "page_serves cfg content w index p"
        using page_serves_map [OF growsD(1) [OF ac(1)] ac(2)] growsD(3,4) [OF ac(1)] by (simp add: page_serves_def)
      moreover have "reads cfg content w r" unfolding r
        by (rule reads_bind [OF r1]) (use r1 in \<open>auto simp: reads_def unchanged_def\<close>)
      ultimately show ?thesis by (auto simp: r bindE_cases split: sum.splits)
    next
      case False
      then have n: "0 < n" by simp
      define s where "s = run_fetch cfg ops index n w"
      note rf = run_fetch_grows [OF ops inv cinv b n_def n, folded s_def]
      have r: "r = (case sm_find (w_pages (snd s)) index of
              Some p \<Rightarrow> inform_read cfg ops index p (snd s)
            | None \<Rightarrow> (case fst s of Inl e \<Rightarrow> (Inl e, snd s) | Inr _ \<Rightarrow> (Inl Hang, snd s)))"
        unfolding s_def using None False by (simp add: r_def get_page_read_def f sm_find_def Let_def n_def [symmetric])
      show ?thesis
      proof (cases "map_of (w_pages (snd s)) index")
        case (Some p)
        then show ?thesis using found [OF rf(1) Some] by (simp add: r sm_find_def)
      next
        case none: None
        then obtain e where e: "fst s = Inl e"
          using rf(3) by (cases "fst s") (auto simp: map_of_eq_None_iff)
        have "reads cfg content w (Inl e, snd s)"
          by (rule grows_reads [OF rf(1) inv]) (use rf(2) [OF e] in \<open>auto intro: ext_flush_fail\<close>)
        then show ?thesis using none e by (simp add: r sm_find_def)
      qed
    qed
  qed
  then show "reads cfg content w r" and "fst r = Inr p \<Longrightarrow> page_serves cfg content w index p" by auto
qed

text \<open>ReadPage returns the bytes of the file and leaves it as it is.\<close>

lemma read_page_spec:
  fixes cfg index off len
  assumes ops: "backend_ok ops content" and inv: "file_inv cfg content {} w" and cinv: "cache_inv cfg w"
    and wi: "within cfg (w_fsize w) w" and fit: "off + len \<le> fc_psize cfg"
    and range: "index * fc_psize cfg + off + len \<le> w_fsize w" and len: "0 < len"
  defines "r \<equiv> read_page cfg ops index off len w"
  shows "reads cfg content w r"
    and "fst r = Inr bs \<Longrightarrow> bs = take_view (file_view cfg content {} w) (index * fc_psize cfg + off) len"
proof -
  have lt: "index * fc_psize cfg < w_fsize w" using range len by linarith
  note gp = get_page_read_spec [OF ops inv cinv wi lt]
  have r: "r = bindE (get_page_read cfg ops index w) (\<lambda>p w1. (Inr (take len (drop off (pg_data p))), w1))"
    using range by (simp add: r_def read_page_def)
  show "reads cfg content w r" unfolding r
    by (rule reads_bind [OF gp(1)]) (use gp(1) in \<open>auto simp: reads_def unchanged_def\<close>)
  show "bs = take_view (file_view cfg content {} w) (index * fc_psize cfg + off) len" if "fst r = Inr bs"
  proof -
    note t = that
    obtain p where p: "fst (get_page_read cfg ops index w) = Inr p" "bs = take len (drop off (pg_data p))"
      using t by (auto simp: r bindE_cases split: sum.splits)
    have sv: "off + j < pg_size p \<and> pg_data p ! (off + j) = file_view cfg content {} w (index * fc_psize cfg + off + j)"
      if "j < len" for j
    proof -
      have "off + j < fc_psize cfg" "index * fc_psize cfg + (off + j) < w_fsize w" using that fit range by linarith+
      from gp(2) [OF p(1), unfolded page_serves_def, rule_format, OF this] show ?thesis by (simp add: add.assoc)
    qed
    have "off + len \<le> pg_size p" using sv [of "len - 1"] len by linarith
    then show ?thesis using sv by (intro nth_equalityI) (auto simp: p(2) pg_size_def)
  qed
qed

end
