(* ===== verification/File_IO.thy ===== *)
theory File_IO
  imports Read_Correct
begin

text \<open>
  File (src/lib/andromeda/filesystem/File.cpp): reading and writing byte ranges of a file by
  way of its pages, or of the backend directly when caching is off, filling the hole before a
  write of a file that can only be appended to, and truncating and flushing. The page
  operations it relies on are stated as the locale paged_store.
\<close>

section \<open>The code\<close>

text \<open>File::CalcPageSize: the page size is a multiple of the chunk size of the filesystem.\<close>

definition calc_page_size :: "nat \<Rightarrow> nat \<Rightarrow> nat" where
  "calc_page_size st_chunk cf_chunk =
     (if st_chunk \<noteq> 0
      then umul (usub (uadd cf_chunk st_chunk) 1 div st_chunk) st_chunk
      else cf_chunk)"

lemma piece_shorter:
  fixes ps :: nat
  assumes "\<not> stop \<le> byte" and ps: "0 < ps"
  shows "stop - (byte + min64st (stop - byte) (ps + byte div ps * ps - byte)) < stop - byte"
proof -
  have "byte < ps + byte div ps * ps"
    using mod_less_divisor [OF ps, of byte] div_mult_mod_eq [of byte ps] by linarith
  then show ?thesis using assms(1) by (auto simp: min64st_def)
qed

text \<open>
  The loop of ReadBytes from position byte to stop (offset plus length), over the page reads
  of the page manager (rd). With a page size of 0 the source divides by zero.
\<close>

function read_loop :: "(nat \<Rightarrow> nat \<Rightarrow> nat \<Rightarrow> 'w \<Rightarrow> (bytes, 'w) outcome) \<Rightarrow> nat \<Rightarrow> nat \<Rightarrow> nat \<Rightarrow> bytes \<Rightarrow> 'w \<Rightarrow> (bytes, 'w) outcome" where
  "read_loop rd ps byte stop acc w =
     (if stop \<le> byte then (Inr acc, w)
      else if ps = 0 then (Inl AssertFailed, w)
      else let index = byte div ps;
               off = byte - index * ps;
               len = min64st (stop - byte) (ps - off)
           in bindE (rd index off len w) (\<lambda>bs. read_loop rd ps (byte + len) stop (acc @ bs)))"
  by pat_completeness auto
termination
  by (relation "measure (\<lambda>(rd, ps, byte, stop, acc, w). stop - byte)") (auto simp: Let_def intro: piece_shorter)

declare read_loop.simps [simp del]

definition read_bytes :: "file_cfg \<Rightarrow> 's backend_ops \<Rightarrow> nat \<Rightarrow> nat \<Rightarrow> 's world \<Rightarrow> (bytes, 's world) outcome" where
  "read_bytes cfg ops off len w =
     (if uadd off len > w_fsize w then (Inl ReadBounds, w)
      else if fc_cachetype cfg = CacheNone then with_env (op_read_all ops off len (w_env w)) w
      else read_loop (read_page cfg ops) (fc_psize cfg) off (uadd off len) [] w)"

definition read_bytes_max :: "file_cfg \<Rightarrow> 's backend_ops \<Rightarrow> nat \<Rightarrow> nat \<Rightarrow> 's world \<Rightarrow> (bytes, 's world) outcome" where
  "read_bytes_max cfg ops off max_len w =
     (if off \<ge> w_fsize w then (Inr [], w)
      else read_bytes cfg ops off (min64st (w_fsize w - off) max_len) w)"

text \<open>The loop of WriteBytes; buf is what is left of the buffer at position byte.\<close>

function write_loop :: "(bytes \<Rightarrow> nat \<Rightarrow> nat \<Rightarrow> 'w \<Rightarrow> (unit, 'w) outcome) \<Rightarrow> nat \<Rightarrow> nat \<Rightarrow> nat \<Rightarrow> bytes \<Rightarrow> 'w \<Rightarrow> (unit, 'w) outcome" where
  "write_loop wr ps byte stop buf w =
     (if stop \<le> byte then (Inr (), w)
      else if ps = 0 then (Inl AssertFailed, w)
      else let index = byte div ps;
               off = byte - index * ps;
               len = min64st (stop - byte) (ps - off)
           in bindE (wr (take len buf) index off w) (\<lambda>_. write_loop wr ps (byte + len) stop (drop len buf)))"
  by pat_completeness auto
termination
  by (relation "measure (\<lambda>(wr, ps, byte, stop, buf, w). stop - byte)") (auto simp: Let_def intro: piece_shorter)

declare write_loop.simps [simp del]

text \<open>
  File::FixPageAlignment: the rest of the last stored page is written directly, as zeroes up
  to the offset and bytes of the buffer after it; the result is how much of the buffer that was.
\<close>

definition fix_page_alignment ::
  "file_cfg \<Rightarrow> 's backend_ops \<Rightarrow> bytes \<Rightarrow> nat \<Rightarrow> 's world \<Rightarrow> (nat, 's world) outcome" where
  "fix_page_alignment cfg ops buf off w =
     (let bsize = w_bsize w; page_error = bsize mod fc_psize cfg in
      if page_error = 0 then (Inr 0, w)
      else let write_size = min64st (usub (uadd off (length buf)) bsize) (fc_psize cfg - page_error);
               from_zero = min64st (off - bsize) write_size;
               from_buffer = (if from_zero < write_size then write_size - from_zero else 0);
               data = replicate from_zero 0 @ take from_buffer buf
           in bindE (with_env (op_write ops bsize (from_string data) (w_env w)) w) (\<lambda>_ w1.
                (Inr from_buffer, remote_changed cfg (bsize + write_size) w1)))"

text \<open>
  File::WriteBytes and the hole filling it does first when the file has no random writes.
  FillWriteHole calls WriteBytes again for pieces that start at the end of the file; depth is
  fuel for that recursion, which is two deep.
\<close>

fun fill_hole :: "(nat \<Rightarrow> nat \<Rightarrow> 's world \<Rightarrow> (unit, 's world) outcome) \<Rightarrow> nat \<Rightarrow> nat \<Rightarrow> nat \<Rightarrow> nat \<Rightarrow> 's world \<Rightarrow>
    (unit, 's world) outcome" where
  "fill_hole write ps 0 hole off w = (Inl Hang, w)"
| "fill_hole write ps (Suc fuel) hole off w =
     (if off \<le> hole then (Inr (), w)
      else bindE (write hole (min64st (off - hole) ps) w) (\<lambda>_. fill_hole write ps fuel (uadd hole ps) off))"

fun write_bytes_depth :: "nat \<Rightarrow> file_cfg \<Rightarrow> 's backend_ops \<Rightarrow> bytes \<Rightarrow> nat \<Rightarrow> 's world \<Rightarrow> (unit, 's world) outcome" where
  "write_bytes_depth depth cfg ops buf off w =
     (if fc_readonly cfg then (Inl ReadOnlyFS, w)
      else let mode = get_write_mode cfg in
      if fc_cachetype cfg = CacheNone
      then if mode = UPLOAD \<or> mode = APPEND \<and> off \<noteq> w_fsize w then (Inl WriteTypeError, w)
           else bindE (with_env (op_write ops off (from_string buf) (w_env w)) w) (\<lambda>_ w1.
                  (Inr (), remote_changed cfg (max (w_fsize w) (uadd off (length buf))) w1))
      else if mode = UPLOAD \<and> w_exists w then (Inl WriteTypeError, w)
      else if mode = UPLOAD \<and> op_max_upload ops (w_env w) \<noteq> 0 \<and>
              uadd off (length buf) > op_max_upload ops (w_env w) then (Inl WriteSizeError, w)
      else if mode = APPEND \<and> w_exists w \<and> off < w_bsize w then (Inl WriteTypeError, w)
      else bindE (if mode = APPEND \<and> w_exists w then fix_page_alignment cfg ops buf off w else (Inr 0, w))
        (\<lambda>n w1.
           let buf' = drop n buf; off' = off + n in
           bindE (if mode < RANDOM \<and> off' > w_fsize w1
                  then (case depth of 0 \<Rightarrow> (Inl Hang, w1)
                        | Suc d \<Rightarrow> fill_hole (\<lambda>hole n. write_bytes_depth d cfg ops (replicate n 0) hole)
                                     (fc_psize cfg) (Suc (off' - w_fsize w1)) (w_fsize w1) off' w1)
                  else (Inr (), w1))
             (\<lambda>_. write_loop (write_page cfg ops) (fc_psize cfg) off' (uadd off' (length buf')) buf')))"

declare write_bytes_depth.simps [simp del]

definition write_bytes :: "file_cfg \<Rightarrow> 's backend_ops \<Rightarrow> bytes \<Rightarrow> nat \<Rightarrow> 's world \<Rightarrow> (unit, 's world) outcome" where
  "write_bytes = write_bytes_depth 1"

definition file_truncate :: "file_cfg \<Rightarrow> 's backend_ops \<Rightarrow> nat \<Rightarrow> 's world \<Rightarrow> (unit, 's world) outcome" where
  "file_truncate cfg ops new_size w =
     (if fc_readonly cfg then (Inl ReadOnlyFS, w)
      else if get_write_mode cfg = UPLOAD \<or> get_write_mode cfg = APPEND \<and> new_size \<noteq> 0 then (Inl WriteTypeError, w)
      else truncate_file cfg ops new_size w)"

text \<open>File::FlushCache; with nothrow an exception of the backend is dropped.\<close>

definition flush_cache :: "file_cfg \<Rightarrow> 's backend_ops \<Rightarrow> bool \<Rightarrow> 's world \<Rightarrow> (unit, 's world) outcome" where
  "flush_cache cfg ops nothrow w =
     (if nothrow
      then catchE (flush_pages cfg ops w) (\<lambda>e w1. if is_backend_exn e then (Inr (), w1) else (Inl e, w1))
      else flush_pages cfg ops w)"

section \<open>The interface of the page manager\<close>

text \<open>
  What File relies on: good is the state between calls, vw and size the bytes and the size of
  the file, tail the condition that lets a flush store everything. A read or write within one
  page either does its work or fails with the bytes and the size as they were.
\<close>

locale paged_store =
  fixes good :: "'w \<Rightarrow> bool" and tail :: "'w \<Rightarrow> bool" and vw :: "'w \<Rightarrow> nat \<Rightarrow> byte" and size_of :: "'w \<Rightarrow> nat"
    and ps :: nat and fails :: "exn \<Rightarrow> bool"
    and rd :: "nat \<Rightarrow> nat \<Rightarrow> nat \<Rightarrow> 'w \<Rightarrow> (bytes, 'w) outcome"
    and wr :: "bytes \<Rightarrow> nat \<Rightarrow> nat \<Rightarrow> 'w \<Rightarrow> (unit, 'w) outcome"
  assumes page_size: "good w \<Longrightarrow> 0 < ps"
    and rd_keeps: "good w \<Longrightarrow> 0 < len \<Longrightarrow> off + len \<le> ps \<Longrightarrow> i * ps + off + len \<le> size_of w \<Longrightarrow>
      good (snd (rd i off len w)) \<and> vw (snd (rd i off len w)) = vw w \<and> size_of (snd (rd i off len w)) = size_of w"
    and rd_result: "good w \<Longrightarrow> 0 < len \<Longrightarrow> off + len \<le> ps \<Longrightarrow> i * ps + off + len \<le> size_of w \<Longrightarrow>
      (case fst (rd i off len w) of Inl e \<Rightarrow> fails e
       | Inr bs \<Rightarrow> bs = take_view (vw w) (i * ps + off) len \<and> (tail w \<longrightarrow> tail (snd (rd i off len w))))"
    and wr_fails: "good w \<Longrightarrow> buf \<noteq> [] \<Longrightarrow> off + length buf \<le> ps \<Longrightarrow>
      max (size_of w) (i * ps + off + length buf) + ps \<le> 2 ^ 64 \<Longrightarrow> fst (wr buf i off w) = Inl e \<Longrightarrow>
      fails e \<and> vw (snd (wr buf i off w)) = vw w \<and> size_of (snd (wr buf i off w)) = size_of w"
    and wr_writes: "good w \<Longrightarrow> buf \<noteq> [] \<Longrightarrow> off + length buf \<le> ps \<Longrightarrow>
      max (size_of w) (i * ps + off + length buf) + ps \<le> 2 ^ 64 \<Longrightarrow> fst (wr buf i off w) = Inr () \<Longrightarrow>
      good (snd (wr buf i off w)) \<and> (tail w \<longrightarrow> tail (snd (wr buf i off w))) \<and>
      vw (snd (wr buf i off w)) = overlay (vw w) (i * ps + off) buf \<and>
      size_of (snd (wr buf i off w)) = max (size_of w) (i * ps + off + length buf)"
begin

text \<open>One round of either loop.\<close>

lemma piece:
  assumes "0 < ps" and "byte < stop"
  defines "len \<equiv> min64st (stop - byte) (ps - (byte - byte div ps * ps))"
  shows "0 < len" and "byte - byte div ps * ps + len \<le> ps" and "byte + len \<le> stop"
    and "byte div ps * ps + (byte - byte div ps * ps) = byte"
proof -
  have "byte mod ps < ps" using assms(1) by simp
  moreover have "byte - byte div ps * ps = byte mod ps" by (simp add: minus_div_mult_eq_mod)
  ultimately show "0 < len" "byte - byte div ps * ps + len \<le> ps" "byte + len \<le> stop"
    using assms(2) by (auto simp: len_def min64st_def)
  show "byte div ps * ps + (byte - byte div ps * ps) = byte" by simp
qed

lemma read_loop_spec:
  "good w \<Longrightarrow> stop \<le> size_of w \<Longrightarrow>
   good (snd (read_loop rd ps byte stop acc w)) \<and> vw (snd (read_loop rd ps byte stop acc w)) = vw w \<and>
   size_of (snd (read_loop rd ps byte stop acc w)) = size_of w \<and>
   (case fst (read_loop rd ps byte stop acc w) of Inl e \<Rightarrow> fails e
    | Inr bs \<Rightarrow> bs = acc @ take_view (vw w) byte (stop - byte) \<and>
        (tail w \<longrightarrow> tail (snd (read_loop rd ps byte stop acc w))))"
proof (induction "stop - byte" arbitrary: byte acc w rule: less_induct)
  case less
  show ?case
  proof (cases "stop \<le> byte")
    case True
    then show ?thesis using less.prems by (simp add: read_loop.simps [of rd ps byte] take_view_def)
  next
    case False
    define off where "off = byte - byte div ps * ps"
    define len where "len = min64st (stop - byte) (ps - off)"
    have ps: "0 < ps" using less.prems(1) by (rule page_size)
    have pc: "0 < len" "off + len \<le> ps" "byte + len \<le> stop" "byte div ps * ps + off = byte"
      using piece [OF ps, of byte stop] False by (simp_all add: len_def off_def)
    define r1 where "r1 = rd (byte div ps) off len w"
    have fit: "byte div ps * ps + off + len \<le> size_of w" using pc(3,4) less.prems(2) by simp
    note k = rd_keeps [OF less.prems(1) pc(1,2) fit, folded r1_def]
    note v = rd_result [OF less.prems(1) pc(1,2) fit, folded r1_def, unfolded pc(4)]
    have step: "read_loop rd ps byte stop acc w = bindE r1 (\<lambda>bs. read_loop rd ps (byte + len) stop (acc @ bs))"
      using False ps by (subst read_loop.simps) (simp add: Let_def off_def len_def r1_def)
    show ?thesis
    proof (cases "fst r1")
      case (Inl e)
      then show ?thesis using k v by (simp add: step bindE_cases less.prems)
    next
      case (Inr bs)
      have "stop - (byte + len) < stop - byte" using pc(1) False by linarith
      note IH = less.hyps [OF this, of "snd r1" "acc @ bs"]
      have "take_view (vw w) byte (stop - byte) = take_view (vw w) byte len @ take_view (vw w) (byte + len) (stop - (byte + len))"
        using pc(3) take_view_append [of "vw w" byte len "stop - (byte + len)"] by simp
      then show ?thesis using IH k v less.prems Inr
        by (auto simp: step bindE_cases split: sum.splits)
    qed
  qed
qed

lemma write_loop_spec:
  "good w \<Longrightarrow> stop = byte + length buf \<Longrightarrow> max (size_of w) stop + ps \<le> 2 ^ 64 \<Longrightarrow>
   (case fst (write_loop wr ps byte stop buf w) of
      Inr _ \<Rightarrow> good (snd (write_loop wr ps byte stop buf w)) \<and>
        (tail w \<longrightarrow> tail (snd (write_loop wr ps byte stop buf w))) \<and>
        vw (snd (write_loop wr ps byte stop buf w)) = overlay (vw w) byte buf \<and>
        size_of (snd (write_loop wr ps byte stop buf w)) = (if buf = [] then size_of w else max (size_of w) stop)
    | Inl e \<Rightarrow> fails e \<and> (\<exists>m < length buf.
        vw (snd (write_loop wr ps byte stop buf w)) = overlay (vw w) byte (take m buf) \<and>
        size_of (snd (write_loop wr ps byte stop buf w)) = (if m = 0 then size_of w else max (size_of w) (byte + m))))"
proof (induction "length buf" arbitrary: byte buf w rule: less_induct)
  case less
  show ?case
  proof (cases "buf = []")
    case True
    then show ?thesis using less.prems by (simp add: write_loop.simps [of wr ps byte])
  next
    case False
    define off where "off = byte - byte div ps * ps"
    define len where "len = min64st (stop - byte) (ps - off)"
    have lt: "byte < stop" using False less.prems(2) by simp
    have ps: "0 < ps" using less.prems(1) by (rule page_size)
    have pc: "0 < len" "off + len \<le> ps" "byte + len \<le> stop" "byte div ps * ps + off = byte"
      using piece [OF ps lt] by (simp_all add: len_def off_def)
    have le: "len \<le> length buf" using pc(3) less.prems(2) by simp
    define r1 where "r1 = wr (take len buf) (byte div ps) off w"
    have pre: "take len buf \<noteq> []" "off + length (take len buf) \<le> ps"
      "max (size_of w) (byte div ps * ps + off + length (take len buf)) + ps \<le> 2 ^ 64"
      using pc le False less.prems(3) by auto
    have lt2: "length (take len buf) = len" using le by simp
    note f = wr_fails [OF less.prems(1) pre, folded r1_def]
    note s = wr_writes [OF less.prems(1) pre, folded r1_def, unfolded pc(4) lt2]
    have step: "write_loop wr ps byte stop buf w = bindE r1 (\<lambda>_. write_loop wr ps (byte + len) stop (drop len buf))"
      using lt ps by (subst write_loop.simps) (simp add: Let_def off_def len_def r1_def)
    show ?thesis
    proof (cases "fst r1")
      case (Inl e)
      then show ?thesis using f [OF Inl] False by (simp add: step bindE_cases) (intro exI [of _ 0], simp)
    next
      case (Inr u)
      then have s: "good (snd r1)" "tail w \<longrightarrow> tail (snd r1)" "vw (snd r1) = overlay (vw w) byte (take len buf)"
        "size_of (snd r1) = max (size_of w) (byte + len)" using s by simp_all
      define r2 where "r2 = write_loop wr ps (byte + len) stop (drop len buf) (snd r1)"
      have r: "write_loop wr ps byte stop buf w = r2" using Inr by (simp add: step bindE_cases r2_def)
      have shorter: "length (drop len buf) < length buf" using pc(1) False by simp
      have st: "stop = byte + len + length (drop len buf)" using le less.prems(2) by simp
      have mx: "max (size_of (snd r1)) stop + ps \<le> 2 ^ 64" using less.prems(3) pc(3) s(4) by simp
      note IH = less.hyps [OF shorter s(1) st mx, folded r2_def]
      have ov: "overlay (vw (snd r1)) (byte + len) xs = overlay (vw w) byte (take len buf @ xs)" for xs
        using overlay_append [of "vw w" byte "take len buf" xs] unfolding lt2 by (simp only: s(3))
      show ?thesis
      proof (cases "fst r2")
        case (Inl e)
        then obtain m where e: "fails e" and m: "m < length (drop len buf)"
          "vw (snd r2) = overlay (vw (snd r1)) (byte + len) (take m (drop len buf))"
          "size_of (snd r2) = (if m = 0 then size_of (snd r1) else max (size_of (snd r1)) (byte + len + m))"
          using IH by auto
        have "take len buf @ take m (drop len buf) = take (len + m) buf" by (simp add: take_add)
        then have "len + m < length buf" "vw (snd r2) = overlay (vw w) byte (take (len + m) buf)"
          "size_of (snd r2) = (if len + m = 0 then size_of w else max (size_of w) (byte + (len + m)))"
          using m pc(1) by (simp_all add: ov s(4) add.assoc max.assoc)
        then show ?thesis unfolding r Inl sum.case using e by blast
      next
        case (Inr u)
        have "length buf \<le> len \<Longrightarrow> stop = byte + len" using le less.prems(2) by simp
        then show ?thesis using Inr IH s(2) ov [of "drop len buf"] False pc(3)
          by (auto simp: r s(4))
      qed
    qed
  qed
qed

end

text \<open>The page manager of the model provides it.\<close>

definition file_good :: "file_cfg \<Rightarrow> 's backend_ops \<Rightarrow> ('s \<Rightarrow> bytes) \<Rightarrow> 's world \<Rightarrow> bool" where
  "file_good cfg ops content w \<longleftrightarrow>
     backend_ok ops content \<and> file_inv cfg content {} w \<and> cache_inv cfg w \<and> within cfg (w_fsize w) w"

interpretation pages: paged_store "file_good cfg ops content" "tail_ok cfg" "file_view cfg content {}" w_fsize
    "fc_psize cfg" "flush_fail cfg" "read_page cfg ops" "write_page cfg ops" for cfg ops content
proof (unfold_locales, goal_cases)
  case (1 w)
  then show ?case by (auto simp: file_good_def dest: file_invD(1))
next
  case (2 w len off i)
  then show ?case using read_page_spec(1) [of ops content cfg w off len i]
    by (auto simp: file_good_def reads_def unchanged_def)
next
  case (3 w len off i)
  then show ?case using read_page_spec [of ops content cfg w off len i]
    by (auto simp: file_good_def reads_def split: sum.splits)
next
  case (4 w buf off i e)
  then show ?case using write_page_spec [of ops content cfg w buf off _ i, OF _ _ _ _ _ _ refl]
    by (auto simp: file_good_def unchanged_def)
next
  case (5 w buf off i)
  then show ?case using write_page_spec [of ops content cfg w buf off _ i, OF _ _ _ _ _ _ refl]
    by (auto simp: file_good_def)
qed

section \<open>Reading and writing a file\<close>

text \<open>Without a cache there are no pages, and everything is on the backend.\<close>

definition uncached :: "'s world \<Rightarrow> bool" where
  "uncached w \<longleftrightarrow> w_pages w = [] \<and> w_exists w \<and> w_bsize w = w_fsize w"

lemma uncached_view:
  "uncached w \<Longrightarrow> backend_agrees content w \<Longrightarrow> off + len \<le> w_fsize w \<Longrightarrow>
   take len (drop off (content (w_env w))) = take_view (file_view cfg content {} w) off len"
  by (intro nth_equalityI)
    (auto simp: uncached_def backend_agrees_def file_view_def view_def srv_def nth0_def)

lemma no_wrap: "off + len \<le> n \<Longrightarrow> n < 2 ^ 64 \<Longrightarrow> uadd off len = off + len"
  by (simp add: uadd_def u64_def)

lemma file_good_size: "file_good cfg ops content w \<Longrightarrow> w_fsize w < 2 ^ 64"
  using file_invD(1,8) [of cfg content "{}" w] by (simp add: file_good_def)

lemma read_bytes_spec:
  assumes good: "file_good cfg ops content w" and range: "off + len \<le> w_fsize w"
    and direct: "fc_cachetype cfg = CacheNone \<Longrightarrow> uncached w"
  shows "(case fst (read_bytes cfg ops off len w) of
            Inl e \<Rightarrow> flush_fail cfg e
          | Inr bs \<Rightarrow> bs = take_view (file_view cfg content {} w) off len) \<and>
    w_fsize (snd (read_bytes cfg ops off len w)) = w_fsize w \<and>
    file_view cfg content {} (snd (read_bytes cfg ops off len w)) = file_view cfg content {} w"
proof -
  have nw: "uadd off len = off + len" by (rule no_wrap [OF range file_good_size [OF good]])
  show ?thesis
  proof (cases "fc_cachetype cfg = CacheNone")
    case False
    have "read_bytes cfg ops off len w = read_loop (read_page cfg ops) (fc_psize cfg) off (off + len) [] w"
      using range False by (simp add: read_bytes_def nw)
    then show ?thesis
      using pages.read_loop_spec [OF good range, of off "[]"] by (auto split: sum.splits)
  next
    case True
    define r where "r = op_read_all ops off len (w_env w)"
    have r: "read_bytes cfg ops off len w = (fst r, w\<lparr>w_env := snd r\<rparr>)"
      using range True by (simp add: read_bytes_def nw with_env_def r_def)
    have ag: "backend_agrees content w" using good file_invD(4) by (auto simp: file_good_def)
    have u: "uncached w" by (rule direct [OF True])
    have "off + len \<le> length (content (w_env w))" using range u ag by (simp add: uncached_def backend_agrees_def)
    then have "content (snd r) = content (w_env w) \<and>
        (case fst r of Inl e \<Rightarrow> ext_fail e | Inr d \<Rightarrow> d = take len (drop off (content (w_env w))))"
      using good by (simp add: file_good_def backend_ok_def read_all_ok_def r_def)
    moreover from this have "srv content (w\<lparr>w_env := snd r\<rparr>) = srv content w" by (simp add: srv_def fun_eq_iff)
    ultimately show ?thesis using uncached_view [OF u ag range, of cfg]
      by (auto simp: r file_view_def ext_flush_fail split: sum.splits)
  qed
qed

text \<open>C10: ReadBytes of a range of the file returns the bytes of the file, of whatever pages and stored data they are made up, and changes neither the bytes nor the size of the file; it fails only with an exception of the backend or of making room.\<close>

theorem read_bytes_correct:
  assumes good: "file_good cfg ops content w" and range: "off + len \<le> w_fsize w"
    and direct: "fc_cachetype cfg = CacheNone \<Longrightarrow> uncached w"
  shows "(case fst (read_bytes cfg ops off len w) of
            Inl e \<Rightarrow> flush_fail cfg e
          | Inr bs \<Rightarrow> bs = take_view (file_view cfg content {} w) off len) \<and>
    w_fsize (snd (read_bytes cfg ops off len w)) = w_fsize w \<and>
    file_view cfg content {} (snd (read_bytes cfg ops off len w)) = file_view cfg content {} w"
  by (rule read_bytes_spec [OF assms])

text \<open>ReadBytes of a range that ends past the file throws ReadBoundsException before it does anything, provided offset plus length is below 2^64.\<close>

theorem read_bytes_bounds:
  assumes "w_fsize w < off + len" and "off + len < 2 ^ 64"
  shows "read_bytes cfg ops off len w = (Inl ReadBounds, w)"
  using assms by (simp add: read_bytes_def uadd_def u64_def)

text \<open>The bounds check of ReadBytes adds in 64 bits: a range whose end wraps around passes it, and the call returns successfully without having read anything.\<close>

theorem read_bytes_wraps:
  assumes "off < 2 ^ 64" "len < 2 ^ 64" and "2 ^ 64 \<le> off + len" and "off + len - 2 ^ 64 \<le> w_fsize w"
    and "fc_cachetype cfg \<noteq> CacheNone"
  shows "read_bytes cfg ops off len w = (Inr [], w)"
proof -
  have "uadd off len = off + len - 2 ^ 64"
    using assms(1-3) by (simp add: uadd_def u64_def mod_if)
  moreover have "off + len - 2 ^ 64 \<le> off" using assms(2) by simp
  ultimately show ?thesis using assms(4,5) by (simp add: read_bytes_def read_loop.simps [of _ _ off])
qed

text \<open>ReadBytesMax returns the part of the range that the file has.\<close>

theorem read_bytes_max_correct:
  assumes good: "file_good cfg ops content w" and direct: "fc_cachetype cfg = CacheNone \<Longrightarrow> uncached w"
    and ok: "fst (read_bytes_max cfg ops off n w) = Inr bs"
  shows "bs = take_view (file_view cfg content {} w) off (min n (w_fsize w - off))"
proof (cases "w_fsize w \<le> off")
  case True
  then show ?thesis using ok by (simp add: read_bytes_max_def take_view_def)
next
  case False
  then have "off + min (w_fsize w - off) n \<le> w_fsize w" by simp
  from read_bytes_spec [OF good this direct] show ?thesis
    using ok False by (simp add: read_bytes_max_def min64st_def min.commute)
qed

lemma write_bytes_spec:
  assumes good: "file_good cfg ops content w" and mode: "get_write_mode cfg = RANDOM"
    and cached: "fc_cachetype cfg \<noteq> CacheNone" and rw: "\<not> fc_readonly cfg" and buf: "buf \<noteq> []"
    and fits: "max (w_fsize w) (off + length buf) + fc_psize cfg \<le> 2 ^ 64"
  shows "case write_bytes cfg ops buf off w of
      (Inr _, w') \<Rightarrow> file_good cfg ops content w' \<and> (tail_ok cfg w \<longrightarrow> tail_ok cfg w') \<and>
        w_fsize w' = max (w_fsize w) (off + length buf) \<and>
        file_view cfg content {} w' = overlay (file_view cfg content {} w) off buf
    | (Inl e, w') \<Rightarrow> ext_fail e \<and> (\<exists>m < length buf.
        file_view cfg content {} w' = overlay (file_view cfg content {} w) off (take m buf))"
proof -
  have ps: "0 < fc_psize cfg" using pages.page_size [OF good] .
  have "off + length buf < 2 ^ 64" using fits ps by simp
  then have nw: "uadd off (length buf) = off + length buf" by (rule no_wrap [OF order_refl])
  have r: "write_bytes cfg ops buf off w =
      write_loop (write_page cfg ops) (fc_psize cfg) off (off + length buf) buf w"
    using mode cached rw by (simp add: write_bytes_def write_bytes_depth.simps nw)
  show ?thesis
    using pages.write_loop_spec [OF good refl fits] buf mode unfolding r
    by (auto simp: flush_fail_def split: prod.splits sum.splits)
qed


text \<open>C11: WriteBytes to a file with random writes overlays the buffer on the bytes of the file and extends the file to its end; when it fails, a prefix of the buffer has been written.\<close>

theorem write_bytes_correct:
  assumes good: "file_good cfg ops content w" and mode: "get_write_mode cfg = RANDOM"
    and cached: "fc_cachetype cfg \<noteq> CacheNone" and rw: "\<not> fc_readonly cfg" and buf: "buf \<noteq> []"
    and fits: "max (w_fsize w) (off + length buf) + fc_psize cfg \<le> 2 ^ 64"
  shows "case write_bytes cfg ops buf off w of
      (Inr _, w') \<Rightarrow> file_good cfg ops content w' \<and> (tail_ok cfg w \<longrightarrow> tail_ok cfg w') \<and>
        w_fsize w' = max (w_fsize w) (off + length buf) \<and>
        file_view cfg content {} w' = overlay (file_view cfg content {} w) off buf
    | (Inl e, w') \<Rightarrow> ext_fail e \<and> (\<exists>m < length buf.
        file_view cfg content {} w' = overlay (file_view cfg content {} w) off (take m buf))"
  by (rule write_bytes_spec [OF assms])

section \<open>Histories of a file\<close>

text \<open>The calls on an open file, and what they mean for its bytes and its size.\<close>

datatype file_call = Read nat nat | Write nat bytes | Flush

fun call_file :: "file_cfg \<Rightarrow> 's backend_ops \<Rightarrow> file_call \<Rightarrow> 's world \<Rightarrow> (bytes, 's world) outcome" where
  "call_file cfg ops (Read off n) w = read_bytes_max cfg ops off n w"
| "call_file cfg ops (Write off buf) w = bindE (write_bytes cfg ops buf off w) (\<lambda>_ w1. (Inr [], w1))"
| "call_file cfg ops Flush w = bindE (flush_cache cfg ops False w) (\<lambda>_ w1. (Inr [], w1))"

fun call_files :: "file_cfg \<Rightarrow> 's backend_ops \<Rightarrow> file_call list \<Rightarrow> 's world \<Rightarrow> (bytes list, 's world) outcome" where
  "call_files cfg ops [] w = (Inr [], w)"
| "call_files cfg ops (c # cs) w =
     bindE (call_file cfg ops c w) (\<lambda>b w1. bindE (call_files cfg ops cs w1) (\<lambda>bs w2. (Inr (b # bs), w2)))"

fun spec_call :: "file_call \<Rightarrow> (nat \<Rightarrow> byte) \<times> nat \<Rightarrow> bytes \<times> ((nat \<Rightarrow> byte) \<times> nat)" where
  "spec_call (Read off m) (f, n) = (take_view f off (min m (n - off)), (f, n))"
| "spec_call (Write off buf) (f, n) = ([], (overlay f off buf, max n (off + length buf)))"
| "spec_call Flush s = ([], s)"

fun spec_calls :: "file_call list \<Rightarrow> (nat \<Rightarrow> byte) \<times> nat \<Rightarrow> bytes list \<times> ((nat \<Rightarrow> byte) \<times> nat)" where
  "spec_calls [] s = ([], s)"
| "spec_calls (c # cs) s =
     (let (b, s1) = spec_call c s; (bs, s2) = spec_calls cs s1 in (b # bs, s2))"

fun call_fits :: "file_cfg \<Rightarrow> file_call \<Rightarrow> bool" where
  "call_fits cfg (Write off buf) \<longleftrightarrow> buf \<noteq> [] \<and> off + length buf + fc_psize cfg \<le> 2 ^ 64"
| "call_fits cfg _ \<longleftrightarrow> True"

lemma call_file_spec:
  assumes good: "file_good cfg ops content w" and tail: "tail_ok cfg w" and mode: "get_write_mode cfg = RANDOM"
    and cached: "fc_cachetype cfg \<noteq> CacheNone" and rw: "\<not> fc_readonly cfg" and fits: "call_fits cfg c"
  shows "case call_file cfg ops c w of
      (Inr b, w') \<Rightarrow> file_good cfg ops content w' \<and> tail_ok cfg w' \<and>
        spec_call c (file_view cfg content {} w, w_fsize w) = (b, (file_view cfg content {} w', w_fsize w'))
    | (Inl e, w') \<Rightarrow> ext_fail e"
proof (cases c)
  case (Read off n)
  show ?thesis
  proof (cases "w_fsize w \<le> off")
    case True
    then show ?thesis using good tail by (simp add: Read read_bytes_max_def take_view_def)
  next
    case False
    define m where "m = min (w_fsize w - off) n"
    have range: "off + m \<le> w_fsize w" using False by (simp add: m_def)
    have "call_file cfg ops c w = read_loop (read_page cfg ops) (fc_psize cfg) off (off + m) [] w"
      using False cached range
      by (simp add: Read read_bytes_max_def read_bytes_def min64st_def m_def [symmetric]
          no_wrap [OF range file_good_size [OF good]])
    then show ?thesis using pages.read_loop_spec [OF good range, of off "[]"] tail mode
      by (auto simp: Read m_def min.commute flush_fail_def split: prod.splits sum.splits)
  qed
next
  case (Write off buf)
  have "max (w_fsize w) (off + length buf) + fc_psize cfg \<le> 2 ^ 64"
    using fits good file_invD(8) [of cfg content "{}" w] by (auto simp: Write file_good_def max_def)
  from write_bytes_spec [OF good mode cached rw _ this] show ?thesis using fits tail
    by (auto simp: Write bindE_cases split: prod.splits sum.splits)
next
  case Flush
  define r where "r = flush_pages cfg ops w"
  have ops: "backend_ok ops content" and inv: "file_inv cfg content {} w" "cache_inv cfg w"
    and wi: "within cfg (w_fsize w) w" using good by (auto simp: file_good_def)
  note spec = flush_pages_spec [OF ops inv, folded r_def]
  have "file_good cfg ops content (snd r)" using trimsD(1-4,10) [OF spec(1)] ops wi by (simp add: file_good_def)
  then show ?thesis using spec(2,3) trimsD(3,4) [OF spec(1)] tail mode
    by (cases "fst r"; cases r) (auto simp: Flush flush_cache_def r_def [symmetric] flush_fail_def)
qed

lemma spec_calls_Cons:
  "spec_call c s = (b, s1) \<Longrightarrow> spec_calls cs s1 = (bs, s2) \<Longrightarrow> spec_calls (c # cs) s = (b # bs, s2)"
  by simp

lemma file_calls_spec:
  assumes "file_good cfg ops content w" and "tail_ok cfg w" and mode: "get_write_mode cfg = RANDOM"
    and cached: "fc_cachetype cfg \<noteq> CacheNone" and rw: "\<not> fc_readonly cfg"
    and "\<forall>c \<in> set cs. call_fits cfg c"
  shows "case call_files cfg ops cs w of
      (Inr bs, w') \<Rightarrow> file_good cfg ops content w' \<and> tail_ok cfg w' \<and>
        spec_calls cs (file_view cfg content {} w, w_fsize w) = (bs, (file_view cfg content {} w', w_fsize w'))
    | (Inl e, w') \<Rightarrow> ext_fail e"
  using assms(1,2,6)
proof (induction cs arbitrary: w)
  case (Cons c cs)
  define r where "r = call_file cfg ops c w"
  have c: "call_fits cfg c" using Cons.prems(3) by simp
  note spec = call_file_spec [OF Cons.prems(1,2) mode cached rw c, folded r_def]
  show ?case
  proof (cases "fst r")
    case (Inl e)
    then show ?thesis using spec by (cases r) (simp add: r_def [symmetric])
  next
    case (Inr b)
    then have good: "file_good cfg ops content (snd r)" "tail_ok cfg (snd r)"
      and sc: "spec_call c (file_view cfg content {} w, w_fsize w) = (b, (file_view cfg content {} (snd r), w_fsize (snd r)))"
      using spec by (cases r; simp)+
    have "\<forall>c \<in> set cs. call_fits cfg c" using Cons.prems(3) by simp
    note IH = Cons.IH [OF good this]
    show ?thesis
    proof (cases "call_files cfg ops cs (snd r)")
      case (Pair x w2)
      then show ?thesis using IH Inr sc
        by (cases x) (auto simp: r_def [symmetric] bindE_cases simp del: spec_calls.simps intro: spec_calls_Cons)
    qed
  qed
qed simp

text \<open>C1: Any history of reads, writes and flushes of a cached file with random writes returns what the same calls return on a plain byte array, whatever pages are fetched, evicted and flushed on the way; only a failing backend can end it.\<close>

theorem file_calls_refine:
  assumes "file_good cfg ops content w" and "tail_ok cfg w" and mode: "get_write_mode cfg = RANDOM"
    and cached: "fc_cachetype cfg \<noteq> CacheNone" and rw: "\<not> fc_readonly cfg"
    and "\<forall>c \<in> set cs. call_fits cfg c"
  shows "case call_files cfg ops cs w of
      (Inr bs, w') \<Rightarrow> file_good cfg ops content w' \<and> tail_ok cfg w' \<and>
        spec_calls cs (file_view cfg content {} w, w_fsize w) = (bs, (file_view cfg content {} w', w_fsize w'))
    | (Inl e, w') \<Rightarrow> ext_fail e"
  by (rule file_calls_spec [OF assms])

text \<open>C2: When a history of calls ends with a successful flush, the backend stores exactly the bytes that the calls produce on a plain byte array, as far as the file goes; if any of them fails, it is with an exception of the backend or of making room.\<close>

theorem flushed_history_stored:
  assumes good: "file_good cfg ops content w" and tail: "tail_ok cfg w" and mode: "get_write_mode cfg = RANDOM"
    and cached: "fc_cachetype cfg \<noteq> CacheNone" and rw: "\<not> fc_readonly cfg"
    and fits: "\<forall>c \<in> set cs. call_fits cfg c"
  shows "case bindE (call_files cfg ops cs w) (\<lambda>_. flush_cache cfg ops False) of
      (Inr _, w') \<Rightarrow> (case snd (spec_calls cs (file_view cfg content {} w, w_fsize w)) of
         (f, n) \<Rightarrow> take n (content (w_env w')) = take_view f 0 n)
    | (Inl e, w') \<Rightarrow> ext_fail e"
proof -
  note spec = file_calls_spec [OF good tail mode cached rw fits]
  show ?thesis
  proof (cases "call_files cfg ops cs w")
    case (Pair x w1)
    show ?thesis
    proof (cases x)
      case (Inr bs)
      then have g1: "file_good cfg ops content w1" "tail_ok cfg w1"
        and sc: "spec_calls cs (file_view cfg content {} w, w_fsize w) = (bs, (file_view cfg content {} w1, w_fsize w1))"
        using spec Pair by simp_all
      have ops: "backend_ok ops content" and inv: "file_inv cfg content {} w1" "cache_inv cfg w1"
        using g1 by (auto simp: file_good_def)
      note fl = flush_pages_spec [OF ops inv]
      show ?thesis
        using fl(2,3) flushed_stored(2) [OF trimsD(1) [OF fl(1)]] g1(2) trimsD(3,4) [OF fl(1)] sc mode
        by (cases "flush_pages cfg ops w1"; cases "fst (flush_pages cfg ops w1)")
          (auto simp: Pair Inr flush_cache_def flush_fail_def)
    qed (use spec in \<open>simp add: Pair\<close>)
  qed
qed

end
