(* ===== verification/Memory_Server.thy ===== *)
theory Memory_Server
  imports File_IO
begin

text \<open>
  A concrete backend that keeps the file in memory and meets the documented behaviour the
  development assumes of the server (backend_ok), and a file on it. They show that the
  hypotheses of the theorems about files can hold, by running the model on them.
\<close>

section \<open>A server in memory\<close>

text \<open>Pulling a stream to its end, a buffer at a time, as an upload does.\<close>

partial_function (option) pull_all :: "write_func \<Rightarrow> nat \<Rightarrow> bytes option" where
  "pull_all f off =
     (case f off 8192 of (again, bs) \<Rightarrow>
        if again then Option.bind (pull_all f (off + length bs)) (\<lambda>rest. Some (bs @ rest)) else Some bs)"

declare pull_all.simps [code]

lemma pull_all_serves:
  assumes f: "serves f data"
  shows "off \<le> length data \<Longrightarrow> pull_all f off = Some (drop off data)"
proof (induction "length data - off" arbitrary: off rule: less_induct)
  case less
  show ?case
  proof (cases "off = length data")
    case True
    then have "f off 8192 = (False, [])" using f by (simp add: serves_def)
    then show ?thesis using True by (subst pull_all.simps) simp
  next
    case False
    then have lt: "off < length data" using less.prems by simp
    then obtain m where m: "0 < m" "off + m \<le> length data" "f off 8192 = (True, take m (drop off data))"
      using f unfolding serves_def by (metis linorder_not_le zero_less_numeral)
    have "length data - (off + m) < length data - off" using m lt by simp
    from less.hyps [OF this m(2)] have "pull_all f (off + m) = Some (drop (off + m) data)" .
    moreover have "length (take m (drop off data)) = m" using m(2) by simp
    moreover have "take m (drop off data) @ drop (off + m) data = drop off data"
      by (metis append_take_drop_id drop_drop add.commute)
    ultimately show ?thesis by (subst pull_all.simps) (simp add: m(3))
  qed
qed

definition mem_store :: "write_func \<Rightarrow> (bytes \<Rightarrow> bytes) \<Rightarrow> bytes \<Rightarrow> (unit, bytes) outcome" where
  "mem_store f g s = (case pull_all f 0 of None \<Rightarrow> (Inl (BackendError ''stream''), s) | Some d \<Rightarrow> (Inr (), g d))"

definition mem_ops :: "bytes backend_ops" where
  "mem_ops = \<lparr>op_read = \<lambda>off len s. ((if len = 0 then [] else [(0, take len (drop off s))], None), s),
     op_read_all = \<lambda>off len s. (Inr (take len (drop off s)), s),
     op_write = \<lambda>off f s. mem_store f (patch s off) s,
     op_truncate = \<lambda>n s. (Inr (), resize_bytes s n),
     op_create = \<lambda>s. (Inr 0, []),
     op_upload = \<lambda>f oneshot s. (let r = mem_store f id s in
        (case fst r of Inl e \<Rightarrow> Inl e | Inr _ \<Rightarrow> Inr (length (snd r)), snd r)),
     op_max_upload = \<lambda>s. 0, op_target = \<lambda>s n. n, op_junk = \<lambda>s i. 170,
     op_wait_evict = \<lambda>me s c. (None, c), op_wait_flush = \<lambda>me s c. (None, c)\<rparr>"

lemma mem_ok: "backend_ok mem_ops id"
proof -
  have st: "mem_store f g s = (Inr (), g d)" if "serves f d" for f g s d
    using pull_all_serves [OF that, of 0] by (simp add: mem_store_def)
  have 1: "read_ok mem_ops id" and 2: "read_all_ok mem_ops id" and 3: "truncate_ok mem_ops id"
    and 4: "create_ok mem_ops id" and 5: "wait_ok mem_ops"
    by (auto simp: mem_ops_def read_ok_def read_all_ok_def truncate_ok_def create_ok_def wait_ok_def only_others_def Let_def)
  have "write_ok mem_ops id" "upload_ok mem_ops id"
    using st by (auto simp: mem_ops_def write_ok_def upload_ok_def Let_def)
  then show ?thesis using 1 2 3 4 5 by (simp add: backend_ok_def)
qed

section \<open>A file on it\<close>

text \<open>Ten bytes on the server, pages of four bytes, nothing loaded.\<close>

definition ex_cfg :: file_cfg where
  "ex_cfg = \<lparr>fc_me = 1, fc_psize = 4, fc_os = 4, fc_fsmode = RANDOM, fc_randwrite = True, fc_readonly = False,
     fc_cachetype = CacheNormal, fc_cachemgr = True, fc_threads = False,
     fc_opts = \<lparr>co_memory_limit = 12, co_evict_frac = 16\<rparr>, fc_ahead = 2, fc_maxfrac = 4\<rparr>"

definition ex_world :: "bytes world" where
  "ex_world = \<lparr>w_pages = [], w_fsize = 10, w_fetch = 1, w_bw = bw_init, w_deferred = [], w_bsize = 10,
     w_exists = True, w_cache = cache_init, w_env = [0, 1, 2, 3, 4, 5, 6, 7, 8, 9]\<rparr>"

lemma ex_good: "file_good ex_cfg mem_ops id ex_world" and ex_tail: "tail_ok ex_cfg ex_world"
proof -
  have "nth0 [0, 1, 2, 3, 4, 5, 6, 7, 8, 9] i = 0" if "10 \<le> i" for i using that by (simp add: nth0_def)
  then have "file_inv ex_cfg id {} ex_world"
    by (auto simp: file_inv_def ex_cfg_def ex_world_def smap_ok_def sizes_ok_def backend_agrees_def
        clean_agrees_def srv_def file_view_def view_def)
  moreover have "cache_inv ex_cfg ex_world" by (simp add: cache_inv_def ex_world_def cm_keys_def cache_init_def [THEN arg_cong [where f = cm_pages]])
  ultimately show "file_good ex_cfg mem_ops id ex_world"
    by (simp add: file_good_def mem_ok within_def ex_world_def)
  show "tail_ok ex_cfg ex_world" by (simp add: tail_ok_def ex_world_def)
qed

section \<open>The theorems on this file\<close>

lemma ex_cfg_simps [simp]:
  "get_write_mode ex_cfg = RANDOM" "fc_cachetype ex_cfg = CacheNormal" "fc_readonly ex_cfg = False" "fc_psize ex_cfg = 4"
  "w_fsize ex_world = 10"
  by (simp_all add: get_write_mode_def ex_cfg_def ex_world_def)

lemma ex_view: "file_view ex_cfg id {} ex_world i = nth0 [0, 1, 2, 3, 4, 5, 6, 7, 8, 9] i"
  by (auto simp: file_view_def view_def ex_world_def srv_def nth0_def)

lemma read_bytes_correct_witness:
  "case fst (read_bytes ex_cfg mem_ops 3 4 ex_world) of
     Inl e \<Rightarrow> flush_fail ex_cfg e | Inr bs \<Rightarrow> bs = [3, 4, 5, 6]"
  using read_bytes_correct [OF ex_good, of 3 4]
  by (simp add: ex_view take_view_def nth0_def upt_rec split: sum.splits)

lemma read_bytes_bounds_witness: "read_bytes ex_cfg mem_ops 8 3 ex_world = (Inl ReadBounds, ex_world)"
  by (rule read_bytes_bounds) simp_all

lemma read_bytes_wraps_witness: "read_bytes ex_cfg mem_ops (2 ^ 64 - 1) 2 ex_world = (Inr [], ex_world)"
  by (rule read_bytes_wraps) simp_all

lemma read_bytes_max_correct_witness:
  "case fst (read_bytes_max ex_cfg mem_ops 99 7 ex_world) of Inl e \<Rightarrow> False | Inr bs \<Rightarrow> bs = []"
  using read_bytes_max_correct [OF ex_good, of 99 7 "[]"]
  by (simp add: read_bytes_max_def take_view_def)

lemma write_bytes_correct_witness:
  "case write_bytes ex_cfg mem_ops [70, 71] 3 ex_world of
     (Inr _, w) \<Rightarrow> take_view (file_view ex_cfg id {} w) 2 4 = [2, 70, 71, 5] \<and> w_fsize w = 10
   | (Inl e, w) \<Rightarrow> ext_fail e"
  using write_bytes_correct [OF ex_good, of "[70, 71]" 3]
  by (auto simp: ex_view take_view_def nth0_def upt_rec overlay_def split: prod.splits sum.splits)

lemma file_calls_refine_witness:
  "case call_files ex_cfg mem_ops [Write 3 [70, 71], Read 2 4] ex_world of
     (Inr bs, w) \<Rightarrow> bs = [[], [2, 70, 71, 5]] | (Inl e, w) \<Rightarrow> ext_fail e"
  using file_calls_refine [OF ex_good ex_tail, of "[Write 3 [70, 71], Read 2 4]"]
  by (auto simp: ex_view take_view_def nth0_def upt_rec overlay_def split: prod.splits sum.splits)

lemma flushed_history_stored_witness:
  "case bindE (call_files ex_cfg mem_ops [Write 3 [70, 71]] ex_world) (\<lambda>_. flush_cache ex_cfg mem_ops False) of
     (Inr _, w) \<Rightarrow> take 10 (w_env w) = [0, 1, 2, 70, 71, 5, 6, 7, 8, 9] | (Inl e, w) \<Rightarrow> ext_fail e"
  using flushed_history_stored [OF ex_good ex_tail, of "[Write 3 [70, 71]]"]
  by (auto simp: ex_view take_view_def nth0_def upt_rec overlay_def split: prod.splits sum.splits)

end
