(* ===== verification/Base64.thy ===== *)
theory Base64
  imports A2_Prelude
begin

text \<open>
  base64.hpp (src/lib/andromeda/base64.hpp): the encoder, over 32-bit words as in the source,
  and a decoder that serves as its specification.
\<close>

unbundle bit_operations_syntax

section \<open>The code\<close>

definition encode_lookup :: string where
  "encode_lookup = ''ABCDEFGHIJKLMNOPQRSTUVWXYZabcdefghijklmnopqrstuvwxyz0123456789+/''"

definition lookup6 :: "32 word \<Rightarrow> char" where
  "lookup6 w = encode_lookup ! unat w"

definition b64_temp :: "byte \<Rightarrow> byte \<Rightarrow> byte \<Rightarrow> 32 word" where
  "b64_temp a b c = push_bit 16 (ucast a) OR push_bit 8 (ucast b) OR ucast c"

fun b64_encode :: "bytes \<Rightarrow> string" where
  "b64_encode (a # b # c # rest) =
     (let temp = b64_temp a b c in
      [lookup6 (drop_bit 18 (temp AND 0x00FC0000)), lookup6 (drop_bit 12 (temp AND 0x0003F000)),
       lookup6 (drop_bit 6 (temp AND 0x00000FC0)), lookup6 (temp AND 0x0000003F)] @ b64_encode rest)"
| "b64_encode [a, b] =
     (let temp = b64_temp a b 0 in
      [lookup6 (drop_bit 18 (temp AND 0x00FC0000)), lookup6 (drop_bit 12 (temp AND 0x0003F000)),
       lookup6 (drop_bit 6 (temp AND 0x00000FC0)), CHR ''=''])"
| "b64_encode [a] =
     (let temp = b64_temp a 0 0 in
      [lookup6 (drop_bit 18 (temp AND 0x00FC0000)), lookup6 (drop_bit 12 (temp AND 0x0003F000)), CHR ''='', CHR ''=''])"
| "b64_encode [] = []"

section \<open>A decoder\<close>

definition value6 :: "char \<Rightarrow> 32 word" where
  "value6 c = of_nat (length (takeWhile (\<lambda>d. d \<noteq> c) encode_lookup))"

definition b64_word :: "char \<Rightarrow> char \<Rightarrow> char \<Rightarrow> char \<Rightarrow> 32 word" where
  "b64_word p q r s = push_bit 18 (value6 p) OR push_bit 12 (value6 q) OR push_bit 6 (value6 r) OR value6 s"

fun b64_decode :: "string \<Rightarrow> bytes" where
  "b64_decode (p # q # r # s # rest) =
     (if r = CHR ''='' then [ucast (drop_bit 16 (b64_word p q (CHR ''A'') (CHR ''A'')))]
      else if s = CHR ''='' then (let w = b64_word p q r (CHR ''A'') in [ucast (drop_bit 16 w), ucast (drop_bit 8 w)])
      else (let w = b64_word p q r s in [ucast (drop_bit 16 w), ucast (drop_bit 8 w), ucast w]) @ b64_decode rest)"
| "b64_decode _ = []"

section \<open>Round trip\<close>

lemma lookup_table:
  "\<forall>i \<in> set [0..<64]. length (takeWhile (\<lambda>d. d \<noteq> encode_lookup ! i) encode_lookup) = i \<and> encode_lookup ! i \<noteq> CHR ''=''"
  by code_simp

lemma masks:
  "(0x3F :: 32 word) = mask 6" "(0xFC0 :: 32 word) = push_bit 6 (mask 6)"
  "(0x3F000 :: 32 word) = push_bit 12 (mask 6)" "(0xFC0000 :: 32 word) = push_bit 18 (mask 6)"
  by (simp_all add: mask_eq_exp_minus_1 push_bit_eq_mult)

lemma lookup6_inverse:
  fixes w :: "32 word"
  assumes "take_bit 6 w = w"
  shows "value6 (lookup6 w) = w" and "lookup6 w \<noteq> CHR ''=''"
proof -
  have "unat (take_bit 6 w) < 2 ^ 6" by (simp only: unsigned_take_bit_eq take_bit_nat_less_exp)
  then have "unat w \<in> set [0..<64]" using assms by simp
  from lookup_table [rule_format, OF this]
  show "value6 (lookup6 w) = w" "lookup6 w \<noteq> CHR ''=''" by (simp_all add: value6_def lookup6_def)
qed

text \<open>The four six-bit pieces of a 24-bit group.\<close>

definition piece :: "nat \<Rightarrow> 32 word \<Rightarrow> 32 word" where
  "piece k t = drop_bit (6 * k) (t AND push_bit (6 * k) (mask 6))"

lemma piece_six: "take_bit 6 (piece k t) = piece k t"
  unfolding piece_def by (rule bit_word_eqI) (auto simp: bit_simps)

lemmas piece_values [simp] = lookup6_inverse [OF piece_six]

lemma encode_pieces:
  "b64_encode (a # b # c # rest) = map lookup6 (map (\<lambda>k. piece k (b64_temp a b c)) [3, 2, 1, 0]) @ b64_encode rest"
  "b64_encode [a, b] = map lookup6 (map (\<lambda>k. piece k (b64_temp a b 0)) [3, 2, 1]) @ ''=''"
  "b64_encode [a] = map lookup6 (map (\<lambda>k. piece k (b64_temp a 0 0)) [3, 2]) @ ''==''"
  by (simp_all add: Let_def piece_def masks)

lemma rejoin:
  "push_bit 18 (piece 3 t) OR push_bit 12 (piece 2 t) OR push_bit 6 (piece (Suc 0) t) OR piece 0 t = take_bit 24 t"
proof (rule bit_word_eqI)
  fix n :: nat
  have "18 \<le> n \<Longrightarrow> 18 + (n - 18) = n" "12 \<le> n \<Longrightarrow> 12 + (n - 12) = n" "6 \<le> n \<Longrightarrow> 6 + (n - 6) = n" by simp_all
  moreover assume "n < LENGTH(32)"
  ultimately show "bit (push_bit 18 (piece 3 t) OR push_bit 12 (piece 2 t) OR push_bit 6 (piece (Suc 0) t) OR piece 0 t) n =
      bit (take_bit 24 t) n"
    by (cases "n < 6"; cases "n < 12"; cases "n < 18"; cases "n < 24") (auto simp: piece_def bit_simps)
qed

lemma rejoin_word:
  "b64_word (lookup6 (piece 3 t)) (lookup6 (piece 2 t)) (lookup6 (piece (Suc 0) t)) (lookup6 (piece 0 t)) = take_bit 24 t"
  by (simp only: b64_word_def piece_values rejoin)

lemma value6_A [simp]: "value6 (CHR ''A'') = 0"
  by code_simp

lemma value6_zero [simp]: "value6 (lookup6 0) = 0"
  by (rule lookup6_inverse) simp

lemma byte_bit: "bit (b :: byte) n \<Longrightarrow> n < 8"
  by (auto dest: bit_imp_le_length)

lemma temp_bytes:
  "ucast (drop_bit 16 (take_bit 24 (b64_temp a b c))) = a" "ucast (drop_bit 8 (take_bit 24 (b64_temp a b c))) = b"
  "ucast (take_bit 24 (b64_temp a b c)) = c"
  unfolding b64_temp_def by (rule bit_word_eqI; auto simp: bit_simps dest: byte_bit)+

text \<open>With one or two bytes of padding the low bits of the group are zero.\<close>

lemma padded:
  "piece 0 (b64_temp a b 0) = 0" "piece (Suc 0) (b64_temp a 0 0) = 0"
  unfolding b64_temp_def piece_def by (rule bit_word_eqI; auto simp: bit_simps)+

lemma rejoin_padded:
  "b64_word (lookup6 (piece 3 (b64_temp a b 0))) (lookup6 (piece 2 (b64_temp a b 0))) (lookup6 (piece (Suc 0) (b64_temp a b 0))) (CHR ''A'') =
     take_bit 24 (b64_temp a b 0)"
  "b64_word (lookup6 (piece 3 (b64_temp a 0 0))) (lookup6 (piece 2 (b64_temp a 0 0))) (CHR ''A'') (CHR ''A'') =
     take_bit 24 (b64_temp a 0 0)"
  using rejoin_word [of "b64_temp a b 0"] rejoin_word [of "b64_temp a 0 0"] padded [of a] padded(1) [of a b]
  by (simp_all add: b64_word_def)

lemma b64_decode_encode_spec: "b64_decode (b64_encode xs) = xs"
  by (induction xs rule: b64_encode.induct)
    (simp_all only: encode_pieces, simp_all add: Let_def rejoin_word rejoin_padded temp_bytes)

text \<open>C38: Decoding what base64::encode makes of a byte string gives the bytes back.\<close>

theorem b64_decode_encode: "b64_decode (b64_encode xs) = xs"
  by (rule b64_decode_encode_spec)

text \<open>base64::encode makes four characters of every started group of three bytes, as the reserve at its start computes.\<close>

theorem b64_encode_length: "length (b64_encode xs) = (length xs div 3 + (if length xs mod 3 > 0 then 1 else 0)) * 4"
proof (induction xs rule: b64_encode.induct)
  case (1 a b c rest)
  have "(3 + n) div 3 = Suc (n div 3)" "(3 + n) mod 3 = n mod 3" for n :: nat by presburger+
  then show ?case using 1 by (simp add: Let_def)
qed (simp_all add: Let_def)

end
