(* ===== verification/String_Util.thy ===== *)
theory String_Util
  imports A2_Prelude
begin

text \<open>
  StringUtil (src/lib/andromeda/StringUtil.cpp): splitting and joining, paths, trimming,
  replacing and escaping, and byte counts with unit suffixes. A std::string is a list of
  characters; the standard library's find, stoul and to_string are written out.
\<close>

section \<open>Standard library\<close>

fun starts_with :: "string \<Rightarrow> string \<Rightarrow> bool" where
  "starts_with s [] = True"
| "starts_with [] (p # ps) = False"
| "starts_with (c # s) (p # ps) \<longleftrightarrow> c = p \<and> starts_with s ps"

text \<open>std::string::find from the start of the string.\<close>

fun str_find :: "string \<Rightarrow> string \<Rightarrow> nat option" where
  "str_find pat s =
     (if starts_with s pat then Some 0
      else case s of [] \<Rightarrow> None | c # s' \<Rightarrow> map_option Suc (str_find pat s'))"

declare str_find.simps [simp del]

lemma starts_with_iff: "starts_with s p \<longleftrightarrow> (\<exists>t. s = p @ t)"
  by (induction s p rule: starts_with.induct) auto

lemma str_find_Some:
  "str_find pat s = Some i \<Longrightarrow> \<exists>t. s = take i s @ pat @ t \<and> i \<le> length s"
proof (induction s arbitrary: i)
  case Nil
  then show ?case by (auto simp: str_find.simps [of _ "[]"] starts_with_iff split: if_splits)
next
  case (Cons c s)
  show ?case
  proof (cases "starts_with (c # s) pat")
    case True
    then show ?thesis using Cons.prems by (auto simp: str_find.simps [of _ "c # s"] starts_with_iff)
  next
    case False
    then obtain j where j: "str_find pat s = Some j" "i = Suc j"
      using Cons.prems by (auto simp: str_find.simps [of _ "c # s"])
    then show ?thesis using Cons.IH [OF j(1)] by auto
  qed
qed

lemma str_find_length:
  assumes "str_find pat s = Some i"
  shows "i + length pat \<le> length s"
proof -
  obtain t where t: "s = take i s @ pat @ t" and i: "i \<le> length s" using str_find_Some [OF assms] by blast
  have "length s = length (take i s @ pat @ t)" by (rule arg_cong [OF t])
  then show ?thesis using i by simp
qed

text \<open>std::isspace and std::tolower of the C locale.\<close>

definition is_space :: "char \<Rightarrow> bool" where
  "is_space c \<longleftrightarrow> c = CHR '' '' \<or> (9 \<le> (of_char c :: nat) \<and> (of_char c :: nat) \<le> 13)"

definition to_lower :: "char \<Rightarrow> char" where
  "to_lower c = (if 65 \<le> (of_char c :: nat) \<and> (of_char c :: nat) \<le> 90 then char_of (of_char c + 32 :: nat) else c)"

definition is_digit :: "char \<Rightarrow> bool" where
  "is_digit c \<longleftrightarrow> 48 \<le> (of_char c :: nat) \<and> (of_char c :: nat) \<le> 57"

definition digit_val :: "char \<Rightarrow> nat" where
  "digit_val c = of_char c - 48"

text \<open>std::to_string of an unsigned number.\<close>

fun nat_str :: "nat \<Rightarrow> string" where
  "nat_str n = (if n < 10 then [char_of (48 + n)] else nat_str (n div 10) @ [char_of (48 + n mod 10)])"

declare nat_str.simps [simp del]

definition digits_val :: "string \<Rightarrow> nat" where
  "digits_val s = foldl (\<lambda>a c. a * 10 + digit_val c) 0 s"

text \<open>
  std::stoul in base 10: leading white space, an optional sign, then digits; what follows the
  digits is ignored. None stands for std::invalid_argument or std::out_of_range (both
  std::logic_error). A negative number is negated in 64 bits.
\<close>

definition stoul :: "string \<Rightarrow> nat option" where
  "stoul s =
     (let t = dropWhile is_space s;
          (neg, u) = (case t of [] \<Rightarrow> (False, t)
                      | c # t' \<Rightarrow> if c = CHR ''-'' then (True, t') else if c = CHR ''+'' then (False, t') else (False, t));
          ds = takeWhile is_digit u;
          n = digits_val ds
      in if ds = [] \<or> n \<ge> 2 ^ 64 then None
         else Some (if neg then usub 0 n else n))"

section \<open>The code\<close>

fun implode :: "string \<Rightarrow> string list \<Rightarrow> string" where
  "implode glue [] = []"
| "implode glue [x] = x"
| "implode glue (x # y # xs) = x @ glue @ implode glue (y # xs)"

text \<open>
  The loop of explode: el is what skipped delimiters have gathered for the next element. The
  delimiter is not empty here.
\<close>

function explode_loop :: "string \<Rightarrow> nat \<Rightarrow> nat \<Rightarrow> string \<Rightarrow> string \<Rightarrow> nat \<Rightarrow> string list \<Rightarrow> string list" where
  "explode_loop delim skip max_n str el skipped acc =
     (if delim = [] \<or> \<not> length acc + 1 < max_n then acc @ [el @ str]
      else case str_find delim str of
             None \<Rightarrow> acc @ [el @ str]
           | Some seg_end \<Rightarrow>
               let el' = el @ take seg_end str; rest = drop (seg_end + length delim) str in
               if skipped \<ge> skip
               then explode_loop delim skip max_n rest [] skipped (acc @ [el'])
               else explode_loop delim skip max_n rest (el' @ delim) (skipped + 1) acc)"
  by pat_completeness auto
termination
proof (relation "measure (\<lambda>(delim, skip, max_n, str, el, skipped, acc). length str)", goal_cases)
  case (2 delim skip max_n str el skipped acc seg_end)
  then show ?case using str_find_length [OF 2(2)] by (cases delim) auto
next
  case (3 delim skip max_n str el skipped acc seg_end)
  then show ?case using str_find_length [OF 3(2)] by (cases delim) auto
qed simp

declare explode_loop.simps [simp del]

definition explode :: "string \<Rightarrow> string \<Rightarrow> nat \<Rightarrow> bool \<Rightarrow> nat \<Rightarrow> string list" where
  "explode str delim skip reverse max_n =
     (if str = [] then []
      else if delim = [] then [str]
      else let r = explode_loop delim skip max_n (if reverse then rev str else str) [] 0 []
           in if reverse then rev (map rev r) else r)"

definition split_pair :: "string \<Rightarrow> string \<Rightarrow> nat \<Rightarrow> bool \<Rightarrow> string \<times> string" where
  "split_pair str delim skip reverse =
     (let xs = explode str delim skip reverse 2;
          pad = replicate (2 - length xs) [];
          ys = (if \<not> reverse then xs @ pad else pad @ xs)
      in (ys ! 0, ys ! 1))"

definition split_path :: "string \<Rightarrow> string \<times> string" where
  "split_path str = split_pair (rev (dropWhile (\<lambda>c. c = CHR ''/'') (rev str))) ''/'' 0 True"

definition starts_with_impl :: "string \<Rightarrow> string \<Rightarrow> bool" where
  "starts_with_impl str start = (if length start > length str then False else take (length start) str = start)"

definition ends_with :: "string \<Rightarrow> string \<Rightarrow> bool" where
  "ends_with str ending =
     (if length ending > length str then False else take (length ending) (rev str) = rev ending)"

text \<open>trim_void: start and end are found separately, on the whole string.\<close>

definition trim :: "string \<Rightarrow> string" where
  "trim str =
     (let start = length (takeWhile is_space str);
          stop = length str - length (takeWhile is_space (rev str))
      in drop start (take stop str))"

definition str_lower :: "string \<Rightarrow> string" where
  "str_lower str = map to_lower str"

text \<open>
  replaceAll_void: pos is the position from which find searches; the text before it is not
  looked at again.
\<close>

function replace_from :: "string \<Rightarrow> string \<Rightarrow> nat \<Rightarrow> string \<Rightarrow> string" where
  "replace_from pat repl pos str =
     (if pat = [] then str
      else case str_find pat (drop pos str) of
             None \<Rightarrow> str
           | Some i \<Rightarrow>
               replace_from pat repl (pos + i + length repl)
                 (take (pos + i) str @ repl @ drop (pos + i + length pat) str))"
  by pat_completeness auto
termination
proof (relation "measure (\<lambda>(pat, repl, pos, str). length str - pos)", goal_cases)
  case (2 pat repl pos str i)
  have "i + length pat \<le> length str - pos" using str_find_length [OF 2(2)] by simp
  moreover obtain n where "length pat = Suc n" using 2(1) by (cases pat) auto
  ultimately show ?case by simp
qed simp

declare replace_from.simps [simp del]

definition replace_all :: "string \<Rightarrow> string \<Rightarrow> string \<Rightarrow> string" where
  "replace_all str pat repl = replace_from pat repl 0 str"

definition escape_all :: "string \<Rightarrow> char list \<Rightarrow> char \<Rightarrow> string" where
  "escape_all str delims escape =
     fold (\<lambda>delim s. replace_all s [delim] ([escape] @ [delim])) delims
       (replace_all str [escape] [escape, escape])"

definition string_to_bool :: "string \<Rightarrow> bool" where
  "string_to_bool stri =
     (let str = trim stri
      in str \<noteq> [] \<and> str \<noteq> ''0'' \<and> str \<noteq> ''false'' \<and> str \<noteq> ''off'' \<and> str \<noteq> ''no'')"

text \<open>The cases of the switch fall through: P multiplies five times, K once.\<close>

definition unit_power :: "char \<Rightarrow> nat" where
  "unit_power u =
     (if u = CHR ''P'' then 5 else if u = CHR ''T'' then 4 else if u = CHR ''G'' then 3
      else if u = CHR ''M'' then 2 else if u = CHR ''K'' then 1 else 0)"

definition string_to_bytes :: "string \<Rightarrow> nat option" where
  "string_to_bytes stri =
     (let str = trim stri in
      if str = [] then Some 0
      else let u = last str;
               str' = (if \<not> is_digit u then trim (butlast str) else str)
           in if str' = [] then Some 0
              else map_option (\<lambda>n. ((\<lambda>x. umul x 1024) ^^ unit_power u) n) (stoul str'))"

fun scale_unit :: "nat \<Rightarrow> nat \<Rightarrow> nat \<times> nat" where
  "scale_unit idx bytes =
     (if bytes \<ge> 1024 \<and> bytes mod 1024 = 0 \<and> idx < 5
      then scale_unit (idx + 1) (bytes div 1024) else (idx, bytes))"

declare scale_unit.simps [simp del]

definition bytes_to_string :: "nat \<Rightarrow> string" where
  "bytes_to_string bytes =
     (let (idx, n) = scale_unit 0 bytes
      in nat_str n @ [[], ''K'', ''M'', ''G'', ''T'', ''P''] ! idx)"

section \<open>Splitting and joining\<close>

lemma implode_snoc: "xs \<noteq> [] \<Longrightarrow> implode g (xs @ [x]) = implode g xs @ g @ x"
  by (induction g xs rule: implode.induct) auto

lemma implode_snoc2: "implode g (xs @ [y, x]) = implode g (xs @ [y]) @ g @ x"
  using implode_snoc [of "xs @ [y]" g x] by simp

lemma implode_rev: "rev (implode g xs) = implode (rev g) (rev (map rev xs))"
  by (induction g xs rule: implode.induct) (auto simp: implode_snoc2)

lemma find_split: "str_find pat s = Some i \<Longrightarrow> take i s @ pat @ drop (i + length pat) s = s"
proof -
  assume a: "str_find pat s = Some i"
  obtain t where t: "s = take i s @ pat @ t" and i: "i \<le> length s" using str_find_Some [OF a] by blast
  have "drop (i + length pat) s = drop (i + length pat) (take i s @ pat @ t)" by (rule arg_cong [OF t])
  also have "\<dots> = t" using i by simp
  finally show ?thesis using t by simp
qed

lemma explode_loop_joins:
  "delim \<noteq> [] \<Longrightarrow> implode delim (explode_loop delim skip max_n str el skipped acc) =
     (if acc = [] then [] else implode delim acc @ delim) @ el @ str"
proof (induction delim skip max_n str el skipped acc rule: explode_loop.induct)
  case (1 delim skip max_n str el skipped acc)
  have stop: "implode delim (acc @ [el @ str]) = (if acc = [] then [] else implode delim acc @ delim) @ el @ str"
    by (simp add: implode_snoc)
  show ?case
  proof (cases "length acc + 1 < max_n")
    case False
    then show ?thesis using stop by (simp add: explode_loop.simps [of delim skip max_n str])
  next
    case True
    show ?thesis
    proof (cases "str_find delim str")
      case None
      then show ?thesis using stop by (simp add: explode_loop.simps [of delim skip max_n str])
    next
      case (Some i)
      have sp: "take i str @ delim @ drop (i + length delim) str = str" by (rule find_split [OF Some])
      have c: "\<not> (delim = [] \<or> \<not> length acc + 1 < max_n)" using True "1.prems" by simp
      show ?thesis
      proof (cases "skip \<le> skipped")
        case True
        have "explode_loop delim skip max_n str el skipped acc =
            explode_loop delim skip max_n (drop (i + length delim) str) [] skipped (acc @ [el @ take i str])"
          using c Some True by (subst explode_loop.simps) (simp add: Let_def)
        moreover have "implode delim (explode_loop delim skip max_n (drop (i + length delim) str) [] skipped (acc @ [el @ take i str])) =
            implode delim (acc @ [el @ take i str]) @ delim @ drop (i + length delim) str"
          using "1.IH"(1) [OF c Some refl refl True "1.prems"] by simp
        moreover have "take i str @ delim @ drop (i + length delim) str = str" by (rule sp)
        ultimately show ?thesis by (auto simp: implode_snoc)
      next
        case False
        have "explode_loop delim skip max_n str el skipped acc =
            explode_loop delim skip max_n (drop (i + length delim) str) (el @ take i str @ delim) (skipped + 1) acc"
          using c Some False by (subst explode_loop.simps) (simp add: Let_def)
        moreover have "implode delim (explode_loop delim skip max_n (drop (i + length delim) str) ((el @ take i str) @ delim) (skipped + 1) acc) =
            (if acc = [] then [] else implode delim acc @ delim) @ ((el @ take i str) @ delim) @ drop (i + length delim) str"
          using "1.IH"(2) [OF c Some refl refl False "1.prems"] .
        ultimately show ?thesis using sp by simp
      qed
    qed
  qed
qed

text \<open>Joining the pieces of explode gives the string back, whatever number of delimiters is skipped and however many pieces are asked for; with reverse the pieces are those of the reversed delimiter.\<close>

theorem explode_implode:
  "implode (if reverse then rev delim else delim) (explode str delim skip reverse max_n) = str"
proof (cases "str = [] \<or> delim = []")
  case False
  have "implode (rev delim) (rev (map rev (explode_loop delim skip max_n (rev str) [] 0 []))) =
      rev (implode delim (explode_loop delim skip max_n (rev str) [] 0 []))"
    by (rule implode_rev [symmetric])
  then show ?thesis using False by (simp add: explode_def Let_def explode_loop_joins)
qed (auto simp: explode_def)

lemma find_char_None: "c \<notin> set s \<Longrightarrow> str_find [c] s = None"
  by (induction s) (auto simp: str_find.simps [of "[c]" "[]"] str_find.simps [of "[c]" "_ # _"])

lemma find_char_Some: "c \<notin> set x \<Longrightarrow> str_find [c] (x @ c # s) = Some (length x)"
proof (induction x)
  case Nil
  then show ?case by (simp add: str_find.simps [of "[c]" "c # s"])
next
  case (Cons a x)
  then show ?case by (auto simp: str_find.simps [of "[c]" "a # x @ c # s"])
qed

lemma find_char: "str_find [c] s = (if c \<in> set s then Some (length (takeWhile (\<lambda>d. d \<noteq> c) s)) else None)"
proof (cases "c \<in> set s")
  case True
  then obtain x t where s: "s = x @ c # t" "c \<notin> set x" by (metis split_list_first)
  then have "takeWhile (\<lambda>d. d \<noteq> c) s = x" by (simp add: takeWhile_append2 takeWhile_tail) (metis (mono_tags, lifting) takeWhile_eq_all_conv)
  then show ?thesis using True s find_char_Some by simp
qed (simp add: find_char_None)

lemma explode_loop_pieces:
  "xs \<noteq> [] \<Longrightarrow> \<forall>x \<in> set xs. c \<notin> set x \<Longrightarrow> length acc + length xs \<le> max_n \<Longrightarrow>
   explode_loop [c] 0 max_n (implode [c] xs) [] 0 acc = acc @ xs"
proof (induction xs arbitrary: acc)
  case (Cons x xs)
  show ?case
  proof (cases xs)
    case Nil
    then show ?thesis using Cons.prems
      by (simp add: explode_loop.simps [of "[c]" 0 max_n x] find_char_None)
  next
    case (Cons y ys)
    have f: "str_find [c] (x @ [c] @ implode [c] xs) = Some (length x)"
      using Cons.prems(2) find_char_Some [of c x] by simp
    have "explode_loop [c] 0 max_n (x @ [c] @ implode [c] xs) [] 0 acc =
        explode_loop [c] 0 max_n (implode [c] xs) [] 0 (acc @ [x])"
      using Cons.prems(3) Cons f by (subst explode_loop.simps) (simp add: Let_def)
    also have "\<dots> = acc @ x # xs" using Cons.IH [of "acc @ [x]"] Cons.prems Cons by simp
    finally show ?thesis by (simp add: Cons)
  qed
qed simp

text \<open>Pieces that do not contain the delimiter, joined with it, are given back by explode.\<close>

theorem implode_explode:
  assumes "xs \<noteq> []" and "implode [c] xs \<noteq> []" and "\<forall>x \<in> set xs. c \<notin> set x" and "length xs \<le> max_n"
  shows "explode (implode [c] xs) [c] 0 False max_n = xs"
  using explode_loop_pieces [of xs c "[]" max_n] assms by (simp add: explode_def Let_def)

lemma implode_explode_witness:
  "explode (implode ''/'' [''folder1'', [], ''file'']) ''/'' 0 False 99 = [''folder1'', [], ''file'']"
  by (rule implode_explode) simp_all

section \<open>Paths\<close>

definition strip_slashes :: "string \<Rightarrow> string" where
  "strip_slashes s = rev (dropWhile (\<lambda>c. c = CHR ''/'') (rev s))"

lemma strip_slashes_last: "strip_slashes s \<noteq> [] \<Longrightarrow> last (strip_slashes s) \<noteq> CHR ''/''"
proof -
  assume a: "strip_slashes s \<noteq> []"
  then have "dropWhile (\<lambda>c. c = CHR ''/'') (rev s) \<noteq> []" by (simp add: strip_slashes_def)
  then have "hd (dropWhile (\<lambda>c. c = CHR ''/'') (rev s)) \<noteq> CHR ''/''" by (rule hd_dropWhile)
  then show ?thesis using a by (simp add: strip_slashes_def last_rev)
qed

lemma split_reverse_char:
  assumes "t \<noteq> []"
  shows "split_pair t [c] 0 True =
    (if c \<in> set t then (let i = length (takeWhile (\<lambda>d. d \<noteq> c) (rev t)) in
       (rev (drop (i + 1) (rev t)), rev (take i (rev t)))) else ([], t))"
proof (cases "c \<in> set t")
  case True
  define i where "i = length (takeWhile (\<lambda>d. d \<noteq> c) (rev t))"
  have f: "str_find [c] (rev t) = Some i" using True by (simp add: find_char i_def)
  have "explode_loop [c] 0 2 (rev t) [] 0 [] = explode_loop [c] 0 2 (drop (i + 1) (rev t)) [] 0 [take i (rev t)]"
    using f by (subst explode_loop.simps) (simp add: Let_def)
  also have "\<dots> = [take i (rev t), drop (i + 1) (rev t)]"
    by (subst explode_loop.simps) simp
  finally show ?thesis using True assms
    by (simp add: split_pair_def explode_def Let_def i_def [symmetric] nth_append)
next
  case False
  then have "explode_loop [c] 0 2 (rev t) [] 0 [] = [rev t]"
    by (subst explode_loop.simps) (simp add: find_char)
  then show ?thesis using False assms by (simp add: split_pair_def explode_def Let_def)
qed

text \<open>splitPath drops trailing slashes and cuts at the last slash that is left: the second part is the last path component, without a slash, and the parts with a slash between them are the path again; a path of one component has an empty first part.\<close>

theorem split_path_parts:
  "split_path s = (dir, name) \<Longrightarrow>
   CHR ''/'' \<notin> set name \<and>
   (if CHR ''/'' \<in> set (strip_slashes s) then dir @ ''/'' @ name = strip_slashes s \<and> name \<noteq> []
    else dir = [] \<and> name = strip_slashes s)"
proof -
  assume a: "split_path s = (dir, name)"
  define t where "t = strip_slashes s"
  have sp: "split_pair t ''/'' 0 True = (dir, name)" using a by (simp add: split_path_def t_def strip_slashes_def)
  show ?thesis
  proof (cases "t = []")
    case True
    then have "dir = [] \<and> name = []" using sp by (simp add: split_pair_def explode_def)
    then show ?thesis using True by (simp add: t_def [symmetric])
  next
    case False
    define i where "i = length (takeWhile (\<lambda>d. d \<noteq> CHR ''/'') (rev t))"
    show ?thesis
    proof (cases "CHR ''/'' \<in> set t")
      case True
      have dn: "dir = rev (drop (i + 1) (rev t))" "name = rev (take i (rev t))"
        using sp True unfolding split_reverse_char [OF False] by (simp_all add: Let_def i_def)
      have n: "take i (rev t) = takeWhile (\<lambda>d. d \<noteq> CHR ''/'') (rev t)"
        unfolding i_def by (metis append_eq_conv_conj takeWhile_dropWhile_id)
      have f: "str_find ''/'' (rev t) = Some i" using True by (simp add: find_char i_def)
      have "take i (rev t) @ ''/'' @ drop (i + 1) (rev t) = rev t" using find_split [OF f] by simp
      then have "rev (take i (rev t) @ ''/'' @ drop (i + 1) (rev t)) = t" by simp
      then have j: "dir @ ''/'' @ name = t" by (simp add: dn)
      have "name \<noteq> []"
      proof
        assume "name = []"
        then have "last t = CHR ''/''" using j by (metis last_snoc append_Nil2)
        then show False using strip_slashes_last [of s] False by (simp add: t_def)
      qed
      moreover have "CHR ''/'' \<notin> set name" unfolding dn n by (auto dest: set_takeWhileD)
      ultimately show ?thesis using j True by (simp add: t_def)
    next
      case nf: False
      then show ?thesis using sp unfolding split_reverse_char [OF False] by (auto simp: t_def)
    qed
  qed
qed

lemma split_path_parts_witness:
  "split_path ''/a/b/'' = (''/a'', ''b'') \<and> CHR ''/'' \<notin> set ''b''"
proof -
  have s: "split_path ''/a/b/'' = (''/a'', ''b'')" by code_simp
  then show ?thesis using split_path_parts [OF s] by simp
qed

section \<open>Trimming\<close>

lemma takeWhile_stop: "\<not> P c \<Longrightarrow> length (takeWhile P (x @ c # y)) \<le> length x"
  by (induction x) auto

lemma trim_spec:
  "\<exists>a b. s = a @ trim s @ b \<and> (\<forall>c \<in> set (a @ b). is_space c) \<and>
     (trim s = [] \<or> \<not> is_space (hd (trim s)) \<and> \<not> is_space (last (trim s)))"
proof -
  define a where "a = takeWhile is_space s"
  define b where "b = rev (takeWhile is_space (rev s))"
  have t: "trim s = drop (length a) (take (length s - length b) s)"
    by (simp add: trim_def a_def b_def)
  have sb: "s = take (length s - length b) s @ b"
  proof -
    have "rev s = takeWhile is_space (rev s) @ dropWhile is_space (rev s)" by simp
    then have "s = rev (dropWhile is_space (rev s)) @ b" unfolding b_def by (metis rev_append rev_rev_ident)
    then show ?thesis by (metis append_eq_conv_conj length_append diff_add_inverse2)
  qed
  have spaces: "\<forall>c \<in> set (a @ b). is_space c" by (auto simp: a_def b_def dest: set_takeWhileD)
  show ?thesis
  proof (cases "\<exists>c \<in> set s. \<not> is_space c")
    case True
    then obtain x c y where s: "s = x @ c # y" "\<not> is_space c" by (metis split_list)
    have "length a \<le> length x" using takeWhile_stop [of is_space c x y] s by (simp add: a_def)
    moreover have "length b \<le> length y" using takeWhile_stop [of is_space c "rev y" "rev x"] s by (simp add: b_def)
    ultimately have True: "length a \<le> length s - length b" using s by simp
    have "take (length a) (take (length s - length b) s) = a"
      using True by (simp add: min_absorb1) (metis a_def append_eq_conv_conj takeWhile_dropWhile_id)
    then have s: "s = a @ trim s @ b"
      using sb unfolding t by (metis append.assoc append_take_drop_id)
    have "trim s = [] \<or> \<not> is_space (hd (trim s)) \<and> \<not> is_space (last (trim s))"
    proof (cases "trim s = []")
      case False
      have "s = a @ dropWhile is_space s" by (simp add: a_def)
      then have d1: "dropWhile is_space s = trim s @ b" using s by (metis append_same_eq same_append_eq)
      then have "\<not> is_space (hd (trim s @ b))" using False hd_dropWhile [of is_space s] by simp
      moreover have d2: "dropWhile is_space (rev s) = rev (a @ trim s)"
      proof -
        have "rev s = rev b @ dropWhile is_space (rev s)" by (simp add: b_def)
        moreover have "rev s = rev b @ rev (a @ trim s)" using s by (metis append.assoc rev_append)
        ultimately show ?thesis by (metis same_append_eq)
      qed
      then have "\<not> is_space (hd (rev (a @ trim s)))" using False hd_dropWhile [of is_space "rev s"] by simp
      ultimately show ?thesis using False by (simp add: hd_rev)
    qed simp
    then show ?thesis using s spaces by blast
  next
    case False
    then have "a = s" unfolding a_def by (intro takeWhile_eq_all_conv [THEN iffD2]) blast
    then have "trim s = []" by (simp add: t)
    then show ?thesis using False by (intro exI [of _ s] exI [of _ "[]"]) auto
  qed
qed

section \<open>Replacing and escaping\<close>

lemma replace_from_char:
  "replace_from [d] repl (length pre) (pre @ s) = pre @ concat (map (\<lambda>c. if c = d then repl else [c]) s)"
proof (induction "length s" arbitrary: pre s rule: less_induct)
  case less
  show ?case
  proof (cases "d \<in> set s")
    case False
    then have "concat (map (\<lambda>c. if c = d then repl else [c]) s) = s"
      by (induction s) auto
    then show ?thesis using False by (simp add: replace_from.simps [of "[d]"] find_char)
  next
    case True
    then obtain x y where s: "s = x @ d # y" "d \<notin> set x" by (metis split_list_first)
    have "replace_from [d] repl (length pre) (pre @ s) =
        replace_from [d] repl (length (pre @ x @ repl)) ((pre @ x @ repl) @ y)"
      using s find_char_Some [OF s(2), of y] by (subst replace_from.simps) (simp add: add.assoc)
    also have "\<dots> = (pre @ x @ repl) @ concat (map (\<lambda>c. if c = d then repl else [c]) y)"
      by (rule less.hyps) (simp add: s)
    also have "concat (map (\<lambda>c. if c = d then repl else [c]) x) = x"
      using s(2) by (induction x) auto
    ultimately show ?thesis
      using s by (simp add: \<open>concat (map (\<lambda>c. if c = d then repl else [c]) x) = x\<close>)
  qed
qed

lemma replace_all_char: "replace_all s [d] repl = concat (map (\<lambda>c. if c = d then repl else [c]) s)"
  using replace_from_char [of d repl "[]" s] by (simp add: replace_all_def)

lemma concat_map_concat: "concat (map f (concat xs)) = concat (map (\<lambda>x. concat (map f x)) xs)"
  by (induction xs) auto

lemma escape_fold:
  "distinct ds \<Longrightarrow> e \<notin> set ds \<Longrightarrow> set ds \<inter> D = {} \<Longrightarrow> e \<in> D \<Longrightarrow>
   fold (\<lambda>delim s. replace_all s [delim] ([e] @ [delim])) ds (concat (map (\<lambda>c. if c \<in> D then [e, c] else [c]) s)) =
   concat (map (\<lambda>c. if c \<in> D \<union> set ds then [e, c] else [c]) s)"
proof (induction ds arbitrary: D)
  case (Cons d ds)
  have "replace_all (concat (map (\<lambda>c. if c \<in> D then [e, c] else [c]) s)) [d] ([e] @ [d]) =
      concat (map (\<lambda>c. if c \<in> insert d D then [e, c] else [c]) s)"
    unfolding replace_all_char concat_map_concat map_map comp_def
    by (intro arg_cong [where f = concat] map_cong refl) (use Cons.prems in auto)
  moreover have "insert d D \<union> set ds = D \<union> set (d # ds)" by auto
  ultimately show ?case using Cons.IH [of "insert d D"] Cons.prems by simp
qed simp

lemma escape_all_chars:
  assumes "distinct ds" and "e \<notin> set ds"
  shows "escape_all s ds e = concat (map (\<lambda>c. if c = e \<or> c \<in> set ds then [e, c] else [c]) s)"
proof -
  have "replace_all s [e] [e, e] = concat (map (\<lambda>c. if c \<in> {e} then [e, c] else [c]) s)"
    unfolding replace_all_char by (intro arg_cong [where f = concat] map_cong) auto
  then show ?thesis using escape_fold [of ds e "{e}" s] assms by (simp add: escape_all_def)
qed

text \<open>A reader that takes the character after an escape character as it is.\<close>

fun unescape :: "char \<Rightarrow> string \<Rightarrow> string" where
  "unescape e [] = []"
| "unescape e [c] = [c]"
| "unescape e (c # d # s) = (if c = e then d # unescape e s else c # unescape e (d # s))"

lemma unescape_plain: "c \<noteq> e \<Longrightarrow> unescape e (c # s) = c # unescape e s"
  by (cases s) auto

text \<open>escapeAll can be undone: taking every character after an escape character as it is gives the string back, when the delimiters are different characters and do not include the escape character.\<close>

theorem unescape_escape_all:
  assumes "distinct ds" and "e \<notin> set ds"
  shows "unescape e (escape_all s ds e) = s"
proof -
  have "unescape e (concat (map (\<lambda>c. if c = e \<or> c \<in> set ds then [e, c] else [c]) s)) = s"
    by (induction s) (auto simp: unescape_plain)
  then show ?thesis using escape_all_chars [OF assms] by simp
qed

lemma unescape_escape_all_witness: "unescape (CHR ''!'') (escape_all ''50%!_a'' ''%_'' (CHR ''!'')) = ''50%!_a''"
  by (rule unescape_escape_all) simp_all

section \<open>Byte counts\<close>

lemma digit_char: "d < 10 \<Longrightarrow> is_digit (char_of (48 + d))" "d < 10 \<Longrightarrow> digit_val (char_of (48 + d)) = d"
  by (simp_all add: is_digit_def digit_val_def)

lemma digits_val_snoc: "digits_val (s @ [c]) = digits_val s * 10 + digit_val c"
  by (simp add: digits_val_def)

lemma nat_str_digits: "(\<forall>c \<in> set (nat_str n). is_digit c) \<and> nat_str n \<noteq> [] \<and> digits_val (nat_str n) = n"
proof (induction n rule: nat_str.induct)
  case (1 n)
  show ?case
  proof (cases "n < 10")
    case True
    then show ?thesis using digit_char [of n] by (simp add: nat_str.simps [of n] digits_val_def)
  next
    case False
    have "n mod 10 < 10" by simp
    note d = digit_char [OF this]
    show ?thesis using 1 [OF False] False d by (simp add: nat_str.simps [of n] digits_val_snoc)
  qed
qed

lemma digit_plain:
  assumes "is_digit c"
  shows "\<not> is_space c" and "c \<noteq> CHR ''-''" and "c \<noteq> CHR ''+''"
proof -
  have "(of_char c :: nat) \<ge> 48" using assms by (simp add: is_digit_def)
  moreover have "of_char (CHR '' '') = (32 :: nat)" "of_char (CHR ''-'') = (45 :: nat)" "of_char (CHR ''+'') = (43 :: nat)"
    by simp_all
  ultimately show "\<not> is_space c" "c \<noteq> CHR ''-''" "c \<noteq> CHR ''+''"
    by (auto simp: is_space_def)
qed

lemma takeWhile_id: "\<forall>c \<in> set s. P c \<Longrightarrow> takeWhile P s = s"
  by (induction s) auto

lemma stoul_nat_str: "n < 2 ^ 64 \<Longrightarrow> stoul (nat_str n) = Some n"
proof -
  assume n: "n < 2 ^ 64"
  obtain c s where s: "nat_str n = c # s" using nat_str_digits [of n] by (cases "nat_str n") auto
  have c: "is_digit c" using nat_str_digits [of n] s by simp
  note p = digit_plain [OF c]
  have "takeWhile is_digit (c # s) = c # s" using nat_str_digits [of n] s by (intro takeWhile_id) simp
  moreover have "dropWhile is_space (c # s) = c # s" using p by simp
  moreover have "digits_val (c # s) = n" using nat_str_digits [of n] s by simp
  ultimately show ?thesis using p n by (simp add: stoul_def s Let_def)
qed

lemma trim_id: "\<forall>c \<in> set s. \<not> is_space c \<Longrightarrow> trim s = s"
proof -
  assume a: "\<forall>c \<in> set s. \<not> is_space c"
  have tw: "takeWhile is_space t = []" if "\<forall>c \<in> set t. \<not> is_space c" for t using that by (cases t) auto
  have "takeWhile is_space s = []" "takeWhile is_space (rev s) = []" using a by (auto intro!: tw)
  then show ?thesis by (simp add: trim_def)
qed

lemma scale_unit_spec:
  "scale_unit idx b = (j, m) \<Longrightarrow> idx \<le> 5 \<Longrightarrow> idx \<le> j \<and> j \<le> 5 \<and> m * 1024 ^ (j - idx) = b"
proof (induction idx b rule: scale_unit.induct)
  case (1 idx b)
  show ?case
  proof (cases "b \<ge> 1024 \<and> b mod 1024 = 0 \<and> idx < 5")
    case True
    then have s: "scale_unit (idx + 1) (b div 1024) = (j, m)" using 1(2) by (simp add: scale_unit.simps [of idx b])
    have ih: "idx + 1 \<le> j" "j \<le> 5" "m * 1024 ^ (j - (idx + 1)) = b div 1024" using 1(1) [OF True s] True by auto
    have "j - idx = Suc (j - (idx + 1))" using ih(1) by simp
    then have "m * 1024 ^ (j - idx) = (m * 1024 ^ (j - (idx + 1))) * 1024" by simp
    also have "\<dots> = b" using True ih(3) by (metis dvd_div_mult_self mod_0_imp_dvd)
    finally show ?thesis using ih by simp
  next
    case False
    then have "scale_unit idx b = (idx, b)" by (subst scale_unit.simps) auto
    then show ?thesis using 1 by simp
  qed
qed

lemma umul_power: "m * 1024 ^ k < 2 ^ 64 \<Longrightarrow> ((\<lambda>x. umul x 1024) ^^ k) m = m * 1024 ^ k"
proof (induction k)
  case (Suc k)
  have "m * 1024 ^ k < 2 ^ 64" using Suc.prems by (rule order_le_less_trans [rotated]) simp
  then have "((\<lambda>x. umul x 1024) ^^ k) m = m * 1024 ^ k" by (rule Suc.IH)
  then show ?case using Suc.prems by (simp add: umul_def u64_def mult_ac)
qed simp

lemma less_six: "j \<le> 5 \<Longrightarrow> j = 0 \<or> j = 1 \<or> j = 2 \<or> j = 3 \<or> j = 4 \<or> j = (5 :: nat)" by linarith

text \<open>StringToBytes reads back what bytesToString prints, for every 64-bit number.\<close>

theorem string_to_bytes_to_string:
  assumes "n < 2 ^ 64"
  shows "string_to_bytes (bytes_to_string n) = Some n"
proof -
  obtain j m where s: "scale_unit 0 n = (j, m)" by force
  have j: "j \<le> 5" and m: "m * 1024 ^ j = n" using scale_unit_spec [OF s] by auto
  have "m * 1 \<le> m * 1024 ^ j" by (rule mult_le_mono2) simp
  then have "m < 2 ^ 64" using assms m by linarith
  then have st: "stoul (nat_str m) = Some m" by (rule stoul_nat_str)
  have pow: "((\<lambda>x. umul x 1024) ^^ j) m = n" using umul_power [of m j] m assms by simp
  note dg = nat_str_digits [of m]
  have dp: "\<forall>c \<in> set (nat_str m). \<not> is_space c" using dg digit_plain(1) by blast
  show ?thesis
  proof (cases "j = 0")
    case True
    have "is_digit (last (nat_str m))" using dg by simp
    moreover from this have "unit_power (last (nat_str m)) = 0" by (auto simp: unit_power_def is_digit_def)
    moreover have "bytes_to_string n = nat_str m" using True by (simp add: bytes_to_string_def s)
    ultimately show ?thesis using True dg st pow trim_id [OF dp] by (auto simp: string_to_bytes_def Let_def)
  next
    case False
    define u where "u = ''KMGTP'' ! (j - 1)"
    have u: "[[], ''K'', ''M'', ''G'', ''T'', ''P''] ! j = [u]" "unit_power u = j" "\<not> is_digit u" "\<not> is_space u"
      using less_six [OF j] False by (auto simp: u_def unit_power_def is_digit_def is_space_def)
    have t1: "trim (nat_str m @ [u]) = nat_str m @ [u]" using dp u(4) by (intro trim_id) auto
    have "bytes_to_string n = nat_str m @ [u]" by (simp add: bytes_to_string_def s u(1))
    then show ?thesis using dg st pow u(2,3)
      by (simp add: string_to_bytes_def t1 trim_id [OF dp] Let_def)
  qed
qed

lemma string_to_bytes_to_string_witness:
  "string_to_bytes (bytes_to_string 1048576) = Some 1048576"
  by (rule string_to_bytes_to_string) simp

end
