(* ===== verification/Options_Parse.thy ===== *)
theory Options_Parse
  imports String_Util "HOL-Library.Multiset" "HOL-Library.List_Lexorder" "HOL-Library.Char_ord"
begin

text \<open>
  BaseOptions (src/lib/andromeda/BaseOptions.cpp): command line arguments, configuration files
  and URL variables become flags and options, which the virtual AddFlag and AddOption of the
  program's options then take. Options pass through a std::multimap, that is in the order of
  their names, and in the order given for one name.
\<close>

section \<open>The code\<close>

text \<open>One constructor per exception class; Endless stands for a recursion that does not end.\<close>

datatype opt_error =
    ShowHelp | ShowVersion | BadUsage string | BadFlag string | BadOption string | BadValue string
  | MissingOption string | Endless

type_synonym 'o adder = "'o \<Rightarrow> (opt_error + bool) \<times> 'o"

text \<open>
  ParseArgs: what one argument is, given the one after it. A one-letter key and its value may
  be one argument; a key without a value takes the next argument unless that starts with a
  dash.
\<close>

datatype arg_kind =
    ArgError string | ArgStop | ArgOption "string \<times> string" | ArgWithNext string string | ArgFlag string

definition classify_arg :: "bool \<Rightarrow> string \<Rightarrow> string option \<Rightarrow> arg_kind" where
  "classify_arg stopmm arg nxt =
     (if arg = [] then ArgError ''empty key at arg ''
      else if hd arg \<noteq> CHR ''-'' then ArgError ''expected key at arg ''
      else
        let ext = (tl arg \<noteq> [] \<and> hd (tl arg) = CHR ''-'');
            key = (if ext then tl (tl arg) else tl arg)
        in if key = [] \<or> is_space (hd key) then (if stopmm then ArgStop else ArgError ''empty key at arg '')
           else if CHR ''='' \<in> set key then ArgOption (split_pair key ''='' 0 False)
           else if \<not> ext \<and> length key > 1 then ArgOption ([hd key], tl key)
           else (case nxt of
                   Some v \<Rightarrow> if v = [] \<or> hd v \<noteq> CHR ''-'' then ArgWithNext key v else ArgFlag key
                 | None \<Rightarrow> ArgFlag key))"

text \<open>From argument number idx on: the flags, the options as given, the arguments consumed.\<close>

function scan_args :: "bool \<Rightarrow> nat \<Rightarrow> string list \<Rightarrow> opt_error + (string list \<times> (string \<times> string) list \<times> nat)" where
  "scan_args stopmm idx [] = Inr ([], [], idx)"
| "scan_args stopmm idx (arg # rest) =
     (case classify_arg stopmm arg (if rest = [] then None else Some (hd rest)) of
        ArgError m \<Rightarrow> Inl (BadUsage (m @ nat_str idx))
      | ArgStop \<Rightarrow> Inr ([], [], idx + 1)
      | ArgOption kv \<Rightarrow> map_sum id (\<lambda>(fs, os, n). (fs, kv # os, n)) (scan_args stopmm (idx + 1) rest)
      | ArgWithNext k v \<Rightarrow> map_sum id (\<lambda>(fs, os, n). (fs, (k, v) # os, n)) (scan_args stopmm (idx + 2) (tl rest))
      | ArgFlag k \<Rightarrow> map_sum id (\<lambda>(fs, os, n). (k # fs, os, n)) (scan_args stopmm (idx + 1) rest))"
  by pat_completeness auto
termination by (relation "measure (\<lambda>(stopmm, idx, args). length args)") auto

text \<open>The loops over flags and options that all the parsers end with.\<close>

fun add_flags :: "(string \<Rightarrow> 'o adder) \<Rightarrow> string list \<Rightarrow> 'o \<Rightarrow> opt_error option \<times> 'o" where
  "add_flags add [] o1 = (None, o1)"
| "add_flags add (f # fs) o1 =
     (case add f o1 of
        (Inl e, o2) \<Rightarrow> (Some e, o2)
      | (Inr used, o2) \<Rightarrow> if \<not> used then (Some (BadFlag f), o2) else add_flags add fs o2)"

fun add_options :: "(string \<Rightarrow> string \<Rightarrow> 'o adder) \<Rightarrow> (string \<times> string) list \<Rightarrow> 'o \<Rightarrow> opt_error option \<times> 'o" where
  "add_options add [] o1 = (None, o1)"
| "add_options add ((k, v) # os) o1 =
     (case add k v o1 of
        (Inl e, o2) \<Rightarrow> (Some e, o2)
      | (Inr used, o2) \<Rightarrow> if \<not> used then (Some (BadOption k), o2) else add_options add os o2)"

definition multimap :: "(string \<times> string) list \<Rightarrow> (string \<times> string) list" where
  "multimap os = sort_key fst os"

definition add_all :: "(string \<Rightarrow> 'o adder) \<Rightarrow> (string \<Rightarrow> string \<Rightarrow> 'o adder) \<Rightarrow> string list \<Rightarrow> (string \<times> string) list \<Rightarrow>
    'o \<Rightarrow> opt_error option \<times> 'o" where
  "add_all add_flag add_option fs os o1 =
     (case add_flags add_flag fs o1 of
        (Some e, o2) \<Rightarrow> (Some e, o2)
      | (None, o2) \<Rightarrow> add_options add_option (multimap os) o2)"

definition parse_args :: "(string \<Rightarrow> 'o adder) \<Rightarrow> (string \<Rightarrow> string \<Rightarrow> 'o adder) \<Rightarrow> bool \<Rightarrow> string list \<Rightarrow> 'o \<Rightarrow>
    (opt_error + nat) \<times> 'o" where
  "parse_args add_flag add_option stopmm argv o1 =
     (case scan_args stopmm 1 (tl argv) of
        Inl e \<Rightarrow> (Inl e, o1)
      | Inr (fs, os, n) \<Rightarrow>
          (case add_all add_flag add_option fs os o1 of
             (Some e, o2) \<Rightarrow> (Inl e, o2) | (None, o2) \<Rightarrow> (Inr n, o2)))"

text \<open>ParseFile, from the lines that getline returns.\<close>

fun scan_lines :: "string list \<Rightarrow> string list \<times> (string \<times> string) list" where
  "scan_lines [] = ([], [])"
| "scan_lines (l # ls) =
     (let line = (if l \<noteq> [] \<and> last l = CHR 0x0D then butlast l else l); (fs, os) = scan_lines ls
      in if line = [] \<or> hd line = CHR ''#'' \<or> hd line = CHR '' '' then (fs, os)
         else if CHR ''='' \<notin> set line then (line # fs, os)
         else (fs, split_pair line ''='' 0 False # os))"

definition parse_file :: "(string \<Rightarrow> 'o adder) \<Rightarrow> (string \<Rightarrow> string \<Rightarrow> 'o adder) \<Rightarrow> string list \<Rightarrow> 'o \<Rightarrow>
    opt_error option \<times> 'o" where
  "parse_file add_flag add_option lines o1 =
     (let (fs, os) = scan_lines lines in add_all add_flag add_option fs os o1)"

text \<open>
  ParseConfig; files gives the lines of a regular file, home is the home directory or empty.
\<close>

fun parse_config_paths :: "(string \<Rightarrow> 'o adder) \<Rightarrow> (string \<Rightarrow> string \<Rightarrow> 'o adder) \<Rightarrow> (string \<Rightarrow> string list option) \<Rightarrow>
    string list \<Rightarrow> 'o \<Rightarrow> opt_error option \<times> 'o" where
  "parse_config_paths add_flag add_option files [] o1 = (None, o1)"
| "parse_config_paths add_flag add_option files (p # ps) o1 =
     (case files p of
        None \<Rightarrow> parse_config_paths add_flag add_option files ps o1
      | Some lines \<Rightarrow>
          (case parse_file add_flag add_option lines o1 of
             (Some e, o2) \<Rightarrow> (Some e, o2)
           | (None, o2) \<Rightarrow> parse_config_paths add_flag add_option files ps o2))"

definition config_paths :: "string \<Rightarrow> string \<Rightarrow> string list" where
  "config_paths home prefix =
     map (\<lambda>p. p @ ''/'' @ prefix @ ''.conf'')
       ([''/etc/andromeda'', ''/usr/local/etc/andromeda''] @ (if home \<noteq> [] then [home @ ''/.config/andromeda''] else []) @ [''.''])"

definition parse_config :: "(string \<Rightarrow> 'o adder) \<Rightarrow> (string \<Rightarrow> string \<Rightarrow> 'o adder) \<Rightarrow> (string \<Rightarrow> string list option) \<Rightarrow>
    string \<Rightarrow> string \<Rightarrow> 'o \<Rightarrow> opt_error option \<times> 'o" where
  "parse_config add_flag add_option files home prefix = parse_config_paths add_flag add_option files (config_paths home prefix)"

text \<open>ParseUrl: the variables after the question mark; TryAddUrlFlag takes no flag.\<close>

definition url_params :: "string \<Rightarrow> (string \<times> string) list" where
  "url_params url =
     (case str_find ''?'' url of
        None \<Rightarrow> []
      | Some sep \<Rightarrow> map (\<lambda>p. split_pair p ''='' 0 False)
          (filter (\<lambda>p. CHR ''='' \<in> set p) (explode (drop (sep + 1) url) ''&'' 0 False (2 ^ 64 - 1))))"

definition parse_url :: "(string \<Rightarrow> string \<Rightarrow> 'o \<Rightarrow> 'o) \<Rightarrow> string \<Rightarrow> 'o \<Rightarrow> 'o" where
  "parse_url try_option url o1 = fold (\<lambda>(k, v). try_option k v) (multimap (url_params url)) o1"

text \<open>BaseOptions::AddFlag and AddOption; parse is ParseFile of the whole program's options.\<close>

definition base_add_flag :: "string \<Rightarrow> opt_error + bool" where
  "base_add_flag flag =
     (if flag = ''h'' \<or> flag = ''help'' then Inl ShowHelp
      else if flag = ''V'' \<or> flag = ''version'' then Inl ShowVersion
      else Inr False)"

record base_opts =
  bo_level :: nat
  bo_filters :: string
  bo_logs :: "string list"

definition base_add_option :: "(string \<Rightarrow> string list option) \<Rightarrow> (string list \<Rightarrow> 'o \<Rightarrow> opt_error option \<times> 'o) \<Rightarrow>
    ((base_opts \<Rightarrow> base_opts) \<Rightarrow> 'o \<Rightarrow> 'o) \<Rightarrow> string \<Rightarrow> string \<Rightarrow> 'o adder" where
  "base_add_option files parse upd option value o1 =
     (if option = ''c'' \<or> option = ''config''
      then (case files value of
              None \<Rightarrow> (Inl (BadValue option), o1)
            | Some lines \<Rightarrow> (case parse lines o1 of (Some e, o2) \<Rightarrow> (Inl e, o2) | (None, o2) \<Rightarrow> (Inr True, o2)))
      else if option = ''d'' \<or> option = ''debug''
      then (case stoul value of
              None \<Rightarrow> (Inl (BadValue option), o1)
            | Some n \<Rightarrow> (Inr True, upd (\<lambda>b. b\<lparr>bo_level := n mod 2 ^ 8\<rparr>) o1))
      else if option = ''debug-filter'' then (Inr True, upd (\<lambda>b. b\<lparr>bo_filters := value\<rparr>) o1)
      else if option = ''debug-log'' then (Inr True, upd (\<lambda>b. b\<lparr>bo_logs := bo_logs b @ [value]\<rparr>) o1)
      else (Inr False, o1))"

section \<open>Scanning\<close>

lemma classify_next: "classify_arg stopmm arg nxt = ArgWithNext k v \<Longrightarrow> nxt = Some v"
  by (auto simp: classify_arg_def Let_def split: if_splits option.splits)

lemma classify_stop: "classify_arg stopmm arg nxt = ArgStop \<Longrightarrow> stopmm"
  by (auto simp: classify_arg_def Let_def split: if_splits option.splits)

lemma map_sum_Inl: "map_sum f g x = Inl y \<longleftrightarrow> (\<exists>z. x = Inl z \<and> f z = y)"
  by (cases x) auto

lemma map_sum_Inr: "map_sum f g x = Inr y \<longleftrightarrow> (\<exists>z. x = Inr z \<and> g z = y)"
  by (cases x) auto

text \<open>ParseArgs consumes at most the arguments there are, and all of them unless it may stop at a dash without a key; every flag and every option comes from an argument of its own.\<close>

theorem scan_args_consumes:
  assumes "scan_args stopmm idx args = Inr (fs, os, n)"
  shows "n \<le> idx + length args \<and> (\<not> stopmm \<longrightarrow> n = idx + length args) \<and> length fs + length os \<le> length args"
  using assms
proof (induction stopmm idx args arbitrary: fs os n rule: scan_args.induct)
  case (2 stopmm idx arg rest)
  define nxt where "nxt = (if rest = [] then None else Some (hd rest))"
  show ?case
  proof (cases "classify_arg stopmm arg nxt")
    case ArgStop
    then show ?thesis using "2.prems" classify_stop [OF ArgStop] by (simp add: nxt_def)
  next
    case (ArgOption kv)
    obtain fs' os' where s: "scan_args stopmm (idx + 1) rest = Inr (fs', os', n)" "fs = fs'" "os = kv # os'"
      using "2.prems" ArgOption by (auto simp: nxt_def map_sum_Inr)
    show ?thesis using "2.IH"(1) [OF ArgOption [unfolded nxt_def] s(1)] s by auto
  next
    case (ArgWithNext k v)
    have "rest \<noteq> []" using classify_next [OF ArgWithNext] by (auto simp: nxt_def split: if_splits)
    then obtain r rs where rest: "rest = r # rs" by (cases rest) auto
    obtain fs' os' where s: "scan_args stopmm (idx + 2) (tl rest) = Inr (fs', os', n)" "fs = fs'" "os = (k, v) # os'"
      using "2.prems" ArgWithNext by (auto simp: nxt_def map_sum_Inr)
    show ?thesis using "2.IH"(2) [OF ArgWithNext [unfolded nxt_def] s(1)] s rest by auto
  next
    case (ArgFlag k)
    obtain fs' os' where s: "scan_args stopmm (idx + 1) rest = Inr (fs', os', n)" "fs = k # fs'" "os = os'"
      using "2.prems" ArgFlag by (auto simp: nxt_def map_sum_Inr)
    show ?thesis using "2.IH"(3) [OF ArgFlag [unfolded nxt_def] s(1)] s by auto
  qed (use "2.prems" in \<open>simp add: nxt_def\<close>)
qed simp

lemma scan_args_consumes_witness:
  "scan_args True 1 [''-x'', ''3'', ''--flag'', ''--'', ''rest''] = Inr ([''flag''], [(''x'', ''3'')], 5) \<and> (5 :: nat) \<le> 1 + 5"
proof -
  have s: "scan_args True 1 [''-x'', ''3'', ''--flag'', ''--'', ''rest''] = Inr ([''flag''], [(''x'', ''3'')], 5)"
    by (simp add: classify_arg_def Let_def is_space_def)
  show ?thesis using scan_args_consumes [OF s] s by simp
qed

text \<open>Options and flags written out with double dashes and equals signs.\<close>

definition render_arg :: "string + (string \<times> string) \<Rightarrow> string" where
  "render_arg x = (case x of Inl f \<Rightarrow> ''--'' @ f | Inr (k, v) \<Rightarrow> ''--'' @ k @ ''='' @ v)"

definition arg_ok :: "string + (string \<times> string) \<Rightarrow> bool" where
  "arg_ok x = (case x of Inl k \<Rightarrow> k \<noteq> [] \<and> \<not> is_space (hd k) \<and> CHR ''='' \<notin> set k
     | Inr (k, v) \<Rightarrow> k \<noteq> [] \<and> \<not> is_space (hd k) \<and> CHR ''='' \<notin> set k)"

lemma split_pair_first:
  assumes "c \<notin> set k"
  shows "split_pair (k @ c # v) [c] 0 False = (k, v)"
proof -
  have "explode_loop [c] 0 2 (k @ c # v) [] 0 [] = explode_loop [c] 0 2 v [] 0 [k]"
    using find_char_Some [OF assms, of v] by (subst explode_loop.simps) (simp add: Let_def)
  also have "\<dots> = [k, v]" by (subst explode_loop.simps) simp
  finally show ?thesis by (simp add: split_pair_def explode_def)
qed

lemma classify_rendered:
  assumes "arg_ok x" and "\<And>v. nxt = Some v \<Longrightarrow> v \<noteq> [] \<and> hd v = CHR ''-''"
  shows "classify_arg stopmm (render_arg x) nxt = (case x of Inl f \<Rightarrow> ArgFlag f | Inr kv \<Rightarrow> ArgOption kv)"
proof (cases x)
  case (Inl f)
  then show ?thesis using assms
    by (auto simp: render_arg_def arg_ok_def classify_arg_def split: option.splits)
next
  case (Inr kv)
  obtain k v where kv: "kv = (k, v)" by force
  have "split_pair (k @ CHR ''='' # v) ''='' 0 False = (k, v)"
    using assms(1) by (intro split_pair_first) (simp add: arg_ok_def Inr kv)
  then show ?thesis using assms(1) by (simp add: render_arg_def arg_ok_def classify_arg_def Inr kv)
qed

lemma scan_args_rendered_spec:
  "\<forall>x \<in> set xs. arg_ok x \<Longrightarrow>
   scan_args stopmm idx (map render_arg xs) =
     Inr (concat (map (case_sum (\<lambda>f. [f]) (\<lambda>_. [])) xs), concat (map (case_sum (\<lambda>_. []) (\<lambda>kv. [kv])) xs), idx + length xs)"
proof (induction xs arbitrary: idx)
  case (Cons x xs)
  define nxt where "nxt = (if map render_arg xs = [] then None else Some (hd (map render_arg xs)))"
  have "v \<noteq> [] \<and> hd v = CHR ''-''" if n: "nxt = Some v" for v
  proof (cases xs)
    case (Cons y ys)
    then have "v = render_arg y" using n by (simp add: nxt_def)
    then show ?thesis by (auto simp: render_arg_def split: sum.splits)
  qed (use n in \<open>simp add: nxt_def\<close>)
  then have c: "classify_arg stopmm (render_arg x) nxt = (case x of Inl f \<Rightarrow> ArgFlag f | Inr kv \<Rightarrow> ArgOption kv)"
    using Cons.prems by (intro classify_rendered) auto
  show ?case
    unfolding list.map scan_args.simps nxt_def [symmetric] c
    using Cons.IH [of "idx + 1"] Cons.prems by (cases x) simp_all
qed simp

text \<open>ParseArgs reads back flags and options that are written as --flag and --option=value, in any order; option values may contain anything.\<close>

theorem scan_args_rendered:
  "\<forall>x \<in> set xs. arg_ok x \<Longrightarrow>
   scan_args stopmm idx (map render_arg xs) =
     Inr (concat (map (case_sum (\<lambda>f. [f]) (\<lambda>_. [])) xs), concat (map (case_sum (\<lambda>_. []) (\<lambda>kv. [kv])) xs), idx + length xs)"
  by (rule scan_args_rendered_spec)

lemma scan_args_rendered_witness:
  "scan_args False 1 [''--a=b=c'', ''--quiet''] = Inr ([''quiet''], [(''a'', ''b=c'')], 3)"
  using scan_args_rendered [of "[Inr (''a'', ''b=c''), Inl ''quiet'']" False 1]
  by (simp add: arg_ok_def render_arg_def is_space_def)

text \<open>The order in which options of different names are given does not matter: they are applied in the order of their names.\<close>

theorem add_all_order:
  assumes "mset os = mset os'" and "distinct (map fst os)"
  shows "add_all add_flag add_option fs os o1 = add_all add_flag add_option fs os' o1"
proof -
  have d: "distinct (map fst (multimap xs))" "sorted (map fst (multimap xs))" "mset (multimap xs) = mset xs" 
    if "distinct (map fst xs)" for xs
    using that by (simp_all add: multimap_def) (metis mset_eq_imp_distinct_iff mset_map mset_sort)
  have d': "distinct (map fst os')" using assms by (metis mset_eq_imp_distinct_iff mset_map)
  have "set (multimap os) = set (multimap os')" using assms(1) by (metis d(3) [OF assms(2)] d(3) [OF d'] set_mset_mset)
  then have "multimap os = multimap os'"
    using map_sorted_distinct_set_unique [of fst "multimap os" "multimap os'"] d [OF assms(2)] d [OF d']
    by (metis (no_types, lifting) Un_iff distinct_map inj_on_subset subsetI sup.idem)
  then have "add_options add_option (multimap os) = add_options add_option (multimap os')" by simp
  then show ?thesis unfolding add_all_def by (simp only:)
qed

lemma add_all_order_witness:
  "add_all (\<lambda>f o1. (Inr True, o1)) (\<lambda>k v o1. (Inr True, o1 @ [v])) [] [(''b'', ''1''), (''a'', ''2'')] [] =
   add_all (\<lambda>f o1. (Inr True, o1)) (\<lambda>k v o1. (Inr True, o1 @ [v])) [] [(''a'', ''2''), (''b'', ''1'')] []"
  by (rule add_all_order) simp_all

end
