(* ===== verification/Option_Structs.thy ===== *)
theory Option_Structs
  imports Options_Parse Page_Backend
begin

text \<open>
  The option structures that are filled from flags and options: ConfigOptions, CacheOptions,
  HTTPOptions, RunnerOptions, FuseOptions, and the programs that own them
  (src/bin/andromeda-fuse/Options.cpp, src/bin/andromeda-cli/Options.cpp). Numbers are cast to
  the type of their field: to 32 or 16 bits, to the signed 64 bits of std::chrono durations, or
  to int. Compiled for libfuse 3, not for OpenBSD.
\<close>

section \<open>The code\<close>

definition set_number :: "string \<Rightarrow> nat option \<Rightarrow> (nat \<Rightarrow> 'o \<Rightarrow> 'o) \<Rightarrow> 'o adder" where
  "set_number option parsed upd o1 =
     (case parsed of None \<Rightarrow> (Inl (BadValue option), o1) | Some n \<Rightarrow> (Inr True, upd n o1))"

text \<open>The field is assigned before it is tested for zero.\<close>

definition set_nonzero :: "string \<Rightarrow> nat option \<Rightarrow> nat \<Rightarrow> (nat \<Rightarrow> 'o \<Rightarrow> 'o) \<Rightarrow> 'o adder" where
  "set_nonzero option parsed bits upd o1 =
     (case parsed of
        None \<Rightarrow> (Inl (BadValue option), o1)
      | Some n \<Rightarrow> (if n mod 2 ^ bits = 0 then Inl (BadValue option) else Inr True, upd (n mod 2 ^ bits) o1))"

definition signed64 :: "nat \<Rightarrow> int" where
  "signed64 n = (if n < 2 ^ 63 then int n else int n - 2 ^ 64)"

definition signed32 :: "nat \<Rightarrow> int" where
  "signed32 n = (if n mod 2 ^ 32 < 2 ^ 31 then int (n mod 2 ^ 32) else int (n mod 2 ^ 32) - 2 ^ 32)"

text \<open>std::stoul in base 8, which takes the digits 0 to 7.\<close>

definition stoul8 :: "string \<Rightarrow> nat option" where
  "stoul8 s =
     (let t = dropWhile is_space s;
          (neg, u) = (case t of [] \<Rightarrow> (False, t)
                      | c # t' \<Rightarrow> if c = CHR ''-'' then (True, t') else if c = CHR ''+'' then (False, t') else (False, t));
          ds = takeWhile (\<lambda>c. is_digit c \<and> digit_val c < 8) u;
          n = foldl (\<lambda>a c. a * 8 + digit_val c) 0 ds
      in if ds = [] \<or> n \<ge> 2 ^ 64 then None
         else Some (if neg then usub 0 n else n))"

text \<open>The first AddFlag or AddOption that uses the flag or option.\<close>

definition or_else :: "'o adder \<Rightarrow> 'o adder \<Rightarrow> 'o adder" where
  "or_else a b o1 = (case a o1 of (Inr used, o2) \<Rightarrow> (if used then (Inr True, o2) else b o2) | (Inl e, o2) \<Rightarrow> (Inl e, o2))"

record config_opts =
  co_quiet :: bool
  co_readonly :: bool
  co_cachetype :: cache_type
  co_refresh :: int
  co_pagesize :: nat
  co_readahead :: int
  co_maxfrac :: nat
  co_buffer :: nat
  co_runners :: nat

definition config_default :: config_opts where
  "config_default = \<lparr>co_quiet = False, co_readonly = False, co_cachetype = CacheNormal, co_refresh = 15,
     co_pagesize = 131072, co_readahead = 2000, co_maxfrac = 4, co_buffer = 2, co_runners = 1\<rparr>"

definition config_add_flag :: "string \<Rightarrow> config_opts adder" where
  "config_add_flag flag c =
     (if flag = ''q'' \<or> flag = ''quiet'' then (Inr True, c\<lparr>co_quiet := True\<rparr>)
      else if flag = ''r'' \<or> flag = ''read-only'' then (Inr True, c\<lparr>co_readonly := True\<rparr>)
      else (Inr False, c))"

definition config_add_option :: "string \<Rightarrow> string \<Rightarrow> config_opts adder" where
  "config_add_option option value c =
     (if option = ''cachemode'' then
        (if value = ''none'' then (Inr True, c\<lparr>co_cachetype := CacheNone\<rparr>)
         else if value = ''memory'' then (Inr True, c\<lparr>co_cachetype := CacheMemory\<rparr>)
         else if value = ''normal'' then (Inr True, c\<lparr>co_cachetype := CacheNormal\<rparr>)
         else (Inl (BadValue option), c))
      else if option = ''dir-refresh'' then set_number option (stoul value) (\<lambda>n c. c\<lparr>co_refresh := signed64 n\<rparr>) c
      else if option = ''backend-runners'' then set_nonzero option (stoul value) 64 (\<lambda>n c. c\<lparr>co_runners := n\<rparr>) c
      else if option = ''pagesize'' then set_nonzero option (string_to_bytes value) 64 (\<lambda>n c. c\<lparr>co_pagesize := n\<rparr>) c
      else if option = ''read-ahead'' then set_number option (stoul value) (\<lambda>n c. c\<lparr>co_readahead := signed64 n\<rparr>) c
      else if option = ''read-max-cache-frac'' then set_nonzero option (stoul value) 32 (\<lambda>n c. c\<lparr>co_maxfrac := n\<rparr>) c
      else if option = ''read-ahead-buffer'' then set_number option (stoul value) (\<lambda>n c. c\<lparr>co_buffer := n\<rparr>) c
      else (Inr False, c))"

record cache_options =
  ca_disable :: bool
  ca_maxdirty :: int
  ca_memlimit :: nat
  ca_evictfrac :: nat

definition cache_default :: cache_options where
  "cache_default = \<lparr>ca_disable = False, ca_maxdirty = 1000, ca_memlimit = 256 * 1024 * 1024, ca_evictfrac = 16\<rparr>"

definition cache_add_flag :: "string \<Rightarrow> cache_options adder" where
  "cache_add_flag flag c = (if flag = ''no-cachemgr'' then (Inr True, c\<lparr>ca_disable := True\<rparr>) else (Inr False, c))"

definition cache_add_option :: "string \<Rightarrow> string \<Rightarrow> cache_options adder" where
  "cache_add_option option value c =
     (if option = ''max-dirty'' then set_number option (stoul value) (\<lambda>n c. c\<lparr>ca_maxdirty := signed64 n\<rparr>) c
      else if option = ''memory-limit'' then set_number option (string_to_bytes value) (\<lambda>n c. c\<lparr>ca_memlimit := n\<rparr>) c
      else if option = ''evict-frac'' then set_nonzero option (stoul value) 32 (\<lambda>n c. c\<lparr>ca_evictfrac := n\<rparr>) c
      else (Inr False, c))"

record http_opts =
  ho_user :: string
  ho_pass :: string
  ho_redirects :: bool
  ho_verify :: bool
  ho_phost :: string
  ho_pport :: nat
  ho_puser :: string
  ho_ppass :: string

definition http_default :: http_opts where
  "http_default = \<lparr>ho_user = [], ho_pass = [], ho_redirects = True, ho_verify = True, ho_phost = [], ho_pport = 443,
     ho_puser = [], ho_ppass = []\<rparr>"

definition http_add_flag :: "string \<Rightarrow> http_opts adder" where
  "http_add_flag flag h =
     (if flag = ''no-tls-verify'' then (Inr True, h\<lparr>ho_verify := False\<rparr>)
      else if flag = ''no-http-redirect'' then (Inr True, h\<lparr>ho_redirects := False\<rparr>)
      else (Inr False, h))"

definition http_add_option :: "string \<Rightarrow> string \<Rightarrow> http_opts adder" where
  "http_add_option option value h =
     (if option = ''http-user'' then (Inr True, h\<lparr>ho_user := value\<rparr>)
      else if option = ''http-pass'' then (Inr True, h\<lparr>ho_pass := value\<rparr>)
      else if option = ''hproxy-host'' then (Inr True, h\<lparr>ho_phost := value\<rparr>)
      else if option = ''hproxy-port'' then set_number option (stoul value) (\<lambda>n h. h\<lparr>ho_pport := n mod 2 ^ 16\<rparr>) h
      else if option = ''hproxy-user'' then (Inr True, h\<lparr>ho_puser := value\<rparr>)
      else if option = ''hproxy-pass'' then (Inr True, h\<lparr>ho_ppass := value\<rparr>)
      else (Inr False, h))"

record runner_opts =
  ro_retries :: nat
  ro_retrytime :: int
  ro_timeout :: int
  ro_bufsize :: nat

definition runner_default :: runner_opts where
  "runner_default = \<lparr>ro_retries = 4, ro_retrytime = 3, ro_timeout = 60, ro_bufsize = 1048576\<rparr>"

definition runner_add_flag :: "string \<Rightarrow> runner_opts adder" where
  "runner_add_flag flag r = (Inr False, r)"

definition runner_add_option :: "string \<Rightarrow> string \<Rightarrow> runner_opts adder" where
  "runner_add_option option value r =
     (if option = ''req-timeout'' then set_number option (stoul value) (\<lambda>n r. r\<lparr>ro_timeout := signed64 n\<rparr>) r
      else if option = ''max-retries'' then set_number option (stoul value) (\<lambda>n r. r\<lparr>ro_retries := n mod 2 ^ 32\<rparr>) r
      else if option = ''retry-time'' then set_number option (stoul value) (\<lambda>n r. r\<lparr>ro_retrytime := signed64 n\<rparr>) r
      else if option = ''stream-buffer-size''
        then set_nonzero option (string_to_bytes value) 64 (\<lambda>n r. r\<lparr>ro_bufsize := n\<rparr>) r
      else (Inr False, r))"

record fuse_opts =
  fo_args :: "string list"
  fo_filemode :: int
  fo_dirmode :: int
  fo_chmod :: bool
  fo_chown :: bool
  fo_threading :: bool
  fo_idle :: nat

definition fuse_default :: fuse_opts where
  "fuse_default = \<lparr>fo_args = [], fo_filemode = 488, fo_dirmode = 488, fo_chmod = True, fo_chown = True,
     fo_threading = True, fo_idle = 10\<rparr>"

definition fuse_add_flag :: "string \<Rightarrow> fuse_opts adder" where
  "fuse_add_flag flag f =
     (if flag = ''no-chmod'' then (Inr True, f\<lparr>fo_chmod := False\<rparr>)
      else if flag = ''no-chown'' then (Inr True, f\<lparr>fo_chown := False\<rparr>)
      else if flag = ''no-fuse-threading'' then (Inr True, f\<lparr>fo_threading := False\<rparr>)
      else if flag = ''dump-fuse-options'' then (Inl ShowHelp, f)
      else (Inr False, f))"

definition fuse_add_option :: "string \<Rightarrow> string \<Rightarrow> fuse_opts adder" where
  "fuse_add_option option value f =
     (if option = ''o'' \<or> option = ''option'' then (Inr True, f\<lparr>fo_args := fo_args f @ [value]\<rparr>)
      else if option = ''file-mode'' then
        (if length value \<noteq> 3 then (Inl (BadValue option), f)
         else set_number option (stoul8 value) (\<lambda>n f. f\<lparr>fo_filemode := signed32 n\<rparr>) f)
      else if option = ''dir-mode'' then
        (if length value \<noteq> 3 then (Inl (BadValue option), f)
         else set_number option (stoul8 value) (\<lambda>n f. f\<lparr>fo_dirmode := signed32 n\<rparr>) f)
      else if option = ''fuse-max-idle-threads''
        then set_number option (stoul value) (\<lambda>n f. f\<lparr>fo_idle := n mod 2 ^ 32\<rparr>) f
      else (Inr False, f))"

text \<open>The options of andromeda-fuse, with the structures they fill.\<close>

datatype api_type = ApiUrl | ApiPath | ApiInvalid

datatype root_type = SuperRoot | StorageRoot | FolderRoot

record mount_opts =
  mo_base :: base_opts
  mo_config :: config_opts
  mo_http :: http_opts
  mo_runner :: runner_opts
  mo_cache :: cache_options
  mo_fuse :: fuse_opts
  mo_apitype :: api_type
  mo_apipath :: string
  mo_mountpath :: string
  mo_username :: string
  mo_password :: string
  mo_force :: bool
  mo_sessionid :: string
  mo_sessionkey :: string
  mo_roottype :: root_type
  mo_itemid :: string
  mo_foreground :: bool

definition base_default :: base_opts where
  "base_default = \<lparr>bo_level = 0, bo_filters = [], bo_logs = []\<rparr>"

definition mount_default :: mount_opts where
  "mount_default = \<lparr>mo_base = base_default, mo_config = config_default, mo_http = http_default,
     mo_runner = runner_default, mo_cache = cache_default, mo_fuse = fuse_default, mo_apitype = ApiInvalid,
     mo_apipath = [], mo_mountpath = [], mo_username = [], mo_password = [], mo_force = False, mo_sessionid = [],
     mo_sessionkey = [], mo_roottype = SuperRoot, mo_itemid = [], mo_foreground = False\<rparr>"

text \<open>An adder of one of the structures, as an adder of all.\<close>

definition within :: "('o \<Rightarrow> 'i) \<Rightarrow> ('i \<Rightarrow> 'o \<Rightarrow> 'o) \<Rightarrow> 'i adder \<Rightarrow> 'o adder" where
  "within get put add o1 = (case add (get o1) of (r, i) \<Rightarrow> (r, put i o1))"

definition mount_add_flag :: "string \<Rightarrow> mount_opts adder" where
  "mount_add_flag flag m =
     (if flag = ''p'' \<or> flag = ''apipath'' then (Inr True, m\<lparr>mo_apitype := ApiPath\<rparr>)
      else if flag = ''force-session'' then (Inr True, m\<lparr>mo_force := True\<rparr>)
      else if flag = ''storage'' then (Inr True, m\<lparr>mo_roottype := StorageRoot\<rparr>)
      else if flag = ''folder'' then (Inr True, m\<lparr>mo_roottype := FolderRoot\<rparr>)
      else if flag = ''d'' \<or> flag = ''debug'' then (Inr True, m\<lparr>mo_foreground := True\<rparr>)
      else (or_else (\<lambda>m. (base_add_flag flag, m))
           (or_else (within mo_config (\<lambda>c m. m\<lparr>mo_config := c\<rparr>) (config_add_flag flag))
           (or_else (within mo_http (\<lambda>h m. m\<lparr>mo_http := h\<rparr>) (http_add_flag flag))
           (or_else (within mo_runner (\<lambda>r m. m\<lparr>mo_runner := r\<rparr>) (runner_add_flag flag))
           (or_else (within mo_cache (\<lambda>c m. m\<lparr>mo_cache := c\<rparr>) (cache_add_flag flag))
                    (within mo_fuse (\<lambda>f m. m\<lparr>mo_fuse := f\<rparr>) (fuse_add_flag flag))))))) m)"

definition mount_url_option :: "string \<Rightarrow> string \<Rightarrow> mount_opts \<Rightarrow> mount_opts" where
  "mount_url_option option value m =
     (if option = ''folder'' then m\<lparr>mo_itemid := value, mo_roottype := FolderRoot\<rparr> else m)"

text \<open>parse is ParseFile, files the regular files.\<close>

definition mount_add_option :: "(string \<Rightarrow> string list option) \<Rightarrow>
    (string list \<Rightarrow> mount_opts \<Rightarrow> opt_error option \<times> mount_opts) \<Rightarrow> string \<Rightarrow> string \<Rightarrow> mount_opts adder" where
  "mount_add_option files parse option value m =
     (let base = base_add_option files parse (\<lambda>u m. m\<lparr>mo_base := u (mo_base m)\<rparr>) option value in
      if option = ''a'' \<or> option = ''apiurl'' then
        (Inr True, parse_url mount_url_option value (m\<lparr>mo_apipath := value, mo_apitype := ApiUrl\<rparr>))
      else if option = ''p'' \<or> option = ''apipath'' then (Inr True, m\<lparr>mo_apipath := value, mo_apitype := ApiPath\<rparr>)
      else if option = ''u'' \<or> option = ''username'' then (Inr True, m\<lparr>mo_username := value\<rparr>)
      else if option = ''password'' then (Inr True, m\<lparr>mo_password := value\<rparr>)
      else if option = ''sessionid'' then (Inr True, m\<lparr>mo_sessionid := value\<rparr>)
      else if option = ''sessionkey'' then (Inr True, m\<lparr>mo_sessionkey := value\<rparr>)
      else if option = ''ri'' \<or> option = ''storage'' then (Inr True, m\<lparr>mo_itemid := value, mo_roottype := StorageRoot\<rparr>)
      else if option = ''rf'' \<or> option = ''folder'' then (Inr True, m\<lparr>mo_itemid := value, mo_roottype := FolderRoot\<rparr>)
      else if option = ''m'' \<or> option = ''mountpath'' then (Inr True, m\<lparr>mo_mountpath := value\<rparr>)
      else if option = ''d'' \<or> option = ''debug'' then
        (case base (m\<lparr>mo_foreground := True\<rparr>) of (r, m') \<Rightarrow> (map_sum id (\<lambda>_. True) r, m'))
      else (or_else base
           (or_else (within mo_config (\<lambda>c m. m\<lparr>mo_config := c\<rparr>) (config_add_option option value))
           (or_else (within mo_http (\<lambda>h m. m\<lparr>mo_http := h\<rparr>) (http_add_option option value))
           (or_else (within mo_runner (\<lambda>r m. m\<lparr>mo_runner := r\<rparr>) (runner_add_option option value))
           (or_else (within mo_cache (\<lambda>c m. m\<lparr>mo_cache := c\<rparr>) (cache_add_option option value))
                    (within mo_fuse (\<lambda>f m. m\<lparr>mo_fuse := f\<rparr>) (fuse_add_option option value))))))) m)"

text \<open>
  ParseFile calls the AddOption it is called from when a file names another configuration file.
  depth bounds how far files may be nested; Endless is the error of a deeper one.
\<close>

primrec mount_parse_lines :: "nat \<Rightarrow> (string \<Rightarrow> string list option) \<Rightarrow> string list \<Rightarrow> mount_opts \<Rightarrow>
    opt_error option \<times> mount_opts" where
  "mount_parse_lines 0 files ls m = (Some Endless, m)"
| "mount_parse_lines (Suc depth) files ls m =
     parse_file mount_add_flag (mount_add_option files (mount_parse_lines depth files)) ls m"

definition mount_parse_args :: "nat \<Rightarrow> (string \<Rightarrow> string list option) \<Rightarrow> string list \<Rightarrow> mount_opts \<Rightarrow>
    (opt_error + nat) \<times> mount_opts" where
  "mount_parse_args depth files argv =
     parse_args mount_add_flag (mount_add_option files (mount_parse_lines depth files)) False argv"

text \<open>Validate.\<close>

definition mount_validate :: "mount_opts \<Rightarrow> opt_error option" where
  "mount_validate m =
     (if mo_apitype m = ApiInvalid then Some (MissingOption ''apiurl/apipath'')
      else if mo_username m = [] \<and> mo_sessionid m = [] then Some (MissingOption ''username/sessionid'')
      else if mo_mountpath m = [] then Some (MissingOption ''mountpath'')
      else None)"

text \<open>The options of andromeda-cli.\<close>

record cli_opts =
  cl_base :: base_opts
  cl_http :: http_opts
  cl_runner :: runner_opts
  cl_url :: string
  cl_streamout :: bool
  cl_unsafe :: bool

definition cli_add_flag :: "string \<Rightarrow> cli_opts adder" where
  "cli_add_flag flag =
     or_else (\<lambda>m. (base_add_flag flag, m))
       (\<lambda>m. if flag = ''stream-out'' then (Inr True, m\<lparr>cl_streamout := True\<rparr>)
            else if flag = ''allow-unsafe-url'' then (Inr True, m\<lparr>cl_unsafe := True\<rparr>)
            else or_else (within cl_http (\<lambda>h m. m\<lparr>cl_http := h\<rparr>) (http_add_flag flag))
                   (within cl_runner (\<lambda>r m. m\<lparr>cl_runner := r\<rparr>) (runner_add_flag flag)) m)"

definition cli_add_option :: "(string \<Rightarrow> string list option) \<Rightarrow>
    (string list \<Rightarrow> cli_opts \<Rightarrow> opt_error option \<times> cli_opts) \<Rightarrow> string \<Rightarrow> string \<Rightarrow> cli_opts adder" where
  "cli_add_option files parse option value =
     or_else (base_add_option files parse (\<lambda>u m. m\<lparr>cl_base := u (cl_base m)\<rparr>) option value)
       (\<lambda>m. if option = ''a'' \<or> option = ''apiurl'' then (Inr True, m\<lparr>cl_url := value\<rparr>)
            else or_else (within cl_http (\<lambda>h m. m\<lparr>cl_http := h\<rparr>) (http_add_option option value))
                   (within cl_runner (\<lambda>r m. m\<lparr>cl_runner := r\<rparr>) (runner_add_option option value)) m)"

definition cli_validate :: "cli_opts \<Rightarrow> opt_error option" where
  "cli_validate m = (if cl_url m = [] then Some (MissingOption ''apiurl'') else None)"

text \<open>The options of andromeda-fuse as its main function reads them.\<close>

definition mount_startup :: "nat \<Rightarrow> (string \<Rightarrow> string list option) \<Rightarrow> string \<Rightarrow> string list \<Rightarrow> opt_error + mount_opts" where
  "mount_startup depth files home argv =
     (let config = parse_config mount_add_flag (mount_add_option files (mount_parse_lines depth files)) files home in
      case config ''libandromeda'' mount_default of
        (Some e, m) \<Rightarrow> Inl e
      | (None, m) \<Rightarrow>
          (case config ''andromeda-fuse'' m of
             (Some e, m) \<Rightarrow> Inl e
           | (None, m) \<Rightarrow>
               (case mount_parse_args depth files argv m of
                  (Inl e, m) \<Rightarrow> Inl e
                | (Inr _, m) \<Rightarrow> (case mount_validate m of Some e \<Rightarrow> Inl e | None \<Rightarrow> Inr m))))"

end
