(* ===== verification/Options_Correct.thy ===== *)
theory Options_Correct
  imports Option_Structs "HOL-Library.Code_Target_Nat"
begin

text \<open>
  What the parsers keep of the options: an interface option_handler for the two virtual
  functions AddFlag and AddOption, what parsing adds to it, and its interpretation on the options
  of andromeda-fuse; nested configuration files; flags and options in files and as arguments.
\<close>

section \<open>Parsing with any AddFlag and AddOption\<close>

text \<open>What holds of the result of an adder: err of its exception, or ok of the new options.\<close>

definition kept :: "(opt_error \<Rightarrow> bool) \<Rightarrow> ('o \<Rightarrow> bool) \<Rightarrow> (opt_error + bool) \<times> 'o \<Rightarrow> bool" where
  "kept err ok x \<longleftrightarrow> (case fst x of Inl e \<Rightarrow> err e | Inr _ \<Rightarrow> ok (snd x))"

definition keeps :: "(opt_error \<Rightarrow> bool) \<Rightarrow> ('o \<Rightarrow> bool) \<Rightarrow> 'o adder \<Rightarrow> bool" where
  "keeps err ok a \<longleftrightarrow> (\<forall>o1. ok o1 \<longrightarrow> kept err ok (a o1))"

definition settled :: "(opt_error \<Rightarrow> bool) \<Rightarrow> ('o \<Rightarrow> bool) \<Rightarrow> opt_error option \<times> 'o \<Rightarrow> bool" where
  "settled err ok x \<longleftrightarrow> (case fst x of Some e \<Rightarrow> err e | None \<Rightarrow> ok (snd x))"

text \<open>err only has to exclude the endless recursion.\<close>

definition benign :: "(opt_error \<Rightarrow> bool) \<Rightarrow> bool" where
  "benign err \<longleftrightarrow> (\<forall>e. e \<noteq> Endless \<longrightarrow> err e)"

lemma benignD: "benign err \<Longrightarrow> e \<noteq> Endless \<Longrightarrow> err e"
  by (simp add: benign_def)

lemma keepsI: "(\<And>o1. ok o1 \<Longrightarrow> kept err ok (a o1)) \<Longrightarrow> keeps err ok a"
  by (simp add: keeps_def)

lemma keepsE: "keeps err ok a \<Longrightarrow> ok o1 \<Longrightarrow> kept err ok (a o1)"
  by (simp add: keeps_def)

lemma kept_pair [simp]: "kept err ok (Inl e, o1) \<longleftrightarrow> err e" "kept err ok (Inr r, o1) \<longleftrightarrow> ok o1"
  by (simp_all add: kept_def)

lemma settled_pair [simp]: "settled err ok (Some e, o1) \<longleftrightarrow> err e" "settled err ok (None, o1) \<longleftrightarrow> ok o1"
  by (simp_all add: settled_def)

lemma kept_if: "(b \<Longrightarrow> kept err ok x) \<Longrightarrow> (\<not> b \<Longrightarrow> kept err ok y) \<Longrightarrow> kept err ok (if b then x else y)"
  by simp

lemma kept_number: "benign err \<Longrightarrow> (\<And>n. ok (upd n o1)) \<Longrightarrow> kept err ok (set_number k parsed upd o1)"
  by (simp add: set_number_def benign_def split: option.split)

lemma kept_nonzero:
  "benign err \<Longrightarrow> (\<And>n. 0 < n \<Longrightarrow> n < 2 ^ bits \<Longrightarrow> ok (upd n o1)) \<Longrightarrow> kept err ok (set_nonzero k parsed bits upd o1)"
  by (simp add: set_nonzero_def kept_def benign_def split: option.split)

lemma kept_or_else:
  assumes "kept err ok (a o1)" and "keeps err ok b"
  shows "kept err ok (or_else a b o1)"
proof (cases "a o1")
  case (Pair r o2)
  then show ?thesis using assms by (cases r) (simp_all add: or_else_def keeps_def)
qed

lemma kept_within:
  assumes "keeps err ok add" and "ok (get o1)" and "\<And>i. ok i \<Longrightarrow> ok' (put i o1)"
  shows "kept err ok' (within get put add o1)"
proof (cases "add (get o1)")
  case (Pair r i)
  have "kept err ok (add (get o1))" using assms(1,2) by (simp add: keeps_def)
  then show ?thesis using assms(3) by (cases r) (simp_all add: within_def Pair)
qed

lemma keeps_or_else: "keeps err ok a \<Longrightarrow> keeps err ok b \<Longrightarrow> keeps err ok (or_else a b)"
  by (simp add: keeps_def kept_or_else)

lemma keeps_within:
  assumes "keeps err ok add" and "\<And>o1. ok' o1 \<Longrightarrow> ok (get o1)" and "\<And>i o1. ok' o1 \<Longrightarrow> ok i \<Longrightarrow> ok' (put i o1)"
  shows "keeps err ok' (within get put add)"
proof (rule keepsI)
  fix o1 assume p: "ok' o1"
  show "kept err ok' (within get put add o1)"
    using assms(1) assms(2) [OF p] assms(3) [OF p] by (rule kept_within [where ok = ok])
qed

lemma add_flags_settled:
  assumes "\<And>f. keeps err ok (add f)" and "benign err" and "ok o1"
  shows "settled err ok (add_flags add fs o1)"
  using assms(3)
proof (induction fs arbitrary: o1)
  case (Cons f fs)
  obtain r o2 where a: "add f o1 = (r, o2)" by force
  have "kept err ok (r, o2)" using keepsE [OF assms(1) [of f] Cons.prems] a by simp
  then show ?case using Cons.IH benignD [OF assms(2), of "BadFlag f"] by (cases r) (simp_all add: a)
qed simp

lemma add_options_settled:
  assumes "\<And>k v. (k, v) \<in> set os \<Longrightarrow> keeps err ok (add k v)" and "benign err" and "ok o1"
  shows "settled err ok (add_options add os o1)"
  using assms(1,3)
proof (induction os arbitrary: o1)
  case (Cons kv os)
  obtain k v where kv: "kv = (k, v)" by force
  obtain r o2 where a: "add k v o1 = (r, o2)" by force
  have "keeps err ok (add k v)" using Cons.prems(1) kv by simp
  then have "kept err ok (add k v o1)" using Cons.prems(2) by (rule keepsE)
  then have k: "kept err ok (r, o2)" by (simp only: a)
  have "settled err ok (add_options add os o2)" if "ok o2"
    by (rule Cons.IH) (use Cons.prems(1) that in auto)
  then show ?case using k benignD [OF assms(2), of "BadOption k"] by (cases r) (simp_all add: a kv)
qed simp

lemma set_multimap [simp]: "set (multimap os) = set os"
  by (simp add: multimap_def)

lemma add_all_settled:
  assumes "\<And>f. keeps err ok (add_flag f)" and "\<And>k v. (k, v) \<in> set os \<Longrightarrow> keeps err ok (add_option k v)"
    and "benign err" and "ok o1"
  shows "settled err ok (add_all add_flag add_option fs os o1)"
proof -
  obtain e o2 where a: "add_flags add_flag fs o1 = (e, o2)" by force
  have "settled err ok (add_flags add_flag fs o1)" using assms(1,3,4) by (rule add_flags_settled)
  then have s: "settled err ok (e, o2)" by (simp only: a)
  have "settled err ok (add_options add_option (multimap os) o2)" if "ok o2"
    by (rule add_options_settled) (use assms(2,3) that in auto)
  then show ?thesis unfolding add_all_def a using s by (cases e) simp_all
qed

locale option_handler =
  fixes add_flag :: "string \<Rightarrow> 'o adder" and add_option :: "string \<Rightarrow> string \<Rightarrow> 'o adder"
    and err :: "opt_error \<Rightarrow> bool" and ok :: "'o \<Rightarrow> bool"
  assumes err: "benign err"
    and flag_keeps: "keeps err ok (add_flag f)" and option_keeps: "keeps err ok (add_option k v)"
begin

lemma parse_file_settled: "ok o1 \<Longrightarrow> settled err ok (parse_file add_flag add_option ls o1)"
  by (simp add: parse_file_def err flag_keeps option_keeps add_all_settled split: prod.split)

lemma parse_config_paths_settled: "ok o1 \<Longrightarrow> settled err ok (parse_config_paths add_flag add_option files ps o1)"
proof (induction ps arbitrary: o1)
  case (Cons p ps)
  show ?case
  proof (cases "files p")
    case (Some ls)
    obtain e o2 where a: "parse_file add_flag add_option ls o1 = (e, o2)" by force
    have "settled err ok (e, o2)" using parse_file_settled [OF Cons.prems, of ls] by (simp only: a)
    then show ?thesis using Cons.IH by (cases e) (simp_all add: Some a)
  qed (simp add: Cons)
qed simp

lemma parse_config_settled: "ok o1 \<Longrightarrow> settled err ok (parse_config add_flag add_option files home pre o1)"
  unfolding parse_config_def by (rule parse_config_paths_settled)

lemma scan_args_error: "scan_args stopmm idx args = Inl e \<Longrightarrow> err e"
proof (induction stopmm idx args rule: scan_args.induct)
  case (2 stopmm idx arg rest)
  then show ?case using err
    by (cases "classify_arg stopmm arg (if rest = [] then None else Some (hd rest))")
      (auto simp: benign_def map_sum_Inl split: if_splits)
qed simp

lemma parse_args_settled:
  assumes "ok o1"
  shows "case parse_args add_flag add_option stopmm argv o1 of (Inl e, _) \<Rightarrow> err e | (Inr _, o2) \<Rightarrow> ok o2"
proof (cases "scan_args stopmm 1 (tl argv)")
  case (Inl e)
  then show ?thesis using scan_args_error by (simp add: parse_args_def)
next
  case (Inr x)
  obtain fs os n where x: "x = (fs, os, n)" by (cases x)
  obtain e o2 where a: "add_all add_flag add_option fs os o1 = (e, o2)" by force
  have "settled err ok (add_all add_flag add_option fs os o1)"
    by (rule add_all_settled [OF flag_keeps option_keeps err assms])
  then have "settled err ok (e, o2)" using a by simp
  then show ?thesis unfolding parse_args_def Inr x by (cases e) (simp_all add: a)
qed

end

section \<open>Sizes and fractions that the file cache divides by\<close>

definition config_ok :: "config_opts \<Rightarrow> bool" where
  "config_ok c \<longleftrightarrow> 0 < co_pagesize c \<and> co_pagesize c < 2 ^ 64 \<and> 0 < co_maxfrac c \<and> co_maxfrac c < 2 ^ 32 \<and>
     0 < co_runners c \<and> co_runners c < 2 ^ 64"

definition copts_ok :: "cache_options \<Rightarrow> bool" where
  "copts_ok c \<longleftrightarrow> 0 < ca_evictfrac c \<and> ca_evictfrac c < 2 ^ 32"

definition runner_ok :: "runner_opts \<Rightarrow> bool" where
  "runner_ok r \<longleftrightarrow> 0 < ro_bufsize r \<and> ro_bufsize r < 2 ^ 64"

definition mount_ok :: "mount_opts \<Rightarrow> bool" where
  "mount_ok m \<longleftrightarrow> config_ok (mo_config m) \<and> copts_ok (mo_cache m) \<and> runner_ok (mo_runner m)"

lemmas kept_rules = kept_if kept_number kept_nonzero

lemma struct_adders_keep:
  assumes "benign err"
  shows "keeps err config_ok (config_add_flag f)" "keeps err config_ok (config_add_option k v)"
    "keeps err copts_ok (cache_add_flag f)" "keeps err copts_ok (cache_add_option k v)"
    "keeps err runner_ok (runner_add_flag f)" "keeps err runner_ok (runner_add_option k v)"
    "keeps err (\<lambda>_. True) (http_add_flag f)" "keeps err (\<lambda>_. True) (http_add_option k v)"
    "keeps err (\<lambda>_. True) (fuse_add_flag f)" "keeps err (\<lambda>_. True) (fuse_add_option k v)"
  unfolding config_add_flag_def config_add_option_def cache_add_flag_def cache_add_option_def runner_add_flag_def
    runner_add_option_def http_add_flag_def http_add_option_def fuse_add_flag_def fuse_add_option_def
  by (rule keepsI, (intro kept_rules assms)?,
      simp_all add: config_ok_def copts_ok_def runner_ok_def benignD [OF assms])+

lemmas struct_keeps = struct_adders_keep [THEN keeps_within]

lemma mount_structs_keep:
  assumes "benign err"
  shows "keeps err mount_ok (within mo_config (\<lambda>c m. m\<lparr>mo_config := c\<rparr>) (config_add_flag f))"
    "keeps err mount_ok (within mo_config (\<lambda>c m. m\<lparr>mo_config := c\<rparr>) (config_add_option k v))"
    "keeps err mount_ok (within mo_cache (\<lambda>c m. m\<lparr>mo_cache := c\<rparr>) (cache_add_flag f))"
    "keeps err mount_ok (within mo_cache (\<lambda>c m. m\<lparr>mo_cache := c\<rparr>) (cache_add_option k v))"
    "keeps err mount_ok (within mo_runner (\<lambda>r m. m\<lparr>mo_runner := r\<rparr>) (runner_add_flag f))"
    "keeps err mount_ok (within mo_runner (\<lambda>r m. m\<lparr>mo_runner := r\<rparr>) (runner_add_option k v))"
    "keeps err mount_ok (within mo_http (\<lambda>h m. m\<lparr>mo_http := h\<rparr>) (http_add_flag f))"
    "keeps err mount_ok (within mo_http (\<lambda>h m. m\<lparr>mo_http := h\<rparr>) (http_add_option k v))"
    "keeps err mount_ok (within mo_fuse (\<lambda>u m. m\<lparr>mo_fuse := u\<rparr>) (fuse_add_flag f))"
    "keeps err mount_ok (within mo_fuse (\<lambda>u m. m\<lparr>mo_fuse := u\<rparr>) (fuse_add_option k v))"
  by (rule struct_keeps; simp add: mount_ok_def assms)+

lemma mount_flag_keeps:
  assumes "benign err"
  shows "keeps err mount_ok (mount_add_flag f)"
proof (rule keepsI)
  fix m assume m: "mount_ok m"
  note p = m [unfolded mount_ok_def]
  have b: "kept err mount_ok (base_add_flag f, m)"
    by (simp add: base_add_flag_def m benignD [OF assms])
  show "kept err mount_ok (mount_add_flag f m)"
    unfolding mount_add_flag_def
    by (intro kept_if kept_or_else keeps_or_else mount_structs_keep assms b) (simp_all add: mount_ok_def p)
qed

lemma parse_url_keeps:
  assumes "\<And>k v m. P m \<Longrightarrow> P (try_option k v m)" and "P m"
  shows "P (parse_url try_option url m)"
proof -
  have "P (fold (\<lambda>(k, v). try_option k v) kvs m)" for kvs
    using assms(2) by (induction kvs arbitrary: m) (auto intro: assms(1))
  then show ?thesis by (simp add: parse_url_def)
qed

text \<open>The options c and config keep what parsing the file they name keeps.\<close>

definition config_settled :: "(string \<Rightarrow> string list option) \<Rightarrow> (opt_error \<Rightarrow> bool) \<Rightarrow> ('o \<Rightarrow> bool) \<Rightarrow>
    (string list \<Rightarrow> 'o \<Rightarrow> opt_error option \<times> 'o) \<Rightarrow> string \<Rightarrow> string \<Rightarrow> bool" where
  "config_settled files err ok parse k v \<longleftrightarrow>
     (\<forall>ls o1. k \<in> {''c'', ''config''} \<longrightarrow> files v = Some ls \<longrightarrow> ok o1 \<longrightarrow> settled err ok (parse ls o1))"

lemma base_option_keeps:
  assumes err: "benign err" and parse: "config_settled files err ok parse k v" and upd: "\<And>u o1. ok o1 \<Longrightarrow> ok (upd u o1)"
  shows "keeps err ok (base_add_option files parse upd k v)"
proof (rule keepsI)
  fix o1 assume o1: "ok o1"
  have c: "kept err ok (case parse ls o1 of (Some e, o2) \<Rightarrow> (Inl e, o2) | (None, o2) \<Rightarrow> (Inr True, o2))"
    if "k = ''c'' \<or> k = ''config''" "files v = Some ls" for ls
  proof -
    have "settled err ok (parse ls o1)" using parse that o1 by (auto simp: config_settled_def)
    then show ?thesis by (auto split: prod.split option.split)
  qed
  show "kept err ok (base_add_option files parse upd k v o1)"
    unfolding base_add_option_def
    by (intro kept_if) (use c in \<open>auto simp: o1 upd benignD [OF err] split: option.split\<close>)
qed

lemma mount_option_keeps:
  assumes err: "benign err" and parse: "config_settled files err mount_ok parse k v"
  shows "keeps err mount_ok (mount_add_option files parse k v)"
proof (rule keepsI)
  fix m assume m: "mount_ok m"
  note p = m [unfolded mount_ok_def]
  have base: "keeps err mount_ok (base_add_option files parse (\<lambda>u m. m\<lparr>mo_base := u (mo_base m)\<rparr>) k v)"
    by (rule base_option_keeps [OF err parse]) (simp add: mount_ok_def)
  have u: "mount_ok (parse_url mount_url_option v (m\<lparr>mo_apipath := v, mo_apitype := ApiUrl\<rparr>))"
    by (rule parse_url_keeps) (simp_all add: mount_url_option_def mount_ok_def p)
  have d: "kept err mount_ok (case x of (r, m') \<Rightarrow> (map_sum id (\<lambda>_. True) r, m'))" if "kept err mount_ok x" for x
    using that by (auto simp: kept_def split: prod.splits sum.splits)
  show "kept err mount_ok (mount_add_option files parse k v m)"
    unfolding mount_add_option_def Let_def
    by (intro kept_if kept_or_else keeps_or_else mount_structs_keep err d keepsE [OF base])
      (simp_all add: u, simp_all add: mount_ok_def p)
qed

lemma mount_parse_lines_settled:
  "mount_ok m \<Longrightarrow> settled (\<lambda>_. True) mount_ok (mount_parse_lines depth files ls m)"
proof (induction depth arbitrary: ls m)
  case (Suc depth)
  have "option_handler mount_add_flag (mount_add_option files (mount_parse_lines depth files)) (\<lambda>_. True) mount_ok"
    by unfold_locales
      (auto intro!: mount_flag_keeps mount_option_keeps Suc.IH simp: config_settled_def benign_def)
  then show ?case using option_handler.parse_file_settled Suc.prems by fastforce
qed simp

interpretation mounts: option_handler mount_add_flag "mount_add_option files (mount_parse_lines depth files)"
    "\<lambda>_. True" mount_ok for depth files
  by unfold_locales
    (auto intro!: mount_flag_keeps mount_option_keeps mount_parse_lines_settled simp: config_settled_def benign_def)

lemma mount_default_ok: "mount_ok mount_default"
  by (simp add: mount_ok_def mount_default_def config_ok_def config_default_def copts_ok_def cache_default_def
      runner_ok_def runner_default_def)

text \<open>What startup keeps, for any interpretation of the interface.\<close>

lemma mount_startup_settled:
  assumes "option_handler mount_add_flag (mount_add_option files (mount_parse_lines depth files)) err mount_ok"
  shows "case mount_startup depth files home argv of Inl e \<Rightarrow> err e | Inr m \<Rightarrow> mount_ok m"
proof -
  define add where "add = mount_add_option files (mount_parse_lines depth files)"
  note h = assms [folded add_def]
  obtain e1 m1 where p1: "parse_config mount_add_flag add files home ''libandromeda'' mount_default = (e1, m1)" by force
  obtain e2 m2 where p2: "parse_config mount_add_flag add files home ''andromeda-fuse'' m1 = (e2, m2)" by force
  obtain e3 m3 where p3: "parse_args mount_add_flag add False argv m2 = (e3, m3)" by force
  have s1: "settled err mount_ok (e1, m1)"
    using option_handler.parse_config_settled [OF h mount_default_ok, of files home "''libandromeda''"] p1 by simp
  have s2: "mount_ok m1 \<Longrightarrow> settled err mount_ok (e2, m2)"
    using option_handler.parse_config_settled [OF h, of m1 files home "''andromeda-fuse''"] p2 by simp
  have s3: "mount_ok m2 \<Longrightarrow> case (e3, m3) of (Inl e, _) \<Rightarrow> err e | (Inr _, m3) \<Rightarrow> mount_ok m3"
    using option_handler.parse_args_settled [OF h, of m2 False argv] p3 by simp
  have v: "mount_validate m3 = Some e \<Longrightarrow> err e" for e
    using benignD [OF option_handler.err [OF h], of e] by (auto simp: mount_validate_def split: if_splits)
  show ?thesis
    unfolding mount_startup_def mount_parse_args_def add_def [symmetric] Let_def p1
    using s1 s2 s3 v
    by (cases e1; cases e2; cases e3) (simp_all add: p2 p3 split: option.split)
qed

text \<open>C37: When andromeda-fuse starts with the options of its configuration files and arguments, no number that the file cache or the runners divide by or wait for is zero: page size, number of runners, stream buffer size, cache fractions; each fits its type.\<close>

theorem mount_startup_limits:
  assumes "mount_startup depth files home argv = Inr m"
  shows "mount_ok m"
  using mount_startup_settled [OF mounts.option_handler_axioms] assms by (metis sum.case(2))

lemma mount_startup_limits_witness:
  "\<exists>m. mount_startup 1 (\<lambda>p. if p = ''/etc/andromeda/libandromeda.conf'' then Some [''quiet'', ''pagesize=64K''] else None) []
      [''andromeda-fuse'', ''-a'', ''http://host?folder=x'', ''-uadmin'', ''-m'', ''/mnt'', ''--evict-frac=8''] = Inr m \<and> mount_ok m"
    (is "\<exists>m. ?s = Inr m \<and> _")
proof -
  have "\<not> isl ?s" by code_simp
  then obtain m where "?s = Inr m" by (cases ?s) auto
  with mount_startup_limits [OF this] show ?thesis by blast
qed

section \<open>Configuration files that name others\<close>

text \<open>The files that a file names with the option c or config.\<close>

definition included :: "string list \<Rightarrow> string set" where
  "included ls = {q. \<exists>k \<in> {''c'', ''config''}. (k, q) \<in> set (snd (scan_lines ls))}"

definition ranked :: "(string \<Rightarrow> string list option) \<Rightarrow> (string \<Rightarrow> nat) \<Rightarrow> bool" where
  "ranked files rank \<longleftrightarrow> (\<forall>p ls q. files p = Some ls \<longrightarrow> q \<in> included ls \<longrightarrow> files q \<noteq> None \<longrightarrow> rank q < rank p)"

lemma add_options_cong:
  "(\<And>k v. (k, v) \<in> set os \<Longrightarrow> ao k v = ao' k v) \<Longrightarrow> add_options ao os o1 = add_options ao' os o1"
proof (induction os arbitrary: o1)
  case (Cons kv os)
  obtain k v where kv: "kv = (k, v)" by force
  then have e1: "ao k v = ao' k v" using Cons.prems by simp
  have e2: "add_options ao os = add_options ao' os" using Cons by auto
  show ?case unfolding kv add_options.simps e1 e2 ..
qed simp

lemma add_all_cong:
  assumes "\<And>k v. (k, v) \<in> set os \<Longrightarrow> ao k v = ao' k v"
  shows "add_all af ao fs os = add_all af ao' fs os"
proof -
  have "add_options ao (multimap os) = add_options ao' (multimap os)"
    by (rule ext, rule add_options_cong) (use assms in auto)
  then show ?thesis unfolding add_all_def by presburger
qed

lemma parse_file_cong:
  assumes "\<And>k v. (k, v) \<in> set (snd (scan_lines ls)) \<Longrightarrow> ao k v = ao' k v"
  shows "parse_file af ao ls = parse_file af ao' ls"
proof (rule ext)
  fix o1
  obtain fs os where s: "scan_lines ls = (fs, os)" by force
  then have "add_all af ao fs os = add_all af ao' fs os" using assms by (intro add_all_cong) simp
  then show "parse_file af ao ls o1 = parse_file af ao' ls o1" by (simp add: parse_file_def s)
qed

text \<open>Only the options c and config look at files.\<close>

lemma base_add_option_cong:
  assumes "\<And>ls. k \<in> {''c'', ''config''} \<Longrightarrow> files v = Some ls \<Longrightarrow> parse ls = parse' ls"
  shows "base_add_option files parse upd k v = base_add_option files parse' upd k v"
  using assms by (intro ext) (auto simp: base_add_option_def split: option.splits)

lemma mount_add_option_cong:
  assumes "\<And>ls. k \<in> {''c'', ''config''} \<Longrightarrow> files v = Some ls \<Longrightarrow> parse ls = parse' ls"
  shows "mount_add_option files parse k v = mount_add_option files parse' k v"
proof -
  have "base_add_option files parse upd k v = base_add_option files parse' upd k v"
    for upd :: "(base_opts \<Rightarrow> base_opts) \<Rightarrow> mount_opts \<Rightarrow> mount_opts"
    by (rule base_add_option_cong [OF assms])
  then show ?thesis unfolding mount_add_option_def by presburger
qed

lemma nested_depth:
  assumes r: "ranked files rank" and p: "files p = Some ls" and d: "rank p < d" and d': "rank p < d'"
  shows "mount_parse_lines d files ls = mount_parse_lines d' files ls"
  using p d d'
proof (induction d arbitrary: p ls d')
  case (Suc d)
  obtain e where e: "d' = Suc e" using Suc.prems(3) by (cases d') auto
  have "mount_add_option files (mount_parse_lines d files) k v = mount_add_option files (mount_parse_lines e files) k v"
    if kv: "(k, v) \<in> set (snd (scan_lines ls))" for k v
  proof (rule mount_add_option_cong)
    fix ls' assume "k \<in> {''c'', ''config''}" and f: "files v = Some ls'"
    then have "v \<in> included ls" using kv by (auto simp: included_def)
    then have "rank v < rank p" using r Suc.prems(1) f unfolding ranked_def by blast
    then show "mount_parse_lines d files ls' = mount_parse_lines e files ls'"
      by (intro Suc.IH [OF f]) (use Suc.prems(2,3) e in linarith)+
  qed
  then have "parse_file mount_add_flag (mount_add_option files (mount_parse_lines d files)) ls =
      parse_file mount_add_flag (mount_add_option files (mount_parse_lines e files)) ls"
    by (rule parse_file_cong)
  then show ?case unfolding e by (intro ext) simp
qed simp

lemma nested_settled:
  assumes r: "ranked files rank" and p: "files p = Some ls" and d: "rank p < d" and m: "mount_ok m"
  shows "settled (\<lambda>e. e \<noteq> Endless) mount_ok (mount_parse_lines d files ls m)"
  using p d m
proof (induction d arbitrary: p ls m)
  case (Suc d)
  have b: "benign (\<lambda>e. e \<noteq> Endless)" by (simp add: benign_def)
  have o: "keeps (\<lambda>e. e \<noteq> Endless) mount_ok (mount_add_option files (mount_parse_lines d files) k v)"
    if kv: "(k, v) \<in> set (snd (scan_lines ls))" for k v
  proof (rule mount_option_keeps [OF b])
    have "settled (\<lambda>e. e \<noteq> Endless) mount_ok (mount_parse_lines d files ls' m')"
      if k: "k \<in> {''c'', ''config''}" and f: "files v = Some ls'" and m': "mount_ok m'" for ls' m'
    proof -
      have "v \<in> included ls" using kv k by (auto simp: included_def)
      then have "rank v < rank p" using r Suc.prems(1) f unfolding ranked_def by blast
      then show ?thesis by (intro Suc.IH [OF f _ m']) (use Suc.prems(2) in linarith)
    qed
    then show "config_settled files (\<lambda>e. e \<noteq> Endless) mount_ok (mount_parse_lines d files) k v"
      unfolding config_settled_def by blast
  qed
  obtain fs os where s: "scan_lines ls = (fs, os)" by force
  have "settled (\<lambda>e. e \<noteq> Endless) mount_ok
      (add_all mount_add_flag (mount_add_option files (mount_parse_lines d files)) fs os m)"
    by (rule add_all_settled [OF mount_flag_keeps [OF b] _ b Suc.prems(3)]) (use o s in simp)
  then show ?case by (simp add: parse_file_def s)
qed simp

text \<open>When no configuration file leads back to itself, reading the options of andromeda-fuse ends: the recursion from AddOption to ParseFile is no deeper than the longest chain of files, and any deeper bound gives the same result.\<close>

theorem config_files_end:
  assumes r: "ranked files rank" and d: "\<forall>p. files p \<noteq> None \<longrightarrow> rank p < depth" and d': "depth \<le> depth'"
  shows "mount_startup depth files home argv \<noteq> Inl Endless \<and>
    mount_startup depth' files home argv = mount_startup depth files home argv"
proof
  have "option_handler mount_add_flag (mount_add_option files (mount_parse_lines depth files)) (\<lambda>e. e \<noteq> Endless) mount_ok"
    by unfold_locales
      (use d nested_settled [OF r] in \<open>auto intro!: mount_flag_keeps mount_option_keeps simp: config_settled_def benign_def\<close>)
  from mount_startup_settled [OF this, of home argv]
  show "mount_startup depth files home argv \<noteq> Inl Endless" by auto
  have "mount_add_option files (mount_parse_lines depth' files) k v = mount_add_option files (mount_parse_lines depth files) k v" for k v
    by (rule mount_add_option_cong, rule nested_depth [OF r]) (use d d' in \<open>fastforce+\<close>)
  then have "mount_add_option files (mount_parse_lines depth' files) = mount_add_option files (mount_parse_lines depth files)"
    by blast
  then show "mount_startup depth' files home argv = mount_startup depth files home argv"
    unfolding mount_startup_def mount_parse_args_def by (simp only:)
qed

lemma config_files_end_witness:
  "mount_startup 1 (\<lambda>p. if p = ''./andromeda-fuse.conf'' then Some [''read-only'', ''pagesize=64K''] else None) [] [] \<noteq> Inl Endless"
proof -
  let ?files = "\<lambda>p. if p = ''./andromeda-fuse.conf'' then Some [''read-only'', ''pagesize=64K''] else None"
  have "scan_lines [''read-only'', ''pagesize=64K''] = ([''read-only''], [(''pagesize'', ''64K'')])" by code_simp
  then have "included [''read-only'', ''pagesize=64K''] = {}" by (simp add: included_def)
  then have r: "ranked ?files (\<lambda>_. 0)" by (simp add: ranked_def)
  show ?thesis using config_files_end [OF r, of 1 1 "[]" "[]"] by simp
qed

text \<open>A configuration file that names itself is read without end: no depth of recursion is enough.\<close>

theorem self_including_config_endless:
  assumes "files p = Some [''config='' @ p]" and "last (''config='' @ p) \<noteq> CHR 0x0D"
  shows "fst (mount_add_option files (mount_parse_lines depth files) ''config'' p m) = Inl Endless"
proof -
  have sp: "split_pair (''config'' @ CHR ''='' # p) ''='' 0 False = (''config'', p)"
    by (rule split_pair_first) simp
  have s: "scan_lines [''config='' @ p] = ([], [(''config'', p)])"
    using assms(2) sp by simp
  have step: "fst (mount_add_option files (mount_parse_lines d files) ''config'' p m) = Inl Endless"
    if "fst (mount_parse_lines d files [''config='' @ p] m) = Some Endless" for d m
  proof -
    obtain m' where "mount_parse_lines d files [''config='' @ p] m = (Some Endless, m')"
      using \<open>fst (mount_parse_lines d files [''config='' @ p] m) = Some Endless\<close> by (metis prod.collapse)
    then have "base_add_option files (mount_parse_lines d files) upd ''config'' p m = (Inl Endless, m')" for upd
      using assms(1) by (simp add: base_add_option_def)
    then show ?thesis by (simp add: mount_add_option_def or_else_def)
  qed
  have "fst (mount_parse_lines d files [''config='' @ p] m) = Some Endless" for d m
  proof (induction d arbitrary: m)
    case (Suc d)
    have "fst (mount_add_option files (mount_parse_lines d files) ''config'' p m) = Inl Endless"
      by (rule step [OF Suc.IH])
    then obtain m' where "mount_add_option files (mount_parse_lines d files) ''config'' p m = (Inl Endless, m')"
      by (metis prod.collapse)
    then show ?case
      by (simp only: mount_parse_lines.simps parse_file_def s) (simp add: add_all_def multimap_def)
  qed simp
  then show ?thesis by (rule step)
qed

lemma self_including_config_endless_witness:
  "fst (mount_add_option (\<lambda>p. if p = ''a'' then Some [''config=a''] else None)
     (mount_parse_lines 5 (\<lambda>p. if p = ''a'' then Some [''config=a''] else None)) ''config'' ''a'' mount_default) = Inl Endless"
  by (rule self_including_config_endless) simp_all

section \<open>Files and arguments\<close>

definition render_line :: "string + (string \<times> string) \<Rightarrow> string" where
  "render_line x = (case x of Inl f \<Rightarrow> f | Inr (k, v) \<Rightarrow> k @ ''='' @ v)"

definition line_ok :: "string + (string \<times> string) \<Rightarrow> bool" where
  "line_ok x \<longleftrightarrow> arg_ok x \<and> hd (render_line x) \<noteq> CHR ''#'' \<and> last (render_line x) \<noteq> CHR 0x0D"

lemma render_line_simps [simp]: "render_line (Inl f) = f" "render_line (Inr (k, v)) = k @ ''='' @ v"
  by (simp_all add: render_line_def)

lemma scan_lines_rendered:
  "\<forall>x \<in> set xs. line_ok x \<Longrightarrow>
   scan_lines (map render_line xs) =
     (concat (map (case_sum (\<lambda>f. [f]) (\<lambda>_. [])) xs), concat (map (case_sum (\<lambda>_. []) (\<lambda>kv. [kv])) xs))"
proof (induction xs)
  case (Cons x xs)
  have x: "line_ok x" and IH: "scan_lines (map render_line xs) =
     (concat (map (case_sum (\<lambda>f. [f]) (\<lambda>_. [])) xs), concat (map (case_sum (\<lambda>_. []) (\<lambda>kv. [kv])) xs))"
    using Cons by simp_all
  show ?case
  proof (cases x)
    case (Inl f)
    have "f \<noteq> []" "\<not> is_space (hd f)" using x by (simp_all add: line_ok_def arg_ok_def Inl)
    moreover from this(2) have "hd f \<noteq> CHR '' ''" by (auto simp: is_space_def)
    ultimately show ?thesis using x
      by (simp add: IH Inl line_ok_def arg_ok_def)
  next
    case (Inr kv)
    obtain k v where kv: "kv = (k, v)" by force
    have k: "k \<noteq> []" "\<not> is_space (hd k)" "CHR ''='' \<notin> set k" using x by (simp_all add: line_ok_def arg_ok_def Inr kv)
    from k(2) have sp: "hd k \<noteq> CHR '' ''" by (auto simp: is_space_def)
    have "split_pair (k @ CHR ''='' # v) ''='' 0 False = (k, v)" by (rule split_pair_first [OF k(3)])
    then show ?thesis using x k(1) sp
      by (simp add: IH Inr kv line_ok_def)
  qed
qed simp

text \<open>C39: Flags and options do the same in a configuration file, one per line, as on the command line.\<close>

theorem file_same_as_args:
  assumes "\<forall>x \<in> set xs. line_ok x"
  shows "parse_args add_flag add_option stopmm (prog # map render_arg xs) o1 =
    (case parse_file add_flag add_option (map render_line xs) o1 of
       (Some e, o2) \<Rightarrow> (Inl e, o2) | (None, o2) \<Rightarrow> (Inr (1 + length xs), o2))"
proof -
  have a: "\<forall>x \<in> set xs. arg_ok x" using assms by (simp add: line_ok_def)
  show ?thesis
    unfolding parse_args_def parse_file_def list.sel scan_args_rendered_spec [OF a] scan_lines_rendered [OF assms]
    by (simp split: prod.split option.split)
qed

lemma file_same_as_args_witness:
  "parse_args mount_add_flag (mount_add_option (\<lambda>_. None) (mount_parse_lines 0 (\<lambda>_. None))) False
      [''andromeda-fuse'', ''--quiet'', ''--pagesize=4K''] mount_default =
    (case parse_file mount_add_flag (mount_add_option (\<lambda>_. None) (mount_parse_lines 0 (\<lambda>_. None))) [''quiet'', ''pagesize=4K''] mount_default of
       (Some e, o2) \<Rightarrow> (Inl e, o2) | (None, o2) \<Rightarrow> (Inr 3, o2))"
  using file_same_as_args [of "[Inl ''quiet'', Inr (''pagesize'', ''4K'')]" mount_add_flag
      "mount_add_option (\<lambda>_. None) (mount_parse_lines 0 (\<lambda>_. None))" False "''andromeda-fuse''" mount_default]
  by (simp add: line_ok_def arg_ok_def render_arg_def is_space_def split: prod.split option.split)

end
