(* ===== verification/Ticket_Queue.thy ===== *)
theory Ticket_Queue
  imports Main
begin

text \<open>
  What SharedMutex and Semaphor have in common: threads that wait in a deque of tickets, each
  with the number it drew, on a condition variable that only ever wakes all of them.
  A critical section of the inner std::mutex is one step. Tickets are natural numbers: size_t
  tickets would repeat after 2^64 calls.
\<close>

section \<open>Threads\<close>

text \<open>
  A thread has no business with the lock, waits on the condition variable with a ticket, has
  been woken and not yet tested its condition again, or holds the lock. 'm tells apart the ways
  to hold it.
\<close>

datatype 'm thread = Idle | Asleep 'm nat | Awake 'm nat | Holding 'm

text \<open>std::condition_variable::notify_all.\<close>

fun wake :: "'m thread \<Rightarrow> 'm thread" where
  "wake (Asleep m i) = Awake m i"
| "wake p = p"

definition notify :: "bool \<Rightarrow> (nat \<Rightarrow> 'm thread) \<Rightarrow> nat \<Rightarrow> 'm thread" where
  "notify b f = (if b then wake \<circ> f else f)"

section \<open>Tickets\<close>

fun ticket :: "'m thread \<Rightarrow> nat option" where
  "ticket (Asleep m i) = Some i"
| "ticket (Awake m i) = Some i"
| "ticket p = None"

definition holding :: "'m \<Rightarrow> (nat \<Rightarrow> 'm thread) \<Rightarrow> nat set" where
  "holding m f = {t. f t = Holding m}"

definition waiting :: "'m thread \<Rightarrow> bool" where
  "waiting p \<longleftrightarrow> ticket p \<noteq> None"

text \<open>The queue has the tickets of the waiting threads, all below the next one to draw.\<close>

definition tickets :: "nat list \<Rightarrow> nat \<Rightarrow> (nat \<Rightarrow> 'm thread) \<Rightarrow> bool" where
  "tickets q n f \<longleftrightarrow> distinct q \<and> (\<forall>i \<in> set q. i < n) \<and> (\<forall>t i. ticket (f t) = Some i \<longrightarrow> i \<in> set q) \<and>
     (\<forall>i \<in> set q. \<exists>t. ticket (f t) = Some i) \<and>
     (\<forall>t t' i. ticket (f t) = Some i \<longrightarrow> ticket (f t') = Some i \<longrightarrow> t = t')"

lemma ticket_wake [simp]: "ticket (wake p) = ticket p"
  by (cases p) auto

lemma ticket_notify [simp]: "ticket (notify b f t) = ticket (f t)"
  by (simp add: notify_def)

lemma wake_Holding [simp]: "wake p = Holding m \<longleftrightarrow> p = Holding m"
  by (cases p) auto

lemma wake_not_Asleep [simp]: "wake p \<noteq> Asleep m i"
  by (cases p) auto

lemma holding_notify [simp]: "holding m (notify b f) = holding m f"
  by (simp add: holding_def notify_def)

lemma notify_Holding [simp]: "notify b f t = Holding m \<longleftrightarrow> f t = Holding m"
  by (simp add: notify_def)

lemma notify_Asleep: "notify b f t = Asleep m i \<longleftrightarrow> \<not> b \<and> f t = Asleep m i"
  by (simp add: notify_def)

lemma holding_upd: "holding m (f(t := p)) = (if p = Holding m then insert t (holding m f) else holding m f - {t})"
  by (auto simp: holding_def)

lemma holding_upd_waiting [simp]: "f t \<noteq> Holding m \<Longrightarrow> p \<noteq> Holding m \<Longrightarrow> holding m (f(t := p)) = holding m f"
  by (auto simp: holding_def)

lemma tickets_same: "tickets q n f \<Longrightarrow> (\<And>t. ticket (f' t) = ticket (f t)) \<Longrightarrow> tickets q n f'"
  by (simp add: tickets_def)

lemma tickets_notify [simp]: "tickets q n (notify b f) \<longleftrightarrow> tickets q n f"
  by (simp add: tickets_def)

lemma tickets_upd: "tickets q n f \<Longrightarrow> ticket p = ticket (f t) \<Longrightarrow> tickets q n (f(t := p))"
  by (erule tickets_same) simp

lemma tickets_new:
  assumes "tickets q n f" and "ticket (f t) = None" and "ticket p = Some n" and "set q' = insert n (set q)" and "distinct q'"
  shows "tickets q' (Suc n) (f(t := p))"
  unfolding tickets_def
proof (intro conjI)
  show "\<forall>i \<in> set q'. \<exists>t'. ticket ((f(t := p)) t') = Some i"
  proof
    fix i assume "i \<in> set q'"
    then consider "i = n" | "i \<in> set q" using assms(4) by auto
    then show "\<exists>t'. ticket ((f(t := p)) t') = Some i"
    proof cases
      case 2
      then obtain t' where "ticket (f t') = Some i" using assms(1) unfolding tickets_def by blast
      then have "ticket ((f(t := p)) t') = Some i" using assms(2) by auto
      then show ?thesis by blast
    qed (use assms(3) in auto)
  qed
  show "\<forall>i \<in> set q'. i < Suc n" using assms(1,4) by (auto simp: tickets_def less_Suc_eq)
  have n: "ticket (f t') \<noteq> Some n" for t' using assms(1) unfolding tickets_def by blast
  show "\<forall>t' i. ticket ((f(t := p)) t') = Some i \<longrightarrow> i \<in> set q'"
    using assms(1,3,4) by (auto simp: tickets_def)
  show "\<forall>t' t'' i. ticket ((f(t := p)) t') = Some i \<longrightarrow> ticket ((f(t := p)) t'') = Some i \<longrightarrow> t' = t''"
    using assms(1,3) n by (auto simp: tickets_def)
qed (rule assms(5))

lemma ticketsD:
  assumes "tickets q n f"
  shows "distinct q" "\<And>i. i \<in> set q \<Longrightarrow> i < n" "\<And>t i. ticket (f t) = Some i \<Longrightarrow> i \<in> set q"
    "\<And>i. i \<in> set q \<Longrightarrow> \<exists>t. ticket (f t) = Some i"
    "\<And>t t' i. ticket (f t) = Some i \<Longrightarrow> ticket (f t') = Some i \<Longrightarrow> t = t'"
  using assms unfolding tickets_def by blast+

lemma tickets_back:
  assumes "tickets q n f" and "ticket (f t) = None" and "ticket p = Some n"
  shows "tickets (q @ [n]) (Suc n) (f(t := p))"
proof (rule tickets_new [OF assms])
  have "n \<notin> set q" using ticketsD(2) [OF assms(1)] by blast
  then show "distinct (q @ [n])" using ticketsD(1) [OF assms(1)] by simp
qed simp

lemma tickets_front:
  assumes "tickets q n f" and "ticket (f t) = None" and "ticket p = Some n"
  shows "tickets (n # q) (Suc n) (f(t := p))"
proof (rule tickets_new [OF assms])
  have "n \<notin> set q" using ticketsD(2) [OF assms(1)] by blast
  then show "distinct (n # q)" using ticketsD(1) [OF assms(1)] by simp
qed simp

lemma tickets_take:
  assumes q: "tickets (i # q) n f" and t: "ticket (f t) = Some i" and p: "ticket p = None"
  shows "tickets q n (f(t := p))"
  unfolding tickets_def
proof (intro conjI allI ballI impI)
  note d = ticketsD [OF q]
  show "distinct q" using d(1) by simp
  show "j < n" if "j \<in> set q" for j using d(2) [of j] that by simp
  show "j \<in> set q" if "ticket ((f(t := p)) t') = Some j" for t' j
    using d(3) [of t' j] d(5) [OF t, of t'] that p by (auto split: if_splits)
  show "\<exists>t'. ticket ((f(t := p)) t') = Some j" if "j \<in> set q" for j
  proof -
    obtain t' where t': "ticket (f t') = Some j" using d(4) [of j] \<open>j \<in> set q\<close> by auto
    have "t' \<noteq> t" using t t' d(1) \<open>j \<in> set q\<close> by auto
    then show ?thesis using t' by (intro exI [of _ t']) simp
  qed
  show "t' = t''" if "ticket ((f(t := p)) t') = Some j" "ticket ((f(t := p)) t'') = Some j" for t' t'' j
    using d(5) [of t' j t''] that p by (auto split: if_splits)
qed

lemma tickets_front_thread:
  assumes "tickets q n f" and "q \<noteq> []"
  obtains t where "ticket (f t) = Some (hd q)"
  using assms unfolding tickets_def by (meson list.set_sel(1))

lemma tickets_empty: "tickets [] n f \<longleftrightarrow> (\<forall>t. ticket (f t) = None)"
  by (auto simp: tickets_def)

lemma tickets_idle: "tickets [] 0 (\<lambda>_. Idle)"
  by (simp add: tickets_empty)

lemma waiting_cases: "ticket p = Some i \<Longrightarrow> (\<And>m. p = Asleep m i \<Longrightarrow> P) \<Longrightarrow> (\<And>m. p = Awake m i \<Longrightarrow> P) \<Longrightarrow> P"
  by (cases p) auto

end
