(* ===== verification/Shared_Mutex.thy ===== *)
theory Shared_Mutex
  imports Ticket_Queue
begin

text \<open>
  SharedMutex (src/lib/andromeda/SharedMutex.hpp): a readers-writer lock with a queue; a reader
  with priority goes to the front of the queue, or past it while others are reading.
\<close>

section \<open>The code\<close>

datatype mode = Exclusive | Shared

record shared_mutex =
  sm_queue :: "nat list"
  sm_index :: nat
  sm_readers :: nat
  sm_locked :: bool
  sm_threads :: "nat \<Rightarrow> mode thread"

definition sm_new :: shared_mutex where
  "sm_new = \<lparr>sm_queue = [], sm_index = 0, sm_readers = 0, sm_locked = False, sm_threads = \<lambda>_. Idle\<rparr>"

text \<open>The loop conditions of lock and lock_shared.\<close>

definition sm_blocked :: "mode \<Rightarrow> nat \<Rightarrow> shared_mutex \<Rightarrow> bool" where
  "sm_blocked m idx s =
     ((case m of Exclusive \<Rightarrow> sm_locked s | Shared \<Rightarrow> sm_readers s = 0 \<and> sm_locked s) \<or> hd (sm_queue s) \<noteq> idx)"

text \<open>What lock and lock_shared do after the loop.\<close>

definition sm_take :: "mode \<Rightarrow> nat \<Rightarrow> shared_mutex \<Rightarrow> shared_mutex" where
  "sm_take m t s =
     (let q = tl (sm_queue s); f = (sm_threads s)(t := Holding m) in
      case m of
        Exclusive \<Rightarrow> s\<lparr>sm_queue := q, sm_locked := True, sm_threads := f\<rparr>
      | Shared \<Rightarrow> s\<lparr>sm_queue := q, sm_locked := (if sm_readers s = 0 then True else sm_locked s),
            sm_readers := sm_readers s + 1, sm_threads := notify (q \<noteq> []) f\<rparr>)"

text \<open>One test of the condition, by a thread that is awake with its ticket: it sleeps, or gets the lock.\<close>

definition sm_attempt :: "mode \<Rightarrow> nat \<Rightarrow> nat \<Rightarrow> shared_mutex \<Rightarrow> shared_mutex" where
  "sm_attempt m idx t s =
     (if sm_blocked m idx s then s\<lparr>sm_threads := (sm_threads s)(t := Asleep m idx)\<rparr> else sm_take m t s)"

definition sm_enqueue :: "bool \<Rightarrow> mode \<Rightarrow> nat \<Rightarrow> shared_mutex \<Rightarrow> shared_mutex" where
  "sm_enqueue front m t s =
     s\<lparr>sm_queue := (if front then sm_index s # sm_queue s else sm_queue s @ [sm_index s]), sm_index := sm_index s + 1,
       sm_threads := (sm_threads s)(t := Awake m (sm_index s))\<rparr>"

definition sm_try_lock :: "nat \<Rightarrow> shared_mutex \<Rightarrow> bool \<times> shared_mutex" where
  "sm_try_lock t s =
     (if \<not> sm_locked s \<and> sm_queue s = []
      then (True, s\<lparr>sm_locked := True, sm_threads := (sm_threads s)(t := Holding Exclusive)\<rparr>)
      else (False, s))"

definition sm_lock :: "nat \<Rightarrow> shared_mutex \<Rightarrow> shared_mutex" where
  "sm_lock t s = sm_attempt Exclusive (sm_index s) t (sm_enqueue False Exclusive t s)"

definition sm_unlock :: "nat \<Rightarrow> shared_mutex \<Rightarrow> shared_mutex" where
  "sm_unlock t s =
     s\<lparr>sm_locked := False, sm_threads := notify (sm_queue s \<noteq> []) ((sm_threads s)(t := Idle))\<rparr>"

definition sm_lock_shared :: "bool \<Rightarrow> nat \<Rightarrow> shared_mutex \<Rightarrow> shared_mutex" where
  "sm_lock_shared priority t s =
     (if priority \<and> sm_readers s > 0
      then s\<lparr>sm_readers := sm_readers s + 1, sm_threads := (sm_threads s)(t := Holding Shared)\<rparr>
      else sm_attempt Shared (sm_index s) t (sm_enqueue priority Shared t s))"

definition sm_unlock_shared :: "nat \<Rightarrow> shared_mutex \<Rightarrow> shared_mutex" where
  "sm_unlock_shared t s =
     s\<lparr>sm_readers := sm_readers s - 1, sm_locked := (if sm_readers s - 1 = 0 then False else sm_locked s),
       sm_threads := notify (sm_queue s \<noteq> []) ((sm_threads s)(t := Idle))\<rparr>"

text \<open>
  Steps of any threads that unlock what they have locked. priority allows readers with priority.
  A sleeping thread may also wake up without a notification.
\<close>

inductive sm_step :: "bool \<Rightarrow> shared_mutex \<Rightarrow> shared_mutex \<Rightarrow> bool" for priority where
  try_lock: "sm_threads s t = Idle \<Longrightarrow> sm_step priority s (snd (sm_try_lock t s))"
| lock: "sm_threads s t = Idle \<Longrightarrow> sm_step priority s (sm_lock t s)"
| unlock: "sm_threads s t = Holding Exclusive \<Longrightarrow> sm_step priority s (sm_unlock t s)"
| lock_shared: "sm_threads s t = Idle \<Longrightarrow> p \<longrightarrow> priority \<Longrightarrow> sm_step priority s (sm_lock_shared p t s)"
| unlock_shared: "sm_threads s t = Holding Shared \<Longrightarrow> sm_step priority s (sm_unlock_shared t s)"
| woken: "sm_threads s t = Awake m idx \<Longrightarrow> sm_step priority s (sm_attempt m idx t s)"
| spurious: "sm_threads s t = Asleep m idx \<Longrightarrow> sm_step priority s (s\<lparr>sm_threads := (sm_threads s)(t := Awake m idx)\<rparr>)"

inductive sm_reach :: "bool \<Rightarrow> shared_mutex \<Rightarrow> bool" for priority where
  new: "sm_reach priority sm_new"
| step: "sm_reach priority s \<Longrightarrow> sm_step priority s s' \<Longrightarrow> sm_reach priority s'"

section \<open>The invariant\<close>

text \<open>Who holds it; and a sleeper at the front of the queue has a reason to sleep.\<close>

definition sm_held :: "shared_mutex \<Rightarrow> bool" where
  "sm_held s \<longleftrightarrow>
     finite (holding Shared (sm_threads s)) \<and> sm_readers s = card (holding Shared (sm_threads s)) \<and>
     (sm_locked s \<longleftrightarrow> holding Shared (sm_threads s) \<noteq> {} \<or> holding Exclusive (sm_threads s) \<noteq> {}) \<and>
     (\<forall>t \<in> holding Exclusive (sm_threads s). holding Shared (sm_threads s) = {} \<and> holding Exclusive (sm_threads s) = {t})"

definition sm_awaited :: "shared_mutex \<Rightarrow> bool" where
  "sm_awaited s \<longleftrightarrow>
     (\<forall>t m i. sm_threads s t = Asleep m i \<longrightarrow> sm_queue s \<noteq> [] \<longrightarrow> hd (sm_queue s) = i \<longrightarrow> sm_blocked m i s)"

definition sm_inv :: "shared_mutex \<Rightarrow> bool" where
  "sm_inv s \<longleftrightarrow> tickets (sm_queue s) (sm_index s) (sm_threads s) \<and> sm_held s \<and> sm_awaited s"

lemma sm_invI: "tickets (sm_queue s) (sm_index s) (sm_threads s) \<Longrightarrow> sm_held s \<Longrightarrow> sm_awaited s \<Longrightarrow> sm_inv s"
  by (simp add: sm_inv_def)

lemma sm_inv_new: "sm_inv sm_new"
  by (simp add: sm_inv_def sm_new_def sm_held_def sm_awaited_def holding_def tickets_idle)

lemma sm_inv_enqueue:
  assumes inv: "sm_inv s" and t: "sm_threads s t = Idle"
  shows "sm_inv (sm_enqueue front m t s)"
proof (rule sm_invI)
  show "tickets (sm_queue (sm_enqueue front m t s)) (sm_index (sm_enqueue front m t s)) (sm_threads (sm_enqueue front m t s))"
    using inv tickets_back [of _ _ _ t "Awake m (sm_index s)"] tickets_front [of _ _ _ t "Awake m (sm_index s)"] t
    by (simp add: sm_inv_def sm_enqueue_def)
  show "sm_held (sm_enqueue front m t s)"
    using inv t by (simp add: sm_inv_def sm_held_def sm_enqueue_def)
  have f: "i \<noteq> sm_index s" if "sm_threads s t' = Asleep m' i" for t' m' i
  proof -
    have tk: "tickets (sm_queue s) (sm_index s) (sm_threads s)" using inv by (simp add: sm_inv_def)
    show ?thesis using ticketsD(3) [OF tk, of t' i] ticketsD(2) [OF tk, of i] that by auto
  qed
  show "sm_awaited (sm_enqueue front m t s)"
    using inv t f by (auto simp: sm_inv_def sm_awaited_def sm_enqueue_def sm_blocked_def hd_append split: mode.splits)
qed

lemma sm_inv_attempt:
  assumes inv: "sm_inv s" and t: "sm_threads s t = Awake m i"
  shows "sm_inv (sm_attempt m i t s)"
proof (cases "sm_blocked m i s")
  case True
  then show ?thesis using inv t
    by (auto simp: sm_inv_def sm_attempt_def sm_held_def sm_awaited_def sm_blocked_def tickets_upd split: mode.splits)
next
  case False
  then have "hd (sm_queue s) = i" by (auto simp: sm_blocked_def)
  moreover have ne: "sm_queue s \<noteq> []"
    using inv t ticketsD(3) [of "sm_queue s" "sm_index s" "sm_threads s" t i] by (auto simp: sm_inv_def)
  ultimately obtain q where q: "sm_queue s = i # q" by (cases "sm_queue s") auto
  have tk: "tickets q (sm_index s) ((sm_threads s)(t := Holding m))"
    using inv q t by (intro tickets_take [of i]) (simp_all add: sm_inv_def)
  have h: "t \<notin> holding m' (sm_threads s)" for m' using t by (simp add: holding_def)
  show ?thesis
  proof (cases m)
    case Exclusive
    have "\<not> sm_locked s" using False Exclusive by (simp add: sm_blocked_def)
    then show ?thesis using tk False Exclusive q inv h
      by (auto simp: sm_inv_def sm_attempt_def sm_take_def sm_held_def sm_awaited_def sm_blocked_def holding_upd split: mode.splits)
  next
    case Shared
    show ?thesis using tk False Shared q inv h
      by (auto simp: sm_inv_def sm_attempt_def sm_take_def sm_held_def sm_awaited_def sm_blocked_def holding_upd
          notify_Asleep Let_def split: mode.splits)
  qed
qed

lemma sm_inv_try_lock:
  assumes "sm_inv s" and "sm_threads s t = Idle"
  shows "sm_inv (snd (sm_try_lock t s))"
  using assms tickets_upd [of _ _ "sm_threads s" "Holding Exclusive" t]
  by (auto simp: sm_try_lock_def sm_inv_def sm_held_def sm_awaited_def holding_upd)

lemma sm_inv_fast:
  assumes inv: "sm_inv s" and t: "sm_threads s t = Idle" and r: "sm_readers s > 0"
  shows "sm_inv (s\<lparr>sm_readers := sm_readers s + 1, sm_threads := (sm_threads s)(t := Holding Shared)\<rparr>)"
proof -
  have h: "t \<notin> holding m' (sm_threads s)" for m' using t by (simp add: holding_def)
  let ?s = "s\<lparr>sm_readers := sm_readers s + 1, sm_threads := (sm_threads s)(t := Holding Shared)\<rparr>"
  show ?thesis
  proof (rule sm_invI)
    show "tickets (sm_queue ?s) (sm_index ?s) (sm_threads ?s)"
      using inv t by (simp add: sm_inv_def tickets_upd)
    show "sm_held ?s" using inv r h by (auto simp: sm_inv_def sm_held_def holding_upd)
    have "sm_blocked m i s" if "sm_threads s t' = Asleep m i" "sm_queue s \<noteq> []" "hd (sm_queue s) = i" for t' m i
      using inv that unfolding sm_inv_def sm_awaited_def by blast
    then show "sm_awaited ?s" using r
      unfolding sm_awaited_def sm_blocked_def by (fastforce split: mode.splits if_splits)
  qed
qed

lemma sm_inv_unlock:
  assumes inv: "sm_inv s" and t: "sm_threads s t = Holding Exclusive"
  shows "sm_inv (sm_unlock t s)"
proof -
  have h: "t \<in> holding Exclusive (sm_threads s)" using t by (simp add: holding_def)
  then have e: "holding Shared (sm_threads s) = {}" "holding Exclusive (sm_threads s) = {t}"
    using inv by (auto simp: sm_inv_def sm_held_def)
  show ?thesis using inv t e tickets_upd [of "sm_queue s" "sm_index s" "sm_threads s" Idle t]
    by (auto simp: sm_inv_def sm_held_def sm_awaited_def sm_unlock_def holding_upd notify_Asleep)
qed

lemma sm_inv_unlock_shared:
  assumes inv: "sm_inv s" and t: "sm_threads s t = Holding Shared"
  shows "sm_inv (sm_unlock_shared t s)"
proof -
  have h: "t \<in> holding Shared (sm_threads s)" using t by (simp add: holding_def)
  then have e: "holding Exclusive (sm_threads s) = {}" using inv by (auto simp: sm_inv_def sm_held_def)
  have c: "card (holding Shared (sm_threads s) - {t}) = sm_readers s - 1" "finite (holding Shared (sm_threads s))"
    using inv h by (auto simp: sm_inv_def sm_held_def)
  have l: "sm_locked s" using inv h by (auto simp: sm_inv_def sm_held_def)
  have z: "sm_readers s - 1 = 0 \<longleftrightarrow> holding Shared (sm_threads s) - {t} = {}"
    using c by (metis card_eq_0_iff finite_Diff)
  show ?thesis using inv t e c l z tickets_upd [of "sm_queue s" "sm_index s" "sm_threads s" Idle t]
    by (auto simp: sm_inv_def sm_held_def sm_awaited_def sm_unlock_shared_def holding_upd notify_Asleep)
qed

lemma sm_inv_enter:
  assumes "sm_inv s" and "sm_threads s t = Idle"
  shows "sm_inv (sm_attempt m (sm_index s) t (sm_enqueue front m t s))"
proof (rule sm_inv_attempt [OF sm_inv_enqueue [OF assms]])
  show "sm_threads (sm_enqueue front m t s) t = Awake m (sm_index s)" by (simp add: sm_enqueue_def)
qed

lemma sm_inv_step: "sm_step priority s s' \<Longrightarrow> sm_inv s \<Longrightarrow> sm_inv s'"
proof (induction rule: sm_step.induct)
  case (lock s t)
  then show ?case using sm_inv_enter by (simp add: sm_lock_def)
next
  case (lock_shared s t p)
  then show ?case using sm_inv_enter [of s t Shared p] sm_inv_fast [of s t] by (simp add: sm_lock_shared_def)
next
  case (spurious s t m idx)
  have "sm_held s" "sm_awaited s" using spurious.prems by (simp_all add: sm_inv_def)
  then show ?case using spurious tickets_upd [of "sm_queue s" "sm_index s" "sm_threads s" "Awake m idx" t]
    by (auto simp: sm_inv_def sm_held_def sm_awaited_def sm_blocked_def split: mode.splits)
qed (simp_all add: sm_inv_try_lock sm_inv_unlock sm_inv_unlock_shared sm_inv_attempt)

lemma sm_reach_inv: "sm_reach priority s \<Longrightarrow> sm_inv s"
  by (induction rule: sm_reach.induct) (auto intro: sm_inv_new sm_inv_step)

section \<open>Mutual exclusion\<close>

text \<open>C6: While a thread holds a SharedMutex exclusively no other thread holds it in any way, its flag mLocked is set exactly while a thread holds it, and the number of readers it counts is the number of threads that hold it shared.\<close>

theorem shared_mutex_exclusion:
  assumes "sm_reach priority s"
  shows "(sm_locked s \<longleftrightarrow> (\<exists>t m. sm_threads s t = Holding m)) \<and>
    finite {t. sm_threads s t = Holding Shared} \<and> sm_readers s = card {t. sm_threads s t = Holding Shared} \<and>
    (\<forall>t t' m. sm_threads s t = Holding Exclusive \<longrightarrow> sm_threads s t' = Holding m \<longrightarrow> t' = t)"
proof -
  have h: "sm_held s" using sm_reach_inv [OF assms] by (simp add: sm_inv_def)
  have "t' = t" if "sm_threads s t = Holding Exclusive" "sm_threads s t' = Holding m" for t t' m
  proof -
    have "t \<in> holding Exclusive (sm_threads s)" "t' \<in> holding m (sm_threads s)" using that by (simp_all add: holding_def)
    then show ?thesis using h by (cases m) (auto simp: sm_held_def)
  qed
  moreover have "sm_locked s \<longleftrightarrow> (\<exists>t m. sm_threads s t = Holding m)"
    using h unfolding sm_held_def holding_def by (auto intro: mode.exhaust) (metis mode.exhaust)
  ultimately show ?thesis using h by (auto simp: sm_held_def holding_def)
qed

text \<open>Thread 0 has the lock, thread 1 waits for it, and is woken when thread 0 unlocks.\<close>

lemma example_reach:
  shows example1: "sm_reach priority (sm_lock 0 sm_new)"
    and example2: "sm_reach priority (sm_lock 1 (sm_lock 0 sm_new))"
    and example3: "sm_reach priority (sm_unlock 0 (sm_lock 1 (sm_lock 0 sm_new)))"
proof -
  have t: "sm_threads sm_new 0 = Idle" "sm_threads (sm_lock 0 sm_new) 1 = Idle"
    "sm_threads (sm_lock 1 (sm_lock 0 sm_new)) 0 = Holding Exclusive"
    by (simp_all add: sm_new_def sm_lock_def sm_enqueue_def sm_attempt_def sm_blocked_def sm_take_def)
  show 1: "sm_reach priority (sm_lock 0 sm_new)" by (rule sm_reach.step [OF sm_reach.new sm_step.lock [OF t(1)]])
  show 2: "sm_reach priority (sm_lock 1 (sm_lock 0 sm_new))" by (rule sm_reach.step [OF 1 sm_step.lock [OF t(2)]])
  show "sm_reach priority (sm_unlock 0 (sm_lock 1 (sm_lock 0 sm_new)))"
    by (rule sm_reach.step [OF 2 sm_step.unlock [OF t(3)]])
qed

lemmas sm_defs = sm_new_def sm_lock_def sm_enqueue_def sm_attempt_def sm_blocked_def sm_take_def sm_unlock_def notify_def

lemma shared_mutex_exclusion_witness:
  "sm_threads (sm_lock 1 (sm_lock 0 sm_new)) 0 = Holding Exclusive \<and>
   sm_threads (sm_lock 1 (sm_lock 0 sm_new)) 1 \<noteq> Holding Exclusive"
proof -
  have t: "sm_threads (sm_lock 1 (sm_lock 0 sm_new)) 0 = Holding Exclusive" by (simp add: sm_defs)
  then show ?thesis using shared_mutex_exclusion [OF example2] by (metis zero_neq_one)
qed

section \<open>No lost wakeups\<close>

text \<open>C34: No wakeup of a SharedMutex is lost: when any thread waits, the thread at the front of the queue is awake and gets the lock with its next test of the condition, unless another thread holds it exclusively, or holds it shared and the thread at the front wants it exclusively.\<close>

theorem shared_mutex_progress:
  assumes "sm_reach priority s" and "waiting (sm_threads s t)"
  shows "\<exists>t' m. (sm_threads s t' = Asleep m (hd (sm_queue s)) \<or> sm_threads s t' = Awake m (hd (sm_queue s))) \<and>
    ((\<exists>u. sm_threads s u = Holding Exclusive) \<or> (m = Exclusive \<and> (\<exists>u. sm_threads s u = Holding Shared)) \<or>
     (sm_threads s t' = Awake m (hd (sm_queue s)) \<and>
      sm_threads (sm_attempt m (hd (sm_queue s)) t' s) t' = Holding m))"
proof -
  have inv: "sm_inv s" by (rule sm_reach_inv [OF assms(1)])
  then have tk: "tickets (sm_queue s) (sm_index s) (sm_threads s)" and h: "sm_held s" by (simp_all add: sm_inv_def)
  have q: "sm_queue s \<noteq> []" using assms(2) ticketsD(3) [OF tk, of t] by (auto simp: waiting_def)
  then obtain t' where t': "ticket (sm_threads s t') = Some (hd (sm_queue s))" by (rule tickets_front_thread [OF tk])
  then obtain m where m: "sm_threads s t' = Asleep m (hd (sm_queue s)) \<or> sm_threads s t' = Awake m (hd (sm_queue s))"
    using waiting_cases [OF t'] by metis
  show ?thesis
  proof (cases "sm_blocked m (hd (sm_queue s)) s")
    case True
    then have "(\<exists>u. sm_threads s u = Holding Exclusive) \<or> (m = Exclusive \<and> (\<exists>u. sm_threads s u = Holding Shared))"
      using h by (cases m) (auto simp: sm_blocked_def sm_held_def holding_def)
    then show ?thesis using m by blast
  next
    case False
    then have "sm_threads s t' = Awake m (hd (sm_queue s))" using m inv q unfolding sm_inv_def sm_awaited_def by metis
    moreover have "sm_threads (sm_attempt m (hd (sm_queue s)) t' s) t' = Holding m"
      using False by (simp add: sm_attempt_def sm_take_def Let_def split: mode.split)
    ultimately show ?thesis by blast
  qed
qed

lemma shared_mutex_progress_witness:
  "\<exists>t m i. sm_threads (sm_unlock 0 (sm_lock 1 (sm_lock 0 sm_new))) t = Awake m i"
proof -
  let ?s = "sm_unlock 0 (sm_lock 1 (sm_lock 0 sm_new))"
  have "waiting (sm_threads ?s 1)" by (simp add: sm_defs waiting_def)
  moreover have "sm_threads ?s t \<noteq> Holding m" for t m by (simp add: sm_defs)
  ultimately show ?thesis using shared_mutex_progress [OF example3] by blast
qed

section \<open>Order\<close>

lemma sm_attempt_queue:
  assumes "sm_queue s = [] \<Longrightarrow> sm_blocked m i s"
  shows "sm_queue (sm_attempt m i t s) = sm_queue s \<or> sm_queue (sm_attempt m i t s) = tl (sm_queue s)"
    and "sm_index (sm_attempt m i t s) = sm_index s"
  by (auto simp: sm_attempt_def sm_take_def Let_def split: mode.splits)

lemma fifo_sorted: "sm_reach False s \<Longrightarrow> sorted (sm_queue s)"
proof (induction rule: sm_reach.induct)
  case (step s s')
  have tk: "tickets (sm_queue s) (sm_index s) (sm_threads s)"
    using sm_reach_inv [OF step.hyps(1)] by (simp add: sm_inv_def)
  have e: "sorted (sm_queue (sm_enqueue False m t s))" for m t
    using step.IH ticketsD(2) [OF tk] by (auto simp: sm_enqueue_def sorted_append intro: less_imp_le)
  have a: "sorted (sm_queue (sm_attempt m i t s0))" if "sorted (sm_queue s0)" for m i t s0
    using that by (auto simp: sm_attempt_def sm_take_def Let_def sorted_tl split: mode.splits)
  show ?case using step.hyps(2) step.IH
    by (cases rule: sm_step.cases)
      (auto simp: sm_try_lock_def sm_lock_def sm_unlock_def sm_lock_shared_def sm_unlock_shared_def a e)
qed (simp add: sm_new_def)

lemma sm_attempt_hold:
  assumes "sm_threads (sm_attempt m i t s) t' = Holding m'" and "sm_threads s t' \<noteq> Holding m'"
  shows "t' = t \<and> \<not> sm_blocked m i s"
  using assms by (auto simp: sm_attempt_def sm_take_def Let_def split: if_splits mode.splits)

text \<open>C36: Without priority a SharedMutex is fair: a thread that has to wait gets the lock before every thread with a later ticket, and a thread gets the lock without waiting only if no thread waits.\<close>

theorem shared_mutex_fifo:
  assumes "sm_reach False s" and "sm_step False s s'"
    and "\<not> (\<exists>m. sm_threads s t = Holding m)" and "sm_threads s' t = Holding m"
    and "ticket (sm_threads s t') = Some j"
  shows "\<exists>i. ticket (sm_threads s t) = Some i \<and> i \<le> j"
proof -
  have tk: "tickets (sm_queue s) (sm_index s) (sm_threads s)"
    using sm_reach_inv [OF assms(1)] by (simp add: sm_inv_def)
  have j: "j \<in> set (sm_queue s)" by (rule ticketsD(3) [OF tk assms(5)])
  then obtain i q where q: "sm_queue s = i # q" by (cases "sm_queue s") auto
  have ij: "i \<le> j" using fifo_sorted [OF assms(1)] j q by auto
  have i: "i < sm_index s" using ticketsD(2) [OF tk, of i] q by simp
  have n: "sm_threads s t \<noteq> Holding m" using assms(3) by blast
  have new: "False" if "sm_threads s t0 = Idle" and "sm_threads (sm_attempt m0 (sm_index s) t0 (sm_enqueue False m0 t0 s)) t = Holding m" for t0 m0
  proof -
    have "sm_threads (sm_enqueue False m0 t0 s) t \<noteq> Holding m" using n by (simp add: sm_enqueue_def)
    from sm_attempt_hold [OF that(2) this] show False using q i by (auto simp: sm_blocked_def sm_enqueue_def)
  qed
  from assms(2) show ?thesis
  proof (cases rule: sm_step.cases)
    case (woken t0 m0 idx)
    then have "t = t0" "\<not> sm_blocked m0 idx s" using sm_attempt_hold [of m0 idx t0 s t m] assms(4) n by auto
    then show ?thesis using woken ij q by (simp add: sm_blocked_def)
  qed (use assms(4) n q new in \<open>auto simp: sm_try_lock_def sm_lock_def sm_unlock_def sm_lock_shared_def
        sm_unlock_shared_def split: if_splits\<close>)
qed

lemma shared_mutex_fifo_witness:
  "\<exists>i. ticket (sm_threads (sm_unlock 0 (sm_lock 1 (sm_lock 0 sm_new))) 1) = Some i \<and> i \<le> 1"
proof -
  let ?s = "sm_unlock 0 (sm_lock 1 (sm_lock 0 sm_new))"
  have w: "sm_threads ?s 1 = Awake Exclusive 1" by (simp add: sm_defs)
  have "sm_threads (sm_attempt Exclusive 1 1 ?s) 1 = Holding Exclusive" by (simp add: sm_defs)
  from shared_mutex_fifo [OF example3 sm_step.woken [OF w] _ this, of 1 1] w show ?thesis by simp
qed

text \<open>A reader with priority never waits while others are reading, whoever is in the queue.\<close>

theorem shared_mutex_priority:
  assumes "sm_reach priority s" and "sm_threads s r = Holding Shared"
  shows "sm_threads (sm_lock_shared True t s) t = Holding Shared"
proof -
  have "r \<in> holding Shared (sm_threads s)" using assms(2) by (simp add: holding_def)
  then have "sm_readers s > 0"
    using sm_reach_inv [OF assms(1)] by (auto simp: sm_inv_def sm_held_def card_gt_0_iff)
  then show ?thesis by (simp add: sm_lock_shared_def)
qed

lemma shared_mutex_priority_witness:
  "sm_threads (sm_lock_shared True 2 (sm_lock 1 (sm_lock_shared False 0 sm_new))) 2 = Holding Shared"
proof -
  have t: "sm_threads sm_new 0 = Idle" "sm_threads (sm_lock_shared False 0 sm_new) 1 = Idle"
    by (simp_all add: sm_defs sm_lock_shared_def)
  have "sm_reach True (sm_lock_shared False 0 sm_new)"
    by (rule sm_reach.step [OF sm_reach.new sm_step.lock_shared [OF t(1)]]) simp
  then have r: "sm_reach True (sm_lock 1 (sm_lock_shared False 0 sm_new))"
    by (rule sm_reach.step [OF _ sm_step.lock [OF t(2)]])
  show ?thesis by (rule shared_mutex_priority [OF r, of 0]) (simp add: sm_defs sm_lock_shared_def)
qed

end
