(* ===== verification/Semaphor.thy ===== *)
theory Semaphor
  imports Ticket_Queue
begin

text \<open>Semaphor (src/lib/andromeda/Semaphor.hpp): a counting semaphore that is served in order.\<close>

section \<open>The code\<close>

record semaphor =
  se_queue :: "nat list"
  se_index :: nat
  se_available :: nat
  se_max :: nat
  se_threads :: "nat \<Rightarrow> unit thread"

definition se_new :: "nat \<Rightarrow> semaphor" where
  "se_new cnt = \<lparr>se_queue = [], se_index = 0, se_available = cnt, se_max = cnt, se_threads = \<lambda>_. Idle\<rparr>"

definition se_blocked :: "nat \<Rightarrow> semaphor \<Rightarrow> bool" where
  "se_blocked idx s = (se_available s = 0 \<or> hd (se_queue s) \<noteq> idx)"

definition se_take :: "nat \<Rightarrow> semaphor \<Rightarrow> semaphor" where
  "se_take t s =
     (let q = tl (se_queue s) in
      s\<lparr>se_queue := q, se_available := se_available s - 1,
        se_threads := notify (se_available s - 1 \<noteq> 0 \<and> q \<noteq> []) ((se_threads s)(t := Holding ()))\<rparr>)"

definition se_attempt :: "nat \<Rightarrow> nat \<Rightarrow> semaphor \<Rightarrow> semaphor" where
  "se_attempt idx t s =
     (if se_blocked idx s then s\<lparr>se_threads := (se_threads s)(t := Asleep () idx)\<rparr> else se_take t s)"

definition se_enqueue :: "nat \<Rightarrow> semaphor \<Rightarrow> semaphor" where
  "se_enqueue t s =
     s\<lparr>se_queue := se_queue s @ [se_index s], se_index := se_index s + 1,
       se_threads := (se_threads s)(t := Awake () (se_index s))\<rparr>"

definition se_try_lock :: "nat \<Rightarrow> semaphor \<Rightarrow> bool \<times> semaphor" where
  "se_try_lock t s =
     (if se_available s \<noteq> 0 \<and> se_queue s = []
      then (True, s\<lparr>se_available := se_available s - 1, se_threads := (se_threads s)(t := Holding ())\<rparr>)
      else (False, s))"

definition se_lock :: "nat \<Rightarrow> semaphor \<Rightarrow> semaphor" where
  "se_lock t s = se_attempt (se_index s) t (se_enqueue t s)"

definition se_unlock :: "nat \<Rightarrow> semaphor \<Rightarrow> semaphor" where
  "se_unlock t s =
     s\<lparr>se_available := se_available s + 1, se_threads := notify (se_queue s \<noteq> []) ((se_threads s)(t := Idle))\<rparr>"

inductive se_step :: "semaphor \<Rightarrow> semaphor \<Rightarrow> bool" where
  try_lock: "se_threads s t = Idle \<Longrightarrow> se_step s (snd (se_try_lock t s))"
| lock: "se_threads s t = Idle \<Longrightarrow> se_step s (se_lock t s)"
| unlock: "se_threads s t = Holding () \<Longrightarrow> se_step s (se_unlock t s)"
| woken: "se_threads s t = Awake () idx \<Longrightarrow> se_step s (se_attempt idx t s)"
| spurious: "se_threads s t = Asleep () idx \<Longrightarrow> se_step s (s\<lparr>se_threads := (se_threads s)(t := Awake () idx)\<rparr>)"

inductive se_reach :: "nat \<Rightarrow> semaphor \<Rightarrow> bool" for cnt where
  new: "se_reach cnt (se_new cnt)"
| step: "se_reach cnt s \<Longrightarrow> se_step s s' \<Longrightarrow> se_reach cnt s'"

section \<open>The invariant\<close>

definition se_held :: "nat \<Rightarrow> semaphor \<Rightarrow> bool" where
  "se_held cnt s \<longleftrightarrow>
     se_max s = cnt \<and> finite (holding () (se_threads s)) \<and> se_available s + card (holding () (se_threads s)) = cnt"

definition se_awaited :: "semaphor \<Rightarrow> bool" where
  "se_awaited s \<longleftrightarrow>
     (\<forall>t i. se_threads s t = Asleep () i \<longrightarrow> se_queue s \<noteq> [] \<longrightarrow> hd (se_queue s) = i \<longrightarrow> se_available s = 0)"

definition se_inv :: "nat \<Rightarrow> semaphor \<Rightarrow> bool" where
  "se_inv cnt s \<longleftrightarrow> tickets (se_queue s) (se_index s) (se_threads s) \<and> se_held cnt s \<and> se_awaited s \<and> sorted (se_queue s)"

lemma se_invI:
  "tickets (se_queue s) (se_index s) (se_threads s) \<Longrightarrow> se_held cnt s \<Longrightarrow> se_awaited s \<Longrightarrow> sorted (se_queue s) \<Longrightarrow> se_inv cnt s"
  by (simp add: se_inv_def)

lemma se_inv_new: "se_inv cnt (se_new cnt)"
  by (simp add: se_inv_def se_new_def se_held_def se_awaited_def holding_def tickets_idle)

lemma se_inv_enqueue:
  assumes inv: "se_inv cnt s" and t: "se_threads s t = Idle"
  shows "se_inv cnt (se_enqueue t s)"
proof (rule se_invI)
  have tk: "tickets (se_queue s) (se_index s) (se_threads s)" using inv by (simp add: se_inv_def)
  show "tickets (se_queue (se_enqueue t s)) (se_index (se_enqueue t s)) (se_threads (se_enqueue t s))"
    using tickets_back [OF tk, of t "Awake () (se_index s)"] t by (simp add: se_enqueue_def)
  show "se_held cnt (se_enqueue t s)" using inv t by (simp add: se_inv_def se_held_def se_enqueue_def)
  have f: "i \<noteq> se_index s" if "se_threads s t' = Asleep () i" for t' i
    using ticketsD(3) [OF tk, of t' i] ticketsD(2) [OF tk, of i] that by auto
  show "se_awaited (se_enqueue t s)"
    using inv t f by (auto simp: se_inv_def se_awaited_def se_enqueue_def hd_append)
  show "sorted (se_queue (se_enqueue t s))"
    using inv ticketsD(2) [OF tk] by (auto simp: se_inv_def se_enqueue_def sorted_append intro: less_imp_le)
qed

lemma se_front:
  assumes inv: "se_inv cnt s" and t: "se_threads s t = Awake () i" and b: "\<not> se_blocked i s"
  obtains q where "se_queue s = i # q"
proof -
  have tk: "tickets (se_queue s) (se_index s) (se_threads s)" using inv by (simp add: se_inv_def)
  have "se_queue s \<noteq> []" using ticketsD(3) [OF tk, of t i] t by auto
  then show ?thesis using b that by (cases "se_queue s") (auto simp: se_blocked_def)
qed

lemma se_inv_attempt:
  assumes inv: "se_inv cnt s" and t: "se_threads s t = Awake () i"
  shows "se_inv cnt (se_attempt i t s)"
proof (cases "se_blocked i s")
  case True
  then show ?thesis using inv t
    by (auto simp: se_inv_def se_attempt_def se_held_def se_awaited_def se_blocked_def tickets_upd)
next
  case False
  obtain q where q: "se_queue s = i # q" by (rule se_front [OF inv t False])
  have tk: "tickets q (se_index s) ((se_threads s)(t := Holding ()))"
    using inv q t by (intro tickets_take [of i]) (simp_all add: se_inv_def)
  have h: "t \<notin> holding () (se_threads s)" using t by (simp add: holding_def)
  show ?thesis using tk False q inv h
    by (auto simp: se_inv_def se_attempt_def se_take_def se_held_def se_awaited_def se_blocked_def holding_upd notify_Asleep Let_def)
qed

lemma se_inv_step: "se_step s s' \<Longrightarrow> se_inv cnt s \<Longrightarrow> se_inv cnt s'"
proof (induction rule: se_step.induct)
  case (try_lock s t)
  then have h: "t \<notin> holding () (se_threads s)" by (simp add: holding_def)
  show ?case using try_lock h tickets_upd [of "se_queue s" "se_index s" "se_threads s" "Holding ()" t]
    by (auto simp: se_try_lock_def se_inv_def se_held_def se_awaited_def holding_upd)
next
  case (lock s t)
  have "se_threads (se_enqueue t s) t = Awake () (se_index s)" by (simp add: se_enqueue_def)
  from se_inv_attempt [OF se_inv_enqueue [OF lock.prems lock.hyps] this] show ?case by (simp add: se_lock_def)
next
  case (unlock s t)
  have h: "t \<in> holding () (se_threads s)" using unlock.hyps by (simp add: holding_def)
  have f: "finite (holding () (se_threads s))" using unlock.prems by (simp add: se_inv_def se_held_def)
  have "card (holding () (se_threads s)) = Suc (card (holding () (se_threads s) - {t}))"
    using card.remove [OF f h] by simp
  then show ?case using unlock f tickets_upd [of "se_queue s" "se_index s" "se_threads s" Idle t]
    by (auto simp: se_inv_def se_held_def se_awaited_def se_unlock_def holding_upd notify_Asleep)
next
  case (woken s t idx)
  then show ?case by (intro se_inv_attempt)
next
  case (spurious s t idx)
  have "se_held cnt s" "se_awaited s" using spurious.prems by (simp_all add: se_inv_def)
  then show ?case using spurious tickets_upd [of "se_queue s" "se_index s" "se_threads s" "Awake () idx" t]
    by (auto simp: se_inv_def se_held_def se_awaited_def)
qed

lemma se_reach_inv: "se_reach cnt s \<Longrightarrow> se_inv cnt s"
  by (induction rule: se_reach.induct) (auto intro: se_inv_new se_inv_step)

section \<open>Properties\<close>

text \<open>C13: At most the configured number of threads hold a Semaphor, the counter is what is left of it, and a free place is never left unused: if any thread waits, all places are taken or the thread at the front is awake and gets one with its next test.\<close>

theorem semaphor_correct:
  assumes "se_reach cnt s"
  shows "card {t. se_threads s t = Holding ()} + se_available s = cnt \<and>
    (waiting (se_threads s t) \<longrightarrow> card {t. se_threads s t = Holding ()} = cnt \<or>
       (\<exists>t' i. se_threads s t' = Awake () i \<and> se_threads (se_attempt i t' s) t' = Holding ()))"
proof -
  have inv: "se_inv cnt s" by (rule se_reach_inv [OF assms])
  have c: "card {t. se_threads s t = Holding ()} + se_available s = cnt"
    using inv by (simp add: se_inv_def se_held_def holding_def add.commute)
  have "\<exists>t' i. se_threads s t' = Awake () i \<and> se_threads (se_attempt i t' s) t' = Holding ()"
    if w: "waiting (se_threads s t)" and a: "se_available s \<noteq> 0"
  proof -
    have tk: "tickets (se_queue s) (se_index s) (se_threads s)" using inv by (simp add: se_inv_def)
    then have ne: "se_queue s \<noteq> []" using w ticketsD(3) [OF tk, of t] by (auto simp: waiting_def)
    then obtain t' where t': "ticket (se_threads s t') = Some (hd (se_queue s))" by (rule tickets_front_thread [OF tk])
    then have "se_threads s t' = Awake () (hd (se_queue s))"
      using waiting_cases [OF t'] inv ne a unfolding se_inv_def se_awaited_def by (metis (full_types) old.unit.exhaust)
    moreover have "se_threads (se_attempt (hd (se_queue s)) t' s) t' = Holding ()"
      using a by (simp add: se_attempt_def se_blocked_def se_take_def Let_def)
    ultimately show ?thesis by blast
  qed
  then show ?thesis using c by (cases "se_available s = 0") auto
qed

lemma se_attempt_hold:
  assumes "se_threads (se_attempt i t s) t' = Holding ()" and "se_threads s t' \<noteq> Holding ()"
  shows "t' = t \<and> \<not> se_blocked i s"
  using assms by (auto simp: se_attempt_def se_take_def Let_def split: if_splits)

text \<open>A Semaphor is fair: places are given in the order of the tickets, and without waiting only if no thread waits.\<close>

theorem semaphor_fifo:
  assumes "se_reach cnt s" and "se_step s s'" and "se_threads s t \<noteq> Holding ()" and "se_threads s' t = Holding ()"
    and "ticket (se_threads s t') = Some j"
  shows "\<exists>i. ticket (se_threads s t) = Some i \<and> i \<le> j"
proof -
  have inv: "se_inv cnt s" by (rule se_reach_inv [OF assms(1)])
  then have tk: "tickets (se_queue s) (se_index s) (se_threads s)" by (simp add: se_inv_def)
  have j: "j \<in> set (se_queue s)" by (rule ticketsD(3) [OF tk assms(5)])
  then obtain i q where q: "se_queue s = i # q" by (cases "se_queue s") auto
  have ij: "i \<le> j" using inv j q by (auto simp: se_inv_def)
  have i: "i < se_index s" using ticketsD(2) [OF tk, of i] q by simp
  from assms(2) show ?thesis
  proof (cases rule: se_step.cases)
    case (lock t0)
    have "se_threads (se_enqueue t0 s) t \<noteq> Holding ()" using assms(3) by (simp add: se_enqueue_def)
    from se_attempt_hold [OF _ this] lock assms(4) have "\<not> se_blocked (se_index s) (se_enqueue t0 s)"
      by (simp add: se_lock_def)
    then show ?thesis using q i by (simp add: se_blocked_def se_enqueue_def)
  next
    case (woken t0 idx)
    then have "t = t0" "\<not> se_blocked idx s" using se_attempt_hold [of idx t0 s t] assms(3,4) by auto
    then show ?thesis using woken ij q by (simp add: se_blocked_def)
  qed (use assms(3,4) q in \<open>auto simp: se_try_lock_def se_unlock_def split: if_splits\<close>)
qed

text \<open>Two places and three threads.\<close>

lemmas se_defs = se_new_def se_lock_def se_enqueue_def se_attempt_def se_blocked_def se_take_def se_unlock_def notify_def

lemma se_example: "se_reach 2 (se_unlock 0 (se_lock 2 (se_lock 1 (se_lock 0 (se_new 2)))))"
  and se_example_threads: "se_threads (se_unlock 0 (se_lock 2 (se_lock 1 (se_lock 0 (se_new 2))))) 2 = Awake () 2"
proof -
  have t: "se_threads (se_new 2) 0 = Idle" "se_threads (se_lock 0 (se_new 2)) 1 = Idle"
    "se_threads (se_lock 1 (se_lock 0 (se_new 2))) 2 = Idle"
    "se_threads (se_lock 2 (se_lock 1 (se_lock 0 (se_new 2)))) 0 = Holding ()"
    by (simp_all add: se_defs)
  show "se_reach 2 (se_unlock 0 (se_lock 2 (se_lock 1 (se_lock 0 (se_new 2)))))"
    by (rule se_reach.step [OF se_reach.step [OF se_reach.step [OF se_reach.step [OF se_reach.new
              se_step.lock [OF t(1)]] se_step.lock [OF t(2)]] se_step.lock [OF t(3)]] se_step.unlock [OF t(4)]])
  show "se_threads (se_unlock 0 (se_lock 2 (se_lock 1 (se_lock 0 (se_new 2))))) 2 = Awake () 2"
    by (simp add: se_defs)
qed

lemma semaphor_correct_witness:
  "card {t. se_threads (se_unlock 0 (se_lock 2 (se_lock 1 (se_lock 0 (se_new 2))))) t = Holding ()} = 1"
proof -
  have "se_available (se_unlock 0 (se_lock 2 (se_lock 1 (se_lock 0 (se_new 2))))) = 1" by (simp add: se_defs)
  then show ?thesis using semaphor_correct [OF se_example] by simp
qed

lemma semaphor_fifo_witness:
  "\<exists>i. ticket (se_threads (se_unlock 0 (se_lock 2 (se_lock 1 (se_lock 0 (se_new 2))))) 2) = Some i \<and> i \<le> 2"
proof -
  let ?s = "se_unlock 0 (se_lock 2 (se_lock 1 (se_lock 0 (se_new 2))))"
  have "se_threads (se_attempt 2 2 ?s) 2 = Holding ()" by (simp add: se_defs)
  from semaphor_fifo [OF se_example se_step.woken [OF se_example_threads] _ this, of 2 2] se_example_threads
  show ?thesis by simp
qed

end
