(* ===== verification/Runner_Pool.thy ===== *)
theory Runner_Pool
  imports Main
begin

text \<open>
  RunnerPool (src/lib/andromeda/backend/RunnerPool.cpp): threads take the first runner that is not
  locked, and wait on a condition variable when all are. The lock of a runner is released
  outside the mutex of the pool, the waiters are signalled inside it.
\<close>

section \<open>The code\<close>

text \<open>
  A thread of the pool: outside of it, inside GetRunner at an index of the vector (with the mutex), waiting for a
  signal, woken but without the mutex yet, using a runner, or between unlocking a runner and
  signalling.
\<close>

datatype pool_thread = Out | Scan nat | Sleeping | Woken | Using nat | Signalling

text \<open>pl_ready tells which entries of mRunnerPool are not null, pl_mutex who has mMutex.\<close>

record runner_pool =
  pl_locked :: "bool list"
  pl_ready :: "bool list"
  pl_mutex :: "nat option"
  pl_threads :: "nat \<Rightarrow> pool_thread"

definition pool_new :: "nat \<Rightarrow> runner_pool" where
  "pool_new sz = \<lparr>pl_locked = replicate sz False, pl_ready = (replicate sz False)[0 := True], pl_mutex = None,
     pl_threads = \<lambda>_. Out\<rparr>"

text \<open>GetRunner enters, or is woken, with the mutex and starts over at index 0.\<close>

definition pool_enter :: "nat \<Rightarrow> runner_pool \<Rightarrow> runner_pool" where
  "pool_enter t s = s\<lparr>pl_mutex := Some t, pl_threads := (pl_threads s)(t := Scan 0)\<rparr>"

text \<open>One round of the loop at an index; fails is a try_to_lock that fails although the lock is free.\<close>

definition pool_try :: "bool \<Rightarrow> nat \<Rightarrow> nat \<Rightarrow> runner_pool \<Rightarrow> runner_pool" where
  "pool_try fails t idx s =
     (if pl_locked s ! idx \<or> fails
      then if idx + 1 = length (pl_locked s) then s\<lparr>pl_mutex := None, pl_threads := (pl_threads s)(t := Sleeping)\<rparr>
           else s\<lparr>pl_threads := (pl_threads s)(t := Scan (idx + 1))\<rparr>
      else s\<lparr>pl_locked := (pl_locked s)[idx := True],
             pl_ready := (if \<not> pl_ready s ! idx then (pl_ready s)[idx := True] else pl_ready s),
             pl_mutex := None, pl_threads := (pl_threads s)(t := Using idx)\<rparr>)"

text \<open>The destructor of LockedRunner, before and in SignalWaiters; notify_one wakes one waiter, if there is one.\<close>

definition pool_unlock :: "nat \<Rightarrow> nat \<Rightarrow> runner_pool \<Rightarrow> runner_pool" where
  "pool_unlock t idx s = s\<lparr>pl_locked := (pl_locked s)[idx := False], pl_threads := (pl_threads s)(t := Signalling)\<rparr>"

definition pool_signal :: "nat \<Rightarrow> nat option \<Rightarrow> runner_pool \<Rightarrow> runner_pool" where
  "pool_signal t waiter s =
     s\<lparr>pl_threads := (case waiter of None \<Rightarrow> (pl_threads s)(t := Out) | Some u \<Rightarrow> (pl_threads s)(t := Out, u := Woken))\<rparr>"

text \<open>With weak the locks may fail without reason, as the C++ standard allows.\<close>

inductive pool_step :: "bool \<Rightarrow> runner_pool \<Rightarrow> runner_pool \<Rightarrow> bool" for weak where
  enter: "pl_threads s t = Out \<Longrightarrow> pl_mutex s = None \<Longrightarrow> pool_step weak s (pool_enter t s)"
| resume: "pl_threads s t = Woken \<Longrightarrow> pl_mutex s = None \<Longrightarrow> pool_step weak s (pool_enter t s)"
| attempt: "pl_threads s t = Scan idx \<Longrightarrow> fails \<longrightarrow> weak \<Longrightarrow> pool_step weak s (pool_try fails t idx s)"
| unlock: "pl_threads s t = Using idx \<Longrightarrow> pool_step weak s (pool_unlock t idx s)"
| signal_none: "pl_threads s t = Signalling \<Longrightarrow> pl_mutex s = None \<Longrightarrow> \<forall>u. pl_threads s u \<noteq> Sleeping \<Longrightarrow>
    pool_step weak s (pool_signal t None s)"
| signal_one: "pl_threads s t = Signalling \<Longrightarrow> pl_mutex s = None \<Longrightarrow> pl_threads s u = Sleeping \<Longrightarrow>
    pool_step weak s (pool_signal t (Some u) s)"
| spurious: "pl_threads s t = Sleeping \<Longrightarrow> pool_step weak s (s\<lparr>pl_threads := (pl_threads s)(t := Woken)\<rparr>)"

inductive pool_reach :: "bool \<Rightarrow> nat \<Rightarrow> runner_pool \<Rightarrow> bool" for weak sz where
  new: "pool_reach weak sz (pool_new sz)"
| step: "pool_reach weak sz s \<Longrightarrow> pool_step weak s s' \<Longrightarrow> pool_reach weak sz s'"

section \<open>Who has which lock\<close>

definition pool_held :: "nat \<Rightarrow> runner_pool \<Rightarrow> bool" where
  "pool_held sz s \<longleftrightarrow>
     length (pl_locked s) = sz \<and> length (pl_ready s) = sz \<and>
     (\<forall>t i. pl_threads s t = Using i \<longrightarrow> i < sz \<and> pl_locked s ! i \<and> pl_ready s ! i) \<and>
     (\<forall>t t' i. pl_threads s t = Using i \<longrightarrow> pl_threads s t' = Using i \<longrightarrow> t = t') \<and>
     (\<forall>t i. pl_threads s t = Scan i \<longrightarrow> i < sz \<and> pl_mutex s = Some t)"

lemma pool_heldD:
  assumes "pool_held sz s"
  shows "length (pl_locked s) = sz" "length (pl_ready s) = sz"
    "\<And>t i. pl_threads s t = Using i \<Longrightarrow> i < sz \<and> pl_locked s ! i \<and> pl_ready s ! i"
    "\<And>t t' i. pl_threads s t = Using i \<Longrightarrow> pl_threads s t' = Using i \<Longrightarrow> t = t'"
    "\<And>t i. pl_threads s t = Scan i \<Longrightarrow> i < sz \<and> pl_mutex s = Some t"
  using assms unfolding pool_held_def by blast+

lemma pool_heldI:
  assumes "length (pl_locked s) = sz" "length (pl_ready s) = sz"
    "\<And>t i. pl_threads s t = Using i \<Longrightarrow> i < sz \<and> pl_locked s ! i \<and> pl_ready s ! i"
    "\<And>t t' i. pl_threads s t = Using i \<Longrightarrow> pl_threads s t' = Using i \<Longrightarrow> t = t'"
    "\<And>t i. pl_threads s t = Scan i \<Longrightarrow> i < sz \<and> pl_mutex s = Some t"
  shows "pool_held sz s"
  using assms unfolding pool_held_def by blast

lemma pool_held_step:
  assumes "pool_step weak s s'" and h: "pool_held sz s" and n: "0 < sz"
  shows "pool_held sz s'"
  using assms(1)
proof cases
  case (enter t)
  then show ?thesis using h n pool_heldD(5) [OF h] by (force simp: pool_held_def pool_enter_def)
next
  case (resume t)
  then show ?thesis using h n pool_heldD(5) [OF h] by (force simp: pool_held_def pool_enter_def)
next
  case (attempt t idx fails)
  note d = pool_heldD [OF h]
  note i = d(5) [OF attempt(2)]
  have other: "pl_threads s u \<noteq> Scan j" if "u \<noteq> t" for u j using d(5) i that by fastforce
  show ?thesis
  proof (cases "pl_locked s ! idx \<or> fails")
    case True
    have f: "pl_locked s' = pl_locked s" "pl_ready s' = pl_ready s"
      using attempt(1) True by (simp_all add: pool_try_def)
    have th: "pl_threads s' = (pl_threads s)(t := Sleeping) \<or>
        pl_threads s' = (pl_threads s)(t := Scan (idx + 1)) \<and> idx + 1 < sz \<and> pl_mutex s' = Some t"
      using attempt(1) True i d(1) by (auto simp: pool_try_def)
    show ?thesis
    proof (rule pool_heldI)
      show "j < sz \<and> pl_locked s' ! j \<and> pl_ready s' ! j" if "pl_threads s' u = Using j" for u j
        using that th d(3) [of u j] by (auto simp: f split: if_splits)
      show "u = u'" if "pl_threads s' u = Using j" "pl_threads s' u' = Using j" for u u' j
        using that th d(4) [of u j u'] by (auto split: if_splits)
      show "j < sz \<and> pl_mutex s' = Some u" if "pl_threads s' u = Scan j" for u j
        using that th other [of u j] by (auto split: if_splits)
    qed (simp_all add: f d(1,2))
  next
    case False
    have no: "pl_threads s u \<noteq> Using idx" for u using d(3) [of u idx] False by blast
    have rd: "(pl_ready s)[idx := True] = pl_ready s" if "pl_ready s ! idx"
      using list_update_id [of "pl_ready s" idx] that by simp
    have f: "pl_threads s' = (pl_threads s)(t := Using idx)" "pl_locked s' = (pl_locked s)[idx := True]"
      "pl_ready s' = (pl_ready s)[idx := True]"
      using attempt(1) False rd by (auto simp: pool_try_def)
    show ?thesis
    proof (rule pool_heldI)
      show "j < sz \<and> pl_locked s' ! j \<and> pl_ready s' ! j" if "pl_threads s' u = Using j" for u j
        using that d(1,2) d(3) [of u j] i no by (auto simp: f nth_list_update split: if_splits)
      show "u = u'" if "pl_threads s' u = Using j" "pl_threads s' u' = Using j" for u u' j
        using that d(4) [of u j u'] no by (auto simp: f split: if_splits)
      show "j < sz \<and> pl_mutex s' = Some u" if "pl_threads s' u = Scan j" for u j
        using that other by (auto simp: f split: if_splits)
    qed (simp_all add: f d(1,2))
  qed
next
  case (unlock t idx)
  note d = pool_heldD [OF h]
  have "u \<noteq> t \<Longrightarrow> pl_threads s u \<noteq> Using idx" for u using d(4) [of u idx t] unlock by blast
  then show ?thesis using unlock d by (auto simp: pool_held_def pool_unlock_def nth_list_update)
next
  case (signal_none t)
  then show ?thesis using pool_heldD [OF h] by (auto simp: pool_held_def pool_signal_def)
next
  case (signal_one t u)
  then show ?thesis using pool_heldD [OF h] by (auto simp: pool_held_def pool_signal_def)
next
  case (spurious t)
  then show ?thesis using pool_heldD [OF h] by (auto simp: pool_held_def)
qed

lemma pool_reach_held: "pool_reach weak sz s \<Longrightarrow> 0 < sz \<Longrightarrow> pool_held sz s"
proof (induction rule: pool_reach.induct)
  case new
  then show ?case by (simp add: pool_held_def pool_new_def)
next
  case (step s s')
  then show ?case using pool_held_step by blast
qed

text \<open>A slot is locked only while a thread uses its runner.\<close>

definition pool_slots :: "runner_pool \<Rightarrow> bool" where
  "pool_slots s \<longleftrightarrow> (\<forall>i < length (pl_locked s). pl_locked s ! i \<longrightarrow> (\<exists>t. pl_threads s t = Using i))"

lemma pool_slots_upd:
  assumes "pool_slots s" and "pl_threads s t \<noteq> Using i" and "i < length (pl_locked s)" and "pl_locked s ! i"
  shows "\<exists>u. ((pl_threads s)(t := p)) u = Using i"
proof -
  obtain u where "pl_threads s u = Using i" using assms by (auto simp: pool_slots_def)
  then show ?thesis using assms(2) by (intro exI [of _ u]) auto
qed

lemma pool_slots_step:
  assumes "pool_step weak s s'" and h: "pool_held sz s" and sl: "pool_slots s"
  shows "pool_slots s'"
  using assms(1)
proof cases
  case (attempt t idx fails)
  have "\<exists>u. ((pl_threads s)(t := p)) u = Using i" if "i < length (pl_locked s)" "pl_locked s ! i" for i p
    using pool_slots_upd [OF sl _ that, of t] attempt by simp
  note other = this
  show ?thesis
  proof (cases "pl_locked s ! idx \<or> fails")
    case True
    then show ?thesis using other attempt(1) by (auto simp: pool_slots_def pool_try_def)
  next
    case False
    have "\<exists>u. ((pl_threads s)(t := Using idx)) u = Using i" if "i < length (pl_locked s)" "(pl_locked s)[idx := True] ! i" for i
      using other [of i "Using idx"] that by (cases "i = idx") (auto intro: exI [of _ t])
    then show ?thesis using attempt(1) False by (auto simp: pool_slots_def pool_try_def)
  qed
next
  case (unlock t idx)
  have "\<exists>u. ((pl_threads s)(t := Signalling)) u = Using i" if "i < length (pl_locked s)" "pl_locked s ! i" "i \<noteq> idx" for i
    using pool_slots_upd [OF sl _ that(1,2), of t] unlock that(3) by simp
  then show ?thesis using unlock pool_heldD(1,3) [OF h] by (auto simp: pool_slots_def pool_unlock_def nth_list_update)
next
  case (signal_one t u)
  have "\<exists>v. ((pl_threads s)(t := Out, u := Woken)) v = Using i" if i: "i < length (pl_locked s)" "pl_locked s ! i" for i
  proof -
    obtain v where "pl_threads s v = Using i" using sl i by (auto simp: pool_slots_def)
    then show ?thesis using signal_one by (intro exI [of _ v]) auto
  qed
  then show ?thesis using signal_one by (auto simp: pool_slots_def pool_signal_def)
next
  case (signal_none t)
  then show ?thesis using pool_slots_upd [OF sl, of t] by (auto simp: pool_slots_def pool_signal_def)
next
  case (enter t)
  then show ?thesis using pool_slots_upd [OF sl, of t] by (auto simp: pool_slots_def pool_enter_def)
next
  case (resume t)
  then show ?thesis using pool_slots_upd [OF sl, of t] by (auto simp: pool_slots_def pool_enter_def)
next
  case (spurious t)
  then show ?thesis using pool_slots_upd [OF sl, of t] by (auto simp: pool_slots_def)
qed

lemma pool_reach_slots: "pool_reach weak sz s \<Longrightarrow> 0 < sz \<Longrightarrow> pool_slots s"
proof (induction rule: pool_reach.induct)
  case new
  then show ?case by (simp add: pool_slots_def pool_new_def)
next
  case (step s s')
  then show ?case using pool_slots_step pool_reach_held by blast
qed

text \<open>C12: Under every schedule, even with locks that fail without reason, a slot of the RunnerPool is locked exactly while a thread uses its runner, that is one thread only, and the runner is initialized.\<close>

theorem pool_exclusive:
  assumes "pool_reach weak sz s" and "0 < sz" and "i < sz"
  shows "(pl_locked s ! i \<longleftrightarrow> (\<exists>t. pl_threads s t = Using i)) \<and>
    (\<forall>t t'. pl_threads s t = Using i \<longrightarrow> pl_threads s t' = Using i \<longrightarrow> t' = t) \<and>
    (pl_locked s ! i \<longrightarrow> pl_ready s ! i)"
proof -
  note d = pool_heldD [OF pool_reach_held [OF assms(1,2)]]
  have "pl_locked s ! i \<longleftrightarrow> (\<exists>t. pl_threads s t = Using i)"
    using pool_reach_slots [OF assms(1,2)] d(1,3) assms(3) by (auto simp: pool_slots_def)
  then show ?thesis using d(3,4) by blast
qed

section \<open>No lost wakeups\<close>

definition frees :: "bool list \<Rightarrow> nat" where
  "frees l = length (filter Not l)"

lemma frees_take: "i < length l \<Longrightarrow> \<not> l ! i \<Longrightarrow> frees (l[i := True]) + 1 = frees l"
proof (induction l arbitrary: i)
  case (Cons a l)
  then show ?case by (cases i) (auto simp: frees_def)
qed simp

lemma frees_release: "i < length l \<Longrightarrow> l ! i \<Longrightarrow> frees (l[i := False]) = frees l + 1"
proof (induction l arbitrary: i)
  case (Cons a l)
  then show ?case by (cases i) (auto simp: frees_def)
qed simp

lemma frees_update_le: "frees (l[i := b]) \<le> frees l + 1"
proof (induction l arbitrary: i)
  case (Cons a l)
  then show ?case by (cases i) (auto simp: frees_def)
qed (simp add: frees_def)

definition doing :: "pool_thread \<Rightarrow> (nat \<Rightarrow> pool_thread) \<Rightarrow> nat set" where
  "doing p f = {t. f t = p}"

definition count :: "(nat \<Rightarrow> pool_thread) \<Rightarrow> pool_thread \<Rightarrow> nat" where
  "count f p = card (doing p f)"

lemma finite_doing [simp]: "finite (doing q f) \<Longrightarrow> finite (doing q (f(t := p)))"
  by (rule finite_subset [of _ "insert t (doing q f)"]) (auto simp: doing_def)

lemma count_same: "f t \<noteq> q \<Longrightarrow> p \<noteq> q \<Longrightarrow> count (f(t := p)) q = count f q"
  unfolding count_def doing_def by (rule arg_cong [of _ _ card]) auto

lemma count_new:
  assumes "finite (doing q f)" and "f t \<noteq> q"
  shows "count (f(t := q)) q = count f q + 1"
proof -
  have "doing q (f(t := q)) = insert t (doing q f)" "t \<notin> doing q f" using assms(2) by (auto simp: doing_def)
  then show ?thesis using assms(1) by (simp add: count_def)
qed

lemma count_old:
  assumes "finite (doing q f)" and "f t = q" and "p \<noteq> q"
  shows "count (f(t := p)) q + 1 = count f q"
proof -
  have "doing q (f(t := p)) = doing q f - {t}" "t \<in> doing q f" using assms(2,3) by (auto simp: doing_def)
  then show ?thesis using assms(1) card.remove [of "doing q f" t] by (simp add: count_def)
qed

text \<open>
  While any thread sleeps there are no more free runners than threads that are about to signal,
  have been woken, or are looking for a runner; and the free runners a search has passed were
  unlocked during it, by threads that still have to signal.
\<close>

definition pool_awaited :: "runner_pool \<Rightarrow> bool" where
  "pool_awaited s \<longleftrightarrow>
     finite (doing Signalling (pl_threads s)) \<and> finite (doing Woken (pl_threads s)) \<and>
     ((\<exists>t. pl_threads s t = Sleeping) \<longrightarrow>
        frees (pl_locked s) \<le> count (pl_threads s) Signalling + count (pl_threads s) Woken + (if pl_mutex s = None then 0 else 1)) \<and>
     (\<forall>t i. pl_threads s t = Scan i \<longrightarrow> frees (take i (pl_locked s)) \<le> count (pl_threads s) Signalling)"

lemma pool_awaited_step:
  assumes "pool_step False s s'" and h: "pool_held sz s" and a: "pool_awaited s"
  shows "pool_awaited s'"
  using assms(1)
proof cases
  case (enter t)
  then show ?thesis using a by (auto simp: pool_awaited_def pool_enter_def count_same frees_def)
next
  case (resume t)
  have "count (pl_threads s) Woken = count ((pl_threads s)(t := Scan 0)) Woken + 1"
    using count_old [of Woken "pl_threads s" t "Scan 0"] a resume by (simp add: pool_awaited_def)
  then show ?thesis using a resume by (auto simp: pool_awaited_def pool_enter_def count_same frees_def)
next
  case (attempt t idx fails)
  then have nf: "\<not> fails" by simp
  note i = pool_heldD(5) [OF h attempt(2)] and l = pool_heldD(1) [OF h]
  have other: "pl_threads s u \<noteq> Scan j" if "u \<noteq> t" for u j using pool_heldD(5) [OF h] i that by fastforce
  have sc: "frees (take idx (pl_locked s)) \<le> count (pl_threads s) Signalling" using a attempt(2) by (simp add: pool_awaited_def)
  show ?thesis
  proof (cases "pl_locked s ! idx")
    case True
    have "frees (take (idx + 1) (pl_locked s)) = frees (take idx (pl_locked s))"
      using True i l by (simp add: take_Suc_conv_app_nth frees_def)
    note tk = this
    show ?thesis
    proof (cases "idx + 1 = length (pl_locked s)")
      case last: True
      have "frees (pl_locked s) \<le> count (pl_threads s) Signalling + count (pl_threads s) Woken"
        using tk sc last by simp
      then show ?thesis using attempt(1) a other True last
        by (auto simp: pool_awaited_def pool_try_def nf count_same attempt(2))
    next
      case more: False
      have "frees (take (idx + 1) (pl_locked s)) \<le> count (pl_threads s) Signalling" using tk sc by simp
      then show ?thesis using attempt(1) a i other True more
        by (auto simp: pool_awaited_def pool_try_def nf count_same attempt(2))
    qed
  next
    case False
    have "frees ((pl_locked s)[idx := True]) + 1 = frees (pl_locked s)" using frees_take False i l by simp
    then show ?thesis using attempt a i other False
      by (auto simp: pool_awaited_def pool_try_def nf count_same)
  qed
next
  case (unlock t idx)
  note i = pool_heldD(3) [OF h unlock(2)] and l = pool_heldD(1) [OF h]
  have f: "finite (doing Signalling (pl_threads s))" using a by (simp add: pool_awaited_def)
  have c: "count ((pl_threads s)(t := Signalling)) Signalling = count (pl_threads s) Signalling + 1"
    using count_new [OF f, of t] unlock by simp
  have r: "frees ((pl_locked s)[idx := False]) = frees (pl_locked s) + 1" using frees_release i l by simp
  have "frees (take j ((pl_locked s)[idx := False])) \<le> count (pl_threads s) Signalling + 1"
    if "pl_threads s u = Scan j" for u j
    using a that frees_update_le [of "take j (pl_locked s)" idx False]
    by (fastforce simp: pool_awaited_def take_update_swap)
  then show ?thesis using unlock a c r
    by (auto simp: pool_awaited_def pool_unlock_def count_same)
next
  case (signal_none t)
  then show ?thesis using a pool_heldD(5) [OF h]
    by (auto simp: pool_awaited_def pool_signal_def count_same)
next
  case (signal_one t u)
  have f: "finite (doing Signalling (pl_threads s))" "finite (doing Woken (pl_threads s))" using a by (simp_all add: pool_awaited_def)
  have c1: "count ((pl_threads s)(t := Out, u := Woken)) Signalling + 1 = count (pl_threads s) Signalling"
    using count_old [OF f(1), of t Out] signal_one by (simp add: count_same)
  have c2: "count ((pl_threads s)(t := Out, u := Woken)) Woken = count (pl_threads s) Woken + 1"
    using count_new [of Woken "(pl_threads s)(t := Out)" u] count_same [of "pl_threads s" t Woken Out] f signal_one by auto
  show ?thesis using a c1 c2 signal_one pool_heldD(5) [OF h]
    by (auto simp: pool_awaited_def pool_signal_def)
next
  case (spurious t)
  have f: "finite (doing Woken (pl_threads s))" using a by (simp add: pool_awaited_def)
  have "count ((pl_threads s)(t := Woken)) Woken = count (pl_threads s) Woken + 1"
    using count_new [OF f, of t] spurious by simp
  then show ?thesis using a spurious by (auto simp: pool_awaited_def count_same)
qed

lemma pool_reach_awaited: "pool_reach False sz s \<Longrightarrow> 0 < sz \<Longrightarrow> pool_awaited s"
proof (induction rule: pool_reach.induct)
  case new
  then show ?case by (simp add: pool_awaited_def pool_new_def doing_def)
next
  case (step s s')
  then show ?case using pool_awaited_step pool_reach_held by blast
qed

text \<open>C35: When locks never fail without reason, no wakeup of a RunnerPool is lost: while a thread sleeps and a runner is free, some thread is about to signal, has been woken, or is looking for a runner.\<close>

theorem pool_progress:
  assumes "pool_reach False sz s" and "0 < sz" and "pl_threads s t = Sleeping" and "i < sz" and "\<not> pl_locked s ! i"
  shows "pl_mutex s \<noteq> None \<or> (\<exists>u. pl_threads s u = Signalling \<or> pl_threads s u = Woken)"
proof (rule ccontr)
  assume n: "\<not> (pl_mutex s \<noteq> None \<or> (\<exists>u. pl_threads s u = Signalling \<or> pl_threads s u = Woken))"
  have a: "pool_awaited s" by (rule pool_reach_awaited [OF assms(1,2)])
  have "pl_locked s ! i \<in> set (pl_locked s)"
    using pool_heldD(1) [OF pool_reach_held [OF assms(1,2)]] assms(4) by simp
  then have "0 < frees (pl_locked s)"
    using assms(5) by (auto simp: frees_def filter_empty_conv)
  moreover have "count (pl_threads s) Signalling = 0" "count (pl_threads s) Woken = 0"
    using n by (simp_all add: count_def doing_def)
  ultimately show False using a n assms(3) by (auto simp: pool_awaited_def)
qed

text \<open>One runner and two threads: the first uses it, the second sleeps, the first unlocks it.\<close>

lemmas pool_defs = pool_new_def pool_enter_def pool_try_def pool_unlock_def

lemma pool_example:
  shows pool_example1: "pool_reach False 1 (pool_try False 0 0 (pool_enter 0 (pool_new 1)))"
    and pool_example2: "pool_reach False 1 (pool_unlock 0 0 (pool_try False 1 0 (pool_enter 1 (pool_try False 0 0 (pool_enter 0 (pool_new 1))))))"
proof -
  let ?s1 = "pool_enter 0 (pool_new 1)"
  let ?s2 = "pool_try False 0 0 ?s1"
  let ?s3 = "pool_enter 1 ?s2"
  let ?s4 = "pool_try False 1 0 ?s3"
  have "pool_reach False 1 ?s1" by (intro pool_reach.step [OF pool_reach.new] pool_step.enter) (simp_all add: pool_defs)
  then show 2: "pool_reach False 1 ?s2" by (rule pool_reach.step, intro pool_step.attempt) (simp_all add: pool_defs)
  then have "pool_reach False 1 ?s3" by (rule pool_reach.step, intro pool_step.enter) (simp_all add: pool_defs)
  then have "pool_reach False 1 ?s4" by (rule pool_reach.step, intro pool_step.attempt) (simp_all add: pool_defs)
  then show "pool_reach False 1 (pool_unlock 0 0 ?s4)" by (rule pool_reach.step, intro pool_step.unlock) (simp add: pool_defs)
qed

lemma pool_exclusive_witness: "pl_locked (pool_try False 0 0 (pool_enter 0 (pool_new 1))) ! 0"
proof -
  have "pl_threads (pool_try False 0 0 (pool_enter 0 (pool_new 1))) 0 = Using 0" by (simp add: pool_defs)
  then show ?thesis using pool_exclusive [OF pool_example1, of 0] by auto
qed

lemma pool_progress_witness:
  "\<exists>u. pl_threads (pool_unlock 0 0 (pool_try False 1 0 (pool_enter 1 (pool_try False 0 0 (pool_enter 0 (pool_new 1)))))) u = Signalling"
proof -
  let ?s = "pool_unlock 0 0 (pool_try False 1 0 (pool_enter 1 (pool_try False 0 0 (pool_enter 0 (pool_new 1)))))"
  have f: "pl_threads ?s 1 = Sleeping" "\<not> pl_locked ?s ! 0" "pl_mutex ?s = None" "pl_threads ?s u \<noteq> Woken" for u
    by (simp_all add: pool_defs)
  show ?thesis using pool_progress [OF pool_example2 _ f(1) _ f(2)] f(3,4) by simp
qed

text \<open>With a lock that fails without reason a thread can sleep although every runner is free and nothing will wake it.\<close>

lemma weak_lock_sleeps:
  "\<exists>s. pool_reach True 1 s \<and> pl_threads s 0 = Sleeping \<and> (\<forall>t. t \<noteq> 0 \<longrightarrow> pl_threads s t = Out) \<and> \<not> pl_locked s ! 0"
proof (intro exI conjI)
  let ?s = "pool_enter 0 (pool_new 1)"
  have "pool_reach True 1 ?s" by (intro pool_reach.step [OF pool_reach.new] pool_step.enter) (simp_all add: pool_defs)
  then show "pool_reach True 1 (pool_try True 0 0 ?s)"
    by (rule pool_reach.step, intro pool_step.attempt) (simp_all add: pool_defs)
qed (simp_all add: pool_defs)

end
