(* ===== verification/Runner_Input.thy ===== *)
theory Runner_Input
  imports Page_Backend "HOL-Library.Monad_Syntax"
begin

text \<open>
  RunnerInput (src/lib/andromeda/backend/RunnerInput.cpp): StreamSize of a write function, and the
  functions made from a std::istream and a std::ostream, which keep the offset they are at
  between calls. FromString is in Page_Backend.
\<close>

section \<open>The code\<close>

text \<open>StreamSize pulls BUFSIZ bytes at a time; None is a stream that never ends.\<close>

partial_function (option) stream_size_from :: "write_func \<Rightarrow> nat \<Rightarrow> nat option" where
  "stream_size_from func retval =
     (case func retval 8192 of (more_data, buf) \<Rightarrow>
        if more_data then stream_size_from func (retval + length buf) else Some (retval + length buf))"

definition stream_size :: "write_func \<Rightarrow> nat option" where
  "stream_size func = stream_size_from func 0"

text \<open>
  std::istream over bytes that stay readable (badbit is never set). The C++11 seekg clears eofbit
  but does not move a stream that has failed; a read that finds fewer bytes than it is asked for
  sets eofbit and failbit, and one on a stream that is not good reads nothing and sets failbit.
\<close>

record istream =
  is_data :: bytes
  is_pos :: nat
  is_eof :: bool
  is_fail :: bool

definition is_good :: "istream \<Rightarrow> bool" where
  "is_good s \<longleftrightarrow> \<not> is_eof s \<and> \<not> is_fail s"

definition is_seek :: "nat \<Rightarrow> istream \<Rightarrow> istream" where
  "is_seek off s =
     (if is_fail s then s\<lparr>is_eof := False\<rparr>
      else if off \<le> length (is_data s) then s\<lparr>is_eof := False, is_pos := off\<rparr>
      else s\<lparr>is_eof := False, is_fail := True\<rparr>)"

definition is_read :: "nat \<Rightarrow> istream \<Rightarrow> bytes \<times> istream" where
  "is_read n s =
     (if \<not> is_good s then ([], s\<lparr>is_fail := True\<rparr>)
      else let got = take n (drop (is_pos s) (is_data s)) in
        (got, s\<lparr>is_pos := is_pos s + length got, is_eof := (length got < n), is_fail := (length got < n)\<rparr>))"

datatype stream_error = StreamSeek | StreamFail

text \<open>FromStream: the state is curoff and the stream.\<close>

definition from_stream :: "nat \<Rightarrow> nat \<Rightarrow> nat \<times> istream \<Rightarrow> (stream_error + bool \<times> bytes) \<times> (nat \<times> istream)" where
  "from_stream offset buflen st =
     (let (curoff, data) = st;
          data = (if offset \<noteq> curoff then is_seek offset data else data)
      in if offset \<noteq> curoff \<and> \<not> is_good data then (Inl StreamSeek, (curoff, data))
         else let curoff = offset;
                  (buf, data) = is_read buflen data;
                  curoff = curoff + length buf
              in if is_fail data \<and> \<not> is_eof data then (Inl StreamFail, (curoff, data))
                 else (Inr (\<not> is_eof data, buf), (curoff, data)))"

text \<open>std::ostream into bytes that can be written; ToStream.\<close>

record ostream =
  os_data :: bytes
  os_pos :: nat
  os_fail :: bool

definition os_seek :: "nat \<Rightarrow> ostream \<Rightarrow> ostream" where
  "os_seek off s =
     (if os_fail s then s else if off \<le> length (os_data s) then s\<lparr>os_pos := off\<rparr> else s\<lparr>os_fail := True\<rparr>)"

definition os_write :: "bytes \<Rightarrow> ostream \<Rightarrow> ostream" where
  "os_write buf s =
     (if os_fail s then s
      else s\<lparr>os_data := take (os_pos s) (os_data s) @ buf @ drop (os_pos s + length buf) (os_data s),
             os_pos := os_pos s + length buf\<rparr>)"

definition to_stream :: "nat \<Rightarrow> bytes \<Rightarrow> nat \<times> ostream \<Rightarrow> (stream_error + unit) \<times> (nat \<times> ostream)" where
  "to_stream offset buf st =
     (let (curoff, data) = st;
          data = (if offset \<noteq> curoff then os_seek offset data else data)
      in if offset \<noteq> curoff \<and> os_fail data then (Inl StreamSeek, (curoff, data))
         else let data = os_write buf data; curoff = offset + length buf
              in if os_fail data then (Inl StreamFail, (curoff, data)) else (Inr (), (curoff, data)))"

section \<open>The size of a stream\<close>

context write_stream begin

lemma stream_size_from_serves:
  "valid a \<Longrightarrow> off \<le> length (bytes_of a) \<Longrightarrow> stream_size_from (stream a) off = Some (length (bytes_of a))"
proof (induction "length (bytes_of a) - off" arbitrary: off rule: less_induct)
  case less
  show ?case
  proof (cases "off = length (bytes_of a)")
    case True
    then have "stream a off 8192 = (False, [])" using stream_end less.prems(1) by simp
    then show ?thesis using True by (subst stream_size_from.simps) simp
  next
    case False
    then have "off < length (bytes_of a)" using less.prems(2) by simp
    then obtain m where m: "0 < m" "off + m \<le> length (bytes_of a)" "stream a off 8192 = (True, take m (drop off (bytes_of a)))"
      using stream_progress [OF less.prems(1), of off 8192] by auto
    have "length (bytes_of a) - (off + m) < length (bytes_of a) - off" using m by simp
    moreover have "length (take m (drop off (bytes_of a))) = m" using m(2) by simp
    ultimately show ?thesis using less.hyps [OF _ less.prems(1) m(2)]
      by (subst stream_size_from.simps) (simp only: m(3) split if_True)
  qed
qed

lemma stream_size_serves: "valid a \<Longrightarrow> stream_size (stream a) = Some (length (bytes_of a))"
  by (simp add: stream_size_def stream_size_from_serves)

end

text \<open>StreamSize ends on the stream of a string and returns the size of the string.\<close>

theorem stream_size_from_string: "stream_size (from_string data) = Some (length data)"
  by (rule str_in.stream_size_serves) simp

section \<open>Reading a file as a stream\<close>

text \<open>What httplib does with the function: buffers of given sizes, from the offset it has reached.\<close>

fun pull_stream :: "nat list \<Rightarrow> nat \<Rightarrow> nat \<times> istream \<Rightarrow> (stream_error + bytes) \<times> bool \<times> (nat \<times> istream)" where
  "pull_stream [] off st = (Inr [], False, st)"
| "pull_stream (n # ns) off st =
     (case from_stream off n st of
        (Inl e, st) \<Rightarrow> (Inl e, False, st)
      | (Inr (more_data, buf), st) \<Rightarrow>
          if \<not> more_data then (Inr buf, True, st)
          else case pull_stream ns (off + length buf) st of
                 (Inl e, r) \<Rightarrow> (Inl e, r) | (Inr rest, r) \<Rightarrow> (Inr (buf @ rest), r))"

lemma pull_stream_spec:
  assumes "is_good s" and "is_pos s = off" and "off \<le> length (is_data s)"
  shows "case pull_stream ns off (off, s) of
      (Inl e, _) \<Rightarrow> False
    | (Inr bs, done, (cur, s')) \<Rightarrow> is_data s' = is_data s \<and>
        (if done then bs = drop off (is_data s) \<and> is_fail s' \<and> cur = length (is_data s)
         else bs = take (sum_list ns) (drop off (is_data s)) \<and> sum_list ns \<le> length (is_data s) - off)"
  using assms
proof (induction ns arbitrary: off s)
  case (Cons n ns)
  define got where "got = take n (drop off (is_data s))"
  define s1 where "s1 = s\<lparr>is_pos := off + length got, is_eof := (length got < n), is_fail := (length got < n)\<rparr>"
  have fs: "from_stream off n (off, s) = (Inr (\<not> length got < n, got), (off + length got, s1))"
    using Cons.prems by (simp add: from_stream_def is_read_def is_good_def got_def s1_def Let_def)
  show ?case
  proof (cases "length got < n")
    case True
    then have "got = drop off (is_data s)" by (auto simp: got_def)
    then show ?thesis using True Cons.prems by (simp add: fs s1_def)
  next
    case False
    then have l: "length got = n" by (auto simp: got_def)
    then have le: "off + n \<le> length (is_data s)" using Cons.prems(3) by (auto simp: got_def min_def split: if_splits)
    have g: "is_good s1" "is_pos s1 = off + length got" "off + length got \<le> length (is_data s1)" "is_data s1 = is_data s"
      using False le l Cons.prems by (simp_all add: s1_def is_good_def)
    obtain r d c s2 where p: "pull_stream ns (off + length got) (off + length got, s1) = (r, d, (c, s2))"
      by (metis prod_cases4)
    note IH = Cons.IH [OF g(1-3), unfolded p g(4)]
    have e: "drop off (is_data s) = got @ drop (off + n) (is_data s)"
      using append_take_drop_id [of n "drop off (is_data s)"] by (simp add: got_def add.commute)
    have ar: "x \<le> length (is_data s) - (off + length got) \<Longrightarrow> length got + x \<le> length (is_data s) - off" for x
      using le l by linarith
    show ?thesis using IH l le False e by (cases r) (auto simp: fs p intro!: ar)
  qed
qed (use assms in \<open>auto\<close>)

text \<open>Whatever the sizes of its buffers, pulling a file from its start never fails and gives the bytes of the file: all of them when the function has said that there is no more, and before that as many as were asked for.\<close>

theorem from_stream_reads_all:
  assumes "pull_stream ns 0 (0, \<lparr>is_data = data, is_pos = 0, is_eof = False, is_fail = False\<rparr>) = (r, done, st)"
  shows "\<exists>bs. r = Inr bs \<and> (if done then bs = data else bs = take (sum_list ns) data \<and> sum_list ns \<le> length data)"
  using pull_stream_spec [of "\<lparr>is_data = data, is_pos = 0, is_eof = False, is_fail = False\<rparr>" 0 ns]
  unfolding assms by (cases r; cases st) (auto simp: is_good_def split: if_splits)

lemma from_stream_reads_all_witness:
  "fst (pull_stream [2, 2] 0 (0, \<lparr>is_data = [1, 2, 3], is_pos = 0, is_eof = False, is_fail = False\<rparr>)) = Inr [1, 2, 3]"
proof -
  let ?p = "pull_stream [2, 2] 0 (0, \<lparr>is_data = [1, 2, 3], is_pos = 0, is_eof = False, is_fail = False\<rparr>)"
  obtain r d st where p: "?p = (r, d, st)" by (metis prod_cases3)
  have "fst (snd ?p)" by code_simp
  then have d using p by simp
  then show ?thesis using from_stream_reads_all [OF p] p by simp
qed

text \<open>A file that has been read to its end cannot be sent again: the stream has failed by then, and the seek back to the start that a retry needs throws StreamSeekException.\<close>

theorem from_stream_no_retry:
  assumes "pull_stream ns 0 (0, \<lparr>is_data = data, is_pos = 0, is_eof = False, is_fail = False\<rparr>) = (Inr bs, True, st)"
    and "data \<noteq> []"
  shows "fst (from_stream 0 n st) = Inl StreamSeek"
proof -
  obtain cur s where st: "st = (cur, s)" by force
  have "is_fail s" "cur = length data"
    using pull_stream_spec [of "\<lparr>is_data = data, is_pos = 0, is_eof = False, is_fail = False\<rparr>" 0 ns]
    unfolding assms st by (auto simp: is_good_def)
  then show ?thesis using assms(2) by (simp add: st from_stream_def is_seek_def is_good_def Let_def)
qed

lemma from_stream_no_retry_witness:
  "fst (from_stream 0 4 (snd (snd (pull_stream [4] 0 (0, \<lparr>is_data = [1, 2, 3], is_pos = 0, is_eof = False, is_fail = False\<rparr>))))) = Inl StreamSeek"
proof -
  have p: "pull_stream [4] 0 (0, \<lparr>is_data = [1, 2, 3], is_pos = 0, is_eof = False, is_fail = False\<rparr>) =
      (Inr [1, 2, 3], True, (3, \<lparr>is_data = [1, 2, 3], is_pos = 3, is_eof = True, is_fail = True\<rparr>))"
    by code_simp
  show ?thesis using from_stream_no_retry [OF p, of 4] by (simp only: p) simp
qed

end
