(* ===== verification/Http_Runner.thy ===== *)
theory Http_Runner
  imports Option_Structs Base64
begin

text \<open>
  HTTPRunner (src/lib/andromeda/backend/HTTPRunner.cpp): requests to the server over HTTP, retried
  when there is no response or the server is overloaded. The httplib client is a parameter: a
  request yields a response or an error, the time it took, and a new state of the world.
\<close>

section \<open>The code\<close>

record response =
  rs_status :: nat
  rs_location :: string
  rs_content_type :: "string option"
  rs_redirect :: "string option"
  rs_body :: string

text \<open>
  httplib::Result: a response, or an error; NoError stands for an error code Success without a
  response. rs_redirect is the header Location. Callback is an exception of a function of the input that
  the request calls.
\<close>

datatype http_error = ConnectionError | OtherError nat | NoError

type_synonym http_result = "http_error + response"

datatype 'x http_exn =
    ConnectionException | LibraryException http_error | EndpointCode nat | EndpointText string
  | RedirectException string | InputSizeException | Callback 'x

record http_runner =
  hr_proto_host :: string
  hr_base_url :: string
  hr_client :: string
  hr_failure :: bool
  hr_can_retry :: bool
  hr_base :: runner_opts
  hr_http :: http_opts

text \<open>ParseURL.\<close>

definition parse_full_url :: "string \<Rightarrow> string \<times> string" where
  "parse_full_url full =
     (let fuller = (if str_find ''://'' full \<noteq> None then full else ''http://'' @ full);
          (host, url) = split_pair fuller ''/'' 2 False
      in (host, if \<not> starts_with_impl url ''/'' then ''/'' @ url else url))"

text \<open>InitializeClient connects the client to a host; its other settings are those of the options.\<close>

definition initialize_client :: "string \<Rightarrow> http_runner \<Rightarrow> http_runner" where
  "initialize_client proto_host r = r\<lparr>hr_client := proto_host\<rparr>"

definition http_runner_new :: "string \<Rightarrow> runner_opts \<Rightarrow> http_opts \<Rightarrow> http_runner" where
  "http_runner_new full base http =
     (let (host, url) = parse_full_url full
      in initialize_client host \<lparr>hr_proto_host = host, hr_base_url = url, hr_client = [], hr_failure = False,
           hr_can_retry = False, hr_base = base, hr_http = http\<rparr>)"

definition get_full_url :: "http_runner \<Rightarrow> string" where
  "get_full_url r = hr_proto_host r @ hr_base_url r"

definition http_clone :: "http_runner \<Rightarrow> http_runner" where
  "http_clone r = http_runner_new (get_full_url r) (hr_base r) (hr_http r)"

definition get_hostname :: "http_runner \<Rightarrow> string" where
  "get_hostname r = snd (split_pair (hr_proto_host r) ''://'' 0 False)"

text \<open>RegisterRedirect.\<close>

definition strip_params :: "string \<Rightarrow> string" where
  "strip_params s = (case str_find ''?'' s of Some pos \<Rightarrow> take pos s | None \<Rightarrow> s)"

definition register_redirect :: "string \<Rightarrow> http_runner \<Rightarrow> http_runner" where
  "register_redirect location r =
     (let (host, url) = parse_full_url location;
          url = strip_params url;
          r = (if host \<noteq> hr_proto_host r then initialize_client host (r\<lparr>hr_proto_host := host\<rparr>) else r)
      in if url \<noteq> hr_base_url r then r\<lparr>hr_base_url := url\<rparr> else r)"

definition redirect_exception :: "response \<Rightarrow> 'x http_exn" where
  "redirect_exception rs =
     (case rs_redirect rs of Some l \<Rightarrow> RedirectException (strip_params l) | None \<Rightarrow> RedirectException [])"

text \<open>
  HandleResponse, given canRetry of the HandleResponseData; it returns doRetry with an exception
  or the body and whether it is JSON.
\<close>

definition handle_response :: "response \<Rightarrow> bool \<Rightarrow> http_runner \<Rightarrow> ('x http_exn + bool \<times> string \<times> bool) \<times> http_runner" where
  "handle_response rs can_retry r =
     (let want_retry = (rs_status rs = 500 \<or> rs_status rs = 503); do_retry = (can_retry \<and> want_retry) in
      if do_retry then (Inr (True, [], False), r)
      else let r = (if \<not> want_retry then r\<lparr>hr_failure := False\<rparr> else r);
               r = (if ho_redirects (hr_http r) \<and> rs_location rs \<noteq> [] then register_redirect (rs_location rs) r else r);
               st = rs_status rs
           in if st = 200 then (Inr (False, rs_body rs, rs_content_type rs = Some ''application/json''), r)
              else (Inl (if st = 301 \<or> st = 302 then redirect_exception rs
                         else if st = 400 then EndpointText ''400 Bad Request''
                         else if st = 403 then EndpointText ''403 Access Denied''
                         else if st = 404 then EndpointText ''404 Not Found''
                         else if st = 413 then InputSizeException
                         else if st = 500 then EndpointText ''500 Server Error''
                         else if st = 503 then EndpointText ''503 Server Overloaded''
                         else EndpointCode st), r))"

text \<open>HandleNonResponse: an exception, or a retry, after sleeping unless it is the first.\<close>

definition handle_non_response :: "(int \<Rightarrow> 's \<Rightarrow> 's) \<Rightarrow> http_result \<Rightarrow> bool \<Rightarrow> 32 word \<Rightarrow> int \<Rightarrow> http_runner \<Rightarrow> 's \<Rightarrow>
    'x http_exn option \<times> 's" where
  "handle_non_response sleep result retry attempt elapsed r s =
     (if retry
      then (None, if attempt \<noteq> 0 \<and> ro_retrytime (hr_base r) - elapsed > 0
                  then sleep (ro_retrytime (hr_base r) - elapsed) s else s)
      else (Some (case result of
                    Inl ConnectionError \<Rightarrow> ConnectionException
                  | Inl NoError \<Rightarrow> LibraryException NoError
                  | Inl e \<Rightarrow> LibraryException e
                  | Inr rs \<Rightarrow> EndpointCode (rs_status rs)), s))"

lemma hr_base_redirect [simp]: "hr_base (register_redirect l r) = hr_base r"
  by (simp add: register_redirect_def initialize_client_def Let_def split: prod.split)

lemma hr_base_handle: "handle_response rs c r = (h, r') \<Longrightarrow> hr_base r' = hr_base r"
  by (auto simp: handle_response_def Let_def split: if_splits)

lemma hr_can_retry_redirect [simp]: "hr_can_retry (register_redirect l r) = hr_can_retry r"
  by (simp add: register_redirect_def initialize_client_def Let_def split: prod.split)

lemma hr_can_retry_handle: "handle_response rs c r = (h, r') \<Longrightarrow> hr_can_retry r' = hr_can_retry r"
  by (auto simp: handle_response_def Let_def split: if_splits)

lemma attempts_decrease:
  fixes attempt :: "32 word"
  assumes "unat attempt \<noteq> m mod 2 ^ 32"
  shows "unat (of_nat m - (attempt + 1)) < unat (of_nat m - attempt)"
proof -
  have "of_nat m - attempt \<noteq> 0" using assms by (auto simp: unat_of_nat)
  then have "unat (of_nat m - attempt - 1) = unat (of_nat m - attempt) - 1" "unat (of_nat m - attempt) \<noteq> 0"
    by (simp_all add: unat_minus_one unat_eq_0)
  then show ?thesis by (simp add: diff_diff_eq)
qed

lemma retry_decreases:
  fixes attempt :: "32 word"
  assumes r1: "r1 = (if unat attempt = ro_retries (hr_base r) mod 2 ^ 32 then r\<lparr>hr_failure := True\<rparr> else r)"
    and can: "can_retry = (hr_can_retry r1 \<and> \<not> hr_failure r1)"
    and q: "q = (case result of Inl e \<Rightarrow> (Inr (True, [], False), r1) | Inr rs \<Rightarrow> handle_response rs True r1)"
    and h: "(handled, r2) = q"
    and n: "(no, s2) = handle_non_response sleep result can_retry attempt elapsed r2 s1" "no = None"
  shows "unat (word_of_nat (ro_retries (hr_base r2)) - (attempt + 1)) < unat (word_of_nat (ro_retries (hr_base r)) - attempt)"
proof -
  have can_retry using n by (auto simp: handle_non_response_def split: if_splits)
  then have a: "unat attempt \<noteq> ro_retries (hr_base r) mod 2 ^ 32" using r1 can by auto
  have "hr_base r2 = hr_base r1"
    using q h by (cases result) (auto dest: hr_base_handle [OF sym])
  then show ?thesis using attempts_decrease [OF a] r1 by simp
qed

text \<open>DoRequestsAuto: the loop over attempts, counted in 32 bits.\<close>

function requests_auto_loop :: "(int \<Rightarrow> 's \<Rightarrow> 's) \<Rightarrow> ('s \<Rightarrow> ('x + http_result \<times> int) \<times> 's) \<Rightarrow> 32 word \<Rightarrow>
    http_runner \<Rightarrow> 's \<Rightarrow> ('x http_exn + string \<times> bool) \<times> http_runner \<times> 's" where
  "requests_auto_loop sleep get_result attempt r s =
     (let r = (if unat attempt = ro_retries (hr_base r) mod 2 ^ 32 then r\<lparr>hr_failure := True\<rparr> else r);
          can_retry = (hr_can_retry r \<and> \<not> hr_failure r)
      in case get_result s of
        (Inl x, s) \<Rightarrow> (Inl (Callback x), r, s)
      | (Inr (result, elapsed), s) \<Rightarrow>
          (let (handled, r) = (case result of
               Inr rs \<Rightarrow> handle_response rs True r
             | Inl e \<Rightarrow> (Inr (True, [], False), r))
      in case handled of
           Inl e \<Rightarrow> (Inl e, r, s)
         | Inr (do_retry, body, is_json) \<Rightarrow>
             if \<not> do_retry then (Inr (body, is_json), r, s)
             else case handle_non_response sleep result can_retry attempt elapsed r s of
                    (Some e, s) \<Rightarrow> (Inl e, r, s)
                  | (None, s) \<Rightarrow> requests_auto_loop sleep get_result (attempt + 1) r s))"
  by pat_completeness auto
termination
  by (relation "measure (\<lambda>(sleep, get_result, attempt, r, s). unat (of_nat (ro_retries (hr_base r)) - attempt))",
      rule wf_measure, unfold in_measure split, rule retry_decreases; assumption)

declare requests_auto_loop.simps [simp del]

text \<open>A request that calls nothing of the input.\<close>

definition plain_request :: "('s \<Rightarrow> (http_result \<times> int) \<times> 's) \<Rightarrow> 's \<Rightarrow> ('x + http_result \<times> int) \<times> 's" where
  "plain_request get_result s = (case get_result s of (res, s) \<Rightarrow> (Inr res, s))"

definition do_requests_auto :: "(int \<Rightarrow> 's \<Rightarrow> 's) \<Rightarrow> ('s \<Rightarrow> ('x + http_result \<times> int) \<times> 's) \<Rightarrow> http_runner \<Rightarrow> 's \<Rightarrow>
    ('x http_exn + string \<times> bool) \<times> http_runner \<times> 's" where
  "do_requests_auto sleep get_result r s = requests_auto_loop sleep get_result 0 r s"

text \<open>
  DoRequestsCustom, where the caller handles the response: it gives an exception, or the result
  and doRetry.
\<close>

lemma custom_decreases:
  fixes attempt :: "32 word"
  assumes r1: "r1 = (if unat attempt = ro_retries base mod 2 ^ 32 then r\<lparr>hr_failure := True\<rparr> else r)"
    and can: "can_retry = (hr_can_retry r1 \<and> \<not> hr_failure r1)"
    and n: "(no, s2) = handle_non_response sleep result can_retry attempt elapsed r2 s1" "no = None"
  shows "unat (word_of_nat (ro_retries base) - (attempt + 1)) < unat (word_of_nat (ro_retries base) - attempt)"
proof -
  have can_retry using n by (auto simp: handle_non_response_def split: if_splits)
  then have a: "unat attempt \<noteq> ro_retries base mod 2 ^ 32" using r1 can by auto
  show ?thesis by (rule attempts_decrease [OF a])
qed

function requests_custom_loop :: "(int \<Rightarrow> 's \<Rightarrow> 's) \<Rightarrow>
    (bool \<Rightarrow> http_runner \<Rightarrow> 's \<Rightarrow> ('x http_exn + http_result \<times> bool \<times> int) \<times> http_runner \<times> 's) \<Rightarrow> runner_opts \<Rightarrow> 32 word \<Rightarrow>
    http_runner \<Rightarrow> 's \<Rightarrow> 'x http_exn option \<times> http_runner \<times> 's" where
  "requests_custom_loop sleep get_and_handle base attempt r s =
     (let r = (if unat attempt = ro_retries base mod 2 ^ 32 then r\<lparr>hr_failure := True\<rparr> else r);
          can_retry = (hr_can_retry r \<and> \<not> hr_failure r)
      in case get_and_handle can_retry r s of
           (Inl e, r, s) \<Rightarrow> (Some e, r, s)
         | (Inr (result, do_retry, elapsed), r, s) \<Rightarrow>
             if \<not> isl result \<and> \<not> do_retry then (None, r, s)
             else case handle_non_response sleep result can_retry attempt elapsed r s of
                    (Some e, s) \<Rightarrow> (Some e, r, s)
                  | (None, s) \<Rightarrow> requests_custom_loop sleep get_and_handle base (attempt + 1) r s)"
  by pat_completeness auto
termination
  by (relation "measure (\<lambda>(sleep, get_and_handle, base, attempt, r, s). unat (of_nat (ro_retries base) - attempt))",
      rule wf_measure, unfold in_measure split, rule custom_decreases; assumption)

declare requests_custom_loop.simps [simp del]

definition do_requests_custom :: "(int \<Rightarrow> 's \<Rightarrow> 's) \<Rightarrow>
    (bool \<Rightarrow> http_runner \<Rightarrow> 's \<Rightarrow> ('x http_exn + http_result \<times> bool \<times> int) \<times> http_runner \<times> 's) \<Rightarrow>
    http_runner \<Rightarrow> 's \<Rightarrow> 'x http_exn option \<times> http_runner \<times> 's" where
  "do_requests_custom sleep get_and_handle r s = requests_custom_loop sleep get_and_handle (hr_base r) 0 r s"

text \<open>
  RunAction_StreamOut. A streamed GET ends before there is a response, or with a response, the
  pieces of its body, and perhaps an error after them. The handler of the response may throw;
  otherwise every piece goes to the streamer of the input, from offset 0.
\<close>

type_synonym stream_result = "http_error + response \<times> bytes list \<times> http_error option"

fun feed :: "(nat \<Rightarrow> bytes \<Rightarrow> 's \<Rightarrow> 's) \<Rightarrow> nat \<Rightarrow> bytes list \<Rightarrow> 's \<Rightarrow> 's" where
  "feed streamer offset [] s = s"
| "feed streamer offset (d # ds) s = feed streamer (offset + length d) ds (streamer offset d s)"

definition stream_attempt :: "('s \<Rightarrow> (stream_result \<times> int) \<times> 's) \<Rightarrow> (nat \<Rightarrow> bytes \<Rightarrow> 's \<Rightarrow> 's) \<Rightarrow> bool \<Rightarrow> http_runner \<Rightarrow> 's \<Rightarrow>
    ('x http_exn + http_result \<times> bool \<times> int) \<times> http_runner \<times> 's" where
  "stream_attempt get_stream streamer can_retry r s =
     (case get_stream s of
        ((Inl e, elapsed), s) \<Rightarrow> (Inr (Inl e, False, elapsed), r, s)
      | ((Inr (rs, chunks, err), elapsed), s) \<Rightarrow>
          (case handle_response rs can_retry r of
             (Inl e, r) \<Rightarrow> (Inl e, r, s)
           | (Inr (do_retry, _, _), r) \<Rightarrow>
               (Inr (case err of Some e \<Rightarrow> Inl e | None \<Rightarrow> Inr rs, do_retry, elapsed), r, feed streamer 0 chunks s)))"

definition run_action_stream_out :: "(int \<Rightarrow> 's \<Rightarrow> 's) \<Rightarrow> ('s \<Rightarrow> (stream_result \<times> int) \<times> 's) \<Rightarrow> (nat \<Rightarrow> bytes \<Rightarrow> 's \<Rightarrow> 's) \<Rightarrow>
    http_runner \<Rightarrow> 's \<Rightarrow> 'x http_exn option \<times> http_runner \<times> 's" where
  "run_action_stream_out sleep get_stream streamer r s =
     do_requests_custom sleep (stream_attempt get_stream streamer) r s"

text \<open>
  SetupRequest; query is params_to_query_str of httplib, over the parameters in the order of
  their multimap.
\<close>

record runner_input =
  ri_app :: string
  ri_action :: string
  ri_plain :: "(string \<times> string) list"
  ri_data :: "(string \<times> string) list"

definition char_byte :: "char \<Rightarrow> byte" where
  "char_byte c = word_of_nat (of_char c)"

definition header_key :: "string \<Rightarrow> string" where
  "header_key key = map (\<lambda>c. if c = CHR ''_'' then CHR ''-'' else c) key"

definition setup_request :: "((string \<times> string) list \<Rightarrow> string) \<Rightarrow> string \<Rightarrow> runner_input \<Rightarrow> bool \<Rightarrow> http_runner \<Rightarrow>
    (string \<times> string) list \<times> string" where
  "setup_request query user_agent input data_params r =
     ((''User-Agent'', user_agent) #
        (if data_params then map (\<lambda>(k, v). (''X-Andromeda-'' @ header_key k, b64_encode (map char_byte v))) (ri_data input) else []),
      hr_base_url r @ (if str_find ''?'' (hr_base_url r) \<noteq> None then ''&'' else ''?'') @
        query (multimap ([(''api'', []), (''_app'', ri_app input), (''_act'', ri_action input)] @ ri_plain input)))"

text \<open>AddDataParams and AddFileParams: name, content and file name of the parts of the body.\<close>

definition add_data_params :: "runner_input \<Rightarrow> (string \<times> string \<times> string) list" where
  "add_data_params input = map (\<lambda>(k, v). (k, v, [])) (ri_data input)"

definition add_file_params :: "(string \<times> string \<times> string) list \<Rightarrow> (string \<times> string \<times> string) list" where
  "add_file_params files = map (\<lambda>(k, name, data). (k, data, name)) files"

text \<open>
  The actions, over the GET and POST of the client, which is connected to hr_client.
\<close>

definition run_action_read :: "(int \<Rightarrow> 's \<Rightarrow> 's) \<Rightarrow> ((string \<times> string) list \<Rightarrow> string) \<Rightarrow> string \<Rightarrow>
    (string \<Rightarrow> string \<Rightarrow> (string \<times> string) list \<Rightarrow> 's \<Rightarrow> (http_result \<times> int) \<times> 's) \<Rightarrow> runner_input \<Rightarrow>
    http_runner \<Rightarrow> 's \<Rightarrow> ('x http_exn + string \<times> bool) \<times> http_runner \<times> 's" where
  "run_action_read sleep query user_agent get input r s =
     (let (headers, url) = setup_request query user_agent input True r
      in do_requests_auto sleep (plain_request (get (hr_client r) url headers)) r s)"

definition run_action_files_in :: "(int \<Rightarrow> 's \<Rightarrow> 's) \<Rightarrow> ((string \<times> string) list \<Rightarrow> string) \<Rightarrow> string \<Rightarrow>
    (string \<Rightarrow> string \<Rightarrow> (string \<times> string) list \<Rightarrow> (string \<times> string \<times> string) list \<Rightarrow> 's \<Rightarrow> (http_result \<times> int) \<times> 's) \<Rightarrow>
    runner_input \<Rightarrow> (string \<times> string \<times> string) list \<Rightarrow> http_runner \<Rightarrow> 's \<Rightarrow> ('x http_exn + string \<times> bool) \<times> http_runner \<times> 's" where
  "run_action_files_in sleep query user_agent post input files r s =
     (let (headers, url) = setup_request query user_agent input False r
      in do_requests_auto sleep (plain_request (post (hr_client r) url headers (add_data_params input @ add_file_params files))) r s)"

text \<open>RunAction_Write is the case without files.\<close>

definition run_action_write :: "(int \<Rightarrow> 's \<Rightarrow> 's) \<Rightarrow> ((string \<times> string) list \<Rightarrow> string) \<Rightarrow> string \<Rightarrow>
    (string \<Rightarrow> string \<Rightarrow> (string \<times> string) list \<Rightarrow> (string \<times> string \<times> string) list \<Rightarrow> 's \<Rightarrow> (http_result \<times> int) \<times> 's) \<Rightarrow>
    runner_input \<Rightarrow> http_runner \<Rightarrow> 's \<Rightarrow> ('x http_exn + string \<times> bool) \<times> http_runner \<times> 's" where
  "run_action_write sleep query user_agent post input r s =
     (let (headers, url) = setup_request query user_agent input False r
      in do_requests_auto sleep (plain_request (post (hr_client r) url headers (add_data_params input))) r s)"

text \<open>
  RunAction_StreamIn. The content provider of each stream asks the streamer of the input for as much as the
  stream buffer holds; it returns whether more is coming, and the bytes that go to the sink. post is the Post
  of httplib with content providers, which it calls as it likes, once more for every attempt.
\<close>

type_synonym ('x, 't) provider = "nat \<Rightarrow> 't \<Rightarrow> ('x + bool \<times> bytes) \<times> 't"

definition stream_provider :: "nat \<Rightarrow> (nat \<Rightarrow> nat \<Rightarrow> 't \<Rightarrow> ('x + bool \<times> bytes) \<times> 't) \<Rightarrow> ('x, 't) provider" where
  "stream_provider buffer_size streamer offset = streamer offset buffer_size"

definition run_action_stream_in :: "(int \<Rightarrow> 's \<Rightarrow> 's) \<Rightarrow> ((string \<times> string) list \<Rightarrow> string) \<Rightarrow> string \<Rightarrow>
    (string \<Rightarrow> string \<Rightarrow> (string \<times> string) list \<Rightarrow> (string \<times> string \<times> string) list \<Rightarrow> (string \<times> ('x, 't) provider \<times> string) list \<Rightarrow>
       's \<Rightarrow> ('x + http_result \<times> int) \<times> 's) \<Rightarrow>
    runner_input \<Rightarrow> (string \<times> string \<times> string) list \<Rightarrow> (string \<times> string \<times> (nat \<Rightarrow> nat \<Rightarrow> 't \<Rightarrow> ('x + bool \<times> bytes) \<times> 't)) list \<Rightarrow>
    http_runner \<Rightarrow> 's \<Rightarrow> ('x http_exn + string \<times> bool) \<times> http_runner \<times> 's" where
  "run_action_stream_in sleep query user_agent post input files fstreams r s =
     (let (headers, url) = setup_request query user_agent input False r
      in do_requests_auto sleep (post (hr_client r) url headers (add_data_params input @ add_file_params files)
           (map (\<lambda>(key, name, streamer). (key, stream_provider (ro_bufsize (hr_base r)) streamer, name)) fstreams)) r s)"

section \<open>Retrying\<close>

text \<open>A server that answers from a script, and a log of how long the runner sleeps.\<close>

type_synonym script = "(http_result \<times> int) list \<times> int list"

definition scripted :: "script \<Rightarrow> ('x + http_result \<times> int) \<times> script" where
  "scripted s = (Inr (hd (fst s)), (tl (fst s), snd s))"

definition log_sleep :: "int \<Rightarrow> script \<Rightarrow> script" where
  "log_sleep t s = (fst s, snd s @ [t])"

definition retryable :: "http_result \<Rightarrow> bool" where
  "retryable res \<longleftrightarrow> (case res of Inl _ \<Rightarrow> True | Inr rs \<Rightarrow> rs_status rs = 500 \<or> rs_status rs = 503)"

text \<open>The requests after the first that the runner may make, counting from an attempt.\<close>

definition retries_left :: "32 word \<Rightarrow> http_runner \<Rightarrow> nat" where
  "retries_left attempt r =
     (if hr_can_retry r \<and> \<not> hr_failure r then ro_retries (hr_base r) - unat attempt else 0)"

definition final_error :: "http_result \<Rightarrow> 'x http_exn" where
  "final_error res = (case res of Inl ConnectionError \<Rightarrow> ConnectionException | Inl e \<Rightarrow> LibraryException e
     | Inr rs \<Rightarrow> EndpointCode (rs_status rs))"

text \<open>The failure state when the attempt with a number is made.\<close>

definition at_attempt :: "nat \<Rightarrow> http_runner \<Rightarrow> http_runner" where
  "at_attempt n r = (if n = ro_retries (hr_base r) then r\<lparr>hr_failure := True\<rparr> else r)"

lemma handle_retryable: "rs_status rs = 500 \<or> rs_status rs = 503 \<Longrightarrow> handle_response rs True r = (Inr (True, [], False), r)"
  by (simp add: handle_response_def)

lemma hr_failure_redirect [simp]: "hr_failure (register_redirect l r) = hr_failure r"
  by (simp add: register_redirect_def initialize_client_def Let_def split: prod.split)

lemma handle_other:
  assumes "\<not> (rs_status rs = 500 \<or> rs_status rs = 503)" and "handle_response rs True r = (h, r')"
  shows "hr_failure r' = False" and "\<And>d b j. h = Inr (d, b, j) \<Longrightarrow> \<not> d"
  using assms by (auto simp: handle_response_def Let_def split: if_splits)

lemma handle_same: "fst (handle_response rs c r) = fst (handle_response rs c r')"
  by (simp add: handle_response_def Let_def)

text \<open>What a response that is not retried gives.\<close>

definition handled :: "http_result \<Rightarrow> http_runner \<Rightarrow> 'x http_exn + string \<times> bool" where
  "handled res r = map_sum id snd (fst (handle_response (projr res) True r))"

lemma loop_stop:
  fixes get_result :: "'s \<Rightarrow> ('x + http_result \<times> int) \<times> 's"
  assumes "\<not> retryable res" and "get_result s = (Inr (res, t), s')"
  shows "\<exists>r'. requests_auto_loop sleep get_result attempt r s = (handled res r, r', s') \<and> \<not> hr_failure r' \<and>
    hr_can_retry r' = hr_can_retry r \<and> hr_base r' = hr_base r"
proof -
  obtain rs where rs: "res = Inr rs" "\<not> (rs_status rs = 500 \<or> rs_status rs = 503)"
    using assms(1) by (cases res) (auto simp: retryable_def)
  define r1 where "r1 = (if unat attempt = ro_retries (hr_base r) mod 2 ^ 32 then r\<lparr>hr_failure := True\<rparr> else r)"
  obtain h :: "'x http_exn + bool \<times> string \<times> bool" and r' where h: "handle_response rs True r1 = (h, r')" by force
  note o = handle_other [OF rs(2) h]
  have "fst (handle_response rs True r) = h" by (metis handle_same h fst_conv)
  then have "handled res r = map_sum id snd h" by (simp add: handled_def rs)
  moreover have "(case h of Inl e \<Rightarrow> (Inl e, r', s') | Inr (do_retry, body, is_json) \<Rightarrow>
      if \<not> do_retry then (Inr (body, is_json), r', s') else x do_retry body is_json) = (map_sum id snd h, r', s')" for x
    using o(2) by (cases h) (auto split: prod.split)
  ultimately have "requests_auto_loop sleep get_result attempt r s = (handled res r, r', s')"
    by (subst requests_auto_loop.simps,
        unfold r1_def [symmetric] Let_def assms(2) prod.case sum.case split rs(1) h) simp
  moreover have "hr_can_retry r' = hr_can_retry r" "hr_base r' = hr_base r"
    using hr_can_retry_handle [OF h] hr_base_handle [OF h] by (simp_all add: r1_def)
  ultimately show ?thesis using o(1) by blast
qed

lemma loop_retry:
  fixes attempt :: "32 word" and r :: http_runner and get_result :: "'s \<Rightarrow> ('x + http_result \<times> int) \<times> 's"
  assumes "retryable res" and "get_result s = (Inr (res, t), s')"
  defines "r1 \<equiv> (if unat attempt = ro_retries (hr_base r) mod 2 ^ 32 then r\<lparr>hr_failure := True\<rparr> else r)"
  shows "requests_auto_loop sleep get_result attempt r s =
    (if hr_can_retry r1 \<and> \<not> hr_failure r1
     then requests_auto_loop sleep get_result (attempt + 1) r1
       (if attempt \<noteq> 0 \<and> ro_retrytime (hr_base r1) - t > 0 then sleep (ro_retrytime (hr_base r1) - t) s' else s')
     else (Inl (final_error res), r1, s'))"
proof -
  have q: "(case res of Inr rs \<Rightarrow> handle_response rs True r1 | Inl e \<Rightarrow> (Inr (True, [], False), r1)) = (Inr (True, [], False), r1)"
    using assms(1) by (cases res) (auto simp: retryable_def handle_retryable)
  show ?thesis
    by (subst requests_auto_loop.simps, unfold r1_def [symmetric] Let_def assms(2) prod.case sum.case split q)
      (auto simp: handle_non_response_def final_error_def split: sum.split http_error.split)
qed

text \<open>How long the runner sleeps after failed attempts: until the retry time since the attempt began is over.\<close>

fun naps :: "int \<Rightarrow> (http_result \<times> int) list \<Rightarrow> int list" where
  "naps retry_time [] = []"
| "naps retry_time ((res, elapsed) # sc) =
     (if retry_time - elapsed > 0 then [retry_time - elapsed] else []) @ naps retry_time sc"

lemma loop_spec:
  fixes attempt :: "32 word"
  assumes "ro_retries (hr_base r) < 2 ^ 32" and "unat attempt \<le> ro_retries (hr_base r)"
    and "retries_left attempt r < length sc"
  shows "case (requests_auto_loop log_sleep scripted attempt r (sc, lg) :: ('x http_exn + string \<times> bool) \<times> http_runner \<times> script) of
    (res, r', sc', lg') \<Rightarrow>
    (let n = retries_left attempt r; k = length (takeWhile (retryable \<circ> fst) sc); retried = take (min k n) sc in
     res = (if k \<le> n then handled (fst (sc ! k)) r else Inl (final_error (fst (sc ! n)))) \<and>
     sc' = drop (Suc (min k n)) sc \<and>
     lg' = lg @ naps (ro_retrytime (hr_base r)) (if attempt = 0 then tl retried else retried) \<and>
     (k \<le> n \<longrightarrow> \<not> hr_failure r') \<and> (n < k \<longrightarrow> hr_can_retry r \<longrightarrow> hr_failure r'))"
  using assms
proof (induction sc arbitrary: attempt r lg)
  case (Cons x sc)
  obtain res t where x: "x = (res, t)" by force
  have g: "(scripted :: script \<Rightarrow> ('x + http_result \<times> int) \<times> script) (x # sc, lg) = (Inr (res, t), (sc, lg))" by (simp add: scripted_def x)
  show ?case
  proof (cases "retryable res")
    case False
    from loop_stop [where get_result = scripted and s = "(x # sc, lg)" and sleep = log_sleep and attempt = attempt and r = r, OF this g] obtain r' where
      "requests_auto_loop log_sleep scripted attempt r (x # sc, lg) = (handled res r :: 'x http_exn + string \<times> bool, r', (sc, lg)) \<and> \<not> hr_failure r'" by blast
    then show ?thesis using False by (simp add: x Let_def)
  next
    case True
    define r1 where "r1 = (if unat attempt = ro_retries (hr_base r) mod 2 ^ 32 then r\<lparr>hr_failure := True\<rparr> else r)"
    note step = loop_retry [where get_result = scripted and s = "(x # sc, lg)", OF True g, of log_sleep attempt r, folded r1_def]
    have m: "ro_retries (hr_base r) mod 2 ^ 32 = ro_retries (hr_base r)" using Cons.prems(1) by simp
    show ?thesis
    proof (cases "hr_can_retry r1 \<and> \<not> hr_failure r1")
      case False
      then have "retries_left attempt r = 0" "hr_can_retry r \<longrightarrow> hr_failure r1"
        unfolding retries_left_def r1_def m by (auto split: if_splits)
      moreover have "requests_auto_loop log_sleep scripted attempt r (x # sc, lg) =
          (Inl (final_error res) :: 'x http_exn + string \<times> bool, r1, (sc, lg))"
        unfolding step using False by (simp only: if_False)
      ultimately show ?thesis using True by (simp add: x Let_def)
    next
      case can: True
      then have ne: "unat attempt \<noteq> ro_retries (hr_base r)" and r1: "r1 = r"
        unfolding r1_def m by (auto split: if_splits)
      have lt: "unat attempt < ro_retries (hr_base r)" using ne Cons.prems(2) by simp
      then have "unat attempt + 1 < 2 ^ 32" using Cons.prems(1) by linarith
      then have a1: "unat (attempt + 1) = unat attempt + 1" by (simp add: unat_word_ariths)
      then have nz: "attempt + 1 \<noteq> 0" by auto
      have left: "retries_left attempt r = Suc (retries_left (attempt + 1) r)"
        using can lt by (simp add: retries_left_def r1 a1)
      define lg' where "lg' = lg @ (if attempt \<noteq> 0 \<and> ro_retrytime (hr_base r) - t > 0 then [ro_retrytime (hr_base r) - t] else [])"
      obtain out :: "('x http_exn + string \<times> bool) \<times> http_runner \<times> script"
        where out: "requests_auto_loop log_sleep scripted (attempt + 1) r (sc, lg') = out" by simp
      have "unat (attempt + 1) \<le> ro_retries (hr_base r)" "retries_left (attempt + 1) r < length sc"
        using lt a1 left Cons.prems(3) by simp_all
      note IH = Cons.IH [OF Cons.prems(1) this, of lg', unfolded out]
      have "(if attempt \<noteq> 0 \<and> ro_retrytime (hr_base r1) - t > 0 then log_sleep (ro_retrytime (hr_base r1) - t) (sc, lg) else (sc, lg)) = (sc, lg')"
        by (simp add: lg'_def log_sleep_def r1)
      then have "requests_auto_loop log_sleep scripted attempt r (x # sc, lg) = out"
        unfolding step using can out by (simp add: r1)
      then show ?thesis using IH True left nz by (cases out) (simp add: x Let_def lg'_def)
    qed
  qed
qed simp

text \<open>C14: DoRequestsAuto asks again after every attempt without a response or with the status 500 or 503, as long as retries are left (none when retrying is off or the runner is in its failure state). It returns or throws what the first other response gives, or else the error of the last attempt; it makes exactly that many requests. It does not sleep after the first of them, and after every other failed one that is retried it sleeps until the retry time since its start is over. A success clears the failure state, running out of retries sets it.\<close>

theorem http_retries:
  fixes res :: "'x http_exn + string \<times> bool"
  assumes "ro_retries (hr_base r) < 2 ^ 32"
    and "n = (if hr_can_retry r \<and> \<not> hr_failure r then ro_retries (hr_base r) else 0)" and "n < length sc"
    and "k = length (takeWhile (retryable \<circ> fst) sc)"
    and "do_requests_auto log_sleep scripted r (sc, lg) = (res, r', sc', lg')"
  shows "res = (if k \<le> n then handled (fst (sc ! k)) r else Inl (final_error (fst (sc ! n)))) \<and>
     sc' = drop (Suc (min k n)) sc \<and> lg' = lg @ naps (ro_retrytime (hr_base r)) (tl (take (min k n) sc)) \<and>
     (k \<le> n \<longrightarrow> \<not> hr_failure r') \<and> (n < k \<longrightarrow> hr_can_retry r \<longrightarrow> hr_failure r')"
proof -
  have n: "retries_left 0 r = n" by (simp add: retries_left_def assms(2))
  show ?thesis using loop_spec [where 'x = 'x, OF assms(1), of 0 sc lg] assms(3-5) unfolding do_requests_auto_def n
    by (simp add: Let_def)
qed

text \<open>A request that need not be retried, or may not be, is made once.\<close>

lemma auto_once:
  fixes get_result :: "'s \<Rightarrow> ('x + http_result \<times> int) \<times> 's"
  assumes "\<not> hr_can_retry r \<or> \<not> retryable res" and "get_result s = (Inr (res, t), s')"
  shows "\<exists>r'. do_requests_auto sleep get_result r s = (if retryable res then Inl (final_error res) else handled res r, r', s') \<and>
    hr_can_retry r' = hr_can_retry r \<and> hr_base r' = hr_base r"
proof (cases "retryable res")
  case True
  then show ?thesis using loop_retry [where get_result = get_result and s = s, OF True assms(2), of sleep 0 r] assms(1)
    by (auto simp: do_requests_auto_def)
next
  case False
  then show ?thesis using loop_stop [where get_result = get_result and s = s and sleep = sleep and attempt = 0 and r = r, OF False assms(2)] by (auto simp: do_requests_auto_def)
qed

definition ex_runner :: http_runner where
  "ex_runner = (http_runner_new ''http://host/api'' runner_default http_default)\<lparr>hr_can_retry := True\<rparr>"

definition ex_response :: "nat \<Rightarrow> response" where
  "ex_response status = \<lparr>rs_status = status, rs_location = [], rs_content_type = None, rs_redirect = None, rs_body = ''ok''\<rparr>"

lemma http_retries_witness:
  "fst (do_requests_auto log_sleep scripted ex_runner
      ([(Inl ConnectionError, 0), (Inr (ex_response 503), 1), (Inr (ex_response 200), 0), (Inl NoError, 0), (Inl NoError, 0)], [])) =
   (Inr (''ok'', False) :: unit http_exn + string \<times> bool)"
proof -
  let ?sc = "[(Inl ConnectionError, 0 :: int), (Inr (ex_response 503), 1), (Inr (ex_response 200), 0), (Inl NoError, 0), (Inl NoError, 0)]"
  obtain res :: "unit http_exn + string \<times> bool" and r' sc' lg'
    where d: "do_requests_auto log_sleep scripted ex_runner (?sc, []) = (res, r', sc', lg')"
    by (metis prod_cases4)
  have f: "hr_can_retry ex_runner" "\<not> hr_failure ex_runner" "ro_retries (hr_base ex_runner) = 4"
    by (simp_all add: ex_runner_def http_runner_new_def initialize_client_def runner_default_def split: prod.split)
  have k: "2 = length (takeWhile (retryable \<circ> fst) ?sc)"
    by (simp add: retryable_def ex_response_def)
  have "handled (Inr (ex_response 200)) ex_runner = (Inr (''ok'', False) :: unit http_exn + string \<times> bool)"
    by (simp add: handled_def handle_response_def ex_response_def Let_def)
  moreover have "res = (if 2 \<le> (4 :: nat) then handled (fst (?sc ! 2)) ex_runner else Inl (final_error (fst (?sc ! 4))))"
    by (rule conjunct1 [OF http_retries [OF _ _ _ k d, of 4]]) (simp_all only: f, simp_all)
  ultimately have "res = Inr (''ok'', False)" by simp
  then show ?thesis unfolding d by simp
qed

section \<open>Streaming a response\<close>

text \<open>When retries are left, the body of a 500 or 503 response to a streamed request is handed to the streamer like data, before the request is made again.\<close>

theorem error_body_streamed:
  fixes s :: 's
  assumes "rs_status rs = 500 \<or> rs_status rs = 503" and "get_stream s = ((Inr (rs, chunks, None), elapsed), s')"
  shows "stream_attempt get_stream streamer True r s = ((Inr (Inr rs, True, elapsed), r, feed streamer 0 chunks s') ::
    (unit http_exn + http_result \<times> bool \<times> int) \<times> http_runner \<times> 's)"
  using assms by (simp add: stream_attempt_def handle_retryable)

lemma error_body_streamed_witness:
  "snd (snd (stream_attempt (\<lambda>s. ((Inr (ex_response 503, [[1, 2], [3]], None), 0), s)) (\<lambda>off d s. s @ d) True ex_runner [] ::
    (unit http_exn + http_result \<times> bool \<times> int) \<times> http_runner \<times> byte list)) = [1, 2, 3]"
  using error_body_streamed [of "ex_response 503" "\<lambda>s. ((Inr (ex_response 503, [[1, 2], [3]], None), 0), s)" "[]" "[[1, 2], [3]]" 0 "[]"
      "\<lambda>off d s. s @ d" ex_runner]
  by (simp add: ex_response_def)

section \<open>URLs\<close>

text \<open>A host with its protocol, as ParseURL returns it: two slashes after the protocol, no other.\<close>

definition proto_host :: "string \<Rightarrow> bool" where
  "proto_host h \<longleftrightarrow> (\<exists>p d. h = p @ ''://'' @ d \<and> CHR ''/'' \<notin> set p \<and> CHR ''/'' \<notin> set d)"

lemma str_find_append: "str_find t (a @ t @ b) \<noteq> None"
proof (induction a)
  case Nil
  have "starts_with (t @ b) t" by (induction t) auto
  then show ?case by (simp add: str_find.simps)
qed (auto simp: str_find.simps)

lemma split_proto:
  assumes "CHR ''/'' \<notin> set p" and "CHR ''/'' \<notin> set d"
  shows "split_pair (p @ ''://'' @ d @ ''/'' @ u) ''/'' 2 False = (p @ ''://'' @ d, u)"
    and "split_pair (p @ ''://'' @ d) ''/'' 2 False = (p @ ''://'' @ d, [])"
proof -
  have f1: "str_find ''/'' (p @ CHR '':'' # CHR ''/'' # x) = Some (length p + 1)" for x
    using find_char_Some [of "CHR ''/''" "p @ '':''" x] assms(1) by simp
  have f2: "str_find ''/'' (CHR ''/'' # x) = Some 0" for x using find_char_Some [of "CHR ''/''" "[]" x] by simp
  have f3: "str_find ''/'' (d @ CHR ''/'' # u) = Some (length d)" by (rule find_char_Some [OF assms(2)])
  have f4: "str_find ''/'' d = None" by (rule find_char_None [OF assms(2)])
  have "explode_loop ''/'' 2 2 (p @ ''://'' @ d @ ''/'' @ u) [] 0 [] =
      explode_loop ''/'' 2 2 (CHR ''/'' # d @ ''/'' @ u) (p @ '':/'') 1 []"
    by (subst explode_loop.simps) (simp add: f1 Let_def)
  also have "\<dots> = explode_loop ''/'' 2 2 (d @ ''/'' @ u) (p @ ''://'') (Suc (Suc 0)) []"
    by (subst explode_loop.simps) (simp add: f2 Let_def)
  also have "\<dots> = explode_loop ''/'' 2 2 u [] (Suc (Suc 0)) [p @ ''://'' @ d]"
    by (subst explode_loop.simps) (simp add: f3 Let_def)
  also have "\<dots> = [p @ ''://'' @ d, u]" by (subst explode_loop.simps) simp
  finally show "split_pair (p @ ''://'' @ d @ ''/'' @ u) ''/'' 2 False = (p @ ''://'' @ d, u)"
    by (simp add: split_pair_def explode_def)
  have "explode_loop ''/'' 2 2 (p @ ''://'' @ d) [] 0 [] = explode_loop ''/'' 2 2 (CHR ''/'' # d) (p @ '':/'') 1 []"
    by (subst explode_loop.simps) (simp add: f1 Let_def)
  also have "\<dots> = explode_loop ''/'' 2 2 d (p @ ''://'') (Suc (Suc 0)) []"
    by (subst explode_loop.simps) (simp add: f2 Let_def)
  also have "\<dots> = [p @ ''://'' @ d]" by (subst explode_loop.simps) (simp add: f4 Let_def)
  finally show "split_pair (p @ ''://'' @ d) ''/'' 2 False = (p @ ''://'' @ d, [])"
    by (simp add: split_pair_def explode_def)
qed

lemma parse_full_url_spec:
  assumes "proto_host h"
  shows "parse_full_url (h @ ''/'' @ u) = (h, if u \<noteq> [] \<and> hd u = CHR ''/'' then u else ''/'' @ u)"
    and "parse_full_url h = (h, ''/'')"
proof -
  obtain p d where h: "h = p @ ''://'' @ d" "CHR ''/'' \<notin> set p" "CHR ''/'' \<notin> set d"
    using assms by (auto simp: proto_host_def)
  have s: "str_find ''://'' (p @ ''://'' @ x) \<noteq> None" for x by (rule str_find_append)
  show "parse_full_url (h @ ''/'' @ u) = (h, if u \<noteq> [] \<and> hd u = CHR ''/'' then u else ''/'' @ u)"
    using split_proto(1) [OF h(2,3), of u] s [of "d @ ''/'' @ u"]
    by (cases u) (auto simp: parse_full_url_def h(1) starts_with_impl_def)
  show "parse_full_url h = (h, ''/'')"
    using split_proto(2) [OF h(2,3)] s [of d]
    by (simp add: parse_full_url_def h(1) starts_with_impl_def)
qed

text \<open>The URL that a runner gives to its clone leads the clone to the same host and path, unless the path begins with two slashes.\<close>

theorem clone_same_url:
  assumes "proto_host (hr_proto_host r)" and "hr_base_url r = ''/'' @ u" and "u = [] \<or> hd u \<noteq> CHR ''/''"
  shows "hr_proto_host (http_clone r) = hr_proto_host r \<and> hr_base_url (http_clone r) = hr_base_url r \<and>
    hr_client (http_clone r) = hr_proto_host r"
  using parse_full_url_spec(1) [OF assms(1), of u] assms(2,3)
  by (auto simp: http_clone_def http_runner_new_def get_full_url_def initialize_client_def)

lemma clone_same_url_witness:
  "hr_base_url (http_clone (http_runner_new ''https://host/andromeda/index.php'' runner_default http_default)) = ''/andromeda/index.php''"
proof -
  have h: "proto_host ''https://host''" unfolding proto_host_def
    by (intro exI [of _ "''https''"] exI [of _ "''host''"]) simp
  have n: "parse_full_url ''https://host/andromeda/index.php'' = (''https://host'', ''/andromeda/index.php'')"
    using parse_full_url_spec(1) [OF h, of "''andromeda/index.php''"] by simp
  let ?r = "http_runner_new ''https://host/andromeda/index.php'' runner_default http_default"
  have r: "hr_proto_host ?r = ''https://host''" "hr_base_url ?r = ''/andromeda/index.php''"
    by (simp_all add: http_runner_new_def n initialize_client_def)
  show ?thesis using clone_same_url [of ?r "''andromeda/index.php''"] h r by simp
qed

text \<open>After a redirect the runner and its client use the host of the new location and its path without parameters.\<close>

theorem redirect_registered:
  assumes "proto_host h" and "CHR ''?'' \<notin> set u" and "u = [] \<or> hd u \<noteq> CHR ''/''"
    and "hr_client r = hr_proto_host r"
  shows "register_redirect (h @ ''/'' @ u @ ''?'' @ params) r = r\<lparr>hr_proto_host := h, hr_client := h, hr_base_url := ''/'' @ u\<rparr>"
proof -
  have u: "u @ ''?'' @ params \<noteq> [] \<and> hd (u @ ''?'' @ params) \<noteq> CHR ''/''" using assms(3) by (cases u) auto
  have p: "parse_full_url (h @ ''/'' @ u @ ''?'' @ params) = (h, ''/'' @ u @ ''?'' @ params)"
    unfolding parse_full_url_spec(1) [OF assms(1)] using u by simp
  have f: "str_find ''?'' ((''/'' @ u) @ CHR ''?'' # params) = Some (length (''/'' @ u))"
    by (rule find_char_Some) (use assms(2) in simp)
  then have "strip_params (''/'' @ u @ ''?'' @ params) = ''/'' @ u" by (simp add: strip_params_def)
  then show ?thesis using assms(4) p
    by (cases r) (auto simp: register_redirect_def initialize_client_def Let_def)
qed

lemma redirect_registered_witness:
  "hr_base_url (register_redirect ''https://other/new?api&x=1'' ex_runner) = ''/new''"
proof -
  have h: "proto_host ''https://other''" unfolding proto_host_def
    by (intro exI [of _ "''https''"] exI [of _ "''other''"]) simp
  have "hr_client ex_runner = hr_proto_host ex_runner"
    by (simp add: ex_runner_def http_runner_new_def initialize_client_def split: prod.split)
  from redirect_registered [OF h _ _ this, of "''new''" "''api&x=1''"] show ?thesis by simp
qed

definition byte_char :: "byte \<Rightarrow> char" where
  "byte_char b = char_of (unat b)"

lemma byte_char_byte [simp]: "byte_char (char_byte c) = c"
  by (simp add: byte_char_def char_byte_def unat_of_nat)

text \<open>The server can read every data parameter of a GET request: decoding the X-Andromeda headers gives the values back, in order.\<close>

theorem data_headers_decode:
  "map (\<lambda>(k, v). map byte_char (b64_decode v)) (tl (fst (setup_request query user_agent input True r))) = map snd (ri_data input)"
  by (simp add: setup_request_def b64_decode_encode_spec comp_def split_def)

end
