(* ===== verification/Backend_Api.thy ===== *)
theory Backend_Api
  imports Http_Runner Runner_Input "HOL-Library.AList"
begin

text \<open>
  BackendImpl and Config (src/lib/andromeda/backend): the requests of the API, the session that
  goes with them, and the errors a response may carry. The runner is a parameter, and so are
  parsing JSON and the encryption demo of Authenticate, whose keys are not used.
\<close>

section \<open>JSON values\<close>

text \<open>nlohmann::json with integer numbers; an access that fails throws json::exception, here None.\<close>

datatype json = JNull | JBool bool | JInt int | JStr string | JList "json list" | JObj "(string \<times> json) list"

fun json_at :: "string \<Rightarrow> json \<Rightarrow> json option" where
  "json_at k (JObj kvs) = map_of kvs k"
| "json_at k _ = None"

fun json_bool :: "json \<Rightarrow> bool option" where
  "json_bool (JBool b) = Some b"
| "json_bool _ = None"

fun json_int :: "json \<Rightarrow> int option" where
  "json_int (JInt i) = Some i"
| "json_int (JBool b) = Some (if b then 1 else 0)"
| "json_int _ = None"

fun json_str :: "json \<Rightarrow> string option" where
  "json_str (JStr s) = Some s"
| "json_str _ = None"

section \<open>The code\<close>

text \<open>The exceptions of BackendImpl and Config; RunnerError is any other of the runner.\<close>

datatype api_exn =
    JsonException | UnsupportedException | DeniedException string | AuthenticationFailed | TwoFactorRequired
  | ReadOnlyFSException string | NotFoundException string | APIException int string | InputSize
  | ReadSizeException nat nat | ReadOnlyException | WriteSizeException | APIVersionException | AppMissing string
  | RunnerError string

type_synonym ('a, 'b) api = "(api_exn + 'a) \<times> 'b"

fun bindA :: "('a, 'b) api \<Rightarrow> ('a \<Rightarrow> 'b \<Rightarrow> ('c, 'b) api) \<Rightarrow> ('c, 'b) api" where
  "bindA (Inl e, b) f = (Inl e, b)"
| "bindA (Inr x, b) f = f x b"

text \<open>What json::exception becomes.\<close>

definition json_result :: "'a option \<Rightarrow> 'b \<Rightarrow> ('a, 'b) api" where
  "json_result x b = (case x of None \<Rightarrow> (Inl JsonException, b) | Some y \<Rightarrow> (Inr y, b))"

text \<open>The error response with a code and a message, of which the part before a colon counts.\<close>

definition error_exception :: "int \<Rightarrow> string \<Rightarrow> api_exn" where
  "error_exception code msg =
     (let message = fst (split_pair msg '':'' 0 False) in
      if code = 400 \<and> message = ''FILESYSTEM_MISMATCH'' then UnsupportedException
      else if code = 400 \<and> message = ''STORAGE_FOLDERS_UNSUPPORTED'' then UnsupportedException
      else if code = 400 \<and> message = ''ACCOUNT_CRYPTO_NOT_UNLOCKED'' then DeniedException message
      else if code = 400 \<and> message = ''INPUT_FILE_MISSING'' then InputSize
      else if code = 403 \<and> message = ''AUTHENTICATION_FAILED'' then AuthenticationFailed
      else if code = 403 \<and> message = ''TWOFACTOR_REQUIRED'' then TwoFactorRequired
      else if code = 403 \<and> message = ''READ_ONLY_DATABASE'' then ReadOnlyFSException ''Database''
      else if code = 403 \<and> message = ''READ_ONLY_STORAGE'' then ReadOnlyFSException ''Storage''
      else if code = 403 then DeniedException message
      else if code = 404 then NotFoundException message
      else APIException code message)"

text \<open>GetJSON.\<close>

definition get_json :: "(string \<Rightarrow> json option) \<Rightarrow> string \<Rightarrow> api_exn + json" where
  "get_json parse resp =
     (case parse resp of
        None \<Rightarrow> Inl JsonException
      | Some val \<Rightarrow>
          (case Option.bind (json_at ''ok'' val) json_bool of
             None \<Rightarrow> Inl JsonException
           | Some ok \<Rightarrow>
               if ok then (case json_at ''appdata'' val of None \<Rightarrow> Inl JsonException | Some d \<Rightarrow> Inr d)
               else (case Option.bind (json_at ''code'' val) json_int of
                       None \<Rightarrow> Inl JsonException
                     | Some code \<Rightarrow>
                         (case Option.bind (json_at ''message'' val) json_str of
                            None \<Rightarrow> Inl JsonException
                          | Some msg \<Rightarrow> Inl (error_exception code msg)))))"

text \<open>
  A runner. A file stream is a callback with the state that SendFile keeps between its calls:
  streamCont and streamSize.
\<close>

type_synonym send_state = "bool \<times> nat"

type_synonym send_func = "nat \<Rightarrow> nat \<Rightarrow> send_state \<Rightarrow> (bool \<times> bytes, send_state) api"

record 's runner_ops =
  rn_read :: "runner_input \<Rightarrow> 's \<Rightarrow> (string, 's) api"
  rn_write :: "runner_input \<Rightarrow> 's \<Rightarrow> (string, 's) api"
  rn_files_in :: "runner_input \<Rightarrow> (string \<times> string \<times> string) list \<Rightarrow> 's \<Rightarrow> (string, 's) api"
  rn_stream_in :: "runner_input \<Rightarrow> string \<times> string \<times> send_func \<Rightarrow> send_state \<Rightarrow> 's \<Rightarrow> (string, send_state \<times> 's) api"
  rn_stream_out :: "runner_input \<Rightarrow> 's \<Rightarrow> (api_exn option \<times> (nat \<times> bytes) list) \<times> 's"
  rn_requires_session :: bool
  rn_hostname :: string
  rn_parse :: "string \<Rightarrow> json option"

text \<open>
  RunAction_StreamIn of an HTTPRunner as such an operation: the runner is part of the environment. Of its other
  exceptions only the texts that the code gives them are kept.
\<close>

fun api_error :: "api_exn http_exn \<Rightarrow> api_exn" where
  "api_error (Callback e) = e"
| "api_error InputSizeException = InputSize"
| "api_error (EndpointText t) = RunnerError t"
| "api_error (RedirectException l) = RunnerError (''30X Redirected: '' @ l)"
| "api_error _ = RunnerError []"

definition http_stream_in :: "(int \<Rightarrow> 'w \<Rightarrow> 'w) \<Rightarrow> ((string \<times> string) list \<Rightarrow> string) \<Rightarrow> string \<Rightarrow>
    (string \<Rightarrow> string \<Rightarrow> (string \<times> string) list \<Rightarrow> (string \<times> string \<times> string) list \<Rightarrow>
       (string \<times> (api_exn, send_state) provider \<times> string) list \<Rightarrow> send_state \<times> 'w \<Rightarrow> (api_exn + http_result \<times> int) \<times> send_state \<times> 'w) \<Rightarrow>
    runner_input \<Rightarrow> string \<times> string \<times> send_func \<Rightarrow> send_state \<Rightarrow> http_runner \<times> 'w \<Rightarrow> (string, send_state \<times> http_runner \<times> 'w) api" where
  "http_stream_in sleep query user_agent post input file st env =
     (case run_action_stream_in (\<lambda>t (st, w). (st, sleep t w)) query user_agent post input [] [file] (fst env) (st, snd env) of
        (Inl e, r, st, w) \<Rightarrow> (Inl (api_error e), st, r, w)
      | (Inr (resp, is_json), r, st, w) \<Rightarrow> (Inr resp, st, r, w))"

text \<open>The state of BackendImpl and its Config; be_env is what the runner acts on.\<close>

record 's backend =
  be_memory :: bool
  be_quiet :: bool
  be_opt_readonly :: bool
  be_username :: string
  be_account_id :: string
  be_session_id :: string
  be_session_key :: string
  be_delete_session :: bool
  be_cfg_readonly :: bool
  be_rand_write :: bool
  be_upload_max :: nat
  be_env :: 's

definition is_read_only :: "'s backend \<Rightarrow> bool" where
  "is_read_only b \<longleftrightarrow> be_opt_readonly b \<or> be_cfg_readonly b"

definition get_name :: "'s runner_ops \<Rightarrow> bool \<Rightarrow> 's backend \<Rightarrow> string" where
  "get_name ops human b =
     (if be_username b = [] then rn_hostname ops
      else if human then be_username b @ '' on '' @ rn_hostname ops
      else rn_hostname ops @ ''_'' @ be_username b)"

definition api_input :: "string \<Rightarrow> string \<Rightarrow> (string \<times> string) list \<Rightarrow> (string \<times> string) list \<Rightarrow> runner_input" where
  "api_input app action plain data = \<lparr>ri_app = app, ri_action = action, ri_plain = plain, ri_data = data\<rparr>"

definition finalize_input :: "'s backend \<Rightarrow> runner_input \<Rightarrow> runner_input" where
  "finalize_input b input =
     (if be_session_id b \<noteq> []
      then input\<lparr>ri_data := AList.update ''auth_sessionkey'' (be_session_key b)
                    (AList.update ''auth_sessionid'' (be_session_id b) (ri_data input))\<rparr>
      else if be_username b \<noteq> [] then input\<lparr>ri_plain := AList.update ''auth_sudouser'' (be_username b) (ri_plain input)\<rparr>
      else input)"

definition on_env :: "('s \<Rightarrow> ('a, 's) api) \<Rightarrow> 's backend \<Rightarrow> ('a, 's backend) api" where
  "on_env f b = (case f (be_env b) of (r, s) \<Rightarrow> (r, b\<lparr>be_env := s\<rparr>))"

definition parsed :: "'s runner_ops \<Rightarrow> (string, 's backend) api \<Rightarrow> (json, 's backend) api" where
  "parsed ops r = bindA r (\<lambda>resp b. (get_json (rn_parse ops) resp, b))"

definition action_read_str :: "'s runner_ops \<Rightarrow> runner_input \<Rightarrow> 's backend \<Rightarrow> (string, 's backend) api" where
  "action_read_str ops input b = on_env (rn_read ops (finalize_input b input)) b"

definition action_read :: "'s runner_ops \<Rightarrow> runner_input \<Rightarrow> 's backend \<Rightarrow> (json, 's backend) api" where
  "action_read ops input b = parsed ops (on_env (rn_read ops (finalize_input b input)) b)"

definition action_write :: "'s runner_ops \<Rightarrow> runner_input \<Rightarrow> 's backend \<Rightarrow> (json, 's backend) api" where
  "action_write ops input b = parsed ops (on_env (rn_write ops (finalize_input b input)) b)"

definition action_files_in :: "'s runner_ops \<Rightarrow> runner_input \<Rightarrow> (string \<times> string \<times> string) list \<Rightarrow> 's backend \<Rightarrow>
    (json, 's backend) api" where
  "action_files_in ops input files b = parsed ops (on_env (rn_files_in ops (finalize_input b input) files) b)"

definition action_stream_in :: "'s runner_ops \<Rightarrow> runner_input \<Rightarrow> string \<times> string \<times> send_func \<Rightarrow> send_state \<Rightarrow> 's backend \<Rightarrow>
    (json, 's backend) api \<times> send_state" where
  "action_stream_in ops input file st b =
     (case rn_stream_in ops (finalize_input b input) file st (be_env b) of
        (Inl e, st, s) \<Rightarrow> ((Inl e, b\<lparr>be_env := s\<rparr>), st)
      | (Inr resp, st, s) \<Rightarrow> ((get_json (rn_parse ops) resp, b\<lparr>be_env := s\<rparr>), st))"

text \<open>CloseSession, StoreSession (into the two fields of a SessionStore), LoadAccountPolicy does nothing.\<close>

definition close_session :: "'s runner_ops \<Rightarrow> 's backend \<Rightarrow> (unit, 's backend) api" where
  "close_session ops b =
     bindA (if be_delete_session b then bindA (action_write ops (api_input ''accounts'' ''deleteclient'' [] []) b) (\<lambda>_ b. (Inr (), b))
            else (Inr (), b))
       (\<lambda>_ b. (Inr (), b\<lparr>be_delete_session := False, be_username := [], be_session_id := [], be_session_key := []\<rparr>))"

definition store_session :: "'s backend \<Rightarrow> (string \<times> string) option \<times> 's backend" where
  "store_session b =
     (if be_session_id b = [] then None else Some (be_session_id b, be_session_key b), b\<lparr>be_delete_session := False\<rparr>)"

definition authenticate :: "'s runner_ops \<Rightarrow> string \<Rightarrow> string \<Rightarrow> string \<Rightarrow> 's backend \<Rightarrow> (unit, 's backend) api" where
  "authenticate ops username password twofactor b =
     bindA (close_session ops b) (\<lambda>_ b.
     bindA (action_write ops (api_input ''accounts'' ''createsession'' [(''username'', username)]
              ((''auth_password'', password) # (if twofactor \<noteq> [] then [(''auth_twofactor'', twofactor)] else []))) b) (\<lambda>resp b.
     let b = b\<lparr>be_delete_session := True\<rparr>;
         session = (\<lambda>k. Option.bind (json_at ''client'' resp) (\<lambda>c. Option.bind (json_at ''session'' c) (\<lambda>s.
                        Option.bind (json_at k s) json_str)))
     in bindA (json_result (Option.bind (json_at ''account'' resp) (\<lambda>a. Option.bind (json_at ''id'' a) json_str)) b) (\<lambda>aid b.
        bindA (json_result (session ''id'') (b\<lparr>be_account_id := aid\<rparr>)) (\<lambda>sid b.
        bindA (json_result (session ''authkey'') (b\<lparr>be_session_id := sid\<rparr>)) (\<lambda>key b.
        (Inr (), b\<lparr>be_session_key := key, be_username := username\<rparr>))))))"

text \<open>AuthInteractive; the two strings are what the user would type on the console.\<close>

definition auth_interactive :: "'s runner_ops \<Rightarrow> string \<Rightarrow> string \<Rightarrow> string \<Rightarrow> string \<Rightarrow> bool \<Rightarrow> 's backend \<Rightarrow> (unit, 's backend) api" where
  "auth_interactive ops typed_password typed_twofactor username password force b =
     bindA (close_session ops b) (\<lambda>_ b.
       if rn_requires_session ops \<or> force \<or> password \<noteq> []
       then if password = [] \<and> be_quiet b then (Inl AuthenticationFailed, b)
            else let pw = (if password = [] then typed_password else password) in
              case authenticate ops username pw [] b of
                (Inl TwoFactorRequired, b) \<Rightarrow>
                  if be_quiet b then (Inl TwoFactorRequired, b) else authenticate ops username pw typed_twofactor b
              | r \<Rightarrow> r
       else (Inr (), b\<lparr>be_username := username\<rparr>))"

definition pre_authenticate :: "'s runner_ops \<Rightarrow> string \<Rightarrow> string \<Rightarrow> 's backend \<Rightarrow> (unit, 's backend) api" where
  "pre_authenticate ops sid key b =
     bindA (close_session ops b) (\<lambda>_ b.
     bindA (action_read ops (api_input ''accounts'' ''getaccount'' [] []) (b\<lparr>be_session_id := sid, be_session_key := key\<rparr>)) (\<lambda>resp b.
     bindA (json_result (Option.bind (json_at ''id'' resp) json_str) b) (\<lambda>aid b.
     bindA (json_result (Option.bind (json_at ''username'' resp) json_str) (b\<lparr>be_account_id := aid\<rparr>)) (\<lambda>name b.
     (Inr (), b\<lparr>be_username := name\<rparr>)))))"

text \<open>Config::Config, from the two responses of the server.\<close>

definition api_major :: nat where
  "api_major = 0"

definition load_config :: "'s runner_ops \<Rightarrow> 's backend \<Rightarrow> (unit, 's backend) api" where
  "load_config ops b =
     bindA (action_read ops (api_input ''core'' ''getconfig'' [] []) b) (\<lambda>core b.
     bindA (action_read ops (api_input ''files'' ''getconfig'' [] []) b) (\<lambda>files b.
     bindA (json_result (Option.bind (json_at ''apiver'' core) json_str) b) (\<lambda>apiver b.
       case explode apiver ''.'' 0 False (2 ^ 64 - 1) of
         [] \<Rightarrow> (Inl APIVersionException, b)
       | v # _ \<Rightarrow>
           if stoul v = None \<or> the (stoul v) mod 2 ^ 32 \<noteq> api_major then (Inl APIVersionException, b)
           else bindA (json_result (json_at ''apps'' core) b) (\<lambda>apps b.
                case find (\<lambda>app. json_at app apps = None) [''core'', ''accounts'', ''files''] of
                  Some app \<Rightarrow> (Inl (AppMissing app), b)
                | None \<Rightarrow>
                    bindA (json_result (Option.bind (json_at ''read_only'' core) json_bool) b) (\<lambda>ro b.
                    bindA (json_result (json_at ''upload_maxbytes'' files) (b\<lparr>be_cfg_readonly := ro\<rparr>)) (\<lambda>maxbytes b.
                      if maxbytes = JNull then (Inr (), b)
                      else bindA (json_result (json_int maxbytes) b) (\<lambda>n b. (Inr (), b\<lparr>be_upload_max := nat (n mod 2 ^ 64)\<rparr>))))))))"

text \<open>Requests that read. In memory mode (a debugging aid) nothing is sent.\<close>

definition empty_folder :: "string \<Rightarrow> json" where
  "empty_folder fid = JObj [(''id'', JStr fid), (''files'', JObj []), (''folders'', JObj [])]"

definition get_account_policy :: "'s runner_ops \<Rightarrow> 's backend \<Rightarrow> (json, 's backend) api" where
  "get_account_policy ops b =
     (if be_account_id b = [] then (Inr JNull, b)
      else action_read ops (api_input ''files'' ''getpolicy'' [(''account'', be_account_id b)] []) b)"

definition get_folder :: "'s runner_ops \<Rightarrow> string \<Rightarrow> 's backend \<Rightarrow> (json, 's backend) api" where
  "get_folder ops fid b =
     (if be_memory b then (Inr (empty_folder fid), b)
      else action_read ops (api_input ''files'' ''getfolder'' [(''folder'', fid)] []) b)"

definition get_root_folder :: "'s runner_ops \<Rightarrow> string \<Rightarrow> 's backend \<Rightarrow> (json, 's backend) api" where
  "get_root_folder ops fid b =
     (if be_memory b then (Inr (empty_folder fid), b)
      else action_read ops (api_input ''files'' ''getfolder'' [(''storage'', fid)] []) b)"

definition get_storage :: "'s runner_ops \<Rightarrow> string \<Rightarrow> 's backend \<Rightarrow> (json, 's backend) api" where
  "get_storage ops fid b =
     (if be_memory b \<and> fid = [] then (Inr JNull, b)
      else action_read ops (api_input ''files'' ''getstorage'' [(''storage'', fid)] []) b)"

definition get_storage_policy :: "'s runner_ops \<Rightarrow> string \<Rightarrow> 's backend \<Rightarrow> (json, 's backend) api" where
  "get_storage_policy ops fid b =
     (if be_memory b \<and> fid = [] then (Inr JNull, b)
      else action_read ops (api_input ''files'' ''getpolicy'' [(''storage'', fid)] []) b)"

definition get_storages :: "'s runner_ops \<Rightarrow> 's backend \<Rightarrow> (json, 's backend) api" where
  "get_storages ops b = action_read ops (api_input ''files'' ''getstorages'' [] []) b"

definition get_adopted :: "'s runner_ops \<Rightarrow> 's backend \<Rightarrow> (json, 's backend) api" where
  "get_adopted ops b = action_read ops (api_input ''files'' ''getadopted'' [] []) b"

text \<open>ReadFile into a string, and streamed: the callback counts the bytes and refuses too many.\<close>

definition range_input :: "string \<Rightarrow> nat \<Rightarrow> nat \<Rightarrow> runner_input" where
  "range_input fid offset len =
     api_input ''files'' ''download'' [(''file'', fid)]
       [(''fstart'', nat_str offset), (''flast'', nat_str (usub (uadd offset len) 1))]"

definition read_file :: "'s runner_ops \<Rightarrow> string \<Rightarrow> nat \<Rightarrow> nat \<Rightarrow> 's backend \<Rightarrow> (string, 's backend) api" where
  "read_file ops fid offset len b =
     (if len = 0 then (Inr [], b)
      else if be_memory b then (Inr (replicate len (CHR 0x00)), b)
      else bindA (action_read_str ops (range_input fid offset len) b) (\<lambda>data b.
             if length data \<noteq> len then (Inl (ReadSizeException len (length data)), b) else (Inr data, b)))"

text \<open>The pieces the streamed response hands to the callback, until it throws.\<close>

fun stream_pieces :: "(nat \<Rightarrow> bytes \<Rightarrow> 'u \<Rightarrow> 'u) \<Rightarrow> nat \<Rightarrow> (nat \<times> bytes) list \<Rightarrow> nat \<Rightarrow> 'u \<Rightarrow> (api_exn option \<times> nat) \<times> 'u" where
  "stream_pieces user len [] got u = ((None, got), u)"
| "stream_pieces user len ((soffset, buf) # ps) got u =
     (if soffset + length buf > len then ((Some (ReadSizeException len (soffset + length buf)), got), u)
      else stream_pieces user len ps (max got (soffset + length buf)) (user soffset buf u))"

definition read_file_stream :: "'s runner_ops \<Rightarrow> string \<Rightarrow> nat \<Rightarrow> nat \<Rightarrow> (nat \<Rightarrow> bytes \<Rightarrow> 'u \<Rightarrow> 'u) \<Rightarrow> 'u \<Rightarrow> 's backend \<Rightarrow>
    (unit, 's backend) api \<times> 'u" where
  "read_file_stream ops fid offset len user u b =
     (if len = 0 then ((Inr (), b), u)
      else if be_memory b then ((Inr (), b), user 0 (replicate len 0) u)
      else case rn_stream_out ops (finalize_input b (range_input fid offset len)) (be_env b) of
             ((err, pieces), s) \<Rightarrow>
               (case stream_pieces user len pieces 0 u of
                  ((Some e, _), u) \<Rightarrow> ((Inl e, b\<lparr>be_env := s\<rparr>), u)
                | ((None, got), u) \<Rightarrow>
                    (case err of
                       Some e \<Rightarrow> ((Inl e, b\<lparr>be_env := s\<rparr>), u)
                     | None \<Rightarrow> ((if got < len then Inl (ReadSizeException len got) else Inr (), b\<lparr>be_env := s\<rparr>), u))))"

text \<open>Requests that change something.\<close>

definition bool_str :: "bool \<Rightarrow> string" where
  "bool_str x = (if x then ''true'' else ''false'')"

definition modifying :: "json \<Rightarrow> ('s backend \<Rightarrow> (json, 's backend) api) \<Rightarrow> 's backend \<Rightarrow> (json, 's backend) api" where
  "modifying mem_result f b =
     (if is_read_only b then (Inl ReadOnlyException, b) else if be_memory b then (Inr mem_result, b) else f b)"

definition create_file :: "'s runner_ops \<Rightarrow> string \<Rightarrow> string \<Rightarrow> bool \<Rightarrow> 's backend \<Rightarrow> (json, 's backend) api" where
  "create_file ops parent name overwrite =
     modifying (JObj [(''id'', JStr []), (''name'', JStr name), (''size'', JInt 0), (''storage'', JStr []),
         (''date_created'', JInt 0), (''date_modified'', JNull), (''date_accessed'', JNull)])
       (action_files_in ops (api_input ''files'' ''upload'' [(''parent'', parent), (''overwrite'', bool_str overwrite)] [])
          [(''file'', name, [])])"

definition create_folder :: "'s runner_ops \<Rightarrow> string \<Rightarrow> string \<Rightarrow> 's backend \<Rightarrow> (json, 's backend) api" where
  "create_folder ops parent name =
     modifying (JObj [(''id'', JStr []), (''name'', JStr name), (''storage'', JStr []),
         (''dates'', JObj [(''created'', JInt 0), (''modified'', JNull), (''accessed'', JNull)]),
         (''files'', JObj []), (''folders'', JObj [])])
       (action_write ops (api_input ''files'' ''createfolder'' [(''parent'', parent)] [(''name'', name)]))"

text \<open>A missing item is as good as deleted.\<close>

definition ignore_not_found :: "(json, 's backend) api \<Rightarrow> (json, 's backend) api" where
  "ignore_not_found r = (case r of (Inl (NotFoundException _), b) \<Rightarrow> (Inr JNull, b) | _ \<Rightarrow> r)"

definition delete_file :: "'s runner_ops \<Rightarrow> string \<Rightarrow> 's backend \<Rightarrow> (json, 's backend) api" where
  "delete_file ops fid =
     modifying JNull (\<lambda>b. ignore_not_found (action_write ops (api_input ''files'' ''deletefile'' [(''file'', fid)] []) b))"

definition delete_folder :: "'s runner_ops \<Rightarrow> string \<Rightarrow> 's backend \<Rightarrow> (json, 's backend) api" where
  "delete_folder ops fid =
     modifying JNull (\<lambda>b. ignore_not_found (action_write ops (api_input ''files'' ''deletefolder'' [(''folder'', fid)] []) b))"

definition rename_file :: "'s runner_ops \<Rightarrow> string \<Rightarrow> string \<Rightarrow> bool \<Rightarrow> 's backend \<Rightarrow> (json, 's backend) api" where
  "rename_file ops fid name overwrite =
     modifying JNull (action_write ops (api_input ''files'' ''renamefile''
       [(''file'', fid), (''overwrite'', bool_str overwrite)] [(''name'', name)]))"

definition rename_folder :: "'s runner_ops \<Rightarrow> string \<Rightarrow> string \<Rightarrow> bool \<Rightarrow> 's backend \<Rightarrow> (json, 's backend) api" where
  "rename_folder ops fid name overwrite =
     modifying JNull (action_write ops (api_input ''files'' ''renamefolder''
       [(''folder'', fid), (''overwrite'', bool_str overwrite)] [(''name'', name)]))"

definition move_file :: "'s runner_ops \<Rightarrow> string \<Rightarrow> string \<Rightarrow> bool \<Rightarrow> 's backend \<Rightarrow> (json, 's backend) api" where
  "move_file ops fid parent overwrite =
     modifying JNull (action_write ops (api_input ''files'' ''movefile''
       [(''file'', fid), (''parent'', parent), (''overwrite'', bool_str overwrite)] []))"

definition move_folder :: "'s runner_ops \<Rightarrow> string \<Rightarrow> string \<Rightarrow> bool \<Rightarrow> 's backend \<Rightarrow> (json, 's backend) api" where
  "move_folder ops fid parent overwrite =
     modifying JNull (action_write ops (api_input ''files'' ''movefolder''
       [(''folder'', fid), (''parent'', parent), (''overwrite'', bool_str overwrite)] []))"

definition truncate_request :: "'s runner_ops \<Rightarrow> string \<Rightarrow> nat \<Rightarrow> 's backend \<Rightarrow> (json, 's backend) api" where
  "truncate_request ops fid size1 =
     modifying JNull (action_write ops (api_input ''files'' ''truncate'' [(''file'', fid)] [(''size'', nat_str size1)]))"

text \<open>
  SendFile: the callback that the request pulls, which starts at byte of the stream and ends a
  chunk at the upload limit.
\<close>

definition chunk_writer :: "write_func \<Rightarrow> nat \<Rightarrow> bool \<Rightarrow> nat \<Rightarrow> send_func" where
  "chunk_writer user max_size oneshot byte soffset buflen st =
     (let (stream_cont, sent) = st in
      if max_size \<noteq> 0 \<and> soffset \<ge> max_size
      then (if oneshot then (Inl WriteSizeException, st) else (Inr (False, []), st))
      else case user (soffset + byte) (if max_size \<noteq> 0 then min buflen max_size else buflen) of
             (again, buf) \<Rightarrow> (Inr (again, buf), (again, sent + length buf)))"

definition upload_minsize :: nat where "upload_minsize = 4096"

definition adjust_attempt :: "nat \<Rightarrow> nat" where "adjust_attempt n = n div 2"

text \<open>upload is the input of the first request when a file is created; the id of the file comes from every response.\<close>

definition send_request :: "(runner_input \<times> string \<times> string) option \<Rightarrow> string \<Rightarrow> nat \<Rightarrow> nat \<Rightarrow> runner_input \<times> string \<times> string" where
  "send_request upload fid offset byte =
     (case upload of
        Some u \<Rightarrow> if byte = 0 then u
                  else (api_input ''files'' ''writefile'' [(''file'', fid)] [(''offset'', nat_str (uadd offset byte))], ''data'', ''data'')
      | None \<Rightarrow> (api_input ''files'' ''writefile'' [(''file'', fid)] [(''offset'', nat_str (uadd offset byte))], ''data'', ''data''))"

partial_function (option) send_loop :: "'s runner_ops \<Rightarrow> write_func \<Rightarrow> nat \<Rightarrow> (runner_input \<times> string \<times> string) option \<Rightarrow> bool \<Rightarrow>
    string \<Rightarrow> nat \<Rightarrow> 's backend \<Rightarrow> (json, 's backend) api option" where
  "send_loop ops user offset upload oneshot fid byte b =
     (let max_size = be_upload_max b;
          (input, param, name) = send_request upload fid offset byte;
          (r, (stream_cont, sent)) =
            action_stream_in ops input (param, name, chunk_writer user max_size oneshot byte) (True, 0) b
      in case r of
           (Inr retval, b) \<Rightarrow>
             (case Option.bind (json_at ''id'' retval) json_str of
                None \<Rightarrow> Some (Inl JsonException, b)
              | Some fid \<Rightarrow>
                  if stream_cont then send_loop ops user offset upload oneshot fid (byte + sent) b
                  else Some (Inr retval, b))
         | (Inl e, b) \<Rightarrow>
             if e \<noteq> InputSize then Some (Inl e, b)
             else if max_size \<noteq> 0 \<and> max_size < upload_minsize then Some (Inl InputSize, b)
             else let b = b\<lparr>be_upload_max := adjust_attempt sent\<rparr> in
                  if oneshot then Some (Inl WriteSizeException, b)
                  else send_loop ops user offset upload oneshot fid byte b)"

text \<open>WriteFile and UploadFile of a stream; None is a loop without end.\<close>

definition write_file :: "'s runner_ops \<Rightarrow> string \<Rightarrow> nat \<Rightarrow> write_func \<Rightarrow> 's backend \<Rightarrow> (json, 's backend) api option" where
  "write_file ops fid offset user b =
     (if is_read_only b then Some (Inl ReadOnlyException, b)
      else if be_memory b then Some (Inr JNull, b)
      else send_loop ops user offset None False fid 0 b)"

definition upload_file :: "'s runner_ops \<Rightarrow> string \<Rightarrow> string \<Rightarrow> write_func \<Rightarrow> bool \<Rightarrow> bool \<Rightarrow> 's backend \<Rightarrow>
    (json, 's backend) api option" where
  "upload_file ops parent name user oneshot overwrite b =
     (if is_read_only b then Some (Inl ReadOnlyException, b)
      else if be_memory b
      then map_option (\<lambda>n. (Inr (JObj [(''id'', JStr []), (''name'', JStr name), (''size'', JInt (int n)), (''storage'', JStr []),
               (''dates'', JObj [(''created'', JInt 0), (''modified'', JNull), (''accessed'', JNull)])]), b)) (stream_size user)
      else send_loop ops user 0
             (Some (api_input ''files'' ''upload'' [(''parent'', parent), (''overwrite'', bool_str overwrite)] [], ''file'', name))
             oneshot [] 0 b)"

end
