(* ===== verification/Backend_Correct.thy ===== *)
theory Backend_Correct
  imports Backend_Api "HOL-Library.Code_Target_Nat"
begin

text \<open>
  What the requests of BackendImpl do: guards, sessions, streamed reads, and chunked uploads
  through HTTPRunner, when no request has to be retried.
\<close>

declare send_loop.simps [code]

section \<open>Guards\<close>

datatype change =
    CreateFile string string bool | CreateFolder string string | DeleteFile string | DeleteFolder string
  | RenameFile string string bool | RenameFolder string string bool | MoveFile string string bool
  | MoveFolder string string bool | TruncateFile string nat | WriteFile string nat write_func
  | UploadFile string string write_func bool bool

fun request_change :: "'s runner_ops \<Rightarrow> change \<Rightarrow> 's backend \<Rightarrow> (json, 's backend) api option" where
  "request_change ops (CreateFile p n ow) b = Some (create_file ops p n ow b)"
| "request_change ops (CreateFolder p n) b = Some (create_folder ops p n b)"
| "request_change ops (DeleteFile i) b = Some (delete_file ops i b)"
| "request_change ops (DeleteFolder i) b = Some (delete_folder ops i b)"
| "request_change ops (RenameFile i n ow) b = Some (rename_file ops i n ow b)"
| "request_change ops (RenameFolder i n ow) b = Some (rename_folder ops i n ow b)"
| "request_change ops (MoveFile i p ow) b = Some (move_file ops i p ow b)"
| "request_change ops (MoveFolder i p ow) b = Some (move_folder ops i p ow b)"
| "request_change ops (TruncateFile i n) b = Some (truncate_request ops i n b)"
| "request_change ops (WriteFile i off f) b = write_file ops i off f b"
| "request_change ops (UploadFile p n f os ow) b = upload_file ops p n f os ow b"

lemma modifying_guard:
  "is_read_only b \<Longrightarrow> modifying m f b = (Inl ReadOnlyException, b)"
  "be_memory b \<Longrightarrow> snd (modifying m f b) = b"
  by (simp_all add: modifying_def)

lemmas change_defs = create_file_def create_folder_def delete_file_def delete_folder_def rename_file_def rename_folder_def
  move_file_def move_folder_def truncate_request_def write_file_def upload_file_def

text \<open>C33: A read-only backend refuses every request that would change something before it sends anything, and in memory mode nothing is ever sent.\<close>

theorem changes_guarded:
  assumes "is_read_only b \<or> be_memory b"
  shows "case request_change ops c b of
      Some (r, b') \<Rightarrow> b' = b \<and> (is_read_only b \<longrightarrow> r = Inl ReadOnlyException)
    | None \<Rightarrow> \<not> is_read_only b"
proof (cases "is_read_only b")
  case True
  then show ?thesis by (cases c) (simp_all add: change_defs modifying_guard)
next
  case False
  then have m: "be_memory b" using assms by simp
  then show ?thesis using False modifying_guard(2) [OF m]
    by (cases c) (auto simp: change_defs modifying_def split: option.split)
qed

definition ex_backend :: "'s \<Rightarrow> 's backend" where
  "ex_backend s = \<lparr>be_memory = False, be_quiet = True, be_opt_readonly = False, be_username = [], be_account_id = [],
     be_session_id = [], be_session_key = [], be_delete_session = False, be_cfg_readonly = False, be_rand_write = True,
     be_upload_max = 0, be_env = s\<rparr>"

lemma changes_guarded_witness:
  "\<forall>ops :: unit runner_ops. delete_file ops ''f'' (ex_backend ()\<lparr>be_cfg_readonly := True\<rparr>) =
     (Inl ReadOnlyException, ex_backend ()\<lparr>be_cfg_readonly := True\<rparr>)"
proof
  fix ops :: "unit runner_ops"
  show "delete_file ops ''f'' (ex_backend ()\<lparr>be_cfg_readonly := True\<rparr>) =
     (Inl ReadOnlyException, ex_backend ()\<lparr>be_cfg_readonly := True\<rparr>)"
    using changes_guarded [of "ex_backend ()\<lparr>be_cfg_readonly := True\<rparr>" ops "DeleteFile ''f''"]
    by (auto simp: is_read_only_def split: prod.splits)
qed

section \<open>Sessions\<close>

lemma bindA_Inr: "bindA r f = (Inr y, b') \<longleftrightarrow> (\<exists>x b. r = (Inr x, b) \<and> f x b = (Inr y, b'))"
  by (cases r; cases "fst r") auto

lemma json_result_Inr: "json_result x b = (Inr y, b') \<longleftrightarrow> x = Some y \<and> b' = b"
  by (auto simp: json_result_def split: option.splits)

lemma map_of_update: "map_of (AList.update k v al) k' = (if k' = k then Some v else map_of al k')"
  by (simp add: update_conv')

text \<open>After a successful Authenticate the session is the client's to delete, and every request carries its id and key, whatever else it carries; after a successful CloseSession requests carry neither session nor user.\<close>

theorem session_of_requests:
  assumes "authenticate ops name pw tf b = (Inr (), b1)" and "be_session_id b1 \<noteq> []"
    and "close_session ops b1 = (Inr (), b2)"
  shows "be_delete_session b1 \<and> be_username b1 = name \<and>
    map_of (ri_data (finalize_input b1 input)) ''auth_sessionid'' = Some (be_session_id b1) \<and>
    map_of (ri_data (finalize_input b1 input)) ''auth_sessionkey'' = Some (be_session_key b1) \<and>
    ri_plain (finalize_input b1 input) = ri_plain input \<and>
    finalize_input b2 input = input \<and> \<not> be_delete_session b2"
proof -
  have "be_delete_session b1 \<and> be_username b1 = name"
    using assms(1) by (auto simp: authenticate_def bindA_Inr json_result_Inr Let_def)
  moreover have "finalize_input b2 input = input \<and> \<not> be_delete_session b2"
    using assms(3) by (auto simp: close_session_def bindA_Inr finalize_input_def)
  ultimately show ?thesis using assms(2) by (simp add: finalize_input_def map_of_update)
qed

text \<open>A server that answers every write with the same text; the JSON parser knows one document.\<close>

definition login_json :: json where
  "login_json = JObj [(''ok'', JBool True), (''appdata'', JObj [(''account'', JObj [(''id'', JStr ''a1'')]),
     (''client'', JObj [(''session'', JObj [(''id'', JStr ''s1''), (''authkey'', JStr ''k1'')])])])]"

definition login_ops :: "unit runner_ops" where
  "login_ops = \<lparr>rn_read = \<lambda>_ s. (Inr [], s), rn_write = \<lambda>_ s. (Inr [], s), rn_files_in = \<lambda>_ _ s. (Inr [], s),
     rn_stream_in = \<lambda>_ _ st s. (Inr [], st, s), rn_stream_out = \<lambda>_ s. ((None, []), s),
     rn_requires_session = True, rn_hostname = ''host'', rn_parse = \<lambda>_. Some login_json\<rparr>"

lemma session_of_requests_witness:
  "map_of (ri_data (finalize_input (snd (authenticate login_ops ''me'' ''pw'' [] (ex_backend ()))) (api_input ''files'' ''getfolder'' [] [])))
     ''auth_sessionkey'' = Some ''k1''"
proof -
  obtain r b where a: "authenticate login_ops ''me'' ''pw'' [] (ex_backend ()) = (r, b)" by force
  have r: "r = Inr ()" "be_session_id b = ''s1''" "be_session_key b = ''k1''"
    using a by (auto simp: authenticate_def close_session_def ex_backend_def action_write_def parsed_def on_env_def
        get_json_def login_ops_def login_json_def json_result_def Let_def)
  obtain r2 b2 where c: "close_session login_ops b = (r2, b2)" by force
  have "r2 = Inr ()"
    using c by (auto simp: close_session_def action_write_def parsed_def on_env_def get_json_def login_ops_def login_json_def
        split: if_splits)
  then show ?thesis using session_of_requests [OF a [unfolded r(1)]] c r a by simp
qed

section \<open>Streamed reads\<close>

text \<open>Pieces as HTTPRunner feeds them: each starts where the one before ended, or at 0 again.\<close>

fun in_runs :: "nat \<Rightarrow> (nat \<times> bytes) list \<Rightarrow> bool" where
  "in_runs cur [] \<longleftrightarrow> True"
| "in_runs cur ((off, buf) # ps) \<longleftrightarrow> (off = cur \<or> off = 0) \<and> in_runs (off + length buf) ps"

definition covered :: "(nat \<times> bytes) list \<Rightarrow> nat set" where
  "covered ps = (\<Union>(off, buf) \<in> set ps. {off..<off + length buf})"

lemma covered_Cons: "covered ((off, buf) # ps) = {off..<off + length buf} \<union> covered ps"
  by (simp add: covered_def)

lemma stream_pieces_spec:
  assumes "in_runs cur ps" and "cur \<le> got" and "got \<le> len"
    and "stream_pieces user len ps got u = ((None, got'), u')"
  shows "{..<got'} \<subseteq> {..<got} \<union> covered ps \<and> got' \<le> len \<and> covered ps \<subseteq> {..<len} \<and>
    u' = fold (\<lambda>(off, buf) u. user off buf u) ps u"
  using assms
proof (induction ps arbitrary: cur got u)
  case (Cons p ps)
  obtain off buf where p: "p = (off, buf)" by force
  have le: "off + length buf \<le> len" and rest: "stream_pieces user len ps (max got (off + length buf)) (user off buf u) = ((None, got'), u')"
    using Cons.prems(4) by (simp_all add: p split: if_splits)
  have run: "in_runs (off + length buf) ps" and o: "off = cur \<or> off = 0" using Cons.prems(1) by (simp_all add: p)
  note IH = Cons.IH [OF run _ _ rest]
  have "{..<max got (off + length buf)} \<subseteq> {..<got} \<union> {off..<off + length buf}"
    using o Cons.prems(2) by auto
  then show ?case using IH le Cons.prems(3) by (auto simp: p covered_Cons)
qed (auto simp: covered_def)

text \<open>C26: A streamed read that succeeds has handed every byte of the range to its callback, and none outside of it, however often the request was started over.\<close>

theorem read_file_stream_covers:
  assumes "rn_stream_out ops (finalize_input b (range_input fid off len)) (be_env b) = ((None, pieces), s)"
    and "in_runs 0 pieces" and "\<not> be_memory b" and "0 < len"
    and "read_file_stream ops fid off len user u b = ((Inr (), b'), u')"
  shows "covered pieces = {..<len} \<and> u' = fold (\<lambda>(o1, buf) u. user o1 buf u) pieces u"
proof -
  obtain e got u1 where p: "stream_pieces user len pieces 0 u = ((e, got), u1)" by (metis prod_cases3 surj_pair)
  have "e = None" "\<not> got < len" "u1 = u'"
    using assms p by (auto simp: read_file_stream_def split: option.splits if_splits)
  then show ?thesis using stream_pieces_spec [OF assms(2), of 0 len user u got u1] p by fastforce
qed

lemma read_file_stream_covers_witness:
  "covered [(0, [1, 2]), (0, [1, 2]), (2, [3 :: byte])] = {..<3}"
proof -
  let ?ops = "login_ops\<lparr>rn_stream_out := \<lambda>_ s. ((None, [(0, [1, 2]), (0, [1, 2]), (2, [3])]), s)\<rparr>"
  have r: "read_file_stream ?ops ''f'' 0 3 (\<lambda>off buf u. u @ buf) [] (ex_backend ()) = ((Inr (), ex_backend ()), [1, 2, 1, 2, 3])"
    by (simp add: read_file_stream_def ex_backend_def)
  show ?thesis
    by (rule conjunct1 [OF read_file_stream_covers [OF _ _ _ _ r]]) (simp_all add: ex_backend_def)
qed

section \<open>Uploads in chunks\<close>

text \<open>
  Post of httplib with one content provider: it asks the provider until that says that there is no more, and then
  gets the answer of the server to the parts and the body. None is a stream without end.
\<close>

partial_function (option) pull_body :: "(api_exn, send_state) provider \<Rightarrow> nat \<Rightarrow> send_state \<Rightarrow> (bytes, send_state) api option" where
  "pull_body f off st =
     (case f off st of
        (Inl e, st) \<Rightarrow> Some (Inl e, st)
      | (Inr (again, buf), st) \<Rightarrow>
          if \<not> again then Some (Inr buf, st)
          else Option.bind (pull_body f (off + length buf) st) (\<lambda>(r, st).
                 Some (case r of Inl e \<Rightarrow> Inl e | Inr rest \<Rightarrow> Inr (buf @ rest), st)))"

declare pull_body.simps [code]

type_synonym parts = "(string \<times> string \<times> string) list"

definition posting :: "(parts \<Rightarrow> bytes \<Rightarrow> 'w \<Rightarrow> http_result \<times> 'w) \<Rightarrow> string \<Rightarrow> string \<Rightarrow> (string \<times> string) list \<Rightarrow> parts \<Rightarrow>
    (string \<times> (api_exn, send_state) provider \<times> string) list \<Rightarrow> send_state \<times> 'w \<Rightarrow> (api_exn + http_result \<times> int) \<times> send_state \<times> 'w" where
  "posting answer host url headers parts streams env =
     (case pull_body (fst (snd (hd streams))) 0 (fst env) of
        None \<Rightarrow> (Inl (RunnerError ''endless''), env)
      | Some (Inl e, st) \<Rightarrow> (Inl e, st, snd env)
      | Some (Inr body, st) \<Rightarrow> (case answer parts body (snd env) of (res, w) \<Rightarrow> (Inr (res, 0), st, w)))"

text \<open>The log of the server has the offset parameters and the bodies of the requests that it accepted.\<close>

type_synonym log = "(string option \<times> bytes) list"

definition offset_part :: "parts \<Rightarrow> string option" where
  "offset_part parts = map_of (map (\<lambda>(key, val, name). (key, val)) parts) ''offset''"

definition accepted :: "http_result \<Rightarrow> bool" where
  "accepted res = (case res of Inl _ \<Rightarrow> False | Inr rs \<Rightarrow> rs_status rs = 200)"

definition logging :: "(parts \<Rightarrow> bytes \<Rightarrow> log \<Rightarrow> http_result) \<Rightarrow> parts \<Rightarrow> bytes \<Rightarrow> log \<Rightarrow> http_result \<times> log" where
  "logging answer parts body lg =
     (let res = answer parts body lg in (res, if accepted res then lg @ [(offset_part parts, body)] else lg))"

text \<open>
  When the runner never has to ask twice: it may not retry (as it is while a program starts), or the server gives
  every request an answer that is neither 500 nor 503.
\<close>

definition asks_once :: "http_runner \<Rightarrow> (parts \<Rightarrow> bytes \<Rightarrow> log \<Rightarrow> http_result) \<Rightarrow> bool" where
  "asks_once r answer \<longleftrightarrow> \<not> hr_can_retry r \<or> (\<forall>parts body lg. \<not> retryable (answer parts body lg))"

text \<open>A request that the server finds too large is refused with the status 413, not with an error in JSON.\<close>

definition no_size_json :: "'s runner_ops \<Rightarrow> (parts \<Rightarrow> bytes \<Rightarrow> log \<Rightarrow> http_result) \<Rightarrow> bool" where
  "no_size_json ops answer \<longleftrightarrow>
     (\<forall>parts body lg rs. answer parts body lg = Inr rs \<longrightarrow> get_json (rn_parse ops) (rs_body rs) \<noteq> Inl InputSize)"







lemma handled_InputSize: "handled res r = Inl (e :: api_exn http_exn) \<Longrightarrow> api_error e = InputSize \<Longrightarrow> \<not> retryable res \<Longrightarrow> \<exists>rs. res = Inr rs \<and> rs_status rs = 413"
  by (cases res) (auto simp: handled_def handle_response_def redirect_exception_def retryable_def Let_def split: if_splits option.splits)

lemma handled_Inr: "handled res r = (Inr (resp, j) :: api_exn http_exn + string \<times> bool) \<Longrightarrow> \<not> retryable res \<Longrightarrow> \<exists>rs. res = Inr rs \<and> rs_status rs = 200 \<and> resp = rs_body rs"
  by (cases res) (auto simp: handled_def handle_response_def redirect_exception_def retryable_def Let_def split: if_splits option.splits)

lemma final_error_size: "api_error (final_error res) \<noteq> InputSize"
  by (auto simp: final_error_def split: sum.split http_error.split)

text \<open>A request whose stream gives a body: the server gets it once, and the runner says so.\<close>

lemma stream_once:
  fixes r :: http_runner
  assumes p: "pull_body (stream_provider (ro_bufsize (hr_base r)) f) 0 st = Some (Inr body, st')"
    and once: "asks_once r answer" and j: "no_size_json ops answer"
    and run: "http_stream_in sleep query ua (posting (logging answer)) input (param, name, f) st (r, lg) = (res, st1, r1, lg1)"
  shows "st1 = st' \<and> hr_can_retry r1 = hr_can_retry r \<and> hr_base r1 = hr_base r \<and>
    (case res of
       Inl e \<Rightarrow> lg1 = lg \<and> (e = InputSize \<longrightarrow> (\<exists>rs. answer (add_data_params input) body lg = Inr rs \<and> rs_status rs = 413))
     | Inr resp \<Rightarrow> lg1 = lg @ [(offset_part (add_data_params input), body)] \<and> get_json (rn_parse ops) resp \<noteq> Inl InputSize)"
proof -
  define ans where "ans = answer (add_data_params input) body lg"
  define lg' where "lg' = (if accepted ans then lg @ [(offset_part (add_data_params input), body)] else lg)"
  let ?get = "posting (logging answer) (hr_client r) (snd (setup_request query ua input False r)) (fst (setup_request query ua input False r))
     (add_data_params input @ add_file_params []) [(param, stream_provider (ro_bufsize (hr_base r)) f, name)]"
  have g: "?get (st, lg) = (Inr (ans, 0), st', lg')"
    using p by (simp add: posting_def logging_def ans_def lg'_def add_file_params_def Let_def)
  have nr: "\<not> hr_can_retry r \<or> \<not> retryable ans" using once by (auto simp: asks_once_def ans_def)
  obtain r' where d: "do_requests_auto (\<lambda>t (st, w). (st, sleep t w)) ?get r (st, lg) =
      (if retryable ans then Inl (final_error ans) else handled ans r, r', st', lg')"
    and r': "hr_can_retry r' = hr_can_retry r" "hr_base r' = hr_base r"
    using auto_once [where get_result = ?get and s = "(st, lg)" and sleep = "\<lambda>t (st, w). (st, sleep t w)", OF nr g] by blast
  have run': "run_action_stream_in (\<lambda>t (st, w). (st, sleep t w)) query ua (posting (logging answer)) input [] [(param, name, f)] r (st, lg) =
      (if retryable ans then Inl (final_error ans) else handled ans r, r', st', lg')"
    using d by (simp add: run_action_stream_in_def case_prod_beta Let_def)
  show ?thesis
  proof (cases "retryable ans")
    case True
    then have "lg' = lg" by (auto simp: lg'_def retryable_def accepted_def split: sum.splits)
    then show ?thesis using run r' True final_error_size [of ans] by (auto simp: http_stream_in_def run')
  next
    case False
    show ?thesis
    proof (cases "handled ans r :: api_exn http_exn + string \<times> bool")
      case (Inl e)
      have na: "\<not> accepted ans" using Inl False
        by (cases ans) (auto simp: accepted_def handled_def handle_response_def Let_def split: if_splits)
      have "\<exists>rs. ans = Inr rs \<and> rs_status rs = 413" if "api_error e = InputSize"
        using handled_InputSize [OF Inl that False] .
      then show ?thesis using run r' False Inl na by (auto simp: http_stream_in_def run' lg'_def ans_def)
    next
      case (Inr x)
      obtain resp isj where x: "x = (resp, isj)" by force
      obtain rs where rs: "ans = Inr rs" "rs_status rs = 200" "resp = rs_body rs" using handled_Inr [OF Inr [unfolded x] False] by blast
      have "get_json (rn_parse ops) resp \<noteq> Inl InputSize" using j rs unfolding no_size_json_def ans_def by blast
      then show ?thesis using run r' False Inr rs by (auto simp: http_stream_in_def run' lg'_def accepted_def x)
    qed
  qed
qed






definition file_json :: json where
  "file_json = JObj [(''ok'', JBool True), (''appdata'', JObj [(''id'', JStr ''f1'')])]"

text \<open>A server with a limit on the size of a request, and the runner that talks to it.\<close>

definition limited :: "nat \<Rightarrow> parts \<Rightarrow> bytes \<Rightarrow> 'w \<Rightarrow> http_result" where
  "limited limit parts body w = Inr (ex_response (if limit < length body then 413 else 200))"

definition upload_runner :: "nat \<Rightarrow> http_runner" where
  "upload_runner n = ex_runner\<lparr>hr_base := runner_default\<lparr>ro_bufsize := n\<rparr>\<rparr>"

definition upload_ops :: "(parts \<Rightarrow> bytes \<Rightarrow> 'w \<Rightarrow> http_result \<times> 'w) \<Rightarrow> (http_runner \<times> 'w) runner_ops" where
  "upload_ops server =
     \<lparr>rn_read = \<lambda>_ s. (Inr [], s), rn_write = \<lambda>_ s. (Inr [], s), rn_files_in = \<lambda>_ _ s. (Inr [], s),
      rn_stream_in = http_stream_in (\<lambda>_ w. w) (\<lambda>_. []) [] (posting server), rn_stream_out = \<lambda>_ s. ((None, []), s),
      rn_requires_session = True, rn_hostname = ''host'', rn_parse = \<lambda>_. Some file_json\<rparr>"

lemma upload_ops_json: "get_json (rn_parse (upload_ops server)) resp = Inr (JObj [(''id'', JStr ''f1'')])"
  by (simp add: upload_ops_def get_json_def file_json_def)


lemma limited_once: "\<not> retryable (limited limit parts body w)"
  by (simp add: limited_def retryable_def ex_response_def)






lemma refused_byte_loops:
  assumes "send_loop ops user offset upload oneshot fid byte b = Some y"
  shows "\<not> (ops = upload_ops (logging (limited 0)) \<and> user = from_string [x] \<and> \<not> oneshot \<and> byte = 0 \<and> be_upload_max b = 0 \<and>
    ro_bufsize (hr_base (fst (be_env b))) = 1)"
  using assms
proof (induction ops user offset upload oneshot fid byte b y rule: send_loop.raw_induct [rotated, consumes 1, case_names 1])
  case (1 rec ops user offset upload oneshot fid byte b y)
  show ?case
  proof (rule notI, elim conjE)
    assume h: "ops = upload_ops (logging (limited 0))" "user = from_string [x]" "\<not> oneshot" "byte = 0" "be_upload_max b = 0"
      and n: "ro_bufsize (hr_base (fst (be_env b))) = 1"
    obtain input param name where i: "send_request upload fid offset 0 = (input, param, name)" by (metis prod_cases3)
    obtain r0 lg where env: "be_env b = (r0, lg)" by force
    have p: "pull_body (stream_provider (ro_bufsize (hr_base r0)) (chunk_writer (from_string [x]) 0 False 0)) 0 (True, 0) = Some (Inr [x], (False, 1))"
      using n env by (simp add: stream_provider_def chunk_writer_def from_string_def pull_body.simps)
    obtain res st1 r1 lg1 where run: "http_stream_in (\<lambda>_ w. w) (\<lambda>_. []) [] (posting (logging (limited 0))) (finalize_input b input)
        (param, name, chunk_writer (from_string [x]) 0 False 0) (True, 0) (r0, lg) = (res, st1, r1, lg1)" by (metis surj_pair)
    have "asks_once r0 (limited 0)" "no_size_json ops (limited 0)"
      by (simp_all add: asks_once_def limited_once no_size_json_def h upload_ops_json)
    note so = stream_once [OF p this run]
    have "res = Inl InputSize"
      using run p by (simp add: http_stream_in_def run_action_stream_in_def posting_def logging_def limited_def Let_def
          do_requests_auto_def requests_auto_loop.simps handle_response_def ex_response_def add_file_params_def split: prod.splits if_splits)
    then have "action_stream_in (upload_ops (logging (limited 0))) input (param, name, chunk_writer (from_string [x]) 0 False 0) (True, 0) b =
        ((Inl InputSize, b\<lparr>be_env := (r1, lg1)\<rparr>), (False, 1))"
      using run so by (simp add: action_stream_in_def upload_ops_def env)
    then have "rec ops user offset upload oneshot fid 0 (b\<lparr>be_env := (r1, lg1), be_upload_max := 0\<rparr>) = Some y"
      using "1.hyps" h i by (simp add: adjust_attempt_def)
    from "1.IH" [OF this] show False using h so n by (simp add: env)
  qed
qed

text \<open>A server that refuses even one byte as too large makes the upload of one byte loop for ever when no limit is set: half of one byte is no limit again.\<close>

theorem refused_byte_endless:
  "write_file (upload_ops (logging (limited 0))) fid offset (from_string [x]) (ex_backend (upload_runner 1, [])) = None"
proof -
  let ?b = "ex_backend (upload_runner 1, [])" and ?ops = "upload_ops (logging (limited 0))"
  have "send_loop ?ops (from_string [x]) offset None False fid 0 ?b = None"
    using refused_byte_loops [of ?ops "from_string [x]" offset None False fid 0 ?b]
    by (cases "send_loop ?ops (from_string [x]) offset None False fid 0 ?b") (auto simp: ex_backend_def upload_runner_def)
  then show ?thesis by (simp add: write_file_def is_read_only_def ex_backend_def)
qed

text \<open>A connection that breaks after the first request has been sent: DoRequestsAuto starts the request over and pulls the stream again.\<close>

definition breaking :: "parts \<Rightarrow> bytes \<Rightarrow> bool \<times> log \<Rightarrow> http_result \<times> bool \<times> log" where
  "breaking parts body w =
     (case w of (broken, lg) \<Rightarrow>
        if \<not> broken then (Inl (OtherError 0), True, lg)
        else (case logging (limited 10) parts body lg of (res, lg) \<Rightarrow> (res, True, lg)))"

text \<open>A request that is retried counts its bytes twice: with a limit of two bytes and one broken connection, an upload of four bytes succeeds although the server got only the first two.\<close>

theorem retried_chunk_lost:
  "map_option (\<lambda>(r, b'). (r, snd (snd (be_env b'))))
     (write_file (upload_ops breaking) ''f'' 0 (from_string [1, 2, 3, 4]) (ex_backend (upload_runner 2, False, [])\<lparr>be_upload_max := 2\<rparr>)) =
   Some (Inr (JObj [(''id'', JStr ''f1'')]), [(Some ''0'', [1, 2]), (Some ''4'', [])])"
  by code_simp

end
