(* ===== verification/Item_Tree.thy ===== *)
theory Item_Tree
  imports Std_Map Backend_Api
begin

text \<open>
  The item tree (src/lib/andromeda/filesystem): FSConfig, Item, Folder, the metadata of File, and the
  folder classes of filesystem/folders. Items live in a store at addresses, which stand for the
  objects behind std::unique_ptr and raw parent pointers; an item that is dropped from the map of
  its folder stays in the store as garbage. One thread runs at a time; fs_pins are the items whose
  scope lock it holds, and waiting for one of them is a deadlock. The data of a file is a parameter:
  a value of type 'd with the operations of file_ops.
\<close>

section \<open>The data\<close>

datatype fs_exn = NotFile | NotFolder | NotFound | DuplicateItem | ModifyFolder | NullParent | FSReadOnly
  | InvalidName | FSWriteType | FSReadBounds | FSMemory | FSBackend api_exn | FSDeadlock

datatype item_kind = KFile | KPlain | KFilesystem string | KFilesystems | KAdopted | KSuperRoot

record fsconfig =
  fg_chunk :: nat
  fg_readonly :: bool
  fg_mode :: write_mode

record 'd item =
  it_kind :: item_kind
  it_id :: string
  it_name :: string
  it_parent :: "nat option"
  it_cfg :: "fsconfig option"
  it_created :: int
  it_modified :: int
  it_accessed :: int
  it_data :: "'d option"
  it_items :: "(string, nat) smap"
  it_have :: bool
  it_refreshed :: int

record ('d, 's) fs =
  fs_items :: "nat \<Rightarrow> 'd item option"
  fs_next :: nat
  fs_pins :: "nat list"
  fs_cfgs :: "(string \<times> fsconfig) list"
  fs_backend :: "'s backend"

type_synonym ('a, 'w) fs_res = "(fs_exn + 'a) \<times> 'w"

text \<open>
  The data of a file (PageBackend and PageManager; modelled in File_IO) as far as the tree needs it,
  and the two clocks. A call sees the item and the backend and returns its result, the new data,
  the new backend and, when it has created the file on the backend under the given parent, the
  answer with which it calls File::Refresh; the metadata part of that Refresh is applied by
  data_op, not by the parameter.
\<close>

type_synonym ('a, 'd, 's) data_call =
  "'d item \<Rightarrow> 's backend \<Rightarrow> (fs_exn + 'a) \<times> 'd \<times> json option \<times> 's backend"

record ('d, 's) file_ops =
  fo_open :: "string \<Rightarrow> nat \<Rightarrow> fsconfig \<Rightarrow> 'd"
  fo_new :: "fsconfig \<Rightarrow> 'd"
  fo_exists :: "'d \<Rightarrow> bool"
  fo_bsize :: "'d \<Rightarrow> nat"
  fo_size :: "'d \<Rightarrow> nat"
  fo_page_size :: "'d \<Rightarrow> nat"
  fo_remote :: "nat \<Rightarrow> 'd \<Rightarrow> 'd"
  fo_flush :: "string \<Rightarrow> (unit, 'd, 's) data_call"
  fo_read :: "nat \<Rightarrow> nat \<Rightarrow> (bytes, 'd, 's) data_call"
  fo_write :: "string \<Rightarrow> nat \<Rightarrow> bytes \<Rightarrow> (unit, 'd, 's) data_call"
  fo_truncate :: "string \<Rightarrow> nat \<Rightarrow> (unit, 'd, 's) data_call"
  fo_steady :: "'s \<Rightarrow> int"
  fo_time :: "'s \<Rightarrow> int"

record ('d, 's) fs_env =
  fe_ops :: "'s runner_ops"
  fe_cfg :: config_opts
  fe_data :: "('d, 's) file_ops"

fun bindF :: "('e + 'a) \<times> 'w \<Rightarrow> ('a \<Rightarrow> 'w \<Rightarrow> ('e + 'b) \<times> 'w) \<Rightarrow> ('e + 'b) \<times> 'w" where
  "bindF (Inl e, w) f = (Inl e, w)"
| "bindF (Inr x, w) f = f x w"

definition need :: "'a option \<Rightarrow> 'w \<Rightarrow> ('a, 'w) fs_res" where
  "need x w = (case x of None \<Rightarrow> (Inl (FSBackend JsonException), w) | Some v \<Rightarrow> (Inr v, w))"

definition on_backend :: "('s backend \<Rightarrow> ('a, 's backend) api) \<Rightarrow> ('d, 's) fs \<Rightarrow> ('a, ('d, 's) fs) fs_res" where
  "on_backend f st =
     (case f (fs_backend st) of
        (Inl e, b) \<Rightarrow> (Inl (FSBackend e), st\<lparr>fs_backend := b\<rparr>)
      | (Inr x, b) \<Rightarrow> (Inr x, st\<lparr>fs_backend := b\<rparr>))"

definition item_at :: "('d, 's) fs \<Rightarrow> nat \<Rightarrow> 'd item" where
  "item_at st a = the (fs_items st a)"

definition put_item :: "nat \<Rightarrow> 'd item \<Rightarrow> ('d, 's) fs \<Rightarrow> ('d, 's) fs" where
  "put_item a it st = st\<lparr>fs_items := (fs_items st)(a \<mapsto> it)\<rparr>"

definition new_item :: "'d item \<Rightarrow> ('d, 's) fs \<Rightarrow> (nat, ('d, 's) fs) fs_res" where
  "new_item it st = (Inr (fs_next st), st\<lparr>fs_items := (fs_items st)(fs_next st \<mapsto> it), fs_next := Suc (fs_next st)\<rparr>)"

section \<open>FSConfig\<close>

definition json_nat :: "json \<Rightarrow> nat option" where
  "json_nat j = map_option (\<lambda>i. nat (i mod 2 ^ 64)) (json_int j)"

definition fsconfig_default :: fsconfig where
  "fsconfig_default = \<lparr>fg_chunk = 0, fg_readonly = False, fg_mode = RANDOM\<rparr>"

definition fsconfig_of_json :: "json \<Rightarrow> json \<Rightarrow> fsconfig option" where
  "fsconfig_of_json data policy =
     (if data = JNull then Some fsconfig_default
      else Option.bind (json_at ''chunksize'' data) (\<lambda>cs.
           Option.bind (if cs \<noteq> JNull then json_nat cs else Some 0) (\<lambda>chunk.
           Option.bind (Option.bind (json_at ''readonly'' data) json_bool) (\<lambda>ro.
           Option.bind (Option.bind (json_at ''sttype'' data) json_str) (\<lambda>ty.
             let mode = (if ty = ''FTP'' then APPEND else if ty = ''S3'' then UPLOAD else RANDOM);
                 cfg = \<lparr>fg_chunk = chunk, fg_readonly = ro, fg_mode = mode\<rparr>
             in if RANDOM \<le> mode
                then (case json_at ''features'' policy of
                        None \<Rightarrow> Some cfg
                      | Some features \<Rightarrow>
                          Option.bind (json_at ''randomwrite'' features) (\<lambda>rw.
                            if rw = JNull then Some cfg
                            else map_option (\<lambda>ok. if \<not> ok then cfg\<lparr>fg_mode := APPEND\<rparr> else cfg) (json_bool rw)))
                else Some cfg)))))"

text \<open>LoadByID: the policy of a storage is not asked for.\<close>

definition load_cfg :: "('d, 's) fs_env \<Rightarrow> string \<Rightarrow> ('d, 's) fs \<Rightarrow> (fsconfig, ('d, 's) fs) fs_res" where
  "load_cfg e sid st =
     (case map_of (fs_cfgs st) sid of
        Some cfg \<Rightarrow> (Inr cfg, st)
      | None \<Rightarrow>
          bindF (on_backend (get_storage (fe_ops e) sid) st) (\<lambda>data st.
          bindF (need (fsconfig_of_json data JNull) st) (\<lambda>cfg st.
            (Inr cfg, st\<lparr>fs_cfgs := (sid, cfg) # fs_cfgs st\<rparr>))))"

section \<open>Item\<close>

definition blank_item :: "item_kind \<Rightarrow> 'd item" where
  "blank_item kind = \<lparr>it_kind = kind, it_id = [], it_name = [], it_parent = None, it_cfg = None, it_created = 0,
     it_modified = 0, it_accessed = 0, it_data = None, it_items = [], it_have = False, it_refreshed = 0\<rparr>"

definition date_of_json :: "string \<Rightarrow> json \<Rightarrow> int option" where
  "date_of_json key data = Option.bind (json_at key data) (\<lambda>j. if j = JNull then Some 0 else json_int j)"

text \<open>The constructor with JSON.\<close>

definition head_of_json :: "item_kind \<Rightarrow> json \<Rightarrow> 'd item option" where
  "head_of_json kind data =
     Option.bind (Option.bind (json_at ''id'' data) json_str) (\<lambda>iid.
     Option.bind (Option.bind (json_at ''name'' data) json_str) (\<lambda>name.
     Option.bind (Option.bind (json_at ''date_created'' data) json_int) (\<lambda>created.
     Option.bind (date_of_json ''date_modified'' data) (\<lambda>modified.
     Option.bind (date_of_json ''date_accessed'' data) (\<lambda>accessed.
       Some ((blank_item kind)\<lparr>it_id := iid, it_name := name, it_created := created, it_modified := modified,
         it_accessed := accessed\<rparr>))))))"

definition bad_name :: "string \<Rightarrow> bool" where
  "bad_name name \<longleftrightarrow> name = ''.'' \<or> name = ''..'' \<or> CHR ''/'' \<in> set name"

text \<open>A date of Refresh: a null leaves it as it is.\<close>

definition refresh_date :: "string \<Rightarrow> json \<Rightarrow> (int \<Rightarrow> 'd item \<Rightarrow> 'd item) \<Rightarrow> 'd item \<Rightarrow> (unit, 'd item) fs_res" where
  "refresh_date key data upd it =
     bindF (need (json_at key data) it) (\<lambda>j it.
       if j = JNull then (Inr (), it) else bindF (need (json_int j) it) (\<lambda>d it. (Inr (), upd d it)))"

definition refresh_head :: "json \<Rightarrow> 'd item \<Rightarrow> (unit, 'd item) fs_res" where
  "refresh_head data it =
     bindF (need (Option.bind (json_at ''name'' data) json_str) it) (\<lambda>name it.
     if name \<noteq> it_name it \<and> bad_name name then (Inl (FSBackend JsonException), it)
     else bindF (need (Option.bind (json_at ''date_created'' data) json_int) (it\<lparr>it_name := name\<rparr>)) (\<lambda>created it.
     bindF (refresh_date ''date_modified'' data (\<lambda>d it. it\<lparr>it_modified := d\<rparr>) (it\<lparr>it_created := created\<rparr>)) (\<lambda>_ it.
       refresh_date ''date_accessed'' data (\<lambda>d it. it\<lparr>it_accessed := d\<rparr>) it)))"

text \<open>File::Refresh: the metadata, an id that is still missing included, and then the size.\<close>

definition refresh_meta :: "json \<Rightarrow> 'd item \<Rightarrow> (unit, 'd item) fs_res" where
  "refresh_meta data it =
     bindF (refresh_head data it) (\<lambda>_ it.
       if it_id it = []
       then bindF (need (Option.bind (json_at ''id'' data) json_str) it) (\<lambda>iid it. (Inr (), it\<lparr>it_id := iid\<rparr>))
       else (Inr (), it))"

definition refresh_file :: "('d, 's) fs_env \<Rightarrow> json \<Rightarrow> 'd item \<Rightarrow> (unit, 'd item) fs_res" where
  "refresh_file e data it =
     bindF (refresh_meta data it) (\<lambda>_ it.
     bindF (need (Option.bind (json_at ''size'' data) json_nat) it) (\<lambda>new_size it.
       if new_size \<noteq> fo_bsize (fe_data e) (the (it_data it))
       then (Inr (), it\<lparr>it_data := map_option (fo_remote (fe_data e) new_size) (it_data it)\<rparr>)
       else (Inr (), it)))"

text \<open>The virtual Refresh; that of Filesystem is empty.\<close>

definition item_refresh :: "('d, 's) fs_env \<Rightarrow> json \<Rightarrow> 'd item \<Rightarrow> (unit, 'd item) fs_res" where
  "item_refresh e data it =
     (case it_kind it of KFile \<Rightarrow> refresh_file e data it | KFilesystem _ \<Rightarrow> (Inr (), it) | _ \<Rightarrow> refresh_head data it)"

definition read_only_fs :: "nat \<Rightarrow> ('d, 's) fs \<Rightarrow> bool" where
  "read_only_fs a st \<longleftrightarrow> is_read_only (fs_backend st) \<or> (\<exists>cfg \<in> set_option (it_cfg (item_at st a)). fg_readonly cfg)"

section \<open>Constructors\<close>

definition make_file :: "('d, 's) fs_env \<Rightarrow> nat \<Rightarrow> json \<Rightarrow> ('d, 's) fs \<Rightarrow> (nat, ('d, 's) fs) fs_res" where
  "make_file e parent data st =
     bindF (need (head_of_json KFile data) st) (\<lambda>it st.
     bindF (need (Option.bind (json_at ''size'' data) json_nat) st) (\<lambda>file_size st.
     bindF (need (Option.bind (json_at ''storage'' data) json_str) st) (\<lambda>sid st.
     bindF (load_cfg e sid st) (\<lambda>cfg st.
       new_item (it\<lparr>it_parent := Some parent, it_cfg := Some cfg,
         it_data := Some (fo_open (fe_data e) (it_id it) file_size cfg)\<rparr>) st))))"

text \<open>PlainFolder without items (haveItems false).\<close>

definition make_plain :: "('d, 's) fs_env \<Rightarrow> nat \<Rightarrow> json \<Rightarrow> ('d, 's) fs \<Rightarrow> (nat, ('d, 's) fs) fs_res" where
  "make_plain e parent data st =
     bindF (need (head_of_json KPlain data) st) (\<lambda>it st.
     bindF (need (Option.bind (json_at ''storage'' data) json_str) st) (\<lambda>sid st.
     bindF (load_cfg e sid st) (\<lambda>cfg st.
       new_item (it\<lparr>it_parent := Some parent, it_cfg := Some cfg\<rparr>) st)))"

definition make_filesystem :: "('d, 's) fs_env \<Rightarrow> nat option \<Rightarrow> json \<Rightarrow> ('d, 's) fs \<Rightarrow> (nat, ('d, 's) fs) fs_res" where
  "make_filesystem e parent data st =
     bindF (need (head_of_json KPlain data) st) (\<lambda>it st.
     bindF (load_cfg e (it_id it) st) (\<lambda>cfg st.
       new_item (it\<lparr>it_kind := KFilesystem (it_id it), it_id := [], it_parent := parent, it_cfg := Some cfg\<rparr>) st))"

datatype new_kind = NewFile | NewFolder | NewFilesystem

definition make_item :: "('d, 's) fs_env \<Rightarrow> new_kind \<Rightarrow> nat \<Rightarrow> json \<Rightarrow> ('d, 's) fs \<Rightarrow> (nat, ('d, 's) fs) fs_res" where
  "make_item e kind parent data st =
     (case kind of NewFile \<Rightarrow> make_file e parent data st | NewFolder \<Rightarrow> make_plain e parent data st
      | NewFilesystem \<Rightarrow> make_filesystem e (Some parent) data st)"

end
