(* ===== verification/Folder_Tree.thy ===== *)
theory Folder_Tree
  imports Item_Tree
begin

text \<open>
  The operations of Folder (src/lib/andromeda/filesystem/Folder.cpp), of the folder classes (folders/),
  and those of Item that go through the parent: loading and refreshing the contents, lookup by
  path, creating, deleting, renaming and moving.
\<close>

section \<open>Refreshing the contents\<close>

text \<open>
  GetDeleteLock: waits for the scope locks of the item and of everything below it. fuel bounds the
  depth; a tree is not deeper than the number of its items.
\<close>

fun scope_free :: "nat \<Rightarrow> nat \<Rightarrow> ('d, 's) fs \<Rightarrow> bool" where
  "scope_free 0 a st \<longleftrightarrow> a \<notin> set (fs_pins st)"
| "scope_free (Suc fuel) a st \<longleftrightarrow>
     a \<notin> set (fs_pins st) \<and> list_all (\<lambda>(_, c). scope_free fuel c st) (it_items (item_at st a))"

definition set_items :: "nat \<Rightarrow> (string, nat) smap \<Rightarrow> ('d, 's) fs \<Rightarrow> ('d, 's) fs" where
  "set_items a m st = put_item a ((item_at st a)\<lparr>it_items := m\<rparr>) st"

definition folder_items :: "('d, 's) fs \<Rightarrow> nat \<Rightarrow> (string, nat) smap" where
  "folder_items st a = it_items (item_at st a)"

definition refresh_at :: "('d, 's) fs_env \<Rightarrow> nat \<Rightarrow> json \<Rightarrow> ('d, 's) fs \<Rightarrow> (unit, ('d, 's) fs) fs_res" where
  "refresh_at e c data st = (case item_refresh e data (item_at st c) of (r, it) \<Rightarrow> (r, put_item c it st))"

text \<open>The first loop of SyncContents: new items and refreshed ones; items still holds iterators of before.\<close>

fun sync_new :: "('d, 's) fs_env \<Rightarrow> nat \<Rightarrow> (string, new_kind \<times> json) smap \<Rightarrow> ('d, 's) fs \<Rightarrow> (unit, ('d, 's) fs) fs_res" where
  "sync_new e a [] st = (Inr (), st)"
| "sync_new e a ((name, (kind, data)) # rest) st =
     (if bad_name name then (Inl (FSBackend JsonException), st)
      else bindF (case sm_find (folder_items st a) name of
                    None \<Rightarrow> bindF (make_item e kind a data st) (\<lambda>c st.
                              (Inr (), set_items a (sm_assign name c (folder_items st a)) st))
                  | Some c \<Rightarrow> refresh_at e c data st)
             (\<lambda>_ st. sync_new e a rest st))"

definition remote_item :: "('d, 's) fs_env \<Rightarrow> 'd item \<Rightarrow> bool" where
  "remote_item e it \<longleftrightarrow> it_kind it \<noteq> KFile \<or> fo_exists (fe_data e) (the (it_data it))"

text \<open>The second loop: items that the backend has no longer; files that it never had stay.\<close>

fun sync_old :: "('d, 's) fs_env \<Rightarrow> nat \<Rightarrow> (string, new_kind \<times> json) smap \<Rightarrow> (string, nat) smap \<Rightarrow> ('d, 's) fs \<Rightarrow>
    (unit, ('d, 's) fs) fs_res" where
  "sync_old e a newitems [] st = (Inr (), st)"
| "sync_old e a newitems ((name, c) # rest) st =
     (if sm_find newitems name = None \<and> remote_item e (item_at st c)
      then if scope_free (fs_next st) c st
           then sync_old e a newitems rest (set_items a (sm_erase name (folder_items st a)) st)
           else (Inl FSDeadlock, st)
      else sync_old e a newitems rest st)"

definition sync_contents :: "('d, 's) fs_env \<Rightarrow> nat \<Rightarrow> (string, new_kind \<times> json) smap \<Rightarrow> ('d, 's) fs \<Rightarrow>
    (unit, ('d, 's) fs) fs_res" where
  "sync_contents e a newitems st =
     bindF (sync_new e a newitems st) (\<lambda>_ st. sync_old e a newitems (folder_items st a) st)"

text \<open>Iterating over a JSON value visits the elements of an array, the values of an object, or a single value.\<close>

fun json_elems :: "json \<Rightarrow> json list" where
  "json_elems JNull = []"
| "json_elems (JList js) = js"
| "json_elems (JObj kvs) = map snd kvs"
| "json_elems j = [j]"

fun emplace_new :: "new_kind \<Rightarrow> json list \<Rightarrow> (string, new_kind \<times> json) smap \<Rightarrow> (string, new_kind \<times> json) smap option" where
  "emplace_new kind [] m = Some m"
| "emplace_new kind (j # js) m =
     Option.bind (Option.bind (json_at ''name'' j) json_str) (\<lambda>name. emplace_new kind js (sm_emplace name (kind, j) m))"

definition load_items_from :: "('d, 's) fs_env \<Rightarrow> nat \<Rightarrow> json \<Rightarrow> ('d, 's) fs \<Rightarrow> (unit, ('d, 's) fs) fs_res" where
  "load_items_from e a data st =
     bindF (need (Option.bind (json_at ''files'' data) (\<lambda>files. emplace_new NewFile (json_elems files) [])) st) (\<lambda>m st.
     bindF (need (Option.bind (json_at ''folders'' data) (\<lambda>folders. emplace_new NewFolder (json_elems folders) m)) st) (\<lambda>m st.
       sync_contents e a m st))"

text \<open>LoadID and the virtual GetID: the root folder of a storage is looked up when it is first needed.\<close>

definition load_id :: "nat \<Rightarrow> json \<Rightarrow> ('d, 's) fs \<Rightarrow> (unit, ('d, 's) fs) fs_res" where
  "load_id a data st =
     bindF (need (Option.bind (json_at ''id'' data) json_str) st) (\<lambda>iid st.
       (Inr (), put_item a ((item_at st a)\<lparr>it_id := iid\<rparr>) st))"

definition get_id :: "('d, 's) fs_env \<Rightarrow> nat \<Rightarrow> ('d, 's) fs \<Rightarrow> (string, ('d, 's) fs) fs_res" where
  "get_id e a st =
     (case it_kind (item_at st a) of
        KFilesystem fsid \<Rightarrow>
          if it_id (item_at st a) = []
          then bindF (on_backend (get_root_folder (fe_ops e) fsid) st) (\<lambda>data st.
               bindF (load_id a data st) (\<lambda>_ st. (Inr (it_id (item_at st a)), st)))
          else (Inr (it_id (item_at st a)), st)
      | _ \<Rightarrow> (Inr (it_id (item_at st a)), st))"

text \<open>Filesystems sets the dates of each storage; contains is asked of the list, not of its element.\<close>

fun json_set :: "string \<Rightarrow> json \<Rightarrow> json \<Rightarrow> json option" where
  "json_set k v (JObj kvs) = Some (JObj (AList.update k v kvs))"
| "json_set k v JNull = Some (JObj [(k, v)])"
| "json_set k v _ = None"

definition dated_storage :: "json \<Rightarrow> json \<Rightarrow> json option" where
  "dated_storage data fs_json =
     Option.bind (if json_at ''date_created'' data = None then json_set ''date_created'' (JInt 0) fs_json else Some fs_json)
       (\<lambda>j. Option.bind (json_set ''date_modified'' JNull j) (json_set ''date_accessed'' JNull))"

fun dated_storages :: "json \<Rightarrow> json list \<Rightarrow> json list option" where
  "dated_storages data [] = Some []"
| "dated_storages data (j # js) =
     Option.bind (dated_storage data j) (\<lambda>d. map_option ((#) d) (dated_storages data js))"

text \<open>The virtual SubLoadItems.\<close>

definition sub_load_items :: "('d, 's) fs_env \<Rightarrow> nat \<Rightarrow> ('d, 's) fs \<Rightarrow> (unit, ('d, 's) fs) fs_res" where
  "sub_load_items e a st =
     (case it_kind (item_at st a) of
        KFilesystem fsid \<Rightarrow>
          bindF (on_backend (get_root_folder (fe_ops e) fsid) st) (\<lambda>data st.
          bindF (if it_id (item_at st a) = [] then load_id a data st else (Inr (), st)) (\<lambda>_ st.
            load_items_from e a data st))
      | KAdopted \<Rightarrow> bindF (on_backend (get_adopted (fe_ops e)) st) (\<lambda>data st. load_items_from e a data st)
      | KFilesystems \<Rightarrow>
          bindF (on_backend (get_storages (fe_ops e)) st) (\<lambda>data st.
          bindF (need (Option.bind (dated_storages data (json_elems data)) (\<lambda>js. emplace_new NewFilesystem js [])) st) (\<lambda>m st.
            sync_contents e a m st))
      | KSuperRoot \<Rightarrow> (Inr (), st)
      | _ \<Rightarrow>
          bindF (get_id e a st) (\<lambda>iid st.
          bindF (on_backend (get_folder (fe_ops e) iid) st) (\<lambda>data st. load_items_from e a data st)))"

text \<open>SuperRoot::LoadItems makes its two folders once.\<close>

definition super_root_load :: "nat \<Rightarrow> ('d, 's) fs \<Rightarrow> (unit, ('d, 's) fs) fs_res" where
  "super_root_load a st =
     (if it_have (item_at st a) then (Inr (), st)
      else bindF (new_item ((blank_item KAdopted)\<lparr>it_name := ''Adopted by others'', it_parent := Some a\<rparr>) st) (\<lambda>c st.
           bindF (Inr (), set_items a (sm_assign ''Adopted by others'' c (folder_items st a)) st) (\<lambda>_ st.
           bindF (new_item ((blank_item KFilesystems)\<lparr>it_name := ''Filesystems'', it_parent := Some a\<rparr>) st) (\<lambda>c st.
           bindF (Inr (), set_items a (sm_assign ''Filesystems'' c (folder_items st a)) st) (\<lambda>_ st.
             (Inr (), put_item a ((item_at st a)\<lparr>it_have := True\<rparr>) st))))))"

definition load_items :: "('d, 's) fs_env \<Rightarrow> nat \<Rightarrow> bool \<Rightarrow> ('d, 's) fs \<Rightarrow> (unit, ('d, 's) fs) fs_res" where
  "load_items e a can_refresh st =
     (if it_kind (item_at st a) = KSuperRoot then super_root_load a st
      else let expired = fo_steady (fe_data e) (be_env (fs_backend st)) - it_refreshed (item_at st a) > co_refresh (fe_cfg e)
           in if \<not> it_have (item_at st a) \<or> can_refresh \<and> expired \<and> \<not> be_memory (fs_backend st)
              then bindF (sub_load_items e a st) (\<lambda>_ st.
                (Inr (), put_item a ((item_at st a)\<lparr>it_refreshed := fo_steady (fe_data e) (be_env (fs_backend st)),
                                                    it_have := True\<rparr>) st))
              else (Inr (), st))"

section \<open>Lookup\<close>

fun walk :: "('d, 's) fs_env \<Rightarrow> nat \<Rightarrow> string list \<Rightarrow> ('d, 's) fs \<Rightarrow> (nat, ('d, 's) fs) fs_res" where
  "walk e a [] st = (Inl NotFound, st)"
| "walk e a (p # ps) st =
     bindF (load_items e a True st) (\<lambda>_ st.
       case sm_find (folder_items st a) p of
         None \<Rightarrow> (Inl NotFound, st)
       | Some c \<Rightarrow>
           if ps = [] then (Inr c, st)
           else if it_kind (item_at st c) = KFile then (Inl NotFolder, st)
           else walk e c ps st)"

definition path_parts :: "string \<Rightarrow> string list" where
  "path_parts path = explode path ''/'' 0 False (2 ^ 64 - 1)"

definition get_item_by_path :: "('d, 's) fs_env \<Rightarrow> nat \<Rightarrow> string \<Rightarrow> ('d, 's) fs \<Rightarrow> (nat, ('d, 's) fs) fs_res" where
  "get_item_by_path e a path st =
     (let path = dropWhile (\<lambda>c. c = CHR ''/'') path
      in if path = [] then (Inr a, st) else walk e a (path_parts path) st)"

definition get_file_by_path :: "('d, 's) fs_env \<Rightarrow> nat \<Rightarrow> string \<Rightarrow> ('d, 's) fs \<Rightarrow> (nat, ('d, 's) fs) fs_res" where
  "get_file_by_path e a path st =
     bindF (get_item_by_path e a path st) (\<lambda>c st.
       if it_kind (item_at st c) \<noteq> KFile then (Inl NotFile, st) else (Inr c, st))"

definition get_folder_by_path :: "('d, 's) fs_env \<Rightarrow> nat \<Rightarrow> string \<Rightarrow> ('d, 's) fs \<Rightarrow> (nat, ('d, 's) fs) fs_res" where
  "get_folder_by_path e a path st =
     bindF (get_item_by_path e a path st) (\<lambda>c st.
       if it_kind (item_at st c) = KFile then (Inl NotFolder, st) else (Inr c, st))"

definition get_items :: "('d, 's) fs_env \<Rightarrow> nat \<Rightarrow> ('d, 's) fs \<Rightarrow> ((string, nat) smap, ('d, 's) fs) fs_res" where
  "get_items e a st = bindF (load_items e a True st) (\<lambda>_ st. (Inr (folder_items st a), st))"

definition count_items :: "('d, 's) fs_env \<Rightarrow> nat \<Rightarrow> ('d, 's) fs \<Rightarrow> (nat, ('d, 's) fs) fs_res" where
  "count_items e a st = bindF (load_items e a True st) (\<lambda>_ st. (Inr (length (folder_items st a)), st))"

section \<open>Changes\<close>

definition plain_folder :: "item_kind \<Rightarrow> bool" where
  "plain_folder kind \<longleftrightarrow> (case kind of KPlain \<Rightarrow> True | KFilesystem _ \<Rightarrow> True | _ \<Rightarrow> False)"

text \<open>The virtual SubCreateFile and SubCreateFolder; only PlainFolder and Filesystem can.\<close>

definition sub_create_file :: "('d, 's) fs_env \<Rightarrow> nat \<Rightarrow> string \<Rightarrow> ('d, 's) fs \<Rightarrow> (unit, ('d, 's) fs) fs_res" where
  "sub_create_file e a name st =
     (if \<not> plain_folder (it_kind (item_at st a)) then (Inl ModifyFolder, st)
      else if read_only_fs a st then (Inl FSReadOnly, st)
      else bindF (if co_cachetype (fe_cfg e) = CacheNone
                  then bindF (get_id e a st) (\<lambda>iid st.
                       bindF (on_backend (create_file (fe_ops e) iid name False) st) (\<lambda>data st. make_file e a data st))
                  else let cfg = the (it_cfg (item_at st a))
                       in new_item ((blank_item KFile)\<lparr>it_name := name, it_parent := Some a, it_cfg := Some cfg,
                            it_created := fo_time (fe_data e) (be_env (fs_backend st)),
                            it_data := Some (fo_new (fe_data e) cfg)\<rparr>) st)
            (\<lambda>c st. (Inr (), set_items a (sm_assign (it_name (item_at st c)) c (folder_items st a)) st)))"

definition sub_create_folder :: "('d, 's) fs_env \<Rightarrow> nat \<Rightarrow> string \<Rightarrow> ('d, 's) fs \<Rightarrow> (unit, ('d, 's) fs) fs_res" where
  "sub_create_folder e a name st =
     (if \<not> plain_folder (it_kind (item_at st a)) then (Inl ModifyFolder, st)
      else if read_only_fs a st then (Inl FSReadOnly, st)
      else bindF (get_id e a st) (\<lambda>iid st.
           bindF (on_backend (create_folder (fe_ops e) iid name) st) (\<lambda>data st.
           bindF (make_plain e a data st) (\<lambda>c st.
             (Inr (), set_items a (sm_assign (it_name (item_at st c)) c (folder_items st a)) st)))))"

definition create_checked :: "(nat \<Rightarrow> string \<Rightarrow> ('d, 's) fs \<Rightarrow> (unit, ('d, 's) fs) fs_res) \<Rightarrow> ('d, 's) fs_env \<Rightarrow> nat \<Rightarrow>
    string \<Rightarrow> ('d, 's) fs \<Rightarrow> (unit, ('d, 's) fs) fs_res" where
  "create_checked create e a name st =
     (if bad_name name then (Inl InvalidName, st)
      else bindF (load_items e a True st) (\<lambda>_ st.
             if sm_find (folder_items st a) name \<noteq> None \<or> name = [] then (Inl DuplicateItem, st)
             else create a name st))"

definition folder_create_file :: "('d, 's) fs_env \<Rightarrow> nat \<Rightarrow> string \<Rightarrow> ('d, 's) fs \<Rightarrow> (unit, ('d, 's) fs) fs_res" where
  "folder_create_file e a name st = create_checked (sub_create_file e) e a name st"

definition folder_create_folder :: "('d, 's) fs_env \<Rightarrow> nat \<Rightarrow> string \<Rightarrow> ('d, 's) fs \<Rightarrow> (unit, ('d, 's) fs) fs_res" where
  "folder_create_folder e a name st = create_checked (sub_create_folder e) e a name st"

text \<open>
  A call on the data of a file. When it has created the file on the backend the answer goes
  through File::Refresh, which takes over the name, the dates and the id that the answer has, and
  whose exceptions end the call.
\<close>

definition data_op :: "nat \<Rightarrow> ('a, 'd, 's) data_call \<Rightarrow> ('d, 's) fs \<Rightarrow> ('a, ('d, 's) fs) fs_res" where
  "data_op c f st =
     (let (r, d, answer, b) = f (item_at st c) (fs_backend st);
          it = (item_at st c)\<lparr>it_data := Some d\<rparr>;
          (m, it') = (case answer of None \<Rightarrow> (Inr (), it) | Some data \<Rightarrow> refresh_meta data it)
      in (case m of Inl x \<Rightarrow> Inl x | Inr _ \<Rightarrow> r, put_item c it' (st\<lparr>fs_backend := b\<rparr>)))"

text \<open>FlushCache of a file; its create function asks the parent for its id.\<close>

definition create_id :: "('d, 's) fs_env \<Rightarrow> nat \<Rightarrow> ('d, 's) fs \<Rightarrow> (string, ('d, 's) fs) fs_res" where
  "create_id e c st =
     (case it_parent (item_at st c) of
        Some a \<Rightarrow> if fo_exists (fe_data e) (the (it_data (item_at st c))) then (Inr [], st) else get_id e a st
      | None \<Rightarrow> (Inr [], st))"

definition backend_exn :: "fs_exn \<Rightarrow> bool" where
  "backend_exn x \<longleftrightarrow> (case x of FSBackend _ \<Rightarrow> True | _ \<Rightarrow> False)"

definition file_flush :: "('d, 's) fs_env \<Rightarrow> nat \<Rightarrow> bool \<Rightarrow> ('d, 's) fs \<Rightarrow> (unit, ('d, 's) fs) fs_res" where
  "file_flush e c nothrow st =
     (case bindF (create_id e c st) (\<lambda>iid. data_op c (fo_flush (fe_data e) iid)) of
        (r, st) \<Rightarrow> (case r of
            Inl x \<Rightarrow> if nothrow \<and> backend_exn x then (Inr (), st) else (Inl x, st)
          | Inr _ \<Rightarrow> (Inr (), st)))"

text \<open>The virtual SubDelete, SubRename and SubMove.\<close>

definition sub_delete :: "('d, 's) fs_env \<Rightarrow> nat \<Rightarrow> ('d, 's) fs \<Rightarrow> (unit, ('d, 's) fs) fs_res" where
  "sub_delete e c st =
     (case it_kind (item_at st c) of
        KFile \<Rightarrow>
          if read_only_fs c st then (Inl FSReadOnly, st)
          else if fo_exists (fe_data e) (the (it_data (item_at st c)))
          then bindF (on_backend (delete_file (fe_ops e) (it_id (item_at st c))) st) (\<lambda>_ st. (Inr (), st))
          else (Inr (), st)
      | KPlain \<Rightarrow>
          if read_only_fs c st then (Inl FSReadOnly, st)
          else bindF (get_id e c st) (\<lambda>iid st.
               bindF (on_backend (delete_folder (fe_ops e) iid) st) (\<lambda>_ st. (Inr (), st)))
      | _ \<Rightarrow> (Inl ModifyFolder, st))"

definition sub_rename :: "('d, 's) fs_env \<Rightarrow> nat \<Rightarrow> string \<Rightarrow> bool \<Rightarrow> ('d, 's) fs \<Rightarrow> (unit, ('d, 's) fs) fs_res" where
  "sub_rename e c new_name overwrite st =
     (if it_kind (item_at st c) = KFile then
        (if read_only_fs c st then (Inl FSReadOnly, st)
         else if fo_exists (fe_data e) (the (it_data (item_at st c)))
         then bindF (on_backend (rename_file (fe_ops e) (it_id (item_at st c)) new_name overwrite) st) (\<lambda>_ st. (Inr (), st))
         else (Inr (), st))
      else if plain_folder (it_kind (item_at st c)) then
        (if read_only_fs c st then (Inl FSReadOnly, st)
         else bindF (get_id e c st) (\<lambda>iid st.
              bindF (on_backend (rename_folder (fe_ops e) iid new_name overwrite) st) (\<lambda>_ st. (Inr (), st))))
      else (Inl ModifyFolder, st))"

definition sub_move :: "('d, 's) fs_env \<Rightarrow> nat \<Rightarrow> string \<Rightarrow> bool \<Rightarrow> ('d, 's) fs \<Rightarrow> (unit, ('d, 's) fs) fs_res" where
  "sub_move e c parent_id overwrite st =
     (case it_kind (item_at st c) of
        KFile \<Rightarrow>
          if read_only_fs c st then (Inl FSReadOnly, st)
          else bindF (if \<not> fo_exists (fe_data e) (the (it_data (item_at st c))) then file_flush e c False st else (Inr (), st)) (\<lambda>_ st.
               bindF (on_backend (move_file (fe_ops e) (it_id (item_at st c)) parent_id overwrite) st) (\<lambda>_ st. (Inr (), st)))
      | KPlain \<Rightarrow>
          if read_only_fs c st then (Inl FSReadOnly, st)
          else bindF (get_id e c st) (\<lambda>iid st.
               bindF (on_backend (move_folder (fe_ops e) iid parent_id overwrite) st) (\<lambda>_ st. (Inr (), st)))
      | _ \<Rightarrow> (Inl ModifyFolder, st))"

definition delete_item :: "('d, 's) fs_env \<Rightarrow> nat \<Rightarrow> string \<Rightarrow> ('d, 's) fs \<Rightarrow> (unit, ('d, 's) fs) fs_res" where
  "delete_item e a name st =
     (if read_only_fs a st then (Inl FSReadOnly, st)
      else bindF (load_items e a True st) (\<lambda>_ st.
           case sm_find (folder_items st a) name of
             None \<Rightarrow> (Inl NotFound, st)
           | Some c \<Rightarrow>
               if \<not> scope_free (fs_next st) c st then (Inl FSDeadlock, st)
               else bindF (sub_delete e c st) (\<lambda>_ st.
                      (Inr (), set_items a (sm_erase name (folder_items st a)) st))))"

definition rename_item :: "('d, 's) fs_env \<Rightarrow> nat \<Rightarrow> string \<Rightarrow> string \<Rightarrow> bool \<Rightarrow> ('d, 's) fs \<Rightarrow> (unit, ('d, 's) fs) fs_res" where
  "rename_item e a old_name new_name overwrite st =
     (if read_only_fs a st then (Inl FSReadOnly, st)
      else bindF (load_items e a True st) (\<lambda>_ st.
           case sm_find (folder_items st a) old_name of
             None \<Rightarrow> (Inl NotFound, st)
           | Some c \<Rightarrow>
               if old_name = new_name then (Inr (), st)
               else let dup = sm_find (folder_items st a) new_name
                    in if \<not> overwrite \<and> dup \<noteq> None \<or> new_name = [] then (Inl DuplicateItem, st)
                       else bindF (sub_rename e c new_name overwrite st) (\<lambda>_ st.
                         let m = (if dup \<noteq> None then sm_erase new_name (folder_items st a) else folder_items st a)
                         in (Inr (), set_items a (sm_emplace new_name c (sm_erase old_name m)) st))))"

text \<open>Both folders are locked, so waiting for the lock of the item is a deadlock when it is the new parent.\<close>

definition move_item :: "('d, 's) fs_env \<Rightarrow> nat \<Rightarrow> string \<Rightarrow> nat \<Rightarrow> bool \<Rightarrow> ('d, 's) fs \<Rightarrow> (unit, ('d, 's) fs) fs_res" where
  "move_item e a name new_parent overwrite st =
     (if read_only_fs a st then (Inl FSReadOnly, st)
      else bindF (load_items e a False st) (\<lambda>_ st.
           case sm_find (folder_items st a) name of
             None \<Rightarrow> (Inl NotFound, st)
           | Some c \<Rightarrow>
               bindF (load_items e new_parent False st) (\<lambda>_ st.
               if read_only_fs new_parent st then (Inl FSReadOnly, st)
               else bindF (get_id e new_parent st) (\<lambda>iid st.
               if iid = [] then (Inl ModifyFolder, st)
               else let dup = sm_find (folder_items st new_parent) name
                    in if \<not> overwrite \<and> dup \<noteq> None then (Inl DuplicateItem, st)
                       else if c = new_parent then (Inl FSDeadlock, st)
                       else bindF (get_id e new_parent st) (\<lambda>iid st.
                            bindF (sub_move e c iid overwrite st) (\<lambda>_ st.
                         let st = (if dup \<noteq> None then set_items new_parent (sm_erase name (folder_items st new_parent)) st else st);
                             st = set_items a (sm_erase name (folder_items st a)) st
                         in (Inr (), set_items new_parent (sm_emplace name c (folder_items st new_parent)) st)))))))"

text \<open>
  A ScopeLocked that lives as long as f runs. Its destructor unlocks if the lock is still owned,
  which it is unless f has unlocked it: c is then held as often as before. When f waits for ever
  the destructor does not run, and the locks that f holds stay held.
\<close>

definition hung :: "fs_exn + 'a \<Rightarrow> bool" where
  "hung r \<longleftrightarrow> (case r of Inl x \<Rightarrow> x = FSDeadlock | Inr _ \<Rightarrow> False)"

definition unscope :: "nat \<Rightarrow> nat list \<Rightarrow> ('d, 's) fs \<Rightarrow> ('d, 's) fs" where
  "unscope c before st =
     (if count_list before c < count_list (fs_pins st) c then st\<lparr>fs_pins := remove1 c (fs_pins st)\<rparr> else st)"

definition scoped :: "nat \<Rightarrow> (('d, 's) fs \<Rightarrow> ('a, ('d, 's) fs) fs_res) \<Rightarrow> ('d, 's) fs \<Rightarrow> ('a, ('d, 's) fs) fs_res" where
  "scoped c f st =
     (case f (st\<lparr>fs_pins := c # fs_pins st\<rparr>) of
        (r, st') \<Rightarrow> (r, if hung r then st' else unscope c (fs_pins st) st'))"

text \<open>
  Item::Delete, Rename and Move. Delete takes the scope lock of the parent and then gives up that of
  the item.
\<close>

definition item_delete :: "('d, 's) fs_env \<Rightarrow> nat \<Rightarrow> ('d, 's) fs \<Rightarrow> (unit, ('d, 's) fs) fs_res" where
  "item_delete e c st =
     (case it_parent (item_at st c) of
        None \<Rightarrow> (Inl NullParent, st)
      | Some a \<Rightarrow> scoped a (\<lambda>st. delete_item e a (it_name (item_at st c)) (st\<lparr>fs_pins := remove1 c (fs_pins st)\<rparr>)) st)"

definition item_rename :: "('d, 's) fs_env \<Rightarrow> nat \<Rightarrow> string \<Rightarrow> bool \<Rightarrow> ('d, 's) fs \<Rightarrow> (unit, ('d, 's) fs) fs_res" where
  "item_rename e c new_name overwrite st =
     (if new_name = it_name (item_at st c) then (Inr (), st)
      else if bad_name new_name then (Inl InvalidName, st)
      else case it_parent (item_at st c) of
        None \<Rightarrow> (Inl NullParent, st)
      | Some a \<Rightarrow>
          bindF (rename_item e a (it_name (item_at st c)) new_name overwrite st) (\<lambda>_ st.
            (Inr (), put_item c ((item_at st c)\<lparr>it_name := new_name\<rparr>) st)))"

definition item_move :: "('d, 's) fs_env \<Rightarrow> nat \<Rightarrow> nat \<Rightarrow> bool \<Rightarrow> ('d, 's) fs \<Rightarrow> (unit, ('d, 's) fs) fs_res" where
  "item_move e c new_parent overwrite st =
     (case it_parent (item_at st c) of
        None \<Rightarrow> (Inl NullParent, st)
      | Some a \<Rightarrow>
          if a = new_parent then (Inr (), st)
          else bindF (move_item e a (it_name (item_at st c)) new_parent overwrite st) (\<lambda>_ st.
            (Inr (), put_item c ((item_at st c)\<lparr>it_parent := Some new_parent\<rparr>) st)))"

text \<open>Folder::FlushCache goes down the tree, fuel levels deep.\<close>

fun flush_tree :: "nat \<Rightarrow> ('d, 's) fs_env \<Rightarrow> nat \<Rightarrow> bool \<Rightarrow> ('d, 's) fs \<Rightarrow> (unit, ('d, 's) fs) fs_res"
  and flush_list :: "nat \<Rightarrow> ('d, 's) fs_env \<Rightarrow> (string, nat) smap \<Rightarrow> bool \<Rightarrow> ('d, 's) fs \<Rightarrow> (unit, ('d, 's) fs) fs_res" where
  "flush_tree 0 e a nothrow st = (Inl FSDeadlock, st)"
| "flush_tree (Suc fuel) e a nothrow st =
     (if it_kind (item_at st a) = KFile then file_flush e a nothrow st
      else flush_list fuel e (folder_items st a) nothrow st)"
| "flush_list fuel e [] nothrow st = (Inr (), st)"
| "flush_list fuel e ((name, c) # rest) nothrow st =
     bindF (flush_tree fuel e c nothrow st) (\<lambda>_ st. flush_list fuel e rest nothrow st)"

definition item_flush_cache :: "('d, 's) fs_env \<Rightarrow> nat \<Rightarrow> bool \<Rightarrow> ('d, 's) fs \<Rightarrow> (unit, ('d, 's) fs) fs_res" where
  "item_flush_cache e a nothrow st = flush_tree (Suc (fs_next st)) e a nothrow st"

section \<open>Roots\<close>

text \<open>PlainFolder::LoadByID, Filesystem::LoadByID and SuperRoot; the constructor with items is the one of a root.\<close>

definition plain_folder_root :: "('d, 's) fs_env \<Rightarrow> string \<Rightarrow> ('d, 's) fs \<Rightarrow> (nat, ('d, 's) fs) fs_res" where
  "plain_folder_root e iid st =
     bindF (on_backend (get_folder (fe_ops e) iid) st) (\<lambda>data st.
     bindF (need (head_of_json KPlain data) st) (\<lambda>it st.
     bindF (new_item it st) (\<lambda>a st.
     bindF (load_items_from e a data st) (\<lambda>_ st.
     bindF (need (Option.bind (json_at ''storage'' data) json_str) st) (\<lambda>sid st.
     bindF (load_cfg e sid st) (\<lambda>cfg st.
       (Inr a, put_item a ((item_at st a)\<lparr>it_cfg := Some cfg\<rparr>) st)))))))"

definition filesystem_root :: "('d, 's) fs_env \<Rightarrow> string \<Rightarrow> ('d, 's) fs \<Rightarrow> (nat, ('d, 's) fs) fs_res" where
  "filesystem_root e fsid st =
     bindF (on_backend (get_storage (fe_ops e) fsid) st) (\<lambda>data st. make_filesystem e None data st)"

definition super_root :: "('d, 's) fs \<Rightarrow> (nat, ('d, 's) fs) fs_res" where
  "super_root st = new_item ((blank_item KSuperRoot)\<lparr>it_name := ''SuperRoot''\<rparr>) st"

end
