(* ===== verification/Tree_Correct.thy ===== *)
theory Tree_Correct
  imports Folder_Tree
begin

text \<open>
  The invariant of the item tree: every entry of a folder is an item that knows this folder as its
  parent and the key of the entry as its name, so an item is in one place only. Every operation
  keeps it, whether it succeeds or throws, and whatever the backend answers but for one condition:
  the answer to the create or upload that writing back a new file makes carries the name of the
  file, since File::Refresh would otherwise rename the item under the key it has in its folder.
\<close>

section \<open>The invariant\<close>

definition live :: "('d, 's) fs \<Rightarrow> nat \<Rightarrow> bool" where
  "live st a \<longleftrightarrow> fs_items st a \<noteq> None"

definition linked :: "('d, 's) fs \<Rightarrow> nat \<Rightarrow> string \<Rightarrow> nat \<Rightarrow> bool" where
  "linked st a n c \<longleftrightarrow> live st c \<and> it_parent (item_at st c) = Some a \<and> it_name (item_at st c) = n"

definition item_ok :: "('d, 's) fs \<Rightarrow> nat \<Rightarrow> bool" where
  "item_ok st a \<longleftrightarrow> a < fs_next st \<and> smap_ok (folder_items st a) \<and>
     (\<forall>(n, c) \<in> set (folder_items st a). linked st a n c) \<and>
     (\<forall>p. it_parent (item_at st a) = Some p \<longrightarrow> live st p) \<and>
     (it_kind (item_at st a) = KFile \<longrightarrow> it_data (item_at st a) \<noteq> None) \<and>
     (it_kind (item_at st a) = KSuperRoot \<longrightarrow> \<not> it_have (item_at st a) \<longrightarrow> folder_items st a = [])"

definition tree_ok :: "('d, 's) fs \<Rightarrow> bool" where
  "tree_ok st \<longleftrightarrow> (\<forall>a. live st a \<longrightarrow> item_ok st a)"

text \<open>
  What loading and deleting keep of the items there are; an item whose scope lock is held stays
  where it is.
\<close>

definition extends :: "('d, 's) fs \<Rightarrow> ('d, 's) fs \<Rightarrow> bool" where
  "extends st st' \<longleftrightarrow> fs_pins st' = fs_pins st \<and> (\<forall>a. live st a \<longrightarrow> live st' a \<and>
     it_parent (item_at st' a) = it_parent (item_at st a) \<and> it_name (item_at st' a) = it_name (item_at st a) \<and>
     it_kind (item_at st' a) = it_kind (item_at st a) \<and> (it_have (item_at st a) \<longrightarrow> it_have (item_at st' a)) \<and>
     (\<forall>n. \<forall>c \<in> set (fs_pins st). sm_find (folder_items st a) n = Some c \<longrightarrow> sm_find (folder_items st' a) n = Some c))"

lemma extends_refl [simp]: "extends st st"
  by (simp add: extends_def)

lemma extends_trans: "extends st st1 \<Longrightarrow> extends st1 st2 \<Longrightarrow> extends st st2"
  by (simp add: extends_def)

lemma extends_pinned:
  "extends st st' \<Longrightarrow> live st a \<Longrightarrow> c \<in> set (fs_pins st) \<Longrightarrow> sm_find (folder_items st a) n = Some c \<Longrightarrow>
    sm_find (folder_items st' a) n = Some c"
  by (simp add: extends_def)

lemma extends_kind: "extends st st' \<Longrightarrow> live st a \<Longrightarrow> it_kind (item_at st' a) = it_kind (item_at st a)"
  by (simp add: extends_def)

lemma extends_live: "extends st st' \<Longrightarrow> live st a \<Longrightarrow> live st' a"
  by (simp add: extends_def)

lemma tree_ok_item: "tree_ok st \<Longrightarrow> live st a \<Longrightarrow> item_ok st a"
  by (simp add: tree_ok_def)

lemma tree_ok_find:
  assumes "tree_ok st" and "live st a" and "sm_find (folder_items st a) n = Some c"
  shows "linked st a n c"
  using tree_ok_item [OF assms(1,2)] sm_find_in [OF assms(3)] by (auto simp: item_ok_def)

text \<open>A result that is fine: the tree is, and Q holds of what is returned.\<close>

definition fine :: "('d, 's) fs \<Rightarrow> ('a \<Rightarrow> ('d, 's) fs \<Rightarrow> bool) \<Rightarrow> ('a, ('d, 's) fs) fs_res \<Rightarrow> bool" where
  "fine st Q m \<longleftrightarrow> tree_ok (snd m) \<and> extends st (snd m) \<and> (\<forall>x. fst m = Inr x \<longrightarrow> Q x (snd m))"

lemma fine_Inl [simp]: "fine st Q (Inl x, st') \<longleftrightarrow> tree_ok st' \<and> extends st st'"
  by (simp add: fine_def)

lemma fine_Inr [simp]: "fine st Q (Inr x, st') \<longleftrightarrow> tree_ok st' \<and> extends st st' \<and> Q x st'"
  by (simp add: fine_def)

lemma fine_bind:
  assumes "fine st Q m" and "\<And>x st'. tree_ok st' \<Longrightarrow> extends st st' \<Longrightarrow> Q x st' \<Longrightarrow> fine st' R (f x st')"
  shows "fine st R (bindF m f)"
proof (cases m)
  case (Pair r st1)
  show ?thesis
  proof (cases r)
    case (Inr x)
    have "fine st1 R (f x st1)" using assms by (simp add: Pair Inr)
    moreover have "extends st st1" using assms(1) by (simp add: Pair Inr)
    ultimately show ?thesis by (auto simp: Pair Inr fine_def intro: extends_trans)
  qed (use assms in \<open>simp add: Pair\<close>)
qed

lemma fine_weaken: "fine st Q m \<Longrightarrow> (\<And>x st'. extends st st' \<Longrightarrow> Q x st' \<Longrightarrow> R x st') \<Longrightarrow> fine st R m"
  by (auto simp: fine_def)

lemma fine_need: "tree_ok st \<Longrightarrow> fine st (\<lambda>v st'. x = Some v \<and> st' = st) (need x st)"
  by (simp add: need_def split: option.split)

section \<open>Changes of the store\<close>

lemma store_simps [simp]:
  "item_at (put_item a it st) b = (if b = a then it else item_at st b)"
  "live (put_item a it st) b \<longleftrightarrow> b = a \<or> live st b"
  "fs_next (put_item a it st) = fs_next st"
  "folder_items (put_item a it st) b = (if b = a then it_items it else folder_items st b)"
  "fs_backend (put_item a it st) = fs_backend st" "fs_pins (put_item a it st) = fs_pins st"
  by (simp_all add: item_at_def put_item_def live_def folder_items_def)

lemma backend_simps [simp]:
  "item_at (st\<lparr>fs_backend := b\<rparr>) a = item_at st a" "live (st\<lparr>fs_backend := b\<rparr>) a = live st a"
  "folder_items (st\<lparr>fs_backend := b\<rparr>) a = folder_items st a"
  "item_at (st\<lparr>fs_cfgs := cs\<rparr>) a = item_at st a" "live (st\<lparr>fs_cfgs := cs\<rparr>) a = live st a"
  "folder_items (st\<lparr>fs_cfgs := cs\<rparr>) a = folder_items st a"
  "item_at (st\<lparr>fs_pins := ps\<rparr>) a = item_at st a" "live (st\<lparr>fs_pins := ps\<rparr>) a = live st a"
  "folder_items (st\<lparr>fs_pins := ps\<rparr>) a = folder_items st a"
  by (simp_all add: item_at_def live_def folder_items_def)

lemma tree_ok_outside [simp]:
  "tree_ok (st\<lparr>fs_backend := b\<rparr>) = tree_ok st" "extends st' (st\<lparr>fs_backend := b\<rparr>) = extends st' st"
  "tree_ok (st\<lparr>fs_cfgs := cs\<rparr>) = tree_ok st" "extends st' (st\<lparr>fs_cfgs := cs\<rparr>) = extends st' st"
  "tree_ok (st\<lparr>fs_pins := ps\<rparr>) = tree_ok st"
  by (simp_all add: tree_ok_def item_ok_def linked_def extends_def)

text \<open>Replacing an item by one in the same place with the same contents.\<close>

definition same_place :: "'d item \<Rightarrow> 'd item \<Rightarrow> bool" where
  "same_place it it' \<longleftrightarrow> it_parent it' = it_parent it \<and> it_name it' = it_name it \<and> it_kind it' = it_kind it \<and>
     it_items it' = it_items it \<and> (it_have it \<longrightarrow> it_have it') \<and> (it_data it \<noteq> None \<longrightarrow> it_data it' \<noteq> None)"

lemma same_place_refl [simp]: "same_place it it"
  by (simp add: same_place_def)

lemma same_place_trans: "same_place a b \<Longrightarrow> same_place b c \<Longrightarrow> same_place a c"
  by (simp add: same_place_def)

lemma put_same_place:
  assumes "tree_ok st" and "live st a" and "same_place (item_at st a) it"
  shows "tree_ok (put_item a it st) \<and> extends st (put_item a it st)"
  using assms by (auto simp: tree_ok_def item_ok_def linked_def same_place_def extends_def folder_items_def split: if_splits)

lemma set_items_ok:
  assumes "tree_ok st" and "live st a" and "smap_ok m" and "\<And>n c. (n, c) \<in> set m \<Longrightarrow> linked st a n c"
    and "it_kind (item_at st a) = KSuperRoot \<Longrightarrow> \<not> it_have (item_at st a) \<Longrightarrow> m = []"
  shows "tree_ok (set_items a m st) \<and> ((\<forall>n. \<forall>c \<in> set (fs_pins st). sm_find (folder_items st a) n = Some c \<longrightarrow> sm_find m n = Some c) \<longrightarrow>
    extends st (set_items a m st))"
proof -
  have l: "linked (set_items a m st) b n c \<longleftrightarrow> linked st b n c" for b n c
    using assms(2) by (auto simp: linked_def set_items_def)
  have "item_ok (set_items a m st) b" if "live st b" for b
    using tree_ok_item [OF assms(1) that] assms(2-5) l
    by (auto simp: item_ok_def set_items_def split: if_splits)
  then have "tree_ok (set_items a m st)" using assms(2) by (auto simp: tree_ok_def set_items_def)
  then show ?thesis using assms(2) by (auto simp: extends_def set_items_def)
qed

lemma in_assign: "(n, c) \<in> set (sm_assign k v m) \<Longrightarrow> smap_ok m \<Longrightarrow> (n, c) = (k, v) \<or> n \<noteq> k \<and> (n, c) \<in> set m"
  by (metis map_of_SomeD map_of_assign fun_upd_apply in_sm_find smap_ok_assign option.inject)

lemma in_erase: "(n, c) \<in> set (sm_erase k m) \<Longrightarrow> smap_ok m \<Longrightarrow> n \<noteq> k \<and> (n, c) \<in> set m"
  by (metis map_of_SomeD map_of_erase fun_upd_apply in_sm_find smap_ok_erase option.distinct(1))

lemma assign_items_ok:
  assumes "tree_ok st" and "live st a" and "linked st a n c" and k: "it_kind (item_at st a) \<noteq> KSuperRoot"
  shows "tree_ok (set_items a (sm_assign n c (folder_items st a)) st)"
    and "sm_find (folder_items st a) n = None \<Longrightarrow> extends st (set_items a (sm_assign n c (folder_items st a)) st)"
proof -
  have ok: "item_ok st a" using assms tree_ok_item by blast
  have s: "smap_ok (sm_assign n c (folder_items st a))" using ok by (simp add: item_ok_def smap_ok_assign)
  have l: "linked st a n' c'" if "(n', c') \<in> set (sm_assign n c (folder_items st a))" for n' c'
    using in_assign [OF that] ok assms(3) by (auto simp: item_ok_def)
  show "tree_ok (set_items a (sm_assign n c (folder_items st a)) st)"
    using set_items_ok [OF assms(1,2) s l] k by blast
  assume "sm_find (folder_items st a) n = None"
  then show "extends st (set_items a (sm_assign n c (folder_items st a)) st)"
    using set_items_ok [OF assms(1,2) s l] k by (auto simp: sm_find_def)
qed

lemma erase_items_ok:
  assumes "tree_ok st" and "live st a"
  shows "tree_ok (set_items a (sm_erase n (folder_items st a)) st)"
    and "(\<And>c. sm_find (folder_items st a) n = Some c \<Longrightarrow> c \<notin> set (fs_pins st)) \<Longrightarrow>
      extends st (set_items a (sm_erase n (folder_items st a)) st)"
proof -
  have ok: "item_ok st a" using assms tree_ok_item by blast
  have s: "smap_ok (sm_erase n (folder_items st a))" using ok by (simp add: item_ok_def smap_ok_erase)
  have l: "linked st a n' c'" if "(n', c') \<in> set (sm_erase n (folder_items st a))" for n' c'
    using in_erase [OF that] ok by (auto simp: item_ok_def)
  have e: "sm_erase n (folder_items st a) = []" if "it_kind (item_at st a) = KSuperRoot" "\<not> it_have (item_at st a)"
    using ok that by (simp add: item_ok_def)
  show "tree_ok (set_items a (sm_erase n (folder_items st a)) st)"
    using set_items_ok [OF assms(1,2) s l e] by blast
  assume free: "\<And>c. sm_find (folder_items st a) n = Some c \<Longrightarrow> c \<notin> set (fs_pins st)"
  have "sm_find (sm_erase n (folder_items st a)) k = Some c" if "c \<in> set (fs_pins st)" "sm_find (folder_items st a) k = Some c" for k c
    using that free [of c] ok by (cases "k = n") (auto simp: sm_find_def item_ok_def)
  then show "extends st (set_items a (sm_erase n (folder_items st a)) st)"
    using set_items_ok [OF assms(1,2) s l e] by blast
qed

lemma new_item_ok:
  assumes "tree_ok st" and "it_items it = []" and "\<And>p. it_parent it = Some p \<Longrightarrow> live st p"
    and "it_kind it = KFile \<Longrightarrow> it_data it \<noteq> None"
  shows "fine st (\<lambda>c st'. live st' c \<and> item_at st' c = it \<and> \<not> live st c \<and> (\<forall>b. live st b \<longrightarrow> item_at st' b = item_at st b)) (new_item it st)"
proof -
  have fresh: "\<not> live st (fs_next st)" using assms(1) by (auto simp: tree_ok_def item_ok_def)
  let ?st = "st\<lparr>fs_items := (fs_items st)(fs_next st \<mapsto> it), fs_next := Suc (fs_next st)\<rparr>"
  have at: "item_at ?st b = (if b = fs_next st then it else item_at st b)" "live ?st b \<longleftrightarrow> b = fs_next st \<or> live st b" for b
    by (simp_all add: item_at_def live_def)
  have "item_ok ?st b" if b: "live st b" for b
  proof -
    have ok: "item_ok st b" and ne: "b \<noteq> fs_next st" using assms(1) b fresh tree_ok_item by blast+
    have "linked ?st b n c" if "(n, c) \<in> set (folder_items st b)" for n c
      using ok that fresh by (auto simp: item_ok_def linked_def at)
    then show ?thesis using ok ne by (auto simp: item_ok_def at folder_items_def)
  qed
  moreover have "item_ok ?st (fs_next st)"
    using assms by (auto simp: item_ok_def at folder_items_def)
  ultimately have "tree_ok ?st" by (auto simp: tree_ok_def at)
  then show ?thesis using fresh by (auto simp: new_item_def extends_def at folder_items_def)
qed

lemma fine_on_backend: "tree_ok st \<Longrightarrow> fine st (\<lambda>_ st'. \<forall>b. item_at st' b = item_at st b) (on_backend f st)"
  by (cases "f (fs_backend st)"; cases "fst (f (fs_backend st))") (auto simp: on_backend_def fine_def)

section \<open>Constructors and refreshing\<close>

lemma fine_load_cfg: "tree_ok st \<Longrightarrow> fine st (\<lambda>_ st'. \<forall>b. item_at st' b = item_at st b) (load_cfg e sid st)"
  unfolding load_cfg_def
  by (auto split: option.split intro!: fine_bind [OF fine_on_backend] fine_bind [OF fine_need])

lemma head_of_json_head:
  "head_of_json kind data = Some it \<Longrightarrow>
    it_kind it = kind \<and> it_items it = [] \<and> Option.bind (json_at ''name'' data) json_str = Some (it_name it)"
  by (auto simp: head_of_json_def blank_item_def bind_eq_Some_conv)

text \<open>What a constructor called by folder a with the JSON of an item returns.\<close>

definition made :: "nat \<Rightarrow> json \<Rightarrow> ('d, 's) fs \<Rightarrow> nat \<Rightarrow> ('d, 's) fs \<Rightarrow> bool" where
  "made a data st c st' \<longleftrightarrow> \<not> live st c \<and> (\<forall>n. Option.bind (json_at ''name'' data) json_str = Some n \<longrightarrow> linked st' a n c) \<and>
     linked st' a (it_name (item_at st' c)) c \<and> folder_items st' a = folder_items st a"

lemma made_new:
  assumes "tree_ok st" and "live st a" and "extends st0 st" and "\<forall>b. item_at st b = item_at st0 b" and "it_items it = []" and "it_parent it = Some a"
    and "it_kind it = KFile \<Longrightarrow> it_data it \<noteq> None"
    and "Option.bind (json_at ''name'' data) json_str = Some (it_name it)"
  shows "fine st (made a data st0) (new_item it st)"
proof (rule fine_weaken [OF new_item_ok])
  fix c st'
  assume "extends st st'" "live st' c \<and> item_at st' c = it \<and> \<not> live st c \<and> (\<forall>b. live st b \<longrightarrow> item_at st' b = item_at st b)"
  then show "made a data st0 c st'" using assms by (auto simp: made_def linked_def folder_items_def dest: extends_live)
qed (use assms in auto)

lemma fine_make_file:
  assumes "tree_ok st" and "live st a"
  shows "fine st (made a data st) (make_file e a data st)"
  unfolding make_file_def using assms(1)
  by (rule fine_bind [OF fine_need], intro fine_bind [OF fine_need] fine_bind [OF fine_load_cfg] made_new)
    (use assms in \<open>auto dest!: head_of_json_head dest: extends_live\<close>)

lemma fine_make_plain:
  assumes "tree_ok st" and "live st a"
  shows "fine st (made a data st) (make_plain e a data st)"
  unfolding make_plain_def using assms(1)
  by (rule fine_bind [OF fine_need], intro fine_bind [OF fine_need] fine_bind [OF fine_load_cfg] made_new)
    (use assms in \<open>auto dest!: head_of_json_head dest: extends_live\<close>)

lemma fine_make_filesystem:
  assumes "tree_ok st" and "live st a"
  shows "fine st (made a data st) (make_filesystem e (Some a) data st)"
  unfolding make_filesystem_def using assms(1)
  by (rule fine_bind [OF fine_need], intro fine_bind [OF fine_load_cfg] made_new)
    (use assms in \<open>auto dest!: head_of_json_head dest: extends_live\<close>)

lemma fine_make_item: "tree_ok st \<Longrightarrow> live st a \<Longrightarrow> fine st (made a data st) (make_item e kind a data st)"
  by (cases kind) (simp_all add: make_item_def fine_make_file fine_make_plain fine_make_filesystem)

text \<open>Refresh leaves the item where it is when the JSON has its name.\<close>

lemma bindF_Pair: "bindF m f = (r, w) \<longleftrightarrow>
    (\<exists>x. m = (Inl x, w) \<and> r = Inl x) \<or> (\<exists>x w'. m = (Inr x, w') \<and> f x w' = (r, w))"
  by (cases m; cases "fst m") auto

lemma need_Pair: "need x w = (r, w') \<longleftrightarrow> w' = w \<and> r = (case x of None \<Rightarrow> Inl (FSBackend JsonException) | Some v \<Rightarrow> Inr v)"
  by (auto simp: need_def split: option.split)

lemma refresh_date_place:
  assumes "refresh_date key data upd it = (r, it')" and "\<And>d it. same_place it (upd d it)"
  shows "same_place it it'"
  using assms by (auto simp: refresh_date_def bindF_Pair need_Pair split: if_splits)

lemma refresh_head_place:
  assumes "refresh_head data it = (r, it')" and "\<And>n. Option.bind (json_at ''name'' data) json_str = Some n \<Longrightarrow> n = it_name it"
  shows "same_place it it'"
proof -
  have d: "same_place it it2" if "refresh_date k data upd it1 = (r2, it2)" "same_place it it1" "\<And>d it. same_place it (upd d it)"
    for k upd it1 r2 it2 using refresh_date_place [OF that(1) that(3)] that(2) same_place_trans by blast
  have n: "it\<lparr>it_name := it_name it\<rparr> = it" by simp
  show ?thesis
  proof (cases "Option.bind (json_at ''name'' data) json_str")
    case (Some n)
    then have nm: "Option.bind (json_at ''name'' data) json_str = Some (it_name it)" using assms(2) by simp
    show ?thesis using assms(1) nm
      by (auto simp: refresh_head_def bindF_Pair need_Pair split: option.splits dest!: d)
        (auto simp: same_place_def)
  qed (use assms(1) in \<open>simp add: refresh_head_def bindF_Pair need_Pair\<close>)
qed

lemma refresh_meta_place:
  assumes "refresh_meta data it = (r, it')" and "\<And>n. Option.bind (json_at ''name'' data) json_str = Some n \<Longrightarrow> n = it_name it"
  shows "same_place it it'"
proof -
  obtain r1 it1 where h: "refresh_head data it = (r1, it1)" by force
  have s: "same_place it it1" by (rule refresh_head_place [OF h assms(2)])
  have k: "same_place it1 it'" using assms(1) unfolding refresh_meta_def h
    by (auto simp: bindF_Pair need_Pair same_place_def split: if_splits option.splits)
  show ?thesis by (rule same_place_trans [OF s k])
qed

lemma refresh_file_place:
  assumes "refresh_file e data it = (r, it')" and "\<And>n. Option.bind (json_at ''name'' data) json_str = Some n \<Longrightarrow> n = it_name it"
  shows "same_place it it'"
proof -
  obtain r1 it1 where h: "refresh_meta data it = (r1, it1)" by force
  have s: "same_place it it1" by (rule refresh_meta_place [OF h assms(2)])
  show ?thesis
  proof (cases r1)
    case (Inl x)
    then show ?thesis using assms(1) h s by (auto simp: refresh_file_def bindF_Pair)
  next
    case (Inr x)
    have k: "same_place it1 it'" using assms(1) unfolding refresh_file_def h Inr
      by (auto simp: bindF_Pair need_Pair same_place_def split: if_splits option.splits)
    show ?thesis by (rule same_place_trans [OF s k])
  qed
qed

lemma item_refresh_place:
  "item_refresh e data it = (r, it') \<Longrightarrow> Option.bind (json_at ''name'' data) json_str = Some (it_name it) \<Longrightarrow> same_place it it'"
  using refresh_head_place [of data it r it'] refresh_file_place [of e data it r it']
  by (auto simp: item_refresh_def split: item_kind.splits)

lemma fine_refresh_at:
  assumes "tree_ok st" and "live st c" and "Option.bind (json_at ''name'' data) json_str = Some (it_name (item_at st c))"
  shows "fine st (\<lambda>_ st'. \<exists>r it. item_refresh e data (item_at st c) = (r, it) \<and> st' = put_item c it st) (refresh_at e c data st)"
proof (cases "item_refresh e data (item_at st c)")
  case (Pair r it)
  then show ?thesis using put_same_place [OF assms(1,2) item_refresh_place [OF Pair assms(3)]]
    by (auto simp: refresh_at_def fine_def)
qed

section \<open>Loading\<close>

text \<open>The map of new items is keyed by the names in their JSON.\<close>

definition keyed :: "(string, new_kind \<times> json) smap \<Rightarrow> bool" where
  "keyed m \<longleftrightarrow> smap_ok m \<and> (\<forall>(n, k, data) \<in> set m. Option.bind (json_at ''name'' data) json_str = Some n)"

lemma keyed_Cons: "keyed ((n, k, data) # m) \<Longrightarrow> Option.bind (json_at ''name'' data) json_str = Some n \<and> keyed m"
  by (auto simp: keyed_def smap_ok_Cons)

lemma emplace_new_keyed: "keyed m \<Longrightarrow> emplace_new kind js m = Some m' \<Longrightarrow> keyed m'"
proof (induction js arbitrary: m)
  case (Cons j js)
  obtain n where n: "Option.bind (json_at ''name'' j) json_str = Some n" and r: "emplace_new kind js (sm_emplace n (kind, j) m) = Some m'"
    using Cons.prems(2) by (auto simp: bind_eq_Some_conv)
  have "keyed (sm_emplace n (kind, j) m)"
    using Cons.prems(1) n in_assign [of _ _ n "(kind, j)" m]
    by (fastforce simp: keyed_def sm_emplace_def smap_ok_assign)
  then show ?case using Cons.IH r by blast
qed simp

lemma fine_insert:
  assumes "tree_ok st" and "live st a" and "linked st a n c" and "it_kind (item_at st a) \<noteq> KSuperRoot"
    and "sm_find (folder_items st a) n = None"
  shows "fine st (\<lambda>_ _. True) (Inr (), set_items a (sm_assign n c (folder_items st a)) st)"
  using assign_items_ok [OF assms(1-4)] assms(5) by simp

lemma fine_sync_new:
  "tree_ok st \<Longrightarrow> live st a \<Longrightarrow> it_kind (item_at st a) \<noteq> KSuperRoot \<Longrightarrow> keyed m \<Longrightarrow>
    fine st (\<lambda>_ _. True) (sync_new e a m st)"
proof (induction m arbitrary: st)
  case (Cons x m)
  obtain name kind data where x: "x = (name, kind, data)" by (metis surj_pair)
  have nm: "Option.bind (json_at ''name'' data) json_str = Some name" and k: "keyed m"
    using keyed_Cons Cons.prems(4) unfolding x by blast+
  have "fine st (\<lambda>_ _. True) (case sm_find (folder_items st a) name of
      None \<Rightarrow> bindF (make_item e kind a data st) (\<lambda>c st. (Inr (), set_items a (sm_assign name c (folder_items st a)) st))
    | Some c \<Rightarrow> refresh_at e c data st)" (is "fine _ _ ?m")
  proof (cases "sm_find (folder_items st a) name")
    case None
    have "fine st (\<lambda>_ _. True) (bindF (make_item e kind a data st) (\<lambda>c st. (Inr (), set_items a (sm_assign name c (folder_items st a)) st)))"
    proof (rule fine_bind [OF fine_make_item [OF Cons.prems(1,2)]])
      fix c st' assume "tree_ok st'" and ext: "extends st st'" and "made a data st c st'"
      then show "fine st' (\<lambda>_ _. True) (Inr (), set_items a (sm_assign name c (folder_items st' a)) st')"
        using nm None Cons.prems(3) extends_kind [OF ext Cons.prems(2)] extends_live [OF ext Cons.prems(2)]
        by (intro fine_insert) (auto simp: made_def)
    qed
    then show ?thesis by (simp only: None option.case)
  next
    case (Some c)
    have l: "linked st a name c" by (rule tree_ok_find [OF Cons.prems(1,2) Some])
    show ?thesis unfolding Some option.case
      by (rule fine_weaken [OF fine_refresh_at]) (use l Cons.prems nm in \<open>auto simp: linked_def\<close>)
  qed
  then have "fine st (\<lambda>_ _. True) (bindF ?m (\<lambda>_. sync_new e a m))"
  proof (rule fine_bind)
    fix st' assume st': "tree_ok st'" "extends st st'"
    show "fine st' (\<lambda>_ _. True) (sync_new e a m st')"
      by (rule Cons.IH [OF st'(1) extends_live [OF st'(2) Cons.prems(2)] _ k])
        (simp add: extends_kind [OF st'(2) Cons.prems(2)] Cons.prems(3))
  qed
  then show ?case using Cons.prems(1) unfolding x by simp
qed simp

lemma scope_free_pin: "scope_free fuel c st \<Longrightarrow> c \<notin> set (fs_pins st)"
  by (cases fuel) simp_all

text \<open>The loop goes over entries that the folder still has.\<close>

lemma fine_sync_old:
  "tree_ok st \<Longrightarrow> live st a \<Longrightarrow> smap_ok old \<Longrightarrow> set old \<subseteq> set (folder_items st a) \<Longrightarrow>
    fine st (\<lambda>_ _. True) (sync_old e a m old st)"
proof (induction e a m old st rule: sync_old.induct)
  case (2 e a m name c rest st)
  let ?st = "set_items a (sm_erase name (folder_items st a)) st"
  have ok: "smap_ok (folder_items st a)" using tree_ok_item [OF 2(3,4)] by (simp add: item_ok_def)
  have c: "sm_find (folder_items st a) name = Some c"
    using 2(6) in_sm_find [OF ok] by (auto simp: sm_find_def)
  have rest: "smap_ok rest" "name \<notin> fst ` set rest" using 2(5) by (auto simp: smap_ok_Cons)
  have "fine st (\<lambda>_ _. True) (sync_old e a m rest ?st)"
    if "sm_find m name = None \<and> remote_item e (item_at st c)" and free: "scope_free (fs_next st) c st"
  proof -
    have e: "tree_ok ?st" "extends st ?st"
      using erase_items_ok [OF 2(3,4), of name] c scope_free_pin [OF free] by auto
    have "(n, d) \<in> set (folder_items ?st a)" if "(n, d) \<in> set rest" for n d
    proof -
      have "n \<noteq> name" "sm_find (folder_items st a) n = Some d"
        using that rest(2) 2(6) in_sm_find [OF ok] by (force simp: sm_find_def)+
      then show ?thesis using ok by (auto simp: set_items_def sm_find_def intro!: map_of_SomeD)
    qed
    then have "set rest \<subseteq> set (folder_items ?st a)" by auto
    from 2(1) [OF that e(1) extends_live [OF e(2) 2(4)] rest(1) this] show ?thesis
      using e(2) by (auto simp: fine_def intro: extends_trans)
  qed
  then show ?case using 2 rest by auto
qed simp

lemma fine_sync_contents:
  assumes "tree_ok st" and "live st a" and "it_kind (item_at st a) \<noteq> KSuperRoot" and "keyed m"
  shows "fine st (\<lambda>_ _. True) (sync_contents e a m st)"
  unfolding sync_contents_def
proof (rule fine_bind [OF fine_sync_new [OF assms]])
  fix x st' assume st': "tree_ok st'" "extends st st'"
  have l: "live st' a" using st'(2) assms(2) by (rule extends_live)
  show "fine st' (\<lambda>_ _. True) (sync_old e a m (folder_items st' a) st')"
    by (rule fine_sync_old [OF st'(1) l]) (use tree_ok_item [OF st'(1) l] in \<open>auto simp: item_ok_def\<close>)
qed

lemma fine_load_items_from:
  "tree_ok st \<Longrightarrow> live st a \<Longrightarrow> it_kind (item_at st a) \<noteq> KSuperRoot \<Longrightarrow> fine st (\<lambda>_ _. True) (load_items_from e a data st)"
  unfolding load_items_from_def
  by (intro fine_bind [OF fine_need] fine_sync_contents)
    (auto simp: bind_eq_Some_conv keyed_def intro: emplace_new_keyed dest!: emplace_new_keyed [rotated])

lemma fine_load_id: "tree_ok st \<Longrightarrow> live st a \<Longrightarrow> fine st (\<lambda>_ _. True) (load_id a data st)"
  unfolding load_id_def
  by (rule fine_bind [OF fine_need]) (auto simp: same_place_def put_same_place)

lemma fine_get_id: "tree_ok st \<Longrightarrow> live st a \<Longrightarrow> fine st (\<lambda>_ _. True) (get_id e a st)"
  unfolding get_id_def
  by (auto split: item_kind.split intro!: fine_bind [OF fine_on_backend] fine_bind [OF fine_load_id] dest: extends_live)

lemma keyed_Nil: "keyed []"
  by (simp add: keyed_def)

lemma fine_sub_load_items:
  assumes "tree_ok st" and "live st a" and "it_kind (item_at st a) \<noteq> KSuperRoot"
  shows "fine st (\<lambda>_ _. True) (sub_load_items e a st)"
proof -
  have k: "keyed m" if "Option.bind (dated_storages data js) (\<lambda>js. emplace_new NewFilesystem js []) = Some m" for data js m
    using that keyed_Nil emplace_new_keyed by (auto simp: bind_eq_Some_conv)
  have l: "fine st' (\<lambda>_ _. True) (if it_id (item_at st' a) = [] then load_id a data st' else (Inr (), st'))"
    if "tree_ok st'" "live st' a" for st' data using that fine_load_id by auto
  show ?thesis using assms unfolding sub_load_items_def
    by (auto split: item_kind.split dest: extends_live extends_kind intro!: fine_bind [OF fine_on_backend] fine_bind [OF fine_need]
        fine_bind [OF l] fine_bind [OF fine_get_id] fine_load_items_from fine_sync_contents k)
qed

lemma fine_set_have:
  "tree_ok st \<Longrightarrow> live st a \<Longrightarrow>
    fine st (\<lambda>_ st'. it_have (item_at st' a)) (Inr (), put_item a ((item_at st a)\<lparr>it_refreshed := t, it_have := True\<rparr>) st)"
  by (simp add: put_same_place same_place_def)

lemma fine_super_root_load:
  assumes ok: "tree_ok st" and a: "live st a" and k: "it_kind (item_at st a) = KSuperRoot"
  shows "fine st (\<lambda>_ st'. it_have (item_at st' a)) (super_root_load a st)"
proof (cases "it_have (item_at st a)")
  case False
  have fresh: "\<not> live st b" if "fs_next st \<le> b" for b using ok that by (auto simp: tree_ok_def item_ok_def)
  have ne: "a < fs_next st" "folder_items st a = []" using tree_ok_item [OF ok a] k False by (auto simp: item_ok_def)
  obtain st' where r: "super_root_load a st = (Inr (), st')" and
    l: "\<And>b. live st' b \<longleftrightarrow> live st b \<or> b = fs_next st \<or> b = Suc (fs_next st)" "fs_pins st' = fs_pins st" "fs_next st' = fs_next st + 2"
      "\<And>b. b \<noteq> a \<Longrightarrow> b < fs_next st \<Longrightarrow> item_at st' b = item_at st b" "it_have (item_at st' a)" "it_kind (item_at st' a) = KSuperRoot"
      "it_parent (item_at st' a) = it_parent (item_at st a)" "it_name (item_at st' a) = it_name (item_at st a)"
      "it_items (item_at st' a) = [(''Adopted by others'', fs_next st), (''Filesystems'', Suc (fs_next st))]"
      "item_at st' (fs_next st) = (blank_item KAdopted)\<lparr>it_name := ''Adopted by others'', it_parent := Some a\<rparr>"
      "item_at st' (Suc (fs_next st)) = (blank_item KFilesystems)\<lparr>it_name := ''Filesystems'', it_parent := Some a\<rparr>"
    using False k a ne by (auto simp: super_root_load_def new_item_def set_items_def put_item_def item_at_def live_def folder_items_def)
  have "item_ok st' b" if "live st' b" for b
  proof (cases "b = a")
    case True
    have "(''Adopted by others'' :: string) < ''Filesystems''" by code_simp
    then show ?thesis using tree_ok_item [OF ok a] True
      by (auto simp: item_ok_def l linked_def folder_items_def smap_ok_Cons)
  next
    case False
    show ?thesis
    proof (cases "live st b")
      case b: True
      have bok: "item_ok st b" and lt: "b < fs_next st" using tree_ok_item [OF ok b] by (auto simp: item_ok_def)
      have "linked st' b n c" if "linked st b n c" for n c
      proof -
        have "c < fs_next st" using fresh that by (auto simp: linked_def not_le [symmetric])
        then show ?thesis using that False by (cases "c = a") (auto simp: linked_def l)
      qed
      then show ?thesis using bok lt False by (auto simp: item_ok_def l folder_items_def)
    qed (use that False a in \<open>auto simp: item_ok_def l blank_item_def folder_items_def\<close>)
  qed
  moreover have "extends st st'"
  proof -
    have "live st' b \<and> it_parent (item_at st' b) = it_parent (item_at st b) \<and> it_name (item_at st' b) = it_name (item_at st b) \<and>
        it_kind (item_at st' b) = it_kind (item_at st b) \<and> (it_have (item_at st b) \<longrightarrow> it_have (item_at st' b)) \<and>
        (\<forall>n c. sm_find (folder_items st b) n = Some c \<longrightarrow> sm_find (folder_items st' b) n = Some c)" if b: "live st b" for b
    proof (cases "b = a")
      case True
      then show ?thesis using b ne(2) k by (simp add: l sm_find_def)
    next
      case False
      moreover have "b < fs_next st" using tree_ok_item [OF ok b] by (simp add: item_ok_def)
      ultimately show ?thesis using b by (simp add: l folder_items_def)
    qed
    then show ?thesis unfolding extends_def l(2) by blast
  qed
  ultimately show ?thesis using r l(5) by (simp add: tree_ok_def)
qed (use ok in \<open>simp add: super_root_load_def\<close>)

lemma fine_load_items:
  assumes "tree_ok st" and "live st a"
  shows "fine st (\<lambda>_ st'. it_have (item_at st' a)) (load_items e a can_refresh st)"
proof (cases "it_kind (item_at st a) = KSuperRoot")
  case False
  then show ?thesis unfolding load_items_def Let_def using assms
    by (auto intro!: fine_bind [OF fine_sub_load_items] fine_set_have intro: extends_live)
qed (use fine_super_root_load [OF assms] in \<open>simp add: load_items_def\<close>)

text \<open>The item at the end of a path below a folder, by the names and parents of the items.\<close>

fun below :: "('d, 's) fs \<Rightarrow> nat \<Rightarrow> string list \<Rightarrow> nat \<Rightarrow> bool" where
  "below st a [] c \<longleftrightarrow> c = a"
| "below st a (p # ps) c \<longleftrightarrow> (\<exists>b. linked st a p b \<and> below st b ps c)"

lemma below_extends: "below st a ps c \<Longrightarrow> extends st st' \<Longrightarrow> below st' a ps c"
  by (induction ps arbitrary: a) (auto simp: linked_def extends_def)

lemma fine_walk: "tree_ok st \<Longrightarrow> live st a \<Longrightarrow> fine st (\<lambda>c st'. below st' a ps c \<and> live st' c) (walk e a ps st)"
proof (induction e a ps st rule: walk.induct)
  case (2 e a p ps st)
  show ?case unfolding walk.simps
  proof (rule fine_bind [OF fine_load_items [OF 2(2,3)]])
    fix x st' assume ok: "tree_ok st'" and ext: "extends st st'"
    have live: "live st' a" using ext 2(3) by (rule extends_live)
    show "fine st' (\<lambda>c st'. below st' a (p # ps) c \<and> live st' c) (case sm_find (folder_items st' a) p of
        None \<Rightarrow> (Inl NotFound, st')
      | Some c \<Rightarrow> if ps = [] then (Inr c, st') else if it_kind (item_at st' c) = KFile then (Inl NotFolder, st') else walk e c ps st')"
    proof (cases "sm_find (folder_items st' a) p")
      case (Some c)
      have l: "linked st' a p c" by (rule tree_ok_find [OF ok live Some])
      show ?thesis
      proof (cases "ps = [] \<or> it_kind (item_at st' c) = KFile")
        case False
        have "fine st' (\<lambda>d st'. below st' c ps d \<and> live st' d) (walk e c ps st')"
          by (rule 2(1)) (use Some False ok l in \<open>auto simp: linked_def\<close>)
        then have "fine st' (\<lambda>d st'. below st' a (p # ps) d \<and> live st' d) (walk e c ps st')"
        proof (rule fine_weaken)
          fix d st2 assume "extends st' st2" "below st2 c ps d \<and> live st2 d"
          then show "below st2 a (p # ps) d \<and> live st2 d" using l by (auto simp: linked_def extends_def)
        qed
        then show ?thesis using Some False by simp
      qed (use Some ok l in \<open>auto simp: linked_def\<close>)
    qed (use ok in simp)
  qed
qed simp

section \<open>Changes\<close>

lemma bindF_assoc: "bindF (bindF m f) g = bindF m (\<lambda>x w. bindF (f x w) g)"
  by (cases m; cases "fst m") auto


text \<open>
  The condition on the server: an answer with which writing back calls File::Refresh carries the
  name of the file, which is the name that the create or upload asked for.
\<close>

definition answers_named :: "('a, 'd, 's) data_call \<Rightarrow> bool" where
  "answers_named f \<longleftrightarrow> (\<forall>it b data n. fst (snd (snd (f it b))) = Some data \<longrightarrow>
     Option.bind (json_at ''name'' data) json_str = Some n \<longrightarrow> n = it_name it)"

definition created_as_named :: "('d, 's) fs_env \<Rightarrow> bool" where
  "created_as_named e \<longleftrightarrow> (\<forall>iid. answers_named (fo_flush (fe_data e) iid)) \<and> (\<forall>off n. answers_named (fo_read (fe_data e) off n)) \<and>
     (\<forall>iid off data. answers_named (fo_write (fe_data e) iid off data)) \<and> (\<forall>iid n. answers_named (fo_truncate (fe_data e) iid n))"

lemma data_op_place:
  assumes "answers_named f"
  obtains r it b where "data_op c f st = (r, put_item c it (st\<lparr>fs_backend := b\<rparr>))" and "same_place (item_at st c) it"
proof -
  obtain r d answer b where f: "f (item_at st c) (fs_backend st) = (r, d, answer, b)" by (metis surj_pair)
  define it where "it = (item_at st c)\<lparr>it_data := Some d\<rparr>"
  have it: "same_place (item_at st c) it" "it_name it = it_name (item_at st c)" by (simp_all add: it_def same_place_def)
  show thesis
  proof (cases answer)
    case None
    then have "data_op c f st = (r, put_item c it (st\<lparr>fs_backend := b\<rparr>))" by (simp add: data_op_def f it_def)
    then show thesis by (rule that [OF _ it(1)])
  next
    case (Some data)
    obtain m it' where m: "refresh_meta data it = (m, it')" by force
    have nm: "n = it_name it" if "Option.bind (json_at ''name'' data) json_str = Some n" for n
      using assms f Some that it(2) unfolding answers_named_def by (metis fst_conv snd_conv)
    have "data_op c f st = (case m of Inl x \<Rightarrow> Inl x | Inr _ \<Rightarrow> r, put_item c it' (st\<lparr>fs_backend := b\<rparr>))"
      using m Some by (simp add: data_op_def f it_def [symmetric])
    then show thesis by (rule that [OF _ same_place_trans [OF it(1) refresh_meta_place [OF m nm]]])
  qed
qed

lemma fine_data_op:
  assumes "answers_named f" and "tree_ok st" and "live st c"
  shows "fine st (\<lambda>_ _. True) (data_op c f st)"
proof -
  obtain r it b where f: "data_op c f st = (r, put_item c it (st\<lparr>fs_backend := b\<rparr>))" "same_place (item_at st c) it"
    by (rule data_op_place [OF assms(1)])
  then show ?thesis using put_same_place [of "st\<lparr>fs_backend := b\<rparr>" c it] assms(2,3)
    by (auto simp: fine_def extends_def)
qed

lemma fine_create_id: "tree_ok st \<Longrightarrow> live st c \<Longrightarrow> fine st (\<lambda>_ _. True) (create_id e c st)"
  unfolding create_id_def using tree_ok_item
  by (auto split: option.split intro!: fine_get_id simp: item_ok_def)

lemma fine_catch:
  assumes "fine st (\<lambda>_ _. True) m"
  shows "fine st (\<lambda>_ _. True) (case m of (r, st) \<Rightarrow>
    (case r of Inl x \<Rightarrow> if P x then (Inr (), st) else (Inl x, st) | Inr _ \<Rightarrow> (Inr (), st)))"
  using assms by (cases m; cases "fst m") auto

lemma fine_file_flush:
  assumes "created_as_named e" and "tree_ok st" and "live st c"
  shows "fine st (\<lambda>_ _. True) (file_flush e c nothrow st)"
proof -
  have k: "answers_named (fo_flush (fe_data e) iid)" for iid using assms(1) by (simp add: created_as_named_def)
  have "fine st (\<lambda>_ _. True) (bindF (create_id e c st) (\<lambda>iid. data_op c (fo_flush (fe_data e) iid)))"
    by (rule fine_bind [OF fine_create_id [OF assms(2,3)]]) (rule fine_data_op [OF k], auto intro: extends_live [OF _ assms(3)])
  then show ?thesis unfolding file_flush_def by (rule fine_catch)
qed

lemma fine_bind_live:
  assumes "fine st Q m" and "live st a"
    and "\<And>x st'. tree_ok st' \<Longrightarrow> live st' a \<Longrightarrow> it_kind (item_at st' a) = it_kind (item_at st a) \<Longrightarrow> Q x st' \<Longrightarrow> fine st' R (f x st')"
  shows "fine st R (bindF m f)"
  using assms by (auto intro!: fine_bind [OF assms(1)] extends_live [OF _ assms(2)] extends_kind [OF _ assms(2)])

lemma fine_then: "fine st Q m \<Longrightarrow> fine st (\<lambda>_ _. True) (bindF m (\<lambda>_ st. (Inr x, st)))"
  by (rule fine_bind) auto

lemma fine_sub_delete: "tree_ok st \<Longrightarrow> live st c \<Longrightarrow> fine st (\<lambda>_ _. True) (sub_delete e c st)"
  unfolding sub_delete_def
  by (auto split: item_kind.split intro!: fine_then fine_on_backend fine_bind [OF fine_get_id])

lemma fine_sub_rename: "tree_ok st \<Longrightarrow> live st c \<Longrightarrow> fine st (\<lambda>_ _. True) (sub_rename e c n ow st)"
  unfolding sub_rename_def
  by (auto intro!: fine_then fine_on_backend fine_bind [OF fine_get_id])

lemma fine_sub_move:
  fixes st :: "('d, 's) fs"
  assumes "created_as_named e" and "tree_ok st" and "live st c"
  shows "fine st (\<lambda>_ _. True) (sub_move e c pid ow st)"
proof -
  have m: "fine st' (\<lambda>_ _. True) (bindF (on_backend f st') (\<lambda>_ st. (Inr (), st)))" if "tree_ok st'"
    for st' :: "('d, 's) fs" and f :: "'s backend \<Rightarrow> (json, 's backend) api"
    by (rule fine_then [OF fine_on_backend [OF that]])
  have flush: "fine st (\<lambda>_ _. True) (bindF (file_flush e c False st) f)"
    if "\<And>st'. tree_ok st' \<Longrightarrow> fine st' (\<lambda>_ _. True) (f () st')" for f :: "unit \<Rightarrow> ('d, 's) fs \<Rightarrow> (unit, ('d, 's) fs) fs_res"
    by (rule fine_bind [OF fine_file_flush [OF assms]]) (use that in auto)
  show ?thesis unfolding sub_move_def using assms(2,3)
    by (cases "it_kind (item_at st c)") (auto intro!: flush m fine_bind [OF fine_get_id])
qed

text \<open>A result after which the tree is in order, all items are still there, and roots are roots.\<close>

definition stays :: "('d, 's) fs \<Rightarrow> ('d, 's) fs \<Rightarrow> bool" where
  "stays st st' \<longleftrightarrow> (\<forall>a. live st a \<longrightarrow> live st' a \<and> it_kind (item_at st' a) = it_kind (item_at st a) \<and>
     (it_parent (item_at st a) = None \<longrightarrow> it_parent (item_at st' a) = None))"

lemma stays_refl [simp]: "stays st st"
  by (simp add: stays_def)

lemma stays_trans: "stays st st1 \<Longrightarrow> stays st1 st2 \<Longrightarrow> stays st st2"
  by (simp add: stays_def)

lemma extends_stays: "extends st st' \<Longrightarrow> stays st st'"
  by (simp add: extends_def stays_def)

lemma stays_pins [simp]: "stays (st\<lparr>fs_pins := ps\<rparr>) st' = stays st st'" "stays st (st'\<lparr>fs_pins := ps\<rparr>) = stays st st'"
  by (simp_all add: stays_def)

lemma pins_set_items [simp]: "fs_pins (set_items b m st) = fs_pins st"
  by (simp add: set_items_def)

lemma stays_set_items: "live st b \<Longrightarrow> stays st (set_items b m st)"
  by (simp add: stays_def set_items_def)

text \<open>Unless the operation has blocked for ever, the same scope locks are held as before it.\<close>

definition sound :: "('d, 's) fs \<Rightarrow> ('a, ('d, 's) fs) fs_res \<Rightarrow> bool" where
  "sound st m \<longleftrightarrow> tree_ok (snd m) \<and> stays st (snd m) \<and> (hung (fst m) \<or> fs_pins (snd m) = fs_pins st)"

lemma hung_simps [simp]: "hung (Inl x) \<longleftrightarrow> x = FSDeadlock" "\<not> hung (Inr y)"
  by (simp_all add: hung_def)

lemma fine_sound: "fine st Q m \<Longrightarrow> sound st m"
  by (auto simp: fine_def sound_def extends_def intro: extends_stays [unfolded extends_def])

lemma sound_bind:
  assumes "fine st Q m" and "\<And>x st'. tree_ok st' \<Longrightarrow> extends st st' \<Longrightarrow> Q x st' \<Longrightarrow> sound st' (f x st')"
  shows "sound st (bindF m f)"
proof (cases m)
  case (Pair r st1)
  have "sound st1 (f x st1)" if "r = Inr x" for x using assms that by (simp add: Pair)
  moreover have "extends st st1" using assms(1) by (simp add: fine_def Pair)
  then have "stays st st1" "fs_pins st1 = fs_pins st" by (auto intro: extends_stays simp: extends_def)
  ultimately show ?thesis using assms(1) by (cases r) (auto simp: Pair sound_def intro: stays_trans)
qed

lemma sound_Inl: "tree_ok st \<Longrightarrow> sound st (Inl x, st)"
  by (simp add: sound_def)

lemma sound_bind_Inr: "fine st Q m \<Longrightarrow> (\<And>x st'. tree_ok st' \<Longrightarrow> extends st st' \<Longrightarrow> Q x st' \<Longrightarrow> tree_ok (g x st') \<and> stays st' (g x st') \<and> fs_pins (g x st') = fs_pins st') \<Longrightarrow>
    sound st (bindF m (\<lambda>x st. (Inr y, g x st)))"
  by (erule sound_bind) (simp add: sound_def)

lemma sound_add:
  assumes "fine st (\<lambda>c st'. linked st' a (it_name (item_at st' c)) c) m" and a: "live st a" and k: "it_kind (item_at st a) \<noteq> KSuperRoot"
  shows "sound st (bindF m (\<lambda>c st. (Inr (), set_items a (sm_assign (it_name (item_at st c)) c (folder_items st a)) st)))"
proof (rule sound_bind_Inr [OF assms(1)])
  fix c st' assume st': "tree_ok st'" "extends st st'" "linked st' a (it_name (item_at st' c)) c"
  have "it_kind (item_at st' a) \<noteq> KSuperRoot" using extends_kind [OF st'(2) a] k by simp
  from assign_items_ok(1) [OF st'(1) extends_live [OF st'(2) a] st'(3) this]
  show "tree_ok (set_items a (sm_assign (it_name (item_at st' c)) c (folder_items st' a)) st') \<and>
      stays st' (set_items a (sm_assign (it_name (item_at st' c)) c (folder_items st' a)) st') \<and>
      fs_pins (set_items a (sm_assign (it_name (item_at st' c)) c (folder_items st' a)) st') = fs_pins st'"
    using stays_set_items [OF extends_live [OF st'(2) a]] by simp
qed

lemma made_linked: "made a data st c st' \<Longrightarrow> linked st' a (it_name (item_at st' c)) c"
  by (simp add: made_def)

lemma sound_sub_create_file:
  assumes "tree_ok st" and a: "live st a"
  shows "sound st (sub_create_file e a name st)"
proof -
  have "fine st (\<lambda>c st'. linked st' a (it_name (item_at st' c)) c) (bindF (get_id e a st) (\<lambda>iid st.
      bindF (on_backend (create_file (fe_ops e) iid name False) st) (\<lambda>data st. make_file e a data st)))"
    by (rule fine_bind_live [OF fine_get_id [OF assms] a], rule fine_bind_live [OF fine_on_backend], assumption, assumption,
        rule fine_weaken [OF fine_make_file])
      (auto intro: made_linked)
  moreover have "fine st (\<lambda>c st'. linked st' a (it_name (item_at st' c)) c)
      (let cfg = the (it_cfg (item_at st a))
       in new_item ((blank_item KFile)\<lparr>it_name := name, it_parent := Some a, it_cfg := Some cfg,
            it_created := t, it_data := Some (fo_new (fe_data e) cfg)\<rparr>) st)" for t
    unfolding Let_def
    by (rule fine_weaken [OF new_item_ok]) (use assms in \<open>auto simp: blank_item_def linked_def\<close>)
  ultimately show ?thesis using assms unfolding sub_create_file_def
    by (auto intro!: sound_add simp: sound_Inl plain_folder_def)
qed

lemma sound_sub_create_folder:
  assumes "tree_ok st" and a: "live st a"
  shows "sound st (sub_create_folder e a name st)"
proof -
  have "fine st (\<lambda>c st'. linked st' a (it_name (item_at st' c)) c) (bindF (get_id e a st) (\<lambda>iid st.
      bindF (on_backend (create_folder (fe_ops e) iid name) st) (\<lambda>data st. make_plain e a data st)))"
    by (rule fine_bind_live [OF fine_get_id [OF assms] a], rule fine_bind_live [OF fine_on_backend], assumption, assumption,
        rule fine_weaken [OF fine_make_plain])
      (auto intro: made_linked)
  from sound_add [OF this a, unfolded bindF_assoc] show ?thesis using assms unfolding sub_create_folder_def
    by (cases "it_kind (item_at st a)") (simp_all add: sound_Inl plain_folder_def)
qed

lemma sound_create_checked:
  assumes "\<And>st. tree_ok st \<Longrightarrow> live st a \<Longrightarrow> sound st (create a name st)" and "tree_ok st" and "live st a"
  shows "sound st (create_checked create e a name st)"
proof -
  have "sound st' (if sm_find (folder_items st' a) name \<noteq> None \<or> name = [] then (Inl DuplicateItem, st') else create a name st')"
    if "tree_ok st'" "extends st st'" for st'
    using assms(1) [OF that(1) extends_live [OF that(2) assms(3)]] that(1) by (auto simp: sound_Inl)
  note body = this
  have "sound st (bindF (load_items e a True st) (\<lambda>_ st.
      if sm_find (folder_items st a) name \<noteq> None \<or> name = [] then (Inl DuplicateItem, st) else create a name st))"
    by (rule sound_bind [OF fine_load_items [OF assms(2,3)]]) (rule body)
  then show ?thesis unfolding create_checked_def by (simp add: sound_Inl assms(2) del: not_None_eq)
qed

lemma sound_delete_item:
  assumes "tree_ok st" and "live st a"
  shows "sound st (delete_item e a name st)"
proof -
  have "sound st' (case sm_find (folder_items st' a) name of
        None \<Rightarrow> (Inl NotFound, st')
      | Some c \<Rightarrow> if \<not> scope_free (fs_next st') c st' then (Inl FSDeadlock, st')
          else bindF (sub_delete e c st') (\<lambda>_ st. (Inr (), set_items a (sm_erase name (folder_items st a)) st)))"
    if st': "tree_ok st'" "live st' a" for st'
  proof (cases "sm_find (folder_items st' a) name")
    case (Some c)
    have c: "live st' c" using tree_ok_find [OF st' Some] by (simp add: linked_def)
    have "sound st' (bindF (sub_delete e c st') (\<lambda>_ st. (Inr (), set_items a (sm_erase name (folder_items st a)) st)))"
      by (rule sound_bind_Inr [OF fine_sub_delete [OF st'(1) c]])
        (auto intro!: erase_items_ok(1) stays_set_items extends_live [OF _ st'(2)])
    then show ?thesis using Some st' by (simp add: sound_Inl)
  qed (use st' in \<open>simp add: sound_Inl\<close>)
  then show ?thesis using assms unfolding delete_item_def
    by (auto intro!: sound_bind [OF fine_load_items] extends_live simp: sound_Inl)
qed

section \<open>Renaming and moving\<close>

text \<open>
  The two halves of a rename or a move: the entry gets a new key or a new folder, then the item its
  new name or parent.
\<close>

lemma linked_parent: "linked st a n c \<Longrightarrow> it_parent (item_at st c) = Some a"
  by (simp add: linked_def)

lemma renamed_ok:
  assumes ok: "tree_ok st" and a: "live st a" and c: "linked st a old c" and m: "smap_ok m"
    and es: "\<And>n d. (n, d) \<in> set m \<Longrightarrow> n = new \<and> d = c \<or> n \<noteq> old \<and> n \<noteq> new \<and> (n, d) \<in> set (folder_items st a)"
    and kind: "it_kind (item_at st a) = KSuperRoot \<Longrightarrow> it_have (item_at st a)"
  defines "st1 \<equiv> set_items a m st"
  shows "sound st (Inr (), put_item c ((item_at st1 c)\<lparr>it_name := new\<rparr>) st1)"
proof -
  define st2 where "st2 = put_item c ((item_at st1 c)\<lparr>it_name := new\<rparr>) st1"
  have lc: "live st c" using c by (simp add: linked_def)
  have pins: "fs_pins st2 = fs_pins st" by (simp add: st2_def st1_def)
  have l: "live st2 b = live st b" "it_parent (item_at st2 b) = it_parent (item_at st b)" "it_kind (item_at st2 b) = it_kind (item_at st b)" "it_have (item_at st2 b) = it_have (item_at st b)"
    "it_data (item_at st2 b) = it_data (item_at st b)" "it_name (item_at st2 b) = (if b = c then new else it_name (item_at st b))"
    "folder_items st2 b = (if b = a then m else folder_items st b)" "fs_next st2 = fs_next st" for b
    using a lc by (auto simp: st2_def st1_def set_items_def folder_items_def)
  have "item_ok st2 b" if b: "live st b" for b
  proof -
    have bok: "item_ok st b" and aok: "item_ok st a" using tree_ok_item ok a b by blast+
    have "linked st2 b n d" if e: "(n, d) \<in> set (if b = a then m else folder_items st b)" for n d
    proof (cases "b = a")
      case True
      then consider "n = new" "d = c" | "n \<noteq> old" "(n, d) \<in> set (folder_items st a)" using es e by auto
      then show ?thesis
      proof cases
        case 2
        then have "linked st a n d" using aok by (auto simp: item_ok_def)
        then show ?thesis using 2 c True by (auto simp: linked_def l)
      qed (use c True in \<open>auto simp: linked_def l\<close>)
    next
      case False
      then have "linked st b n d" using bok e by (auto simp: item_ok_def)
      then show ?thesis using False c by (auto simp: linked_def l)
    qed
    then show ?thesis using bok aok m kind by (auto simp: item_ok_def l)
  qed
  then show ?thesis using linked_parent [OF c] pins unfolding st2_def [symmetric] by (auto simp: sound_def tree_ok_def stays_def l)
qed

lemma moved_ok:
  assumes ok: "tree_ok st" and a: "live st a" and p: "live st p" and ap: "a \<noteq> p" and c: "linked st a name c"
    and m1: "smap_ok m1" and e1: "\<And>n d. (n, d) \<in> set m1 \<Longrightarrow> n \<noteq> name \<and> (n, d) \<in> set (folder_items st a)"
    and m2: "smap_ok m2" and e2: "\<And>n d. (n, d) \<in> set m2 \<Longrightarrow> n = name \<and> d = c \<or> (n, d) \<in> set (folder_items st p)"
    and kind: "it_kind (item_at st a) = KSuperRoot \<Longrightarrow> it_have (item_at st a)"
    and pkind: "it_kind (item_at st p) = KSuperRoot \<Longrightarrow> it_have (item_at st p)"
  defines "st1 \<equiv> set_items p m2 (set_items a m1 st)"
  shows "sound st (Inr (), put_item c ((item_at st1 c)\<lparr>it_parent := Some p\<rparr>) st1)"
proof -
  define st2 where "st2 = put_item c ((item_at st1 c)\<lparr>it_parent := Some p\<rparr>) st1"
  have lc: "live st c" using c by (simp add: linked_def)
  have pins: "fs_pins st2 = fs_pins st" by (simp add: st2_def st1_def)
  have l: "live st2 b = live st b" "it_parent (item_at st2 b) = (if b = c then Some p else it_parent (item_at st b))"
    "it_kind (item_at st2 b) = it_kind (item_at st b)" "it_have (item_at st2 b) = it_have (item_at st b)" "it_data (item_at st2 b) = it_data (item_at st b)"
    "it_name (item_at st2 b) = it_name (item_at st b)" "fs_next st2 = fs_next st"
    "folder_items st2 b = (if b = a then m1 else if b = p then m2 else folder_items st b)" for b
    using a p lc ap by (auto simp: st2_def st1_def set_items_def folder_items_def)
  have "item_ok st2 b" if b: "live st b" for b
  proof -
    have bok: "item_ok st b" using tree_ok_item ok b by blast
    have old: "linked st b n d \<Longrightarrow> d = c \<Longrightarrow> b = a \<and> n = name" for n d using c by (auto simp: linked_def)
    have in_old: "(n, d) \<in> set (folder_items st b) \<Longrightarrow> linked st b n d" for n d using bok by (auto simp: item_ok_def)
    have "linked st2 b n d" if e: "(n, d) \<in> set (if b = a then m1 else if b = p then m2 else folder_items st b)" for n d
    proof -
      consider "b = p" "n = name" "d = c" | "(n, d) \<in> set (folder_items st b)" "b = a \<longrightarrow> n \<noteq> name"
        using e e1 e2 ap by (auto split: if_splits)
      then show ?thesis
      proof cases
        case 1
        then show ?thesis using c by (auto simp: linked_def l)
      next
        case 2
        then have "linked st b n d" "d \<noteq> c" using in_old old by blast+
        then show ?thesis by (auto simp: linked_def l)
      qed
    qed
    then show ?thesis using bok m1 m2 p kind pkind by (auto simp: item_ok_def l)
  qed
  then show ?thesis using linked_parent [OF c] pins unfolding st2_def [symmetric] by (auto simp: sound_def tree_ok_def stays_def l)
qed

lemma in_emplace: "(n, c) \<in> set (sm_emplace k v m) \<Longrightarrow> smap_ok m \<Longrightarrow> (n, c) = (k, v) \<or> (n, c) \<in> set m"
  using in_assign by (fastforce simp: sm_emplace_def split: if_splits)

lemma sm_erase_absent: "sm_find m k = None \<Longrightarrow> sm_erase k m = m"
  by (induction k m rule: sm_erase.induct) (auto simp: sm_find_def split: if_splits)

lemma erase_if: "(if sm_find m k \<noteq> None then sm_erase k m else m) = sm_erase k m"
  by (simp add: sm_erase_absent)

text \<open>An item whose scope lock is held, in the map of its parent if it has one.\<close>

definition attached :: "('d, 's) fs \<Rightarrow> nat \<Rightarrow> bool" where
  "attached st c \<longleftrightarrow> live st c \<and> c \<in> set (fs_pins st) \<and>
     (\<forall>a. it_parent (item_at st c) = Some a \<longrightarrow> sm_find (folder_items st a) (it_name (item_at st c)) = Some c)"

lemma attached_extends:
  assumes "tree_ok st" and "attached st c" and "extends st st'"
  shows "attached st' c"
  using assms tree_ok_item [OF assms(1)] by (auto simp: attached_def extends_def item_ok_def)

lemma attached_parent:
  assumes "tree_ok st" and "attached st c" and "it_parent (item_at st c) = Some a"
  shows "live st a \<and> sm_find (folder_items st a) (it_name (item_at st c)) = Some c \<and>
    (it_kind (item_at st a) = KSuperRoot \<longrightarrow> it_have (item_at st a)) \<and> smap_ok (folder_items st a) \<and>
    linked st a (it_name (item_at st c)) c"
proof -
  have a: "live st a" using tree_ok_item [OF assms(1), of c] assms by (auto simp: attached_def item_ok_def)
  have f: "sm_find (folder_items st a) (it_name (item_at st c)) = Some c" using assms by (simp add: attached_def)
  have ok: "item_ok st a" using tree_ok_item [OF assms(1) a] .
  have "folder_items st a \<noteq> []" using f by (auto simp: sm_find_def)
  then show ?thesis using a f ok tree_ok_find [OF assms(1) a f] by (auto simp: item_ok_def)
qed

lemma renamed_sound:
  assumes ok: "tree_ok st" and c: "attached st c" and p: "it_parent (item_at st c) = Some a"
    and ne: "it_name (item_at st c) \<noteq> new"
  defines "m \<equiv> sm_emplace new c (sm_erase (it_name (item_at st c)) (sm_erase new (folder_items st a)))"
  shows "sound st (Inr (), put_item c ((item_at (set_items a m st) c)\<lparr>it_name := new\<rparr>) (set_items a m st))"
proof (rule renamed_ok [OF ok, where old = "it_name (item_at st c)"])
  note at = attached_parent [OF ok c p]
  show "live st a" "linked st a (it_name (item_at st c)) c" "it_kind (item_at st a) = KSuperRoot \<Longrightarrow> it_have (item_at st a)"
    using at by blast+
  show "smap_ok m" unfolding m_def using at by (intro smap_ok_emplace smap_ok_erase) blast
  have sm: "smap_ok (sm_erase new (folder_items st a))" using at by (intro smap_ok_erase) blast
  show "n = new \<and> d = c \<or> n \<noteq> it_name (item_at st c) \<and> n \<noteq> new \<and> (n, d) \<in> set (folder_items st a)" if "(n, d) \<in> set m" for n d
    using in_emplace [OF that [unfolded m_def] smap_ok_erase [OF sm]] in_erase [OF _ sm, of n d] in_erase [of n d new "folder_items st a"] at
    by auto
qed

text \<open>The requests of a rename or a move change no map of items.\<close>

definition keeps_maps :: "('d, 's) fs \<Rightarrow> ('a, ('d, 's) fs) fs_res \<Rightarrow> bool" where
  "keeps_maps st m \<longleftrightarrow> (\<forall>b. folder_items (snd m) b = folder_items st b)"

lemma keeps_maps_bind: "keeps_maps st m \<Longrightarrow> (\<And>x st'. keeps_maps st' (f x st')) \<Longrightarrow> keeps_maps st (bindF m f)"
  by (cases m; cases "fst m") (auto simp: keeps_maps_def)

lemma keeps_maps_simple [simp]: "keeps_maps st (r, st)" "keeps_maps st (need x st)"
  by (auto simp: keeps_maps_def need_def split: option.split)

lemma keeps_maps_backend: "keeps_maps st (on_backend f st)"
  by (cases "f (fs_backend st)"; cases "fst (f (fs_backend st))") (auto simp: on_backend_def keeps_maps_def)

lemma keeps_maps_load_id: "keeps_maps st (load_id a data st)"
  unfolding load_id_def
  by (rule keeps_maps_bind, simp) (auto simp: keeps_maps_def folder_items_def)

lemma keeps_maps_get_id: "keeps_maps st (get_id e a st)"
  unfolding get_id_def
  by (auto split: item_kind.split intro!: keeps_maps_bind keeps_maps_backend keeps_maps_load_id)

lemma keeps_maps_sub_rename: "keeps_maps st (sub_rename e c n ow st)"
  unfolding sub_rename_def by (auto intro!: keeps_maps_bind keeps_maps_backend keeps_maps_get_id)

lemma keeps_maps_sub_delete: "keeps_maps st (sub_delete e c st)"
  unfolding sub_delete_def by (auto split: item_kind.split intro!: keeps_maps_bind keeps_maps_backend keeps_maps_get_id)

lemma keeps_maps_data_op:
  assumes "answers_named f"
  shows "keeps_maps st (data_op c f st)"
proof -
  obtain r it b where "data_op c f st = (r, put_item c it (st\<lparr>fs_backend := b\<rparr>))" "same_place (item_at st c) it"
    by (rule data_op_place [OF assms])
  then show ?thesis by (auto simp: keeps_maps_def same_place_def folder_items_def)
qed

lemma keeps_maps_flush:
  assumes "created_as_named e"
  shows "keeps_maps st (file_flush e c nothrow st)"
proof -
  have "keeps_maps st (bindF (create_id e c st) (\<lambda>iid. data_op c (fo_flush (fe_data e) iid)))"
    using assms unfolding create_id_def
    by (auto simp: created_as_named_def intro!: keeps_maps_bind keeps_maps_get_id keeps_maps_data_op split: option.split)
  then show ?thesis
    by (cases "bindF (create_id e c st) (\<lambda>iid. data_op c (fo_flush (fe_data e) iid))")
      (auto simp: file_flush_def keeps_maps_def split: sum.split)
qed

lemma keeps_maps_sub_move: "created_as_named e \<Longrightarrow> keeps_maps st (sub_move e c pid ow st)"
  unfolding sub_move_def
  by (cases "it_kind (item_at st c)") (auto intro!: keeps_maps_bind keeps_maps_backend keeps_maps_get_id keeps_maps_flush)

text \<open>Both facts of a request at once.\<close>

lemma fine_and_maps:
  "fine st Q m \<Longrightarrow> keeps_maps st m \<Longrightarrow> fine st (\<lambda>_ st'. \<forall>b. folder_items st' b = folder_items st b) m"
  by (simp add: fine_def keeps_maps_def)

lemma sound_item_rename:
  assumes ok: "tree_ok st" and c: "attached st c"
  shows "sound st (item_rename e c new ow st)"
proof (cases "it_parent (item_at st c)")
  case None
  then show ?thesis using ok by (simp add: item_rename_def sound_def)
next
  case (Some a)
  define old where "old = it_name (item_at st c)"
  have a: "live st a" using attached_parent [OF ok c Some] by simp
  have lc: "live st c" using c by (simp add: attached_def)
  have "sound st' (bindF (case sm_find (folder_items st' a) old of None \<Rightarrow> (Inl NotFound, st')
      | Some c \<Rightarrow> if old = new then (Inr (), st')
        else let dup = sm_find (folder_items st' a) new
             in if \<not> ow \<and> dup \<noteq> None \<or> new = [] then (Inl DuplicateItem, st')
                else bindF (sub_rename e c new ow st') (\<lambda>_ st.
                  let m = (if dup \<noteq> None then sm_erase new (folder_items st a) else folder_items st a)
                  in (Inr (), set_items a (sm_emplace new c (sm_erase old m)) st)))
      (\<lambda>_ st. (Inr (), put_item c ((item_at st c)\<lparr>it_name := new\<rparr>) st)))"
    if ne: "new \<noteq> old" and st': "tree_ok st'" "extends st st'" for st'
  proof -
    have at: "attached st' c" "it_parent (item_at st' c) = Some a" "it_name (item_at st' c) = old"
      using attached_extends [OF ok c st'(2)] st'(2) lc Some by (simp_all add: extends_def old_def)
    have f: "sm_find (folder_items st' a) old = Some c" using attached_parent [OF st'(1) at(1,2)] at(3) by simp
    have lc': "live st' c" using at(1) by (simp add: attached_def)
    have "sound st' (bindF (sub_rename e c new ow st') (\<lambda>_ st.
        bindF (let m = (if sm_find (folder_items st' a) new \<noteq> None then sm_erase new (folder_items st a) else folder_items st a)
           in (Inr (), set_items a (sm_emplace new c (sm_erase old m)) st))
         (\<lambda>_ st. (Inr (), put_item c ((item_at st c)\<lparr>it_name := new\<rparr>) st))))"
    proof (rule sound_bind [OF fine_and_maps [OF fine_sub_rename [OF st'(1) lc'] keeps_maps_sub_rename]])
      fix x st2 assume st2: "tree_ok st2" "extends st' st2" "\<forall>b. folder_items st2 b = folder_items st' b"
      have at2: "attached st2 c" "it_parent (item_at st2 c) = Some a" "it_name (item_at st2 c) = old"
        using attached_extends [OF st'(1) at(1) st2(2)] st2(2) lc' at(2,3) by (simp_all add: extends_def)
      show "sound st2 (bindF (let m = (if sm_find (folder_items st' a) new \<noteq> None then sm_erase new (folder_items st2 a) else folder_items st2 a)
           in (Inr (), set_items a (sm_emplace new c (sm_erase old m)) st2))
         (\<lambda>_ st. (Inr (), put_item c ((item_at st c)\<lparr>it_name := new\<rparr>) st)))"
        using renamed_sound [OF st2(1) at2(1,2)] ne at2(3) unfolding st2(3) [rule_format, symmetric] erase_if by simp
    qed
    then show ?thesis using f ne st'(1) by (simp add: bindF_assoc sound_Inl Let_def del: not_None_eq)
  qed
  note body = this
  have "sound st (bindF (load_items e a True st) (\<lambda>_ st'. bindF (case sm_find (folder_items st' a) old of None \<Rightarrow> (Inl NotFound, st')
      | Some c \<Rightarrow> if old = new then (Inr (), st')
        else let dup = sm_find (folder_items st' a) new
             in if \<not> ow \<and> dup \<noteq> None \<or> new = [] then (Inl DuplicateItem, st')
                else bindF (sub_rename e c new ow st') (\<lambda>_ st.
                  let m = (if dup \<noteq> None then sm_erase new (folder_items st a) else folder_items st a)
                  in (Inr (), set_items a (sm_emplace new c (sm_erase old m)) st)))
      (\<lambda>_ st. (Inr (), put_item c ((item_at st c)\<lparr>it_name := new\<rparr>) st))))" if "new \<noteq> old"
    by (rule sound_bind [OF fine_load_items [OF ok a]]) (rule body [OF that])
  moreover have "sound st (Inr (), st)" using ok by (simp add: sound_def)
  ultimately show ?thesis using Some ok
    by (simp add: item_rename_def rename_item_def old_def [symmetric] bindF_assoc sound_Inl)
qed

lemma moved_sound:
  assumes ok: "tree_ok st" and c: "attached st c" and p: "it_parent (item_at st c) = Some a" and np: "live st np" "a \<noteq> np"
    and name: "name = it_name (item_at st c)" and pk: "it_have (item_at st np)"
  defines "st1 \<equiv> set_items np (sm_erase name (folder_items st np)) st"
  defines "st2 \<equiv> set_items a (sm_erase name (folder_items st1 a)) st1"
  defines "st3 \<equiv> set_items np (sm_emplace name c (folder_items st2 np)) st2"
  shows "sound st (Inr (), put_item c ((item_at st3 c)\<lparr>it_parent := Some np\<rparr>) st3)"
proof -
  note at = attached_parent [OF ok c p]
  have pok: "smap_ok (folder_items st np)" using tree_ok_item [OF ok np(1)] by (simp add: item_ok_def)
  let ?m1 = "sm_erase name (folder_items st a)" and ?m2 = "sm_emplace name c (sm_erase name (folder_items st np))"
  have "st3 = set_items np ?m2 (set_items a ?m1 st)"
    using np(2) unfolding st3_def st2_def st1_def set_items_def
    by (auto simp: put_item_def item_at_def folder_items_def fun_upd_twist)
  moreover have "sound st (Inr (), put_item c ((item_at (set_items np ?m2 (set_items a ?m1 st)) c)\<lparr>it_parent := Some np\<rparr>)
      (set_items np ?m2 (set_items a ?m1 st)))"
  proof (rule moved_ok [OF ok _ np(1) np(2)])
    show "live st a" "linked st a name c" "it_kind (item_at st a) = KSuperRoot \<Longrightarrow> it_have (item_at st a)" "smap_ok ?m1"
      using at name by (auto intro: smap_ok_erase)
    show "n \<noteq> name \<and> (n, d) \<in> set (folder_items st a)" if "(n, d) \<in> set ?m1" for n d
      using in_erase [OF that] at by blast
    show "smap_ok ?m2" by (intro smap_ok_emplace smap_ok_erase pok)
    show "n = name \<and> d = c \<or> (n, d) \<in> set (folder_items st np)" if "(n, d) \<in> set ?m2" for n d
      using in_emplace [OF that smap_ok_erase [OF pok]] in_erase [OF _ pok] by blast
    show "it_have (item_at st np)" by (rule pk)
  qed
  ultimately show ?thesis by simp
qed

lemma set_items_id: "live st a \<Longrightarrow> set_items a (folder_items st a) st = st"
  by (auto simp: set_items_def put_item_def item_at_def live_def folder_items_def fun_upd_idem)

text \<open>What MoveItem does after both folders are loaded.\<close>

lemma sound_move_tail:
  assumes d: "created_as_named e" and ok: "tree_ok st" and c: "attached st c" and p: "it_parent (item_at st c) = Some a"
    and np: "live st np" "a \<noteq> np" and name: "name = it_name (item_at st c)" and pk: "it_have (item_at st np)"
  shows "sound st (bindF (bindF (get_id e np st) (\<lambda>iid s. bindF (sub_move e c iid ow s) (\<lambda>_ st'.
        let st1 = (if sm_find (folder_items st np) name \<noteq> None then set_items np (sm_erase name (folder_items st' np)) st' else st');
            st2 = set_items a (sm_erase name (folder_items st1 a)) st1
        in (Inr (), set_items np (sm_emplace name c (folder_items st2 np)) st2))))
      (\<lambda>_ st. (Inr (), put_item c ((item_at st c)\<lparr>it_parent := Some np\<rparr>) st)))"
  unfolding bindF_assoc
proof (rule sound_bind [OF fine_and_maps [OF fine_get_id [OF ok np(1)] keeps_maps_get_id]])
  fix iid st1 assume st1: "tree_ok st1" "extends st st1" "\<forall>b. folder_items st1 b = folder_items st b"
  have lc: "live st1 c" using c st1(2) by (auto simp: attached_def intro: extends_live)
  show "sound st1 (bindF (sub_move e c iid ow st1) (\<lambda>_ st'.
      bindF (let s1 = (if sm_find (folder_items st np) name \<noteq> None then set_items np (sm_erase name (folder_items st' np)) st' else st');
                 s2 = set_items a (sm_erase name (folder_items s1 a)) s1
             in (Inr (), set_items np (sm_emplace name c (folder_items s2 np)) s2))
        (\<lambda>_ st. (Inr (), put_item c ((item_at st c)\<lparr>it_parent := Some np\<rparr>) st))))"
  proof (rule sound_bind [OF fine_and_maps [OF fine_sub_move [OF d st1(1) lc] keeps_maps_sub_move [OF d]]])
    fix x st2 assume st2: "tree_ok st2" "extends st1 st2" "\<forall>b. folder_items st2 b = folder_items st1 b"
    have ext: "extends st st2" using st1(2) st2(2) by (rule extends_trans)
    have at: "attached st2 c" by (rule attached_extends [OF ok c ext])
    have p2: "it_parent (item_at st2 c) = Some a" "name = it_name (item_at st2 c)" "live st2 np" "it_have (item_at st2 np)"
      using ext c p np(1) pk name by (auto simp: extends_def attached_def)
    have np2: "(if sm_find (folder_items st np) name \<noteq> None then set_items np (sm_erase name (folder_items st2 np)) st2 else st2) =
        set_items np (sm_erase name (folder_items st2 np)) st2"
      using set_items_id [OF p2(3)] st2(3) st1(3) sm_erase_absent [of "folder_items st np" name] by simp
    show "sound st2 (bindF (let s1 = (if sm_find (folder_items st np) name \<noteq> None then set_items np (sm_erase name (folder_items st2 np)) st2 else st2);
                 s2 = set_items a (sm_erase name (folder_items s1 a)) s1
             in (Inr (), set_items np (sm_emplace name c (folder_items s2 np)) s2))
        (\<lambda>_ st. (Inr (), put_item c ((item_at st c)\<lparr>it_parent := Some np\<rparr>) st)))"
      using moved_sound [OF st2(1) at p2(1,3) np(2) p2(2,4)] by (simp only: np2 Let_def bindF.simps)
  qed
qed

lemma sound_item_move:
  assumes d: "created_as_named e" and ok: "tree_ok st" and c: "attached st c" and np: "live st np"
  shows "sound st (item_move e c np ow st)"
proof (cases "it_parent (item_at st c)")
  case None
  then show ?thesis using ok by (simp add: item_move_def sound_def)
next
  case (Some a)
  define name where "name = it_name (item_at st c)"
  define fin where "fin = (\<lambda>(_ :: unit) st :: ('a, 'b) fs. (Inr () :: fs_exn + unit, put_item c ((item_at st c)\<lparr>it_parent := Some np\<rparr>) st))"
  define commit where "commit = (\<lambda>c st. bindF (get_id e np st) (\<lambda>iid s. bindF (sub_move e c iid ow s) (\<lambda>_ st'.
        let st1 = (if sm_find (folder_items st np) name \<noteq> None then set_items np (sm_erase name (folder_items st' np)) st' else st');
            st2 = set_items a (sm_erase name (folder_items st1 a)) st1
        in (Inr (), set_items np (sm_emplace name c (folder_items st2 np)) st2))))"
  define rest where "rest = (\<lambda>c st. bindF (get_id e np st) (\<lambda>iid st.
               if iid = [] then (Inl ModifyFolder, st)
               else if \<not> ow \<and> sm_find (folder_items st np) name \<noteq> None then (Inl DuplicateItem, st)
               else if c = np then (Inl FSDeadlock, st) else commit c st))"
  have a: "live st a" using attached_parent [OF ok c Some] by simp
  have tail: "sound st' (bindF (rest c st') fin)"
    if st': "tree_ok st'" "extends st st'" "it_have (item_at st' np)" and ne: "a \<noteq> np" for st'
  proof -
    have at: "attached st' c" "it_parent (item_at st' c) = Some a" "name = it_name (item_at st' c)" "live st' np"
      using attached_extends [OF ok c st'(2)] st'(2) Some np c by (auto simp: extends_def attached_def name_def)
    show ?thesis unfolding rest_def bindF_assoc
    proof (rule sound_bind [OF fine_get_id [OF st'(1) at(4)]])
      fix iid st1 assume st1: "tree_ok st1" "extends st' st1"
      have at1: "attached st1 c" "it_parent (item_at st1 c) = Some a" "name = it_name (item_at st1 c)" "live st1 np" "it_have (item_at st1 np)"
        using attached_extends [OF st'(1) at(1) st1(2)] st1(2) at st'(3) by (auto simp: extends_def attached_def)
      have "sound st1 (bindF (commit c st1) fin)"
        unfolding commit_def fin_def by (rule sound_move_tail [OF d st1(1) at1(1,2,4) ne at1(3,5)])
      then show "sound st1 (bindF (if iid = [] then (Inl ModifyFolder, st1)
               else if \<not> ow \<and> sm_find (folder_items st1 np) name \<noteq> None then (Inl DuplicateItem, st1)
               else if c = np then (Inl FSDeadlock, st1) else commit c st1) fin)"
        using st1(1) by (simp add: sound_Inl)
    qed
  qed
  have np_load: "sound st' (bindF (load_items e np False st') (\<lambda>_ st. bindF (if read_only_fs np st then (Inl FSReadOnly, st) else rest c st) fin))"
    if st': "tree_ok st'" "extends st st'" and ne: "a \<noteq> np" for st'
  proof (rule sound_bind [OF fine_load_items [OF st'(1) extends_live [OF st'(2) np]]])
    fix x st2 assume st2: "tree_ok st2" "extends st' st2" "it_have (item_at st2 np)"
    have "extends st st2" using st'(2) st2(2) by (rule extends_trans)
    from tail [OF st2(1) this st2(3) ne]
    show "sound st2 (bindF (if read_only_fs np st2 then (Inl FSReadOnly, st2) else rest c st2) fin)"
      using st2(1) by (simp add: sound_Inl)
  qed
  have "sound st (bindF (load_items e a False st) (\<lambda>_ st. bindF (case sm_find (folder_items st a) name of
             None \<Rightarrow> (Inl NotFound, st)
           | Some c' \<Rightarrow> bindF (load_items e np False st) (\<lambda>_ st. if read_only_fs np st then (Inl FSReadOnly, st) else rest c' st)) fin))"
    if ne: "a \<noteq> np"
  proof (rule sound_bind [OF fine_load_items [OF ok a]])
    fix x st1 assume st1: "tree_ok st1" "extends st st1"
    have "attached st1 c" "it_parent (item_at st1 c) = Some a" "name = it_name (item_at st1 c)"
      using attached_extends [OF ok c st1(2)] st1(2) Some c by (auto simp: extends_def attached_def name_def)
    then have "sm_find (folder_items st1 a) name = Some c" using attached_parent [OF st1(1)] by blast
    then show "sound st1 (bindF (case sm_find (folder_items st1 a) name of
             None \<Rightarrow> (Inl NotFound, st1)
           | Some c' \<Rightarrow> bindF (load_items e np False st1) (\<lambda>_ st. if read_only_fs np st then (Inl FSReadOnly, st) else rest c' st)) fin)"
      using np_load [OF st1 ne] by (simp add: bindF_assoc)
  qed
  note body = this
  have eq: "item_move e c np ow st = (if a = np then (Inr (), st) else
      bindF (if read_only_fs a st then (Inl FSReadOnly, st) else
        bindF (load_items e a False st) (\<lambda>_ st. case sm_find (folder_items st a) name of
             None \<Rightarrow> (Inl NotFound, st)
           | Some c' \<Rightarrow> bindF (load_items e np False st) (\<lambda>_ st. if read_only_fs np st then (Inl FSReadOnly, st) else rest c' st))) fin)"
    unfolding item_move_def move_item_def Some option.case rest_def commit_def fin_def name_def Let_def by (rule refl)
  have same: "sound st (Inr (), st)" using ok by (simp add: sound_def)
  show ?thesis
  proof (cases "a = np \<or> read_only_fs a st")
    case True
    then show ?thesis unfolding eq using same ok by (auto simp: sound_Inl)
  next
    case False
    then show ?thesis using body unfolding eq by (simp only: bindF_assoc if_False de_Morgan_disj simp_thms)
  qed
qed

section \<open>All operations\<close>

lemma fine_flush_tree:
  "created_as_named e \<Longrightarrow> tree_ok st \<Longrightarrow> live st a \<Longrightarrow> fine st (\<lambda>_ _. True) (flush_tree fuel e a nothrow st)"
    "created_as_named e \<Longrightarrow> tree_ok st \<Longrightarrow> list_all (\<lambda>(_, c). live st c) m \<Longrightarrow> fine st (\<lambda>_ _. True) (flush_list fuel e m nothrow st)"
proof (induction fuel e a nothrow st and fuel e m nothrow st rule: flush_tree_flush_list.induct)
  case (2 fuel e a nothrow st)
  have "list_all (\<lambda>(_, c). live st c) (folder_items st a)"
    using tree_ok_item [OF 2(3,4)] by (auto simp: item_ok_def linked_def list_all_iff)
  then show ?case using 2 by (simp add: fine_file_flush)
next
  case (4 fuel e name c rest nothrow st)
  show ?case unfolding flush_list.simps
  proof (rule fine_bind [OF 4(1)])
    fix x st' assume st': "tree_ok st'" "extends st st'"
    have "list_all (\<lambda>(_, c). live st' c) rest" using 4(5) extends_live [OF st'(2)] by (auto simp: list_all_iff)
    then show "fine st' (\<lambda>_ _. True) (flush_list fuel e rest nothrow st')" by (rule 4(2) [OF 4(3) st'(1)])
  qed (use 4(3,4,5) in simp_all)
qed simp_all

text \<open>The operations that the rest of the program calls on items and folders.\<close>

datatype tree_call = LoadFolder nat | Lookup nat string | CreateFile nat string | CreateFolder nat string
  | DeleteItem nat | RenameItem nat string bool | MoveItem nat nat bool | FlushItem nat bool

fun tree_step :: "('d, 's) fs_env \<Rightarrow> tree_call \<Rightarrow> ('d, 's) fs \<Rightarrow> fs_exn option \<times> ('d, 's) fs" where
  "tree_step e (LoadFolder a) st = (case load_items e a True st of (r, st) \<Rightarrow> (case r of Inl x \<Rightarrow> Some x | _ \<Rightarrow> None, st))"
| "tree_step e (Lookup a path) st = (case get_item_by_path e a path st of (r, st) \<Rightarrow> (case r of Inl x \<Rightarrow> Some x | _ \<Rightarrow> None, st))"
| "tree_step e (CreateFile a name) st = (case folder_create_file e a name st of (r, st) \<Rightarrow> (case r of Inl x \<Rightarrow> Some x | _ \<Rightarrow> None, st))"
| "tree_step e (CreateFolder a name) st = (case folder_create_folder e a name st of (r, st) \<Rightarrow> (case r of Inl x \<Rightarrow> Some x | _ \<Rightarrow> None, st))"
| "tree_step e (DeleteItem c) st = (case item_delete e c st of (r, st) \<Rightarrow> (case r of Inl x \<Rightarrow> Some x | _ \<Rightarrow> None, st))"
| "tree_step e (RenameItem c name ow) st = (case item_rename e c name ow st of (r, st) \<Rightarrow> (case r of Inl x \<Rightarrow> Some x | _ \<Rightarrow> None, st))"
| "tree_step e (MoveItem c np ow) st = (case item_move e c np ow st of (r, st) \<Rightarrow> (case r of Inl x \<Rightarrow> Some x | _ \<Rightarrow> None, st))"
| "tree_step e (FlushItem a nothrow) st = (case item_flush_cache e a nothrow st of (r, st) \<Rightarrow> (case r of Inl x \<Rightarrow> Some x | _ \<Rightarrow> None, st))"

text \<open>
  A caller holds the item it passes: it has the scope lock of what it renames or moves, and the item
  is in the tree, as it is after a lookup.
\<close>

fun call_holds :: "('d, 's) fs \<Rightarrow> tree_call \<Rightarrow> bool" where
  "call_holds st (LoadFolder a) = live st a"
| "call_holds st (Lookup a path) = live st a"
| "call_holds st (CreateFile a name) = live st a"
| "call_holds st (CreateFolder a name) = live st a"
| "call_holds st (DeleteItem c) = live st c"
| "call_holds st (RenameItem c name ow) = attached st c"
| "call_holds st (MoveItem c np ow) = (attached st c \<and> live st np)"
| "call_holds st (FlushItem a nothrow) = live st a"

lemma fine_get_item_by_path:
  assumes "tree_ok st" and "live st a"
  shows "fine st (\<lambda>c st'. below st' a (if dropWhile (\<lambda>c. c = CHR ''/'') path = [] then []
      else path_parts (dropWhile (\<lambda>c. c = CHR ''/'') path)) c \<and> live st' c) (get_item_by_path e a path st)"
  using assms fine_walk [OF assms] by (simp add: get_item_by_path_def)

text \<open>What an operation leaves that may have given up the scope lock of c.\<close>

definition drops :: "nat \<Rightarrow> ('d, 's) fs \<Rightarrow> ('a, ('d, 's) fs) fs_res \<Rightarrow> bool" where
  "drops c st m \<longleftrightarrow> tree_ok (snd m) \<and> stays st (snd m) \<and>
     (hung (fst m) \<or> fs_pins (snd m) = fs_pins st \<or> fs_pins (snd m) = remove1 c (fs_pins st))"

lemma sound_drops: "sound st m \<Longrightarrow> drops c st m"
  by (auto simp: sound_def drops_def)

lemma unscope_simps [simp]:
  "tree_ok (unscope c ps st) = tree_ok st" "stays st' (unscope c ps st) = stays st' st"
  "folder_items (unscope c ps st) a = folder_items st a" "live (unscope c ps st) a = live st a"
  by (simp_all add: unscope_def)

lemma scoped_sound:
  assumes "drops c (st\<lparr>fs_pins := c # fs_pins st\<rparr>) (f (st\<lparr>fs_pins := c # fs_pins st\<rparr>))"
  shows "sound st (scoped c f st)"
proof (cases "f (st\<lparr>fs_pins := c # fs_pins st\<rparr>)")
  case (Pair r st')
  then have d: "tree_ok st'" "stays st st'" "hung r \<or> fs_pins st' = c # fs_pins st \<or> fs_pins st' = fs_pins st"
    using assms by (auto simp: drops_def)
  then have "hung r \<or> fs_pins (unscope c (fs_pins st) st') = fs_pins st" by (auto simp: unscope_def)
  then show ?thesis using d(1,2) by (auto simp: scoped_def Pair sound_def)
qed

lemma drops_item_delete:
  assumes ok: "tree_ok st" and c: "live st c"
  shows "drops c st (item_delete e c st)"
proof (cases "it_parent (item_at st c)")
  case (Some a)
  let ?st = "st\<lparr>fs_pins := remove1 c (a # fs_pins st)\<rparr>"
  have "live st a" using tree_ok_item [OF ok c] Some by (simp add: item_ok_def)
  then have s: "sound ?st (delete_item e a (it_name (item_at st c)) ?st)"
    using ok by (intro sound_delete_item) simp_all
  obtain r st' where d: "delete_item e a (it_name (item_at st c)) ?st = (r, st')" by force
  have eq: "item_delete e c st = (r, if hung r then st' else unscope a (fs_pins st) st')"
    using Some d by (simp add: item_delete_def scoped_def)
  have "hung r \<or> fs_pins st' = remove1 c (a # fs_pins st)" "tree_ok st'" "stays st st'"
    using s unfolding d sound_def by (simp_all del: remove1.simps)
  moreover have "fs_pins (unscope a (fs_pins st) st') \<in> {fs_pins st, remove1 c (fs_pins st)}"
    if "fs_pins st' = remove1 c (a # fs_pins st)"
    using that by (cases "a = c") (auto simp: unscope_def count_list_remove1)
  ultimately show ?thesis unfolding eq drops_def by (auto simp del: remove1.simps)
qed (use ok in \<open>simp add: item_delete_def drops_def\<close>)

lemma tree_step_sound:
  assumes d: "created_as_named e" and ok: "tree_ok st" and c: "call_holds st call"
  shows "tree_ok (snd (tree_step e call st)) \<and> stays st (snd (tree_step e call st))"
proof -
  have s: "snd (case m of (r, st) \<Rightarrow> (f r st, st)) = snd m" for m :: "('x, 'y) fs_res" and f :: "fs_exn + 'x \<Rightarrow> 'y \<Rightarrow> 'z"
    by (cases m) simp
  show ?thesis
  proof (cases call)
    case (LoadFolder a)
    then show ?thesis using fine_sound [OF fine_load_items [OF ok]] c by (simp add: sound_def s)
  next
    case (Lookup a path)
    then show ?thesis using fine_sound [OF fine_get_item_by_path [OF ok]] c by (simp add: sound_def s)
  next
    case (CreateFile a name)
    then show ?thesis using sound_create_checked [OF sound_sub_create_file ok] c by (simp add: sound_def s folder_create_file_def)
  next
    case (CreateFolder a name)
    then show ?thesis using sound_create_checked [OF sound_sub_create_folder ok] c by (simp add: sound_def s folder_create_folder_def)
  next
    case (DeleteItem c)
    then show ?thesis using drops_item_delete [OF ok] c by (simp add: drops_def s)
  next
    case (RenameItem c name ow)
    then show ?thesis using sound_item_rename [OF ok] c by (simp add: sound_def s)
  next
    case (MoveItem c np ow)
    then show ?thesis using sound_item_move [OF d ok] c by (simp add: sound_def s)
  next
    case (FlushItem a nothrow)
    then show ?thesis using fine_sound [OF fine_flush_tree(1) [OF d ok]] c by (simp add: sound_def s item_flush_cache_def del: flush_tree.simps)
  qed
qed

lemma fine_roots:
  fixes st :: "('d, 's) fs"
  assumes "tree_ok st"
  shows "fine st (\<lambda>a st'. live st' a) (plain_folder_root e iid st)" "fine st (\<lambda>a st'. live st' a) (filesystem_root e iid st)"
    "fine st (\<lambda>a st'. live st' a) (super_root st)"
proof -
  have k: "it_kind it = KPlain" "it_items it = []" "it_parent it = None" if "head_of_json KPlain data = Some it" for data and it :: "'d item"
    using that by (auto simp: head_of_json_def blank_item_def bind_eq_Some_conv)
  show "fine st (\<lambda>a st'. live st' a) (filesystem_root e iid st)"
    unfolding filesystem_root_def make_filesystem_def
    by (rule fine_bind [OF fine_on_backend [OF assms]], rule fine_bind [OF fine_need], assumption, rule fine_bind [OF fine_load_cfg],
        assumption, rule fine_weaken [OF new_item_ok]) (auto dest: k)
  show "fine st (\<lambda>a st'. live st' a) (super_root st)"
    unfolding super_root_def using assms by (intro fine_weaken [OF new_item_ok]) (auto simp: blank_item_def)
  have load: "fine st' (\<lambda>a st'. live st' a) (bindF (load_items_from e a data st') (\<lambda>_ st.
       bindF (need (Option.bind (json_at ''storage'' data) json_str) st) (\<lambda>sid st.
       bindF (load_cfg e sid st) (\<lambda>cfg st. (Inr a, put_item a ((item_at st a)\<lparr>it_cfg := Some cfg\<rparr>) st)))))"
    if "tree_ok st'" and a: "live st' a" "it_kind (item_at st' a) = KPlain" for st' :: "('d, 's) fs" and a data
  proof (rule fine_bind_live [OF fine_load_items_from [OF that(1) a(1)] a(1)])
    fix st1 :: "('d, 's) fs" assume st1: "tree_ok st1" "live st1 a"
    show "fine st1 (\<lambda>a st'. live st' a) (bindF (need (Option.bind (json_at ''storage'' data) json_str) st1) (\<lambda>sid st.
       bindF (load_cfg e sid st) (\<lambda>cfg st. (Inr a, put_item a ((item_at st a)\<lparr>it_cfg := Some cfg\<rparr>) st))))"
      by (rule fine_bind_live [OF fine_need [OF st1(1)] st1(2)], rule fine_bind_live [OF fine_load_cfg], assumption, assumption)
        (simp add: put_same_place same_place_def)
  qed (use a(2) in simp)
  show "fine st (\<lambda>a st'. live st' a) (plain_folder_root e iid st)"
    unfolding plain_folder_root_def
    by (rule fine_bind [OF fine_on_backend [OF assms]], rule fine_bind [OF fine_need], assumption, rule fine_bind [OF new_item_ok])
      (auto dest: k intro!: load)
qed



end
