(* ===== verification/Tree_Claims.thy ===== *)
theory Tree_Claims
  imports Tree_Correct Backend_Correct
begin

text \<open>
  What the item tree promises: the shape of the tree after any history, lookups by path, what a
  refresh keeps and drops, what a rename does, and where a refresh goes wrong.
\<close>

section \<open>Histories\<close>

text \<open>
  Trees that the program can get to: roots are made, operations run, callers take and drop scope
  locks, and the outside changes as it likes.
\<close>

inductive tree_reach :: "('d, 's) fs_env \<Rightarrow> ('d, 's) fs \<Rightarrow> bool" for e where
  start: "fs_items st = (\<lambda>_. None) \<Longrightarrow> tree_reach e st"
| plain_root: "tree_reach e st \<Longrightarrow> tree_reach e (snd (plain_folder_root e iid st))"
| filesystem_root: "tree_reach e st \<Longrightarrow> tree_reach e (snd (filesystem_root e iid st))"
| super_root: "tree_reach e st \<Longrightarrow> tree_reach e (snd (super_root st))"
| step: "tree_reach e st \<Longrightarrow> call_holds st call \<Longrightarrow> tree_reach e (snd (tree_step e call st))"
| pins: "tree_reach e st \<Longrightarrow> tree_reach e (st\<lparr>fs_pins := ps\<rparr>)"
| outside: "tree_reach e st \<Longrightarrow> tree_reach e (st\<lparr>fs_backend := b\<rparr>)"

lemma tree_reach_ok: "tree_reach e st \<Longrightarrow> created_as_named e \<Longrightarrow> tree_ok st"
proof (induction rule: tree_reach.induct)
  case (start st)
  then show ?case by (simp add: tree_ok_def live_def)
next
  case (plain_root st iid)
  then show ?case using fine_roots(1) [of st e iid] by (simp add: fine_def)
next
  case (filesystem_root st iid)
  then show ?case using fine_roots(2) [of st e iid] by (simp add: fine_def)
next
  case (super_root st)
  then show ?case using fine_roots(3) [of st] by (simp add: fine_def)
next
  case (step st call)
  then show ?case using tree_step_sound by blast
qed simp_all

text \<open>C3: After any history of operations, whether they succeed or throw and whatever the backend answers, as long as it creates a file under the name it was asked for, every entry of a folder is an item that has this folder as its parent and the key as its name, so no item is in two places, and no two entries of a folder have the same name.\<close>

theorem item_tree_shape:
  assumes "tree_reach e st" and "created_as_named e"
    and "live st a" and "sm_find (folder_items st a) n = Some c"
  shows "live st c \<and> it_parent (item_at st c) = Some a \<and> it_name (item_at st c) = n \<and>
    distinct (map fst (folder_items st a)) \<and>
    (live st a' \<and> sm_find (folder_items st a') n' = Some c \<longleftrightarrow> a' = a \<and> n' = n)"
proof -
  have ok: "tree_ok st" using assms(1,2) by (rule tree_reach_ok)
  have "smap_ok (folder_items st a)" using tree_ok_item [OF ok assms(3)] by (simp add: item_ok_def)
  then show ?thesis using tree_ok_find [OF ok assms(3,4)] tree_ok_find [OF ok, of a' n' c] assms(3,4)
    by (auto simp: linked_def smap_ok_distinct)
qed

text \<open>A client without files whose backend answers nothing; on it the super root can be mounted.\<close>

definition idle_ops :: "unit runner_ops" where
  "idle_ops = \<lparr>rn_read = \<lambda>_ s. (Inr [], s), rn_write = \<lambda>_ s. (Inr [], s), rn_files_in = \<lambda>_ _ s. (Inr [], s),
     rn_stream_in = \<lambda>_ _ st s. (Inr [], st, s), rn_stream_out = \<lambda>_ s. ((None, []), s),
     rn_requires_session = True, rn_hostname = ''host'', rn_parse = \<lambda>_. None\<rparr>"

text \<open>
  Files as their size and whether the backend has them; writing back one that the backend does not
  have creates it with the CreateFile of the backend, as the create function of SubCreateFile does.
\<close>

definition size_flush :: "'s runner_ops \<Rightarrow> string \<Rightarrow> (unit, nat \<times> bool, 's) data_call" where
  "size_flush ops pid it b =
     (let d = the (it_data it)
      in if snd d then (Inr (), d, None, b)
         else (case create_file ops pid (it_name it) False b of
                 (Inl x, b) \<Rightarrow> (Inl (FSBackend x), d, None, b)
               | (Inr data, b) \<Rightarrow> (Inr (), (fst d, True), Some data, b)))"

definition size_ops :: "'s runner_ops \<Rightarrow> (nat \<times> bool, 's) file_ops" where
  "size_ops ops = \<lparr>fo_open = \<lambda>_ n _. (n, True), fo_new = \<lambda>_. (0, False), fo_exists = snd, fo_bsize = fst, fo_size = fst,
     fo_page_size = \<lambda>_. 4096, fo_remote = \<lambda>n d. (n, snd d),
     fo_flush = size_flush ops,
     fo_read = \<lambda>_ _ it b. (Inr [], the (it_data it), None, b),
     fo_write = \<lambda>_ off data it b. (Inr (), (max (fst (the (it_data it))) (off + length data), snd (the (it_data it))), None, b),
     fo_truncate = \<lambda>_ n it b. (Inr (), (n, snd (the (it_data it))), None, b),
     fo_steady = \<lambda>_. 0, fo_time = \<lambda>_. 0\<rparr>"

definition size_env :: "'s runner_ops \<Rightarrow> (nat \<times> bool, 's) fs_env" where
  "size_env ops = \<lparr>fe_ops = ops, fe_cfg = config_default, fe_data = size_ops ops\<rparr>"

lemma idle_create: "create_file idle_ops pid name ow b = (Inr data, b') \<Longrightarrow> json_at ''name'' data = Some (JStr name)"
  by (auto simp: create_file_def modifying_def action_files_in_def parsed_def on_env_def idle_ops_def get_json_def
      split: if_splits prod.splits)

lemma size_env_ok: "created_as_named (size_env idle_ops)"
  by (auto simp: created_as_named_def answers_named_def size_env_def size_ops_def size_flush_def Let_def
      split: prod.splits sum.splits if_splits dest!: idle_create)

definition no_items :: "'s backend \<Rightarrow> ('d, 's) fs" where
  "no_items b = \<lparr>fs_items = \<lambda>_. None, fs_next = 0, fs_pins = [], fs_cfgs = [], fs_backend = b\<rparr>"

definition mounted :: "(nat \<times> bool, unit) fs" where
  "mounted = snd (tree_step (size_env idle_ops) (LoadFolder 0) (snd (super_root (no_items (ex_backend ())))))"

lemma mounted_reach: "tree_reach (size_env idle_ops) mounted"
  unfolding mounted_def
  by (rule tree_reach.step [OF tree_reach.super_root [OF tree_reach.start]])
    (simp_all add: no_items_def super_root_def new_item_def live_def)

lemma mounted_items: "folder_items mounted 0 = [(''Adopted by others'', 1), (''Filesystems'', 2)]" "live mounted 0"
  by code_simp+

text \<open>
  A server with one folder, which gives a file that is uploaded the name it was asked for; on it a
  file is created and written back, so that the flush asks the server to create it and refreshes
  the item from the answer.
\<close>

definition dated_json :: "string \<Rightarrow> string \<Rightarrow> json" where
  "dated_json iid name = JObj [(''id'', JStr iid), (''name'', JStr name), (''date_created'', JInt 7), (''date_modified'', JNull),
     (''date_accessed'', JNull), (''storage'', JStr ''s''), (''size'', JInt 0), (''files'', JObj []), (''folders'', JObj [])]"

definition one_folder_answer :: "string \<Rightarrow> json option" where
  "one_folder_answer text =
     Some (JObj [(''ok'', JBool True),
       (''appdata'', if text = ''getfolder'' then dated_json ''r'' ''root'' else if text = ''getstorage'' then JNull
                     else dated_json ''f'' (tl text))])"

definition one_folder_ops :: "unit runner_ops" where
  "one_folder_ops = idle_ops\<lparr>rn_read := \<lambda>input s. (Inr (ri_action input), s),
     rn_files_in := \<lambda>input files s. (Inr (CHR ''u'' # fst (snd (hd files))), s), rn_parse := one_folder_answer\<rparr>"

lemma one_folder_create:
  "create_file one_folder_ops pid name ow b = (Inr data, b') \<Longrightarrow> json_at ''name'' data = Some (JStr name)"
  by (auto simp: create_file_def modifying_def action_files_in_def parsed_def on_env_def one_folder_ops_def idle_ops_def
      get_json_def one_folder_answer_def dated_json_def split: if_splits prod.splits)

lemma one_folder_named: "created_as_named (size_env one_folder_ops)"
  by (auto simp: created_as_named_def answers_named_def size_env_def size_ops_def size_flush_def Let_def
      split: prod.splits sum.splits if_splits dest!: one_folder_create)

definition saved_step :: "nat \<Rightarrow> (nat \<times> bool, unit) fs" where
  "saved_step n =
     (let st0 = snd (plain_folder_root (size_env one_folder_ops) ''r'' (no_items (ex_backend ())));
          st1 = snd (tree_step (size_env one_folder_ops) (tree_call.CreateFile 0 ''x'') st0)
      in if n = 0 then st0 else if n = 1 then st1 else snd (tree_step (size_env one_folder_ops) (FlushItem 1 False) st1))"

lemma saved_step_reach: "tree_reach (size_env one_folder_ops) (saved_step 2)"
proof -
  have "live (saved_step 0) 0" "live (saved_step 1) 1" by code_simp+
  then show ?thesis unfolding saved_step_def Let_def
    by (simp del: tree_step.simps)
      (intro tree_reach.step tree_reach.plain_root tree_reach.start, simp_all add: no_items_def del: tree_step.simps)
qed

lemma item_tree_shape_witness:
  "it_parent (item_at (saved_step 2) 1) = Some 0 \<and> it_name (item_at (saved_step 2) 1) = ''x'' \<and>
   it_id (item_at (saved_step 2) 1) = ''f''"
proof -
  have "live (saved_step 2) 0" "sm_find (folder_items (saved_step 2) 0) ''x'' = Some 1"
    "it_id (item_at (saved_step 2) 1) = ''f''" by code_simp+
  then show ?thesis using item_tree_shape [OF saved_step_reach one_folder_named, of 0 "''x''" 1 0 "''x''"] by simp
qed

text \<open>
  The condition on the answer is needed: Item::Refresh takes over the name that the server answers,
  and nothing gives the entry of the folder the new key.
\<close>

definition renaming_flush :: "string \<Rightarrow> (unit, nat \<times> bool, unit) data_call" where
  "renaming_flush pid it b = (Inr (), (0, True), Some (dated_json ''f'' (it_name it @ '' (1)'')), b)"

definition renaming_env :: "(nat \<times> bool, unit) fs_env" where
  "renaming_env = (size_env one_folder_ops)\<lparr>fe_data := (size_ops one_folder_ops)\<lparr>fo_flush := renaming_flush\<rparr>\<rparr>"

lemma answered_name_unkeyed:
  "fst (tree_step renaming_env (FlushItem 1 False) (saved_step 1)) = None"
  "sm_find (folder_items (snd (tree_step renaming_env (FlushItem 1 False) (saved_step 1))) 0) ''x'' = Some 1"
  "it_name (item_at (snd (tree_step renaming_env (FlushItem 1 False) (saved_step 1))) 1) = ''x (1)''"
  by code_simp+

section \<open>Lookup\<close>

text \<open>A lookup by path that succeeds returns the item at the end of the path: its name is the last component, that of its parent the one before, up to the folder it started at.\<close>

theorem lookup_follows_path:
  assumes "tree_ok st" and "live st a" and "get_item_by_path e a path st = (Inr c, st')"
  shows "below st' a (if dropWhile (\<lambda>x. x = CHR ''/'') path = [] then [] else path_parts (dropWhile (\<lambda>x. x = CHR ''/'') path)) c \<and>
    live st' c \<and> tree_ok st'"
  using fine_get_item_by_path [OF assms(1,2), of path e] assms(3) by simp

lemma lookup_follows_path_witness:
  "below (snd (get_item_by_path (size_env idle_ops) 0 ''/Filesystems'' mounted)) 0 [''Filesystems''] 2"
proof -
  let ?r = "get_item_by_path (size_env idle_ops) 0 ''/Filesystems'' mounted"
  have "?r = (Inr 2, snd ?r)" by (rule prod_eqI) (simp, code_simp, simp)
  from lookup_follows_path [OF tree_reach_ok [OF mounted_reach size_env_ok] mounted_items(2) this]
  have "below (snd ?r) 0 (path_parts ''Filesystems'') 2" by simp
  moreover have "path_parts ''Filesystems'' = [''Filesystems'']" by code_simp
  ultimately show ?thesis by simp
qed

section \<open>Refreshing a folder\<close>

text \<open>What the first loop leaves as it was: entries of the folder, and which items the backend has.\<close>

definition keeps_entries :: "('d, 's) fs_env \<Rightarrow> nat \<Rightarrow> (string, new_kind \<times> json) smap \<Rightarrow> ('d, 's) fs \<Rightarrow> ('d, 's) fs \<Rightarrow> bool" where
  "keeps_entries e a m st st' \<longleftrightarrow> (\<forall>n c. sm_find (folder_items st a) n = Some c \<longrightarrow>
     sm_find (folder_items st' a) n = Some c \<and>
     (n \<notin> fst ` set m \<longrightarrow> remote_item e (item_at st' c) = remote_item e (item_at st c))) \<and>
   (\<forall>n. sm_find (folder_items st' a) n \<noteq> None \<longleftrightarrow> sm_find (folder_items st a) n \<noteq> None \<or> n \<in> fst ` set m)"

lemma on_backend_items: "on_backend f st = (r, st') \<Longrightarrow> fs_items st' = fs_items st \<and> fs_next st' = fs_next st"
  by (cases "f (fs_backend st)"; cases "fst (f (fs_backend st))") (auto simp: on_backend_def)

lemma load_cfg_items: "load_cfg e sid st = (r, st') \<Longrightarrow> fs_items st' = fs_items st \<and> fs_next st' = fs_next st"
  by (cases "on_backend (get_storage (fe_ops e) sid) st"; cases "fst (on_backend (get_storage (fe_ops e) sid) st)")
    (auto simp: load_cfg_def need_def split: option.splits dest: on_backend_items)

lemma make_item_items:
  assumes "make_item e kind a data st = (Inr c, st')"
  shows "\<exists>it. fs_items st' = (fs_items st)(fs_next st \<mapsto> it) \<and> c = fs_next st"
  using assms
  by (cases kind) (auto simp: make_item_def make_file_def make_plain_def make_filesystem_def bindF_Pair need_Pair new_item_def
      dest!: load_cfg_items)

lemma sync_new_step:
  assumes ok: "tree_ok st" and a: "live st a" "it_kind (item_at st a) \<noteq> KSuperRoot"
    and nm: "Option.bind (json_at ''name'' data) json_str = Some name"
    and m: "(case sm_find (folder_items st a) name of
        None \<Rightarrow> bindF (make_item e kind a data st) (\<lambda>c st. (Inr (), set_items a (sm_assign name c (folder_items st a)) st))
      | Some c \<Rightarrow> refresh_at e c data st) = (Inr (), st')"
  shows "keeps_entries e a [(name, kind, data)] st st'"
proof (cases "sm_find (folder_items st a) name")
  case None
  then obtain c st1 where mk: "make_item e kind a data st = (Inr c, st1)" and st': "st' = set_items a (sm_assign name c (folder_items st1 a)) st1"
    using m by (auto simp: bindF_Pair)
  obtain it where it: "fs_items st1 = (fs_items st)(fs_next st \<mapsto> it)" "c = fs_next st" using make_item_items [OF mk] by blast
  have old: "b < fs_next st \<and> item_at st1 b = item_at st b" if "live st b" for b
    using tree_ok_item [OF ok that] it(1) by (auto simp: item_ok_def item_at_def)
  have maps: "folder_items st1 a = folder_items st a" using old [OF a(1)] by (simp add: folder_items_def)
  have kept: "remote_item e (item_at st' b) = remote_item e (item_at st b)" if "live st b" for b
    using old [OF that] old [OF a(1)] unfolding st' by (auto simp: set_items_def remote_item_def)
  have "folder_items st' a = sm_assign name c (folder_items st a)" unfolding st' maps by (simp add: set_items_def)
  then show ?thesis using None kept tree_ok_find [OF ok a(1)]
    by (auto simp: keeps_entries_def sm_find_def linked_def)
next
  case (Some c0)
  obtain r it where r: "item_refresh e data (item_at st c0) = (r, it)" by force
  have l: "linked st a name c0" by (rule tree_ok_find [OF ok a(1) Some])
  have place: "same_place (item_at st c0) it"
    by (rule item_refresh_place [OF r]) (use nm l in \<open>simp add: linked_def\<close>)
  have st': "st' = put_item c0 it st" using m Some r by (simp add: refresh_at_def)
  have maps: "folder_items st' a = folder_items st a" using place by (simp add: st' same_place_def folder_items_def)
  have "remote_item e (item_at st' c) = remote_item e (item_at st c)"
    if "sm_find (folder_items st a) n = Some c" "n \<noteq> name" for n c
    using tree_ok_find [OF ok a(1) that(1)] l that(2) by (auto simp: st' linked_def)
  then show ?thesis using Some maps by (auto simp: keeps_entries_def)
qed

lemma keeps_entries_trans:
  assumes "keeps_entries e a [(name, kind, data)] st st1" and "keeps_entries e a m st1 st'"
  shows "keeps_entries e a ((name, kind, data) # m) st st'"
  using assms unfolding keeps_entries_def by (simp, metis)

lemma sync_new_keeps:
  assumes "tree_ok st" and "live st a" and "it_kind (item_at st a) \<noteq> KSuperRoot" and "keyed m"
    and "sync_new e a m st = (Inr (), st')"
  shows "keeps_entries e a m st st'"
  using assms
proof (induction m arbitrary: st)
  case (Cons x m)
  obtain name kind data where x: "x = (name, kind, data)" by (metis surj_pair)
  have nm: "Option.bind (json_at ''name'' data) json_str = Some name" and k: "keyed m" using keyed_Cons Cons.prems(4) unfolding x by blast+
  obtain st1 where st1: "(case sm_find (folder_items st a) name of
        None \<Rightarrow> bindF (make_item e kind a data st) (\<lambda>c st. (Inr (), set_items a (sm_assign name c (folder_items st a)) st))
      | Some c \<Rightarrow> refresh_at e c data st) = (Inr (), st1)" and rest: "sync_new e a m st1 = (Inr (), st')"
    using Cons.prems(5) unfolding x by (auto simp: bindF_Pair split: if_splits)
  have one: "sync_new e a [(name, kind, data)] st = (Inr (), st1)"
    using st1 Cons.prems(5) unfolding x by (auto split: if_splits)
  have kk: "keyed [(name, kind, data)]" using nm by (simp add: keyed_def smap_ok_Cons)
  have f: "tree_ok st1" "extends st st1"
    using fine_sync_new [OF Cons.prems(1-3) kk, of e] one by simp_all
  have "keeps_entries e a m st1 st'"
    by (rule Cons.IH [OF f(1) extends_live [OF f(2) Cons.prems(2)] _ k rest]) (simp add: extends_kind [OF f(2) Cons.prems(2)] Cons.prems(3))
  then show ?case unfolding x
    by (rule keeps_entries_trans [OF sync_new_step [OF Cons.prems(1-3) nm st1]])
qed (simp add: keeps_entries_def)

text \<open>The second loop drops exactly the entries that the backend has no longer.\<close>

lemma sync_old_entries:
  "live st a \<Longrightarrow> smap_ok (folder_items st a) \<Longrightarrow> smap_ok old \<Longrightarrow> sync_old e a m old st = (Inr (), st') \<Longrightarrow>
    sm_find (folder_items st' a) n =
      (case sm_find old n of
         Some c \<Rightarrow> if sm_find m n = None \<and> remote_item e (item_at st c) then None else sm_find (folder_items st a) n
       | None \<Rightarrow> sm_find (folder_items st a) n)"
proof (induction e a m old st rule: sync_old.induct)
  case (2 e a m name c rest st)
  let ?st = "set_items a (sm_erase name (folder_items st a)) st"
  have rest: "smap_ok rest" "sm_find rest name = None"
    using 2(5) by (auto simp: smap_ok_Cons sm_find_def map_of_eq_None_iff)
  have rem: "remote_item e (item_at ?st b) = remote_item e (item_at st b)" for b by (simp add: set_items_def remote_item_def)
  have maps: "folder_items ?st a = sm_erase name (folder_items st a)" by (simp add: set_items_def)
  have live: "live ?st a" by (simp add: set_items_def)
  show ?case
  proof (cases "sm_find m name = None \<and> remote_item e (item_at st c)")
    case True
    then have run: "scope_free (fs_next st) c st" "sync_old e a m rest ?st = (Inr (), st')" using 2(6) by (auto split: if_splits)
    have ok: "smap_ok (folder_items ?st a)" unfolding maps by (rule smap_ok_erase [OF 2(4)])
    have f: "sm_find (sm_erase name (folder_items st a)) n = (if n = name then None else sm_find (folder_items st a) n)"
      using 2(4) by (simp add: sm_find_def)
    show ?thesis using 2(1) [OF True run(1) live ok rest(1) run(2)] True rest(2)
      unfolding rem maps f by (cases "n = name") (simp_all add: sm_find_def split: option.split)
  next
    case False
    then have run: "sync_old e a m rest st = (Inr (), st')" using 2(6) by auto
    show ?thesis using 2(2) [OF False 2(3,4) rest(1) run] False rest(2)
      by (cases "n = name") (auto simp: sm_find_def)
  qed
qed (simp add: sm_find_def)

text \<open>C9: A refresh that succeeds leaves a folder with the items that the backend lists and, besides them, the files it never had: no file that is not yet on the backend is lost, whatever the listing says, and an item that stays keeps its place.\<close>

theorem refresh_keeps_unsaved:
  assumes "tree_ok st" and "live st a" and "it_kind (item_at st a) \<noteq> KSuperRoot" and "keyed m"
    and "sync_contents e a m st = (Inr (), st')"
  shows "(sm_find (folder_items st' a) n \<noteq> None \<longleftrightarrow>
      n \<in> fst ` set m \<or> (\<exists>c. sm_find (folder_items st a) n = Some c \<and> \<not> remote_item e (item_at st c))) \<and>
    (\<forall>c. sm_find (folder_items st a) n = Some c \<longrightarrow> n \<in> fst ` set m \<or> \<not> remote_item e (item_at st c) \<longrightarrow>
      sm_find (folder_items st' a) n = Some c)"
proof -
  obtain st1 where n: "sync_new e a m st = (Inr (), st1)" and o: "sync_old e a m (folder_items st1 a) st1 = (Inr (), st')"
    using assms(5) by (auto simp: sync_contents_def bindF_Pair)
  have f: "tree_ok st1" "extends st st1" using fine_sync_new [OF assms(1-4), of e] n by simp_all
  have live: "live st1 a" by (rule extends_live [OF f(2) assms(2)])
  have ok: "smap_ok (folder_items st1 a)" using tree_ok_item [OF f(1) live] by (simp add: item_ok_def)
  have k: "keeps_entries e a m st st1" by (rule sync_new_keeps [OF assms(1-4) n])
  have m: "sm_find m n = None \<longleftrightarrow> n \<notin> fst ` set m" by (simp add: sm_find_def map_of_eq_None_iff)
  note e = sync_old_entries [OF live ok ok o, of n]
  show ?thesis
  proof (cases "sm_find (folder_items st1 a) n")
    case None
    then have "sm_find (folder_items st a) n = None" "n \<notin> fst ` set m" using k unfolding keeps_entries_def by blast+
    then show ?thesis using e None by simp
  next
    case (Some c)
    show ?thesis
    proof (cases "sm_find (folder_items st a) n")
      case None
      then have "n \<in> fst ` set m" using k Some unfolding keeps_entries_def by (metis option.distinct(1))
      then show ?thesis using None e m Some by simp
    next
      case (Some c')
      have "sm_find (folder_items st1 a) n = Some c'" using k Some unfolding keeps_entries_def by blast
      moreover have "n \<notin> fst ` set m \<Longrightarrow> remote_item e (item_at st1 c') = remote_item e (item_at st c')"
        using k Some unfolding keeps_entries_def by blast
      ultimately show ?thesis using e Some m by auto
    qed
  qed
qed

text \<open>A folder of the client with a file that is not on the backend yet and one that is.\<close>

definition half_saved :: "(nat \<times> bool, unit) fs" where
  "half_saved = \<lparr>fs_items = [0 \<mapsto> (blank_item KPlain)\<lparr>it_cfg := Some fsconfig_default, it_id := ''root'', it_items := [(''new'', 1), (''old'', 2)], it_have := True\<rparr>,
       1 \<mapsto> (blank_item KFile)\<lparr>it_name := ''new'', it_parent := Some 0, it_cfg := Some fsconfig_default, it_data := Some (7, False)\<rparr>,
       2 \<mapsto> (blank_item KFile)\<lparr>it_id := ''f2'', it_name := ''old'', it_parent := Some 0, it_cfg := Some fsconfig_default,
            it_data := Some (5, True)\<rparr>],
     fs_next = 3, fs_pins = [], fs_cfgs = [], fs_backend = ex_backend ()\<rparr>"

lemma half_saved_ok: "tree_ok half_saved" "live half_saved 0"
proof -
  have "it_parent (item_at half_saved a) = Some 0 \<or> a = 0" if "live half_saved a" for a
    using that by (simp add: half_saved_def live_def item_at_def blank_item_def split: if_splits)
  then have l: "live half_saved a \<Longrightarrow> a = 0 \<or> a = 1 \<or> a = 2" for a by (simp add: half_saved_def live_def split: if_splits)
  show "live half_saved 0" by code_simp
  have "item_ok half_saved 0" "item_ok half_saved 1" "item_ok half_saved 2"
    by (simp_all add: half_saved_def item_ok_def item_at_def live_def folder_items_def linked_def blank_item_def smap_ok_def)
  then show "tree_ok half_saved" using l unfolding tree_ok_def by blast
qed

lemma refresh_keeps_unsaved_witness:
  "map_of (folder_items (snd (sync_contents (size_env idle_ops) 0 [] half_saved)) 0) ''new'' = Some 1 \<and>
   map_of (folder_items (snd (sync_contents (size_env idle_ops) 0 [] half_saved)) 0) ''old'' = None"
proof -
  let ?r = "sync_contents (size_env idle_ops) 0 [] half_saved"
  have r: "?r = (Inr (), snd ?r)" by (rule prod_eqI) (simp, code_simp, simp)
  have k: "it_kind (item_at half_saved 0) \<noteq> KSuperRoot" "keyed []" by (code_simp, simp add: keyed_def smap_ok_def)
  have f: "sm_find (folder_items half_saved 0) ''new'' = Some 1" "sm_find (folder_items half_saved 0) ''old'' = Some 2"
    "\<not> remote_item (size_env idle_ops) (item_at half_saved 1)" "remote_item (size_env idle_ops) (item_at half_saved 2)"
    by code_simp+
  show ?thesis
    using refresh_keeps_unsaved [OF half_saved_ok k r, of "''new''"] refresh_keeps_unsaved [OF half_saved_ok k r, of "''old''"] f
    by (simp add: sm_find_def)
qed

section \<open>Renaming and moving\<close>

text \<open>C27: A rename that succeeds changes the loaded map of the parent in two places only: the old name is gone, and the new one leads to the renamed item, which has that name; without overwriting, the new name was free.\<close>

theorem rename_moves_entry:
  assumes ok: "tree_ok st" and c: "attached st c" and p: "it_parent (item_at st c) = Some a"
    and ne: "new \<noteq> it_name (item_at st c)"
    and load: "load_items e a True st = (Inr (), st1)" and ren: "item_rename e c new ow st = (Inr (), st')"
  shows "map_of (folder_items st' a) = (map_of (folder_items st1 a))(it_name (item_at st c) := None, new \<mapsto> c) \<and>
    it_name (item_at st' c) = new \<and> it_parent (item_at st' c) = Some a \<and>
    (\<not> ow \<longrightarrow> map_of (folder_items st1 a) new = None)"
proof -
  define old where "old = it_name (item_at st c)"
  have live: "live st a" "live st c" using attached_parent [OF ok c p] c by (auto simp: attached_def)
  have f: "tree_ok st1" "extends st st1" using fine_load_items [OF ok live(1), of e True] load by simp_all
  have c1: "attached st1 c" "it_parent (item_at st1 c) = Some a" "it_name (item_at st1 c) = old"
    using attached_extends [OF ok c f(2)] f(2) live p by (simp_all add: extends_def old_def)
  note at = attached_parent [OF f(1) c1(1,2)]
  have fnd: "sm_find (folder_items st1 a) old = Some c" using at c1(3) by simp
  have s: "smap_ok (folder_items st1 a)" using at by blast
  have dup: "\<not> (\<not> ow \<and> sm_find (folder_items st1 a) new \<noteq> None \<or> new = [])"
    using ren p load fnd ne by (auto simp: item_rename_def rename_item_def bindF_Pair old_def Let_def split: if_splits)
  obtain st2 where sub: "sub_rename e c new ow st1 = (Inr (), st2)"
    and st': "st' = (let m = (if sm_find (folder_items st1 a) new \<noteq> None then sm_erase new (folder_items st2 a) else folder_items st2 a);
                 st3 = set_items a (sm_emplace new c (sm_erase old m)) st2
             in put_item c ((item_at st3 c)\<lparr>it_name := new\<rparr>) st3)"
    using ren p load fnd ne by (auto simp: item_rename_def rename_item_def bindF_Pair old_def Let_def split: if_splits)
  have maps: "folder_items st2 a = folder_items st1 a" using keeps_maps_sub_rename [of st1 e c new ow] sub by (simp add: keeps_maps_def)
  define m where "m = sm_emplace new c (sm_erase old (sm_erase new (folder_items st1 a)))"
  have st2: "st' = put_item c ((item_at (set_items a m st2) c)\<lparr>it_name := new\<rparr>) (set_items a m st2)"
    unfolding st' maps erase_if m_def by (simp only: Let_def)
  have "extends st1 st2" using fine_sub_rename [OF f(1), of c e new ow] sub c1(1) by (simp add: attached_def)
  then have par: "it_parent (item_at st2 c) = Some a" using c1 by (simp add: extends_def attached_def)
  have "folder_items st' a = m" unfolding st2 by (simp add: set_items_def)
  moreover have "map_of m = (map_of (folder_items st1 a))(old := None, new \<mapsto> c)"
    using s ne by (auto simp: m_def smap_ok_erase fun_eq_iff old_def)
  ultimately show ?thesis using dup par unfolding st2 old_def [symmetric]
    by (auto simp: set_items_def sm_find_def)
qed

definition half_saved_pinned :: "(nat \<times> bool, unit) fs" where
  "half_saved_pinned = half_saved\<lparr>fs_pins := [1]\<rparr>"

lemma half_saved_pinned: "tree_ok half_saved_pinned" "attached half_saved_pinned 1" "it_parent (item_at half_saved_pinned 1) = Some 0"
  "''nu'' \<noteq> it_name (item_at half_saved_pinned 1)"
  using half_saved_ok by (simp_all add: half_saved_pinned_def attached_def)
    (simp_all add: half_saved_def item_at_def live_def folder_items_def blank_item_def sm_find_def)

lemma rename_moves_entry_witness:
  "map_of (folder_items (snd (item_rename (size_env idle_ops) 1 ''nu'' False half_saved_pinned)) 0) ''nu'' = Some 1"
proof -
  let ?l = "load_items (size_env idle_ops) 0 True half_saved_pinned"
  let ?r = "item_rename (size_env idle_ops) 1 ''nu'' False half_saved_pinned"
  have l: "?l = (Inr (), snd ?l)" by (rule prod_eqI) (simp, code_simp, simp)
  have r: "?r = (Inr (), snd ?r)" by (rule prod_eqI) (simp, code_simp, simp)
  show ?thesis using rename_moves_entry [OF half_saved_pinned l r] by simp
qed

lemma bindF_InrE:
  assumes "bindF m f = (Inr y, w)"
  obtains x w' where "m = (Inr x, w')" "f x w' = (Inr y, w)"
  using assms by (auto simp: bindF_Pair)

text \<open>What MoveItem does once both folders are loaded, and its last steps.\<close>

definition moved :: "nat \<Rightarrow> nat \<Rightarrow> string \<Rightarrow> nat \<Rightarrow> nat option \<Rightarrow> ('d, 's) fs \<Rightarrow> ('d, 's) fs" where
  "moved a np name c dup st =
     (let st = (if dup \<noteq> None then set_items np (sm_erase name (folder_items st np)) st else st);
          st = set_items a (sm_erase name (folder_items st a)) st
      in set_items np (sm_emplace name c (folder_items st np)) st)"

lemma move_item_steps:
  assumes "move_item e a name np ow st = (Inr (), w)" and "sm_find (folder_items st1 a) name = Some c"
    and load: "load_items e a False st = (Inr (), st1)" "load_items e np False st1 = (Inr (), st2)"
  obtains iid st3 iid' st4 st5 where "get_id e np st2 = (Inr iid, st3)" "get_id e np st3 = (Inr iid', st4)"
    "sub_move e c iid' ow st4 = (Inr (), st5)" "c \<noteq> np" "ow \<or> sm_find (folder_items st3 np) name = None"
    "w = moved a np name c (sm_find (folder_items st3 np) name) st5"
proof -
  have eq: "move_item e a name np ow st = (if read_only_fs a st then (Inl FSReadOnly, st)
      else bindF (load_items e a False st) (\<lambda>_ st. case sm_find (folder_items st a) name of None \<Rightarrow> (Inl NotFound, st)
           | Some c \<Rightarrow> bindF (load_items e np False st) (\<lambda>_ st. if read_only_fs np st then (Inl FSReadOnly, st)
               else bindF (get_id e np st) (\<lambda>iid st. if iid = [] then (Inl ModifyFolder, st)
               else if \<not> ow \<and> sm_find (folder_items st np) name \<noteq> None then (Inl DuplicateItem, st)
               else if c = np then (Inl FSDeadlock, st)
               else bindF (get_id e np st) (\<lambda>iid st'. bindF (sub_move e c iid ow st')
                 (\<lambda>_ st'. (Inr (), moved a np name c (sm_find (folder_items st np) name) st')))))))"
    by (simp only: move_item_def moved_def Let_def)
  have "bindF (get_id e np st2) (\<lambda>iid st. if iid = [] then (Inl ModifyFolder, st)
               else if \<not> ow \<and> sm_find (folder_items st np) name \<noteq> None then (Inl DuplicateItem, st)
               else if c = np then (Inl FSDeadlock, st)
               else bindF (get_id e np st) (\<lambda>iid st'. bindF (sub_move e c iid ow st')
                 (\<lambda>_ st'. (Inr (), moved a np name c (sm_find (folder_items st np) name) st')))) = (Inr (), w)"
    using assms(1,2) by (simp add: eq load del: not_None_eq split: if_splits)
  then obtain iid st3 where s3: "get_id e np st2 = (Inr iid, st3)" "c \<noteq> np" "ow \<or> sm_find (folder_items st3 np) name = None"
      "bindF (get_id e np st3) (\<lambda>iid st'. bindF (sub_move e c iid ow st')
                 (\<lambda>_ st'. (Inr (), moved a np name c (sm_find (folder_items st3 np) name) st'))) = (Inr (), w)"
    by (elim bindF_InrE) (simp del: not_None_eq split: if_splits; blast)
  from s3(4) obtain iid' st4 st5 where s5: "get_id e np st3 = (Inr iid', st4)" "sub_move e c iid' ow st4 = (Inr (), st5)"
      "w = moved a np name c (sm_find (folder_items st3 np) name) st5"
    by (elim bindF_InrE) simp
  show thesis by (rule that [OF s3(1) s5(1,2) s3(2,3) s5(3)])
qed

text \<open>C28: A move that succeeds takes the item out of the loaded map of its folder and into that of the new parent, under the same name and replacing what was there; the item is not the new parent.\<close>

theorem move_moves_entry:
  assumes d: "created_as_named e" and ok: "tree_ok st" and c: "attached st c" and p: "it_parent (item_at st c) = Some a"
    and np: "live st np" "a \<noteq> np"
    and load: "load_items e a False st = (Inr (), st1)" "load_items e np False st1 = (Inr (), st2)"
    and mov: "item_move e c np ow st = (Inr (), st')"
  shows "map_of (folder_items st' a) = (map_of (folder_items st2 a))(it_name (item_at st c) := None) \<and>
    map_of (folder_items st' np) = (map_of (folder_items st2 np))(it_name (item_at st c) \<mapsto> c) \<and>
    it_parent (item_at st' c) = Some np \<and> c \<noteq> np \<and>
    (\<not> ow \<longrightarrow> map_of (folder_items st2 np) (it_name (item_at st c)) = None)"
proof -
  define name where "name = it_name (item_at st c)"
  have live: "live st a" "live st c" using attached_parent [OF ok c p] c by (auto simp: attached_def)
  have f1: "tree_ok st1" "extends st st1" using fine_load_items [OF ok live(1), of e False] load by simp_all
  have c1: "attached st1 c" "it_parent (item_at st1 c) = Some a" "it_name (item_at st1 c) = name" "live st1 np"
    using attached_extends [OF ok c f1(2)] f1(2) live p np by (simp_all add: extends_def name_def)
  have fnd: "sm_find (folder_items st1 a) name = Some c" using attached_parent [OF f1(1) c1(1,2)] c1(3) by simp
  have f2: "tree_ok st2" "extends st1 st2" using fine_load_items [OF f1(1) c1(4), of e False] load by simp_all
  have s: "smap_ok (folder_items st2 a)" "smap_ok (folder_items st2 np)"
    using tree_ok_item [OF f2(1)] extends_live [OF f2(2)] extends_live [OF f1(2) live(1)] c1(4) by (auto simp: item_ok_def)
  obtain w where w: "move_item e a name np ow st = (Inr (), w)" "st' = put_item c ((item_at w c)\<lparr>it_parent := Some np\<rparr>) w"
    using mov p np(2) by (auto simp: item_move_def bindF_Pair name_def [symmetric])
  obtain iid st3 iid' st4 st5 where steps: "get_id e np st2 = (Inr iid, st3)" "get_id e np st3 = (Inr iid', st4)"
    "sub_move e c iid' ow st4 = (Inr (), st5)" "c \<noteq> np" "ow \<or> sm_find (folder_items st3 np) name = None"
    "w = moved a np name c (sm_find (folder_items st3 np) name) st5"
    by (rule move_item_steps [OF w(1) fnd load])
  have maps: "folder_items st3 b = folder_items st2 b" "folder_items st5 b = folder_items st2 b" for b
    using keeps_maps_get_id [of st2 e np] keeps_maps_get_id [of st3 e np] keeps_maps_sub_move [OF d, of st4 c iid' ow] steps(1-3)
    by (simp_all add: keeps_maps_def)
  define m where "m = sm_emplace name c (sm_erase name (folder_items st2 np))"
  have "folder_items st' a = sm_erase name (folder_items st2 a)" "folder_items st' np = m"
    using np(2) sm_erase_absent [of "folder_items st2 np" name] unfolding w(2) steps(6) m_def moved_def
    by (auto simp: Let_def set_items_def maps)
  moreover have "it_parent (item_at st' c) = Some np" unfolding w(2) by simp
  ultimately show ?thesis using s steps(4,5) maps
    by (auto simp: m_def name_def sm_find_def fun_eq_iff)
qed

text \<open>Two folders and a file in one of them, while the backend only plays along.\<close>

definition two_folders :: "(nat \<times> bool, unit) fs" where
  "two_folders = \<lparr>fs_items = [0 \<mapsto> (blank_item KPlain)\<lparr>it_cfg := Some fsconfig_default, it_id := ''r'', it_items := [(''a'', 1), (''b'', 2)], it_have := True\<rparr>,
       1 \<mapsto> (blank_item KPlain)\<lparr>it_cfg := Some fsconfig_default, it_id := ''fa'', it_name := ''a'', it_parent := Some 0, it_items := [(''f'', 3)], it_have := True\<rparr>,
       2 \<mapsto> (blank_item KPlain)\<lparr>it_cfg := Some fsconfig_default, it_id := ''fb'', it_name := ''b'', it_parent := Some 0, it_have := True\<rparr>,
       3 \<mapsto> (blank_item KFile)\<lparr>it_id := ''ff'', it_name := ''f'', it_parent := Some 1, it_cfg := Some fsconfig_default, it_data := Some (7, True)\<rparr>],
     fs_next = 4, fs_pins = [3, 1], fs_cfgs = [], fs_backend = (ex_backend ())\<lparr>be_memory := True\<rparr>\<rparr>"

lemma two_folders_ok: "tree_ok two_folders"
proof -
  have "a = 0 \<or> a = 1 \<or> a = 2 \<or> a = 3" if "live two_folders a" for a
    using that by (simp add: two_folders_def live_def split: if_splits)
  moreover have "item_ok two_folders 0" "item_ok two_folders 1" "item_ok two_folders 2" "item_ok two_folders 3"
    by (simp_all add: two_folders_def item_ok_def item_at_def live_def folder_items_def linked_def blank_item_def smap_ok_def)
  ultimately show ?thesis unfolding tree_ok_def by metis
qed

lemma two_folders_items: "attached two_folders 3" "it_parent (item_at two_folders 3) = Some 1" "live two_folders 2" "(1::nat) \<noteq> 2"
  by (simp_all add: two_folders_def attached_def item_at_def live_def folder_items_def blank_item_def sm_find_def)

lemma move_moves_entry_witness:
  "map_of (folder_items (snd (item_move (size_env idle_ops) 3 2 False two_folders)) 2) ''f'' = Some 3"
proof -
  let ?l = "load_items (size_env idle_ops) 1 False two_folders"
  let ?m = "load_items (size_env idle_ops) 2 False (snd ?l)"
  let ?r = "item_move (size_env idle_ops) 3 2 False two_folders"
  have l: "?l = (Inr (), snd ?l)" "?m = (Inr (), snd ?m)" by (rule prod_eqI; simp, code_simp?, simp?)+
  have r: "?r = (Inr (), snd ?r)" by (rule prod_eqI) (simp, code_simp, simp)
  have "it_name (item_at two_folders 3) = ''f''" by code_simp
  then show ?thesis using move_moves_entry [OF size_env_ok two_folders_ok two_folders_items l r] by simp
qed

text \<open>A folder cannot be moved into itself: the operation never returns normally, and when its requests succeed it waits for the lock of the item that it holds itself as the new parent.\<close>

theorem move_into_itself:
  assumes "attached st c" and "it_parent (item_at st c) = Some a" and "tree_ok st" and "a \<noteq> c"
  shows "fst (item_move e c c ow st) \<noteq> Inr ()"
proof
  assume "fst (item_move e c c ow st) = Inr ()"
  then obtain st1 where load: "load_items e a False st = (Inr (), st1)"
    and "(case sm_find (folder_items st1 a) (it_name (item_at st c)) of None \<Rightarrow> True | Some d \<Rightarrow> d \<noteq> c)"
    using assms(2,4) by (cases "item_move e c c ow st")
      (auto simp: item_move_def move_item_def bindF_Pair Let_def split: if_splits option.splits)
  moreover have "sm_find (folder_items st1 a) (it_name (item_at st c)) = Some c"
  proof -
    have "sm_find (folder_items st a) (it_name (item_at st c)) = Some c" "live st a"
      using attached_parent [OF assms(3,1,2)] by auto
    then show ?thesis using fine_load_items [OF assms(3), of a e False] load assms(1) extends_pinned [of st st1 a c]
      by (simp add: attached_def)
  qed
  ultimately show False by simp
qed

lemma move_into_itself_witness: "fst (item_move (size_env idle_ops) 1 1 True two_folders) \<noteq> Inr ()"
proof -
  have "attached two_folders 1" "it_parent (item_at two_folders 1) = Some 0" "(0::nat) \<noteq> 1"
    by (simp_all add: two_folders_def attached_def item_at_def live_def folder_items_def blank_item_def sm_find_def)
  then show ?thesis using move_into_itself [OF _ _ two_folders_ok, of 1 0 "size_env idle_ops" True] by simp
qed

section \<open>Creating and deleting\<close>

text \<open>C29: With a cache, creating a file that succeeds adds exactly one entry to the loaded map of the folder, under the given name, which was free and is a valid one; its item is new, without data, and nothing is sent to the backend for it.\<close>

theorem create_adds_file:
  assumes ok: "tree_ok st" and a: "live st a" and cache: "co_cachetype (fe_cfg e) \<noteq> CacheNone"
    and load: "load_items e a True st = (Inr (), st1)" and create: "folder_create_file e a name st = (Inr (), st')"
  shows "map_of (folder_items st' a) = (map_of (folder_items st1 a))(name \<mapsto> fs_next st1) \<and>
    map_of (folder_items st1 a) name = None \<and> name \<noteq> [] \<and> \<not> bad_name name \<and> \<not> live st1 (fs_next st1) \<and>
    it_data (item_at st' (fs_next st1)) = Some (fo_new (fe_data e) (the (it_cfg (item_at st1 a)))) \<and>
    fs_backend st' = fs_backend st1"
proof -
  have f: "tree_ok st1" "extends st st1" using fine_load_items [OF ok a, of e True] load by simp_all
  have live: "live st1 a" by (rule extends_live [OF f(2) a])
  have fresh: "\<not> live st1 (fs_next st1)" using f(1) by (auto simp: tree_ok_def item_ok_def)
  then have ne: "a \<noteq> fs_next st1" using live by auto
  have free: "map_of (folder_items st1 a) name = None" "name \<noteq> []" "\<not> bad_name name"
    and sub: "sub_create_file e a name st1 = (Inr (), st')"
    using create load by (auto simp: folder_create_file_def create_checked_def sm_find_def split: if_splits)
  have "plain_folder (it_kind (item_at st1 a))" "\<not> read_only_fs a st1" using sub by (auto simp: sub_create_file_def split: if_splits)
  then have "st' = set_items a (sm_assign name (fs_next st1) (folder_items st1 a)) (snd (new_item ((blank_item KFile)\<lparr>it_name := name,
      it_parent := Some a, it_cfg := Some (the (it_cfg (item_at st1 a))), it_created := fo_time (fe_data e) (be_env (fs_backend st1)),
      it_data := Some (fo_new (fe_data e) (the (it_cfg (item_at st1 a))))\<rparr>) st1))"
    using sub cache ne by (auto simp: sub_create_file_def new_item_def Let_def item_at_def folder_items_def)
  then show ?thesis using free fresh ne
    by (simp add: new_item_def set_items_def item_at_def put_item_def folder_items_def)
qed

lemma create_adds_file_witness:
  "map_of (folder_items (snd (folder_create_file (size_env idle_ops) 0 ''more'' half_saved)) 0) ''more'' = Some 3"
proof -
  let ?l = "load_items (size_env idle_ops) 0 True half_saved"
  let ?r = "folder_create_file (size_env idle_ops) 0 ''more'' half_saved"
  have l: "?l = (Inr (), snd ?l)" by (rule prod_eqI) (simp, code_simp, simp)
  have r: "?r = (Inr (), snd ?r)" by (rule prod_eqI) (simp, code_simp, simp)
  have c: "co_cachetype (fe_cfg (size_env idle_ops)) \<noteq> CacheNone" by code_simp
  have n: "fs_next (snd ?l) = 3" by code_simp
  show ?thesis using create_adds_file [OF half_saved_ok c l r] n by simp
qed

text \<open>C30: Deleting an item that succeeds takes its entry, and no other, out of the loaded map of its parent.\<close>

theorem delete_removes_entry:
  assumes ok: "tree_ok st" and c: "live st c" and p: "it_parent (item_at st c) = Some a"
    and load: "load_items e a True (st\<lparr>fs_pins := remove1 c (a # fs_pins st)\<rparr>) = (Inr (), st1)"
    and del: "item_delete e c st = (Inr (), st')"
  shows "map_of (folder_items st' a) = (map_of (folder_items st1 a))(it_name (item_at st c) := None) \<and>
    (\<exists>d. map_of (folder_items st1 a) (it_name (item_at st c)) = Some d)"
proof -
  let ?st = "st\<lparr>fs_pins := remove1 c (a # fs_pins st)\<rparr>"
  define name where "name = it_name (item_at st c)"
  have a: "live ?st a" using tree_ok_item [OF ok c] p by (simp add: item_ok_def)
  have f: "tree_ok st1" "extends ?st st1" using fine_load_items [OF _ a, of e True] load ok by simp_all
  have s: "smap_ok (folder_items st1 a)" using tree_ok_item [OF f(1) extends_live [OF f(2) a]] by (simp add: item_ok_def)
  obtain st3 where del2: "delete_item e a name ?st = (Inr (), st3)" and st3: "st' = unscope a (fs_pins st) st3"
    using del p by (auto simp: item_delete_def scoped_def name_def split: prod.splits)
  obtain d st2 where d: "sm_find (folder_items st1 a) name = Some d" and sub: "sub_delete e d st1 = (Inr (), st2)"
    and st': "st3 = set_items a (sm_erase name (folder_items st2 a)) st2"
    using del2 load by (auto simp: delete_item_def bindF_Pair split: if_splits option.splits)
  have "folder_items st2 a = folder_items st1 a"
    using keeps_maps_sub_delete [of st1 e d] sub by (simp add: keeps_maps_def)
  then show ?thesis using d s unfolding name_def [symmetric] by (simp add: st3 st' set_items_def sm_find_def)
qed

lemma delete_removes_entry_witness:
  "map_of (folder_items (snd (item_delete (size_env idle_ops) 1 half_saved_pinned)) 0) ''new'' = None"
proof -
  let ?l = "load_items (size_env idle_ops) 0 True (half_saved_pinned\<lparr>fs_pins := remove1 1 (0 # fs_pins half_saved_pinned)\<rparr>)"
  let ?r = "item_delete (size_env idle_ops) 1 half_saved_pinned"
  have l: "?l = (Inr (), snd ?l)" by (rule prod_eqI) (simp, code_simp, simp)
  have r: "?r = (Inr (), snd ?r)" by (rule prod_eqI) (simp, code_simp, simp)
  have i: "live half_saved_pinned 1" "it_name (item_at half_saved_pinned 1) = ''new''" by code_simp+
  show ?thesis using delete_removes_entry [OF half_saved_pinned(1) i(1) half_saved_pinned(3) l r] i(2) by simp
qed

text \<open>Renaming a file that the backend does not have asks nothing of the backend beyond refreshing the folder, even when it replaces a file that the backend has: that file stays there under the name.\<close>

theorem rename_unsaved_silent:
  assumes ok: "tree_ok st" and c: "attached st c" and p: "it_parent (item_at st c) = Some a"
    and ne: "new \<noteq> it_name (item_at st c)"
    and load: "load_items e a True st = (Inr (), st1)" and ren: "item_rename e c new True st = (Inr (), st')"
    and unsaved: "it_kind (item_at st1 c) = KFile" "\<not> fo_exists (fe_data e) (the (it_data (item_at st1 c)))"
  shows "fs_backend st' = fs_backend st1"
proof -
  have live: "live st a" "live st c" using attached_parent [OF ok c p] c by (auto simp: attached_def)
  have f: "tree_ok st1" "extends st st1" using fine_load_items [OF ok live(1), of e True] load by simp_all
  have c1: "attached st1 c" "it_parent (item_at st1 c) = Some a" "it_name (item_at st1 c) = it_name (item_at st c)"
    using attached_extends [OF ok c f(2)] f(2) live p by (simp_all add: extends_def)
  have "sm_find (folder_items st1 a) (it_name (item_at st c)) = Some c" using attached_parent [OF f(1) c1(1,2)] c1(3) by simp
  then show ?thesis using ren p load ne unsaved
    by (auto simp: item_rename_def rename_item_def bindF_Pair sub_rename_def Let_def set_items_def split: if_splits)
qed

lemma rename_unsaved_silent_witness:
  "be_memory (fs_backend (snd (item_rename (size_env idle_ops) 1 ''old'' True half_saved_pinned))) = False \<and>
   map_of (folder_items (snd (item_rename (size_env idle_ops) 1 ''old'' True half_saved_pinned)) 0) ''old'' = Some 1"
proof -
  let ?l = "load_items (size_env idle_ops) 0 True half_saved_pinned"
  let ?r = "item_rename (size_env idle_ops) 1 ''old'' True half_saved_pinned"
  have l: "?l = (Inr (), snd ?l)" by (rule prod_eqI) (simp, code_simp, simp)
  have r: "?r = (Inr (), snd ?r)" by (rule prod_eqI) (simp, code_simp, simp)
  have i: "''old'' \<noteq> it_name (item_at half_saved_pinned 1)" "it_kind (item_at (snd ?l) 1) = KFile"
    "\<not> fo_exists (fe_data (size_env idle_ops)) (the (it_data (item_at (snd ?l) 1)))" "be_memory (fs_backend (snd ?l)) = False"
    by code_simp+
  have "map_of (folder_items (snd ?r) 0) ''old'' = Some 1" by code_simp
  then show ?thesis using rename_unsaved_silent [OF half_saved_pinned(1-3) i(1) l r i(2,3)] i(4) by simp
qed


end
