(* ===== verification/Fuse_Ops.thy ===== *)
theory Fuse_Ops
  imports Tree_Claims Option_Structs "HOL-Library.Signed_Division"
begin

text \<open>
  The file system calls of andromeda-fuse (src/lib/andromeda-fuse/FuseOperations.cpp) over the item
  tree: each call finds its item by path, holds its scope lock while it works, and turns exceptions
  into error numbers. Compiled for libfuse 3 on Linux. A call that waits for a lock of its own never
  returns; its result is None.
\<close>

section \<open>Error numbers\<close>

datatype errno = EISDIR | ENOTDIR | ENOENT | EEXIST | ENOTSUP | EROFS | ENOMEM | EACCES | EHOSTDOWN | EIO
  | EINVAL | ENOTEMPTY

text \<open>The exception classes that CatchAsErrno names, and what is thrown of them.\<close>

datatype exn_class = CNotFile | CNotFolder | CNotFound | CDuplicate | CModify | CWriteType | CItemReadOnly | CNullParent
  | CMemory | CUnsupported | CBackendReadOnlyFS | CDenied | CBackendNotFound | CWriteSize | CConnection | CBase

text \<open>The class of an exception object, if it is one of those; conn tells a ConnectionException by its message.\<close>

fun class_of :: "(string \<Rightarrow> bool) \<Rightarrow> fs_exn \<Rightarrow> exn_class" where
  "class_of conn NotFile = CNotFile"
| "class_of conn NotFolder = CNotFolder"
| "class_of conn NotFound = CNotFound"
| "class_of conn DuplicateItem = CDuplicate"
| "class_of conn ModifyFolder = CModify"
| "class_of conn FSWriteType = CWriteType"
| "class_of conn FSReadOnly = CItemReadOnly"
| "class_of conn NullParent = CNullParent"
| "class_of conn FSMemory = CMemory"
| "class_of conn (FSBackend UnsupportedException) = CUnsupported"
| "class_of conn (FSBackend (ReadOnlyFSException _)) = CBackendReadOnlyFS"
| "class_of conn (FSBackend (DeniedException _)) = CDenied"
| "class_of conn (FSBackend AuthenticationFailed) = CDenied"
| "class_of conn (FSBackend TwoFactorRequired) = CDenied"
| "class_of conn (FSBackend (NotFoundException _)) = CBackendNotFound"
| "class_of conn (FSBackend WriteSizeException) = CWriteSize"
| "class_of conn (FSBackend (RunnerError msg)) = (if conn msg then CConnection else CBase)"
| "class_of conn _ = CBase"

text \<open>The classes that a handler catches: BackendImpl::ReadOnlyFSException is a DeniedException, all are BaseException.\<close>

definition handles :: "exn_class \<Rightarrow> exn_class \<Rightarrow> bool" where
  "handles h c \<longleftrightarrow> h = c \<or> h = CBase \<or> h = CDenied \<and> c = CBackendReadOnlyFS"

definition handlers :: "(exn_class \<times> errno) list" where
  "handlers = [(CNotFile, EISDIR), (CNotFolder, ENOTDIR), (CNotFound, ENOENT), (CDuplicate, EEXIST), (CModify, ENOTSUP),
     (CWriteType, ENOTSUP), (CItemReadOnly, EROFS), (CNullParent, ENOTSUP), (CMemory, ENOMEM), (CUnsupported, ENOTSUP),
     (CBackendReadOnlyFS, EROFS), (CDenied, EACCES), (CBackendNotFound, ENOENT), (CWriteSize, ENOTSUP),
     (CConnection, EHOSTDOWN), (CBase, EIO)]"

text \<open>The first handler that matches.\<close>

definition fuse_errno :: "(string \<Rightarrow> bool) \<Rightarrow> fs_exn \<Rightarrow> errno" where
  "fuse_errno conn x = (case List.find (\<lambda>(h, _). handles h (class_of conn x)) handlers of Some (_, n) \<Rightarrow> n | None \<Rightarrow> EIO)"

record ('d, 's) fuse_env =
  fu_fs :: "('d, 's) fs_env"
  fu_opts :: fuse_opts
  fu_root :: nat
  fu_uid :: nat
  fu_gid :: nat
  fu_connection :: "string \<Rightarrow> bool"

text \<open>What a call returns: a number that is not negative, or an error number (negated in the code).\<close>

type_synonym fuse_ret = "(errno + int) option"

definition catch_as_errno :: "(string \<Rightarrow> bool) \<Rightarrow> (errno + int, 'w) fs_res \<Rightarrow> fuse_ret \<times> 'w" where
  "catch_as_errno conn m =
     (case m of (r, w) \<Rightarrow> (case r of
        Inr v \<Rightarrow> Some v
      | Inl x \<Rightarrow> if x = FSDeadlock then None else Some (Inl (fuse_errno conn x)), w))"

section \<open>Holding items\<close>

text \<open>A call gets the item at its path, with its scope lock, and holds it while the body runs.\<close>

definition with_item :: "('d, 's) fuse_env \<Rightarrow> string \<Rightarrow> (nat \<Rightarrow> ('d, 's) fs \<Rightarrow> ('a, ('d, 's) fs) fs_res) \<Rightarrow> ('d, 's) fs \<Rightarrow>
    ('a, ('d, 's) fs) fs_res" where
  "with_item v path f st = bindF (get_item_by_path (fu_fs v) (fu_root v) path st) (\<lambda>c. scoped c (f c))"

definition with_file :: "('d, 's) fuse_env \<Rightarrow> string \<Rightarrow> (nat \<Rightarrow> ('d, 's) fs \<Rightarrow> ('a, ('d, 's) fs) fs_res) \<Rightarrow> ('d, 's) fs \<Rightarrow>
    ('a, ('d, 's) fs) fs_res" where
  "with_file v path f st = bindF (get_file_by_path (fu_fs v) (fu_root v) path st) (\<lambda>c. scoped c (f c))"

definition with_folder :: "('d, 's) fuse_env \<Rightarrow> string \<Rightarrow> (nat \<Rightarrow> ('d, 's) fs \<Rightarrow> ('a, ('d, 's) fs) fs_res) \<Rightarrow> ('d, 's) fs \<Rightarrow>
    ('a, ('d, 's) fs) fs_res" where
  "with_folder v path f st = bindF (get_folder_by_path (fu_fs v) (fu_root v) path st) (\<lambda>c. scoped c (f c))"

text \<open>A call with a path, which may be null; what it does returns a number.\<close>

definition on_path :: "('d, 's) fuse_env \<Rightarrow> string option \<Rightarrow> (string \<Rightarrow> ('d, 's) fs \<Rightarrow> (errno + int, ('d, 's) fs) fs_res) \<Rightarrow>
    ('d, 's) fs \<Rightarrow> fuse_ret \<times> ('d, 's) fs" where
  "on_path v path f st =
     (case path of None \<Rightarrow> (Some (Inl EINVAL), st) | Some p \<Rightarrow> catch_as_errno (fu_connection v) (f p st))"

definition success :: "(unit, 'w) fs_res \<Rightarrow> (errno + int, 'w) fs_res" where
  "success m = bindF m (\<lambda>_ w. (Inr (Inr 0), w))"

section \<open>Attributes\<close>

record fstat =
  sb_mode :: int
  sb_size :: int
  sb_blksize :: int
  sb_uid :: nat
  sb_gid :: nat
  sb_blocks :: int
  sb_ctim :: "int \<times> int"
  sb_mtim :: "int \<times> int"
  sb_atim :: "int \<times> int"

text \<open>S_IFREG and S_IFDIR.\<close>

definition mode_reg :: int where "mode_reg = 32768"
definition mode_dir :: int where "mode_dir = 16384"

text \<open>Dates are whole numbers in the model, so there are no nanoseconds.\<close>

definition date_to_timespec :: "int \<Rightarrow> int \<times> int" where
  "date_to_timespec t = (t, 0)"

definition item_stat :: "('d, 's) fuse_env \<Rightarrow> ('d, 's) fs \<Rightarrow> nat \<Rightarrow> fstat" where
  "item_stat v st c =
     (let it = item_at st c;
          is_file = (it_kind it = KFile);
          bytes = (if is_file then signed64 (fo_size (fe_data (fu_fs v)) (the (it_data it))) else 0)
      in \<lparr>sb_mode = (if is_file then or mode_reg (fo_filemode (fu_opts v)) else or mode_dir (fo_dirmode (fu_opts v))),
          sb_size = bytes,
          sb_blksize = (if is_file then signed64 (fo_page_size (fe_data (fu_fs v)) (the (it_data it))) else 4096),
          sb_uid = fu_uid v, sb_gid = fu_gid v,
          sb_blocks = (if bytes = 0 then 0 else (bytes - 1) sdiv 512 + 1),
          sb_ctim = date_to_timespec (it_created it),
          sb_mtim = (if it_modified it = 0 then date_to_timespec (it_created it) else date_to_timespec (it_modified it)),
          sb_atim = (if it_accessed it = 0 then date_to_timespec (it_created it) else date_to_timespec (it_accessed it))\<rparr>)"

section \<open>The calls\<close>

text \<open>O_WRONLY, O_RDWR and O_TRUNC.\<close>

definition for_writing :: "int \<Rightarrow> bool" where
  "for_writing flags \<longleftrightarrow> and flags 1 \<noteq> 0 \<or> and flags 2 \<noteq> 0"

definition truncating :: "int \<Rightarrow> bool" where
  "truncating flags \<longleftrightarrow> and flags 512 \<noteq> 0"

text \<open>The methods of File on its data; those that may write back know the id of the parent.\<close>

definition tree_truncate :: "('d, 's) fs_env \<Rightarrow> nat \<Rightarrow> nat \<Rightarrow> ('d, 's) fs \<Rightarrow> (unit, ('d, 's) fs) fs_res" where
  "tree_truncate e c n st = bindF (create_id e c st) (\<lambda>iid. data_op c (fo_truncate (fe_data e) iid n))"

definition tree_write :: "('d, 's) fs_env \<Rightarrow> nat \<Rightarrow> nat \<Rightarrow> bytes \<Rightarrow> ('d, 's) fs \<Rightarrow> (unit, ('d, 's) fs) fs_res" where
  "tree_write e c off data st = bindF (create_id e c st) (\<lambda>iid. data_op c (fo_write (fe_data e) iid off data))"

definition fuse_open :: "('d, 's) fuse_env \<Rightarrow> string option \<Rightarrow> int \<Rightarrow> ('d, 's) fs \<Rightarrow> fuse_ret \<times> ('d, 's) fs" where
  "fuse_open v path flags = on_path v path (\<lambda>p. with_file v p (\<lambda>c st.
     if for_writing flags \<and> read_only_fs c st then (Inr (Inl EROFS), st)
     else if truncating flags then success (tree_truncate (fu_fs v) c 0 st)
     else (Inr (Inr 0), st)))"

definition fuse_opendir :: "('d, 's) fuse_env \<Rightarrow> string option \<Rightarrow> int \<Rightarrow> ('d, 's) fs \<Rightarrow> fuse_ret \<times> ('d, 's) fs" where
  "fuse_opendir v path flags = on_path v path (\<lambda>p. with_folder v p (\<lambda>a st.
     if for_writing flags \<and> read_only_fs a st then (Inr (Inl EROFS), st) else (Inr (Inr 0), st)))"

text \<open>The attributes go to a buffer of the caller.\<close>

definition fuse_getattr :: "('d, 's) fuse_env \<Rightarrow> string option \<Rightarrow> fstat \<Rightarrow> ('d, 's) fs \<Rightarrow> fuse_ret \<times> fstat \<times> ('d, 's) fs" where
  "fuse_getattr v path buf st =
     (case path of
        None \<Rightarrow> (Some (Inl EINVAL), buf, st)
      | Some p \<Rightarrow>
          (case with_item v p (\<lambda>c st. (Inr (item_stat v st c), st)) st of
             (Inr stat, st) \<Rightarrow> (Some (Inr 0), stat, st)
           | (Inl x, st) \<Rightarrow> (fst (catch_as_errno (fu_connection v) (Inl x, st)), buf, st)))"

text \<open>The calls of filler, up to the first that fails.\<close>

fun fill_list :: "(string \<Rightarrow> fstat option \<Rightarrow> 'b \<Rightarrow> int \<times> 'b) \<Rightarrow> (string \<times> fstat option) list \<Rightarrow> 'b \<Rightarrow> (errno + int) \<times> 'b" where
  "fill_list filler [] buf = (Inr 0, buf)"
| "fill_list filler ((name, stat) # rest) buf =
     (case filler name stat buf of (r, buf) \<Rightarrow> if r \<noteq> 0 then (Inl EIO, buf) else fill_list filler rest buf)"

definition dir_entries :: "('d, 's) fuse_env \<Rightarrow> bool \<Rightarrow> (string, nat) smap \<Rightarrow> ('d, 's) fs \<Rightarrow> (string \<times> fstat option) list" where
  "dir_entries v with_stat m st =
     map (\<lambda>(_, c). (it_name (item_at st c), if with_stat then Some (item_stat v st c) else None)) m @
     [(''.'', None), (''..'', None)]"

definition fuse_readdir :: "('d, 's) fuse_env \<Rightarrow> (string \<Rightarrow> fstat option \<Rightarrow> 'b \<Rightarrow> int \<times> 'b) \<Rightarrow> bool \<Rightarrow> string option \<Rightarrow>
    'b \<Rightarrow> ('d, 's) fs \<Rightarrow> fuse_ret \<times> 'b \<times> ('d, 's) fs" where
  "fuse_readdir v filler with_stat path buf st =
     (case path of
        None \<Rightarrow> (Some (Inl EINVAL), buf, st)
      | Some p \<Rightarrow>
          (case with_folder v p (\<lambda>a. get_items (fu_fs v) a) st of
             (Inr m, st) \<Rightarrow> (case fill_list filler (dir_entries v with_stat m st) buf of (r, buf) \<Rightarrow> (Some r, buf, st))
           | (Inl x, st) \<Rightarrow> (fst (catch_as_errno (fu_connection v) (Inl x, st)), buf, st)))"

definition fuse_create :: "('d, 's) fuse_env \<Rightarrow> string \<Rightarrow> ('d, 's) fs \<Rightarrow> fuse_ret \<times> ('d, 's) fs" where
  "fuse_create v fullpath = on_path v (Some fullpath) (\<lambda>_. with_folder v (fst (split_path fullpath)) (\<lambda>a st.
     success (folder_create_file (fu_fs v) a (snd (split_path fullpath)) st)))"

definition fuse_mkdir :: "('d, 's) fuse_env \<Rightarrow> string \<Rightarrow> ('d, 's) fs \<Rightarrow> fuse_ret \<times> ('d, 's) fs" where
  "fuse_mkdir v fullpath = on_path v (Some fullpath) (\<lambda>_. with_folder v (fst (split_path fullpath)) (\<lambda>a st.
     success (folder_create_folder (fu_fs v) a (snd (split_path fullpath)) st)))"

definition fuse_unlink :: "('d, 's) fuse_env \<Rightarrow> string option \<Rightarrow> ('d, 's) fs \<Rightarrow> fuse_ret \<times> ('d, 's) fs" where
  "fuse_unlink v path = on_path v path (\<lambda>p. with_file v p (\<lambda>c st. success (item_delete (fu_fs v) c st)))"

definition fuse_rmdir :: "('d, 's) fuse_env \<Rightarrow> string option \<Rightarrow> ('d, 's) fs \<Rightarrow> fuse_ret \<times> ('d, 's) fs" where
  "fuse_rmdir v path = on_path v path (\<lambda>p. with_folder v p (\<lambda>a st.
     bindF (count_items (fu_fs v) a st) (\<lambda>n st.
       if n \<noteq> 0 then (Inr (Inl ENOTEMPTY), st) else success (item_delete (fu_fs v) a st))))"

definition fuse_rename :: "('d, 's) fuse_env \<Rightarrow> string \<Rightarrow> string \<Rightarrow> ('d, 's) fs \<Rightarrow> fuse_ret \<times> ('d, 's) fs" where
  "fuse_rename v oldpath newpath =
     (let old_parent = fst (split_path oldpath); old_name = snd (split_path oldpath);
          new_parent = fst (split_path newpath); new_name = snd (split_path newpath)
      in on_path v (Some oldpath) (\<lambda>_ st.
        if old_parent \<noteq> new_parent \<and> old_name \<noteq> new_name then (Inr (Inl EIO), st)
        else if old_parent \<noteq> new_parent then
          (if starts_with_impl new_parent (old_parent @ ''/'' @ old_name @ ''/'') then (Inr (Inl EINVAL), st)
           else with_folder v new_parent (\<lambda>np. with_item v oldpath (\<lambda>c st. success (item_move (fu_fs v) c np True st))) st)
        else if old_name \<noteq> new_name then
          with_item v oldpath (\<lambda>c st. success (item_rename (fu_fs v) c new_name True st)) st
        else (Inr (Inr 0), st)))"

text \<open>Read and write return the length as an int.\<close>

definition fuse_read :: "('d, 's) fuse_env \<Rightarrow> string option \<Rightarrow> nat \<Rightarrow> int \<Rightarrow> ('d, 's) fs \<Rightarrow> fuse_ret \<times> bytes \<times> ('d, 's) fs" where
  "fuse_read v path len off st =
     (case path of
        None \<Rightarrow> (Some (Inl EINVAL), [], st)
      | Some p \<Rightarrow>
          if off < 0 then (Some (Inl EINVAL), [], st)
          else (case with_file v p (\<lambda>c. data_op c (fo_read (fe_data (fu_fs v)) (nat off) len)) st of
             (Inr bs, st) \<Rightarrow> (Some (Inr (signed32 (length bs))), bs, st)
           | (Inl x, st) \<Rightarrow> (fst (catch_as_errno (fu_connection v) (Inl x, st)), [], st)))"

definition fuse_write :: "('d, 's) fuse_env \<Rightarrow> string option \<Rightarrow> bytes \<Rightarrow> int \<Rightarrow> ('d, 's) fs \<Rightarrow> fuse_ret \<times> ('d, 's) fs" where
  "fuse_write v path data off st =
     (if path \<noteq> None \<and> off < 0 then (Some (Inl EINVAL), st)
      else on_path v path (\<lambda>p. with_file v p (\<lambda>c st.
        bindF (tree_write (fu_fs v) c (nat off) data st) (\<lambda>_ st. (Inr (Inr (signed32 (length data))), st)))) st)"

text \<open>flush, fsync and release do the same, the latter two whatever their further arguments are.\<close>

definition fuse_flush :: "('d, 's) fuse_env \<Rightarrow> string option \<Rightarrow> ('d, 's) fs \<Rightarrow> fuse_ret \<times> ('d, 's) fs" where
  "fuse_flush v path = on_path v path (\<lambda>p. with_file v p (\<lambda>c st. success (file_flush (fu_fs v) c False st)))"

definition fuse_fsync :: "('d, 's) fuse_env \<Rightarrow> string option \<Rightarrow> ('d, 's) fs \<Rightarrow> fuse_ret \<times> ('d, 's) fs" where
  "fuse_fsync v path = on_path v path (\<lambda>p. with_file v p (\<lambda>c st. success (file_flush (fu_fs v) c False st)))"

definition fuse_release :: "('d, 's) fuse_env \<Rightarrow> string option \<Rightarrow> ('d, 's) fs \<Rightarrow> fuse_ret \<times> ('d, 's) fs" where
  "fuse_release v path = on_path v path (\<lambda>p. with_file v p (\<lambda>c st. success (file_flush (fu_fs v) c False st)))"

definition fuse_fsyncdir :: "('d, 's) fuse_env \<Rightarrow> string option \<Rightarrow> ('d, 's) fs \<Rightarrow> fuse_ret \<times> ('d, 's) fs" where
  "fuse_fsyncdir v path = on_path v path (\<lambda>p. with_folder v p (\<lambda>a st. success (item_flush_cache (fu_fs v) a False st)))"

definition fuse_truncate :: "('d, 's) fuse_env \<Rightarrow> string option \<Rightarrow> int \<Rightarrow> ('d, 's) fs \<Rightarrow> fuse_ret \<times> ('d, 's) fs" where
  "fuse_truncate v path len st =
     (if path \<noteq> None \<and> len < 0 then (Some (Inl EINVAL), st)
      else on_path v path (\<lambda>p. with_file v p (\<lambda>c st. success (tree_truncate (fu_fs v) c (nat len) st))) st)"

definition fuse_chmod :: "('d, 's) fuse_env \<Rightarrow> string option \<Rightarrow> ('d, 's) fs \<Rightarrow> fuse_ret \<times> ('d, 's) fs" where
  "fuse_chmod v path st =
     (if path \<noteq> None \<and> \<not> fo_chmod (fu_opts v) then (Some (Inl ENOTSUP), st)
      else on_path v path (\<lambda>p. with_item v p (\<lambda>c st. (Inr (Inr 0), st))) st)"

definition fuse_chown :: "('d, 's) fuse_env \<Rightarrow> string option \<Rightarrow> ('d, 's) fs \<Rightarrow> fuse_ret \<times> ('d, 's) fs" where
  "fuse_chown v path st =
     (if path \<noteq> None \<and> \<not> fo_chown (fu_opts v) then (Some (Inl ENOTSUP), st)
      else on_path v path (\<lambda>p. with_item v p (\<lambda>c st. (Inr (Inr 0), st))) st)"

end
