(* ===== verification/Fuse_Correct.thy ===== *)
theory Fuse_Correct
  imports Fuse_Ops
begin

text \<open>
  What the file system calls promise: which error number an exception becomes, that every sequence
  of calls keeps the tree in order and holds no lock afterwards unless a call blocks for ever, and what single calls return.
\<close>

section \<open>Holding items\<close>

text \<open>What every call can rely on: the tree is in order and has its root.\<close>

definition rooted :: "('d, 's) fuse_env \<Rightarrow> ('d, 's) fs \<Rightarrow> bool" where
  "rooted v st \<longleftrightarrow> tree_ok st \<and> live st (fu_root v) \<and> it_parent (item_at st (fu_root v)) = None"

lemma rooted_stays: "rooted v st \<Longrightarrow> tree_ok st' \<Longrightarrow> stays st st' \<Longrightarrow> rooted v st'"
  by (auto simp: rooted_def stays_def)

text \<open>A lookup ends at an entry of a folder, or at the folder it started from.\<close>

lemma walk_entry:
  assumes "tree_ok st" and "live st a" and "walk e a ps st = (Inr c, st')"
  shows "\<exists>p n. live st' p \<and> sm_find (folder_items st' p) n = Some c"
  using assms
proof (induction e a ps st rule: walk.induct)
  case (2 e a p ps st)
  obtain st1 where st1: "load_items e a True st = (Inr (), st1)"
    and run: "(case sm_find (folder_items st1 a) p of None \<Rightarrow> (Inl NotFound, st1)
       | Some c \<Rightarrow> if ps = [] then (Inr c, st1) else if it_kind (item_at st1 c) = KFile then (Inl NotFolder, st1)
           else walk e c ps st1) = (Inr c, st')"
    using 2(4) by (auto simp: bindF_Pair)
  have f: "tree_ok st1" "live st1 a" using fine_load_items [OF 2(2,3), of e True] extends_live [OF _ 2(3)] st1 by auto
  obtain d where d: "sm_find (folder_items st1 a) p = Some d" using run by (auto split: option.splits)
  have "live st1 d" using tree_ok_find [OF f d] by (simp add: linked_def)
  then show ?case using run d f(2) 2(1) [OF d _ _ f(1)] by (auto split: if_splits)
qed simp

lemma lookup_attached:
  assumes "rooted v st" and "get_item_by_path e (fu_root v) path st = (Inr c, st')"
  shows "attached (st'\<lparr>fs_pins := c # fs_pins st'\<rparr>) c"
proof -
  have ok: "tree_ok st" "live st (fu_root v)" using assms(1) by (auto simp: rooted_def)
  have f: "tree_ok st'" "live st' c" "extends st st'"
    using fine_get_item_by_path [OF ok, of path e] assms(2) by auto
  have "sm_find (folder_items st' p) (it_name (item_at st' c)) = Some c" if "it_parent (item_at st' c) = Some p" for p
  proof (cases "dropWhile (\<lambda>x. x = CHR ''/'') path = []")
    case True
    then have "c = fu_root v" using assms(2) by (simp add: get_item_by_path_def)
    then show ?thesis using assms(1) f(3) that by (simp add: rooted_def extends_def)
  next
    case False
    then have "walk e (fu_root v) (path_parts (dropWhile (\<lambda>x. x = CHR ''/'') path)) st = (Inr c, st')"
      using assms(2) by (simp only: get_item_by_path_def Let_def if_False)
    then obtain q n where "live st' q" "sm_find (folder_items st' q) n = Some c"
      using walk_entry [OF ok] by blast
    then show ?thesis using tree_ok_find [OF f(1), of q n c] that by (simp add: linked_def)
  qed
  then show ?thesis using f(2) by (simp add: attached_def)
qed

lemma clean_ret: "tree_ok st \<Longrightarrow> sound st (r, st)"
  by (simp add: sound_def)

text \<open>A call that finds its item by path and holds it is clean when its body is.\<close>

lemma clean_bind:
  assumes "fine st Q m" and "\<And>x st'. m = (Inr x, st') \<Longrightarrow> extends st st' \<Longrightarrow> Q x st' \<Longrightarrow> sound st' (f x st')"
  shows "sound st (bindF m f)"
proof (cases m)
  case (Pair r st1)
  show ?thesis
  proof (cases r)
    case (Inl x)
    then show ?thesis using fine_sound [OF assms(1)] by (simp add: Pair sound_def)
  next
    case (Inr x)
    then have "sound st1 (f x st1)" "extends st st1" using assms by (auto simp: Pair)
    moreover from this(2) have "stays st st1" "fs_pins st1 = fs_pins st" by (auto intro: extends_stays simp: extends_def)
    ultimately show ?thesis by (auto simp: Pair Inr sound_def intro: stays_trans)
  qed
qed

lemma drops_success: "drops c st m \<Longrightarrow> drops c st (success m)"
  by (cases m; cases "fst m") (auto simp: success_def drops_def)

lemma drops_bind:
  assumes "fine st Q m" and "\<And>x st'. tree_ok st' \<Longrightarrow> extends st st' \<Longrightarrow> Q x st' \<Longrightarrow> drops c st' (f x st')"
  shows "drops c st (bindF m f)"
proof (cases m)
  case (Pair r st1)
  have "drops c st1 (f x st1)" if "r = Inr x" for x using assms that by (simp add: Pair)
  moreover have "extends st st1" "tree_ok st1" using assms(1) by (simp_all add: fine_def Pair)
  then have "stays st st1" "fs_pins st1 = fs_pins st" "tree_ok st1" by (auto intro: extends_stays simp: extends_def)
  ultimately show ?thesis by (cases r) (auto simp: Pair drops_def intro: stays_trans)
qed

definition body_ok :: "('d, 's) fuse_env \<Rightarrow> ('d, 's) fs \<Rightarrow> (nat \<Rightarrow> ('d, 's) fs \<Rightarrow> ('a, ('d, 's) fs) fs_res) \<Rightarrow> bool" where
  "body_ok v st f \<longleftrightarrow> (\<forall>c st'. rooted v st' \<longrightarrow> attached st' c \<longrightarrow> stays st st' \<longrightarrow> drops c st' (f c st'))"

lemma rooted_pins [simp]: "rooted v (st\<lparr>fs_pins := ps\<rparr>) = rooted v st"
  by (simp add: rooted_def)

lemma lookup_clean:
  fixes st :: "('a, 'b) fs"
  assumes "rooted v st" and "body_ok v st f"
  shows "sound st (bindF (get_item_by_path (fu_fs v) (fu_root v) path st)
    (\<lambda>c st. if bad c st then (Inl x, st) else scoped c (f c) st))"
proof (rule clean_bind [OF fine_get_item_by_path])
  show "tree_ok st" "live st (fu_root v)" using assms(1) by (auto simp: rooted_def)
  fix c and st' :: "('a, 'b) fs"
  let ?st = "st'\<lparr>fs_pins := c # fs_pins st'\<rparr>"
  assume get: "get_item_by_path (fu_fs v) (fu_root v) path st = (Inr c, st')" and ext: "extends st st'"
  have ok: "tree_ok st'" using fine_get_item_by_path [of st "fu_root v" path "fu_fs v"] assms(1) get by (simp add: rooted_def)
  then have "rooted v ?st" using rooted_stays [OF assms(1)] extends_stays [OF ext] by simp
  then have "drops c ?st (f c ?st)"
    using assms(2) lookup_attached [OF assms(1) get] extends_stays [OF ext] unfolding body_ok_def by simp
  then have "sound st' (scoped c (f c) st')" by (rule scoped_sound)
  then show "sound st' (if bad c st' then (Inl x, st') else scoped c (f c) st')" using ok by (simp add: clean_ret)
qed

lemma with_eq:
  "with_item v path f st = bindF (get_item_by_path (fu_fs v) (fu_root v) path st)
     (\<lambda>c st. if False then (Inl NotFile, st) else scoped c (f c) st)"
  "with_file v path f st = bindF (get_item_by_path (fu_fs v) (fu_root v) path st)
     (\<lambda>c st. if it_kind (item_at st c) \<noteq> KFile then (Inl NotFile, st) else scoped c (f c) st)"
  "with_folder v path f st = bindF (get_item_by_path (fu_fs v) (fu_root v) path st)
     (\<lambda>c st. if it_kind (item_at st c) = KFile then (Inl NotFolder, st) else scoped c (f c) st)"
  unfolding with_item_def with_file_def with_folder_def get_file_by_path_def get_folder_by_path_def bindF_assoc
  by (rule arg_cong [where f = "bindF _"], simp add: fun_eq_iff)+

lemma with_clean:
  assumes "rooted v st" and "body_ok v st f"
  shows "sound st (with_item v path f st)" "sound st (with_file v path f st)" "sound st (with_folder v path f st)"
  unfolding with_eq by (rule lookup_clean [OF assms])+

section \<open>Sequences of calls\<close>

datatype fuse_call = FOpen "string option" int | FOpendir "string option" int | FGetattr "string option"
  | FReaddir "string option" bool | FCreate string | FMkdir string | FUnlink "string option" | FRmdir "string option"
  | FRename string string | FRead "string option" nat int | FWrite "string option" bytes int
  | FFlush "string option" | FFsync "string option" | FRelease "string option" | FFsyncdir "string option"
  | FTruncate "string option" int | FChmod "string option" | FChown "string option"

definition blank_stat :: fstat where
  "blank_stat = \<lparr>sb_mode = 0, sb_size = 0, sb_blksize = 0, sb_uid = 0, sb_gid = 0, sb_blocks = 0, sb_ctim = (0, 0),
     sb_mtim = (0, 0), sb_atim = (0, 0)\<rparr>"

text \<open>What a call returns and the state after it; a directory listing is taken by a filler that never fails.\<close>

fun fuse_step :: "('d, 's) fuse_env \<Rightarrow> fuse_call \<Rightarrow> ('d, 's) fs \<Rightarrow> fuse_ret \<times> ('d, 's) fs" where
  "fuse_step v (FOpen path flags) st = fuse_open v path flags st"
| "fuse_step v (FOpendir path flags) st = fuse_opendir v path flags st"
| "fuse_step v (FGetattr path) st = (case fuse_getattr v path blank_stat st of (r, _, st) \<Rightarrow> (r, st))"
| "fuse_step v (FReaddir path with_stat) st =
     (case fuse_readdir v (\<lambda>name _ names. (0, name # names)) with_stat path [] st of (r, _, st) \<Rightarrow> (r, st))"
| "fuse_step v (FCreate path) st = fuse_create v path st"
| "fuse_step v (FMkdir path) st = fuse_mkdir v path st"
| "fuse_step v (FUnlink path) st = fuse_unlink v path st"
| "fuse_step v (FRmdir path) st = fuse_rmdir v path st"
| "fuse_step v (FRename old_path new_path) st = fuse_rename v old_path new_path st"
| "fuse_step v (FRead path len off) st = (case fuse_read v path len off st of (r, _, st) \<Rightarrow> (r, st))"
| "fuse_step v (FWrite path data off) st = fuse_write v path data off st"
| "fuse_step v (FFlush path) st = fuse_flush v path st"
| "fuse_step v (FFsync path) st = fuse_fsync v path st"
| "fuse_step v (FRelease path) st = fuse_release v path st"
| "fuse_step v (FFsyncdir path) st = fuse_fsyncdir v path st"
| "fuse_step v (FTruncate path len) st = fuse_truncate v path len st"
| "fuse_step v (FChmod path) st = fuse_chmod v path st"
| "fuse_step v (FChown path) st = fuse_chown v path st"


section \<open>The calls keep the tree in order\<close>

lemma rooted_simps: "rooted v st \<Longrightarrow> tree_ok st" "rooted v st \<Longrightarrow> live st (fu_root v)"
  by (simp_all add: rooted_def)

lemma attached_live: "attached st c \<Longrightarrow> live st c"
  by (simp add: attached_def)

lemma fine_tree_data:
  assumes "created_as_named e" and "tree_ok st" and "live st c"
  shows "fine st (\<lambda>_ _. True) (tree_truncate e c n st)" "fine st (\<lambda>_ _. True) (tree_write e c off data st)"
  unfolding tree_truncate_def tree_write_def
  by (rule fine_bind_live [OF fine_create_id [OF assms(2,3)] assms(3)], rule fine_data_op, use assms(1) in \<open>simp_all add: created_as_named_def\<close>)+

text \<open>What a call leaves.\<close>

definition kept :: "('d, 's) fs \<Rightarrow> fuse_ret \<times> ('d, 's) fs \<Rightarrow> bool" where
  "kept st m \<longleftrightarrow> tree_ok (snd m) \<and> stays st (snd m) \<and> (fst m = None \<or> fs_pins (snd m) = fs_pins st)"

lemma kept_refl: "tree_ok st \<Longrightarrow> kept st (r, st)"
  by (simp add: kept_def)

lemma catch_kept: "sound st m \<Longrightarrow> kept st (catch_as_errno conn m)"
  by (cases m; cases "fst m") (auto simp: catch_as_errno_def sound_def kept_def)

lemma on_path_kept:
  assumes "tree_ok st" and "\<And>p. sound st (f p st)"
  shows "kept st (on_path v path f st)"
  using assms by (simp add: on_path_def kept_refl catch_kept split: option.split)

lemmas body_rules = fine_sound [OF fine_file_flush] fine_sound [OF fine_tree_data(1)] fine_sound [OF fine_tree_data(2)]
  fine_sound [OF fine_flush_tree(1)] drops_item_delete sound_item_rename sound_item_move
  sound_create_checked [OF sound_sub_create_file] sound_create_checked [OF sound_sub_create_folder]

lemma body_simple: "body_ok v st (\<lambda>c st'. (g c st', st'))"
  by (simp add: body_ok_def drops_def rooted_def)

lemma body_drops:
  assumes "\<And>c st'. tree_ok st' \<Longrightarrow> attached st' c \<Longrightarrow> live st' c \<Longrightarrow> stays st st' \<Longrightarrow> drops c st' (f c st')"
  shows "body_ok v st (\<lambda>c st'. success (f c st'))"
  using assms by (auto simp: body_ok_def rooted_simps attached_live intro!: drops_success)

lemma body_success:
  assumes "\<And>c st'. tree_ok st' \<Longrightarrow> attached st' c \<Longrightarrow> live st' c \<Longrightarrow> stays st st' \<Longrightarrow> sound st' (f c st')"
  shows "body_ok v st (\<lambda>c st'. success (f c st'))"
  by (rule body_drops) (rule sound_drops, rule assms)

lemma body_if: "body_ok v st f \<Longrightarrow> body_ok v st g \<Longrightarrow> body_ok v st (\<lambda>c st'. if P c st' then f c st' else g c st')"
  by (simp add: body_ok_def)

lemma rename_body:
  assumes "created_as_named (fu_fs v)" and "rooted v st"
  shows "body_ok v st (\<lambda>np. with_item v old_path (\<lambda>c st. success (item_move (fu_fs v) c np True st)))"
proof -
  have "sound st' (with_item v old_path (\<lambda>c st. success (item_move (fu_fs v) c np True st)) st')"
    if "rooted v st'" "attached st' np" for np st'
  proof -
    have "body_ok v st' (\<lambda>c st. success (item_move (fu_fs v) c np True st))"
      by (rule body_success) (use assms(1) that(2) in \<open>auto simp: attached_live stays_def intro: sound_item_move\<close>)
    from with_clean(1) [OF that(1) this] show ?thesis .
  qed
  then show ?thesis by (simp add: body_ok_def sound_drops)
qed

lemma rmdir_body:
  assumes "rooted v st"
  shows "body_ok v st (\<lambda>a st. bindF (count_items (fu_fs v) a st) (\<lambda>n st.
       if n \<noteq> 0 then (Inr (Inl ENOTEMPTY), st) else success (item_delete (fu_fs v) a st)))"
proof -
  have "drops a st' (bindF (load_items (fu_fs v) a True st') (\<lambda>_ st. if length (folder_items st a) \<noteq> 0 then (Inr (Inl ENOTEMPTY), st)
      else success (item_delete (fu_fs v) a st)))" if "rooted v st'" "attached st' a" for a st'
  proof (rule drops_bind [OF fine_load_items])
    show "tree_ok st'" "live st' a" using that by (simp_all add: rooted_simps attached_live)
    fix x st1 assume "tree_ok st1" "extends st' st1"
    then show "drops a st1 (if length (folder_items st1 a) \<noteq> 0 then (Inr (Inl ENOTEMPTY), st1) else success (item_delete (fu_fs v) a st1))"
      using extends_live [OF _ attached_live [OF that(2)]] by (auto intro: drops_success drops_item_delete simp: drops_def [of a st1 "(_, st1)"])
  qed
  then show ?thesis by (simp add: body_ok_def count_items_def bindF_assoc)
qed

lemma read_body: "created_as_named (fu_fs v) \<Longrightarrow> body_ok v st (\<lambda>c. data_op c (fo_read (fe_data (fu_fs v)) off len))"
  by (auto simp: body_ok_def rooted_simps attached_live created_as_named_def intro!: sound_drops fine_sound [OF fine_data_op])

lemma write_body:
  assumes "created_as_named (fu_fs v)"
  shows "body_ok v st (\<lambda>c st. bindF (tree_write (fu_fs v) c off data st) (\<lambda>_ st. (Inr y, st)))"
  using assms by (auto simp: body_ok_def rooted_simps attached_live intro!: sound_drops fine_sound [OF fine_then [OF fine_tree_data(2)]])

lemma list_body: "body_ok v st (\<lambda>a. get_items (fu_fs v) a)"
  by (auto simp: body_ok_def rooted_simps attached_live get_items_def intro!: sound_drops fine_sound [OF fine_bind [OF fine_load_items]])

lemma call_kept:
  assumes "rooted v st"
  shows "(\<And>p. body_ok v st (f p)) \<Longrightarrow> kept st (on_path v path (\<lambda>p. with_item v (g p) (f p)) st)"
    "(\<And>p. body_ok v st (f p)) \<Longrightarrow> kept st (on_path v path (\<lambda>p. with_file v (g p) (f p)) st)"
    "(\<And>p. body_ok v st (f p)) \<Longrightarrow> kept st (on_path v path (\<lambda>p. with_folder v (g p) (f p)) st)"
  using assms by (auto intro!: on_path_kept with_clean simp: rooted_simps)

text \<open>getattr, readdir and read also fill a buffer.\<close>

lemma buffer_split:
  assumes "sound st m" and "\<And>x st'. m = (Inr x, st') \<Longrightarrow> \<exists>r b. g x st' = (r, b, st')"
  shows "kept st (case (case m of (Inr x, st') \<Rightarrow> g x st' | (Inl x, st') \<Rightarrow> (fst (catch_as_errno conn (Inl x, st')), buf, st'))
    of (r, _, st') \<Rightarrow> (r, st'))"
proof (cases m)
  case (Pair r st1)
  show ?thesis
  proof (cases r)
    case (Inl x)
    then show ?thesis using assms(1) by (auto simp: Pair catch_as_errno_def sound_def kept_def)
  next
    case (Inr x)
    obtain r2 b where "g x st1 = (r2, b, st1)" using assms(2) Pair Inr by blast
    then show ?thesis using assms(1) by (simp add: Pair Inr sound_def kept_def)
  qed
qed

lemma buffer_kept:
  assumes "rooted v st"
  shows "kept st (case fuse_getattr v path buf st of (r, _, st') \<Rightarrow> (r, st'))"
    "kept st (case fuse_readdir v filler with_stat path buf2 st of (r, _, st') \<Rightarrow> (r, st'))"
    "created_as_named (fu_fs v) \<Longrightarrow> kept st (case fuse_read v path len off st of (r, _, st') \<Rightarrow> (r, st'))"
proof -
  have ok: "kept st (r, st)" for r using assms by (simp add: kept_refl rooted_simps)
  have "sound st (with_item v p (\<lambda>c st. (Inr (item_stat v st c), st)) st)" for p
    by (rule with_clean(1) [OF assms body_simple [of v st "\<lambda>c st. Inr (item_stat v st c)"]])
  then show "kept st (case fuse_getattr v path buf st of (r, _, st') \<Rightarrow> (r, st'))"
    unfolding fuse_getattr_def using ok
    by (cases path) (auto simp only: option.case prod.case intro!: buffer_split [where g = "\<lambda>stat st. (Some (Inr 0), stat, st)"])
  have "sound st (with_folder v p (\<lambda>a. get_items (fu_fs v) a) st)" for p by (rule with_clean(3) [OF assms list_body])
  then have dir: "kept st (case (case with_folder v p (\<lambda>a. get_items (fu_fs v) a) st of
        (Inr m, st) \<Rightarrow> (case fill_list filler (dir_entries v with_stat m st) buf2 of (r, buf) \<Rightarrow> (Some r, buf, st))
      | (Inl x, st) \<Rightarrow> (fst (catch_as_errno (fu_connection v) (Inl x, st)), buf2, st)) of (r, _, st') \<Rightarrow> (r, st'))" for p
    by (rule buffer_split) (auto split: prod.split)
  show "kept st (case fuse_readdir v filler with_stat path buf2 st of (r, _, st') \<Rightarrow> (r, st'))"
    unfolding fuse_readdir_def using ok dir by (cases path) (simp_all only: option.case prod.case)
  assume "created_as_named (fu_fs v)"
  from with_clean(2) [OF assms read_body [OF this]] show "kept st (case fuse_read v path len off st of (r, _, st') \<Rightarrow> (r, st'))"
    unfolding fuse_read_def using ok
    by (cases path) (auto simp only: option.case prod.case if_True if_False split: if_split
        intro!: buffer_split [where g = "\<lambda>bs st. (Some (Inr (signed32 (length bs))), bs, st)"])
qed

lemma fuse_step_kept:
  assumes r: "rooted v st" and d: "created_as_named (fu_fs v)"
  shows "kept st (fuse_step v call st)"
proof -
  have ok: "\<And>x. kept st (x, st)" "tree_ok st" using r by (simp_all add: kept_refl rooted_simps)
  note simple = body_simple [of v st "\<lambda>_ _. Inr (Inr 0)"] body_simple [of v st "\<lambda>_ _. Inr (Inl EROFS)"]
  show ?thesis
  proof (cases call)
    case (FOpen path flags)
    have "body_ok v st (\<lambda>c st. if for_writing flags \<and> read_only_fs c st then (Inr (Inl EROFS), st)
       else if truncating flags then success (tree_truncate (fu_fs v) c 0 st) else (Inr (Inr 0), st))"
      using body_rules(2) [OF d] by (intro body_if simple body_success)
    then show ?thesis unfolding FOpen fuse_step.simps fuse_open_def by (rule call_kept(2) [OF r])
  next
    case (FOpendir path flags)
    have "body_ok v st (\<lambda>c st. if for_writing flags \<and> read_only_fs c st then (Inr (Inl EROFS), st) else (Inr (Inr 0), st))"
      by (intro body_if simple)
    then show ?thesis unfolding FOpendir fuse_step.simps fuse_opendir_def by (rule call_kept(3) [OF r])
  next
    case (FGetattr path)
    then show ?thesis using buffer_kept(1) [OF r] by simp
  next
    case (FReaddir path with_stat)
    then show ?thesis using buffer_kept(2) [OF r] by simp
  next
    case (FCreate path)
    show ?thesis unfolding FCreate fuse_step.simps fuse_create_def folder_create_file_def
      by (rule call_kept(3) [OF r], rule body_success, rule body_rules(8))
  next
    case (FMkdir path)
    show ?thesis unfolding FMkdir fuse_step.simps fuse_mkdir_def folder_create_folder_def
      by (rule call_kept(3) [OF r], rule body_success, rule body_rules(9))
  next
    case (FUnlink path)
    show ?thesis unfolding FUnlink fuse_step.simps fuse_unlink_def
      by (rule call_kept(2) [OF r], rule body_drops, rule body_rules(5))
  next
    case (FRmdir path)
    show ?thesis unfolding FRmdir fuse_step.simps fuse_rmdir_def by (rule call_kept(3) [OF r rmdir_body [OF r]])
  next
    case (FRename old_path new_path)
    have "sound st (with_folder v p (\<lambda>np. with_item v old_path (\<lambda>c st. success (item_move (fu_fs v) c np True st))) st)" for p
      by (rule with_clean(3) [OF r rename_body [OF d r]])
    moreover have "sound st (with_item v old_path (\<lambda>c st. success (item_rename (fu_fs v) c n True st)) st)" for n
      by (rule with_clean(1) [OF r body_success]) (rule body_rules(6))
    ultimately show ?thesis unfolding FRename fuse_step.simps fuse_rename_def Let_def
      using ok by (auto intro!: on_path_kept clean_ret)
  next
    case (FRead path len off)
    then show ?thesis using buffer_kept(3) [OF r d] by simp
  next
    case (FWrite path data off)
    show ?thesis unfolding FWrite fuse_step.simps fuse_write_def
      using ok call_kept(2) [OF r write_body [OF d]] by simp
  next
    case (FFlush path)
    show ?thesis unfolding FFlush fuse_step.simps fuse_flush_def
      by (rule call_kept(2) [OF r], rule body_success, rule body_rules(1) [OF d])
  next
    case (FFsync path)
    show ?thesis unfolding FFsync fuse_step.simps fuse_fsync_def
      by (rule call_kept(2) [OF r], rule body_success, rule body_rules(1) [OF d])
  next
    case (FRelease path)
    show ?thesis unfolding FRelease fuse_step.simps fuse_release_def
      by (rule call_kept(2) [OF r], rule body_success, rule body_rules(1) [OF d])
  next
    case (FFsyncdir path)
    show ?thesis unfolding FFsyncdir fuse_step.simps fuse_fsyncdir_def item_flush_cache_def
      by (rule call_kept(3) [OF r], rule body_success, rule body_rules(4) [OF d])
  next
    case (FTruncate path len)
    have "body_ok v st (\<lambda>c st. success (tree_truncate (fu_fs v) c (nat len) st))"
      by (rule body_success, rule body_rules(2) [OF d])
    then show ?thesis unfolding FTruncate fuse_step.simps fuse_truncate_def using ok call_kept(2) [OF r] by simp
  next
    case (FChmod path)
    show ?thesis unfolding FChmod fuse_step.simps fuse_chmod_def using ok call_kept(1) [OF r simple(1)] by simp
  next
    case (FChown path)
    show ?thesis unfolding FChown fuse_step.simps fuse_chown_def using ok call_kept(1) [OF r simple(1)] by simp
  qed
qed

section \<open>What calls promise\<close>

text \<open>C31: No exception handler of CatchAsErrno is hidden by one before it: an exception of a class that has a handler gets the error number of that handler, and the general number EIO is left to the classes that have none.\<close>

theorem handlers_reached:
  "(h, n) \<in> set handlers \<Longrightarrow> class_of conn x = h \<Longrightarrow> fuse_errno conn x = n \<and> (n = EIO \<longleftrightarrow> h = CBase)"
  by (auto simp: handlers_def fuse_errno_def handles_def)

lemma handlers_reached_witness: "fuse_errno (\<lambda>_. False) (FSBackend (ReadOnlyFSException ''Storage'')) = EROFS"
  using handlers_reached [of CBackendReadOnlyFS EROFS "\<lambda>_. False" "FSBackend (ReadOnlyFSException ''Storage'')"]
  by (simp add: handlers_def)

text \<open>A run of calls, with what they return.\<close>

fun fuse_run :: "('d, 's) fuse_env \<Rightarrow> fuse_call list \<Rightarrow> ('d, 's) fs \<Rightarrow> fuse_ret list \<times> ('d, 's) fs" where
  "fuse_run v [] st = ([], st)"
| "fuse_run v (call # calls) st =
     (case fuse_step v call st of (r, st) \<Rightarrow> (case fuse_run v calls st of (rs, st) \<Rightarrow> (r # rs, st)))"

text \<open>C4: Whatever file system calls are made in whatever order, and whether they succeed, fail or block for ever, the tree stays in order below its root; and unless one of the calls blocks for ever the scope locks held afterwards are those held before. The server is assumed to create files under the names asked for.\<close>

theorem fuse_run_keeps_tree:
  assumes "rooted v st" and "created_as_named (fu_fs v)"
  shows "rooted v (snd (fuse_run v calls st)) \<and>
    (None \<in> set (fst (fuse_run v calls st)) \<or> fs_pins (snd (fuse_run v calls st)) = fs_pins st)"
  using assms
proof (induction calls arbitrary: st)
  case (Cons call calls)
  obtain r st1 where s: "fuse_step v call st = (r, st1)" by force
  have k: "kept st (r, st1)" using fuse_step_kept [OF Cons.prems, of call] s by simp
  then have "rooted v st1" using rooted_stays [OF Cons.prems(1)] by (simp add: kept_def)
  moreover have "snd (fuse_run v (call # calls) st) = snd (fuse_run v calls st1)"
    "fst (fuse_run v (call # calls) st) = r # fst (fuse_run v calls st1)" by (simp_all add: s split: prod.split)
  moreover have "rooted v (snd (fuse_run v calls st1)) \<and>
      (None \<in> set (fst (fuse_run v calls st1)) \<or> fs_pins (snd (fuse_run v calls st1)) = fs_pins st1)"
    by (rule Cons.IH [OF calculation(1) Cons.prems(2)])
  moreover have "r = None \<or> fs_pins st1 = fs_pins st" using k by (simp add: kept_def)
  ultimately show ?case by (auto simp del: fuse_run.simps)
qed simp

definition mount_env :: "(nat \<times> bool, unit) fuse_env" where
  "mount_env = \<lparr>fu_fs = size_env idle_ops, fu_opts = fuse_default, fu_root = 0, fu_uid = 0, fu_gid = 0, fu_connection = \<lambda>_. False\<rparr>"

lemma mount_rooted: "rooted mount_env half_saved" "rooted mount_env two_folders" "created_as_named (fu_fs mount_env)"
proof -
  have "it_parent (item_at half_saved 0) = None" "it_parent (item_at two_folders 0) = None" "live two_folders 0" by code_simp+
  then show "rooted mount_env half_saved" "rooted mount_env two_folders" "created_as_named (fu_fs mount_env)"
    using half_saved_ok two_folders_ok size_env_ok by (simp_all add: rooted_def mount_env_def)
qed

lemma fuse_run_keeps_tree_witness:
  "rooted mount_env (snd (fuse_run mount_env [FCreate ''/x'', FRename ''/x'' ''/y'', FUnlink (Some ''/new'')] half_saved)) \<and>
   fst (fuse_run mount_env [FCreate ''/x'', FRename ''/x'' ''/y'', FUnlink (Some ''/new'')] half_saved) =
     [Some (Inr 0), Some (Inr 0), Some (Inr 0)]"
proof -
  have "fst (fuse_run mount_env [FCreate ''/x'', FRename ''/x'' ''/y'', FUnlink (Some ''/new'')] half_saved) =
     [Some (Inr 0), Some (Inr 0), Some (Inr 0)]" by code_simp
  then show ?thesis using fuse_run_keeps_tree [OF mount_rooted(1,3)] by blast
qed

lemma with_folder_items:
  assumes r: "rooted v st" and get: "with_folder v path (\<lambda>a. get_items (fu_fs v) a) st = (Inr m, st1)"
  shows "\<exists>a st0. get_folder_by_path (fu_fs v) (fu_root v) path st = (Inr a, st0) \<and> m = folder_items st1 a \<and> live st1 a"
proof -
  obtain a st0 where g: "get_folder_by_path (fu_fs v) (fu_root v) path st = (Inr a, st0)"
    and sc: "scoped a (get_items (fu_fs v) a) st0 = (Inr m, st1)"
    using get by (auto simp: with_folder_def bindF_Pair)
  obtain st2 where i: "get_items (fu_fs v) a (st0\<lparr>fs_pins := a # fs_pins st0\<rparr>) = (Inr m, st2)" and st1: "st1 = unscope a (fs_pins st0) st2"
    using sc by (cases "get_items (fu_fs v) a (st0\<lparr>fs_pins := a # fs_pins st0\<rparr>)") (auto simp: scoped_def)
  obtain st3 where f: "get_item_by_path (fu_fs v) (fu_root v) path st = (Inr a, st3)" "st0 = st3"
    using g by (auto simp: get_folder_by_path_def bindF_Pair split: if_splits)
  have ok: "tree_ok st" "live st (fu_root v)" using r by (simp_all add: rooted_simps)
  have "tree_ok st0" "live st0 a" using fine_get_item_by_path [OF ok, of path "fu_fs v"] f by simp_all
  then have "live st2 a" "m = folder_items st2 a"
    using fine_load_items [of "st0\<lparr>fs_pins := a # fs_pins st0\<rparr>" a "fu_fs v" True] i
    by (auto simp: get_items_def bindF_Pair intro: extends_live)
  then show ?thesis using g st1 by auto
qed

text \<open>A directory listing that succeeds gives the names of the loaded entries of the folder at the path, in their order and each once, and after them the two dots.\<close>

theorem readdir_lists:
  assumes r: "rooted v st"
    and ls: "fuse_readdir v (\<lambda>name _ names. (0, names @ [name])) with_stat (Some path) [] st = (Some (Inr n), names, st')"
  shows "\<exists>a st0. get_folder_by_path (fu_fs v) (fu_root v) path st = (Inr a, st0) \<and>
    names = map fst (folder_items st' a) @ [''.'', ''..''] \<and> distinct (map fst (folder_items st' a)) \<and> n = 0"
proof -
  obtain m st1 where get: "with_folder v path (\<lambda>a. get_items (fu_fs v) a) st = (Inr m, st1)"
    using ls by (auto simp: fuse_readdir_def catch_as_errno_def split: sum.splits prod.splits if_splits)
  have fill: "fill_list (\<lambda>name _ names. (0, names @ [name])) es acc = (Inr 0, acc @ map fst es)" for es :: "(string \<times> fstat option) list" and acc
    by (induction es arbitrary: acc) auto
  have res: "names = map fst (dir_entries v with_stat m st1)" "st' = st1" "n = 0"
    using ls get by (auto simp: fuse_readdir_def fill)
  have ok: "tree_ok st1" using with_clean(3) [OF r list_body, of path] get by (simp add: sound_def)
  obtain a st0 where a: "get_folder_by_path (fu_fs v) (fu_root v) path st = (Inr a, st0)" "m = folder_items st1 a" "live st1 a"
    using with_folder_items [OF r get] by blast
  have "map fst (dir_entries v with_stat m st1) = map fst m @ [''.'', ''..'']"
    using tree_ok_item [OF ok a(3)] a(2) by (auto simp: dir_entries_def item_ok_def linked_def)
  moreover have "distinct (map fst m)" using tree_ok_item [OF ok a(3)] a(2) by (simp add: item_ok_def smap_ok_distinct)
  ultimately show ?thesis using res a by blast
qed

lemma readdir_lists_witness:
  "\<exists>a. fst (snd (fuse_readdir mount_env (\<lambda>name _ names. (0, names @ [name])) True (Some ''/'') [] half_saved)) =
     map fst (folder_items (snd (snd (fuse_readdir mount_env (\<lambda>name _ names. (0, names @ [name])) True (Some ''/'') [] half_saved))) a) @
     [''.'', ''..'']"
proof -
  let ?r = "fuse_readdir mount_env (\<lambda>name _ names. (0, names @ [name])) True (Some ''/'') [] half_saved"
  have "fst ?r = Some (Inr 0)" by code_simp
  then have "?r = (Some (Inr 0), fst (snd ?r), snd (snd ?r))" by (metis prod.collapse)
  from readdir_lists [OF mount_rooted(1) this] show ?thesis by blast
qed

text \<open>Rmdir deletes empty folders only: it never succeeds for a folder that has entries when it is loaded, and then answers that the directory is not empty without asking for the deletion.\<close>

theorem rmdir_only_empty:
  assumes "get_folder_by_path (fu_fs v) (fu_root v) path st = (Inr a, st1)"
    and "load_items (fu_fs v) a True (st1\<lparr>fs_pins := a # fs_pins st1\<rparr>) = (Inr (), st2)"
    and "folder_items st2 a \<noteq> []"
  shows "fuse_rmdir v (Some path) st = (Some (Inl ENOTEMPTY), unscope a (fs_pins st1) st2)"
  using assms by (simp add: fuse_rmdir_def on_path_def with_folder_def scoped_def count_items_def catch_as_errno_def)

lemma rmdir_only_empty_witness: "fst (fuse_rmdir mount_env (Some ''/a'') two_folders) = Some (Inl ENOTEMPTY)"
proof -
  let ?g = "get_folder_by_path (fu_fs mount_env) (fu_root mount_env) ''/a'' two_folders"
  let ?l = "load_items (fu_fs mount_env) 1 True ((snd ?g)\<lparr>fs_pins := 1 # fs_pins (snd ?g)\<rparr>)"
  have g: "?g = (Inr 1, snd ?g)" by (rule prod_eqI) (simp, code_simp, simp)
  have l: "?l = (Inr (), snd ?l)" by (rule prod_eqI) (simp, code_simp, simp)
  have "folder_items (snd ?l) 1 \<noteq> []" by code_simp
  from rmdir_only_empty [OF g l this] show ?thesis by simp
qed

text \<open>The number of blocks of a file is the least that holds its bytes at 512 bytes each, and its size is exact, up to the largest size an off_t can hold.\<close>

theorem stat_blocks:
  assumes "it_kind (item_at st c) = KFile" and "n = fo_size (fe_data (fu_fs v)) (the (it_data (item_at st c)))" and "n < 2 ^ 63"
  shows "sb_size (item_stat v st c) = int n \<and> int n \<le> 512 * sb_blocks (item_stat v st c) \<and>
    512 * sb_blocks (item_stat v st c) < int n + 512"
proof -
  have s: "sb_size (item_stat v st c) = int n" using assms by (simp add: item_stat_def Let_def signed64_def)
  have b: "sb_blocks (item_stat v st c) = (if n = 0 then 0 else (int n - 1) sdiv 512 + 1)"
    using assms by (simp add: item_stat_def Let_def signed64_def)
  have "(int n - 1) sdiv 512 = (int n - 1) div 512" if "n \<noteq> 0" using that by (simp add: signed_divide_int_def sgn_if abs_if)
  moreover have "int n \<le> 512 * ((int n - 1) div 512) + 512 \<and> 512 * ((int n - 1) div 512) < int n" using assms(3) by linarith
  ultimately show ?thesis using s b by simp
qed

lemma stat_blocks_witness: "sb_blocks (item_stat mount_env half_saved 1) = 1"
proof -
  have "it_kind (item_at half_saved 1) = KFile" "7 = fo_size (fe_data (fu_fs mount_env)) (the (it_data (item_at half_saved 1)))"
    by code_simp+
  from stat_blocks [OF this] show ?thesis by simp
qed

text \<open>
  The guard of rename against moving a folder into itself compares the new parent with the old path
  and a slash, so it does not see the old path itself: then the call waits for its own lock.
\<close>

lemma rename_into_itself_hangs:
  "fst (fuse_rename mount_env ''/a'' ''/a/a'' two_folders) = None"
  "fs_pins (snd (fuse_rename mount_env ''/a'' ''/a/a'' two_folders)) \<noteq> fs_pins two_folders"
  by code_simp+


end
