(* ===== verification/Fuse_Adapter.thy ===== *)
theory Fuse_Adapter
  imports Option_Structs
begin

text \<open>
  FuseAdapter (src/lib/andromeda-fuse/FuseAdapter.cpp): setting up libfuse 3, running its loop and
  taking it down, in the foreground or as a daemon. The library is a parameter: it answers each
  call, knowing what went before, and says whether its loop calls the init operation. The log has
  each call with its answer, when it returns, and each signal that initialization is over. The local
  objects of FuseMain are a list, the youngest first, as C++ keeps them: a constructor that returns
  puts its object there, and leaving the block, by a throw or not, runs the destructors of the list.
\<close>

section \<open>The code\<close>

datatype lib_call = ProgramName | AddArg string | NewFuse | MountFuse string | Daemonize | ForkFunc | SetSignals | LoopMt nat | Loop
  | RemoveSignals | Unmount | Destroy | FreeArgs | SignalInit

type_synonym fuse_log = "(lib_call \<times> int) list"

record fuse_lib =
  fl_answer :: "fuse_log \<Rightarrow> lib_call \<Rightarrow> int"
  fl_inits :: "fuse_log \<Rightarrow> bool"

text \<open>mInitError is a message and the return value, if there is one.\<close>

type_synonym fuse_error = "string \<times> int option"

datatype fuse_object = ArgumentsObj | ContextObj | MountObj | SignalsObj

record fuse_adapter =
  fa_log :: fuse_log
  fa_live :: "fuse_object list"
  fa_mounted :: bool
  fa_init :: bool
  fa_error :: "fuse_error option"

type_synonym 'a fuse_run = "fuse_adapter \<Rightarrow> (fuse_error + 'a) \<times> fuse_adapter"

definition ask :: "fuse_lib \<Rightarrow> lib_call \<Rightarrow> int fuse_run" where
  "ask lib c fa = (Inr (fl_answer lib (fa_log fa) c), fa\<lparr>fa_log := fa_log fa @ [(c, fl_answer lib (fa_log fa) c)]\<rparr>)"

fun bindL :: "(fuse_error + 'a) \<times> fuse_adapter \<Rightarrow> ('a \<Rightarrow> 'b fuse_run) \<Rightarrow> (fuse_error + 'b) \<times> fuse_adapter" where
  "bindL (Inl e, fa) f = (Inl e, fa)"
| "bindL (Inr x, fa) f = f x fa"

text \<open>A call whose answer other than success throws.\<close>

definition must :: "fuse_lib \<Rightarrow> lib_call \<Rightarrow> string \<Rightarrow> unit fuse_run" where
  "must lib c msg fa = bindL (ask lib c fa) (\<lambda>r fa. if r \<noteq> 0 then (Inl (msg, Some r), fa) else (Inr (), fa))"

definition tell :: "fuse_lib \<Rightarrow> lib_call \<Rightarrow> fuse_adapter \<Rightarrow> fuse_adapter" where
  "tell lib c fa = snd (ask lib c fa)"

text \<open>SignalInit.\<close>

definition signal_init :: "fuse_adapter \<Rightarrow> fuse_adapter" where
  "signal_init fa = fa\<lparr>fa_log := fa_log fa @ [(SignalInit, 0)], fa_init := True\<rparr>"

text \<open>The constructors; one that throws has no object.\<close>

definition new_arguments :: "fuse_lib \<Rightarrow> unit fuse_run" where
  "new_arguments lib fa =
     bindL (must lib ProgramName ''fuse_opt_add_arg()1 failed'' fa) (\<lambda>_ fa. (Inr (), fa\<lparr>fa_live := ArgumentsObj # fa_live fa\<rparr>))"

text \<open>FuseContext; a null pointer is 0.\<close>

definition new_context :: "fuse_lib \<Rightarrow> unit fuse_run" where
  "new_context lib fa =
     bindL (ask lib NewFuse fa) (\<lambda>r fa.
       if r = 0 then (Inl (''fuse_new() failed'', None), fa) else (Inr (), fa\<lparr>fa_live := ContextObj # fa_live fa\<rparr>))"

text \<open>FuseMount; it registers with the adapter.\<close>

definition new_mount :: "fuse_lib \<Rightarrow> string \<Rightarrow> unit fuse_run" where
  "new_mount lib path fa =
     bindL (must lib (MountFuse path) ''fuse_mount() failed'' fa) (\<lambda>_ fa.
       (Inr (), fa\<lparr>fa_mounted := True, fa_live := MountObj # fa_live fa\<rparr>))"

definition new_signals :: "fuse_lib \<Rightarrow> unit fuse_run" where
  "new_signals lib fa =
     bindL (must lib SetSignals ''fuse_set_signal_handlers() failed'' fa) (\<lambda>_ fa. (Inr (), fa\<lparr>fa_live := SignalsObj # fa_live fa\<rparr>))"

text \<open>The destructors.\<close>

fun destruct :: "fuse_lib \<Rightarrow> fuse_object \<Rightarrow> fuse_adapter \<Rightarrow> fuse_adapter" where
  "destruct lib ArgumentsObj fa = tell lib FreeArgs fa"
| "destruct lib ContextObj fa = tell lib Destroy fa"
| "destruct lib MountObj fa = tell lib Unmount (fa\<lparr>fa_mounted := False\<rparr>)"
| "destruct lib SignalsObj fa = tell lib RemoveSignals fa"

fun destruct_all :: "fuse_lib \<Rightarrow> fuse_object list \<Rightarrow> fuse_adapter \<Rightarrow> fuse_adapter" where
  "destruct_all lib [] fa = fa"
| "destruct_all lib (x # xs) fa = destruct_all lib xs (destruct lib x fa)"

text \<open>Leaving the block destroys its objects in the reverse order of their construction.\<close>

definition leave_scope :: "fuse_lib \<Rightarrow> fuse_adapter \<Rightarrow> fuse_adapter" where
  "leave_scope lib fa = (destruct_all lib (fa_live fa) fa)\<lparr>fa_live := []\<rparr>"

text \<open>FuseArguments::AddArg.\<close>

definition add_arg :: "fuse_lib \<Rightarrow> string \<Rightarrow> unit fuse_run" where
  "add_arg lib arg fa =
     bindL (must lib (AddArg ''-o'') ''fuse_opt_add_arg()2 failed'' fa) (\<lambda>_.
       must lib (AddArg arg) ''fuse_opt_add_arg()3 failed'')"

fun add_args :: "fuse_lib \<Rightarrow> string list \<Rightarrow> unit fuse_run" where
  "add_args lib [] fa = (Inr (), fa)"
| "add_args lib (arg # args) fa = bindL (add_arg lib arg fa) (\<lambda>_. add_args lib args)"

text \<open>The loop; the init operation, FuseOperations::init, signals from inside it.\<close>

definition fuse_loop :: "fuse_lib \<Rightarrow> fuse_opts \<Rightarrow> unit fuse_run" where
  "fuse_loop lib opts fa =
     (let fa = if fl_inits lib (fa_log fa) then signal_init fa else fa in
      bindL (ask lib (if fo_threading opts then LoopMt (fo_idle opts) else Loop) fa) (\<lambda>r fa.
        if r < 0 then (Inl (''fuse_loop() failed'', Some r), fa) else (Inr (), fa)))"

definition daemonized :: "fuse_lib \<Rightarrow> bool \<Rightarrow> bool \<Rightarrow> unit fuse_run" where
  "daemonized lib daemonize fork_func fa =
     (if daemonize
      then bindL (must lib Daemonize ''fuse_daemonize() failed'' fa) (\<lambda>_ fa.
             (Inr (), if fork_func then tell lib ForkFunc fa else fa))
      else (Inr (), fa))"

text \<open>The statements of the try block of FuseMain.\<close>

definition fuse_try :: "fuse_lib \<Rightarrow> string \<Rightarrow> fuse_opts \<Rightarrow> bool \<Rightarrow> bool \<Rightarrow> bool \<Rightarrow> unit fuse_run" where
  "fuse_try lib path opts reg_signals daemonize fork_func fa =
     bindL (new_arguments lib fa) (\<lambda>_ fa.
     bindL (add_args lib (''default_permissions'' # fo_args opts) fa) (\<lambda>_ fa.
     bindL (new_context lib fa) (\<lambda>_ fa.
     bindL (new_mount lib path fa) (\<lambda>_ fa.
     bindL (daemonized lib daemonize fork_func fa) (\<lambda>_ fa.
     bindL (if reg_signals then new_signals lib fa else (Inr (), fa)) (\<lambda>_.
       fuse_loop lib opts))))))"

definition fuse_session :: "fuse_lib \<Rightarrow> string \<Rightarrow> fuse_opts \<Rightarrow> bool \<Rightarrow> bool \<Rightarrow> bool \<Rightarrow> unit fuse_run" where
  "fuse_session lib path opts reg_signals daemonize fork_func fa =
     (case fuse_try lib path opts reg_signals daemonize fork_func (fa\<lparr>fa_live := []\<rparr>) of (r, fa) \<Rightarrow> (r, leave_scope lib fa))"

definition fuse_main :: "fuse_lib \<Rightarrow> string \<Rightarrow> fuse_opts \<Rightarrow> bool \<Rightarrow> bool \<Rightarrow> bool \<Rightarrow> fuse_adapter \<Rightarrow> fuse_adapter" where
  "fuse_main lib path opts reg_signals daemonize fork_func fa =
     (case fuse_session lib path opts reg_signals daemonize fork_func fa of (r, fa) \<Rightarrow>
        signal_init (case r of Inl e \<Rightarrow> fa\<lparr>fa_error := Some e\<rparr> | Inr _ \<Rightarrow> fa))"

text \<open>StartFuse in the modes FOREGROUND and DAEMON, which block; what is thrown is the result.\<close>

definition start_fuse :: "fuse_lib \<Rightarrow> string \<Rightarrow> fuse_opts \<Rightarrow> bool \<Rightarrow> bool \<Rightarrow> fuse_adapter \<Rightarrow> fuse_error option \<times> fuse_adapter" where
  "start_fuse lib path opts daemonize fork_func fa =
     (let fa = fuse_main lib path opts True daemonize fork_func fa in (fa_error fa, fa))"

definition new_adapter :: fuse_adapter where
  "new_adapter = \<lparr>fa_log = [], fa_live = [], fa_mounted = False, fa_init = False, fa_error = None\<rparr>"

section \<open>What is held is released\<close>

text \<open>
  What a log acquires and releases, as a stack: each successful call that makes something pushes the
  call that takes it down, which must come when it is on top.
\<close>

fun opens :: "lib_call \<times> int \<Rightarrow> lib_call option" where
  "opens (ProgramName, r) = (if r = 0 then Some FreeArgs else None)"
| "opens (NewFuse, r) = (if r \<noteq> 0 then Some Destroy else None)"
| "opens (MountFuse _, r) = (if r = 0 then Some Unmount else None)"
| "opens (SetSignals, r) = (if r = 0 then Some RemoveSignals else None)"
| "opens _ = None"

definition closes :: "lib_call \<Rightarrow> bool" where
  "closes c \<longleftrightarrow> c \<in> {FreeArgs, Destroy, Unmount, RemoveSignals}"

fun held :: "fuse_log \<Rightarrow> lib_call list \<Rightarrow> lib_call list option" where
  "held [] s = Some s"
| "held ((c, r) # log) s =
     (if closes c then (case s of [] \<Rightarrow> None | x # s \<Rightarrow> if x = c then held log s else None)
      else case opens (c, r) of None \<Rightarrow> held log s | Some x \<Rightarrow> held log (x # s))"

lemma held_append: "held (xs @ ys) s = Option.bind (held xs s) (held ys)"
  by (induction xs s rule: held.induct) (auto split: option.splits list.splits)

text \<open>The call that the destructor of an object makes.\<close>

fun taker :: "fuse_object \<Rightarrow> lib_call" where
  "taker ArgumentsObj = FreeArgs"
| "taker ContextObj = Destroy"
| "taker MountObj = Unmount"
| "taker SignalsObj = RemoveSignals"

lemma closes_taker [simp]: "closes (taker x)"
  by (cases x) (auto simp: closes_def)

text \<open>What is to be taken down while the loop runs; every signal of a log comes then.\<close>

definition all_up :: "bool \<Rightarrow> lib_call list" where
  "all_up reg_signals = (if reg_signals then [RemoveSignals] else []) @ [Unmount, Destroy, FreeArgs]"

definition signals_up :: "bool \<Rightarrow> fuse_log \<Rightarrow> bool" where
  "signals_up reg_signals log \<longleftrightarrow> (\<forall>xs r ys. log = xs @ (SignalInit, r) # ys \<longrightarrow> held xs [] = Some (all_up reg_signals))"

lemma signals_up_nil [simp]: "signals_up g []"
  by (simp add: signals_up_def)

lemma signals_up_snoc [simp]:
  "signals_up g (log @ [(c, r)]) \<longleftrightarrow> signals_up g log \<and> (c = SignalInit \<longrightarrow> held log [] = Some (all_up g))"
proof -
  have *: "(\<exists>zs. log = xs @ (SignalInit, r') # zs) \<or> (log = xs \<and> c = SignalInit \<and> r = r')"
    if "log @ [(c, r)] = xs @ (SignalInit, r') # ys" for xs r' ys
    using arg_cong [OF that, of butlast] arg_cong [OF that, of last] by (cases ys rule: rev_cases) (auto simp: butlast_append)
  show ?thesis
  proof
    assume u: "signals_up g (log @ [(c, r)])"
    have "signals_up g log" unfolding signals_up_def
    proof (intro allI impI)
      fix xs r' zs
      assume "log = xs @ (SignalInit, r') # zs"
      then have "log @ [(c, r)] = xs @ (SignalInit, r') # (zs @ [(c, r)])" by simp
      with u show "held xs [] = Some (all_up g)" unfolding signals_up_def by blast
    qed
    moreover have "c = SignalInit \<longrightarrow> held log [] = Some (all_up g)" using u unfolding signals_up_def by blast
    ultimately show "signals_up g log \<and> (c = SignalInit \<longrightarrow> held log [] = Some (all_up g))" ..
  next
    assume u: "signals_up g log \<and> (c = SignalInit \<longrightarrow> held log [] = Some (all_up g))"
    show "signals_up g (log @ [(c, r)])" unfolding signals_up_def
    proof (intro allI impI)
      fix xs r' ys
      assume "log @ [(c, r)] = xs @ (SignalInit, r') # ys"
      from * [OF this] u show "held xs [] = Some (all_up g)" unfolding signals_up_def by blast
    qed
  qed
qed

text \<open>The objects alive are what the calls since fa0 hold.\<close>

definition stands :: "bool \<Rightarrow> fuse_adapter \<Rightarrow> fuse_object list \<Rightarrow> fuse_adapter \<Rightarrow> bool" where
  "stands g fa0 live fa \<longleftrightarrow> fa_live fa = live \<and> fa_error fa = fa_error fa0 \<and> (fa_mounted fa \<longrightarrow> fa_mounted fa0 \<or> MountObj \<in> set live) \<and>
     (\<exists>l. fa_log fa = fa_log fa0 @ l \<and> held l [] = Some (map taker live) \<and> signals_up g l)"

definition goes :: "bool \<Rightarrow> fuse_object list \<Rightarrow> 'a fuse_run \<Rightarrow> fuse_object list \<Rightarrow> bool" where
  "goes g L m L' \<longleftrightarrow> (\<forall>fa0 fa. stands g fa0 L fa \<longrightarrow>
     (case m fa of (Inl e, fa') \<Rightarrow> (\<exists>X. stands g fa0 X fa') | (Inr x, fa') \<Rightarrow> stands g fa0 L' fa'))"

lemma goes_bind:
  assumes "goes g L m L'" and "\<And>x. goes g L' (f x) L''"
  shows "goes g L (\<lambda>fa. bindL (m fa) f) L''"
  unfolding goes_def
proof (intro allI impI)
  fix fa0 fa
  assume s: "stands g fa0 L fa"
  obtain r fa1 where m: "m fa = (r, fa1)" by force
  have i: "case (r, fa1) of (Inl e, fa') \<Rightarrow> (\<exists>X. stands g fa0 X fa') | (Inr x, fa') \<Rightarrow> stands g fa0 L' fa'"
    using assms(1) [unfolded goes_def, rule_format, OF s] unfolding m .
  show "case bindL (m fa) f of (Inl e, fa') \<Rightarrow> (\<exists>X. stands g fa0 X fa') | (Inr x, fa') \<Rightarrow> stands g fa0 L'' fa'"
  proof (cases r)
    case (Inr x)
    with i have "stands g fa0 L' fa1" by simp
    with assms(2) [of x] show ?thesis unfolding goes_def m Inr by simp
  qed (use i in \<open>simp add: m\<close>)
qed

lemma goes_return: "goes g L (\<lambda>fa. (Inr x, fa)) L"
  by (simp add: goes_def)

lemma stands_step:
  assumes "stands g fa0 L fa" and "fa_log fa' = fa_log fa @ [(c, r)]" and "held [(c, r)] (map taker L) = Some (map taker L')"
    and "c = SignalInit \<Longrightarrow> map taker L = all_up g" and "fa_live fa' = L'" and "fa_error fa' = fa_error fa"
    and "fa_mounted fa' \<longrightarrow> fa_mounted fa0 \<or> MountObj \<in> set L'"
  shows "stands g fa0 L' fa'"
proof -
  obtain l where l: "fa_log fa = fa_log fa0 @ l" "held l [] = Some (map taker L)" "signals_up g l" using assms(1) by (auto simp: stands_def)
  have "fa_log fa' = fa_log fa0 @ (l @ [(c, r)])" by (simp add: assms(2) l)
  moreover have "held (l @ [(c, r)]) [] = Some (map taker L')" using assms(3) by (simp add: held_append l)
  moreover have "signals_up g (l @ [(c, r)])" using assms(4) l by simp
  ultimately show ?thesis using assms(1,5-7) unfolding stands_def by metis
qed

lemma stands_call:
  assumes "stands g fa0 L fa" and "\<not> closes c" and "c \<noteq> SignalInit" and "opens (c, r) = None"
  shows "stands g fa0 L (fa\<lparr>fa_log := fa_log fa @ [(c, r)]\<rparr>)"
  by (rule stands_step [OF assms(1)]) (use assms in \<open>auto simp: stands_def\<close>)

lemma stands_call_ex:
  assumes "stands g fa0 L fa" and "\<not> closes c" and "c \<noteq> SignalInit" and "opens (c, r) = None"
  shows "\<exists>X. stands g fa0 X (fa\<lparr>fa_log := fa_log fa @ [(c, r)]\<rparr>)"
  using stands_call [OF assms] by blast

lemma stands_open:
  assumes "stands g fa0 L fa" and "\<not> closes c" and "c \<noteq> SignalInit" and "opens (c, r) = Some (taker x)"
    and "fa_mounted fa' \<longrightarrow> fa_mounted fa \<or> x = MountObj" and "fa_error fa' = fa_error fa" and "fa_live fa' = x # fa_live fa"
    and "fa_log fa' = fa_log fa @ [(c, r)]"
  shows "stands g fa0 (x # L) fa'"
  by (rule stands_step [OF assms(1,8)]) (use assms in \<open>auto simp: stands_def\<close>)

lemma goes_must:
  assumes "\<not> closes c" and "c \<noteq> SignalInit" and "\<And>r. opens (c, r) = None"
  shows "goes g L (must lib c msg) L"
  using assms by (auto simp: goes_def must_def ask_def intro: stands_call stands_call_ex)

lemma goes_tell: "stands g fa0 L fa \<Longrightarrow> \<not> closes c \<Longrightarrow> c \<noteq> SignalInit \<Longrightarrow> (\<And>r. opens (c, r) = None) \<Longrightarrow> stands g fa0 L (tell lib c fa)"
  by (simp add: tell_def ask_def stands_call)

lemma goes_arguments: "goes g L (new_arguments lib) (ArgumentsObj # L)"
  by (auto simp: goes_def new_arguments_def must_def ask_def closes_def intro: stands_call_ex stands_open [where c = ProgramName and r = 0])

lemma goes_context: "goes g L (new_context lib) (ContextObj # L)"
  by (auto simp: goes_def new_context_def ask_def closes_def intro: stands_call_ex stands_open [where c = NewFuse])

lemma goes_mount: "goes g L (new_mount lib path) (MountObj # L)"
  by (auto simp: goes_def new_mount_def must_def ask_def closes_def intro: stands_call_ex stands_open [where c = "MountFuse path" and r = 0])

lemma goes_signals: "goes g L (new_signals lib) (SignalsObj # L)"
  by (auto simp: goes_def new_signals_def must_def ask_def closes_def intro: stands_call_ex stands_open [where c = SetSignals and r = 0])

lemma goes_add_arg: "goes g L (add_arg lib arg) L"
  unfolding add_arg_def [abs_def] by (intro goes_bind [OF goes_must] goes_must) (auto simp: closes_def)

lemma goes_add_args: "goes g L (add_args lib args) L"
proof (induction args)
  case Nil
  show ?case using goes_return by (metis (no_types, lifting) add_args.simps(1) ext)
next
  case (Cons arg args)
  have "add_args lib (arg # args) = (\<lambda>fa. bindL (add_arg lib arg fa) (\<lambda>_. add_args lib args))" by (rule ext) simp
  then show ?case using goes_bind [OF goes_add_arg Cons] by simp
qed

lemma goes_daemonized: "goes g L (daemonized lib daemonize fork_func) L"
proof -
  have "goes g L (\<lambda>fa. bindL (must lib Daemonize ''fuse_daemonize() failed'' fa) (\<lambda>_ fa. (Inr (), if fork_func then tell lib ForkFunc fa else fa))) L"
    by (rule goes_bind [OF goes_must]) (auto simp: closes_def goes_def intro!: goes_tell)
  then show ?thesis using goes_return [of g L "()"] by (cases daemonize) (auto simp: daemonized_def [abs_def])
qed

lemma stands_signal: "stands g fa0 L fa \<Longrightarrow> map taker L = all_up g \<Longrightarrow> stands g fa0 L (signal_init fa)"
  by (rule stands_step [where c = SignalInit and r = 0 and fa = fa and L = L]) (simp_all add: stands_def signal_init_def closes_def)

lemma goes_loop:
  assumes "map taker L = all_up g"
  shows "goes g L (fuse_loop lib opts) L"
  using assms by (auto simp: goes_def fuse_loop_def ask_def Let_def closes_def intro!: stands_call stands_signal)

lemma goes_try:
  "goes g [] (fuse_try lib path opts g daemonize fork_func) ((if g then [SignalsObj] else []) @ [MountObj, ContextObj, ArgumentsObj])"
proof -
  have s: "goes g L (\<lambda>fa. if g then new_signals lib fa else (Inr (), fa)) ((if g then [SignalsObj] else []) @ L)" for L
    using goes_signals goes_return by (cases g) auto
  show ?thesis unfolding fuse_try_def [abs_def]
    by (intro goes_bind [OF goes_arguments] goes_bind [OF goes_add_args] goes_bind [OF goes_context] goes_bind [OF goes_mount]
        goes_bind [OF goes_daemonized] goes_bind [OF s] goes_loop) (simp add: all_up_def)
qed

lemma destruct_simps:
  "fa_log (destruct lib x fa) = fa_log fa @ [(taker x, fl_answer lib (fa_log fa) (taker x))]"
  "fa_error (destruct lib x fa) = fa_error fa" "fa_mounted (destruct lib x fa) = (fa_mounted fa \<and> x \<noteq> MountObj)"
  by (cases x; simp add: tell_def ask_def)+

lemma destruct_all_stands:
  "\<exists>l. fa_log (destruct_all lib xs fa) = fa_log fa @ l \<and> held l (map taker xs @ s) = Some s \<and> (\<forall>e \<in> set l. closes (fst e)) \<and>
     fa_error (destruct_all lib xs fa) = fa_error fa \<and> fa_mounted (destruct_all lib xs fa) = (fa_mounted fa \<and> MountObj \<notin> set xs)"
proof (induction xs arbitrary: fa)
  case (Cons x xs)
  obtain l where l: "fa_log (destruct_all lib xs (destruct lib x fa)) = fa_log (destruct lib x fa) @ l" "held l (map taker xs @ s) = Some s"
    "\<forall>e \<in> set l. closes (fst e)" "fa_error (destruct_all lib xs (destruct lib x fa)) = fa_error (destruct lib x fa)"
    "fa_mounted (destruct_all lib xs (destruct lib x fa)) = (fa_mounted (destruct lib x fa) \<and> MountObj \<notin> set xs)"
    using Cons by blast
  then show ?case by (auto simp: destruct_simps)
qed simp

lemma signals_up_closing: "signals_up g l \<Longrightarrow> \<forall>e \<in> set l'. closes (fst e) \<Longrightarrow> signals_up g (l @ l')"
  by (induction l' rule: rev_induct) (auto simp: closes_def simp flip: append_assoc)

lemma leave_scope_stands:
  assumes "stands g fa0 L fa"
  shows "stands g fa0 [] (leave_scope lib fa)"
proof -
  obtain l where l: "fa_log fa = fa_log fa0 @ l" "held l [] = Some (map taker L)" "signals_up g l" using assms by (auto simp: stands_def)
  obtain l' where l': "fa_log (destruct_all lib L fa) = fa_log fa @ l'" "held l' (map taker L @ []) = Some []" "\<forall>e \<in> set l'. closes (fst e)"
    "fa_error (destruct_all lib L fa) = fa_error fa" "fa_mounted (destruct_all lib L fa) = (fa_mounted fa \<and> MountObj \<notin> set L)"
    using destruct_all_stands [of lib L fa "[]"] by blast
  have "fa_live fa = L" "fa_error fa = fa_error fa0" "fa_mounted fa \<longrightarrow> fa_mounted fa0 \<or> MountObj \<in> set L"
    using assms by (auto simp: stands_def)
  then show ?thesis using l l' signals_up_closing [OF l(3) l'(3)] by (auto simp: stands_def leave_scope_def held_append)
qed

lemma session_stands:
  assumes "fuse_session lib path opts g daemonize fork_func fa = (r, fa')"
  shows "stands g fa [] fa'"
proof -
  obtain fa1 where t: "fuse_try lib path opts g daemonize fork_func (fa\<lparr>fa_live := []\<rparr>) = (r, fa1)" and fa': "fa' = leave_scope lib fa1"
    using assms by (auto simp: fuse_session_def split: prod.splits)
  have "stands g fa [] (fa\<lparr>fa_live := []\<rparr>)" by (simp add: stands_def)
  then have "\<exists>X. stands g fa X fa1"
    using goes_try [of g lib path opts daemonize fork_func] t unfolding goes_def by (cases r) force+
  then show ?thesis using leave_scope_stands fa' by blast
qed

text \<open>C32: Whatever libfuse answers, the main function takes down what it made, each thing once and in the reverse order, before its own signal that initialization is over, which is the last thing it does; an earlier signal comes only from the init operation, inside the loop, while all of it stands. It leaves no mount registered, and an error of this run is kept for the caller.\<close>

theorem fuse_main_releases:
  "\<exists>l. fa_log (fuse_main lib path opts reg_signals daemonize fork_func fa) = fa_log fa @ l @ [(SignalInit, 0)] \<and> held l [] = Some [] \<and>
    signals_up reg_signals l \<and> fa_init (fuse_main lib path opts reg_signals daemonize fork_func fa) \<and>
    (fa_mounted (fuse_main lib path opts reg_signals daemonize fork_func fa) \<longrightarrow> fa_mounted fa) \<and>
    fa_error (fuse_main lib path opts reg_signals daemonize fork_func fa) =
      (case fst (fuse_session lib path opts reg_signals daemonize fork_func fa) of Inl e \<Rightarrow> Some e | Inr _ \<Rightarrow> fa_error fa)"
proof -
  obtain r fa1 where m: "fuse_session lib path opts reg_signals daemonize fork_func fa = (r, fa1)" by force
  from session_stands [OF this] show ?thesis by (cases r) (auto simp: stands_def fuse_main_def signal_init_def m)
qed

text \<open>
  The error of an earlier start is not cleared: an adapter whose first start fails to mount throws
  that error again when it is started again, although this time everything went well.
\<close>

lemma start_keeps_old_error:
  "let lib = \<lparr>fl_answer = \<lambda>log c. if c = MountFuse ''/mnt'' \<and> length log < 6 then -1 else if c = NewFuse then 1 else 0, fl_inits = \<lambda>_. True\<rparr>;
       fa = snd (start_fuse lib ''/mnt'' fuse_default False False new_adapter)
   in fst (fuse_session lib ''/mnt'' fuse_default True False False fa) = Inr () \<and>
      fst (start_fuse lib ''/mnt'' fuse_default False False fa) = Some (''fuse_mount() failed'', Some (-1))"
  by code_simp

text \<open>A library whose loop calls init: the log of a run in the foreground.\<close>

lemma toy_session_log:
  "map fst (fa_log (fuse_main \<lparr>fl_answer = \<lambda>_ c. if c = NewFuse then 1 else 0, fl_inits = \<lambda>_. True\<rparr> ''/mnt'' fuse_default True False False new_adapter)) =
     [ProgramName, AddArg ''-o'', AddArg ''default_permissions'', NewFuse, MountFuse ''/mnt'', SetSignals, SignalInit, LoopMt 10,
      RemoveSignals, Unmount, Destroy, FreeArgs, SignalInit]"
  by code_simp

lemma fuse_main_releases_witness:
  "\<not> fa_mounted (fuse_main \<lparr>fl_answer = \<lambda>_ c. if c = NewFuse then 1 else 0, fl_inits = \<lambda>_. True\<rparr> ''/mnt'' fuse_default True False False new_adapter) \<and>
   fa_error (fuse_main \<lparr>fl_answer = \<lambda>_ c. if c = NewFuse then 1 else 0, fl_inits = \<lambda>_. True\<rparr> ''/mnt'' fuse_default True False False new_adapter) = None"
proof -
  let ?lib = "\<lparr>fl_answer = \<lambda>_ c. if c = NewFuse then 1 else 0, fl_inits = \<lambda>_. True\<rparr>"
  have "fst (fuse_session ?lib ''/mnt'' fuse_default True False False new_adapter) = Inr ()" by code_simp
  then show ?thesis
    using fuse_main_releases [of ?lib "''/mnt''" fuse_default True False False new_adapter] by (auto simp: new_adapter_def)
qed

end
