(* ===== verification/Page_Alloc.thy ===== *)
theory Page_Alloc
  imports Ordered_Map Std_Map
begin

text \<open>
  MemoryAllocator and CachingAllocator (src/lib/andromeda/filesystem/filedata): pages of memory from
  the operating system, and a pool of freed ones for re-use. MemoryAllocator is that of a debug
  build, which records what it has mapped and checks every free against it; None is a failed check.
  The operating system is a parameter that picks the address of a mapping.
\<close>

section \<open>MemoryAllocator\<close>

text \<open>A block is an address and a number of pages; ps is the page size in bytes.\<close>

type_synonym block = "nat \<times> nat"

text \<open>The answer of mmap when it fails; the code takes it for an address.\<close>

definition map_failed :: nat where
  "map_failed = 2 ^ 64 - 1"

record page_alloc =
  pa_baseline :: nat
  pa_cur :: nat
  pa_max :: nat
  pa_free :: nat
  pa_recycles :: nat
  pa_allocs :: nat
  pa_lists :: "(nat, nat list) smap"
  pa_queue :: "(nat, nat) omap"
  pa_map :: "(nat, nat) smap"

definition mem_alloc :: "((nat, nat) smap \<Rightarrow> nat \<Rightarrow> nat) \<Rightarrow> nat \<Rightarrow> page_alloc \<Rightarrow> nat \<times> page_alloc" where
  "mem_alloc mm pages s =
     (if pages = 0 then (0, s)
      else let ptr = mm (pa_map s) pages in (ptr, s\<lparr>pa_map := sm_emplace ptr pages (pa_map s)\<rparr>))"

text \<open>lower_bound in descending order: the last entry that starts at the address or before it.\<close>

definition map_floor :: "(nat, nat) smap \<Rightarrow> nat \<Rightarrow> block option" where
  "map_floor m ptr = (case filter (\<lambda>e. fst e \<le> ptr) m of [] \<Rightarrow> None | es \<Rightarrow> Some (last es))"

definition mem_free :: "nat \<Rightarrow> nat \<Rightarrow> nat \<Rightarrow> page_alloc \<Rightarrow> page_alloc option" where
  "mem_free ps ptr pages s =
     (if ptr = 0 then Some s
      else case map_floor (pa_map s) ptr of
        None \<Rightarrow> None
      | Some (pe, ne) \<Rightarrow>
          if (ptr - pe) mod ps \<noteq> 0 \<or> pe + ne * ps < ptr + pages * ps then None
          else let m = sm_erase pe (pa_map s);
                   m = (if pe < ptr then sm_emplace pe ((ptr - pe) div ps) m else m);
                   after_start = ptr + pages * ps;
                   after_end = pe + ne * ps;
                   m = (if after_end > after_start then sm_emplace after_start ((after_end - after_start) div ps) m else m)
               in Some (s\<lparr>pa_map := m\<rparr>))"

section \<open>CachingAllocator\<close>

text \<open>
  The entry of the free queue has iterators to the list of its size and to its place in it; they are
  given by the size and the address.
\<close>

definition add_entry :: "nat \<Rightarrow> nat \<Rightarrow> page_alloc \<Rightarrow> page_alloc" where
  "add_entry ptr pages s =
     (let lists = sm_emplace pages [] (pa_lists s)
      in s\<lparr>pa_lists := sm_assign pages (ptr # the (sm_find lists pages)) lists,
           pa_queue := om_enqueue_front ptr pages (pa_queue s)\<rparr>)"

definition cache_alloc :: "nat \<Rightarrow> ((nat, nat) smap \<Rightarrow> nat \<Rightarrow> nat) \<Rightarrow> nat \<Rightarrow> page_alloc \<Rightarrow> nat \<times> page_alloc" where
  "cache_alloc ps mm pages s =
     (if pages = 0 then (0, s)
      else let cur = uadd (pa_cur s) (umul pages ps);
               s = s\<lparr>pa_allocs := uadd (pa_allocs s) 1, pa_cur := cur, pa_max := max cur (pa_max s)\<rparr>
           in case sm_lower_bound (pa_lists s) pages of
                Some (size1, ptrs) \<Rightarrow>
                  let ptr = hd ptrs;
                      s = s\<lparr>pa_lists := sm_assign size1 (tl ptrs) (pa_lists s), pa_queue := snd (om_erase ptr (pa_queue s)),
                            pa_free := usub (pa_free s) (umul pages ps), pa_recycles := uadd (pa_recycles s) 1\<rparr>;
                      s = (if size1 \<noteq> pages then add_entry (ptr + pages * ps) (size1 - pages) s else s)
                  in (ptr, if tl ptrs = [] then s\<lparr>pa_lists := sm_erase size1 (pa_lists s)\<rparr> else s)
              | None \<Rightarrow> mem_alloc mm pages s)"

definition pop_last_entry :: "nat \<Rightarrow> page_alloc \<Rightarrow> page_alloc option" where
  "pop_last_entry ps s =
     (case om_pop_back (pa_queue s) of
        None \<Rightarrow> None
      | Some ((ptr, pages), queue) \<Rightarrow>
          let ptrs = remove1 ptr (the (sm_find (pa_lists s) pages));
              s = s\<lparr>pa_queue := queue, pa_lists := sm_assign pages ptrs (pa_lists s),
                    pa_free := usub (pa_free s) (umul pages ps)\<rparr>
          in map_option (\<lambda>s. if ptrs = [] then s\<lparr>pa_lists := sm_erase pages (pa_lists s)\<rparr> else s)
               (mem_free ps ptr pages s))"

text \<open>The loop of free: None is a failed check or no end.\<close>

partial_function (option) shrink :: "nat \<Rightarrow> page_alloc \<Rightarrow> page_alloc option" where
  "shrink ps s =
     (if pa_free s > usub (pa_max s) (pa_baseline s)
      then Option.bind (pop_last_entry ps s) (shrink ps)
      else Some s)"

declare shrink.simps [code]

definition cache_free :: "nat \<Rightarrow> nat \<Rightarrow> nat \<Rightarrow> page_alloc \<Rightarrow> page_alloc option" where
  "cache_free ps ptr pages s =
     (if ptr = 0 \<or> pages = 0 then Some s
      else let s = add_entry ptr pages s
           in shrink ps (s\<lparr>pa_free := uadd (pa_free s) (umul pages ps), pa_cur := usub (pa_cur s) (umul pages ps)\<rparr>))"

text \<open>The destructor.\<close>

fun free_all :: "nat \<Rightarrow> block list \<Rightarrow> page_alloc \<Rightarrow> page_alloc option" where
  "free_all ps [] s = Some s"
| "free_all ps ((ptr, pages) # bs) s = Option.bind (mem_free ps ptr pages s) (free_all ps bs)"

definition cache_destroy :: "nat \<Rightarrow> page_alloc \<Rightarrow> page_alloc option" where
  "cache_destroy ps s = free_all ps (concat (map (\<lambda>(pages, ptrs). map (\<lambda>ptr. (ptr, pages)) ptrs) (pa_lists s))) s"

definition new_alloc :: "nat \<Rightarrow> page_alloc" where
  "new_alloc baseline = \<lparr>pa_baseline = baseline, pa_cur = 0, pa_max = 0, pa_free = 0, pa_recycles = 0, pa_allocs = 0,
     pa_lists = [], pa_queue = om_empty, pa_map = []\<rparr>"

end
