(* ===== verification/Alloc_Correct.thy ===== *)
theory Alloc_Correct
  imports Page_Alloc
begin

text \<open>
  The pages of memory: what the client uses, what is in the free pool, and what is mapped fit
  together, so no page is handed out twice and none is lost.
\<close>

section \<open>Blocks\<close>

definition span :: "nat \<Rightarrow> block \<Rightarrow> nat set" where
  "span ps b = {fst b ..< fst b + snd b * ps}"

definition blocks_ok :: "nat \<Rightarrow> block set \<Rightarrow> bool" where
  "blocks_ok ps B \<longleftrightarrow> finite B \<and> (\<forall>b \<in> B. 0 < fst b \<and> 0 < snd b \<and> fst b + snd b * ps \<le> 2 ^ 64) \<and>
     pairwise (\<lambda>a b. disjnt (span ps a) (span ps b)) B"

definition bytes_of :: "nat \<Rightarrow> block set \<Rightarrow> nat" where
  "bytes_of ps B = (\<Sum>b \<in> B. snd b * ps)"

lemma span_card [simp]: "card (span ps b) = snd b * ps"
  by (simp add: span_def)

lemma blocks_subset: "blocks_ok ps B \<Longrightarrow> A \<subseteq> B \<Longrightarrow> blocks_ok ps A"
  by (auto simp: blocks_ok_def intro: finite_subset pairwise_subset)

lemma bytes_spans: "blocks_ok ps B \<Longrightarrow> bytes_of ps B = card (\<Union>b \<in> B. span ps b)"
proof -
  assume B: "blocks_ok ps B"
  have fin: "finite B" and d: "\<forall>a \<in> B. \<forall>b \<in> B. a \<noteq> b \<longrightarrow> span ps a \<inter> span ps b = {}"
    using B by (auto simp: blocks_ok_def pairwise_def disjnt_def)
  have "\<forall>b \<in> B. finite (span ps b)" by (simp add: span_def)
  then have "card (\<Union>b \<in> B. span ps b) = (\<Sum>b \<in> B. card (span ps b))" by (rule card_UN_disjoint [OF fin _ d])
  then show ?thesis by (simp add: bytes_of_def)
qed

lemma bytes_less:
  assumes "blocks_ok ps B"
  shows "bytes_of ps B < 2 ^ 64"
proof -
  have "bytes_of ps B = card (\<Union>b \<in> B. span ps b)" by (rule bytes_spans [OF assms])
  also have "\<dots> \<le> card {1 ..< 2 ^ 64 :: nat}"
  proof (rule card_mono)
    show "\<Union> (span ps ` B) \<subseteq> {1 ..< 2 ^ 64}" using assms by (fastforce simp: blocks_ok_def span_def)
  qed simp
  finally show ?thesis by simp
qed

lemma blocks_insert:
  "blocks_ok ps (insert b B) \<longleftrightarrow> blocks_ok ps B \<and> 0 < fst b \<and> 0 < snd b \<and> fst b + snd b * ps \<le> 2 ^ 64 \<and>
     (\<forall>a \<in> B. a \<noteq> b \<longrightarrow> disjnt (span ps b) (span ps a))"
  by (auto simp: blocks_ok_def pairwise_insert disjnt_sym)

text \<open>Cutting a block into pieces.\<close>

lemma blocks_replace:
  assumes B: "blocks_ok ps B" and b: "b \<in> B" and P: "blocks_ok ps P" and sub: "(\<Union>p \<in> P. span ps p) \<subseteq> span ps b"
  shows "blocks_ok ps (P \<union> (B - {b}))"
proof -
  have "disjnt (span ps p) (span ps a)" if "p \<in> P" "a \<in> B - {b}" for p a
  proof -
    have "span ps a \<inter> span ps b = {}" using B b that by (auto simp: blocks_ok_def pairwise_def disjnt_def)
    moreover have "span ps p \<subseteq> span ps b" using sub that by blast
    ultimately show ?thesis unfolding disjnt_def by blast
  qed
  then show ?thesis using B P by (auto simp: blocks_ok_def pairwise_def disjnt_sym)
qed

lemma bytes_insert: "finite B \<Longrightarrow> b \<notin> B \<Longrightarrow> bytes_of ps (insert b B) = snd b * ps + bytes_of ps B"
  by (simp add: bytes_of_def)

lemma bytes_remove: "finite B \<Longrightarrow> b \<in> B \<Longrightarrow> bytes_of ps B = snd b * ps + bytes_of ps (B - {b})"
  unfolding bytes_of_def by (rule sum.remove)

lemma bytes_subset: "finite B \<Longrightarrow> A \<subseteq> B \<Longrightarrow> bytes_of ps A \<le> bytes_of ps B"
  unfolding bytes_of_def by (rule sum_mono2) auto

section \<open>The free lists\<close>

text \<open>The lists hold the pool P, each address in the list of its size; only lists of a size in X may be empty.\<close>

definition lists_ok :: "nat set \<Rightarrow> (nat, nat list) smap \<Rightarrow> block set \<Rightarrow> bool" where
  "lists_ok X m P \<longleftrightarrow> smap_ok m \<and>
     (\<forall>n l. sm_find m n = Some l \<longrightarrow> distinct l \<and> (l = [] \<longrightarrow> n \<in> X)) \<and>
     (\<forall>p n. (p, n) \<in> P \<longleftrightarrow> (\<exists>l. sm_find m n = Some l \<and> p \<in> set l))"

lemma lists_okD:
  assumes "lists_ok X m P"
  shows "smap_ok m" and "sm_find m n = Some l \<Longrightarrow> distinct l" and "sm_find m n = Some [] \<Longrightarrow> n \<in> X"
    and "(p, n) \<in> P \<longleftrightarrow> (\<exists>l. sm_find m n = Some l \<and> p \<in> set l)"
  using assms unfolding lists_ok_def by (simp, blast, blast, simp)

text \<open>Changing one list.\<close>

lemma lists_assign:
  assumes ok: "lists_ok X m P" and l: "distinct l" and X: "l = [] \<Longrightarrow> n \<in> X'" "X \<subseteq> insert n X'"
  shows "lists_ok X' (sm_assign n l m) ({e \<in> P. snd e \<noteq> n} \<union> (\<lambda>p. (p, n)) ` set l)"
proof -
  have f: "sm_find (sm_assign n l m) k = (if k = n then Some l else sm_find m k)" for k
    by (simp add: sm_find_def)
  have 1: "distinct l' \<and> (l' = [] \<longrightarrow> k \<in> X')" if "sm_find (sm_assign n l m) k = Some l'" for k l'
    using that l X lists_okD(2,3) [OF ok, of k] unfolding f by (cases "k = n") auto
  have 2: "(p, k) \<in> {e \<in> P. snd e \<noteq> n} \<union> (\<lambda>p. (p, n)) ` set l \<longleftrightarrow> (\<exists>l'. sm_find (sm_assign n l m) k = Some l' \<and> p \<in> set l')" for p k
    unfolding f using lists_okD(4) [OF ok, of p k] by (cases "k = n") auto
  show ?thesis unfolding lists_ok_def using smap_ok_assign [OF lists_okD(1) [OF ok]] 1 2 by blast
qed

lemma lists_take:
  assumes ok: "lists_ok X m P" and f: "sm_find m n = Some l" and p: "p \<in> set l"
  shows "lists_ok (insert n X) (sm_assign n (remove1 p l) m) (P - {(p, n)})"
proof -
  have "{e \<in> P. snd e \<noteq> n} \<union> (\<lambda>q. (q, n)) ` set (remove1 p l) = P - {(p, n)}"
    using lists_okD(2) [OF ok f] lists_okD(4) [OF ok, of _ n] f by auto
  then show ?thesis using lists_assign [OF ok, of "remove1 p l" n "insert n X"] lists_okD(2) [OF ok f] by auto
qed

lemma lists_add:
  assumes ok: "lists_ok X m P" and new: "(p, n) \<notin> P"
  shows "lists_ok X (sm_assign n (p # the (sm_find (sm_emplace n [] m) n)) (sm_emplace n [] m)) (insert (p, n) P)"
proof (cases "sm_find m n")
  case None
  then have "{e \<in> P. snd e \<noteq> n} = P" using lists_okD(4) [OF ok, of _ n] by auto
  moreover have e: "lists_ok (insert n X) (sm_emplace n [] m) P"
    using lists_assign [OF ok, of "[]" n "insert n X"] None calculation by (auto simp: sm_emplace_def sm_find_def)
  ultimately show ?thesis using lists_assign [OF e, of "[p]" n X] None by (auto simp: sm_find_def dom_def)
next
  case (Some l)
  then have e: "sm_emplace n [] m = m" by (simp add: sm_emplace_def sm_find_def)
  have "p \<notin> set l" using new lists_okD(4) [OF ok, of p n] Some by simp
  moreover have "{e \<in> P. snd e \<noteq> n} \<union> (\<lambda>p. (p, n)) ` set (p # l) = insert (p, n) P"
    using lists_okD(4) [OF ok, of _ n] Some by auto
  ultimately show ?thesis
    using lists_assign [OF ok, of "p # l" n X] lists_okD(2) [OF ok Some] Some unfolding e by auto
qed

lemma lists_tidy:
  assumes ok: "lists_ok {n} m P" and f: "sm_find m n = Some l"
  shows "lists_ok {} (if l = [] then sm_erase n m else m) P"
proof (cases "l = []")
  case True
  have g: "sm_find (sm_erase n m) k = (if k = n then None else sm_find m k)" for k
    using lists_okD(1) [OF ok] by (simp add: sm_find_def)
  have 1: "distinct l' \<and> l' \<noteq> []" if "sm_find (sm_erase n m) k = Some l'" for k l'
    using that lists_okD(2,3) [OF ok, of k] unfolding g by (cases "k = n") auto
  have 2: "(p, k) \<in> P \<longleftrightarrow> (\<exists>l'. sm_find (sm_erase n m) k = Some l' \<and> p \<in> set l')" for p k
    unfolding g using lists_okD(4) [OF ok, of p k] f True by (cases "k = n") auto
  show ?thesis unfolding lists_ok_def using True smap_ok_erase [OF lists_okD(1) [OF ok]] 1 2 by simp
next
  case False
  then have "sm_find m k \<noteq> Some []" for k using lists_okD(3) [OF ok, of k] f by auto
  then show ?thesis using ok False unfolding lists_ok_def by auto
qed

section \<open>What is mapped\<close>

definition inside :: "nat \<Rightarrow> block \<Rightarrow> block \<Rightarrow> bool" where
  "inside ps b e \<longleftrightarrow> (\<exists>k. fst b = fst e + k * ps \<and> k + snd b \<le> snd e)"

lemma inside_trans: "inside ps a b \<Longrightarrow> inside ps b c \<Longrightarrow> inside ps a c"
proof -
  assume "inside ps a b" "inside ps b c"
  then obtain k l where "fst a = fst b + k * ps" "k + snd a \<le> snd b" "fst b = fst c + l * ps" "l + snd b \<le> snd c"
    by (auto simp: inside_def)
  then show ?thesis unfolding inside_def by (intro exI [of _ "l + k"]) (simp add: add_mult_distrib)
qed

lemma inside_end: "inside ps b e \<Longrightarrow> fst b + snd b * ps \<le> fst e + snd e * ps"
  unfolding inside_def by (metis add.assoc add_mult_distrib mult_le_mono1 nat_add_left_cancel_le)

lemma inside_span: "inside ps b e \<Longrightarrow> span ps b \<subseteq> span ps e"
  using inside_end [of ps b e] by (auto simp: span_def inside_def)

text \<open>Blocks that make up exactly what is mapped, each within one mapping.\<close>

definition mapped_ok :: "nat \<Rightarrow> block set \<Rightarrow> (nat, nat) smap \<Rightarrow> bool" where
  "mapped_ok ps B m \<longleftrightarrow> smap_ok m \<and> blocks_ok ps (set m) \<and> blocks_ok ps B \<and>
     (\<Union>b \<in> B. span ps b) = (\<Union>e \<in> set m. span ps e) \<and> (\<forall>b \<in> B. \<exists>e \<in> set m. inside ps b e)"

lemma blocks_meet: "blocks_ok ps B \<Longrightarrow> a \<in> B \<Longrightarrow> b \<in> B \<Longrightarrow> x \<in> span ps a \<Longrightarrow> x \<in> span ps b \<Longrightarrow> a = b"
  unfolding blocks_ok_def pairwise_def disjnt_def by blast

lemma start_in_span: "0 < snd b \<Longrightarrow> 0 < ps \<Longrightarrow> fst b \<in> span ps b"
  by (simp add: span_def)

lemma blocks_inj: "blocks_ok ps B \<Longrightarrow> 0 < ps \<Longrightarrow> inj_on fst B"
proof (rule inj_onI)
  fix a b assume B: "blocks_ok ps B" "0 < ps" "a \<in> B" "b \<in> B" "fst a = fst b"
  then have "0 < snd a" "0 < snd b" by (auto simp: blocks_ok_def)
  then show "a = b" using blocks_meet [OF B(1,3,4)] start_in_span [of a ps] start_in_span [of b ps] B by metis
qed

lemma last_filter_max:
  assumes "smap_ok m" and "e \<in> set m" and "P e"
  shows "last (filter P m) \<in> set m \<and> P (last (filter P m)) \<and> fst e \<le> fst (last (filter P m)) \<and> filter P m \<noteq> []"
  using assms
proof (induction m rule: rev_induct)
  case (snoc x m)
  then have "smap_ok m" "\<forall>a \<in> set m. fst a < fst x" by (auto simp: smap_ok_append image_iff)
  with snoc show ?case by (cases "P x") force+
qed simp

lemma map_floor_found:
  assumes ok: "smap_ok m" and M: "blocks_ok ps (set m)" and e: "e \<in> set m" and i: "inside ps b e" and n: "0 < snd b" "0 < ps"
  shows "map_floor m (fst b) = Some e"
proof -
  let ?f = "filter (\<lambda>e. fst e \<le> fst b) m"
  have l: "last ?f \<in> set m" "fst (last ?f) \<le> fst b" "fst e \<le> fst (last ?f)" "?f \<noteq> []"
    using last_filter_max [OF ok e, of "\<lambda>e. fst e \<le> fst b"] i by (auto simp: inside_def)
  have "fst b \<in> span ps e" using inside_span [OF i] start_in_span n by blast
  then have "fst (last ?f) \<in> span ps e" using l by (auto simp: span_def)
  moreover have "fst (last ?f) \<in> span ps (last ?f)" using M l(1) n by (intro start_in_span) (auto simp: blocks_ok_def)
  ultimately have "last ?f = e" using blocks_meet [OF M l(1) e] by blast
  then show ?thesis using l(4) unfolding map_floor_def by (cases ?f) (simp_all only: list.case last.simps, simp)
qed

text \<open>Giving memory back takes a piece out of the one mapping it lies in.\<close>

definition around :: "nat \<Rightarrow> block \<Rightarrow> nat \<Rightarrow> nat \<Rightarrow> block set" where
  "around ps e k n = (if 0 < k then {(fst e, k)} else {}) \<union>
     (if k + n < snd e then {(fst e + (k + n) * ps, snd e - (k + n))} else {})"

lemma around_spans:
  assumes "k + n \<le> snd e"
  shows "(\<Union>p \<in> around ps e k n. span ps p) = span ps e - span ps (fst e + k * ps, n)"
proof -
  obtain j where j: "snd e = k + n + j" using assms le_Suc_ex by blast
  show ?thesis by (auto simp: around_def span_def j add_mult_distrib)
qed

lemma around_ok:
  assumes "k + n \<le> snd e" and "blocks_ok ps {e}"
  shows "blocks_ok ps (around ps e k n)"
proof -
  obtain j where j: "snd e = k + n + j" using assms(1) le_Suc_ex by blast
  show ?thesis using assms(2)
    by (auto simp: around_def blocks_insert blocks_ok_def pairwise_def disjnt_def span_def j add_mult_distrib)
qed

lemma set_assign_new: "k \<notin> fst ` set m \<Longrightarrow> set (sm_assign k v m) = insert (k, v) (set m)"
  by (induction k v m rule: sm_assign.induct) auto

lemma set_emplace_new: "k \<notin> fst ` set m \<Longrightarrow> set (sm_emplace k v m) = insert (k, v) (set m)"
  by (simp add: sm_emplace_def set_assign_new map_of_eq_None_iff)

lemma set_erase: "smap_ok m \<Longrightarrow> set (sm_erase k m) = {e \<in> set m. fst e \<noteq> k}"
proof (induction k m rule: sm_erase.induct)
  case (2 k a b m)
  then show ?case by (cases "k = a") (auto simp: smap_ok_Cons)
qed simp

lemma key_not_mapped:
  assumes M: "blocks_ok ps B" and e: "e \<in> B" and p: "p \<in> span ps e" and ps: "0 < ps"
  shows "p \<notin> fst ` (B - {e})"
proof
  assume "p \<in> fst ` (B - {e})"
  then obtain a where a: "a \<in> B" "a \<noteq> e" "p = fst a" by auto
  then have "p \<in> span ps a" using M ps by (auto simp: blocks_ok_def intro: start_in_span)
  then show False using blocks_meet [OF M a(1) e _ p] a(2) by blast
qed

lemma set_place:
  assumes "smap_ok m"
  shows "smap_ok (if c then sm_emplace k v m else m)"
    and "k \<notin> fst ` set m \<Longrightarrow> set (if c then sm_emplace k v m else m) = (if c then {(k, v)} else {}) \<union> set m"
  using assms by (auto simp: smap_ok_emplace set_emplace_new)

lemma mem_free_entry:
  assumes m: "smap_ok m" and M: "blocks_ok ps (set m)" and e: "e \<in> set m" and ps: "0 < ps" and n: "0 < n" "k + n \<le> snd e"
    and s: "m = pa_map s"
  shows "\<exists>m'. mem_free ps (fst e + k * ps) n s = Some (s\<lparr>pa_map := m'\<rparr>) \<and> smap_ok m' \<and> set m' = around ps e k n \<union> (set m - {e})"
proof -
  obtain pe ne where pe: "e = (pe, ne)" by force
  define m1 where "m1 = sm_erase pe m"
  define m2 where "m2 = (if 0 < k then sm_emplace pe k m1 else m1)"
  define m3 where "m3 = (if k + n < ne then sm_emplace (pe + (k + n) * ps) (ne - (k + n)) m2 else m2)"
  have fl: "map_floor m (pe + k * ps) = Some (pe, ne)"
    using map_floor_found [OF m M e, of "(pe + k * ps, n)"] n ps by (auto simp: inside_def pe)
  have le: "(k + n) * ps \<le> ne * ps" using n by (intro mult_le_mono1) (simp add: pe)
  have lt: "pe + (k + n) * ps < pe + ne * ps \<longleftrightarrow> k + n < ne" using ps by (simp add: mult_less_cancel2)
  have d: "(pe + ne * ps - (pe + (k + n) * ps)) div ps = ne - (k + n)"
    using ps by (simp add: diff_mult_distrib [symmetric])
  have pos: "0 < pe" using M e by (auto simp: pe blocks_ok_def)
  have a: "pe + k * ps + n * ps = pe + (k + n) * ps" by (simp add: add_mult_distrib)
  have g1: "\<not> ((pe + k * ps - pe) mod ps \<noteq> 0 \<or> pe + ne * ps < pe + (k + n) * ps)"
  proof -
    have "\<not> pe + ne * ps < pe + (k + n) * ps" using le by linarith
    then show ?thesis by simp
  qed
  have "mem_free ps (pe + k * ps) n s = Some (s\<lparr>pa_map := m3\<rparr>)"
    unfolding mem_free_def s [symmetric] fl option.case prod.case a Let_def if_not_P [OF g1] d lt m3_def m2_def m1_def
    using pos ps by simp
  moreover have 1: "smap_ok m1" "set m1 = set m - {e}"
    using m smap_ok_erase [OF m, of pe] set_erase [OF m, of pe] smap_ok_distinct [OF m] e unfolding m1_def
    by (auto simp: pe dest: eq_key_imp_eq_value)
  moreover have 2: "smap_ok m2" "set m2 = (if 0 < k then {(pe, k)} else {}) \<union> (set m - {e})"
    using set_place [OF 1(1), where c = "0 < k" and k = pe and v = k] key_not_mapped [OF M e _ ps, of pe] 1 n ps
    unfolding m2_def by (auto simp: pe span_def)
  moreover have 3: "smap_ok m3" "set m3 = around ps e k n \<union> (set m - {e})"
  proof -
    show "smap_ok m3" unfolding m3_def by (rule set_place(1) [OF 2(1)])
    show "set m3 = around ps e k n \<union> (set m - {e})"
    proof (cases "k + n < ne")
      case True
      then have "pe + (k + n) * ps \<notin> fst ` (set m - {e})" using lt by (intro key_not_mapped [OF M e _ ps]) (simp add: pe span_def)
      then have "pe + (k + n) * ps \<notin> fst ` set m2" using n ps unfolding 2 image_Un by auto
      then show ?thesis unfolding m3_def using True by (auto simp: set_emplace_new 2 around_def pe)
    qed (auto simp: m3_def 2 around_def pe)
  qed
  ultimately show ?thesis by (auto simp: pe)
qed

lemma mapped_okD:
  assumes "mapped_ok ps B m"
  shows "smap_ok m" and "blocks_ok ps (set m)" and "blocks_ok ps B"
    and "(\<Union>b \<in> B. span ps b) = (\<Union>e \<in> set m. span ps e)" and "b \<in> B \<Longrightarrow> \<exists>e \<in> set m. inside ps b e"
  using assms unfolding mapped_ok_def by blast+

lemma spans_but:
  assumes "blocks_ok ps B" and "b \<in> B"
  shows "(\<Union>a \<in> B - {b}. span ps a) = (\<Union>a \<in> B. span ps a) - span ps b"
  using blocks_meet [OF assms(1) _ assms(2)] assms(2) by blast

lemma inside_around:
  assumes a: "inside ps a e" and d: "disjnt (span ps a) (span ps (fst e + k * ps, n))" and n: "0 < snd a" "0 < n" and ps: "0 < ps"
  shows "\<exists>p \<in> around ps e k n. inside ps a p"
proof -
  obtain i where i: "fst a = fst e + i * ps" "i + snd a \<le> snd e" using a by (auto simp: inside_def)
  have "i + snd a \<le> k \<or> k + n \<le> i"
  proof (rule ccontr)
    assume "\<not> ?thesis"
    then have "max i k * ps < (i + snd a) * ps" "max i k * ps < (k + n) * ps" "i * ps \<le> max i k * ps" "k * ps \<le> max i k * ps"
      using n ps by (auto intro!: mult_less_mono1)
    then have "fst e + max i k * ps \<in> span ps a \<inter> span ps (fst e + k * ps, n)"
      by (simp add: span_def i add_mult_distrib)
    then show False using d unfolding disjnt_def by blast
  qed
  then show ?thesis
  proof
    assume "i + snd a \<le> k"
    then show ?thesis using n i by (intro bexI [of _ "(fst e, k)"]) (auto simp: inside_def around_def)
  next
    assume "k + n \<le> i"
    then obtain j where "i = k + n + j" using le_Suc_ex by blast
    then show ?thesis using n i
      by (intro bexI [of _ "(fst e + (k + n) * ps, snd e - (k + n))"]) (auto simp: inside_def around_def add_mult_distrib)
  qed
qed

lemma mapped_free:
  assumes ok: "mapped_ok ps B (pa_map s)" and b: "b \<in> B" and ps: "0 < ps"
  shows "\<exists>m'. mem_free ps (fst b) (snd b) s = Some (s\<lparr>pa_map := m'\<rparr>) \<and> mapped_ok ps (B - {b}) m'"
proof -
  let ?m = "pa_map s"
  note B = mapped_okD [OF ok]
  obtain e where e: "e \<in> set ?m" "inside ps b e" using B(5) b by blast
  then obtain k where k: "fst b = fst e + k * ps" "k + snd b \<le> snd e" by (auto simp: inside_def)
  then have bk: "b = (fst e + k * ps, snd b)" by (metis prod.collapse)
  have n: "0 < snd b" using B(3) b by (auto simp: blocks_ok_def)
  obtain m' where m': "mem_free ps (fst b) (snd b) s = Some (s\<lparr>pa_map := m'\<rparr>)" "smap_ok m'" "set m' = around ps e k (snd b) \<union> (set ?m - {e})"
    using mem_free_entry [OF B(1,2) e(1) ps n k(2) refl] unfolding k(1) by blast
  have sp: "(\<Union>p \<in> around ps e k (snd b). span ps p) = span ps e - span ps b"
    using around_spans [OF k(2), of ps] bk by metis
  have M': "blocks_ok ps (set m')" unfolding m'(3)
    using B(2) e(1) by (intro blocks_replace around_ok k(2)) (auto simp: sp elim: blocks_subset)
  have "(\<Union>p \<in> set m'. span ps p) = span ps e - span ps b \<union> ((\<Union>a \<in> set ?m. span ps a) - span ps e)"
    unfolding m'(3) UN_Un sp spans_but [OF B(2) e(1)] ..
  also have "\<dots> = (\<Union>a \<in> set ?m. span ps a) - span ps b" using e(1) inside_span [OF e(2)] by blast
  also have "\<dots> = (\<Union>a \<in> B - {b}. span ps a)" unfolding spans_but [OF B(3) b] B(4) ..
  finally have U: "(\<Union>a \<in> B - {b}. span ps a) = (\<Union>p \<in> set m'. span ps p)" ..
  have "\<exists>p \<in> set m'. inside ps a p" if a: "a \<in> B - {b}" for a
  proof -
    obtain f where f: "f \<in> set ?m" "inside ps a f" using B(5) [of a] a by blast
    have "disjnt (span ps a) (span ps b)" "0 < snd a" using B(3) b a by (auto simp: blocks_ok_def pairwise_def)
    then show ?thesis using inside_around [of ps a e k "snd b"] f bk n ps unfolding m'(3) by (cases "f = e") auto
  qed
  then show ?thesis using m' M' U blocks_subset [OF B(3), of "B - {b}"] unfolding mapped_ok_def by blast
qed

text \<open>Cutting a block, and a new mapping.\<close>

lemma mapped_cut:
  assumes ok: "mapped_ok ps B m" and b: "b \<in> B" and P: "blocks_ok ps P" "(\<Union>p \<in> P. span ps p) = span ps b" "\<forall>p \<in> P. inside ps p b"
  shows "mapped_ok ps (P \<union> (B - {b})) m"
proof -
  note B = mapped_okD [OF ok]
  have 1: "blocks_ok ps (P \<union> (B - {b}))" using P by (intro blocks_replace [OF B(3) b]) auto
  have 2: "(\<Union>a \<in> P \<union> (B - {b}). span ps a) = (\<Union>e \<in> set m. span ps e)"
    unfolding UN_Un P(2) spans_but [OF B(3) b] B(4) [symmetric] using b by blast
  have 3: "\<exists>e \<in> set m. inside ps a e" if "a \<in> P \<union> (B - {b})" for a
    using that B(5) b P(3) inside_trans [of ps a b] by blast
  show ?thesis using B(1,2) 1 2 3 unfolding mapped_ok_def by simp
qed

lemma mapped_new:
  assumes ok: "mapped_ok ps B m" and ps: "0 < ps" and b: "0 < fst b" "0 < snd b" "fst b + snd b * ps \<le> 2 ^ 64"
    and new: "\<forall>e \<in> set m. disjnt (span ps b) (span ps e)"
  shows "mapped_ok ps (insert b B) (sm_emplace (fst b) (snd b) m)"
proof -
  note B = mapped_okD [OF ok]
  have "fst b \<notin> fst ` set m"
  proof
    assume "fst b \<in> fst ` set m"
    then obtain e where e: "e \<in> set m" "fst b = fst e" by auto
    then have "fst b \<in> span ps b \<inter> span ps e" using B(2) b ps by (auto simp: blocks_ok_def span_def)
    then show False using new e(1) unfolding disjnt_def by blast
  qed
  then have s: "set (sm_emplace (fst b) (snd b) m) = insert b (set m)" by (simp add: set_emplace_new)
  have "disjnt (span ps b) (span ps a)" if "a \<in> B" for a
  proof -
    have "span ps b \<inter> (\<Union>e \<in> set m. span ps e) = {}" using new unfolding disjnt_def by blast
    then show ?thesis using that unfolding B(4) [symmetric] disjnt_def by blast
  qed
  then have 1: "blocks_ok ps (insert b B)" using B(3) b by (simp add: blocks_insert)
  have 2: "blocks_ok ps (insert b (set m))" using B(2) b new by (simp add: blocks_insert)
  have 3: "inside ps b b" by (simp add: inside_def)
  show ?thesis unfolding mapped_ok_def s using smap_ok_emplace [OF B(1)] 1 2 3 B(4,5) by simp
qed

text \<open>A block in pieces: n pages from page k on, and what is around them.\<close>

definition pieces :: "nat \<Rightarrow> block \<Rightarrow> nat \<Rightarrow> nat \<Rightarrow> block set" where
  "pieces ps b k n = insert (fst b + k * ps, n) (around ps b k n)"

lemma pieces_cut:
  assumes b: "blocks_ok ps {b}" and n: "0 < n" "k + n \<le> snd b" and ps: "0 < ps"
  shows "blocks_ok ps (pieces ps b k n)" and "(\<Union>p \<in> pieces ps b k n. span ps p) = span ps b"
    and "p \<in> pieces ps b k n \<Longrightarrow> inside ps p b" and "(fst b + k * ps, n) \<notin> around ps b k n"
    and "bytes_of ps (around ps b k n) = (snd b - n) * ps"
proof -
  obtain j where j: "snd b = k + n + j" using n le_Suc_ex by blast
  have i: "inside ps (fst b + k * ps, n) b" using n by (auto simp: inside_def)
  show "(fst b + k * ps, n) \<notin> around ps b k n" using n ps by (auto simp: around_def)
  show "(\<Union>p \<in> pieces ps b k n. span ps p) = span ps b"
    using inside_span [OF i] around_spans [OF n(2), of ps] by (auto simp: pieces_def)
  show "inside ps p b" if p: "p \<in> pieces ps b k n"
  proof -
    consider "p = (fst b + k * ps, n)" | "p = (fst b, k)" | "p = (fst b + (k + n) * ps, snd b - (k + n))"
      using p by (auto simp: pieces_def around_def split: if_splits)
    then show ?thesis by cases (use n in \<open>auto simp: inside_def\<close>)
  qed
  show "bytes_of ps (around ps b k n) = (snd b - n) * ps"
    using n ps by (auto simp: around_def bytes_of_def j add_mult_distrib)
  have "disjnt (span ps (fst b + k * ps, n)) (span ps a)" if "a \<in> around ps b k n" for a
    using around_spans [OF n(2), of ps] that unfolding disjnt_def by blast
  moreover have "fst b + k * ps + n * ps \<le> 2 ^ 64" using b inside_end [OF i] by (auto simp: blocks_ok_def)
  ultimately show "blocks_ok ps (pieces ps b k n)"
    using around_ok [OF n(2) b] b n by (simp add: pieces_def blocks_insert) 
qed

lemma pieces_new:
  assumes B: "blocks_ok ps B" "b \<in> B" and n: "0 < n" "k + n \<le> snd b" and ps: "0 < ps"
  shows "pieces ps b k n \<inter> (B - {b}) = {}"
proof -
  have b: "blocks_ok ps {b}" using B by (auto elim: blocks_subset)
  have False if p: "p \<in> pieces ps b k n" "p \<in> B - {b}" for p
  proof -
    have "fst p \<in> span ps p" using B(1) p(2) ps by (intro start_in_span) (auto simp: blocks_ok_def)
    moreover have "fst p \<in> span ps b" using calculation inside_span [OF pieces_cut(3) [OF b n ps p(1)]] by blast
    ultimately show False using blocks_meet [OF B(1), of p b] p(2) B(2) by blast
  qed
  then show ?thesis by blast
qed

lemma bytes_union: "finite A \<Longrightarrow> finite B \<Longrightarrow> A \<inter> B = {} \<Longrightarrow> bytes_of ps (A \<union> B) = bytes_of ps A + bytes_of ps B"
  unfolding bytes_of_def by (rule sum.union_disjoint)

section \<open>The invariant\<close>

definition pool_ok :: "nat set \<Rightarrow> page_alloc \<Rightarrow> block set \<Rightarrow> bool" where
  "pool_ok X s P \<longleftrightarrow> lists_ok X (pa_lists s) P \<and> om_ok (pa_queue s) \<and> set (om_list (pa_queue s)) = P"

text \<open>The client uses the blocks U, and P is the free pool.\<close>

definition al_split :: "nat \<Rightarrow> page_alloc \<Rightarrow> block set \<Rightarrow> block set \<Rightarrow> bool" where
  "al_split ps s U P \<longleftrightarrow> 0 < ps \<and> U \<inter> P = {} \<and> mapped_ok ps (U \<union> P) (pa_map s) \<and> pool_ok {} s P \<and>
     pa_cur s = bytes_of ps U \<and> pa_free s = bytes_of ps P \<and> pa_cur s \<le> pa_max s \<and> pa_max s < 2 ^ 64"

definition al_inv :: "nat \<Rightarrow> page_alloc \<Rightarrow> block set \<Rightarrow> bool" where
  "al_inv ps s U \<longleftrightarrow> (\<exists>P. al_split ps s U P)"

lemma al_splitD:
  assumes "al_split ps s U P"
  shows "0 < ps" and "U \<inter> P = {}" and "mapped_ok ps (U \<union> P) (pa_map s)" and "pool_ok {} s P" and "pa_cur s = bytes_of ps U"
    and "pa_free s = bytes_of ps P" and "pa_cur s \<le> pa_max s" and "pa_max s < 2 ^ 64" and "blocks_ok ps (U \<union> P)"
    and "finite U" and "finite P"
  using assms unfolding al_split_def mapped_ok_def blocks_ok_def by auto

lemma add_entry_simps [simp]:
  "pa_baseline (add_entry p n s) = pa_baseline s" "pa_cur (add_entry p n s) = pa_cur s" "pa_max (add_entry p n s) = pa_max s"
  "pa_free (add_entry p n s) = pa_free s" "pa_map (add_entry p n s) = pa_map s"
  by (simp_all add: add_entry_def Let_def)

lemma pool_add:
  assumes P: "pool_ok X s P" and p: "p \<notin> fst ` P"
  shows "pool_ok X (add_entry p n s) (insert (p, n) P)"
proof -
  have "(p, n) \<notin> P" using p by force
  moreover have "p \<notin> fst ` set (om_list (pa_queue s))" using P p by (simp add: pool_ok_def)
  ultimately show ?thesis
    using lists_add [of X "pa_lists s" P p n] om_enqueue_front_spec [of "pa_queue s" p n] P
    by (simp add: pool_ok_def add_entry_def Let_def)
qed

lemma pool_take:
  assumes P: "pool_ok {} s P" and l: "sm_find (pa_lists s) n = Some l" "p \<in> set l" and inj: "inj_on fst P"
  shows "pool_ok {n} (s\<lparr>pa_lists := sm_assign n (remove1 p l) (pa_lists s), pa_queue := snd (om_erase p (pa_queue s))\<rparr>) (P - {(p, n)})"
proof -
  have "(p, n) \<in> P" using P l by (auto simp: pool_ok_def lists_ok_def)
  then have "{e \<in> P. fst e \<noteq> p} = P - {(p, n)}" using inj by (force simp: inj_on_def)
  then show ?thesis using P om_erase_spec [of "pa_queue s" p] lists_take [of "{}" "pa_lists s" P n l p] l
    by (simp add: pool_ok_def)
qed

lemma pool_tidy:
  assumes "pool_ok {n} s P" and "sm_find (pa_lists s) n = Some l"
  shows "pool_ok {} (if l = [] then s\<lparr>pa_lists := sm_erase n (pa_lists s)\<rparr> else s) P"
  using lists_tidy [of n "pa_lists s" P l] assms by (auto simp: pool_ok_def)

lemma pool_other [simp]:
  "pool_ok X (s\<lparr>pa_cur := a\<rparr>) P = pool_ok X s P" "pool_ok X (s\<lparr>pa_max := a\<rparr>) P = pool_ok X s P"
  "pool_ok X (s\<lparr>pa_free := a\<rparr>) P = pool_ok X s P" "pool_ok X (s\<lparr>pa_map := m\<rparr>) P = pool_ok X s P"
  "pool_ok X (s\<lparr>pa_recycles := a\<rparr>) P = pool_ok X s P" "pool_ok X (s\<lparr>pa_allocs := a\<rparr>) P = pool_ok X s P"
  by (simp_all add: pool_ok_def)

section \<open>The operations keep it\<close>

text \<open>n pages of block b, from page k on, change sides.\<close>

lemma mapped_pieces:
  assumes ok: "mapped_ok ps B m" and b: "b \<in> B" and n: "0 < n" "k + n \<le> snd b" and ps: "0 < ps"
  shows "mapped_ok ps (pieces ps b k n \<union> (B - {b})) m"
proof -
  have "blocks_ok ps {b}" using mapped_okD(3) [OF ok] b by (auto elim: blocks_subset)
  then show ?thesis using pieces_cut [OF _ n ps] mapped_cut [OF ok b] by blast
qed

lemma umul_block: "blocks_ok ps B \<Longrightarrow> b \<in> B \<Longrightarrow> n \<le> snd b \<Longrightarrow> umul n ps = n * ps"
proof -
  assume "blocks_ok ps B" "b \<in> B" "n \<le> snd b"
  then have "0 < fst b" "fst b + snd b * ps \<le> 2 ^ 64" "n * ps \<le> snd b * ps" by (auto simp: blocks_ok_def)
  then have "n * ps < 2 ^ 64" by linarith
  then show ?thesis by (simp add: umul_def u64_def)
qed

lemma bytes_pieces:
  assumes B: "blocks_ok ps B" "b \<in> B" and n: "0 < n" "k + n \<le> snd b" and ps: "0 < ps"
  shows "bytes_of ps B = n * ps + bytes_of ps (around ps b k n \<union> (B - {b}))" and "n * ps \<le> snd b * ps"
proof -
  have b: "blocks_ok ps {b}" and fin: "finite B" using B by (auto elim: blocks_subset simp: blocks_ok_def)
  have "finite (around ps b k n)" "around ps b k n \<inter> (B - {b}) = {}"
    using pieces_new [OF B n ps] by (auto simp: around_def pieces_def)
  then have "bytes_of ps (around ps b k n \<union> (B - {b})) = (snd b - n) * ps + bytes_of ps (B - {b})"
    using bytes_union [of "around ps b k n" "B - {b}" ps] pieces_cut(5) [OF b n ps] fin by simp
  moreover have "snd b * ps = n * ps + (snd b - n) * ps" using n by (simp add: add_mult_distrib [symmetric])
  ultimately show "bytes_of ps B = n * ps + bytes_of ps (around ps b k n \<union> (B - {b}))"
    using bytes_remove [OF fin B(2), of ps] by simp
  show "n * ps \<le> snd b * ps" using n by simp
qed

text \<open>The last entry of the queue goes back to the system.\<close>

lemma pop_last_kept:
  assumes ok: "al_split ps s U P" and P: "P \<noteq> {}"
  shows "\<exists>b s'. b \<in> P \<and> pop_last_entry ps s = Some s' \<and> al_split ps s' U (P - {b}) \<and>
     pa_max s' = pa_max s \<and> pa_baseline s' = pa_baseline s"
proof -
  note S = al_splitD [OF ok]
  note Q = S(4) [unfolded pool_ok_def]
  obtain p n q where q: "om_pop_back (pa_queue s) = Some ((p, n), q)"
    using om_pop_back_spec(1) [of "pa_queue s"] Q P by (cases "om_pop_back (pa_queue s)") auto
  then have q': "om_ok q" "om_list (pa_queue s) = om_list q @ [(p, n)]"
    using om_pop_back_spec(2) [of "pa_queue s" "(p, n)" q] Q by auto
  then have b: "(p, n) \<in> P" using Q by auto
  obtain l where l: "sm_find (pa_lists s) n = Some l" "p \<in> set l" using Q b by (auto simp: lists_ok_def)
  define s1 where "s1 = s\<lparr>pa_queue := q, pa_lists := sm_assign n (remove1 p l) (pa_lists s), pa_free := usub (pa_free s) (umul n ps)\<rparr>"
  have "(p, n) \<notin> set (om_list q)" using om_list_distinct [of "pa_queue s"] Q unfolding q'(2) by force
  then have "set (om_list q) = P - {(p, n)}" using Q q'(2) by auto
  then have p1: "pool_ok {n} s1 (P - {(p, n)})"
    using lists_take [of "{}" "pa_lists s" P n l p] Q l q'(1) by (simp add: pool_ok_def s1_def)
  obtain m' where m': "mem_free ps p n s1 = Some (s1\<lparr>pa_map := m'\<rparr>)" "mapped_ok ps ((U \<union> P) - {(p, n)}) m'"
    using mapped_free [of ps "U \<union> P" s1 "(p, n)"] S(1,3) b by (auto simp: s1_def)
  define s2 where "s2 = (let s = s1\<lparr>pa_map := m'\<rparr> in if remove1 p l = [] then s\<lparr>pa_lists := sm_erase n (pa_lists s)\<rparr> else s)"
  have "sm_find (pa_lists s1) n = Some (remove1 p l)" by (simp add: s1_def sm_find_def)
  then have p2: "pool_ok {} s2 (P - {(p, n)})"
    using pool_tidy [of n "s1\<lparr>pa_map := m'\<rparr>" "P - {(p, n)}" "remove1 p l"] p1 by (simp add: s2_def Let_def)
  have pop: "pop_last_entry ps s = Some s2"
    using q l m'(1) by (simp add: pop_last_entry_def s1_def s2_def Let_def)
  have um: "umul n ps = n * ps" using umul_block [OF S(9), of "(p, n)" n] b by simp
  have "bytes_of ps P = n * ps + bytes_of ps (P - {(p, n)})" using bytes_remove [OF S(11) b] by simp
  moreover have "bytes_of ps P < 2 ^ 64" using S(9) by (intro bytes_less) (auto elim: blocks_subset)
  ultimately have "usub (pa_free s) (umul n ps) = bytes_of ps (P - {(p, n)})"
    unfolding S(6) um by (simp add: usub_def u64_def)
  then have f: "pa_free s2 = bytes_of ps (P - {(p, n)})" by (simp add: s2_def s1_def Let_def)
  have o: "pa_cur s2 = pa_cur s" "pa_max s2 = pa_max s" "pa_map s2 = m'" "pa_baseline s2 = pa_baseline s"
    by (simp_all add: s2_def s1_def Let_def)
  have "(U \<union> P) - {(p, n)} = U \<union> (P - {(p, n)})" using S(2) b by blast
  then have "al_split ps s2 U (P - {(p, n)})"
    unfolding al_split_def f o using S(1,2,5,7,8) m'(2) p2 by auto
  then show ?thesis using b pop o by blast
qed

lemma shrink_ends:
  assumes "al_split ps s U P"
  shows "\<exists>s' P'. shrink ps s = Some s' \<and> al_split ps s' U P' \<and> pa_free s' \<le> usub (pa_max s') (pa_baseline s') \<and>
     pa_max s' = pa_max s \<and> pa_baseline s' = pa_baseline s"
  using assms
proof (induction "card P" arbitrary: s P rule: less_induct)
  case less
  note S = al_splitD [OF less.prems]
  show ?case
  proof (cases "pa_free s > usub (pa_max s) (pa_baseline s)")
    case True
    then have "P \<noteq> {}" using S(6) by (auto simp: bytes_of_def)
    then obtain b s' where b: "b \<in> P" "pop_last_entry ps s = Some s'" "al_split ps s' U (P - {b})"
        "pa_max s' = pa_max s" "pa_baseline s' = pa_baseline s"
      using pop_last_kept [OF less.prems] by blast
    have "card (P - {b}) < card P" using b(1) S(11) by (metis card_Diff1_less)
    then show ?thesis using less.hyps [OF _ b(3)] b True by (auto simp: shrink.simps [of ps s])
  next
    case False
    then show ?thesis using less.prems by (auto simp: shrink.simps [of ps s])
  qed
qed

lemma al_blocks:
  assumes "al_split ps s U P"
  shows "b \<in> U \<Longrightarrow> b \<notin> P" and "b \<in> P \<Longrightarrow> b \<notin> U" and "blocks_ok ps U" and "blocks_ok ps P"
    and "bytes_of ps U + bytes_of ps P < 2 ^ 64"
proof -
  note S = al_splitD [OF assms]
  show "b \<in> U \<Longrightarrow> b \<notin> P" "b \<in> P \<Longrightarrow> b \<notin> U" using S(2) by blast+
  show "blocks_ok ps U" "blocks_ok ps P" using S(9) by (auto elim: blocks_subset)
  show "bytes_of ps U + bytes_of ps P < 2 ^ 64" using bytes_less [OF S(9)] bytes_union [OF S(10,11,2)] by simp
qed

lemma moved_disjoint:
  "insert x A \<inter> ((U \<union> P) - {b}) = {} \<Longrightarrow> x \<notin> A \<Longrightarrow> U \<inter> P = {} \<Longrightarrow> b \<notin> P \<Longrightarrow>
   (A \<union> (U - {b})) \<inter> insert x P = {}"
  by blast

lemma free_kept:
  assumes ok: "al_split ps s U P" and b: "b \<in> U" and n: "0 < n" "k + n \<le> snd b"
  shows "\<exists>s' P'. cache_free ps (fst b + k * ps) n s = Some s' \<and> al_split ps s' (around ps b k n \<union> (U - {b})) P' \<and>
     pa_free s' \<le> usub (pa_max s') (pa_baseline s') \<and> pa_max s' = pa_max s \<and> pa_baseline s' = pa_baseline s"
proof -
  note S = al_splitD [OF ok]
  let ?p = "fst b + k * ps" and ?U = "around ps b k n \<union> (U - {b})"
  have bB: "b \<in> U \<union> P" using b by simp
  have b1: "blocks_ok ps {b}" using S(9) b by (auto elim: blocks_subset)
  have pos: "0 < ?p" using b1 by (auto simp: blocks_ok_def)
  have new: "pieces ps b k n \<inter> ((U \<union> P) - {b}) = {}" by (rule pieces_new [OF S(9) bB n S(1)])
  have ub: "b \<notin> P" using al_blocks(1) [OF ok b] .
  have m: "mapped_ok ps (pieces ps b k n \<union> ((U \<union> P) - {b})) (pa_map s)" by (rule mapped_pieces [OF S(3) bB n S(1)])
  have eq: "pieces ps b k n \<union> ((U \<union> P) - {b}) = ?U \<union> insert (?p, n) P" using ub by (auto simp: pieces_def)
  have d: "?U \<inter> insert (?p, n) P = {}"
    by (rule moved_disjoint [OF new [unfolded pieces_def] pieces_cut(4) [OF b1 n S(1)] S(2) ub])
  have inj: "inj_on fst (?U \<union> insert (?p, n) P)" using m S(1) unfolding eq by (intro blocks_inj) (auto simp: mapped_ok_def)
  have pn: "(?p, n) \<notin> P" using new ub by (auto simp: pieces_def)
  have "?p \<notin> fst ` P"
  proof
    assume "?p \<in> fst ` P"
    then obtain a where "a \<in> P" "fst a = ?p" by force
    then show False using inj_onD [OF inj, of a "(?p, n)"] pn by auto
  qed
  then have pool: "pool_ok {} (add_entry ?p n s) (insert (?p, n) P)" by (rule pool_add [OF S(4)])
  define s1 where "s1 = (add_entry ?p n s)\<lparr>pa_free := uadd (pa_free s) (umul n ps), pa_cur := usub (pa_cur s) (umul n ps)\<rparr>"
  have um: "umul n ps = n * ps" using umul_block [OF S(9) bB, of n] n by simp
  have U: "bytes_of ps U = n * ps + bytes_of ps ?U" by (rule bytes_pieces(1) [OF al_blocks(3) [OF ok] b n S(1)])
  have lt: "bytes_of ps U + bytes_of ps P < 2 ^ 64" by (rule al_blocks(5) [OF ok])
  have cur: "pa_cur s1 = bytes_of ps ?U" using lt unfolding s1_def by (simp add: S(5) um U usub_def u64_def)
  have free: "pa_free s1 = bytes_of ps (insert (?p, n) P)"
    using lt unfolding s1_def by (simp add: S(6) um U uadd_def u64_def bytes_insert [OF S(11) pn])
  have f: "pa_map s1 = pa_map s" "pa_max s1 = pa_max s" "pa_baseline s1 = pa_baseline s" by (simp_all add: s1_def)
  have "al_split ps s1 ?U (insert (?p, n) P)"
    unfolding al_split_def f cur free using S(1,5,7,8) d m U pool unfolding eq by (simp add: s1_def)
  then obtain s' P' where s': "shrink ps s1 = Some s'" "al_split ps s' ?U P'" "pa_free s' \<le> usub (pa_max s') (pa_baseline s')"
      "pa_max s' = pa_max s1" "pa_baseline s' = pa_baseline s1"
    using shrink_ends by blast
  have c: "\<not> (?p = 0 \<or> n = 0)" using pos n by linarith
  have "cache_free ps ?p n s = shrink ps s1" unfolding cache_free_def if_not_P [OF c] Let_def s1_def by simp
  then show ?thesis using s' f by auto
qed

definition mm_ok :: "nat \<Rightarrow> ((nat, nat) smap \<Rightarrow> nat \<Rightarrow> nat) \<Rightarrow> bool" where
  "mm_ok ps mm \<longleftrightarrow> (\<forall>m n. mm m n = map_failed \<or>
     (0 < mm m n \<and> mm m n + n * ps \<le> 2 ^ 64 \<and> (\<forall>e \<in> set m. disjnt (span ps (mm m n, n)) (span ps e))))"

text \<open>A recycled block: the first n pages of the smallest free block that has as many.\<close>

lemma recycle_kept:
  assumes ok: "al_split ps s U P" and n: "0 < n" and lb: "sm_lower_bound (pa_lists s) n = Some (n1, l)"
    and s1: "s1 = s\<lparr>pa_lists := sm_assign n1 (tl l) (pa_lists s), pa_queue := snd (om_erase (hd l) (pa_queue s))\<rparr>"
    and s2: "s2 = (if n1 \<noteq> n then add_entry (hd l + n * ps) (n1 - n) s1 else s1)"
    and s3: "s3 = (if tl l = [] then s2\<lparr>pa_lists := sm_erase n1 (pa_lists s2)\<rparr> else s2)"
  shows "pool_ok {} s3 (around ps (hd l, n1) 0 n \<union> (P - {(hd l, n1)}))" and "(hd l, n1) \<in> P" and "n \<le> n1"
proof -
  note S = al_splitD [OF ok]
  note Q = S(4) [unfolded pool_ok_def]
  have L: "lists_ok {} (pa_lists s) P" using Q by simp
  have nn: "n \<le> n1" "(n1, l) \<in> set (pa_lists s)" using sm_lower_bound_Some [OF lb] by auto
  show "n \<le> n1" by (rule nn)
  have l: "sm_find (pa_lists s) n1 = Some l"
    using in_sm_find [OF lists_okD(1) [OF L] nn(2)] by (simp add: sm_find_def)
  have "l \<noteq> []" using lists_okD(3) [OF L, of n1] l by auto
  then have hd: "hd l \<in> set l" "remove1 (hd l) l = tl l" by (cases l; simp)+
  show b: "(hd l, n1) \<in> P" using lists_okD(4) [OF L, of "hd l" n1] l hd by auto
  let ?b = "(hd l, n1)"
  have bB: "?b \<in> U \<union> P" using b by simp
  have P: "blocks_ok ps P" by (rule al_blocks(4) [OF ok])
  have p1: "pool_ok {n1} s1 (P - {?b})"
    using pool_take [OF S(4) l hd(1) blocks_inj [OF P S(1)]] unfolding s1 hd(2) .
  have f1: "sm_find (pa_lists s1) n1 = Some (tl l)" by (simp add: s1 sm_find_def)
  have p2: "pool_ok {n1} s2 (around ps ?b 0 n \<union> (P - {?b}))" and f2: "sm_find (pa_lists s2) n1 = Some (tl l)"
  proof (atomize (full), cases "n1 = n")
    case True
    then have "around ps ?b 0 n = {}" by (simp add: around_def)
    then show "pool_ok {n1} s2 (around ps ?b 0 n \<union> (P - {?b})) \<and> sm_find (pa_lists s2) n1 = Some (tl l)"
      using p1 f1 True by (simp add: s2)
  next
    case False
    then have a: "around ps ?b 0 n = {(hd l + n * ps, n1 - n)}" using nn(1) by (simp add: around_def)
    have ne: "n1 \<noteq> n1 - n" using n nn(1) by linarith
    have "hd l + n * ps \<notin> fst ` (P - {?b})"
      using key_not_mapped [OF P b _ S(1), of "hd l + n * ps"] False nn(1) S(1) by (simp add: span_def)
    then have "pool_ok {n1} s2 (around ps ?b 0 n \<union> (P - {?b}))"
      using pool_add [OF p1, of "hd l + n * ps" "n1 - n"] False unfolding a s2 by simp
    moreover have "sm_find (pa_lists s2) n1 = Some (tl l)"
      using f1 False ne by (simp add: s2 add_entry_def Let_def sm_find_def dom_def)
    ultimately show "pool_ok {n1} s2 (around ps ?b 0 n \<union> (P - {?b})) \<and> sm_find (pa_lists s2) n1 = Some (tl l)" by simp
  qed
  show "pool_ok {} s3 (around ps ?b 0 n \<union> (P - {?b}))" using pool_tidy [OF p2 f2] unfolding s3 .
qed

lemma alloc_kept:
  assumes ok: "al_split ps s U P" and mm: "mm_ok ps mm" and n: "0 < n" and a: "cache_alloc ps mm n s = (p, s')"
    and p: "p \<noteq> map_failed"
  shows "\<exists>P'. al_split ps s' (insert (p, n) U) P' \<and> pa_cur s' = pa_cur s + n * ps \<and>
     pa_baseline s' = pa_baseline s \<and> (\<forall>b \<in> U. disjnt (span ps (p, n)) (span ps b)) \<and> (p, n) \<notin> U"
proof -
  note S = al_splitD [OF ok]
  have fin: "finite (insert (p, n) U)" using S(10) by simp
  have finish: ?thesis if
      new: "mapped_ok ps (insert (p, n) U \<union> P') (pa_map s')" "(p, n) \<notin> U" "insert (p, n) U \<inter> P' = {}" and P': "pool_ok {} s' P'"
      and c: "pa_cur s' = uadd (pa_cur s) (umul n ps)" "pa_max s' = max (pa_cur s') (pa_max s)" "pa_baseline s' = pa_baseline s"
      and f: "pa_free s' = bytes_of ps P'" for P'
  proof -
    have B: "blocks_ok ps (insert (p, n) U)" using mapped_okD(3) [OF new(1)] by (auto elim: blocks_subset)
    have U: "bytes_of ps (insert (p, n) U) = n * ps + bytes_of ps U" using bytes_insert [OF S(10) new(2)] by simp
    have um: "umul n ps = n * ps" using umul_block [OF B, of "(p, n)" n] by simp
    have lt: "bytes_of ps (insert (p, n) U) < 2 ^ 64" by (rule bytes_less [OF B])
    then have cur: "pa_cur s' = bytes_of ps (insert (p, n) U)" unfolding c um S(5) U by (simp add: uadd_def u64_def)
    have "al_split ps s' (insert (p, n) U) P'"
      unfolding al_split_def using S(1,8) new P' f cur c(2) lt by auto
    moreover have "\<forall>b \<in> U. disjnt (span ps (p, n)) (span ps b)"
      using B new(2) unfolding blocks_insert by metis
    moreover have "pa_cur s' = pa_cur s + n * ps" unfolding cur U S(5) by simp
    ultimately show ?thesis using c(3) new(2) by blast
  qed
  define s0 where "s0 = s\<lparr>pa_allocs := uadd (pa_allocs s) 1, pa_cur := uadd (pa_cur s) (umul n ps),
     pa_max := max (uadd (pa_cur s) (umul n ps)) (pa_max s)\<rparr>"
  show ?thesis
  proof (cases "sm_lower_bound (pa_lists s) n")
    case None
    have eq: "mm (pa_map s) n = p" "s' = s0\<lparr>pa_map := sm_emplace p n (pa_map s)\<rparr>"
      using a n None by (auto simp: cache_alloc_def mem_alloc_def s0_def Let_def)
    have new: "0 < p" "p + n * ps \<le> 2 ^ 64" "\<forall>e \<in> set (pa_map s). disjnt (span ps (p, n)) (span ps e)"
      using mm p eq(1) unfolding mm_ok_def by blast+
    have m: "mapped_ok ps (insert (p, n) (U \<union> P)) (pa_map s')"
      using mapped_new [OF S(3,1), of "(p, n)"] new n by (simp add: eq(2))
    have "span ps (p, n) \<inter> (\<Union>b \<in> U \<union> P. span ps b) = {}"
      using new(3) unfolding mapped_okD(4) [OF S(3)] disjnt_def by blast
    moreover have "p \<in> span ps (p, n)" using n S(1) by (simp add: span_def)
    ultimately have "(p, n) \<notin> U \<union> P" by blast
    then show ?thesis using m S(2,4,6) by (intro finish [of P]) (auto simp: eq(2) s0_def)
  next
    case (Some e)
    obtain n1 l where e: "e = (n1, l)" by force
    define s1 where "s1 = s\<lparr>pa_lists := sm_assign n1 (tl l) (pa_lists s), pa_queue := snd (om_erase (hd l) (pa_queue s))\<rparr>"
    define s2 where "s2 = (if n1 \<noteq> n then add_entry (hd l + n * ps) (n1 - n) s1 else s1)"
    define s3 where "s3 = (if tl l = [] then s2\<lparr>pa_lists := sm_erase n1 (pa_lists s2)\<rparr> else s2)"
    let ?b = "(hd l, n1)" and ?P = "around ps (hd l, n1) 0 n \<union> (P - {(hd l, n1)})"
    note R = recycle_kept [OF ok n Some [unfolded e] s1_def s2_def s3_def]
    have eq: "p = hd l" "pa_lists s' = pa_lists s3" "pa_queue s' = pa_queue s3" "pa_map s' = pa_map s"
        "pa_cur s' = uadd (pa_cur s) (umul n ps)" "pa_max s' = max (pa_cur s') (pa_max s)"
        "pa_free s' = usub (pa_free s) (umul n ps)" "pa_baseline s' = pa_baseline s"
      using a n by (auto simp: cache_alloc_def Some e s1_def s2_def s3_def add_entry_def Let_def split: if_splits)
    have bn: "0 + n \<le> snd ?b" using R(3) by simp
    have bP: "?b \<in> U \<union> P" using R(2) by simp
    have bU: "?b \<notin> U" by (rule al_blocks(2) [OF ok R(2)])
    have PB: "blocks_ok ps P" by (rule al_blocks(4) [OF ok])
    have pc: "pieces ps ?b 0 n = insert (p, n) (around ps ?b 0 n)" by (simp add: pieces_def eq(1))
    have new: "insert (p, n) (around ps ?b 0 n) \<inter> ((P \<union> U) - {?b}) = {}"
      using pieces_new [OF S(9) bP n bn S(1)] unfolding pc by (simp add: Un_commute)
    have b1: "blocks_ok ps {?b}" by (rule blocks_subset [OF PB]) (use R(2) in simp)
    have pa: "(p, n) \<notin> around ps ?b 0 n"
      using pieces_cut(4) [OF b1 n bn S(1)] by (simp add: eq(1))
    have m: "mapped_ok ps (insert (p, n) U \<union> ?P) (pa_map s')"
      using mapped_pieces [OF S(3) bP n bn S(1)] bU unfolding pc eq(4) by (simp add: Un_Diff ac_simps)
    have d: "?P \<inter> insert (p, n) U = {}" by (rule moved_disjoint [OF new pa _ bU]) (use S(2) in blast)
    have pU: "(p, n) \<notin> U" using new bU by blast
    have lt: "bytes_of ps P < 2 ^ 64" by (rule bytes_less [OF PB])
    have f: "bytes_of ps P = n * ps + bytes_of ps ?P" by (rule bytes_pieces(1) [OF PB R(2) n bn S(1)])
    have um: "umul n ps = n * ps" using umul_block [OF S(9) bP, of n] R(3) by simp
    have free: "pa_free s' = bytes_of ps ?P" using lt unfolding eq(7) S(6) um f by (simp add: usub_def u64_def)
    have pool: "pool_ok {} s' ?P" using R(1) by (simp add: pool_ok_def eq(2,3))
    show ?thesis by (rule finish [OF m pU _ pool eq(5,6,8) free]) (use d in blast)
  qed
qed

section \<open>Runs of a client\<close>

text \<open>
  A client allocates, and gives back pages of a block it has, from page k on; what is left of the block it keeps.
  None is a free of something that the client does not have, or a failed check or an endless loop of the code.
\<close>

datatype al_op = Alloc nat | Free block nat nat

fun al_step :: "nat \<Rightarrow> ((nat, nat) smap \<Rightarrow> nat \<Rightarrow> nat) \<Rightarrow> al_op \<Rightarrow> page_alloc \<times> block set \<Rightarrow> (page_alloc \<times> block set) option" where
  "al_step ps mm (Alloc n) (s, U) =
     (let (p, s') = cache_alloc ps mm n s in Some (s', if n = 0 then U else insert (p, n) U))"
| "al_step ps mm (Free b k n) (s, U) =
     map_option (\<lambda>s'. (s', if n = 0 then U else around ps b k n \<union> (U - {b}))) (cache_free ps (fst b + k * ps) n s)"

text \<open>The calls that the client may make; the system has memory for it.\<close>

fun al_legal :: "nat \<Rightarrow> ((nat, nat) smap \<Rightarrow> nat \<Rightarrow> nat) \<Rightarrow> al_op \<Rightarrow> page_alloc \<times> block set \<Rightarrow> bool" where
  "al_legal ps mm (Alloc n) (s, U) \<longleftrightarrow> fst (cache_alloc ps mm n s) \<noteq> map_failed"
| "al_legal ps mm (Free b k n) (s, U) \<longleftrightarrow> b \<in> U \<and> k + n \<le> snd b"

fun al_run :: "nat \<Rightarrow> ((nat, nat) smap \<Rightarrow> nat \<Rightarrow> nat) \<Rightarrow> al_op list \<Rightarrow> page_alloc \<times> block set \<Rightarrow> bool \<times> (page_alloc \<times> block set) option" where
  "al_run ps mm [] x = (True, Some x)"
| "al_run ps mm (c # cs) x =
     (if \<not> al_legal ps mm c x then (False, None)
      else case al_step ps mm c x of None \<Rightarrow> (True, None) | Some y \<Rightarrow> al_run ps mm cs y)"

lemma al_step_kept:
  assumes ok: "al_inv ps s U" and mm: "mm_ok ps mm" and legal: "al_legal ps mm c (s, U)"
  shows "\<exists>s' U'. al_step ps mm c (s, U) = Some (s', U') \<and> al_inv ps s' U' \<and> pa_baseline s' = pa_baseline s"
proof (cases c)
  case (Alloc n)
  obtain p s' where a: "cache_alloc ps mm n s = (p, s')" by force
  show ?thesis
  proof (cases "n = 0")
    case True
    then show ?thesis using ok Alloc by (simp add: cache_alloc_def)
  next
    case False
    then show ?thesis using ok alloc_kept [OF _ mm _ a] legal Alloc a by (auto simp: al_inv_def)
  qed
next
  case (Free b k n)
  show ?thesis
  proof (cases "n = 0")
    case True
    then show ?thesis using ok Free by (simp add: cache_free_def)
  next
    case False
    then show ?thesis using ok free_kept [of ps s U _ b n k] legal Free by (fastforce simp: al_inv_def)
  qed
qed

lemma al_run_kept:
  assumes "al_inv ps s U" and "mm_ok ps mm" and "fst (al_run ps mm cs (s, U))"
  shows "\<exists>s' U'. snd (al_run ps mm cs (s, U)) = Some (s', U') \<and> al_inv ps s' U' \<and> pa_baseline s' = pa_baseline s"
  using assms
proof (induction cs arbitrary: s U)
  case (Cons c cs)
  then have legal: "al_legal ps mm c (s, U)" by (auto split: if_splits)
  obtain s' U' where y: "al_step ps mm c (s, U) = Some (s', U')" "al_inv ps s' U'" "pa_baseline s' = pa_baseline s"
    using al_step_kept [OF Cons.prems(1,2) legal] by blast
  have "fst (al_run ps mm cs (s', U'))" using Cons.prems(3) legal y(1) by simp
  then show ?case using Cons.IH [OF y(2) Cons.prems(2)] legal y by simp
qed simp

lemma new_alloc_inv: "0 < ps \<Longrightarrow> al_inv ps (new_alloc base) {}"
  unfolding al_inv_def al_split_def
  by (intro exI [of _ "{}"]) (simp add: new_alloc_def mapped_ok_def blocks_ok_def pairwise_def pool_ok_def lists_ok_def sm_find_def bytes_of_def)

lemma free_all_kept:
  assumes "mapped_ok ps B (pa_map s)" and "distinct bs" and "set bs = B" and "0 < ps"
  shows "\<exists>s'. free_all ps bs s = Some s' \<and> pa_map s' = []"
  using assms
proof (induction bs arbitrary: s B)
  case Nil
  then have B: "B = {}" by simp
  note M = mapped_okD [OF Nil.prems(1) [unfolded B]]
  have "(\<Union>e \<in> set (pa_map s). span ps e) = {}" using M(4) by simp
  moreover have "\<forall>e \<in> set (pa_map s). 0 < snd e" using M(2) by (simp add: blocks_ok_def)
  ultimately have "e \<notin> set (pa_map s)" for e
    using start_in_span [OF _ Nil.prems(4), of e] by auto
  then have "pa_map s = []" by (cases "pa_map s") auto
  then show ?case by simp
next
  case (Cons b bs)
  obtain m' where m': "mem_free ps (fst b) (snd b) s = Some (s\<lparr>pa_map := m'\<rparr>)" "mapped_ok ps (B - {b}) m'"
    using mapped_free [OF Cons.prems(1) _ Cons.prems(4), of b] Cons.prems(3) by auto
  have m2: "mapped_ok ps (B - {b}) (pa_map (s\<lparr>pa_map := m'\<rparr>))" using m'(2) by simp
  have bs: "distinct bs" "set bs = B - {b}" using Cons.prems(2,3) by auto
  have "\<exists>s'. free_all ps bs (s\<lparr>pa_map := m'\<rparr>) = Some s' \<and> pa_map s' = []"
    by (rule Cons.IH [OF m2 bs Cons.prems(4)])
  then show ?case using m'(1) by (cases b) simp
qed

lemma lists_blocks:
  assumes "lists_ok {} m P"
  shows "distinct (concat (map (\<lambda>(n, l). map (\<lambda>p. (p, n)) l) m))" and "set (concat (map (\<lambda>(n, l). map (\<lambda>p. (p, n)) l) m)) = P"
proof -
  have f: "sm_find m n = Some l \<longleftrightarrow> (n, l) \<in> set m" for n l
    using in_sm_find [OF lists_okD(1) [OF assms]] sm_find_in [of m n l] by (auto simp: sm_find_def)
  have "set (concat (map (\<lambda>(n, l). map (\<lambda>p. (p, n)) l) m)) = {(p, n). \<exists>l. (n, l) \<in> set m \<and> p \<in> set l}" by force
  also have "\<dots> = P" using lists_okD(4) [OF assms] unfolding f by auto
  finally show "set (concat (map (\<lambda>(n, l). map (\<lambda>p. (p, n)) l) m)) = P" .
  have d: "\<forall>e \<in> set m. distinct (snd e)" using lists_okD(2) [OF assms] unfolding f by auto
  have "distinct (map fst m)" by (rule smap_ok_distinct [OF lists_okD(1) [OF assms]])
  then show "distinct (concat (map (\<lambda>(n, l). map (\<lambda>p. (p, n)) l) m))" using d
    by (induction m) (force simp: distinct_map inj_on_def)+
qed

lemma al_accounts:
  assumes "al_split ps s U P"
  shows "pa_cur s + pa_free s = (\<Sum>e \<leftarrow> pa_map s. snd e * ps)"
proof -
  note S = al_splitD [OF assms]
  note M = mapped_okD [OF S(3)]
  have "pa_cur s + pa_free s = bytes_of ps (U \<union> P)" using S(5,6) bytes_union [OF S(10,11,2)] by simp
  also have "\<dots> = bytes_of ps (set (pa_map s))" using M(4) bytes_spans [OF M(2)] bytes_spans [OF M(3)] by simp
  also have "\<dots> = (\<Sum>e \<leftarrow> pa_map s. snd e * ps)"
    using smap_ok_distinct [OF M(1)] by (simp add: bytes_of_def sum_list_distinct_conv_sum_set distinct_map)
  finally show ?thesis .
qed

lemma destroy_unmaps:
  assumes "al_split ps s {} P"
  shows "\<exists>s'. cache_destroy ps s = Some s' \<and> pa_map s' = []"
proof -
  note S = al_splitD [OF assms]
  have "lists_ok {} (pa_lists s) P" using S(4) by (simp add: pool_ok_def)
  then show ?thesis unfolding cache_destroy_def using free_all_kept [OF _ lists_blocks S(1)] S(3) by simp
qed

text \<open>A system that maps behind everything that is mapped.\<close>

definition bump_mm :: "nat \<Rightarrow> (nat, nat) smap \<Rightarrow> nat \<Rightarrow> nat" where
  "bump_mm ps m n = (let p = fold max (map (\<lambda>e. fst e + snd e * ps) m) ps in if p + n * ps \<le> 2 ^ 64 then p else map_failed)"

lemma fold_max_le: "x \<le> fold max xs (x :: nat) \<and> (\<forall>y \<in> set xs. y \<le> fold max xs x)"
  by (induction xs arbitrary: x) (simp, fastforce)

lemma bump_mm_ok: "0 < ps \<Longrightarrow> mm_ok ps (bump_mm ps)"
  unfolding mm_ok_def bump_mm_def Let_def
proof (intro allI)
  fix m n assume ps: "0 < ps"
  let ?p = "fold max (map (\<lambda>e. fst e + snd e * ps) m) ps"
  have "ps \<le> ?p" "\<forall>e \<in> set m. fst e + snd e * ps \<le> ?p" using fold_max_le [of ps "map (\<lambda>e. fst e + snd e * ps) m"] by auto
  then show "(if ?p + n * ps \<le> 2 ^ 64 then ?p else map_failed) = map_failed \<or>
      0 < (if ?p + n * ps \<le> 2 ^ 64 then ?p else map_failed) \<and> (if ?p + n * ps \<le> 2 ^ 64 then ?p else map_failed) + n * ps \<le> 2 ^ 64 \<and>
      (\<forall>e \<in> set m. disjnt (span ps (if ?p + n * ps \<le> 2 ^ 64 then ?p else map_failed, n)) (span ps e))"
    using ps by (cases "?p + n * ps \<le> 2 ^ 64") (fastforce simp: disjnt_def span_def)+
qed

text \<open>C17: whatever the client allocates and gives back, in parts or whole, it never gets a page that it
  already has; what is in use and what is in the free pool is all that is mapped; and when it has given
  everything back, the destructor unmaps everything and no check fails.
\<close>

theorem allocator_safe:
  assumes "0 < ps" and "mm_ok ps mm" and "fst (al_run ps mm cs (new_alloc base, {}))"
  shows "\<exists>s U. snd (al_run ps mm cs (new_alloc base, {})) = Some (s, U) \<and>
     pairwise (\<lambda>a b. disjnt (span ps a) (span ps b)) U \<and> pa_cur s = (\<Sum>b \<in> U. snd b * ps) \<and>
     pa_cur s + pa_free s = (\<Sum>e \<leftarrow> pa_map s. snd e * ps) \<and>
     (U = {} \<longrightarrow> (\<exists>s'. cache_destroy ps s = Some s' \<and> pa_map s' = []))"
proof -
  obtain s U P where s: "snd (al_run ps mm cs (new_alloc base, {})) = Some (s, U)" "al_split ps s U P"
    using al_run_kept [OF new_alloc_inv [OF assms(1)] assms(2,3)] by (auto simp: al_inv_def)
  have "pairwise (\<lambda>a b. disjnt (span ps a) (span ps b)) U" "pa_cur s = (\<Sum>b \<in> U. snd b * ps)"
    using al_blocks(3) [OF s(2)] al_splitD(5) [OF s(2)] by (simp_all add: blocks_ok_def bytes_of_def)
  then show ?thesis using s al_accounts [OF s(2)] destroy_unmaps [of ps s P] by blast
qed

text \<open>C19: When the peak use so far is at least the baseline, a free of pages that the client has ends, no check fails, and at most the peak use less the baseline is left in the free pool. (Below the baseline the difference wraps around and the pool is not bounded: see early_pool_unbounded.)\<close>

theorem free_trims_pool:
  assumes "al_inv ps s U" and "b \<in> U" and "0 < n" and "k + n \<le> snd b" and "pa_baseline s \<le> pa_max s"
  shows "\<exists>s'. cache_free ps (fst b + k * ps) n s = Some s' \<and> al_inv ps s' (around ps b k n \<union> (U - {b})) \<and>
     pa_max s' = pa_max s \<and> pa_free s' \<le> pa_max s - pa_baseline s"
proof -
  obtain P where P: "al_split ps s U P" using assms(1) by (auto simp: al_inv_def)
  have "usub (pa_max s) (pa_baseline s) = pa_max s - pa_baseline s"
    using assms(5) al_splitD(8) [OF P] by (rule usub_small)
  then show ?thesis using free_kept [OF P assms(2-4)] by (fastforce simp: al_inv_def)
qed

lemmas alloc_eval = cache_alloc_def cache_free_def mem_alloc_def mem_free_def map_floor_def add_entry_def pop_last_entry_def shrink.simps
  around_def new_alloc_def bump_mm_def map_failed_def om_enqueue_front_def om_erase_def om_empty_def om_drop_node_def om_pop_back_def
  sm_emplace_def sm_find_def sm_lower_bound_def uadd_def usub_def umul_def u64_def

lemma early_pool_unbounded:
  "map_option (\<lambda>(s, U). (pa_free s, pa_max s)) (snd (al_run 4096 (bump_mm 4096)
     [Alloc 1, Free (4096, 1) 0 1, Alloc 2, Free (8192, 2) 0 2, Alloc 3, Free (16384, 3) 0 3] (new_alloc 65536, {})))
   = Some (6 * 4096, 3 * 4096)"
  by (simp add: alloc_eval Let_def)

theorem allocator_safe_witness:
  "\<exists>s U. snd (al_run 4096 (bump_mm 4096) [Alloc 4, Alloc 2, Free (4096, 4) 1 2, Alloc 1] (new_alloc 0, {})) = Some (s, U) \<and>
     pa_cur s = (\<Sum>b \<in> U. snd b * 4096)"
proof -
  have "fst (al_run 4096 (bump_mm 4096) [Alloc 4, Alloc 2, Free (4096, 4) 1 2, Alloc 1] (new_alloc 0, {}))"
    by (simp add: alloc_eval Let_def)
  then show ?thesis using allocator_safe [of 4096 "bump_mm 4096" _ 0] bump_mm_ok [of 4096] by fastforce
qed

theorem free_trims_pool_witness:
  "let s = snd (cache_alloc 4096 (bump_mm 4096) 3 (new_alloc 0)) in
   pa_max s = 3 * 4096 \<and> (\<exists>s'. cache_free 4096 (4096 + 1 * 4096) 2 s = Some s' \<and> pa_free s' \<le> 3 * 4096 - 0)"
proof -
  let ?s = "snd (cache_alloc 4096 (bump_mm 4096) 3 (new_alloc 0))"
  have "al_step 4096 (bump_mm 4096) (Alloc 3) (new_alloc 0, {}) = Some (?s, {(4096, 3)})"
    by (simp add: alloc_eval Let_def)
  then have "al_inv 4096 ?s {(4096, 3)}"
    using al_step_kept [OF new_alloc_inv [of 4096 0] bump_mm_ok [of 4096], of "Alloc 3"] by (simp add: alloc_eval Let_def)
  moreover have s: "pa_max ?s = 3 * 4096" "pa_baseline ?s = 0" by (simp_all add: alloc_eval Let_def)
  ultimately show ?thesis
    using free_trims_pool [of 4096 ?s "{(4096, 3)}" "(4096, 3)" 2 1] unfolding Let_def s by fastforce
qed

end
