(* ===== verification/Db_Value.thy ===== *)
theory Db_Value
  imports A2_Prelude String_Util Complex_Main
begin

text \<open>
  Values of the local database (src/lib/andromeda/database): MixedValue.cpp, and the field types of
  fieldtypes/. The values that sqlite itself holds, and JSON, belong to libraries: their type is a
  parameter, with the functions that the code calls on them.
\<close>

section \<open>Exceptions\<close>

text \<open>The last two are not of the class DatabaseException.\<close>

datatype db_exn =
    SqliteError string
  | TransactionError
  | MultipleUniqueKey string
  | UpdateFailed string
  | InsertFailed string
  | DeleteFailed string
  | Uninitialized string
  | DBValueNull string
  | ForeignKeyMissing string
  | JsonDecode string
  | TableVersion string
  | BadVariant
  | OutOfRange

definition is_db_exn :: "db_exn \<Rightarrow> bool" where
  "is_db_exn e \<longleftrightarrow> e \<noteq> BadVariant \<and> e \<noteq> OutOfRange"

section \<open>MixedValue\<close>

text \<open>A double: every finite one is a rational number.\<close>

datatype double = NaN | Infinite bool | Finite rat

definition double_eq :: "double \<Rightarrow> double \<Rightarrow> bool" where
  "double_eq a b \<longleftrightarrow> a \<noteq> NaN \<and> a = b"

text \<open>
  The functions sqlite3_value_*: the type code, the bytes (whose number is sqlite3_value_bytes), the text
  (None for a null pointer), and the numbers.
\<close>

record 'v sql_value =
  v_type :: "'v \<Rightarrow> nat"
  v_blob :: "'v \<Rightarrow> string"
  v_text :: "'v \<Rightarrow> string option"
  v_int :: "'v \<Rightarrow> int"
  v_int64 :: "'v \<Rightarrow> int"
  v_double :: "'v \<Rightarrow> double"

datatype 'v mixed =
    SqlV 'v
  | NullV
  | StrV string
  | CStrV string
  | IntV int
  | Int64V int
  | DoubleV double

definition nul :: char where
  "nul = CHR 0x00"

definition c_str :: "string \<Rightarrow> string" where
  "c_str s = takeWhile (\<lambda>c. c \<noteq> nul) s"

definition to_int32 :: "int \<Rightarrow> int" where
  "to_int32 x = (x + 2 ^ 31) mod 2 ^ 32 - 2 ^ 31"

text \<open>The bind function of sqlite that is called, with its arguments.\<close>

datatype 'v binding =
    BindValue 'v
  | BindNull
  | BindBlob string int
  | BindText string
  | BindInt int
  | BindInt64 int
  | BindDouble double

fun mv_bind :: "'v mixed \<Rightarrow> 'v binding" where
  "mv_bind (SqlV v) = BindValue v"
| "mv_bind NullV = BindNull"
| "mv_bind (StrV s) = BindBlob s (to_int32 (int (length s)))"
| "mv_bind (CStrV s) = BindText s"
| "mv_bind (IntV n) = BindInt n"
| "mv_bind (Int64V n) = BindInt64 n"
| "mv_bind (DoubleV d) = BindDouble d"

definition int_str :: "int \<Rightarrow> string" where
  "int_str n = (if n < 0 then ''-'' @ nat_str (nat (- n)) else nat_str (nat n))"

fun mv_to_string :: "'v sql_value \<Rightarrow> (double \<Rightarrow> string) \<Rightarrow> 'v mixed \<Rightarrow> string" where
  "mv_to_string V ds (SqlV v) = v_blob V v"
| "mv_to_string V ds NullV = ''NULL''"
| "mv_to_string V ds (StrV s) = s"
| "mv_to_string V ds (CStrV s) = s"
| "mv_to_string V ds (IntV n) = int_str n"
| "mv_to_string V ds (Int64V n) = int_str n"
| "mv_to_string V ds (DoubleV d) = ds d"

definition is_null :: "'v sql_value \<Rightarrow> 'v mixed \<Rightarrow> bool" where
  "is_null V m = (case m of SqlV v \<Rightarrow> length (v_blob V v) = 0 | _ \<Rightarrow> m = NullV)"

text \<open>get_to, by the type of the variable it fills.\<close>

fun get_string :: "'v sql_value \<Rightarrow> 'v mixed \<Rightarrow> db_exn + string" where
  "get_string V (SqlV v) = Inr (v_blob V v)"
| "get_string V (CStrV s) = Inr s"
| "get_string V (StrV s) = Inr s"
| "get_string V _ = Inl BadVariant"

fun get_cstr :: "'v sql_value \<Rightarrow> 'v mixed \<Rightarrow> db_exn + string option" where
  "get_cstr V (SqlV v) = Inr (v_text V v)"
| "get_cstr V (StrV s) = Inr (Some (c_str s))"
| "get_cstr V (CStrV s) = Inr (Some s)"
| "get_cstr V _ = Inl BadVariant"

fun get_int :: "'v sql_value \<Rightarrow> 'v mixed \<Rightarrow> db_exn + int" where
  "get_int V (SqlV v) = Inr (v_int V v)"
| "get_int V (IntV n) = Inr n"
| "get_int V _ = Inl BadVariant"

fun get_int64 :: "'v sql_value \<Rightarrow> 'v mixed \<Rightarrow> db_exn + int" where
  "get_int64 V (SqlV v) = Inr (v_int64 V v)"
| "get_int64 V (Int64V n) = Inr n"
| "get_int64 V _ = Inl BadVariant"

fun get_double :: "'v sql_value \<Rightarrow> 'v mixed \<Rightarrow> db_exn + double" where
  "get_double V (SqlV v) = Inr (v_double V v)"
| "get_double V (DoubleV d) = Inr d"
| "get_double V _ = Inl BadVariant"

text \<open>
  operator== of two different objects. An object that holds a value of sqlite has the null pointer
  in its variant.
\<close>

definition variant :: "'v mixed \<Rightarrow> 'v mixed" where
  "variant m = (case m of SqlV v \<Rightarrow> NullV | _ \<Rightarrow> m)"

fun variant_eq :: "'v mixed \<Rightarrow> 'v mixed \<Rightarrow> bool" where
  "variant_eq (StrV s) r = (case r of StrV t \<Rightarrow> s = t | CStrV t \<Rightarrow> s = t | _ \<Rightarrow> False)"
| "variant_eq (CStrV s) r = (case r of StrV t \<Rightarrow> s = c_str t | CStrV t \<Rightarrow> s = t | _ \<Rightarrow> False)"
| "variant_eq NullV r = (case r of NullV \<Rightarrow> True | _ \<Rightarrow> False)"
| "variant_eq (IntV n) r = (case r of IntV k \<Rightarrow> n = k | _ \<Rightarrow> False)"
| "variant_eq (Int64V n) r = (case r of Int64V k \<Rightarrow> n = k | _ \<Rightarrow> False)"
| "variant_eq (DoubleV d) r = (case r of DoubleV e \<Rightarrow> double_eq d e | _ \<Rightarrow> False)"
| "variant_eq (SqlV v) r = False"

definition mixed_eq :: "'v sql_value \<Rightarrow> 'v mixed \<Rightarrow> 'v mixed \<Rightarrow> bool" where
  "mixed_eq V a b =
     (case (a, b) of
        (SqlV v, SqlV w) \<Rightarrow> v_type V v = v_type V w \<and> length (v_blob V v) = length (v_blob V w) \<and> v_blob V v = v_blob V w
      | _ \<Rightarrow> variant_eq (variant a) (variant b))"

text \<open>A map of parameters: emplace keeps the value of an existing name.\<close>

type_synonym 'v params = "(string \<times> 'v mixed) list"

definition emplace_param :: "string \<Rightarrow> 'v mixed \<Rightarrow> 'v params \<Rightarrow> 'v params" where
  "emplace_param k v ps = (if map_of ps k = None then ps @ [(k, v)] else ps)"

definition mixed_params :: "'v params \<Rightarrow> 'v params" where
  "mixed_params xs = fold (\<lambda>(k, v) ps. emplace_param k v ps) xs []"

section \<open>Field types\<close>

text \<open>The scalar types T that the templates are made for, their default T{} and comparison.\<close>

datatype sctype = StrT | IntT | Int64T | DoubleT
datatype scalar = TStr string | TInt int | TInt64 int | TDouble double

fun default_of :: "sctype \<Rightarrow> scalar" where
  "default_of StrT = TStr []"
| "default_of IntT = TInt 0"
| "default_of Int64T = TInt64 0"
| "default_of DoubleT = TDouble (Finite 0)"

fun type_of :: "scalar \<Rightarrow> sctype" where
  "type_of (TStr _) = StrT"
| "type_of (TInt _) = IntT"
| "type_of (TInt64 _) = Int64T"
| "type_of (TDouble _) = DoubleT"

fun scalar_eq :: "scalar \<Rightarrow> scalar \<Rightarrow> bool" where
  "scalar_eq (TDouble a) (TDouble b) = double_eq a b"
| "scalar_eq a b = (a = b)"

fun mixed_of :: "scalar \<Rightarrow> 'v mixed" where
  "mixed_of (TStr s) = StrV s"
| "mixed_of (TInt n) = IntV n"
| "mixed_of (TInt64 n) = Int64V n"
| "mixed_of (TDouble d) = DoubleV d"

fun get_scalar :: "'v sql_value \<Rightarrow> sctype \<Rightarrow> 'v mixed \<Rightarrow> db_exn + scalar" where
  "get_scalar V StrT m = map_sum id TStr (get_string V m)"
| "get_scalar V IntT m = map_sum id TInt (get_int V m)"
| "get_scalar V Int64T m = map_sum id TInt64 (get_int64 V m)"
| "get_scalar V DoubleT m = map_sum id TDouble (get_double V m)"

text \<open>
  NullScalarType and ScalarType have the type, the temporary and the real value, each with the flag that
  it is null, or that it is initialized. A reference to an object has its ID and the pointer found for it.
\<close>

datatype 'j fvalue =
    NullScalar sctype bool scalar bool scalar
  | Scalar sctype bool scalar bool scalar
  | Counter int
  | JsonF "'j option"
  | NullRef string "nat option"
  | Ref string "nat option"

record 'j field =
  f_name :: string
  f_delta :: int
  f_val :: "'j fvalue"

definition is_modified :: "'j field \<Rightarrow> bool" where
  "is_modified f \<longleftrightarrow> f_delta f > 0"

definition set_unmodified :: "'j field \<Rightarrow> 'j field" where
  "set_unmodified f = f\<lparr>f_delta := 0\<rparr>"

definition use_increment :: "'j field \<Rightarrow> bool" where
  "use_increment f = (case f_val f of Counter _ \<Rightarrow> True | _ \<Rightarrow> False)"

definition null_scalar :: "string \<Rightarrow> sctype \<Rightarrow> 'j field" where
  "null_scalar n t = \<lparr>f_name = n, f_delta = 0, f_val = NullScalar t True (default_of t) True (default_of t)\<rparr>"

definition scalar_field :: "string \<Rightarrow> sctype \<Rightarrow> 'j field" where
  "scalar_field n t = \<lparr>f_name = n, f_delta = 0, f_val = Scalar t False (default_of t) False (default_of t)\<rparr>"

definition counter_field :: "string \<Rightarrow> 'j field" where
  "counter_field n = \<lparr>f_name = n, f_delta = 0, f_val = Counter 0\<rparr>"

definition json_field :: "string \<Rightarrow> 'j field" where
  "json_field n = \<lparr>f_name = n, f_delta = 0, f_val = JsonF None\<rparr>"

definition null_ref :: "string \<Rightarrow> 'j field" where
  "null_ref n = \<lparr>f_name = n, f_delta = 0, f_val = NullRef [] None\<rparr>"

definition ref_field :: "string \<Rightarrow> 'j field" where
  "ref_field n = \<lparr>f_name = n, f_delta = 0, f_val = Ref [] None\<rparr>"

text \<open>The setters return whether the value is modified; then they have notified the database.\<close>

fun set_scalar :: "scalar \<Rightarrow> bool \<Rightarrow> 'j field \<Rightarrow> bool \<times> 'j field" where
  "set_scalar v temp f =
     (case f_val f of
        NullScalar t tn tv rn rv \<Rightarrow>
          if \<not> temp \<and> \<not> scalar_eq rv v
          then (True, f\<lparr>f_delta := f_delta f + 1, f_val := NullScalar t False v False v\<rparr>)
          else (False, f\<lparr>f_val := NullScalar t False v rn rv\<rparr>)
      | Scalar t ti tv ri rv \<Rightarrow>
          if \<not> temp \<and> (\<not> ri \<or> \<not> scalar_eq rv v)
          then (True, f\<lparr>f_delta := f_delta f + 1, f_val := Scalar t True v True v\<rparr>)
          else (False, f\<lparr>f_val := Scalar t True v ri rv\<rparr>)
      | _ \<Rightarrow> (False, f))"

fun set_null :: "bool \<Rightarrow> 'j field \<Rightarrow> bool \<times> 'j field" where
  "set_null temp f =
     (case f_val f of
        NullScalar t tn tv rn rv \<Rightarrow>
          if \<not> temp \<and> \<not> rn then (True, f\<lparr>f_delta := f_delta f + 1, f_val := NullScalar t True tv True rv\<rparr>)
          else (False, f\<lparr>f_val := NullScalar t True tv rn rv\<rparr>)
      | _ \<Rightarrow> (False, f))"

fun delta_value :: "int \<Rightarrow> 'j field \<Rightarrow> bool \<times> 'j field" where
  "delta_value d f =
     (case f_val f of
        Counter n \<Rightarrow> if d = 0 then (False, f) else (True, f\<lparr>f_delta := f_delta f + d, f_val := Counter (n + d)\<rparr>)
      | _ \<Rightarrow> (False, f))"

fun set_json :: "'j option \<Rightarrow> 'j field \<Rightarrow> bool \<times> 'j field" where
  "set_json j f = (case f_val f of JsonF _ \<Rightarrow> (True, f\<lparr>f_delta := f_delta f + 1, f_val := JsonF j\<rparr>) | _ \<Rightarrow> (False, f))"

text \<open>SetObject of a reference: the object is given by its pointer and its ID.\<close>

fun set_object :: "nat \<Rightarrow> string \<Rightarrow> 'j field \<Rightarrow> bool \<times> 'j field" where
  "set_object p i f =
     (case f_val f of
        NullRef s q \<Rightarrow> if s = i then (False, f\<lparr>f_val := NullRef s (Some p)\<rparr>)
                       else (True, f\<lparr>f_delta := f_delta f + 1, f_val := NullRef i (Some p)\<rparr>)
      | Ref s q \<Rightarrow> if s = i then (False, f\<lparr>f_val := Ref s (Some p)\<rparr>)
                   else (True, f\<lparr>f_delta := f_delta f + 1, f_val := Ref i (Some p)\<rparr>)
      | _ \<Rightarrow> (False, f))"

fun clear_object :: "'j field \<Rightarrow> bool \<times> 'j field" where
  "clear_object f =
     (case f_val f of
        NullRef s q \<Rightarrow> if s = [] then (False, f) else (True, f\<lparr>f_delta := f_delta f + 1, f_val := NullRef [] None\<rparr>)
      | _ \<Rightarrow> (False, f))"

text \<open>The constructors with a default value, which they set.\<close>

definition with_default :: "scalar \<Rightarrow> 'j field \<Rightarrow> 'j field" where
  "with_default v f = snd (set_scalar v False (f\<lparr>f_delta := 1\<rparr>))"

definition with_json :: "'j \<Rightarrow> 'j field \<Rightarrow> 'j field" where
  "with_json j f = snd (set_json (Some j) (f\<lparr>f_delta := 1\<rparr>))"

text \<open>TryGetValue and GetValue.\<close>

fun try_get :: "bool \<Rightarrow> 'j fvalue \<Rightarrow> scalar option" where
  "try_get temp (NullScalar t tn tv rn rv) = (if temp then (if tn then None else Some tv) else (if rn then None else Some rv))"
| "try_get temp _ = None"

fun get_value :: "bool \<Rightarrow> 'j field \<Rightarrow> db_exn + scalar" where
  "get_value temp f =
     (case f_val f of
        Scalar t ti tv ri rv \<Rightarrow>
          if \<not> (if temp then ti else ri) then Inl (Uninitialized (f_name f)) else Inr (if temp then tv else rv)
      | _ \<Rightarrow> Inl (Uninitialized (f_name f)))"

section \<open>Exchange with the database\<close>

text \<open>The JSON library: parse with the text of its exception, and dump.\<close>

record 'j json_lib =
  j_parse :: "string \<Rightarrow> string + 'j"
  j_dump :: "'j \<Rightarrow> string"

text \<open>get_to twice, into the temporary and the real value; the first may throw.\<close>

fun init_db_value :: "'v sql_value \<Rightarrow> 'j json_lib \<Rightarrow> 'v mixed \<Rightarrow> 'j field \<Rightarrow> (db_exn + unit) \<times> 'j field" where
  "init_db_value V J m f =
     (case f_val f of
        NullScalar t tn tv rn rv \<Rightarrow>
          (let n = is_null V m; f = f\<lparr>f_delta := 0, f_val := NullScalar t n tv n rv\<rparr>
           in if n then (Inr (), f)
              else (case get_scalar V t m of Inl e \<Rightarrow> (Inl e, f) | Inr v \<Rightarrow> (Inr (), f\<lparr>f_val := NullScalar t n v n v\<rparr>)))
      | Scalar t ti tv ri rv \<Rightarrow>
          if is_null V m then (Inl (DBValueNull (f_name f)), f)
          else (let f = f\<lparr>f_delta := 0, f_val := Scalar t True tv True rv\<rparr>
                in case get_scalar V t m of Inl e \<Rightarrow> (Inl e, f) | Inr v \<Rightarrow> (Inr (), f\<lparr>f_val := Scalar t True v True v\<rparr>))
      | Counter n \<Rightarrow>
          (let f = f\<lparr>f_delta := 0\<rparr>
           in case get_int V m of Inl e \<Rightarrow> (Inl e, f) | Inr k \<Rightarrow> (Inr (), f\<lparr>f_val := Counter k\<rparr>))
      | JsonF j \<Rightarrow>
          (let f = f\<lparr>f_delta := 0\<rparr>
           in if is_null V m then (Inr (), f\<lparr>f_val := JsonF None\<rparr>)
              else case get_string V m of Inl e \<Rightarrow> (Inl e, f)
                   | Inr s \<Rightarrow> (case j_parse J s of Inl e \<Rightarrow> (Inl (JsonDecode e), f) | Inr x \<Rightarrow> (Inr (), f\<lparr>f_val := JsonF (Some x)\<rparr>)))
      | NullRef s q \<Rightarrow>
          (let f = f\<lparr>f_delta := 0\<rparr>
           in if is_null V m then (Inr (), f)
              else case get_string V m of Inl e \<Rightarrow> (Inl e, f) | Inr i \<Rightarrow> (Inr (), f\<lparr>f_val := NullRef i q\<rparr>))
      | Ref s q \<Rightarrow>
          if is_null V m then (Inl (DBValueNull (f_name f)), f)
          else (let f = f\<lparr>f_delta := 0\<rparr>
                in case get_string V m of Inl e \<Rightarrow> (Inl e, f) | Inr i \<Rightarrow> (Inr (), f\<lparr>f_val := Ref i q\<rparr>)))"

fun get_db_value :: "'j json_lib \<Rightarrow> 'j field \<Rightarrow> db_exn + 'v mixed" where
  "get_db_value J f =
     (case f_val f of
        NullScalar t tn tv rn rv \<Rightarrow> Inr (if rn then NullV else mixed_of rv)
      | Scalar t ti tv ri rv \<Rightarrow> if \<not> ri then Inl (Uninitialized (f_name f)) else Inr (mixed_of rv)
      | Counter n \<Rightarrow> Inr (IntV (f_delta f))
      | JsonF j \<Rightarrow> Inr (case j of None \<Rightarrow> NullV | Some x \<Rightarrow> StrV (j_dump J x))
      | NullRef s q \<Rightarrow> Inr (if s = [] then NullV else StrV s)
      | Ref s q \<Rightarrow> if s = [] then Inl (Uninitialized (f_name f)) else Inr (StrV s))"

section \<open>Laws\<close>

lemma int_str_nat [simp]: "int_str (int n) = nat_str n"
  by (simp add: int_str_def)

lemma mixed_eq_refl: "m \<noteq> DoubleV NaN \<Longrightarrow> mixed_eq V m m"
  by (cases m) (auto simp: mixed_eq_def variant_def double_eq_def)

text \<open>A value of sqlite, whatever it is, equals the null of a variant.\<close>

lemma sqlite_equals_null: "mixed_eq V (SqlV v) NullV \<and> mixed_eq V NullV (SqlV v)"
  by (simp add: mixed_eq_def variant_def)

text \<open>A string with a zero byte compares differently from the left and from the right.\<close>

lemma cstring_not_symmetric:
  "mixed_eq V (CStrV ''a'') (StrV [CHR ''a'', nul, CHR ''b'']) \<and> \<not> mixed_eq V (StrV [CHR ''a'', nul, CHR ''b'']) (CStrV ''a'')"
  by (simp add: mixed_eq_def variant_def c_str_def nul_def)

text \<open>An empty string that sqlite gives back is null to the code, so a field that must not be null refuses it.\<close>

lemma empty_string_refused:
  assumes "f_val f = Scalar StrT ti tv ri rv" and "v_blob V v = []"
  shows "fst (init_db_value V J (SqlV v) f) = Inl (DBValueNull (f_name f))"
  using assms by (simp add: is_null_def)

fun typed :: "'j fvalue \<Rightarrow> bool" where
  "typed (NullScalar t tn tv rn rv) \<longleftrightarrow> type_of tv = t \<and> type_of rv = t"
| "typed (Scalar t ti tv ri rv) \<longleftrightarrow> type_of tv = t \<and> type_of rv = t"
| "typed _ \<longleftrightarrow> True"

fun blank :: "'j field \<Rightarrow> 'j field" where
  "blank f =
     (case f_val f of
        NullScalar t tn tv rn rv \<Rightarrow> null_scalar (f_name f) t
      | Scalar t ti tv ri rv \<Rightarrow> scalar_field (f_name f) t
      | Counter n \<Rightarrow> counter_field (f_name f)
      | JsonF j \<Rightarrow> json_field (f_name f)
      | NullRef s q \<Rightarrow> null_ref (f_name f)
      | Ref s q \<Rightarrow> ref_field (f_name f))"

lemma is_null_variant [simp]: "is_null V (mixed_of v) = False" "is_null V NullV = True" "is_null V (StrV s) = False"
  by (cases v; simp add: is_null_def)+

lemma get_scalar_of [simp]: "type_of v = t \<Longrightarrow> get_scalar V t (mixed_of v) = Inr v"
  by (cases v) auto

lemma default_typed [simp]: "type_of (default_of t) = t"
  by (cases t) auto

text \<open>
  What sqlite documents of values: what was bound to a column is what a later SELECT gives back for
  it (back), a null as one without bytes, a number as one whose text is not empty. The number of
  bytes of a blob is an int, and a double that is not a number is stored as null.
\<close>

definition sql_stores :: "'v sql_value \<Rightarrow> ('v binding \<Rightarrow> 'v) \<Rightarrow> bool" where
  "sql_stores V back \<longleftrightarrow>
     v_blob V (back BindNull) = [] \<and>
     (\<forall>s. length s < 2 ^ 31 \<longrightarrow> v_blob V (back (BindBlob s (int (length s)))) = s) \<and>
     (\<forall>n. - (2 ^ 31) \<le> n \<longrightarrow> n < 2 ^ 31 \<longrightarrow> v_blob V (back (BindInt n)) \<noteq> [] \<and> v_int V (back (BindInt n)) = n) \<and>
     (\<forall>n. - (2 ^ 63) \<le> n \<longrightarrow> n < 2 ^ 63 \<longrightarrow> v_blob V (back (BindInt64 n)) \<noteq> [] \<and> v_int64 V (back (BindInt64 n)) = n) \<and>
     (\<forall>d. d \<noteq> NaN \<longrightarrow> v_blob V (back (BindDouble d)) \<noteq> [] \<and> v_double V (back (BindDouble d)) = d)"

text \<open>Values that their C++ type can hold and sqlite can keep; an empty string comes back as null.\<close>

definition storable :: "'v mixed \<Rightarrow> bool" where
  "storable m \<longleftrightarrow>
     (case m of StrV s \<Rightarrow> s \<noteq> [] \<and> length s < 2 ^ 31 | IntV n \<Rightarrow> - (2 ^ 31) \<le> n \<and> n < 2 ^ 31
      | Int64V n \<Rightarrow> - (2 ^ 63) \<le> n \<and> n < 2 ^ 63 | DoubleV d \<Rightarrow> d \<noteq> NaN | _ \<Rightarrow> True)"

lemma stored_null:
  assumes "sql_stores V back" and "storable (mixed_of v)"
  shows "v_blob V (back (mv_bind (mixed_of v))) \<noteq> []"
    and "type_of v = t \<Longrightarrow> get_scalar V t (SqlV (back (mv_bind (mixed_of v)))) = Inr v"
  using assms by (cases v; auto simp: sql_stores_def storable_def to_int32_def)+

text \<open>C22: What a field, other than a counter, writes to the database, bound to a statement and given back by sqlite, a new field of the same kind reads as the same value, and it is then unmodified; the value must not be an empty string, which comes back as null, a string of 2 GiB or more, or NaN.\<close>

theorem field_reload:
  assumes "typed (f_val f)" and "\<not> use_increment f" and "\<forall>x. j_parse J (j_dump J x) = Inr x" and "get_db_value J f = Inr m"
    and "sql_stores V back" and "storable m"
  shows "\<exists>g. init_db_value V J (SqlV (back (mv_bind m))) (blank f) = (Inr (), g) \<and> get_db_value J g = Inr m \<and>
    \<not> is_modified g \<and> f_name g = f_name f"
proof -
  note S = stored_null [OF assms(5)]
  have n: "length (v_blob V (back (mv_bind (NullV :: 'b mixed)))) = 0" using assms(5) by (simp add: sql_stores_def)
  have str: "v_blob V (back (mv_bind (StrV s :: 'b mixed))) = s" "s \<noteq> []" if "storable (StrV s :: 'b mixed)" for s
    using assms(5) that by (auto simp: sql_stores_def storable_def to_int32_def)
  show ?thesis using assms(1-4,6) n
    by (cases "f_val f")
      (auto simp: is_modified_def use_increment_def null_scalar_def scalar_field_def json_field_def null_ref_def ref_field_def is_null_def
         S str Let_def simp del: mv_bind.simps split: if_splits option.splits)
qed

definition text_values :: "string sql_value" where
  "text_values = \<lparr>v_type = (\<lambda>_. 3), v_blob = id, v_text = Some, v_int = (\<lambda>_. 0), v_int64 = (\<lambda>_. 0), v_double = (\<lambda>_. Finite 0)\<rparr>"

definition text_json :: "string json_lib" where
  "text_json = \<lparr>j_parse = Inr, j_dump = id\<rparr>"

text \<open>A column that holds nothing or a scalar.\<close>

fun column_text :: "scalar option \<Rightarrow> string" where
  "column_text (Some (TStr s)) = s"
| "column_text None = []"
| "column_text _ = ''1''"

definition column_values :: "scalar option sql_value" where
  "column_values = \<lparr>v_type = (\<lambda>_. 3), v_blob = column_text, v_text = Some \<circ> column_text,
     v_int = (\<lambda>v. case v of Some (TInt n) \<Rightarrow> n | _ \<Rightarrow> 0), v_int64 = (\<lambda>v. case v of Some (TInt64 n) \<Rightarrow> n | _ \<Rightarrow> 0),
     v_double = (\<lambda>v. case v of Some (TDouble d) \<Rightarrow> d | _ \<Rightarrow> Finite 0)\<rparr>"

fun column_of :: "scalar option binding \<Rightarrow> scalar option" where
  "column_of (BindValue v) = v"
| "column_of BindNull = None"
| "column_of (BindBlob s n) = Some (TStr s)"
| "column_of (BindText s) = Some (TStr s)"
| "column_of (BindInt n) = Some (TInt n)"
| "column_of (BindInt64 n) = Some (TInt64 n)"
| "column_of (BindDouble d) = Some (TDouble d)"

lemma column_stores: "sql_stores column_values column_of"
  by (simp add: sql_stores_def column_values_def)

lemma field_reload_witness:
  "\<exists>g. init_db_value column_values text_json (SqlV (Some (TStr ''abc''))) (scalar_field ''name'' StrT) = (Inr (), g) \<and>
     get_db_value text_json g = Inr (StrV ''abc'' :: scalar option mixed) \<and> \<not> is_modified g"
proof -
  let ?f = "snd (set_scalar (TStr ''abc'') False (scalar_field ''name'' StrT))"
  have "typed (f_val ?f)" "\<not> use_increment ?f" "\<forall>x. j_parse text_json (j_dump text_json x) = Inr x"
    "get_db_value text_json ?f = Inr (StrV ''abc'' :: scalar option mixed)" "storable (StrV ''abc'' :: scalar option mixed)"
    by (simp_all add: scalar_field_def use_increment_def text_json_def storable_def)
  from field_reload [OF this(1-4) column_stores this(5)] show ?thesis by (auto simp: scalar_field_def)
qed

text \<open>
  A value that is set to null and back is lost: the field shows it, but gives null to the database and
  does not count as modified by the last call.
\<close>

theorem null_and_back_lost:
  assumes "f_val f = NullScalar t tn tv False v" and "type_of v = t" and "scalar_eq v v"
  shows "let g = snd (set_null False f); (changed, h) = set_scalar v False g in
     \<not> changed \<and> try_get True (f_val h) = Some v \<and> get_db_value J h = Inr (NullV :: 'v mixed)"
  using assms by (simp add: Let_def)

text \<open>The same happens to the default value of the type in a field that is null from the start.\<close>

lemma default_not_stored:
  "t \<noteq> DoubleT \<Longrightarrow> get_db_value J (snd (set_scalar (default_of t) False (null_scalar n t))) = Inr (NullV :: 'v mixed)"
  by (cases t) (simp_all add: null_scalar_def)

text \<open>A counter that goes down does not count as modified.\<close>

lemma decrement_not_modified: "d < 0 \<Longrightarrow> f_delta f = 0 \<Longrightarrow> f_val f = Counter n \<Longrightarrow> \<not> is_modified (snd (delta_value d f))"
  by (simp add: is_modified_def)

end
