(* ===== verification/Query_Builder.thy ===== *)
theory Query_Builder
  imports Db_Value
begin

text \<open>
  The text of an SQL query after FROM, with placeholders for the values
  (src/lib/andromeda/database/QueryBuilder.hpp, QueryBuilder.cpp).
\<close>

section \<open>The class\<close>

record 'v query =
  q_idx :: nat
  q_where :: string
  q_order :: string
  q_desc :: bool
  q_limit_null :: bool
  q_limit :: nat
  q_offset_null :: bool
  q_offset :: nat
  q_params :: "'v params"

definition new_query :: "'v query" where
  "new_query = \<lparr>q_idx = 0, q_where = [], q_order = [], q_desc = False, q_limit_null = True, q_limit = 0,
     q_offset_null = True, q_offset = 0, q_params = []\<rparr>"

definition add_param :: "'v mixed \<Rightarrow> 'v query \<Rightarrow> string \<times> 'v query" where
  "add_param v q =
     (let idx = '':d'' @ nat_str (q_idx q)
      in (idx, q\<lparr>q_idx := uadd (q_idx q) 1, q_params := emplace_param idx v (q_params q)\<rparr>))"

definition escape_wildcards :: "string \<Rightarrow> string" where
  "escape_wildcards s = escape_all s ''_%'' (CHR 0x5C)"

definition q_is_null :: "string \<Rightarrow> string" where
  "q_is_null key = key @ '' IS NULL''"

definition q_not :: "string \<Rightarrow> string" where
  "q_not arg = ''(NOT '' @ arg @ '')''"

definition q_or :: "string list \<Rightarrow> string" where
  "q_or args = ''('' @ implode '' OR '' args @ '')''"

definition q_and :: "string list \<Rightarrow> string" where
  "q_and args = ''('' @ implode '' AND '' args @ '')''"

definition q_compare :: "string \<Rightarrow> string \<Rightarrow> 'v mixed \<Rightarrow> 'v query \<Rightarrow> string \<times> 'v query" where
  "q_compare op key v q = (let (p, q') = add_param v q in (key @ op @ p, q'))"

definition less_than :: "string \<Rightarrow> 'v mixed \<Rightarrow> 'v query \<Rightarrow> string \<times> 'v query" where
  "less_than = q_compare '' < ''"

definition less_than_equals :: "string \<Rightarrow> 'v mixed \<Rightarrow> 'v query \<Rightarrow> string \<times> 'v query" where
  "less_than_equals = q_compare '' <= ''"

definition greater_than :: "string \<Rightarrow> 'v mixed \<Rightarrow> 'v query \<Rightarrow> string \<times> 'v query" where
  "greater_than = q_compare '' > ''"

definition greater_than_equals :: "string \<Rightarrow> 'v mixed \<Rightarrow> 'v query \<Rightarrow> string \<times> 'v query" where
  "greater_than_equals = q_compare '' >= ''"

definition is_true :: "string \<Rightarrow> 'v query \<Rightarrow> string \<times> 'v query" where
  "is_true key = greater_than key (IntV 0)"

text \<open>Equals and NotEquals have an overload for the null pointer.\<close>

definition q_equals :: "string \<Rightarrow> 'v mixed \<Rightarrow> 'v query \<Rightarrow> string \<times> 'v query" where
  "q_equals key v q = (if v = NullV then (q_is_null key, q) else q_compare '' = '' key v q)"

definition not_equals :: "string \<Rightarrow> 'v mixed \<Rightarrow> 'v query \<Rightarrow> string \<times> 'v query" where
  "not_equals key v q = (if v = NullV then (q_not (q_is_null key), q) else q_compare '' <> '' key v q)"

definition like_value :: "bool \<Rightarrow> string \<Rightarrow> string" where
  "like_value has_match val = (if has_match then val else ''%'' @ escape_wildcards val @ ''%'')"

definition like :: "string \<Rightarrow> string \<Rightarrow> bool \<Rightarrow> 'v query \<Rightarrow> string \<times> 'v query" where
  "like key val has_match q =
     (let (p, q') = add_param (StrV (like_value has_match val)) q
      in (key @ '' LIKE '' @ p @ '' ESCAPE '' @ [CHR 0x27, CHR 0x5C, CHR 0x27], q'))"

fun equals_each :: "string \<Rightarrow> string list \<Rightarrow> 'v query \<Rightarrow> string list \<times> 'v query" where
  "equals_each key [] q = ([], q)"
| "equals_each key (v # vs) q =
     (let (s, q1) = q_compare '' = '' key (CStrV v) q; (ss, q2) = equals_each key vs q1 in (s # ss, q2))"

definition many_equals_or :: "string \<Rightarrow> string list \<Rightarrow> 'v query \<Rightarrow> string \<times> 'v query" where
  "many_equals_or key vals q = (let (ss, q') = equals_each key vals q in (q_or ss, q'))"

text \<open>None is the null pointer.\<close>

definition set_where :: "string option \<Rightarrow> 'v query \<Rightarrow> 'v query" where
  "set_where w q =
     (case w of None \<Rightarrow> q\<lparr>q_where := []\<rparr>
      | Some s \<Rightarrow> if s \<noteq> [] \<and> q_where q \<noteq> [] then q\<lparr>q_where := q_and [q_where q, s]\<rparr> else q\<lparr>q_where := s\<rparr>)"

definition set_order :: "string option \<Rightarrow> bool \<Rightarrow> 'v query \<Rightarrow> 'v query" where
  "set_order ord desc q = (case ord of None \<Rightarrow> q\<lparr>q_order := [], q_desc := False\<rparr> | Some s \<Rightarrow> q\<lparr>q_order := s, q_desc := desc\<rparr>)"

definition set_limit :: "nat option \<Rightarrow> 'v query \<Rightarrow> 'v query" where
  "set_limit l q = (case l of None \<Rightarrow> q\<lparr>q_limit_null := True\<rparr> | Some n \<Rightarrow> q\<lparr>q_limit := n, q_limit_null := False\<rparr>)"

definition set_offset :: "nat option \<Rightarrow> 'v query \<Rightarrow> 'v query" where
  "set_offset l q = (case l of None \<Rightarrow> q\<lparr>q_offset_null := True\<rparr> | Some n \<Rightarrow> q\<lparr>q_offset := n, q_offset_null := False\<rparr>)"

definition get_limit :: "'v query \<Rightarrow> nat option" where
  "get_limit q = (if q_limit_null q then None else Some (q_limit q))"

definition get_offset :: "'v query \<Rightarrow> nat option" where
  "get_offset q = (if q_offset_null q then None else Some (q_offset q))"

definition get_text :: "'v query \<Rightarrow> string" where
  "get_text q = trim (
     (if q_where q \<noteq> [] then '' WHERE '' @ q_where q else []) @
     (if q_order q \<noteq> [] then '' ORDER BY '' @ q_order q @ (if q_desc q then '' DESC'' else []) else []) @
     (if \<not> q_limit_null q then '' LIMIT '' @ nat_str (q_limit q) else []) @
     (if \<not> q_offset_null q then '' OFFSET '' @ nat_str (q_offset q) else []))"

section \<open>Conditions\<close>

text \<open>
  What a client can write: conditions over values, evaluated from left to right. The comparisons are
  those of the class, by the text between the column and the value.
\<close>

datatype 'x cond =
    IsNull string
  | Compare string string 'x
  | Like string 'x bool
  | ManyEquals string "'x list"
  | Not "'x cond"
  | Or "'x cond list"
  | And "'x cond list"

text \<open>The values of a condition: strings and numbers, but no null pointer; Like and ManyEquals take strings.\<close>

fun str_of :: "'v mixed \<Rightarrow> string" where
  "str_of (StrV s) = s"
| "str_of (CStrV s) = s"
| "str_of _ = []"

fun eval_cond :: "'v mixed cond \<Rightarrow> 'v query \<Rightarrow> string \<times> 'v query"
  and eval_conds :: "'v mixed cond list \<Rightarrow> 'v query \<Rightarrow> string list \<times> 'v query" where
  "eval_cond (IsNull key) q = (q_is_null key, q)"
| "eval_cond (Compare op key v) q = q_compare op key v q"
| "eval_cond (Like key v m) q = like key (str_of v) m q"
| "eval_cond (ManyEquals key vs) q = many_equals_or key (map str_of vs) q"
| "eval_cond (Not c) q = (let (s, q') = eval_cond c q in (q_not s, q'))"
| "eval_cond (Or cs) q = (let (ss, q') = eval_conds cs q in (q_or ss, q'))"
| "eval_cond (And cs) q = (let (ss, q') = eval_conds cs q in (q_and ss, q'))"
| "eval_conds [] q = ([], q)"
| "eval_conds (c # cs) q = (let (s, q1) = eval_cond c q; (ss, q2) = eval_conds cs q1 in (s # ss, q2))"

text \<open>The values in order, as they are bound.\<close>

fun cond_values :: "'v mixed cond \<Rightarrow> 'v mixed list" where
  "cond_values (IsNull key) = []"
| "cond_values (Compare op key v) = [v]"
| "cond_values (Like key v m) = [StrV (like_value m (str_of v))]"
| "cond_values (ManyEquals key vs) = map (\<lambda>v. CStrV (str_of v)) vs"
| "cond_values (Not c) = cond_values c"
| "cond_values (Or cs) = concat (map cond_values cs)"
| "cond_values (And cs) = concat (map cond_values cs)"

section \<open>Placeholders\<close>

definition placeholder :: "nat \<Rightarrow> string" where
  "placeholder i = '':d'' @ nat_str i"

lemma nat_str_inj: "nat_str a = nat_str b \<Longrightarrow> a = b"
  by (metis nat_str_digits)

lemma placeholder_inj [simp]: "placeholder a = placeholder b \<longleftrightarrow> a = b"
  by (auto simp: placeholder_def dest: nat_str_inj)

text \<open>The parameters are those of the placeholders used so far, each once.\<close>

definition query_ok :: "'v query \<Rightarrow> bool" where
  "query_ok q \<longleftrightarrow> map fst (q_params q) = map placeholder [0 ..< q_idx q]"

text \<open>q' has the values vs bound to the next placeholders, and is q otherwise.\<close>

definition binds :: "'v query \<Rightarrow> 'v mixed list \<Rightarrow> 'v query \<Rightarrow> bool" where
  "binds q vs q' \<longleftrightarrow>
     q' = q\<lparr>q_idx := q_idx q + length vs, q_params := q_params q @ zip (map placeholder [q_idx q ..< q_idx q + length vs]) vs\<rparr>"

lemma binds_ok: "query_ok q \<Longrightarrow> binds q vs q' \<Longrightarrow> query_ok q' \<and> q_idx q' = q_idx q + length vs"
  using upt_add_eq_append [of 0 "q_idx q" "length vs"] by (simp add: query_ok_def binds_def)

lemma binds_refl [simp]: "binds q [] q"
  by (simp add: binds_def)

lemma binds_trans: "binds q vs q1 \<Longrightarrow> binds q1 ws q2 \<Longrightarrow> binds q (vs @ ws) q2"
  using upt_add_eq_append [of "q_idx q" "q_idx q + length vs" "length ws"] by (simp add: binds_def add.assoc)

lemma add_param_binds:
  assumes "query_ok q" and "q_idx q + 1 < 2 ^ 64"
  shows "fst (add_param v q) = placeholder (q_idx q)" and "binds q [v] (snd (add_param v q))"
proof -
  have "placeholder (q_idx q) \<notin> set (map fst (q_params q))" using assms(1) by (auto simp: query_ok_def)
  then have "map_of (q_params q) (placeholder (q_idx q)) = None" by (simp add: map_of_eq_None_iff)
  then show "fst (add_param v q) = placeholder (q_idx q)" "binds q [v] (snd (add_param v q))"
    using assms(2) by (simp_all add: add_param_def Let_def binds_def emplace_param_def placeholder_def uadd_small)
qed

text \<open>The text of a condition depends on its values only through their number.\<close>

fun render :: "'x cond \<Rightarrow> nat \<Rightarrow> string \<times> nat"
  and renders :: "'x cond list \<Rightarrow> nat \<Rightarrow> string list \<times> nat" where
  "render (IsNull key) i = (q_is_null key, i)"
| "render (Compare op key v) i = (key @ op @ placeholder i, i + 1)"
| "render (Like key v m) i = (key @ '' LIKE '' @ placeholder i @ '' ESCAPE '' @ [CHR 0x27, CHR 0x5C, CHR 0x27], i + 1)"
| "render (ManyEquals key vs) i = (q_or (map (\<lambda>j. key @ '' = '' @ placeholder j) [i ..< i + length vs]), i + length vs)"
| "render (Not c) i = (let (s, j) = render c i in (q_not s, j))"
| "render (Or cs) i = (let (ss, j) = renders cs i in (q_or ss, j))"
| "render (And cs) i = (let (ss, j) = renders cs i in (q_and ss, j))"
| "renders [] i = ([], i)"
| "renders (c # cs) i = (let (s, j) = render c i; (ss, k) = renders cs j in (s # ss, k))"

lemma render_shape:
  fixes c :: "'x cond" and cs :: "'x cond list" and f :: "'x \<Rightarrow> 'y"
  shows "render (map_cond f c) i = render c i" and "renders (map (map_cond f) cs) i = renders cs i"
  by (induction c i and cs i rule: render_renders.induct) (auto simp: Let_def split: prod.splits)

lemma equals_each_spec:
  "query_ok q \<Longrightarrow> q_idx q + length vs < 2 ^ 64 \<Longrightarrow>
   fst (equals_each key vs q) = map (\<lambda>j. key @ '' = '' @ placeholder j) [q_idx q ..< q_idx q + length vs] \<and>
   binds q (map CStrV vs) (snd (equals_each key vs q))"
proof (induction vs arbitrary: q)
  case (Cons v vs)
  obtain p q1 where p: "add_param (CStrV v) q = (p, q1)" by force
  have e: "p = placeholder (q_idx q)" "binds q [CStrV v] q1" using add_param_binds [OF Cons.prems(1), of "CStrV v"] Cons.prems(2) p by auto
  note k = binds_ok [OF Cons.prems(1) e(2)]
  have "fst (equals_each key vs q1) = map (\<lambda>j. key @ '' = '' @ placeholder j) [q_idx q1 ..< q_idx q1 + length vs] \<and>
      binds q1 (map CStrV vs) (snd (equals_each key vs q1))"
    using Cons.prems(2) k by (intro Cons.IH) auto
  then show ?case using k e binds_trans [OF e(2), of "map CStrV vs"]
    by (cases "equals_each key vs q1") (simp add: q_compare_def p Let_def upt_conv_Cons del: upt_Suc)
qed simp

lemma eval_cond_spec:
  shows "query_ok q \<Longrightarrow> q_idx q + length (cond_values c) < 2 ^ 64 \<Longrightarrow>
      (\<exists>q'. eval_cond c q = (fst (render c (q_idx q)), q') \<and> binds q (cond_values c) q' \<and>
        snd (render c (q_idx q)) = q_idx q + length (cond_values c))"
    and "query_ok q \<Longrightarrow> q_idx q + length (concat (map cond_values cs)) < 2 ^ 64 \<Longrightarrow>
      (\<exists>q'. eval_conds cs q = (fst (renders cs (q_idx q)), q') \<and> binds q (concat (map cond_values cs)) q' \<and>
        snd (renders cs (q_idx q)) = q_idx q + length (concat (map cond_values cs)))"
proof (induction c q and cs q rule: eval_cond_eval_conds.induct)
  case (2 op key v q)
  then show ?case using add_param_binds [OF 2(1), of v] by (cases "add_param v q") (auto simp: q_compare_def)
next
  case (3 key v m q)
  then show ?case using add_param_binds [OF 3(1), of "StrV (like_value m (str_of v))"]
    by (cases "add_param (StrV (like_value m (str_of v))) q") (auto simp: like_def)
next
  case (4 key vs q)
  then show ?case using equals_each_spec [OF 4(1), of "map str_of vs" key]
    by (cases "equals_each key (map str_of vs) q") (auto simp: many_equals_or_def comp_def)
next
  case (9 c cs q)
  then obtain q1 where q1: "eval_cond c q = (fst (render c (q_idx q)), q1)" "binds q (cond_values c) q1"
      "snd (render c (q_idx q)) = q_idx q + length (cond_values c)" by auto
  note k = binds_ok [OF 9(3) q1(2)]
  obtain q2 where q2: "eval_conds cs q1 = (fst (renders cs (q_idx q1)), q2)" "binds q1 (concat (map cond_values cs)) q2"
      "snd (renders cs (q_idx q1)) = q_idx q1 + length (concat (map cond_values cs))"
    using 9(2) [OF q1(1) [symmetric] refl] k 9(4) by auto
  show ?case using q1 q2 k binds_trans [OF q1(2) q2(2)]
    by (cases "render c (q_idx q)"; cases "renders cs (q_idx q1)") (auto simp: Let_def)
qed (auto simp: Let_def split: prod.splits)

text \<open>C20: the text of a condition does not depend on the values in it, so no value can change the meaning of a
  query; and every placeholder in it is bound, once, to its value.
\<close>

theorem query_text_value_free:
  assumes "query_ok q" and "q_idx q + length (cond_values c) < 2 ^ 64" and "q_idx q + length (cond_values d) < 2 ^ 64"
    and "map_cond (\<lambda>_. ()) c = map_cond (\<lambda>_. ()) d"
  shows "fst (eval_cond c q) = fst (eval_cond d q) \<and>
    q_params (snd (eval_cond c q)) =
      q_params q @ zip (map placeholder [q_idx q ..< q_idx q + length (cond_values c)]) (cond_values c) \<and>
    distinct (map fst (q_params (snd (eval_cond c q))))"
proof (intro conjI)
  have r: "render c i = render d i" for i using render_shape(1) [of "\<lambda>_. ()" c i] render_shape(1) [of "\<lambda>_. ()" d i] assms(4) by simp
  obtain q1 q2 where q: "eval_cond c q = (fst (render c (q_idx q)), q1)" "binds q (cond_values c) q1"
      "eval_cond d q = (fst (render d (q_idx q)), q2)"
    using eval_cond_spec(1) [OF assms(1,2)] eval_cond_spec(1) [OF assms(1,3)] by blast
  then show "fst (eval_cond c q) = fst (eval_cond d q)" using r by simp
  show "q_params (snd (eval_cond c q)) =
      q_params q @ zip (map placeholder [q_idx q ..< q_idx q + length (cond_values c)]) (cond_values c)"
    using q by (simp add: binds_def)
  show "distinct (map fst (q_params (snd (eval_cond c q))))"
    using binds_ok [OF assms(1) q(2)] q(1) by (simp add: query_ok_def distinct_map inj_on_def)
qed

lemma new_query_ok [simp]: "query_ok new_query"
  by (simp add: query_ok_def new_query_def)

lemma query_text_value_free_witness:
  "fst (eval_cond (And [Compare '' = '' ''a'' (StrV ''x'' :: string mixed), Like ''b'' (StrV ''y'') False]) new_query) =
   fst (eval_cond (And [Compare '' = '' ''a'' (StrV ''1 OR 1'' :: string mixed), Like ''b'' (StrV ''%'') False]) new_query)"
  by (rule conjunct1 [OF query_text_value_free]) (simp_all add: new_query_def query_ok_def)

text \<open>A pattern from EscapeWildcards stands for the string itself.\<close>

lemma escaped_literal: "unescape (CHR 0x5C) (escape_wildcards s) = s"
  unfolding escape_wildcards_def by (rule unescape_escape_all) simp_all

end
