(* ===== verification/Sqlite_Db.thy ===== *)
theory Sqlite_Db
  imports Query_Builder
begin

text \<open>
  The connection to sqlite (src/lib/andromeda/database/SqliteDatabase.cpp). The functions of libsqlite3 are a
  parameter; they work on a connection of type 'h and on statements of type 's.
\<close>

section \<open>libsqlite3\<close>

text \<open>
  The result codes are numbers, 0 is SQLITE_OK. l_rows are the answers of sqlite3_step until it gives
  something else than a row: the rows, with the names and values of their columns, and the last code.
\<close>

record ('h, 's, 'v) sqlite_lib =
  l_open :: "string \<Rightarrow> 'h \<Rightarrow> nat \<times> 'h"
  l_close :: "'h \<Rightarrow> nat \<times> 'h"
  l_prepare :: "string \<Rightarrow> 'h \<Rightarrow> nat \<times> 's option \<times> 'h"
  l_index :: "'s \<Rightarrow> string \<Rightarrow> nat"
  l_bind :: "'s \<Rightarrow> nat \<Rightarrow> 'v binding \<Rightarrow> nat \<times> 's"
  l_rows :: "'s \<Rightarrow> 'h \<Rightarrow> (string \<times> 'v) list list \<times> nat \<times> 's \<times> 'h"
  l_finalize :: "'s \<Rightarrow> 'h \<Rightarrow> nat \<times> 'h"
  l_changes :: "'h \<Rightarrow> nat"
  l_autocommit :: "'h \<Rightarrow> bool"
  l_errmsg :: "nat \<Rightarrow> 'h \<Rightarrow> string"

definition SQLITE_DONE :: nat where
  "SQLITE_DONE = 101"

section \<open>Queries\<close>

text \<open>check_rc: the message is taken first, then a handler runs, then it throws.\<close>

definition check_rc :: "('h, 's, 'v) sqlite_lib \<Rightarrow> nat \<Rightarrow> ('h \<Rightarrow> 'h) \<Rightarrow> 'h \<Rightarrow> (db_exn + unit) \<times> 'h" where
  "check_rc lib rc handler h = (if rc \<noteq> 0 then (Inl (SqliteError (l_errmsg lib rc h)), handler h) else (Inr (), h))"

fun bind_params :: "('h, 's, 'v) sqlite_lib \<Rightarrow> 'v params \<Rightarrow> 's \<Rightarrow> 'h \<Rightarrow> (db_exn + 's) \<times> 'h" where
  "bind_params lib [] st h = (Inr st, h)"
| "bind_params lib ((name, v) # ps) st h =
     (let idx = l_index lib st name;
          (rc, st) = l_bind lib st idx (mv_bind v)
      in bindR (check_rc lib rc (\<lambda>h. snd (l_finalize lib st h)) h) (\<lambda>_ h. bind_params lib ps st h))"

type_synonym 'v row = "'v params"

definition read_row :: "(string \<times> 'v) list \<Rightarrow> 'v row" where
  "read_row cols = fold (\<lambda>(name, v) row. emplace_param name (SqlV v) row) cols []"

definition lib_query :: "('h, 's, 'v) sqlite_lib \<Rightarrow> string \<Rightarrow> 'v params \<Rightarrow> 'h \<Rightarrow> (db_exn + nat \<times> 'v row list) \<times> 'h" where
  "lib_query lib sql params h =
     (let (rc, stmt, h) = l_prepare lib sql h in
      bindR (check_rc lib rc id h) (\<lambda>_ h.
        case stmt of None \<Rightarrow> (Inl (SqliteError ''statement is nullptr''), h)
        | Some st \<Rightarrow>
            bindR (bind_params lib params st h) (\<lambda>st h.
              let (rows, rc, st, h) = l_rows lib st h;
                  rc = (if rc = SQLITE_DONE then 0 else rc)
              in bindR (check_rc lib rc (\<lambda>h. snd (l_finalize lib st h)) h) (\<lambda>_ h.
                   let (rc, h) = l_finalize lib st h
                   in bindR (check_rc lib rc id h) (\<lambda>_ h. (Inr (l_changes lib h, map read_row rows), h))))))"

text \<open>What the rest of the program uses: queries, and whether a transaction is open.\<close>

record ('h, 'v) sql =
  s_query :: "string \<Rightarrow> 'v params \<Rightarrow> 'h \<Rightarrow> (db_exn + nat \<times> 'v row list) \<times> 'h"
  s_autocommit :: "'h \<Rightarrow> bool"

definition sql_of_lib :: "('h, 's, 'v) sqlite_lib \<Rightarrow> ('h, 'v) sql" where
  "sql_of_lib lib = \<lparr>s_query = lib_query lib, s_autocommit = l_autocommit lib\<rparr>"

text \<open>The query without rows.\<close>

definition exec :: "('h, 'v) sql \<Rightarrow> string \<Rightarrow> 'v params \<Rightarrow> 'h \<Rightarrow> (db_exn + nat) \<times> 'h" where
  "exec db sql params h =
     bindR (s_query db sql params h) (\<lambda>(n, rows) h.
       if rows \<noteq> [] then (Inl (SqliteError ''non-empty rows!''), h) else (Inr n, h))"

section \<open>Transactions\<close>

definition begin_sql :: string where "begin_sql = ''BEGIN TRANSACTION''"
definition commit_sql :: string where "commit_sql = ''COMMIT TRANSACTION''"
definition rollback_sql :: string where "rollback_sql = ''ROLLBACK TRANSACTION''"

text \<open>
  transaction runs a function on a state that the connection is a part of: auto says whether no transaction
  is open, q makes a query.
\<close>

definition transaction :: "('x \<Rightarrow> bool) \<Rightarrow> (string \<Rightarrow> 'x \<Rightarrow> (db_exn + nat) \<times> 'x) \<Rightarrow> ('x \<Rightarrow> (db_exn + unit) \<times> 'x) \<Rightarrow> 'x \<Rightarrow> (db_exn + unit) \<times> 'x" where
  "transaction auto q func x =
     (if \<not> auto x then (Inl TransactionError, x)
      else bindR (q begin_sql x) (\<lambda>_ x.
        case bindR (func x) (\<lambda>_ x. bindR (q commit_sql x) (\<lambda>_ x. (Inr (), x))) of
          (Inr u, x) \<Rightarrow> (Inr u, x)
        | (Inl e, x) \<Rightarrow> if is_db_exn e then bindR (q rollback_sql x) (\<lambda>_ x. (Inl e, x)) else (Inl e, x)))"

definition begin_transaction :: "('h, 'v) sql \<Rightarrow> 'h \<Rightarrow> (db_exn + unit) \<times> 'h" where
  "begin_transaction db h =
     (if \<not> s_autocommit db h then (Inl TransactionError, h) else bindR (exec db begin_sql [] h) (\<lambda>_ h. (Inr (), h)))"

definition rollback :: "('h, 'v) sql \<Rightarrow> 'h \<Rightarrow> (db_exn + unit) \<times> 'h" where
  "rollback db h =
     (if s_autocommit db h then (Inl TransactionError, h) else bindR (exec db rollback_sql [] h) (\<lambda>_ h. (Inr (), h)))"

definition commit :: "('h, 'v) sql \<Rightarrow> 'h \<Rightarrow> (db_exn + unit) \<times> 'h" where
  "commit db h =
     (if s_autocommit db h then (Inl TransactionError, h) else bindR (exec db commit_sql [] h) (\<lambda>_ h. (Inr (), h)))"

section \<open>Version, opening and closing\<close>

text \<open>The first column of the first row; that there is one is what the code relies on.\<close>

definition get_version :: "'v sql_value \<Rightarrow> ('h, 'v) sql \<Rightarrow> 'h \<Rightarrow> (db_exn + int) \<times> 'h" where
  "get_version V db h =
     bindR (s_query db ''PRAGMA user_version'' [] h) (\<lambda>(n, rows) h.
       case rows of ((name, v) # cols) # rs \<Rightarrow> (get_int V v, h) | _ \<Rightarrow> (Inl OutOfRange, h))"

definition set_version :: "('h, 'v) sql \<Rightarrow> int \<Rightarrow> 'h \<Rightarrow> (db_exn + nat) \<times> 'h" where
  "set_version db n h = exec db (''PRAGMA user_version = '' @ int_str n) [] h"

text \<open>The constructor, with debug output off.\<close>

definition open_db :: "'v sql_value \<Rightarrow> ('h, 's, 'v) sqlite_lib \<Rightarrow> string \<Rightarrow> 'h \<Rightarrow> (db_exn + unit) \<times> 'h" where
  "open_db V lib path h =
     (let (rc, h) = l_open lib path h; db = sql_of_lib lib in
      bindR (check_rc lib rc (\<lambda>h. snd (l_close lib h)) h) (\<lambda>_ h.
      bindR (exec db ''PRAGMA foreign_keys = true'' [] h) (\<lambda>_ h.
      bindR (exec db ''PRAGMA trusted_schema = false'' [] h) (\<lambda>_ h.
      bindR (s_query db ''PRAGMA journal_mode = TRUNCATE'' [] h) (\<lambda>_ h.
      bindR (get_version V db h) (\<lambda>_ h. (Inr (), h)))))))"

definition close_db :: "('h, 's, 'v) sqlite_lib \<Rightarrow> 'h \<Rightarrow> 'h" where
  "close_db lib h =
     (let db = sql_of_lib lib;
          h = (if \<not> l_autocommit lib h then snd (exec db rollback_sql [] h) else h);
          h = snd (exec db ''PRAGMA optimize'' [] h)
      in snd (l_close lib h))"

section \<open>No statement is left open\<close>

text \<open>n counts the statements that are prepared and not finalized.\<close>

definition counts_statements :: "('h, 's, 'v) sqlite_lib \<Rightarrow> ('h \<Rightarrow> int) \<Rightarrow> bool" where
  "counts_statements lib n \<longleftrightarrow>
     (\<forall>sql h rc st h'. l_prepare lib sql h = (rc, st, h') \<longrightarrow>
        n h' = n h + (if st = None then 0 else 1) \<and> (rc \<noteq> 0 \<longrightarrow> st = None)) \<and>
     (\<forall>st h. n (snd (l_finalize lib st h)) = n h - 1) \<and>
     (\<forall>st h. n (snd (snd (snd (l_rows lib st h)))) = n h)"

lemma counts_statementsD:
  assumes "counts_statements lib n"
  shows "l_prepare lib sql h = (rc, Some st, h') \<Longrightarrow> n h' = n h + 1 \<and> rc = 0"
    and "l_prepare lib sql h = (rc, None, h') \<Longrightarrow> n h' = n h"
    and "n (snd (l_finalize lib st h)) = n h - 1"
    and "l_rows lib st h = (rows, rc, st', h') \<Longrightarrow> n h' = n h"
  using assms unfolding counts_statements_def by (fastforce, fastforce, simp, (metis snd_conv))

lemma check_rc_cases [simp]:
  "check_rc lib 0 f h = (Inr (), h)"
  "rc \<noteq> 0 \<Longrightarrow> check_rc lib rc f h = (Inl (SqliteError (l_errmsg lib rc h)), f h)"
  by (simp_all add: check_rc_def)

lemma bind_params_count:
  assumes "counts_statements lib n"
  shows "n (snd (bind_params lib ps st h)) = (if isl (fst (bind_params lib ps st h)) then n h - 1 else n h)"
proof (induction ps arbitrary: st)
  case (Cons x ps)
  obtain name v where x: "x = (name, v)" by force
  obtain rc st' where b: "l_bind lib st (l_index lib st name) (mv_bind v) = (rc, st')" by force
  show ?case using Cons [of st'] counts_statementsD(3) [OF assms, of st' h]
    by (cases "rc = 0") (simp_all add: x b Let_def)
qed simp

text \<open>C21: a query finalizes the statement that it prepared, once, whether it succeeds or fails anywhere.\<close>

theorem query_finalizes:
  assumes "counts_statements lib n"
  shows "n (snd (lib_query lib sql params h)) = n h"
proof -
  note C = counts_statementsD [OF assms]
  obtain rc stmt h1 where p: "l_prepare lib sql h = (rc, stmt, h1)" by (cases "l_prepare lib sql h") auto
  show ?thesis
  proof (cases stmt)
    case None
    then show ?thesis using C(2) [of sql h rc h1] p by (cases "rc = 0") (simp_all add: lib_query_def)
  next
    case (Some st)
    then have h1: "n h1 = n h + 1" "rc = 0" using C(1) [of sql h rc st h1] p by auto
    obtain r h2 where b: "bind_params lib params st h1 = (r, h2)" by force
    have h2: "n h2 = (if isl r then n h else n h + 1)" using bind_params_count [OF assms, of params st h1] h1 b by simp
    show ?thesis
    proof (cases r)
      case (Inl e)
      then show ?thesis using p h1 b h2 Some by (simp add: lib_query_def)
    next
      case (Inr st')
      obtain rows rc2 st2 h3 where s: "l_rows lib st' h2 = (rows, rc2, st2, h3)" by (cases "l_rows lib st' h2") auto
      have h3: "n h3 = n h + 1" using C(4) [OF s] h2 Inr by simp
      obtain rc3 h4 where f: "l_finalize lib st2 h3 = (rc3, h4)" by force
      have h4: "n h4 = n h" using C(3) [of st2 h3] f h3 by simp
      show ?thesis using p h1 b Some Inr s f h4
        by (cases "(if rc2 = SQLITE_DONE then 0 else rc2) = 0"; cases "rc3 = 0") (simp_all add: lib_query_def Let_def)
    qed
  qed
qed

text \<open>A library whose connection is the number of open statements.\<close>

definition toy_lib :: "(int, unit, string) sqlite_lib" where
  "toy_lib = \<lparr>l_open = (\<lambda>p h. (0, h)), l_close = (\<lambda>h. (0, h)), l_prepare = (\<lambda>s h. if s = [] then (1, None, h) else (0, Some (), h + 1)),
     l_index = (\<lambda>st n. 1), l_bind = (\<lambda>st i b. (if b = BindNull then 25 else 0, st)), l_rows = (\<lambda>st h. ([], SQLITE_DONE, st, h)),
     l_finalize = (\<lambda>st h. (0, h - 1)), l_changes = (\<lambda>h. 1), l_autocommit = (\<lambda>h. True), l_errmsg = (\<lambda>rc h. ''error'')\<rparr>"

lemma query_finalizes_witness: "id (snd (lib_query toy_lib ''SELECT'' [('':d0'', NullV)] 0)) = id (0 :: int)"
  by (rule query_finalizes) (auto simp: counts_statements_def toy_lib_def)

section \<open>Transactions are all or nothing\<close>

text \<open>
  What sqlite documents of transactions, with the content that a connection would find if the program
  stopped now, for the statements that the program sends. An error inside a transaction may have rolled
  it back already; then ROLLBACK fails.
\<close>

definition dml :: "string \<Rightarrow> bool" where
  "dml text \<longleftrightarrow> take 7 text \<in> {''INSERT '', ''UPDATE '', ''DELETE '', ''SELECT ''}"

definition sql_laws :: "('h, 'v) sql \<Rightarrow> ('h \<Rightarrow> 'c) \<Rightarrow> bool" where
  "sql_laws db durable \<longleftrightarrow>
     (\<forall>text ps h r h'. s_query db text ps h = (r, h') \<longrightarrow>
        (text \<in> {begin_sql, commit_sql, rollback_sql} \<longrightarrow> (\<forall>n rows. r = Inr (n, rows) \<longrightarrow> rows = [])) \<and>
        (if s_autocommit db h
         then (text = begin_sql \<longrightarrow> durable h' = durable h \<and> s_autocommit db h' = isl r) \<and>
              (text = rollback_sql \<longrightarrow> durable h' = durable h \<and> isl r \<and> s_autocommit db h')
         else (dml text \<or> text = rollback_sql \<or> text = commit_sql \<and> isl r \<longrightarrow> durable h' = durable h) \<and>
              (text \<in> {commit_sql, rollback_sql} \<and> \<not> isl r \<longrightarrow> s_autocommit db h') \<and>
              (dml text \<and> \<not> isl r \<longrightarrow> \<not> s_autocommit db h')))"

text \<open>A query on the connection in a larger state.\<close>

definition on_part :: "('x \<Rightarrow> 'h) \<Rightarrow> ('h \<Rightarrow> 'x \<Rightarrow> 'x) \<Rightarrow> ('h \<Rightarrow> 'r \<times> 'h) \<Rightarrow> 'x \<Rightarrow> 'r \<times> 'x" where
  "on_part g put f x = (let (r, h) = f (g x) in (r, put h x))"

lemma on_part_eq: "f (g x) = (r, h) \<Longrightarrow> on_part g put f x = (r, put h x)"
  by (simp add: on_part_def)

lemma exec_laws:
  assumes L: "sql_laws db durable" and e: "exec db text ps h = (r, h')"
  shows "s_autocommit db h \<Longrightarrow> text = begin_sql \<Longrightarrow> durable h' = durable h \<and> s_autocommit db h' = isl r"
    and "s_autocommit db h \<Longrightarrow> text = rollback_sql \<Longrightarrow> durable h' = durable h \<and> isl r \<and> s_autocommit db h'"
    and "\<not> s_autocommit db h \<Longrightarrow> dml text \<or> text = rollback_sql \<Longrightarrow> durable h' = durable h"
    and "\<not> s_autocommit db h \<Longrightarrow> dml text \<Longrightarrow> \<not> isl r \<Longrightarrow> \<not> s_autocommit db h'"
    and "\<not> s_autocommit db h \<Longrightarrow> text \<in> {commit_sql, rollback_sql} \<Longrightarrow> \<not> isl r \<Longrightarrow> s_autocommit db h'"
    and "\<not> s_autocommit db h \<Longrightarrow> text = commit_sql \<Longrightarrow> isl r \<Longrightarrow> durable h' = durable h"
proof -
  obtain r0 where q: "s_query db text ps h = (r0, h')"
    using e by (cases "s_query db text ps h"; cases "fst (s_query db text ps h)") (auto simp: exec_def split: if_splits)
  have r0: "text \<in> {begin_sql, commit_sql, rollback_sql} \<Longrightarrow> isl r = isl r0" and r1: "\<not> isl r \<Longrightarrow> \<not> isl r0"
    using e q L [unfolded sql_laws_def, rule_format, OF q]
    by (cases r0; force simp: exec_def split: prod.splits if_splits)+
  note l = L [unfolded sql_laws_def, rule_format, OF q]
  show "s_autocommit db h \<Longrightarrow> text = begin_sql \<Longrightarrow> durable h' = durable h \<and> s_autocommit db h' = isl r"
    and "s_autocommit db h \<Longrightarrow> text = rollback_sql \<Longrightarrow> durable h' = durable h \<and> isl r \<and> s_autocommit db h'"
    and "\<not> s_autocommit db h \<Longrightarrow> dml text \<or> text = rollback_sql \<Longrightarrow> durable h' = durable h"
    and "\<not> s_autocommit db h \<Longrightarrow> dml text \<Longrightarrow> \<not> isl r \<Longrightarrow> \<not> s_autocommit db h'"
    and "\<not> s_autocommit db h \<Longrightarrow> text \<in> {commit_sql, rollback_sql} \<Longrightarrow> \<not> isl r \<Longrightarrow> s_autocommit db h'"
    and "\<not> s_autocommit db h \<Longrightarrow> text = commit_sql \<Longrightarrow> isl r \<Longrightarrow> durable h' = durable h"
    using l r0 r1 by auto
qed

lemma on_part_exec:
  assumes "q = (\<lambda>text. on_part g put (exec db text []))" and "\<And>h x. g (put h x) = h" and "q text x = (r, x')"
  shows "exec db text [] (g x) = (r, g x')"
  using assms by (auto simp: on_part_def split: prod.splits)

lemma transaction_outcome:
  assumes L: "sql_laws db durable" and g: "\<And>h x. g (put h x) = h"
    and auto: "auto = (\<lambda>x. s_autocommit db (g x))" and q: "q = (\<lambda>text. on_part g put (exec db text []))"
    and func: "\<And>x r x'. \<not> auto x \<Longrightarrow> func x = (r, x') \<Longrightarrow> durable (g x') = durable (g x) \<and> (\<not> isl r \<longrightarrow> \<not> auto x')"
    and t: "transaction auto q func x = (r, x')"
  shows "isl r \<Longrightarrow> durable (g x') = durable (g x)"
    and "\<not> isl r \<Longrightarrow> \<exists>x1 x2 h h'. q begin_sql x = (Inr h, x1) \<and> \<not> auto x1 \<and> func x1 = (Inr (), x2) \<and> q commit_sql x2 = (Inr h', x') \<and> auto x'"
proof -
  note E = exec_laws [OF L on_part_exec [OF q g]]
  have names: "begin_sql \<noteq> commit_sql" "rollback_sql \<noteq> commit_sql" "begin_sql \<noteq> rollback_sql"
    by (simp_all add: begin_sql_def commit_sql_def rollback_sql_def)
  have undo: "durable (g x2) = durable (g x1)" if "q rollback_sql x1 = (r1, x2)" for x1 r1 x2
    using E(2,3) [OF that] names by (cases "s_autocommit db (g x1)") auto
  have "(isl r \<longrightarrow> durable (g x') = durable (g x)) \<and>
    (\<not> isl r \<longrightarrow> (\<exists>x1 x2 h h'. q begin_sql x = (Inr h, x1) \<and> \<not> auto x1 \<and> func x1 = (Inr (), x2) \<and> q commit_sql x2 = (Inr h', x') \<and> auto x'))"
  proof (cases "auto x")
    case False
    then show ?thesis using t by (auto simp: transaction_def)
  next
    case a: True
    obtain r1 x1 where b: "q begin_sql x = (r1, x1)" by force
    have b1: "durable (g x1) = durable (g x)" "s_autocommit db (g x1) = isl r1" using E(1) [OF b] a auto by auto
    show ?thesis
    proof (cases r1)
      case (Inl e)
      then show ?thesis using t a b b1 by (auto simp: transaction_def)
    next
      case (Inr n)
      then have na: "\<not> auto x1" using b1 auto by simp
      obtain r2 x2 where f: "func x1 = (r2, x2)" by force
      note f2 = func [OF na f]
      obtain r3 x3 where body: "bindR (func x1) (\<lambda>_ x. bindR (q commit_sql x) (\<lambda>_ x. (Inr (), x))) = (r3, x3)" by force
      have b3: "(isl r3 \<longrightarrow> durable (g x3) = durable (g x1)) \<and>
          (\<not> isl r3 \<longrightarrow> (\<exists>h'. func x1 = (Inr (), x2) \<and> q commit_sql x2 = (Inr h', x3) \<and> auto x3))"
      proof (cases r2)
        case (Inl e)
        then show ?thesis using body f f2 by auto
      next
        case (Inr u)
        then have na2: "\<not> s_autocommit db (g x2)" using f2 auto by simp
        obtain r4 x4 where c: "q commit_sql x2 = (r4, x4)" by force
        show ?thesis using body f Inr c E(5,6) [OF c] na2 f2 auto by (cases r4) auto
      qed
      show ?thesis
      proof (cases r3)
        case e: (Inl e)
        show ?thesis
        proof (cases "is_db_exn e")
          case True
          obtain r5 x5 where rb: "q rollback_sql x3 = (r5, x5)" by force
          have "isl r \<and> x' = x5" using t a b Inr body e True rb by (cases r5) (auto simp: transaction_def)
          then show ?thesis using undo [OF rb] b3 b1 e by auto
        next
          case False
          then show ?thesis using t a b Inr body e b3 b1 by (auto simp: transaction_def)
        qed
      next
        case r3: (Inr u)
        then obtain h' where h': "func x1 = (Inr (), x2)" "q commit_sql x2 = (Inr h', x3)" "auto x3" using b3 by auto
        have "r = Inr ()" "x' = x3" using t a b Inr body r3 by (simp_all add: transaction_def)
        then show ?thesis using b Inr na h' by (metis isl_def sum.disc(2))
      qed
    qed
  qed
  then show "isl r \<Longrightarrow> durable (g x') = durable (g x)"
    and "\<not> isl r \<Longrightarrow> \<exists>x1 x2 h h'. q begin_sql x = (Inr h, x1) \<and> \<not> auto x1 \<and> func x1 = (Inr (), x2) \<and> q commit_sql x2 = (Inr h', x') \<and> auto x'"
    by blast+
qed

end
