(* ===== verification/Object_Db.thy ===== *)
theory Object_Db
  imports Sqlite_Db Ordered_Map Std_Map "HOL-Library.List_Lexorder" "HOL-Library.Char_ord"
begin

text \<open>
  Objects that are kept in the local database: src/lib/andromeda/database/BaseObject.cpp,
  ObjectDatabase.hpp and ObjectDatabase.cpp. Objects are at addresses, which stand for the pointers of the
  code; one thread at a time. The notifications that a class can override do nothing, as in every
  class of the program.
\<close>

section \<open>State\<close>

text \<open>A class T: its name and the fields as its constructor makes them.\<close>

record 'j dbclass =
  cl_name :: string
  cl_fields :: "'j field list"

record 'j dbobj =
  ob_class :: string
  ob_fields :: "(string, 'j field) smap"

record ('h, 'j) objdb =
  od_sql :: 'h
  od_objs :: "nat \<Rightarrow> 'j dbobj"
  od_next :: nat
  od_modified :: "(nat, unit) omap"
  od_created :: "(nat, unit) omap"
  od_loaded :: "(string \<times> nat) list"
  od_atomic :: bool

text \<open>The libraries.\<close>

record ('h, 'v, 'j) dbenv =
  e_val :: "'v sql_value"
  e_json :: "'j json_lib"
  e_sql :: "('h, 'v) sql"

definition new_objdb :: "'h \<Rightarrow> ('h, 'j) objdb" where
  "new_objdb h = \<lparr>od_sql = h, od_objs = (\<lambda>_. \<lparr>ob_class = [], ob_fields = []\<rparr>), od_next = 0, od_modified = om_empty,
     od_created = om_empty, od_loaded = [], od_atomic = False\<rparr>"

type_synonym ('a, 'h, 'j) od_result = "(db_exn + 'a) \<times> ('h, 'j) objdb"

definition run_sql :: "('h \<Rightarrow> (db_exn + 'a) \<times> 'h) \<Rightarrow> ('h, 'j) objdb \<Rightarrow> ('a, 'h, 'j) od_result" where
  "run_sql f = on_part od_sql (\<lambda>h st. st\<lparr>od_sql := h\<rparr>) f"

definition set_obj :: "nat \<Rightarrow> 'j dbobj \<Rightarrow> ('h, 'j) objdb \<Rightarrow> ('h, 'j) objdb" where
  "set_obj p ob st = st\<lparr>od_objs := (od_objs st)(p := ob)\<rparr>"

section \<open>BaseObject\<close>

definition register_fields :: "'j field list \<Rightarrow> (string, 'j field) smap \<Rightarrow> (string, 'j field) smap" where
  "register_fields fs m = fold (\<lambda>f m. sm_emplace (f_name f) f m) fs m"

definition construct :: "'j dbclass \<Rightarrow> 'j dbobj" where
  "construct cl = \<lparr>ob_class = cl_name cl,
     ob_fields = register_fields (cl_fields cl) (register_fields [scalar_field ''id'' StrT] [])\<rparr>"

fun init_fields :: "('h, 'v, 'j) dbenv \<Rightarrow> 'v row \<Rightarrow> 'j dbobj \<Rightarrow> (db_exn + unit) \<times> 'j dbobj" where
  "init_fields e [] ob = (Inr (), ob)"
| "init_fields e ((name, v) # data) ob =
     (case sm_find (ob_fields ob) name of
        None \<Rightarrow> (Inl OutOfRange, ob)
      | Some f \<Rightarrow>
          (let (r, f) = init_db_value (e_val e) (e_json e) v f
           in bindR (r, ob\<lparr>ob_fields := sm_assign name f (ob_fields ob)\<rparr>) (\<lambda>_ ob. init_fields e data ob)))"

text \<open>The value of a text field; ID() is that of the field id.\<close>

definition scalar_str :: "scalar \<Rightarrow> string" where
  "scalar_str v = (case v of TStr s \<Rightarrow> s | _ \<Rightarrow> [])"

definition obj_id :: "'j dbobj \<Rightarrow> db_exn + string" where
  "obj_id ob = (case sm_find (ob_fields ob) ''id'' of None \<Rightarrow> Inl (Uninitialized ''id'') | Some f \<Rightarrow> map_sum id scalar_str (get_value True f))"

definition obj_modified :: "'j dbobj \<Rightarrow> bool" where
  "obj_modified ob \<longleftrightarrow> list_ex (\<lambda>(n, f). is_modified f) (ob_fields ob)"

definition obj_set_unmodified :: "'j dbobj \<Rightarrow> 'j dbobj" where
  "obj_set_unmodified ob = ob\<lparr>ob_fields := map (\<lambda>(n, f). (n, set_unmodified f)) (ob_fields ob)\<rparr>"

definition obj_changes :: "'j dbobj \<Rightarrow> 'j field list" where
  "obj_changes ob = filter is_modified (map snd (ob_fields ob))"

section \<open>Statements\<close>

definition class_table :: "string \<Rightarrow> string" where
  "class_table name = ''a2obj_'' @ str_lower (implode ''_'' (tl (explode name [CHR 0x5C] 0 False (2 ^ 64 - 1))))"

text \<open>The loops over the fields: the texts, the values, and the next number of a placeholder.\<close>

fun update_sets :: "'j json_lib \<Rightarrow> 'j field list \<Rightarrow> nat \<Rightarrow> db_exn + (string list \<times> 'v params)" where
  "update_sets J [] i = Inr ([], [])"
| "update_sets J (f # fs) i =
     (case get_db_value J f of
        Inl e \<Rightarrow> Inl e
      | Inr v \<Rightarrow>
          if v = NullV then map_sum id (\<lambda>(ss, ps). ((f_name f @ ''=NULL'') # ss, ps)) (update_sets J fs i)
          else
            (let d = '':d'' @ nat_str i;
                 s = (if use_increment f then f_name f @ ''='' @ f_name f @ ''+'' @ d else f_name f @ ''='' @ d)
             in map_sum id (\<lambda>(ss, ps). (s # ss, (d, v) # ps)) (update_sets J fs (i + 1))))"

fun insert_values :: "'j json_lib \<Rightarrow> 'j field list \<Rightarrow> nat \<Rightarrow> db_exn + (string list \<times> string list \<times> 'v params)" where
  "insert_values J [] i = Inr ([], [], [])"
| "insert_values J (f # fs) i =
     (case get_db_value J f of
        Inl e \<Rightarrow> Inl e
      | Inr v \<Rightarrow>
          if v = NullV then map_sum id (\<lambda>(cs, is, ps). (f_name f # cs, ''NULL'' # is, ps)) (insert_values J fs i)
          else (let d = '':d'' @ nat_str i
                in map_sum id (\<lambda>(cs, is, ps). (f_name f # cs, d # is, (d, v) # ps)) (insert_values J fs (i + 1))))"

definition update_query :: "('h, 'v, 'j) dbenv \<Rightarrow> nat \<Rightarrow> 'j field list \<Rightarrow> ('h, 'j) objdb \<Rightarrow> (unit, 'h, 'j) od_result" where
  "update_query e p fs st =
     (let ob = od_objs st p in
      case obj_id ob of Inl x \<Rightarrow> (Inl x, st)
      | Inr i \<Rightarrow>
          (case update_sets (e_json e) fs 0 of
             Inl x \<Rightarrow> (Inl x, st)
           | Inr (sets, data) \<Rightarrow>
               if sets = [] then (Inr (), st)
               else bindR (run_sql (exec (e_sql e)
                        (''UPDATE '' @ class_table (ob_class ob) @ '' SET '' @ implode '', '' sets @ '' WHERE id=:id'')
                        (('':id'', StrV i) # data)) st)
                      (\<lambda>n st. if n \<noteq> 1 then (Inl (UpdateFailed (ob_class ob)), st) else (Inr (), st))))"

definition insert_query :: "('h, 'v, 'j) dbenv \<Rightarrow> nat \<Rightarrow> 'j field list \<Rightarrow> ('h, 'j) objdb \<Rightarrow> (unit, 'h, 'j) od_result" where
  "insert_query e p fs st =
     (let ob = od_objs st p in
      case insert_values (e_json e) fs 0 of
        Inl x \<Rightarrow> (Inl x, st)
      | Inr (columns, indexes, data) \<Rightarrow>
          bindR (run_sql (exec (e_sql e)
              (''INSERT INTO '' @ class_table (ob_class ob) @ '' ('' @ implode '','' columns @ '') VALUES ('' @ implode '','' indexes @ '')'')
              data) st)
            (\<lambda>n st. if n \<noteq> 1 then (Inl (InsertFailed (ob_class ob)), st) else (Inr (), st)))"

section \<open>ObjectDatabase\<close>

definition notify_modified :: "nat \<Rightarrow> ('h, 'j) objdb \<Rightarrow> ('h, 'j) objdb" where
  "notify_modified p st = (if \<not> om_exists (od_modified st) p then st\<lparr>od_modified := om_enqueue_back p () (od_modified st)\<rparr> else st)"

definition unset_modified :: "nat \<Rightarrow> ('h, 'j) objdb \<Rightarrow> ('h, 'j) objdb" where
  "unset_modified p st = st\<lparr>od_modified := snd (om_erase p (od_modified st))\<rparr>"

text \<open>A setter of a field: its result, and the notification.\<close>

definition change_field :: "nat \<Rightarrow> string \<Rightarrow> ('j field \<Rightarrow> bool \<times> 'j field) \<Rightarrow> ('h, 'j) objdb \<Rightarrow> ('h, 'j) objdb" where
  "change_field p name op st =
     (case sm_find (ob_fields (od_objs st p)) name of None \<Rightarrow> st
      | Some f \<Rightarrow>
          (let (changed, f) = op f; st = (if changed then notify_modified p st else st);
               ob = od_objs st p
           in set_obj p (ob\<lparr>ob_fields := sm_assign name f (ob_fields ob)\<rparr>) st))"

text \<open>Constructing a T; the constructor of a field with a default notifies the database.\<close>

definition construct_at :: "'j dbclass \<Rightarrow> ('h, 'j) objdb \<Rightarrow> nat \<times> ('h, 'j) objdb" where
  "construct_at cl st =
     (let p = od_next st; st = (set_obj p (construct cl) st)\<lparr>od_next := Suc p\<rparr>
      in (p, if list_ex (\<lambda>f. f_delta f > 1) (cl_fields cl) then notify_modified p st else st))"

definition make_object :: "('h, 'v, 'j) dbenv \<Rightarrow> 'j dbclass \<Rightarrow> 'v row \<Rightarrow> string option \<Rightarrow> ('h, 'j) objdb \<Rightarrow> (nat, 'h, 'j) od_result" where
  "make_object e cl data created st =
     (let (p, st) = construct_at cl st; (r, ob) = init_fields e data (od_objs st p)
      in bindR (r, set_obj p ob st) (\<lambda>_ st.
        (Inr p, case created of None \<Rightarrow> st | Some i \<Rightarrow> change_field p ''id'' (set_scalar (TStr i) False) st)))"

text \<open>CreateObject; the random ID is a parameter.\<close>

definition create_object :: "('h, 'v, 'j) dbenv \<Rightarrow> 'j dbclass \<Rightarrow> string \<Rightarrow> ('h, 'j) objdb \<Rightarrow> (nat, 'h, 'j) od_result" where
  "create_object e cl rnd st =
     bindR (make_object e cl [] (Some rnd) st) (\<lambda>p st. (Inr p, st\<lparr>od_created := om_enqueue_back p () (od_created st)\<rparr>))"

definition object_key :: "string \<Rightarrow> string \<Rightarrow> string" where
  "object_key i cls = i @ '':'' @ cls"

definition update_register :: "nat \<Rightarrow> ('h, 'j) objdb \<Rightarrow> ('h, 'j) objdb" where
  "update_register p st = unset_modified p (set_obj p (obj_set_unmodified (od_objs st p)) st)"

text \<open>The object moves from the map of created objects to that of loaded ones, where emplace keeps an old entry.\<close>

definition insert_register :: "nat \<Rightarrow> ('h, 'j) objdb \<Rightarrow> (unit, 'h, 'j) od_result" where
  "insert_register p st =
     (let st = unset_modified p (set_obj p (obj_set_unmodified (od_objs st p)) st);
          st = st\<lparr>od_created := snd (om_erase p (od_created st))\<rparr>
      in case obj_id (od_objs st p) of
           Inl x \<Rightarrow> (Inl x, st)
         | Inr i \<Rightarrow>
             (let key = object_key i (ob_class (od_objs st p))
              in (Inr (), if map_of (od_loaded st) key = None then st\<lparr>od_loaded := (key, p) # od_loaded st\<rparr> else st)))"

definition save_object :: "('h, 'v, 'j) dbenv \<Rightarrow> nat \<Rightarrow> 'j field list \<Rightarrow> ('h, 'j) objdb \<Rightarrow> (unit, 'h, 'j) od_result" where
  "save_object e p fs st =
     (if om_exists (od_created st) p
      then bindR (insert_query e p fs st) (\<lambda>_ st. if \<not> od_atomic st then insert_register p st else (Inr (), st))
      else bindR (update_query e p fs st) (\<lambda>_ st. if \<not> od_atomic st then (Inr (), update_register p st) else (Inr (), st)))"

text \<open>BaseObject::Save.\<close>

definition obj_save :: "('h, 'v, 'j) dbenv \<Rightarrow> nat \<Rightarrow> ('h, 'j) objdb \<Rightarrow> (unit, 'h, 'j) od_result" where
  "obj_save e p st = save_object e p (obj_changes (od_objs st p)) st"

fun save_each :: "('h, 'v, 'j) dbenv \<Rightarrow> nat list \<Rightarrow> ('h, 'j) objdb \<Rightarrow> (unit, 'h, 'j) od_result" where
  "save_each e [] st = (Inr (), st)"
| "save_each e (p # ps) st = bindR (obj_save e p st) (\<lambda>_ st. save_each e ps st)"

definition save_both :: "('h, 'v, 'j) dbenv \<Rightarrow> ('h, 'j) objdb \<Rightarrow> (unit, 'h, 'j) od_result" where
  "save_both e st =
     bindR (save_each e (map fst (om_list (od_created st))) st) (\<lambda>_ st.
       save_each e (filter (\<lambda>p. \<not> om_exists (od_created st) p) (map fst (om_list (od_modified st)))) st)"

text \<open>The loops that empty the two maps; each step removes the first entry, so as many steps as entries suffice.\<close>

fun register_created :: "nat \<Rightarrow> ('h, 'j) objdb \<Rightarrow> (unit, 'h, 'j) od_result" where
  "register_created n st =
     (case (om_front (od_created st), n) of
        (Some (p, u), Suc n) \<Rightarrow> bindR (insert_register p st) (\<lambda>_ st. register_created n st)
      | _ \<Rightarrow> (Inr (), st))"

fun register_modified :: "nat \<Rightarrow> ('h, 'j) objdb \<Rightarrow> ('h, 'j) objdb" where
  "register_modified n st =
     (case (om_front (od_modified st), n) of
        (Some (p, u), Suc n) \<Rightarrow> register_modified n (update_register p st)
      | _ \<Rightarrow> st)"

declare register_created.simps [simp del] register_modified.simps [simp del]

definition save_objects :: "('h, 'v, 'j) dbenv \<Rightarrow> ('h, 'j) objdb \<Rightarrow> (unit, 'h, 'j) od_result" where
  "save_objects e st =
     (let (r, st) =
        bindR (transaction (\<lambda>st. s_autocommit (e_sql e) (od_sql st)) (\<lambda>text. run_sql (exec (e_sql e) text [])) (save_both e)
                 (st\<lparr>od_atomic := True\<rparr>)) (\<lambda>_ st.
        bindR (register_created (om_size (od_created st)) st) (\<lambda>_ st.
          (Inr (), register_modified (om_size (od_modified st)) st)))
      in (r, st\<lparr>od_atomic := False\<rparr>))"

definition delete_object :: "('h, 'v, 'j) dbenv \<Rightarrow> nat \<Rightarrow> ('h, 'j) objdb \<Rightarrow> (unit, 'h, 'j) od_result" where
  "delete_object e p st =
     (if om_exists (od_created st) p
      then (let st = unset_modified p st in (Inr (), st\<lparr>od_created := snd (om_erase p (od_created st))\<rparr>))
      else
        (let ob = od_objs st p in
         case obj_id ob of Inl x \<Rightarrow> (Inl x, st)
         | Inr i \<Rightarrow>
             bindR (run_sql (exec (e_sql e) (''DELETE FROM '' @ class_table (ob_class ob) @ '' WHERE id=:id'') [('':id'', StrV i)]) st)
               (\<lambda>n st. if n \<noteq> 1 then (Inl (DeleteFailed (ob_class ob)), st)
                 else (let st = unset_modified p st
                       in (Inr (), st\<lparr>od_loaded := filter (\<lambda>kp. fst kp \<noteq> object_key i (ob_class ob)) (od_loaded st)\<rparr>)))))"

section \<open>Loading\<close>

definition construct_object :: "('h, 'v, 'j) dbenv \<Rightarrow> 'j dbclass \<Rightarrow> 'v row \<Rightarrow> ('h, 'j) objdb \<Rightarrow> (nat, 'h, 'j) od_result" where
  "construct_object e cl row st =
     (case map_of row ''id'' of None \<Rightarrow> (Inl OutOfRange, st)
      | Some v \<Rightarrow>
          (case get_string (e_val e) v of Inl x \<Rightarrow> (Inl x, st)
           | Inr i \<Rightarrow>
               (let key = object_key i (cl_name cl)
                in case map_of (od_loaded st) key of
                     Some p \<Rightarrow> (Inr p, st)
                   | None \<Rightarrow> bindR (make_object e cl row None st) (\<lambda>p st. (Inr p, st\<lparr>od_loaded := (key, p) # od_loaded st\<rparr>)))))"

fun construct_each :: "('h, 'v, 'j) dbenv \<Rightarrow> 'j dbclass \<Rightarrow> 'v row list \<Rightarrow> ('h, 'j) objdb \<Rightarrow> (nat list, 'h, 'j) od_result" where
  "construct_each e cl [] st = (Inr [], st)"
| "construct_each e cl (row # rows) st =
     bindR (construct_object e cl row st) (\<lambda>p st. bindR (construct_each e cl rows st) (\<lambda>ps st. (Inr (p # ps), st)))"

definition load_objects :: "('h, 'v, 'j) dbenv \<Rightarrow> 'j dbclass \<Rightarrow> 'v query \<Rightarrow> ('h, 'j) objdb \<Rightarrow> (nat list, 'h, 'j) od_result" where
  "load_objects e cl q st =
     bindR (run_sql (s_query (e_sql e) (''SELECT * FROM '' @ class_table (cl_name cl) @ '' '' @ get_text q) (q_params q)) st)
       (\<lambda>(n, rows) st. construct_each e cl rows st)"

definition count_objects :: "('h, 'v, 'j) dbenv \<Rightarrow> 'j dbclass \<Rightarrow> 'v query \<Rightarrow> ('h, 'j) objdb \<Rightarrow> (int, 'h, 'j) od_result" where
  "count_objects e cl q st =
     bindR (run_sql (s_query (e_sql e) (''SELECT COUNT(id) FROM '' @ class_table (cl_name cl) @ '' '' @ get_text q) (q_params q)) st)
       (\<lambda>(n, rows) st. case rows of [] \<Rightarrow> (Inl OutOfRange, st)
          | row # _ \<Rightarrow> (case map_of row ''COUNT(id)'' of None \<Rightarrow> (Inl OutOfRange, st) | Some v \<Rightarrow> (get_int (e_val e) v, st)))"

fun delete_each :: "('h, 'v, 'j) dbenv \<Rightarrow> nat list \<Rightarrow> ('h, 'j) objdb \<Rightarrow> (unit, 'h, 'j) od_result" where
  "delete_each e [] st = (Inr (), st)"
| "delete_each e (p # ps) st = bindR (delete_object e p st) (\<lambda>_ st. delete_each e ps st)"

definition delete_objects :: "('h, 'v, 'j) dbenv \<Rightarrow> 'j dbclass \<Rightarrow> 'v query \<Rightarrow> ('h, 'j) objdb \<Rightarrow> (nat, 'h, 'j) od_result" where
  "delete_objects e cl q st =
     bindR (load_objects e cl q st) (\<lambda>ps st. bindR (delete_each e ps st) (\<lambda>_ st. (Inr (length ps), st)))"

definition try_load_unique :: "('h, 'v, 'j) dbenv \<Rightarrow> 'j dbclass \<Rightarrow> 'v query \<Rightarrow> ('h, 'j) objdb \<Rightarrow> (nat option, 'h, 'j) od_result" where
  "try_load_unique e cl q st =
     bindR (load_objects e cl q st) (\<lambda>ps st.
       if length ps > 1 then (Inl (MultipleUniqueKey (cl_name cl)), st)
       else (Inr (if ps \<noteq> [] then Some (hd ps) else None), st))"

definition try_delete_unique :: "('h, 'v, 'j) dbenv \<Rightarrow> 'j dbclass \<Rightarrow> 'v query \<Rightarrow> ('h, 'j) objdb \<Rightarrow> (bool, 'h, 'j) od_result" where
  "try_delete_unique e cl q st =
     bindR (delete_objects e cl q st) (\<lambda>n st.
       if n > 1 then (Inl (MultipleUniqueKey (cl_name cl)), st) else (Inr (n \<noteq> 0), st))"

text \<open>A reference finds its object by its ID, once.\<close>

definition ref_object :: "('h, 'v, 'j) dbenv \<Rightarrow> 'j dbclass \<Rightarrow> nat \<Rightarrow> string \<Rightarrow> ('h, 'j) objdb \<Rightarrow> (nat option, 'h, 'j) od_result" where
  "ref_object e cl p name st =
     (let load = (\<lambda>i put.
        (let (s, q) = q_equals ''id'' (StrV i) new_query in
         bindR (try_load_unique e cl (set_where (Some s) q) st) (\<lambda>r st.
           case r of None \<Rightarrow> (Inl (ForeignKeyMissing (cl_name cl)), st)
           | Some a \<Rightarrow> (Inr (Some a), change_field p name (\<lambda>f. (False, f\<lparr>f_val := put a\<rparr>)) st))))
      in case map_option f_val (sm_find (ob_fields (od_objs st p)) name) of
           Some (NullRef i ptr) \<Rightarrow> if i = [] then (Inr None, st) else (case ptr of Some a \<Rightarrow> (Inr (Some a), st) | None \<Rightarrow> load i (\<lambda>a. NullRef i (Some a)))
         | Some (Ref i ptr) \<Rightarrow> if i = [] then (Inl (Uninitialized name), st) else (case ptr of Some a \<Rightarrow> (Inr (Some a), st) | None \<Rightarrow> load i (\<lambda>a. Ref i (Some a)))
         | _ \<Rightarrow> (Inl (Uninitialized name), st))"

end
