(* ===== verification/Object_Correct.thy ===== *)
theory Object_Correct
  imports Object_Db
begin

text \<open>
  The objects of the local database: what the maps of ObjectDatabase hold at any time, whatever is done with
  the objects and whatever fails.
\<close>

section \<open>The invariant\<close>

definition keys :: "(nat, unit) omap \<Rightarrow> nat set" where
  "keys m = fst ` set (om_list m)"

definition loaded :: "('h, 'j) objdb \<Rightarrow> nat set" where
  "loaded st = snd ` set (od_loaded st)"

text \<open>The objects that the database owns.\<close>

definition live :: "('h, 'j) objdb \<Rightarrow> nat set" where
  "live st = keys (od_created st) \<union> loaded st"

text \<open>An object whose fields are sorted by name, with an ID.\<close>

definition obj_good :: "'j dbobj \<Rightarrow> bool" where
  "obj_good ob \<longleftrightarrow> smap_ok (ob_fields ob) \<and> (\<exists>i. obj_id ob = Inr i)"

definition od_ok :: "('h, 'j) objdb \<Rightarrow> bool" where
  "od_ok st \<longleftrightarrow>
     om_ok (od_created st) \<and> om_ok (od_modified st) \<and>
     distinct (map fst (od_loaded st)) \<and> distinct (map snd (od_loaded st)) \<and>
     keys (od_created st) \<inter> loaded st = {} \<and> keys (od_modified st) \<subseteq> live st \<and>
     (\<forall>p \<in> live st. p < od_next st \<and> obj_good (od_objs st p) \<and> (obj_modified (od_objs st p) \<longrightarrow> p \<in> keys (od_modified st))) \<and>
     (\<forall>(k, p) \<in> set (od_loaded st). \<exists>i. obj_id (od_objs st p) = Inr i \<and> k = object_key i (ob_class (od_objs st p)))"

lemma od_okD:
  assumes "od_ok st"
  shows "om_ok (od_created st)" and "om_ok (od_modified st)" and "distinct (map fst (od_loaded st))" and "distinct (map snd (od_loaded st))"
    and "keys (od_created st) \<inter> loaded st = {}" and "keys (od_modified st) \<subseteq> live st"
    and "p \<in> live st \<Longrightarrow> p < od_next st" and "p \<in> live st \<Longrightarrow> obj_good (od_objs st p)"
    and "p \<in> live st \<Longrightarrow> obj_modified (od_objs st p) \<Longrightarrow> p \<in> keys (od_modified st)"
    and "(k, p) \<in> set (od_loaded st) \<Longrightarrow> \<exists>i. obj_id (od_objs st p) = Inr i \<and> k = object_key i (ob_class (od_objs st p))"
  using assms unfolding od_ok_def by (simp_all, fastforce)

lemma keys_exists: "om_ok m \<Longrightarrow> om_exists m p \<longleftrightarrow> p \<in> keys m"
  using om_lookup_None [of m p] by (auto simp: om_exists_def keys_def)

lemma omap_keys_erase: "om_ok m \<Longrightarrow> om_ok (snd (om_erase p m)) \<and> keys (snd (om_erase p m)) = keys m - {p}"
  using om_erase_spec [of m p] by (auto simp: keys_def)

lemma keys_enqueue: "om_ok m \<Longrightarrow> p \<notin> keys m \<Longrightarrow> om_ok (om_enqueue_back p u m) \<and> keys (om_enqueue_back p u m) = insert p (keys m)"
  using om_enqueue_back_spec [of m p u] by (auto simp: keys_def)

lemma live_parts [simp]:
  "live (st\<lparr>od_sql := h\<rparr>) = live st" "live (st\<lparr>od_atomic := b\<rparr>) = live st" "live (st\<lparr>od_objs := os\<rparr>) = live st"
  "live (st\<lparr>od_modified := m\<rparr>) = live st" "live (st\<lparr>od_next := n\<rparr>) = live st"
  by (simp_all add: live_def loaded_def)

lemma loaded_parts [simp]:
  "loaded (st\<lparr>od_sql := h\<rparr>) = loaded st" "loaded (st\<lparr>od_atomic := b\<rparr>) = loaded st" "loaded (st\<lparr>od_objs := os\<rparr>) = loaded st"
  "loaded (st\<lparr>od_modified := m\<rparr>) = loaded st" "loaded (st\<lparr>od_next := n\<rparr>) = loaded st" "loaded (st\<lparr>od_created := m\<rparr>) = loaded st"
  by (simp_all add: loaded_def)

lemma od_ok_sql [simp]: "od_ok (st\<lparr>od_sql := h\<rparr>) = od_ok st"
  by (simp add: od_ok_def)

lemma od_ok_atomic [simp]: "od_ok (st\<lparr>od_atomic := b\<rparr>) = od_ok st"
  by (simp add: od_ok_def)

lemma run_sql_frame: "run_sql f st = (r, st') \<Longrightarrow> \<exists>h. f (od_sql st) = (r, h) \<and> st' = st\<lparr>od_sql := h\<rparr>"
  by (auto simp: run_sql_def on_part_def split: prod.splits)

section \<open>Changing an object\<close>

text \<open>Replacing a live object by one with the same ID and class.\<close>

definition same_id :: "'j dbobj \<Rightarrow> 'j dbobj \<Rightarrow> bool" where
  "same_id a b \<longleftrightarrow> obj_id a = obj_id b \<and> ob_class a = ob_class b"

lemma od_ok_replace:
  assumes ok: "od_ok st" and s: "same_id (od_objs st p) ob" and g: "smap_ok (ob_fields ob)"
    and m: "obj_modified ob \<Longrightarrow> p \<in> live st \<Longrightarrow> p \<in> keys (od_modified st)"
  shows "od_ok (set_obj p ob st)"
proof -
  define os where "os = (od_objs st)(p := ob)"
  have o: "os q = (if q = p then ob else od_objs st q)" for q by (simp add: os_def)
  have 1: "\<exists>i. obj_id (os q) = Inr i \<and> k = object_key i (ob_class (os q))" if "(k, q) \<in> set (od_loaded st)" for k q
    using od_okD(10) [OF ok that] s unfolding o same_id_def by (cases "q = p") simp_all
  have 2: "obj_good (os q)" if "q \<in> live st" for q
    using od_okD(8) [OF ok that] s g by (auto simp: same_id_def obj_good_def o)
  have 3: "q \<in> keys (od_modified st)" if "q \<in> live st" "obj_modified (os q)" for q
    using od_okD(9) [OF ok that(1)] m that by (auto simp: o split: if_splits)
  have "od_ok (st\<lparr>od_objs := os\<rparr>)" using ok 1 2 3 unfolding od_ok_def by (auto simp: split_beta)
  then show ?thesis by (simp add: set_obj_def os_def)
qed

lemma od_ok_notify:
  assumes ok: "od_ok st" and p: "p \<in> live st"
  shows "od_ok (notify_modified p st)" and "p \<in> keys (od_modified (notify_modified p st))" and "live (notify_modified p st) = live st"
    and "od_objs (notify_modified p st) = od_objs st"
proof -
  note M = od_okD(2) [OF ok]
  have k: "om_ok (od_modified (notify_modified p st)) \<and> keys (od_modified (notify_modified p st)) = insert p (keys (od_modified st))"
    using keys_enqueue [OF M, of p "()"] keys_exists [OF M, of p] M by (auto simp: notify_modified_def)
  have f: "notify_modified p st = st\<lparr>od_modified := od_modified (notify_modified p st)\<rparr>" by (simp add: notify_modified_def)
  show "p \<in> keys (od_modified (notify_modified p st))" "od_objs (notify_modified p st) = od_objs st" "live (notify_modified p st) = live st"
    using k by (simp, subst f, simp, subst f, simp)
  have "od_ok (st\<lparr>od_modified := od_modified (notify_modified p st)\<rparr>)"
    using ok k p unfolding od_ok_def by auto
  then show "od_ok (notify_modified p st)" using f by simp
qed

lemma od_ok_unset:
  assumes ok: "od_ok st" and p: "p \<in> live st \<Longrightarrow> \<not> obj_modified (od_objs st p)"
  shows "od_ok (unset_modified p st)"
  using ok p omap_keys_erase [OF od_okD(2) [OF ok], of p] unfolding od_ok_def unset_modified_def by auto

text \<open>The setters: one that does not report a change leaves the number of changes.\<close>

definition honest :: "('j field \<Rightarrow> bool \<times> 'j field) \<Rightarrow> bool" where
  "honest op \<longleftrightarrow> (\<forall>f. \<not> fst (op f) \<longrightarrow> f_delta (snd (op f)) = f_delta f)"

lemma honest_setters:
  "honest (set_scalar v temp)" "honest (set_null temp)" "honest (delta_value d)" "honest (set_json j)" "honest (set_object p i)" "honest clear_object"
  unfolding honest_def by (auto split: fvalue.split if_splits)

lemma modified_find: "smap_ok (ob_fields ob) \<Longrightarrow> obj_modified ob \<longleftrightarrow> (\<exists>n f. sm_find (ob_fields ob) n = Some f \<and> is_modified f)"
proof -
  assume ok: "smap_ok (ob_fields ob)"
  have "sm_find (ob_fields ob) n = Some f \<longleftrightarrow> (n, f) \<in> set (ob_fields ob)" for n f
    using in_sm_find [OF ok, of n f] sm_find_in [of "ob_fields ob" n f] by (auto simp: sm_find_def)
  then show ?thesis by (auto simp: obj_modified_def list_ex_iff)
qed

lemma change_field_ok:
  assumes ok: "od_ok st" and p: "p \<in> live st" and n: "name \<noteq> ''id''" and h: "honest op"
  shows "od_ok (change_field p name op st)"
proof (cases "sm_find (ob_fields (od_objs st p)) name")
  case None
  then show ?thesis using ok by (simp add: change_field_def)
next
  case (Some f)
  let ?ob = "od_objs st p"
  obtain c g where op: "op f = (c, g)" by force
  have g: "smap_ok (ob_fields ?ob)" using od_okD(8) [OF ok p] by (simp add: obj_good_def)
  define ob where "ob = ?ob\<lparr>ob_fields := sm_assign name g (ob_fields ?ob)\<rparr>"
  have fi: "sm_find (ob_fields ob) m = (if m = name then Some g else sm_find (ob_fields ?ob) m)" for m
    by (simp add: ob_def sm_find_def)
  have id: "same_id ?ob ob" using n by (simp add: same_id_def obj_id_def fi) (simp add: ob_def)
  have so: "smap_ok (ob_fields ob)" using g by (simp add: ob_def smap_ok_assign)
  show ?thesis
  proof (cases c)
    case True
    note N = od_ok_notify [OF ok p]
    have "od_ok (set_obj p ob (notify_modified p st))"
      using N id so by (intro od_ok_replace) auto
    then show ?thesis using Some op True N(4) by (simp add: change_field_def ob_def Let_def)
  next
    case False
    have "f_delta g = f_delta f" using h op False by (metis fst_conv honest_def snd_conv)
    then have "obj_modified ob \<Longrightarrow> obj_modified ?ob"
      using Some fi unfolding modified_find [OF so] modified_find [OF g] by (metis is_modified_def option.inject)
    then have "od_ok (set_obj p ob st)" using ok id so od_okD(9) [OF ok p] by (intro od_ok_replace) auto
    then show ?thesis using Some op False by (simp add: change_field_def ob_def Let_def)
  qed
qed

section \<open>Registering and removing\<close>

lemma unmodified_find: "sm_find (ob_fields (obj_set_unmodified ob)) n = map_option set_unmodified (sm_find (ob_fields ob) n)"
proof -
  have "map_of (map (\<lambda>(n, f). (n, g f)) m) k = map_option g (map_of m k)" for g :: "'a field \<Rightarrow> 'a field" and m k
    by (induction m) auto
  then show ?thesis by (simp add: obj_set_unmodified_def sm_find_def)
qed

lemma unmodified_object:
  "same_id ob (obj_set_unmodified ob)" "smap_ok (ob_fields (obj_set_unmodified ob)) = smap_ok (ob_fields ob)"
  "\<not> obj_modified (obj_set_unmodified ob)"
proof -
  show "same_id ob (obj_set_unmodified ob)"
    unfolding same_id_def obj_id_def unmodified_find
    by (cases "sm_find (ob_fields ob) ''id''") (simp_all add: obj_set_unmodified_def set_unmodified_def split: fvalue.split)
  show "smap_ok (ob_fields (obj_set_unmodified ob)) = smap_ok (ob_fields ob)"
    by (simp add: smap_ok_def obj_set_unmodified_def comp_def case_prod_beta')
  show "\<not> obj_modified (obj_set_unmodified ob)"
    by (auto simp: obj_modified_def obj_set_unmodified_def list_ex_iff is_modified_def set_unmodified_def)
qed

lemma set_obj_parts [simp]:
  "od_sql (set_obj p ob st) = od_sql st" "od_objs (set_obj p ob st) = (od_objs st)(p := ob)" "od_next (set_obj p ob st) = od_next st"
  "od_modified (set_obj p ob st) = od_modified st" "od_created (set_obj p ob st) = od_created st" "od_loaded (set_obj p ob st) = od_loaded st"
  "od_atomic (set_obj p ob st) = od_atomic st" "live (set_obj p ob st) = live st" "loaded (set_obj p ob st) = loaded st"
  by (simp_all add: set_obj_def)

lemma unset_parts [simp]:
  "od_sql (unset_modified p st) = od_sql st" "od_objs (unset_modified p st) = od_objs st" "od_next (unset_modified p st) = od_next st"
  "od_created (unset_modified p st) = od_created st" "od_loaded (unset_modified p st) = od_loaded st"
  "od_atomic (unset_modified p st) = od_atomic st" "live (unset_modified p st) = live st" "loaded (unset_modified p st) = loaded st"
  by (simp_all add: unset_modified_def)

lemma unset_keys: "om_ok (od_modified st) \<Longrightarrow> keys (od_modified (unset_modified p st)) = keys (od_modified st) - {p}"
  using omap_keys_erase [of "od_modified st" p] by (simp add: unset_modified_def)

lemma update_register_ok:
  assumes ok: "od_ok st" and p: "p \<in> live st"
  shows "od_ok (update_register p st)" and "keys (od_modified (update_register p st)) = keys (od_modified st) - {p}"
proof -
  have g: "obj_good (od_objs st p)" using od_okD(8) [OF ok p] .
  have 1: "od_ok (set_obj p (obj_set_unmodified (od_objs st p)) st)"
    using g unmodified_object [of "od_objs st p"] by (intro od_ok_replace [OF ok]) (auto simp: obj_good_def)
  show "od_ok (update_register p st)" unfolding update_register_def
    using unmodified_object(3) by (intro od_ok_unset [OF 1]) simp
  show "keys (od_modified (update_register p st)) = keys (od_modified st) - {p}"
    unfolding update_register_def using unset_keys [OF od_okD(2) [OF 1], of p] by simp
qed

text \<open>An object that is not modified leaves the created ones, or the loaded ones.\<close>

lemma drop_created_ok:
  assumes ok: "od_ok st" and p: "p \<notin> keys (od_modified st)"
  shows "od_ok (st\<lparr>od_created := snd (om_erase p (od_created st))\<rparr>)"
proof -
  note K = omap_keys_erase [OF od_okD(1) [OF ok], of p]
  have l: "live (st\<lparr>od_created := snd (om_erase p (od_created st))\<rparr>) = (keys (od_created st) - {p}) \<union> loaded st"
    using K by (simp add: live_def)
  show ?thesis using ok K p unfolding od_ok_def l by (auto simp: live_def)
qed

lemma drop_loaded_ok:
  assumes ok: "od_ok st" and p: "\<And>q. (key, q) \<in> set (od_loaded st) \<Longrightarrow> q \<notin> keys (od_modified st)"
  shows "od_ok (st\<lparr>od_loaded := filter (\<lambda>kp. fst kp \<noteq> key) (od_loaded st)\<rparr>)"
proof -
  let ?s = "st\<lparr>od_loaded := filter (\<lambda>kp. fst kp \<noteq> key) (od_loaded st)\<rparr>"
  have l: "live ?s \<subseteq> live st" "loaded ?s \<subseteq> loaded st" by (auto simp: live_def loaded_def)
  have m: "keys (od_modified st) \<subseteq> live ?s"
  proof
    fix q assume q: "q \<in> keys (od_modified st)"
    then have "q \<in> keys (od_created st) \<or> (\<exists>k. (k, q) \<in> set (od_loaded st))" using od_okD(6) [OF ok] by (force simp: live_def loaded_def)
    then show "q \<in> live ?s" using p q by (force simp: live_def loaded_def)
  qed
  have d: "distinct (map fst (filter (\<lambda>kp. fst kp \<noteq> key) (od_loaded st)))" "distinct (map snd (filter (\<lambda>kp. fst kp \<noteq> key) (od_loaded st)))"
    using od_okD(3,4) [OF ok] by (simp_all add: distinct_map_filter)
  show ?thesis using ok d l m unfolding od_ok_def by (auto simp: subset_iff)
qed

lemma insert_register_ok:
  assumes ok: "od_ok st" and p: "p \<in> keys (od_created st)"
  shows "\<exists>st'. insert_register p st = (Inr (), st') \<and> od_ok st' \<and> keys (od_created st') = keys (od_created st) - {p} \<and>
     keys (od_modified st') = keys (od_modified st) - {p} \<and> od_atomic st' = od_atomic st \<and> om_list (od_created st') = filter (\<lambda>e. fst e \<noteq> p) (om_list (od_created st))"
proof -
  have lp: "p \<in> live st" using p by (simp add: live_def)
  define s1 where "s1 = unset_modified p (set_obj p (obj_set_unmodified (od_objs st p)) st)"
  have o1: "od_ok s1" "keys (od_modified s1) = keys (od_modified st) - {p}"
    using update_register_ok [OF ok lp] by (simp_all add: update_register_def s1_def)
  define s2 where "s2 = s1\<lparr>od_created := snd (om_erase p (od_created s1))\<rparr>"
  have o2: "od_ok s2" unfolding s2_def using o1 by (intro drop_created_ok) auto
  have c2: "keys (od_created s2) = keys (od_created st) - {p}" "om_list (od_created s2) = filter (\<lambda>e. fst e \<noteq> p) (om_list (od_created st))"
    using omap_keys_erase [OF od_okD(1) [OF ok], of p] om_erase_spec(2) [OF od_okD(1) [OF ok], of p] by (simp_all add: s2_def s1_def)
  have nl: "p \<notin> loaded s2" "p \<notin> live s2" using od_okD(5) [OF ok] p c2 by (auto simp: live_def s2_def s1_def)
  obtain i where i: "obj_id (od_objs s2 p) = Inr i"
    using od_okD(8) [OF ok lp] unmodified_object(1) [of "od_objs st p"] by (auto simp: obj_good_def same_id_def s2_def s1_def)
  have gd: "obj_good (od_objs s2 p)" "\<not> obj_modified (od_objs s2 p)"
    using od_okD(8) [OF ok lp] unmodified_object [of "od_objs st p"] i by (auto simp: obj_good_def s2_def s1_def)
  define key where "key = object_key i (ob_class (od_objs s2 p))"
  have pn: "p < od_next s2" using od_okD(7) [OF ok lp] by (simp add: s2_def s1_def)
  have "od_ok (s2\<lparr>od_loaded := (key, p) # od_loaded s2\<rparr>)" if "map_of (od_loaded s2) key = None"
  proof -
    let ?s = "s2\<lparr>od_loaded := (key, p) # od_loaded s2\<rparr>"
    have l: "live ?s = insert p (live s2)" "loaded ?s = insert p (loaded s2)" by (auto simp: live_def loaded_def)
    have d: "key \<notin> fst ` set (od_loaded s2)" "p \<notin> snd ` set (od_loaded s2)" "p \<notin> keys (od_created s2)"
      using that nl by (simp_all add: map_of_eq_None_iff loaded_def live_def)
    show ?thesis using o2 d l gd i pn unfolding od_ok_def by (auto simp: key_def)
  qed
  moreover have "insert_register p st = (Inr (), if map_of (od_loaded s2) key = None then s2\<lparr>od_loaded := (key, p) # od_loaded s2\<rparr> else s2)"
    unfolding insert_register_def Let_def s1_def [symmetric] s2_def [symmetric] i sum.case key_def [symmetric] ..
  moreover have "od_modified s2 = od_modified s1" "od_atomic s2 = od_atomic st" by (simp_all add: s2_def s1_def)
  ultimately show ?thesis using o2 c2 o1(2) by auto
qed

section \<open>New objects\<close>

text \<open>A class whose fields have no default value, as every class of the program.\<close>

definition plain :: "'j dbclass \<Rightarrow> bool" where
  "plain cl \<longleftrightarrow> (\<forall>f \<in> set (cl_fields cl). f_delta f = 0)"

text \<open>The rows of a query are maps: no name twice.\<close>

definition rows_distinct :: "('h, 'v) sql \<Rightarrow> bool" where
  "rows_distinct db \<longleftrightarrow> (\<forall>text ps h n rows h'. s_query db text ps h = (Inr (n, rows), h') \<longrightarrow> (\<forall>row \<in> set rows. distinct (map fst row)))"

lemma fresh_address:
  assumes "od_ok st"
  shows "od_next st \<notin> live st" and "od_next st \<notin> keys (od_modified st)"
  using od_okD(6,7) [OF assms] by blast+

text \<open>Something at the next address that no map knows yet.\<close>

lemma od_ok_garbage:
  assumes ok: "od_ok st"
  shows "od_ok ((set_obj (od_next st) ob st)\<lparr>od_next := Suc (od_next st)\<rparr>)"
proof -
  let ?s = "(set_obj (od_next st) ob st)\<lparr>od_next := Suc (od_next st)\<rparr>"
  have o: "od_objs ?s q = od_objs st q" if "q \<in> live st" for q using that fresh_address(1) [OF ok] by auto
  have l: "live ?s = live st" "loaded ?s = loaded st" by (simp_all add: live_def loaded_def)
  have "q \<in> live st" if "(k, q) \<in> set (od_loaded st)" for k q using that by (force simp: live_def loaded_def)
  then show ?thesis using ok o unfolding od_ok_def l by (auto simp: less_Suc_eq)
qed

lemma register_fields_spec:
  assumes "smap_ok m"
  shows "smap_ok (register_fields fs m)" and "sm_find m n = Some f \<Longrightarrow> sm_find (register_fields fs m) n = Some f"
    and "(n, f) \<in> set (register_fields fs m) \<Longrightarrow> (n, f) \<in> set m \<or> f \<in> set fs"
proof -
  have *: "smap_ok m \<Longrightarrow> smap_ok (register_fields fs m) \<and> (\<forall>n f. sm_find m n = Some f \<longrightarrow> sm_find (register_fields fs m) n = Some f) \<and>
      (\<forall>n f. sm_find (register_fields fs m) n = Some f \<longrightarrow> sm_find m n = Some f \<or> f \<in> set fs)" for m
  proof (induction fs arbitrary: m)
    case (Cons g fs)
    have s: "smap_ok (sm_emplace (f_name g) g m)" using Cons.prems by (rule smap_ok_emplace)
    have e: "sm_find m n = Some f \<Longrightarrow> sm_find (sm_emplace (f_name g) g m) n = Some f"
      "sm_find (sm_emplace (f_name g) g m) n = Some f \<Longrightarrow> sm_find m n = Some f \<or> f = g" for n f
      using sm.find_emplace [OF Cons.prems, of "f_name g" g] by (auto split: if_splits)
    have "register_fields (g # fs) m = register_fields fs (sm_emplace (f_name g) g m)" by (simp add: register_fields_def)
    then show ?case using Cons.IH [OF s] e by (metis list.set_intros)
  qed (simp add: register_fields_def)
  note R = * [OF assms]
  show "smap_ok (register_fields fs m)" "sm_find m n = Some f \<Longrightarrow> sm_find (register_fields fs m) n = Some f" using R by simp_all
  show "(n, f) \<in> set (register_fields fs m) \<Longrightarrow> (n, f) \<in> set m \<or> f \<in> set fs"
    using R in_sm_find [of "register_fields fs m" n f] sm_find_in [of m n f] by (auto simp: sm_find_def)
qed

lemma construct_spec:
  assumes "plain cl"
  shows "smap_ok (ob_fields (construct cl))" and "sm_find (ob_fields (construct cl)) ''id'' = Some (scalar_field ''id'' StrT)"
    and "\<not> obj_modified (construct cl)" and "ob_class (construct cl) = cl_name cl"
proof -
  let ?m = "register_fields [scalar_field ''id'' StrT] [] :: (string, 'a field) smap"
  have m: "?m = [(''id'', scalar_field ''id'' StrT)]" by (simp add: register_fields_def sm_emplace_def scalar_field_def)
  then have s: "smap_ok ?m" by (simp add: smap_ok_def)
  note R = register_fields_spec [OF s, where fs = "cl_fields cl"]
  show "smap_ok (ob_fields (construct cl))" "sm_find (ob_fields (construct cl)) ''id'' = Some (scalar_field ''id'' StrT)"
    using R(1) R(2) [where n = "''id''" and f = "scalar_field ''id'' StrT"] m by (simp_all add: construct_def sm_find_def)
  show "\<not> obj_modified (construct cl)"
    using R(3) assms m by (fastforce simp: obj_modified_def construct_def list_ex_iff is_modified_def plain_def scalar_field_def)
  show "ob_class (construct cl) = cl_name cl" by (simp add: construct_def)
qed

lemma init_value_done:
  assumes "init_db_value V J v f = (Inr (), g)"
  shows "f_delta g = 0" and "f_val f = Scalar StrT a b c d \<Longrightarrow> \<exists>s. get_string V v = Inr s \<and> f_val g = Scalar StrT True (TStr s) True (TStr s)"
proof -
  show "f_delta g = 0" using assms by (cases "f_val f") (auto simp: Let_def split: if_splits sum.splits)
  show "\<exists>s. get_string V v = Inr s \<and> f_val g = Scalar StrT True (TStr s) True (TStr s)" if "f_val f = Scalar StrT a b c d"
    using assms that by (cases "get_string V v") (auto simp: Let_def split: if_splits)
qed

lemma init_fields_spec:
  assumes "init_fields e data ob = (Inr (), ob')" and "distinct (map fst data)" and "smap_ok (ob_fields ob)" and "\<not> obj_modified ob"
  shows "smap_ok (ob_fields ob') \<and> \<not> obj_modified ob' \<and> ob_class ob' = ob_class ob \<and>
     (\<forall>n. n \<notin> fst ` set data \<longrightarrow> sm_find (ob_fields ob') n = sm_find (ob_fields ob) n) \<and>
     (\<forall>n v f a b c d. map_of data n = Some v \<longrightarrow> sm_find (ob_fields ob) n = Some f \<longrightarrow> f_val f = Scalar StrT a b c d \<longrightarrow>
        (\<exists>s g. get_string (e_val e) v = Inr s \<and> sm_find (ob_fields ob') n = Some g \<and> f_val g = Scalar StrT True (TStr s) True (TStr s)))"
  using assms
proof (induction data arbitrary: ob)
  case (Cons x data)
  obtain n v where x: "x = (n, v)" by force
  obtain f where f: "sm_find (ob_fields ob) n = Some f" using Cons.prems(1) x by (auto split: option.splits)
  obtain r g where g: "init_db_value (e_val e) (e_json e) v f = (r, g)" by force
  define o1 where "o1 = ob\<lparr>ob_fields := sm_assign n g (ob_fields ob)\<rparr>"
  have r: "r = Inr ()" "init_fields e data o1 = (Inr (), ob')"
    using Cons.prems(1) f g by (cases r; simp add: x o1_def Let_def)+
  have s1: "smap_ok (ob_fields o1)" using Cons.prems(3) by (simp add: o1_def smap_ok_assign)
  have f1: "sm_find (ob_fields o1) k = (if k = n then Some g else sm_find (ob_fields ob) k)" for k by (simp add: o1_def sm_find_def)
  have d: "f_delta g = 0" using init_value_done(1) g r(1) by blast
  have m1: "\<not> obj_modified o1"
    using Cons.prems(4) d unfolding modified_find [OF s1] modified_find [OF Cons.prems(3)] f1 by (auto simp: is_modified_def split: if_splits)
  have IH: "smap_ok (ob_fields ob') \<and> \<not> obj_modified ob' \<and> ob_class ob' = ob_class o1 \<and>
     (\<forall>n. n \<notin> fst ` set data \<longrightarrow> sm_find (ob_fields ob') n = sm_find (ob_fields o1) n) \<and>
     (\<forall>n v f a b c d. map_of data n = Some v \<longrightarrow> sm_find (ob_fields o1) n = Some f \<longrightarrow> f_val f = Scalar StrT a b c d \<longrightarrow>
        (\<exists>s g. get_string (e_val e) v = Inr s \<and> sm_find (ob_fields ob') n = Some g \<and> f_val g = Scalar StrT True (TStr s) True (TStr s)))"
    using Cons.IH [OF r(2) _ s1 m1] Cons.prems(2) by simp
  have nd: "n \<notin> fst ` set data" using Cons.prems(2) x by simp
  have "\<exists>s g'. get_string (e_val e) w = Inr s \<and> sm_find (ob_fields ob') k = Some g' \<and> f_val g' = Scalar StrT True (TStr s) True (TStr s)"
    if "map_of (x # data) k = Some w" "sm_find (ob_fields ob) k = Some h" "f_val h = Scalar StrT a b c d'" for k w h a b c d'
  proof (cases "k = n")
    case True
    then have "w = v" "h = f" using that x f by auto
    then show ?thesis using init_value_done(2) [OF g [unfolded r(1)]] that(3) IH nd f1 True by metis
  next
    case False
    then show ?thesis using that IH f1 x by auto
  qed
  moreover have "\<forall>k. k \<notin> fst ` set (x # data) \<longrightarrow> sm_find (ob_fields ob') k = sm_find (ob_fields ob) k" using IH f1 x by auto
  moreover have "ob_class ob' = ob_class ob" using IH by (simp add: o1_def)
  ultimately show ?case using IH by blast
qed simp

lemma text_field_blank: "f_val (scalar_field n StrT) = Scalar StrT False (TStr []) False (TStr [])"
  by (simp add: scalar_field_def)

text \<open>Making an object at a fresh address: the maps stay as they are.\<close>

lemma make_loaded:
  assumes ok: "od_ok st" and cl: "plain cl" and row: "distinct (map fst row)" "map_of row ''id'' = Some v" "get_string (e_val e) v = Inr i"
    and m: "make_object e cl row None st = (r, st')"
  shows "\<exists>ob. st' = (set_obj (od_next st) ob st)\<lparr>od_next := Suc (od_next st)\<rparr> \<and>
     (\<forall>p. r = Inr p \<longrightarrow> p = od_next st \<and> smap_ok (ob_fields ob) \<and> \<not> obj_modified ob \<and> ob_class ob = cl_name cl \<and> obj_id ob = Inr i)"
proof -
  have nd: "\<not> list_ex (\<lambda>f. f_delta f > 1) (cl_fields cl)" using cl by (auto simp: plain_def list_ex_iff)
  define s1 where "s1 = (set_obj (od_next st) (construct cl) st)\<lparr>od_next := Suc (od_next st)\<rparr>"
  have c: "construct_at cl st = (od_next st, s1)" using nd by (simp add: construct_at_def Let_def s1_def)
  have o: "od_objs s1 (od_next st) = construct cl" by (simp add: s1_def)
  obtain r1 ob where i: "init_fields e row (construct cl) = (r1, ob)" by force
  have sb: "set_obj (od_next st) ob s1 = (set_obj (od_next st) ob st)\<lparr>od_next := Suc (od_next st)\<rparr>"
    by (simp add: s1_def set_obj_def)
  have R: "st' = set_obj (od_next st) ob s1 \<and> (r1 = Inr () \<longleftrightarrow> (\<exists>p. r = Inr p)) \<and> (\<forall>p. r = Inr p \<longrightarrow> p = od_next st)"
  proof -
    have "bindR (r1, set_obj (od_next st) ob s1) (\<lambda>_ st'. (Inr (od_next st), st')) = (r, st')"
      using m by (simp only: make_object_def c prod.case o i Let_def option.case)
    then show ?thesis
    proof (cases r1)
      case (Inl x)
      then have "r = Inl x" "st' = set_obj (od_next st) ob s1" using \<open>bindR _ _ = _\<close> by simp_all
      then show ?thesis using Inl by (simp only: sum.distinct simp_thms)
    next
      case (Inr u)
      then have "r = Inr (od_next st)" "st' = set_obj (od_next st) ob s1" using \<open>bindR _ _ = _\<close> by simp_all
      then show ?thesis using Inr by (simp only: sum.inject simp_thms) simp
    qed
  qed
  note st' = R [THEN conjunct1] and r = R [THEN conjunct2, THEN conjunct1] R [THEN conjunct2, THEN conjunct2]
  have good: "smap_ok (ob_fields ob) \<and> \<not> obj_modified ob \<and> ob_class ob = cl_name cl \<and> obj_id ob = Inr i" if "r1 = Inr ()"
  proof -
    note S = init_fields_spec [OF i [unfolded that] row(1) construct_spec(1,3) [OF cl]]
    obtain g where "sm_find (ob_fields ob) ''id'' = Some g" "f_val g = Scalar StrT True (TStr i) True (TStr i)"
    proof -
      obtain s g where "get_string (e_val e) v = Inr s" "sm_find (ob_fields ob) ''id'' = Some g" "f_val g = Scalar StrT True (TStr s) True (TStr s)"
        using S [THEN conjunct2, THEN conjunct2, THEN conjunct2, THEN conjunct2, rule_format, OF row(2) construct_spec(2) [OF cl] text_field_blank] by blast
      then show ?thesis using that row(3) by simp
    qed
    then show ?thesis using S construct_spec(4) [OF cl] by (simp add: obj_id_def scalar_str_def)
  qed
  show ?thesis
  proof (intro exI [of _ ob] conjI)
    show "st' = (set_obj (od_next st) ob st)\<lparr>od_next := Suc (od_next st)\<rparr>" using st' sb by (rule trans)
    show "\<forall>p. r = Inr p \<longrightarrow> p = od_next st \<and> smap_ok (ob_fields ob) \<and> \<not> obj_modified ob \<and> ob_class ob = cl_name cl \<and> obj_id ob = Inr i"
    proof (intro allI impI)
      fix p assume p: "r = Inr p"
      then have "r1 = Inr ()" using r(1) by blast
      then show "p = od_next st \<and> smap_ok (ob_fields ob) \<and> \<not> obj_modified ob \<and> ob_class ob = cl_name cl \<and> obj_id ob = Inr i"
        using good r(2) p by (intro conjI) auto
    qed
  qed
qed

lemma construct_object_ok:
  assumes ok: "od_ok st" and cl: "plain cl" and row: "distinct (map fst row)" and c: "construct_object e cl row st = (r, st')"
  shows "od_ok st' \<and> (\<forall>p. r = Inr p \<longrightarrow> p \<in> loaded st') \<and> loaded st \<subseteq> loaded st' \<and> od_created st' = od_created st"
proof (cases "map_of row ''id''")
  case None
  then show ?thesis using c ok by (auto simp: construct_object_def)
next
  case v: (Some v)
  show ?thesis
  proof (cases "get_string (e_val e) v")
    case (Inl x)
    then show ?thesis using c ok v by (auto simp: construct_object_def)
  next
    case i: (Inr i)
    define key where "key = object_key i (cl_name cl)"
    show ?thesis
    proof (cases "map_of (od_loaded st) key")
      case (Some p)
      then have "p \<in> loaded st" by (force simp: loaded_def dest: map_of_SomeD)
      then show ?thesis using c ok v i Some by (auto simp: construct_object_def key_def)
    next
      case None
      obtain r1 s1 where m: "make_object e cl row None st = (r1, s1)" by force
      obtain ob where s1: "s1 = (set_obj (od_next st) ob st)\<lparr>od_next := Suc (od_next st)\<rparr>"
        and ob: "\<forall>p. r1 = Inr p \<longrightarrow> p = od_next st \<and> smap_ok (ob_fields ob) \<and> \<not> obj_modified ob \<and> ob_class ob = cl_name cl \<and> obj_id ob = Inr i"
        using make_loaded [OF ok cl row v i m] by blast
      have o1: "od_ok s1" unfolding s1 by (rule od_ok_garbage [OF ok])
      show ?thesis
      proof (cases r1)
        case (Inl x)
        then show ?thesis using c v i None m o1 by (auto simp: construct_object_def key_def s1)
      next
        case (Inr p)
        then have p: "p = od_next st" and good: "obj_good ob" "\<not> obj_modified ob" "ob_class ob = cl_name cl" "obj_id ob = Inr i"
          using ob by (auto simp: obj_good_def)
        have st': "st' = s1\<lparr>od_loaded := (key, p) # od_loaded s1\<rparr>" "r = Inr p"
          using c v i None m Inr by (auto simp: construct_object_def key_def)
        have k: "key \<notin> fst ` set (od_loaded s1)" using None by (simp add: map_of_eq_None_iff s1)
        have np: "p \<notin> live s1" "p \<notin> loaded s1" "p \<notin> keys (od_created s1)" "p \<notin> snd ` set (od_loaded s1)"
          using fresh_address(1) [OF ok] by (auto simp: p s1 live_def loaded_def)
        have l: "live st' = insert p (live s1)" "loaded st' = insert p (loaded s1)" by (auto simp: st' live_def loaded_def)
        have ob1: "od_objs s1 p = ob" "p < od_next s1" by (simp_all add: s1 p)
        have "od_ok st'" using o1 k np good ob1 unfolding od_ok_def l by (auto simp: st'(1) key_def)
        then show ?thesis using l st' by (auto simp: s1 loaded_def)
      qed
    qed
  qed
qed

lemma construct_each_ok:
  assumes "od_ok st" and "plain cl" and "\<forall>row \<in> set rows. distinct (map fst row)" and "construct_each e cl rows st = (r, st')"
  shows "od_ok st' \<and> (\<forall>ps. r = Inr ps \<longrightarrow> set ps \<subseteq> loaded st') \<and> loaded st \<subseteq> loaded st' \<and> od_created st' = od_created st"
  using assms
proof (induction rows arbitrary: st r st')
  case (Cons row rows)
  obtain r1 s1 where c: "construct_object e cl row st = (r1, s1)" by force
  note o1 = construct_object_ok [OF Cons.prems(1,2) _ c]
  have d: "distinct (map fst row)" using Cons.prems(3) by simp
  show ?case
  proof (cases r1)
    case (Inl x)
    then show ?thesis using Cons.prems(4) c o1 [OF d] by auto
  next
    case (Inr p)
    obtain r2 s2 where c2: "construct_each e cl rows s1 = (r2, s2)" by force
    have "od_ok s2 \<and> (\<forall>ps. r2 = Inr ps \<longrightarrow> set ps \<subseteq> loaded s2) \<and> loaded s1 \<subseteq> loaded s2 \<and> od_created s2 = od_created s1"
      using Cons.IH [OF _ Cons.prems(2) _ c2] o1 [OF d] Cons.prems(3) by simp
    then show ?thesis using Cons.prems(4) c c2 Inr o1 [OF d] by (cases r2) auto
  qed
qed auto

lemma load_objects_ok:
  assumes ok: "od_ok st" and cl: "plain cl" and rd: "rows_distinct (e_sql e)" and l: "load_objects e cl q st = (r, st')"
  shows "od_ok st' \<and> (\<forall>ps. r = Inr ps \<longrightarrow> set ps \<subseteq> loaded st') \<and> loaded st \<subseteq> loaded st' \<and> od_created st' = od_created st"
proof -
  let ?text = "''SELECT * FROM '' @ class_table (cl_name cl) @ '' '' @ get_text q"
  obtain r1 s1 where s: "run_sql (s_query (e_sql e) ?text (q_params q)) st = (r1, s1)" by force
  obtain h where h: "s_query (e_sql e) ?text (q_params q) (od_sql st) = (r1, h)" "s1 = st\<lparr>od_sql := h\<rparr>" using run_sql_frame [OF s] by blast
  have o1: "od_ok s1" "loaded s1 = loaded st" "od_created s1 = od_created st" using ok by (simp_all add: h)
  show ?thesis
  proof (cases r1)
    case (Inl x)
    then show ?thesis using l s o1 by (auto simp: load_objects_def)
  next
    case (Inr nr)
    obtain n rows where nr: "nr = (n, rows)" by force
    have "\<forall>row \<in> set rows. distinct (map fst row)" using rd h(1) Inr nr unfolding rows_distinct_def by blast
    then show ?thesis using construct_each_ok [OF o1(1) cl, of rows e r st'] l s Inr nr o1 by (simp add: load_objects_def)
  qed
qed

lemma create_object_ok:
  assumes ok: "od_ok st" and cl: "plain cl"
  shows "\<exists>st' p. create_object e cl rnd st = (Inr p, st') \<and> od_ok st' \<and> p = od_next st \<and> p \<in> keys (od_created st') \<and>
     loaded st' = loaded st \<and> keys (od_created st') = insert p (keys (od_created st)) \<and> obj_id (od_objs st' p) = Inr rnd"
proof -
  have nd: "\<not> list_ex (\<lambda>f. f_delta f > 1) (cl_fields cl)" using cl by (auto simp: plain_def list_ex_iff)
  define p where "p = od_next st"
  define s1 where "s1 = (set_obj p (construct cl) st)\<lparr>od_next := Suc p\<rparr>"
  have c: "construct_at cl st = (p, s1)" using nd by (simp add: construct_at_def Let_def s1_def p_def)
  have s1': "set_obj p (od_objs s1 p) s1 = s1" by (simp add: set_obj_def)
  define g where "g = snd (set_scalar (TStr rnd) False (scalar_field ''id'' StrT :: 'b field))"
  have g: "set_scalar (TStr rnd) False (scalar_field ''id'' StrT :: 'b field) = (True, g)" "f_val g = Scalar StrT True (TStr rnd) True (TStr rnd)"
    by (simp_all add: g_def scalar_field_def)
  define ob where "ob = (construct cl)\<lparr>ob_fields := sm_assign ''id'' g (ob_fields (construct cl))\<rparr>"
  define s2 where "s2 = set_obj p ob (notify_modified p s1)"
  have o1: "od_objs (notify_modified p s1) p = construct cl" by (simp add: notify_modified_def s1_def)
  have s2: "change_field p ''id'' (set_scalar (TStr rnd) False) s1 = s2"
  proof -
    have fo: "od_objs s1 p = construct cl" by (simp add: s1_def)
    show ?thesis
      by (simp only: change_field_def fo construct_spec(2) [OF cl] option.case g(1) prod.case Let_def if_True o1 ob_def s2_def)
  qed
  have m: "make_object e cl [] (Some rnd) st = (Inr p, s2)"
    unfolding make_object_def c by (simp add: s1' s2)
  define st' where "st' = s2\<lparr>od_created := om_enqueue_back p () (od_created s2)\<rparr>"
  have C: "create_object e cl rnd st = (Inr p, st')" by (simp add: create_object_def m st'_def)
  note F = fresh_address [OF ok, folded p_def]
  have km: "om_ok (od_modified st') \<and> keys (od_modified st') = insert p (keys (od_modified st))"
    using keys_enqueue [OF od_okD(2) [OF ok], of p "()"] keys_exists [OF od_okD(2) [OF ok], of p] F
    by (simp add: st'_def s2_def notify_modified_def s1_def)
  have kc: "om_ok (od_created st') \<and> keys (od_created st') = insert p (keys (od_created st))"
    using keys_enqueue [OF od_okD(1) [OF ok], of p "()"] F by (simp add: st'_def s2_def notify_modified_def s1_def live_def)
  have f: "od_loaded st' = od_loaded st" "od_next st' = Suc p" "od_objs st' = (od_objs st)(p := ob)"
    by (simp_all add: st'_def s2_def notify_modified_def s1_def)
  have l: "loaded st' = loaded st" "live st' = insert p (live st)" using f kc by (auto simp: loaded_def live_def)
  have id: "obj_id ob = Inr rnd" using g by (simp add: obj_id_def ob_def sm_find_def scalar_str_def)
  have good: "obj_good ob" using id construct_spec(1) [OF cl] by (simp add: obj_good_def ob_def smap_ok_assign)
  have pl: "p \<notin> loaded st" "\<And>k. (k, p) \<notin> set (od_loaded st)" using F by (force simp: live_def loaded_def)+
  have o: "od_objs st' q = (if q = p then ob else od_objs st q)" for q by (simp add: f)
  have 1: "\<forall>q \<in> live st'. q < od_next st' \<and> obj_good (od_objs st' q) \<and> (obj_modified (od_objs st' q) \<longrightarrow> q \<in> keys (od_modified st'))"
    using od_okD(7,8,9) [OF ok] good km unfolding l f(2) o by (auto simp: p_def less_Suc_eq split: if_splits)
  have 2: "\<forall>(k, q) \<in> set (od_loaded st'). \<exists>i. obj_id (od_objs st' q) = Inr i \<and> k = object_key i (ob_class (od_objs st' q))"
    using od_okD(10) [OF ok] pl(2) unfolding f(1) o by (auto split: if_splits)
  have "od_ok st'" unfolding od_ok_def using kc km 1 2 od_okD(3-6) [OF ok] pl(1) unfolding l f(1) by auto
  then show ?thesis using C kc l id by (auto simp: p_def o)
qed

section \<open>Saving\<close>

lemma bindR_frame:
  assumes "\<exists>h. snd m = st\<lparr>od_sql := h\<rparr>" and "\<And>x h. \<exists>h'. snd (f x (st\<lparr>od_sql := h\<rparr>)) = st\<lparr>od_sql := h'\<rparr>"
  shows "\<exists>h. snd (bindR m f) = st\<lparr>od_sql := h\<rparr>"
  using assms by (cases m; cases "fst m") auto

lemma run_sql_snd: "\<exists>h. snd (run_sql f st) = st\<lparr>od_sql := h\<rparr>"
  by (auto simp: run_sql_def on_part_def split: prod.splits)

lemma frame_self: "\<exists>h. st = st\<lparr>od_sql := h\<rparr>"
  by (rule exI [of _ "od_sql st"]) simp

lemma frame_more: "\<exists>h. snd (f (st\<lparr>od_sql := h0\<rparr>)) = (st\<lparr>od_sql := h0\<rparr>)\<lparr>od_sql := h\<rparr> \<Longrightarrow> \<exists>h. snd (f (st\<lparr>od_sql := h0\<rparr>)) = st\<lparr>od_sql := h\<rparr>"
  by simp

lemma query_frames:
  "\<exists>h. snd (update_query e p fs st) = st\<lparr>od_sql := h\<rparr>" "\<exists>h. snd (insert_query e p fs st) = st\<lparr>od_sql := h\<rparr>"
proof -
  have b: "\<exists>h. snd (bindR (run_sql f st) (\<lambda>n st. if c n then (Inl x, st) else (Inr (), st))) = st\<lparr>od_sql := h\<rparr>" for f and c :: "nat \<Rightarrow> bool" and x
    by (rule bindR_frame [OF run_sql_snd]) auto
  show "\<exists>h. snd (update_query e p fs st) = st\<lparr>od_sql := h\<rparr>"
    unfolding update_query_def Let_def using frame_self [of st] b [of _ "\<lambda>n. n \<noteq> 1"] by (auto split: sum.splits)
  show "\<exists>h. snd (insert_query e p fs st) = st\<lparr>od_sql := h\<rparr>"
    unfolding insert_query_def Let_def using frame_self [of st] b [of _ "\<lambda>n. n \<noteq> 1"] by (auto split: sum.splits)
qed

lemma obj_save_atomic:
  assumes "od_atomic st"
  shows "\<exists>h. snd (obj_save e p st) = st\<lparr>od_sql := h\<rparr>"
  unfolding obj_save_def save_object_def using assms query_frames by (auto intro!: bindR_frame)

lemma save_each_atomic: "od_atomic st \<Longrightarrow> \<exists>h. snd (save_each e ps st) = st\<lparr>od_sql := h\<rparr>"
proof (induction ps arbitrary: st)
  case (Cons p ps)
  have "\<exists>h'. snd (save_each e ps (st\<lparr>od_sql := h\<rparr>)) = st\<lparr>od_sql := h'\<rparr>" for h
    using Cons.IH [of "st\<lparr>od_sql := h\<rparr>"] Cons.prems by simp
  then show ?case using obj_save_atomic [OF Cons.prems] by (auto intro!: bindR_frame)
qed (simp add: frame_self)

lemma save_both_atomic:
  assumes "od_atomic st"
  shows "\<exists>h. snd (save_both e st) = st\<lparr>od_sql := h\<rparr>"
  unfolding save_both_def
proof (rule bindR_frame [OF save_each_atomic [OF assms]])
  fix x h
  show "\<exists>h'. snd (save_each e (filter (\<lambda>p. \<not> om_exists (od_created (st\<lparr>od_sql := h\<rparr>)) p) (map fst (om_list (od_modified (st\<lparr>od_sql := h\<rparr>))))) (st\<lparr>od_sql := h\<rparr>)) = st\<lparr>od_sql := h'\<rparr>"
    using save_each_atomic [of "st\<lparr>od_sql := h\<rparr>" e] assms by simp
qed

lemma obj_save_ok:
  assumes ok: "od_ok st" and p: "p \<in> live st" and na: "\<not> od_atomic st"
  shows "od_ok (snd (obj_save e p st))"
proof -
  define fs where "fs = obj_changes (od_objs st p)"
  show ?thesis
  proof (cases "om_exists (od_created st) p")
    case True
    obtain r h where q: "insert_query e p fs st = (r, st\<lparr>od_sql := h\<rparr>)"
      using query_frames(2) [of e p fs st] by (cases "insert_query e p fs st") auto
    have "p \<in> keys (od_created (st\<lparr>od_sql := h\<rparr>))" using True keys_exists [OF od_okD(1) [OF ok]] by simp
    then obtain st' where "insert_register p (st\<lparr>od_sql := h\<rparr>) = (Inr (), st')" "od_ok st'"
      using insert_register_ok [of "st\<lparr>od_sql := h\<rparr>" p] ok by auto
    then show ?thesis using True q na ok by (cases r) (simp_all add: obj_save_def save_object_def fs_def)
  next
    case False
    obtain r h where q: "update_query e p fs st = (r, st\<lparr>od_sql := h\<rparr>)"
      using query_frames(1) [of e p fs st] by (cases "update_query e p fs st") auto
    have "od_ok (update_register p (st\<lparr>od_sql := h\<rparr>))" using ok p by (intro update_register_ok(1)) simp_all
    then show ?thesis using False q na ok by (cases r) (simp_all add: obj_save_def save_object_def fs_def)
  qed
qed

text \<open>The loops that empty the maps.\<close>

lemma front_key:
  assumes "om_list m = e # es" and "om_ok m"
  shows "om_front m = Some e" and "fst e \<in> keys m" and "filter (\<lambda>x. fst x \<noteq> fst e) (om_list m) = es"
proof -
  show "om_front m = Some e" "fst e \<in> keys m" using assms(1) by (simp_all add: om_front_list keys_def)
  have "fst e \<notin> fst ` set es" using om_list_distinct [OF assms(2)] assms(1) by simp
  then have "filter (\<lambda>x. fst x \<noteq> fst e) es = es" by (intro filter_True ballI) (metis imageI)
  then show "filter (\<lambda>x. fst x \<noteq> fst e) (om_list m) = es" using assms(1) by simp
qed

lemma register_created_ok:
  "od_ok st \<Longrightarrow> om_size (od_created st) = n \<Longrightarrow>
   \<exists>st'. register_created n st = (Inr (), st') \<and> od_ok st' \<and> om_list (od_created st') = [] \<and> od_atomic st' = od_atomic st \<and> od_sql st' = od_sql st"
proof (induction n arbitrary: st)
  case 0
  then have "om_front (od_created st) = None" "om_list (od_created st) = []" by (auto simp: om_size_list om_front_list)
  then show ?case using 0 by (simp add: register_created.simps)
next
  case (Suc n)
  then obtain e es where l: "om_list (od_created st) = e # es" "length es = n" by (cases "om_list (od_created st)") (auto simp: om_size_list)
  obtain p u where e: "e = (p, u)" by (cases e)
  note F = front_key [OF l(1) od_okD(1) [OF Suc.prems(1)]]
  have pk: "p \<in> keys (od_created st)" using F(2) e by simp
  obtain st1 where s1: "insert_register p st = (Inr (), st1)" "od_ok st1" "od_atomic st1 = od_atomic st"
      "om_list (od_created st1) = filter (\<lambda>x. fst x \<noteq> p) (om_list (od_created st))"
    using insert_register_ok [OF Suc.prems(1) pk] by blast
  have sq: "od_sql st1 = od_sql st" using s1(1) by (auto simp: insert_register_def Let_def split: sum.splits)
  have "om_size (od_created st1) = n" using s1(4) F(3) e l(2) by (simp add: om_size_list)
  then obtain st' where "register_created n st1 = (Inr (), st')" "od_ok st'" "om_list (od_created st') = []" "od_atomic st' = od_atomic st1" "od_sql st' = od_sql st1"
    using Suc.IH [OF s1(2)] by blast
  then show ?case using s1 F(1) e sq by (simp add: register_created.simps [of "Suc n"])
qed

lemma register_modified_ok:
  "od_ok st \<Longrightarrow> om_size (od_modified st) = n \<Longrightarrow>
   od_ok (register_modified n st) \<and> om_list (od_modified (register_modified n st)) = [] \<and> od_created (register_modified n st) = od_created st \<and>
   od_atomic (register_modified n st) = od_atomic st \<and> od_sql (register_modified n st) = od_sql st \<and> od_loaded (register_modified n st) = od_loaded st"
proof (induction n arbitrary: st)
  case 0
  then have "om_front (od_modified st) = None" "om_list (od_modified st) = []" by (auto simp: om_size_list om_front_list)
  then show ?case using 0 by (simp add: register_modified.simps)
next
  case (Suc n)
  then obtain e es where l: "om_list (od_modified st) = e # es" "length es = n" by (cases "om_list (od_modified st)") (auto simp: om_size_list)
  obtain p u where e: "e = (p, u)" by (cases e)
  note M = od_okD(2) [OF Suc.prems(1)]
  note F = front_key [OF l(1) M]
  have pl: "p \<in> live st" using F(2) e od_okD(6) [OF Suc.prems(1)] by auto
  define st1 where "st1 = update_register p st"
  have o1: "od_ok st1" unfolding st1_def by (rule update_register_ok(1) [OF Suc.prems(1) pl])
  have "om_list (od_modified st1) = es"
    using om_erase_spec(2) [OF M, of p] F(3) e by (simp add: st1_def update_register_def unset_modified_def)
  then have "om_size (od_modified st1) = n" using l(2) by (simp add: om_size_list)
  moreover have "od_created st1 = od_created st" "od_atomic st1 = od_atomic st" "od_sql st1 = od_sql st" "od_loaded st1 = od_loaded st"
    by (simp_all add: st1_def update_register_def)
  ultimately show ?case using Suc.IH [OF o1] F(1) e by (simp add: register_modified.simps [of "Suc n" st] st1_def)
qed

lemma bindR_keeps: "P (snd m) \<Longrightarrow> (\<And>x s. P s \<Longrightarrow> P (snd (f x s))) \<Longrightarrow> P (snd (bindR m f))"
  by (cases m; cases "fst m") auto

lemma transaction_keeps:
  assumes q: "\<And>t x. P x \<Longrightarrow> P (snd (q t x))" and f: "\<And>x. P x \<Longrightarrow> P (snd (func x))" and x: "P x"
  shows "P (snd (transaction auto q func x))"
proof -
  have body: "P (snd (bindR (func y) (\<lambda>_ x. bindR (q commit_sql x) (\<lambda>_ x. (Inr (), x)))))" if "P y" for y
    using q f that by (auto intro!: bindR_keeps [of P])
  have "P (snd (case bindR (func y) (\<lambda>_ x. bindR (q commit_sql x) (\<lambda>_ x. (Inr (), x))) of
      (Inr u, x) \<Rightarrow> (Inr u, x)
    | (Inl e, x) \<Rightarrow> if is_db_exn e then bindR (q rollback_sql x) (\<lambda>_ x. (Inl e, x)) else (Inl e, x)))" if "P y" for y
    using body [OF that] q by (auto split: prod.splits sum.splits intro!: bindR_keeps [of P])
  then show ?thesis unfolding transaction_def using q x by (auto intro!: bindR_keeps [of P])
qed

definition sql_transaction :: "('h, 'v, 'j) dbenv \<Rightarrow> ('h, 'j) objdb \<Rightarrow> (unit, 'h, 'j) od_result" where
  "sql_transaction e = transaction (\<lambda>st. s_autocommit (e_sql e) (od_sql st)) (\<lambda>text. run_sql (exec (e_sql e) text [])) (save_both e)"

lemma sql_transaction_frame:
  assumes "od_atomic st"
  shows "\<exists>h. snd (sql_transaction e st) = st\<lparr>od_sql := h\<rparr>"
  unfolding sql_transaction_def
proof (rule transaction_keeps)
  show "\<exists>h. snd (run_sql (exec (e_sql e) t []) x) = st\<lparr>od_sql := h\<rparr>" if "\<exists>h. x = st\<lparr>od_sql := h\<rparr>" for t x
    using that run_sql_snd [of "exec (e_sql e) t []" x] by auto
  show "\<exists>h. snd (save_both e x) = st\<lparr>od_sql := h\<rparr>" if "\<exists>h. x = st\<lparr>od_sql := h\<rparr>" for x
    using that save_both_atomic [of x e] assms by auto
qed (rule frame_self)

text \<open>What SaveObjects does, by the outcome of the transaction.\<close>

lemma save_objects_cases:
  assumes ok: "od_ok st" and t: "sql_transaction e (st\<lparr>od_atomic := True\<rparr>) = (r, st1)"
  shows "\<exists>h. st1 = st\<lparr>od_atomic := True, od_sql := h\<rparr>"
    and "r = Inl x \<Longrightarrow> save_objects e st = (Inl x, st1\<lparr>od_atomic := False\<rparr>)"
    and "r = Inr u \<Longrightarrow> \<exists>st'. save_objects e st = (Inr (), st') \<and> od_ok st' \<and> om_list (od_created st') = [] \<and>
       om_list (od_modified st') = [] \<and> od_sql st' = od_sql st1 \<and> \<not> od_atomic st'"
proof -
  show f: "\<exists>h. st1 = st\<lparr>od_atomic := True, od_sql := h\<rparr>"
    using sql_transaction_frame [of "st\<lparr>od_atomic := True\<rparr>" e] t by simp
  show "save_objects e st = (Inl x, st1\<lparr>od_atomic := False\<rparr>)" if "r = Inl x"
    using t that unfolding save_objects_def sql_transaction_def [symmetric] by simp
  show "\<exists>st'. save_objects e st = (Inr (), st') \<and> od_ok st' \<and> om_list (od_created st') = [] \<and>
       om_list (od_modified st') = [] \<and> od_sql st' = od_sql st1 \<and> \<not> od_atomic st'" if "r = Inr u"
  proof -
    have o1: "od_ok st1" using f ok by auto
    obtain st2 where s2: "register_created (om_size (od_created st1)) st1 = (Inr (), st2)" "od_ok st2" "om_list (od_created st2) = []" "od_sql st2 = od_sql st1"
      using register_created_ok [OF o1 refl] by blast
    note M = register_modified_ok [OF s2(2) refl]
    let ?s = "(register_modified (om_size (od_modified st2)) st2)\<lparr>od_atomic := False\<rparr>"
    have "save_objects e st = (Inr (), ?s)"
      using t that s2(1) unfolding save_objects_def sql_transaction_def [symmetric] by simp
    then show ?thesis using M s2 by (intro exI [of _ ?s]) auto
  qed
qed

lemma save_objects_ok: "od_ok st \<Longrightarrow> od_ok (snd (save_objects e st)) \<and> \<not> od_atomic (snd (save_objects e st))"
proof -
  assume ok: "od_ok st"
  obtain r st1 where t: "sql_transaction e (st\<lparr>od_atomic := True\<rparr>) = (r, st1)" by force
  note C = save_objects_cases [OF ok t]
  show ?thesis
  proof (cases r)
    case (Inl x)
    then show ?thesis using C(1) C(2) [OF Inl] ok by auto
  next
    case (Inr u)
    then show ?thesis using C(3) [OF Inr] by auto
  qed
qed

section \<open>Deleting\<close>

lemma od_ok_remove:
  assumes ok: "od_ok st" and c: "om_ok c" "keys c = keys (od_created st) - {p}" and m: "om_ok m" "keys m = keys (od_modified st) - {p}"
  shows "od_ok (st\<lparr>od_modified := m, od_created := c, od_loaded := filter (\<lambda>kp. snd kp \<noteq> p) (od_loaded st)\<rparr>)"
proof -
  let ?s = "st\<lparr>od_modified := m, od_created := c, od_loaded := filter (\<lambda>kp. snd kp \<noteq> p) (od_loaded st)\<rparr>"
  have l: "loaded ?s = loaded st - {p}" "live ?s = live st - {p}" using c by (auto simp: loaded_def live_def)
  have d: "distinct (map fst (filter (\<lambda>kp. snd kp \<noteq> p) (od_loaded st)))" "distinct (map snd (filter (\<lambda>kp. snd kp \<noteq> p) (od_loaded st)))"
    using od_okD(3,4) [OF ok] by (simp_all add: distinct_map_filter)
  show ?thesis using ok c m d unfolding od_ok_def l by auto
qed

lemma delete_object_ok:
  assumes ok: "od_ok st" and p: "p \<in> live st"
  shows "od_ok (snd (delete_object e p st)) \<and> od_atomic (snd (delete_object e p st)) = od_atomic st \<and>
     (fst (delete_object e p st) = Inr () \<longrightarrow> live (snd (delete_object e p st)) = live st - {p})"
proof -
  note C = od_okD(1) [OF ok] and M = od_okD(2) [OF ok]
  note km = omap_keys_erase [OF M, of p]
  show ?thesis
  proof (cases "om_exists (od_created st) p")
    case True
    then have pc: "p \<in> keys (od_created st)" using keys_exists [OF C] by simp
    then have "p \<notin> loaded st" using od_okD(5) [OF ok] by blast
    then have f: "filter (\<lambda>kp. snd kp \<noteq> p) (od_loaded st) = od_loaded st" by (intro filter_True ballI) (auto simp: loaded_def)
    note kc = omap_keys_erase [OF C, of p]
    let ?s = "st\<lparr>od_modified := snd (om_erase p (od_modified st)), od_created := snd (om_erase p (od_created st)), od_loaded := filter (\<lambda>kp. snd kp \<noteq> p) (od_loaded st)\<rparr>"
    have e: "delete_object e p st = (Inr (), ?s)" using True by (simp add: delete_object_def Let_def unset_modified_def f)
    have "live ?s = live st - {p}" using kc \<open>p \<notin> loaded st\<close> by (auto simp: live_def loaded_def)
    then show ?thesis unfolding e using od_ok_remove [OF ok, of "snd (om_erase p (od_created st))" p] kc km by simp
  next
    case False
    then have pc: "p \<notin> keys (od_created st)" using keys_exists [OF C] by simp
    then have "p \<in> loaded st" using p by (simp add: live_def)
    then obtain k where k: "(k, p) \<in> set (od_loaded st)" by (auto simp: loaded_def)
    obtain i where i: "obj_id (od_objs st p) = Inr i" "k = object_key i (ob_class (od_objs st p))" using od_okD(10) [OF ok k] by blast
    have "fst x = k \<longleftrightarrow> snd x = p" if "x \<in> set (od_loaded st)" for x
      using k that od_okD(3,4) [OF ok] by (metis distinct_map inj_on_def fst_conv snd_conv)
    then have f: "filter (\<lambda>kp. fst kp \<noteq> k) (od_loaded st) = filter (\<lambda>kp. snd kp \<noteq> p) (od_loaded st)" by (intro filter_cong) auto
    let ?text = "''DELETE FROM '' @ class_table (ob_class (od_objs st p)) @ '' WHERE id=:id''"
    obtain r h where q: "run_sql (exec (e_sql e) ?text [('':id'', StrV i)]) st = (r, st\<lparr>od_sql := h\<rparr>)"
      using run_sql_snd [of "exec (e_sql e) ?text [('':id'', StrV i)]" st] by (cases "run_sql (exec (e_sql e) ?text [('':id'', StrV i)]) st") auto
    let ?s = "(st\<lparr>od_sql := h\<rparr>)\<lparr>od_modified := snd (om_erase p (od_modified st)), od_created := od_created st, od_loaded := filter (\<lambda>kp. snd kp \<noteq> p) (od_loaded st)\<rparr>"
    have c: "delete_object e p st = (case r of Inl x \<Rightarrow> (Inl x, st\<lparr>od_sql := h\<rparr>)
        | Inr n \<Rightarrow> if n \<noteq> 1 then (Inl (DeleteFailed (ob_class (od_objs st p))), st\<lparr>od_sql := h\<rparr>) else (Inr (), ?s))"
      using False i q unfolding delete_object_def by (cases r) (simp_all add: Let_def f [unfolded i(2)] unset_modified_def)
    have "od_ok ?s" using od_ok_remove [of "st\<lparr>od_sql := h\<rparr>" "od_created st" p "snd (om_erase p (od_modified st))"] ok C pc km by simp
    moreover have "live ?s = live st - {p}" using pc by (auto simp: live_def loaded_def)
    ultimately show ?thesis unfolding c using ok by (cases r) simp_all
  qed
qed

text \<open>Each row of a table has an object of its own, when the IDs in the table are distinct.\<close>

definition row_id :: "'v sql_value \<Rightarrow> 'v row \<Rightarrow> (db_exn + string) option" where
  "row_id V row = map_option (get_string V) (map_of row ''id'')"

definition ids_distinct :: "('h, 'v, 'j) dbenv \<Rightarrow> bool" where
  "ids_distinct e \<longleftrightarrow> (\<forall>text ps h n rows h'. s_query (e_sql e) (''SELECT * FROM '' @ text) ps h = (Inr (n, rows), h') \<longrightarrow>
     distinct (map (row_id (e_val e)) rows))"

lemma object_key_inj: "object_key i c = object_key j c \<longleftrightarrow> i = j"
  by (simp add: object_key_def)

lemma set_obj_loaded: "od_loaded ((set_obj p ob st)\<lparr>od_next := n\<rparr>) = od_loaded st"
  by simp

lemma notify_loaded [simp]: "od_loaded (notify_modified p st) = od_loaded st"
  by (simp add: notify_modified_def)

lemma change_field_loaded [simp]: "od_loaded (change_field p n op st) = od_loaded st"
  by (auto simp: change_field_def Let_def split: option.split prod.split)

lemma construct_at_loaded: "construct_at cl st = (p, s) \<Longrightarrow> od_loaded s = od_loaded st"
  by (auto simp: construct_at_def Let_def split: if_splits)

lemma make_object_loaded:
  assumes "make_object e cl row c st = (r, s)"
  shows "od_loaded s = od_loaded st"
proof -
  obtain p s1 where c: "construct_at cl st = (p, s1)" by force
  obtain r1 ob where i: "init_fields e row (od_objs s1 p) = (r1, ob)" by force
  show ?thesis using assms construct_at_loaded [OF c] by (cases r1; cases c) (auto simp: make_object_def c i)
qed

lemma construct_object_key:
  assumes "construct_object e cl row st = (Inr p, st')"
  shows "\<exists>i. row_id (e_val e) row = Some (Inr i) \<and> (object_key i (cl_name cl), p) \<in> set (od_loaded st') \<and> set (od_loaded st) \<subseteq> set (od_loaded st')"
proof -
  obtain v i where v: "map_of row ''id'' = Some v" "get_string (e_val e) v = Inr i"
    using assms by (auto simp: construct_object_def split: option.splits sum.splits)
  show ?thesis
  proof (cases "map_of (od_loaded st) (object_key i (cl_name cl))")
    case (Some q)
    then show ?thesis using assms v by (auto simp: construct_object_def row_id_def dest: map_of_SomeD)
  next
    case None
    obtain r s where m: "make_object e cl row None st = (r, s)" by force
    have "od_loaded s = od_loaded st" by (rule make_object_loaded [OF m])
    then show ?thesis using assms v None m by (cases r) (auto simp: construct_object_def row_id_def)
  qed
qed

lemma construct_each_keys:
  "construct_each e cl rows st = (Inr ps, st') \<Longrightarrow>
   set (od_loaded st) \<subseteq> set (od_loaded st') \<and>
   list_all2 (\<lambda>row p. \<exists>i. row_id (e_val e) row = Some (Inr i) \<and> (object_key i (cl_name cl), p) \<in> set (od_loaded st')) rows ps"
proof (induction rows arbitrary: st ps)
  case (Cons row rows)
  obtain p s1 where c: "construct_object e cl row st = (Inr p, s1)"
    using Cons.prems by (cases "construct_object e cl row st"; cases "fst (construct_object e cl row st)") auto
  obtain qs s2 where c2: "construct_each e cl rows s1 = (Inr qs, s2)"
    using Cons.prems c by (cases "construct_each e cl rows s1"; cases "fst (construct_each e cl rows s1)") auto
  have "ps = p # qs" "st' = s2" using Cons.prems c c2 by simp_all
  then show ?case using Cons.IH [of s1 qs] c2 construct_object_key [OF c] by auto
qed simp

lemma keyed_distinct:
  assumes "list_all2 (\<lambda>row p. \<exists>i. f row = Some (Inr i) \<and> (object_key i c, p) \<in> set m) rows ps"
    and "distinct (map f rows)" and "distinct (map snd m)"
  shows "distinct ps"
  using assms
proof (induction rows ps rule: list_all2_induct)
  case (Cons row rows p ps)
  obtain i where i: "f row = Some (Inr i)" "(object_key i c, p) \<in> set m" using Cons.hyps(1) by blast
  have "q \<noteq> p" if "q \<in> set ps" for q
  proof
    assume q: "q = p"
    obtain k where k: "k < length ps" "q = ps ! k" using \<open>q \<in> set ps\<close> by (metis in_set_conv_nth)
    then obtain j where j: "f (rows ! k) = Some (Inr j)" "(object_key j c, p) \<in> set m" "k < length rows"
      using Cons.hyps(2) q by (auto simp: list_all2_conv_all_nth)
    then have "object_key j c = object_key i c" using i(2) Cons.prems(2) by (metis distinct_map inj_onD fst_conv snd_conv)
    then have "f (rows ! k) = f row" using i(1) j(1) by (simp add: object_key_inj)
    then show False using Cons.prems(1) j(3) by (metis distinct.simps(2) image_eqI list.simps(9) nth_mem set_map)
  qed
  then show ?case using Cons by auto
qed simp

lemma delete_each_ok:
  "od_ok st \<Longrightarrow> set ps \<subseteq> live st \<Longrightarrow> distinct ps \<Longrightarrow> od_ok (snd (delete_each e ps st)) \<and> od_atomic (snd (delete_each e ps st)) = od_atomic st"
proof (induction ps arbitrary: st)
  case (Cons p ps)
  obtain r s1 where d: "delete_object e p st = (r, s1)" by force
  have D: "od_ok s1 \<and> od_atomic s1 = od_atomic st \<and> (r = Inr () \<longrightarrow> live s1 = live st - {p})"
    using delete_object_ok [OF Cons.prems(1), of p e] Cons.prems(2) d by simp
  show ?case
  proof (cases r)
    case (Inl x)
    then show ?thesis using d D by simp
  next
    case (Inr u)
    then have "set ps \<subseteq> live s1" using D Cons.prems(2,3) by auto
    then show ?thesis using Cons.IH [of s1] D Cons.prems(3) d Inr by simp
  qed
qed simp

lemma delete_objects_ok:
  assumes ok: "od_ok st" and cl: "plain cl" and rd: "rows_distinct (e_sql e)" and ids: "ids_distinct e"
  shows "od_ok (snd (delete_objects e cl q st))"
proof -
  obtain r s1 where l: "load_objects e cl q st = (r, s1)" by force
  note L = load_objects_ok [OF ok cl rd l]
  show ?thesis
  proof (cases r)
    case (Inl x)
    then show ?thesis using l L by (simp add: delete_objects_def)
  next
    case (Inr ps)
    obtain n rows h where c: "s_query (e_sql e) (''SELECT * FROM '' @ class_table (cl_name cl) @ '' '' @ get_text q) (q_params q) (od_sql st) = (Inr (n, rows), h)"
      "construct_each e cl rows (st\<lparr>od_sql := h\<rparr>) = (Inr ps, s1)"
      using l Inr by (auto simp: load_objects_def run_sql_def on_part_def bindR_Inr split: prod.splits)
    have "distinct ps" using keyed_distinct [of "row_id (e_val e)" "cl_name cl" "od_loaded s1" rows ps] construct_each_keys [OF c(2)] ids c(1) od_okD(4) L
      unfolding ids_distinct_def by blast
    moreover have "set ps \<subseteq> live s1" using L Inr by (auto simp: live_def)
    ultimately have "od_ok (snd (delete_each e ps s1))" using delete_each_ok L by blast
    then show ?thesis using l Inr by (cases "delete_each e ps s1"; cases "fst (delete_each e ps s1)") (simp_all add: delete_objects_def)
  qed
qed

section \<open>Histories\<close>

datatype ('v, 'j) od_op =
    Create "'j dbclass" string
  | Change nat string "'j field \<Rightarrow> bool \<times> 'j field"
  | Save nat
  | SaveAll
  | Remove nat
  | Load "'j dbclass" "'v query"
  | LoadUnique "'j dbclass" "'v query"
  | DeleteMatching "'j dbclass" "'v query"
  | DeleteUnique "'j dbclass" "'v query"

text \<open>The caller goes on after an exception.\<close>

fun od_step :: "('h, 'v, 'j) dbenv \<Rightarrow> ('v, 'j) od_op \<Rightarrow> ('h, 'j) objdb \<Rightarrow> ('h, 'j) objdb" where
  "od_step e (Create cl i) st = snd (create_object e cl i st)"
| "od_step e (Change p n op) st = change_field p n op st"
| "od_step e (Save p) st = snd (obj_save e p st)"
| "od_step e SaveAll st = snd (save_objects e st)"
| "od_step e (Remove p) st = snd (delete_object e p st)"
| "od_step e (Load cl q) st = snd (load_objects e cl q st)"
| "od_step e (LoadUnique cl q) st = snd (try_load_unique e cl q st)"
| "od_step e (DeleteMatching cl q) st = snd (delete_objects e cl q st)"
| "od_step e (DeleteUnique cl q) st = snd (try_delete_unique e cl q st)"

text \<open>Only objects that the database owns are used, and no setter touches the ID.\<close>

fun od_legal :: "('v, 'j) od_op \<Rightarrow> ('h, 'j) objdb \<Rightarrow> bool" where
  "od_legal (Create cl i) st \<longleftrightarrow> plain cl"
| "od_legal (Change p n op) st \<longleftrightarrow> p \<in> live st \<and> n \<noteq> ''id'' \<and> honest op"
| "od_legal (Save p) st \<longleftrightarrow> p \<in> live st"
| "od_legal SaveAll st \<longleftrightarrow> True"
| "od_legal (Remove p) st \<longleftrightarrow> p \<in> live st"
| "od_legal (Load cl q) st \<longleftrightarrow> plain cl"
| "od_legal (LoadUnique cl q) st \<longleftrightarrow> plain cl"
| "od_legal (DeleteMatching cl q) st \<longleftrightarrow> plain cl"
| "od_legal (DeleteUnique cl q) st \<longleftrightarrow> plain cl"

fun od_run :: "('h, 'v, 'j) dbenv \<Rightarrow> ('v, 'j) od_op list \<Rightarrow> ('h, 'j) objdb \<Rightarrow> bool \<times> ('h, 'j) objdb" where
  "od_run e [] st = (True, st)"
| "od_run e (c # cs) st = (if od_legal c st then od_run e cs (od_step e c st) else (False, st))"

text \<open>The flag of SaveObjects stays off between calls.\<close>

lemma bindR_flag: "od_atomic (snd m) = b \<Longrightarrow> (\<And>x s. od_atomic (snd (f x s)) = od_atomic s) \<Longrightarrow> od_atomic (snd (bindR m f)) = b"
  by (cases m; cases "fst m") simp_all

lemma run_sql_atomic [simp]: "od_atomic (snd (run_sql f st)) = od_atomic st"
  using run_sql_snd [of f st] by auto

lemma notify_atomic [simp]: "od_atomic (notify_modified p st) = od_atomic st"
  by (simp add: notify_modified_def)

lemma change_field_atomic [simp]: "od_atomic (change_field p n op st) = od_atomic st"
  by (auto simp: change_field_def Let_def split: option.split prod.split)

lemma make_object_atomic [simp]: "od_atomic (snd (make_object e cl row c st)) = od_atomic st"
proof -
  obtain p s1 where a: "construct_at cl st = (p, s1)" by force
  have s1: "od_atomic s1 = od_atomic st" using a by (auto simp: construct_at_def Let_def split: if_splits)
  obtain r1 ob where i: "init_fields e row (od_objs s1 p) = (r1, ob)" by force
  show ?thesis using s1 by (cases r1; cases c) (simp_all add: make_object_def a i)
qed

lemma create_object_atomic [simp]: "od_atomic (snd (create_object e cl i st)) = od_atomic st"
  unfolding create_object_def by (rule bindR_flag) simp_all

lemma insert_register_atomic [simp]: "od_atomic (snd (insert_register p st)) = od_atomic st"
  by (simp add: insert_register_def Let_def split: sum.split)

lemma obj_save_flag [simp]: "od_atomic (snd (obj_save e p st)) = od_atomic st"
proof -
  have q: "od_atomic (snd (update_query e p fs st)) = od_atomic st" "od_atomic (snd (insert_query e p fs st)) = od_atomic st" for fs
    using query_frames [of e p fs st] by auto
  have "od_atomic (snd (bindR (insert_query e p fs st) (\<lambda>_ st. if \<not> od_atomic st then insert_register p st else (Inr (), st)))) = od_atomic st" for fs
    by (rule bindR_flag [OF q(2)]) simp
  moreover have "od_atomic (snd (bindR (update_query e p fs st) (\<lambda>_ st. if \<not> od_atomic st then (Inr (), update_register p st) else (Inr (), st)))) = od_atomic st" for fs
    by (rule bindR_flag [OF q(1)]) (simp add: update_register_def)
  ultimately show ?thesis by (simp add: obj_save_def save_object_def)
qed

lemma delete_object_atomic [simp]: "od_atomic (snd (delete_object e p st)) = od_atomic st"
proof -
  have "od_atomic (snd (bindR (run_sql f st) (\<lambda>n st. if n \<noteq> (1 :: nat) then (Inl x, st) else (Inr (), g st)))) = od_atomic st"
    if "\<And>s. od_atomic (g s) = od_atomic s" for f x g
    by (rule bindR_flag) (simp_all add: that)
  then show ?thesis unfolding delete_object_def Let_def by (simp split: sum.split)
qed

lemma construct_object_atomic [simp]: "od_atomic (snd (construct_object e cl row st)) = od_atomic st"
proof -
  have "od_atomic (snd (bindR (make_object e cl row None st) (\<lambda>p st. (Inr p, st\<lparr>od_loaded := (k, p) # od_loaded st\<rparr>)))) = od_atomic st" for k
    by (rule bindR_flag) simp_all
  then show ?thesis unfolding construct_object_def Let_def by (simp split: option.split sum.split)
qed

lemma construct_each_atomic [simp]: "od_atomic (snd (construct_each e cl rows st)) = od_atomic st"
proof (induction rows arbitrary: st)
  case (Cons row rows)
  have "od_atomic (snd (bindR (construct_each e cl rows s) (\<lambda>ps st. (Inr (p # ps), st)))) = od_atomic s" for p s
    by (rule bindR_flag [OF Cons.IH]) simp
  then show ?case unfolding construct_each.simps by (rule bindR_flag [OF construct_object_atomic])
qed simp

lemma load_objects_atomic [simp]: "od_atomic (snd (load_objects e cl q st)) = od_atomic st"
  unfolding load_objects_def by (rule bindR_flag) (simp_all split: prod.split)

lemma delete_each_atomic [simp]: "od_atomic (snd (delete_each e ps st)) = od_atomic st"
proof (induction ps arbitrary: st)
  case (Cons p ps)
  then show ?case unfolding delete_each.simps by (intro bindR_flag delete_object_atomic)
qed simp

lemma delete_objects_atomic [simp]: "od_atomic (snd (delete_objects e cl q st)) = od_atomic st"
proof -
  have "od_atomic (snd (bindR (delete_each e ps s) (\<lambda>_ st. (Inr (length ps), st)))) = od_atomic s" for ps s
    by (rule bindR_flag) simp_all
  then show ?thesis unfolding delete_objects_def by (intro bindR_flag) simp_all
qed

lemma try_load_unique_atomic [simp]: "od_atomic (snd (try_load_unique e cl q st)) = od_atomic st"
  unfolding try_load_unique_def by (rule bindR_flag) simp_all

lemma try_delete_unique_atomic [simp]: "od_atomic (snd (try_delete_unique e cl q st)) = od_atomic st"
  unfolding try_delete_unique_def by (rule bindR_flag) simp_all

lemma atomic_kept:
  assumes na: "\<not> od_atomic st" and ok: "od_ok st"
  shows "\<not> od_atomic (od_step e c st)"
  using na
proof (cases c)
  case SaveAll
  then show ?thesis using save_objects_ok [OF ok, THEN conjunct2] by simp
qed auto

lemma od_step_ok:
  assumes ok: "od_ok st" and na: "\<not> od_atomic st" and rd: "rows_distinct (e_sql e)" and ids: "ids_distinct e" and legal: "od_legal c st"
  shows "od_ok (od_step e c st)"
proof (cases c)
  case (Create cl i)
  then show ?thesis using create_object_ok [OF ok, of cl e i] legal by auto
next
  case (Change p n op)
  then show ?thesis using change_field_ok [OF ok] legal by simp
next
  case (Save p)
  then show ?thesis using obj_save_ok [OF ok _ na] legal by simp
next
  case SaveAll
  then show ?thesis using save_objects_ok [OF ok, THEN conjunct1] by simp
next
  case (Remove p)
  then show ?thesis using delete_object_ok [OF ok, THEN conjunct1] legal by simp
next
  case (Load cl q)
  then show ?thesis using load_objects_ok [OF ok _ rd, of cl q "fst (load_objects e cl q st)" "snd (load_objects e cl q st)"] legal by simp
next
  case (LoadUnique cl q)
  have "od_ok (snd (load_objects e cl q st))"
    using load_objects_ok [OF ok _ rd, of cl q "fst (load_objects e cl q st)" "snd (load_objects e cl q st)"] legal LoadUnique by simp
  then have "od_ok (snd (try_load_unique e cl q st))" unfolding try_load_unique_def by (rule bindR_keeps) simp
  then show ?thesis using LoadUnique by simp
next
  case (DeleteMatching cl q)
  then show ?thesis using delete_objects_ok [OF ok _ rd ids] legal by simp
next
  case (DeleteUnique cl q)
  have "od_ok (snd (delete_objects e cl q st))" using delete_objects_ok [OF ok _ rd ids] legal DeleteUnique by simp
  then have "od_ok (snd (try_delete_unique e cl q st))" unfolding try_delete_unique_def by (rule bindR_keeps) simp
  then show ?thesis using DeleteUnique by simp
qed


lemma new_objdb_ok: "od_ok (new_objdb h)"
  by (simp add: od_ok_def new_objdb_def keys_def live_def loaded_def)

text \<open>C16: whatever objects are created, changed, saved, loaded and deleted, in any order and with any errors
  of the database, the maps of the database agree: no object is both new and loaded, each key names one loaded
  object and the other way round, the modified objects are objects of the database, and every object with
  changes is among them.\<close>

theorem objects_in_order:
  assumes "rows_distinct (e_sql e)" and "ids_distinct e" and "od_run e cs (new_objdb h) = (True, st)"
  shows "od_ok st \<and> \<not> od_atomic st"
proof -
  have "od_run e cs s = (True, st) \<Longrightarrow> od_ok s \<Longrightarrow> \<not> od_atomic s \<Longrightarrow> od_ok st \<and> \<not> od_atomic st" for s
  proof (induction cs arbitrary: s)
    case (Cons c cs)
    then have "od_legal c s" "od_run e cs (od_step e c s) = (True, st)" by (simp_all split: if_splits)
    then show ?case using Cons.IH od_step_ok [OF Cons.prems(2,3) assms(1,2)] atomic_kept [OF Cons.prems(3,2)] by blast
  qed simp
  from this [OF assms(3) new_objdb_ok] show ?thesis by (simp add: new_objdb_def)
qed

end
