(* ===== verification/Object_Save.thy ===== *)
theory Object_Save
  imports Object_Correct
begin

text \<open>
  SaveObjects is all or nothing, given what sqlite documents of transactions; and a store with one counter, on
  which the properties of the objects are applied.
\<close>

section \<open>SaveObjects is all or nothing\<close>

text \<open>Inside a transaction: the durable content is still D, and the transaction is open unless something failed.\<close>

definition calm :: "('h, 'v, 'j) dbenv \<Rightarrow> ('h \<Rightarrow> 'c) \<Rightarrow> 'c \<Rightarrow> ('a, 'h, 'j) od_result \<Rightarrow> bool" where
  "calm e durable D m \<longleftrightarrow> durable (od_sql (snd m)) = D \<and> (\<not> isl (fst m) \<longrightarrow> \<not> s_autocommit (e_sql e) (od_sql (snd m)))"

lemma calm_bind: "calm e durable D m \<Longrightarrow> (\<And>x s. calm e durable D (Inr x, s) \<Longrightarrow> calm e durable D (f x s)) \<Longrightarrow> calm e durable D (bindR m f)"
proof -
  assume m: "calm e durable D m" and f: "\<And>x s. calm e durable D (Inr x, s) \<Longrightarrow> calm e durable D (f x s)"
  obtain r s where ms: "m = (r, s)" by force
  show ?thesis
  proof (cases r)
    case (Inl x)
    then show ?thesis using m by (simp add: ms calm_def)
  next
    case (Inr x)
    then show ?thesis using m f by (simp add: ms)
  qed
qed

lemma calm_run:
  assumes L: "sql_laws (e_sql e) durable" and t: "dml text" and c: "calm e durable D (Inr x, st)"
  shows "calm e durable D (run_sql (exec (e_sql e) text ps) st)"
proof -
  obtain r h where x: "exec (e_sql e) text ps (od_sql st) = (r, h)" by force
  have "durable h = durable (od_sql st)" "\<not> isl r \<Longrightarrow> \<not> s_autocommit (e_sql e) h"
    using exec_laws(3,4) [OF L x] t c by (simp_all add: calm_def)
  then show ?thesis using c by (simp add: calm_def run_sql_def on_part_def x)
qed

lemma calm_queries:
  assumes L: "sql_laws (e_sql e) durable" and c: "calm e durable D (Inr x, st)"
  shows "calm e durable D (update_query e p fs st)" and "calm e durable D (insert_query e p fs st)"
proof -
  have q: "calm e durable D (bindR (run_sql (exec (e_sql e) s ps) st) (\<lambda>n st. if n \<noteq> (1 :: nat) then (Inl y, st) else (Inr (), st)))"
    if "dml s" for s ps y
    by (rule calm_bind [OF calm_run [OF L that c]]) (simp add: calm_def)
  have f: "calm e durable D (Inl y :: db_exn + unit, st)" "calm e durable D (Inr (), st)" for y using c by (simp_all add: calm_def)
  have t: "dml (''UPDATE '' @ u)" "dml (''INSERT INTO '' @ u)" for u by (simp_all add: dml_def)
  show "calm e durable D (update_query e p fs st)"
    unfolding update_query_def Let_def using f q [OF t(1)] by (simp split: sum.split)
  show "calm e durable D (insert_query e p fs st)"
    unfolding insert_query_def Let_def using f q [OF t(2)] by (simp split: sum.split)
qed

lemma calm_save:
  assumes L: "sql_laws (e_sql e) durable" and c: "calm e durable D (Inr x, st)"
  shows "calm e durable D (obj_save e p st)"
proof -
  have i: "calm e durable D (insert_register p s)" if "calm e durable D (Inr y, s)" for y s
  proof -
    have "od_sql (snd (insert_register p s)) = od_sql s" by (simp add: insert_register_def Let_def split: sum.split)
    then show ?thesis using that by (simp add: calm_def)
  qed
  have "calm e durable D (bindR (insert_query e p fs st) (\<lambda>_ st. if \<not> od_atomic st then insert_register p st else (Inr (), st)))" for fs
    by (rule calm_bind [OF calm_queries(2) [OF L c]]) (use i in \<open>auto simp: calm_def\<close>)
  moreover have "calm e durable D (bindR (update_query e p fs st) (\<lambda>_ st. if \<not> od_atomic st then (Inr (), update_register p st) else (Inr (), st)))" for fs
    by (rule calm_bind [OF calm_queries(1) [OF L c]]) (simp add: calm_def update_register_def)
  ultimately show ?thesis by (simp add: obj_save_def save_object_def)
qed

lemma calm_save_each:
  assumes L: "sql_laws (e_sql e) durable"
  shows "calm e durable D (Inr (), st) \<Longrightarrow> calm e durable D (save_each e ps st)"
proof (induction ps arbitrary: st)
  case (Cons p ps)
  show ?case unfolding save_each.simps by (rule calm_bind [OF calm_save [OF L Cons.prems]]) (simp add: Cons.IH)
qed (simp add: calm_def)

lemma calm_save_both:
  assumes L: "sql_laws (e_sql e) durable" and c: "calm e durable D (Inr (), st)"
  shows "calm e durable D (save_both e st)"
  unfolding save_both_def by (rule calm_bind [OF calm_save_each [OF L c]]) (simp add: calm_save_each [OF L])

lemma sql_transaction_outcome:
  fixes e :: "('h, 'v, 'j) dbenv" and st :: "('h, 'j) objdb"
  assumes L: "sql_laws (e_sql e) durable" and t: "sql_transaction e st = (r, st')"
  shows "isl r \<Longrightarrow> durable (od_sql st') = durable (od_sql st)"
    and "\<not> isl r \<Longrightarrow> \<exists>n h st2 n'. exec (e_sql e) begin_sql [] (od_sql st) = (Inr n, h) \<and> save_both e (st\<lparr>od_sql := h\<rparr>) = (Inr (), st2) \<and>
      exec (e_sql e) commit_sql [] (od_sql st2) = (Inr n', od_sql st') \<and> s_autocommit (e_sql e) (od_sql st')"
proof -
  have f: "durable (od_sql x') = durable (od_sql x) \<and> (\<not> isl r \<longrightarrow> \<not> s_autocommit (e_sql e) (od_sql x'))"
    if "\<not> s_autocommit (e_sql e) (od_sql x)" "save_both e x = (r, x')" for x r x'
    using calm_save_both [OF L, of "durable (od_sql x)" x] that by (simp add: calm_def)
  have g: "od_sql ((\<lambda>h st. st\<lparr>od_sql := h\<rparr>) h x) = h" for h and x :: "('h, 'j) objdb" by simp
  have q: "(\<lambda>text. run_sql (exec (e_sql e) text [])) = (\<lambda>text. on_part od_sql (\<lambda>h st. st\<lparr>od_sql := h\<rparr>) (exec (e_sql e) text []) :: ('h, 'j) objdb \<Rightarrow> _)"
    by (simp add: run_sql_def)
  note O = transaction_outcome [where g = od_sql and put = "\<lambda>h st. st\<lparr>od_sql := h\<rparr>" and auto = "\<lambda>st. s_autocommit (e_sql e) (od_sql st)"
    and func = "save_both e", OF L g refl q f t [unfolded sql_transaction_def]]
  show "isl r \<Longrightarrow> durable (od_sql st') = durable (od_sql st)" using O(1) by simp
  show "\<exists>n h st2 n'. exec (e_sql e) begin_sql [] (od_sql st) = (Inr n, h) \<and> save_both e (st\<lparr>od_sql := h\<rparr>) = (Inr (), st2) \<and>
      exec (e_sql e) commit_sql [] (od_sql st2) = (Inr n', od_sql st') \<and> s_autocommit (e_sql e) (od_sql st')" if "\<not> isl r"
  proof -
    have "\<exists>x1 x2 n n'. run_sql (exec (e_sql e) begin_sql []) st = (Inr n, x1) \<and> \<not> s_autocommit (e_sql e) (od_sql x1) \<and>
        save_both e x1 = (Inr (), x2) \<and> run_sql (exec (e_sql e) commit_sql []) x2 = (Inr n', st') \<and> s_autocommit (e_sql e) (od_sql st')"
      by (rule O(2)) (use that in auto)
    then obtain x1 x2 n n' where o: "run_sql (exec (e_sql e) begin_sql []) st = (Inr n, x1)" "save_both e x1 = (Inr (), x2)"
      "run_sql (exec (e_sql e) commit_sql []) x2 = (Inr n', st')" "s_autocommit (e_sql e) (od_sql st')"
      by blast
    obtain h where h: "exec (e_sql e) begin_sql [] (od_sql st) = (Inr n, h)" "x1 = st\<lparr>od_sql := h\<rparr>" using run_sql_frame [OF o(1)] by blast
    obtain h' where h': "exec (e_sql e) commit_sql [] (od_sql x2) = (Inr n', h')" "st' = x2\<lparr>od_sql := h'\<rparr>" using run_sql_frame [OF o(3)] by blast
    show ?thesis using h h' o(2,4) by auto
  qed
qed

text \<open>
  The statements that saving an object has to send, from its modified fields: an INSERT for a new
  object, and for another one an UPDATE, unless nothing of it has changed.
\<close>

definition insert_statement :: "('h, 'v, 'j) dbenv \<Rightarrow> 'j dbobj \<Rightarrow> (string \<times> 'v params) list" where
  "insert_statement e ob =
     (case insert_values (e_json e) (obj_changes ob) 0 of
        Inl x \<Rightarrow> []
      | Inr (columns, indexes, data) \<Rightarrow>
          [(''INSERT INTO '' @ class_table (ob_class ob) @ '' ('' @ implode '','' columns @ '') VALUES ('' @ implode '','' indexes @ '')'',
            data)])"

definition update_statement :: "('h, 'v, 'j) dbenv \<Rightarrow> 'j dbobj \<Rightarrow> (string \<times> 'v params) list" where
  "update_statement e ob =
     (case (obj_id ob, update_sets (e_json e) (obj_changes ob) 0) of
        (Inr i, Inr (sets, data)) \<Rightarrow>
          if sets = [] then []
          else [(''UPDATE '' @ class_table (ob_class ob) @ '' SET '' @ implode '', '' sets @ '' WHERE id=:id'', ('':id'', StrV i) # data)]
      | _ \<Rightarrow> [])"

text \<open>A store that writes down, in sent, the statements it is given with their parameters.\<close>

definition keeps_log :: "('h, 'v) sql \<Rightarrow> ('h \<Rightarrow> (string \<times> 'v params) list) \<Rightarrow> bool" where
  "keeps_log db sent \<longleftrightarrow> (\<forall>text ps h. sent (snd (s_query db text ps h)) = sent h @ [(text, ps)])"

lemma exec_statement_log: "keeps_log db sent \<Longrightarrow> exec db text ps h = (r, h') \<Longrightarrow> sent h' = sent h @ [(text, ps)]"
proof -
  assume L: "keeps_log db sent" and x: "exec db text ps h = (r, h')"
  obtain q h1 where q: "s_query db text ps h = (q, h1)" by force
  have "h' = h1" using x by (cases q) (auto simp: exec_def q split: if_splits)
  moreover have "sent h1 = sent h @ [(text, ps)]" using L q unfolding keeps_log_def by (metis snd_conv)
  ultimately show ?thesis by simp
qed

lemma run_sql_log:
  assumes "keeps_log (e_sql e) sent" and "run_sql (exec (e_sql e) text ps) st = (r, st')"
  shows "sent (od_sql st') = sent (od_sql st) @ [(text, ps)]"
  using run_sql_frame [OF assms(2)] exec_statement_log [OF assms(1)] by fastforce

lemma queries_log:
  fixes e :: "('h, 'v, 'j) dbenv"
  assumes L: "keeps_log (e_sql e) sent"
  shows "insert_query e p (obj_changes (od_objs st p)) st = (Inr (), st') \<Longrightarrow> sent (od_sql st') = sent (od_sql st) @ insert_statement e (od_objs st p)"
    and "update_query e p (obj_changes (od_objs st p)) st = (Inr (), st') \<Longrightarrow> sent (od_sql st') = sent (od_sql st) @ update_statement e (od_objs st p)"
proof -
  have b: "sent (od_sql st') = sent (od_sql st) @ [(str, ps)]"
    if "bindR (run_sql (exec (e_sql e) str ps) st) (\<lambda>n st. if n \<noteq> (1 :: nat) then (Inl x, st) else (Inr (), st)) = (Inr (), st')" for str ps x
  proof (cases "run_sql (exec (e_sql e) str ps) st")
    case (Pair r st1)
    then have "st' = st1" using that by (cases r) (auto split: if_splits)
    then show ?thesis using run_sql_log [OF L Pair] by simp
  qed
  show "insert_query e p (obj_changes (od_objs st p)) st = (Inr (), st') \<Longrightarrow> sent (od_sql st') = sent (od_sql st) @ insert_statement e (od_objs st p)"
    by (auto simp: insert_query_def insert_statement_def Let_def simp del: One_nat_def split: sum.splits dest!: b)
  show "update_query e p (obj_changes (od_objs st p)) st = (Inr (), st') \<Longrightarrow> sent (od_sql st') = sent (od_sql st) @ update_statement e (od_objs st p)"
    by (auto simp: update_query_def update_statement_def Let_def simp del: One_nat_def split: sum.splits if_splits dest!: b)
qed

text \<open>Inside SaveObjects nothing is registered yet, so the objects are as they were.\<close>

definition save_statement :: "('h, 'v, 'j) dbenv \<Rightarrow> ('h, 'j) objdb \<Rightarrow> nat \<Rightarrow> (string \<times> 'v params) list" where
  "save_statement e st p = (if om_exists (od_created st) p then insert_statement e (od_objs st p) else update_statement e (od_objs st p))"

lemma save_log:
  assumes L: "keeps_log (e_sql e) sent" and a: "od_atomic st" and s: "obj_save e p st = (Inr (), st')"
  shows "sent (od_sql st') = sent (od_sql st) @ save_statement e st p"
proof (cases "om_exists (od_created st) p")
  case True
  obtain r st1 where q: "insert_query e p (obj_changes (od_objs st p)) st = (r, st1)" by force
  then have "r = Inr ()" "od_atomic st1" using s True a query_frames(2) [of e p "obj_changes (od_objs st p)" st]
    by (cases r; auto simp: obj_save_def save_object_def)+
  then show ?thesis using s True q queries_log(1) [OF L, of p st st1] by (simp add: obj_save_def save_object_def save_statement_def)
next
  case False
  obtain r st1 where q: "update_query e p (obj_changes (od_objs st p)) st = (r, st1)" by force
  then have "r = Inr ()" "od_atomic st1" using s False a query_frames(1) [of e p "obj_changes (od_objs st p)" st]
    by (cases r; auto simp: obj_save_def save_object_def)+
  then show ?thesis using s False q queries_log(2) [OF L, of p st st1] by (simp add: obj_save_def save_object_def save_statement_def)
qed

lemma save_each_log:
  assumes L: "keeps_log (e_sql e) sent"
  shows "od_atomic st \<Longrightarrow> save_each e ps st = (Inr (), st') \<Longrightarrow>
    sent (od_sql st') = sent (od_sql st) @ concat (map (save_statement e st) ps)"
proof (induction ps arbitrary: st)
  case (Cons p ps)
  obtain r st1 where p: "obj_save e p st = (r, st1)" by force
  have r: "r = Inr ()" "save_each e ps st1 = (Inr (), st')" using Cons.prems(2) p by (cases r; simp)+
  obtain h where h: "st1 = st\<lparr>od_sql := h\<rparr>" using obj_save_atomic [OF Cons.prems(1), of e p] p by auto
  have "sent (od_sql st') = sent (od_sql st1) @ concat (map (save_statement e st1) ps)"
    by (rule Cons.IH [OF _ r(2)]) (use h Cons.prems(1) in simp)
  moreover have "save_statement e st1 = save_statement e st"
    by (simp add: h save_statement_def fun_eq_iff)
  moreover have "sent (od_sql st1) = sent (od_sql st) @ save_statement e st p"
    using save_log [OF L Cons.prems(1)] p r(1) by simp
  ultimately show ?case by simp
qed simp

lemma save_both_log:
  assumes L: "keeps_log (e_sql e) sent" and a: "od_atomic st" and ok: "od_ok st" and s: "save_both e st = (Inr (), st')"
  shows "sent (od_sql st') = sent (od_sql st) @
    concat (map (\<lambda>p. insert_statement e (od_objs st p)) (map fst (om_list (od_created st)))) @
    concat (map (\<lambda>p. update_statement e (od_objs st p)) (filter (\<lambda>p. p \<notin> set (map fst (om_list (od_created st)))) (map fst (om_list (od_modified st)))))"
proof -
  let ?c = "map fst (om_list (od_created st))" and ?m = "map fst (om_list (od_modified st))"
  have ex: "om_exists (od_created st) p \<longleftrightarrow> p \<in> set ?c" for p
    using keys_exists [OF od_okD(1) [OF ok], of p] by (simp add: keys_def)
  obtain r st1 where c: "save_each e ?c st = (r, st1)" by force
  have r: "r = Inr ()" using s c by (cases r) (simp_all add: save_both_def)
  obtain h where h: "st1 = st\<lparr>od_sql := h\<rparr>" using save_each_atomic [OF a, of e ?c] c by auto
  have m: "save_each e (filter (\<lambda>p. p \<notin> set ?c) ?m) st1 = (Inr (), st')"
    using s c r h ex by (simp add: save_both_def)
  have st: "save_statement e st1 = save_statement e st"
    by (simp add: h save_statement_def fun_eq_iff)
  have "concat (map (save_statement e st) ?c) = concat (map (\<lambda>p. insert_statement e (od_objs st p)) ?c)"
    by (rule arg_cong [where f = concat], rule map_cong) (use ex in \<open>auto simp: save_statement_def\<close>)
  moreover have "concat (map (save_statement e st) (filter (\<lambda>p. p \<notin> set ?c) ?m)) = concat (map (\<lambda>p. update_statement e (od_objs st p)) (filter (\<lambda>p. p \<notin> set ?c) ?m))"
    by (rule arg_cong [where f = concat], rule map_cong) (use ex in \<open>auto simp: save_statement_def\<close>)
  moreover have "od_atomic st1" using h a by simp
  ultimately show ?thesis
    using save_each_log [OF L a c [unfolded r]] save_each_log [OF L _ m] st by simp
qed

text \<open>C15: SaveObjects is all or nothing: when it throws, what the database durably holds and every object and map in memory are as before; when it returns, it has sent BEGIN, one INSERT with the changes of each new object in their order, one UPDATE with the changes of each modified object that is not new, and COMMIT, and nothing else; then no object is new or modified any more and no transaction is open.\<close>

theorem save_all_or_nothing:
  fixes e :: "('h, 'v, 'j) dbenv"
  assumes "sql_laws (e_sql e) durable" and "keeps_log (e_sql e) sent" and "od_ok st" and "save_objects e st = (r, st')"
  shows "(isl r \<longrightarrow> durable (od_sql st') = durable (od_sql st) \<and> st' = st\<lparr>od_sql := od_sql st', od_atomic := False\<rparr>) \<and>
    (\<not> isl r \<longrightarrow>
       sent (od_sql st') = sent (od_sql st) @ [(begin_sql, [])] @
         concat (map (\<lambda>p. insert_statement e (od_objs st p)) (map fst (om_list (od_created st)))) @
         concat (map (\<lambda>p. update_statement e (od_objs st p))
           (filter (\<lambda>p. p \<notin> set (map fst (om_list (od_created st)))) (map fst (om_list (od_modified st))))) @
         [(commit_sql, [])] \<and>
       s_autocommit (e_sql e) (od_sql st') \<and> om_list (od_created st') = [] \<and> om_list (od_modified st') = [] \<and>
       (\<forall>p \<in> live st'. \<not> obj_modified (od_objs st' p)))"
proof -
  obtain r1 st1 where t: "sql_transaction e (st\<lparr>od_atomic := True\<rparr>) = (r1, st1)" by force
  note C = save_objects_cases [OF assms(3) t] and O = sql_transaction_outcome [OF assms(1) t]
  show ?thesis
  proof (cases r1)
    case (Inl x)
    then have r: "r = Inl x" "st' = st1\<lparr>od_atomic := False\<rparr>" using C(2) assms(4) by simp_all
    moreover obtain h where "st1 = st\<lparr>od_atomic := True, od_sql := h\<rparr>" using C(1) by blast
    ultimately show ?thesis using O(1) Inl by simp
  next
    case (Inr u)
    then obtain s where s: "save_objects e st = (Inr (), s)" "od_ok s" "om_list (od_created s) = []" "om_list (od_modified s) = []"
      "od_sql s = od_sql st1" using C(3) by blast
    have r: "r = Inr ()" "st' = s" using s(1) assms(4) by simp_all
    have un: "\<not> obj_modified (od_objs s p)" if "p \<in> live s" for p using od_okD(9) [OF s(2) that] s(4) by (auto simp: keys_def)
    obtain n h st2 n' where o: "exec (e_sql e) begin_sql [] (od_sql st) = (Inr n, h)"
      "save_both e (st\<lparr>od_atomic := True, od_sql := h\<rparr>) = (Inr (), st2)"
      "exec (e_sql e) commit_sql [] (od_sql st2) = (Inr n', od_sql st1)" "s_autocommit (e_sql e) (od_sql st1)"
      using O(2) Inr by auto
    have "sent (od_sql st2) = sent h @ concat (map (\<lambda>p. insert_statement e (od_objs st p)) (map fst (om_list (od_created st)))) @
         concat (map (\<lambda>p. update_statement e (od_objs st p)) (filter (\<lambda>p. p \<notin> set (map fst (om_list (od_created st)))) (map fst (om_list (od_modified st)))))"
      using save_both_log [OF assms(2) _ _ o(2)] assms(3) by simp
    then show ?thesis using exec_statement_log [OF assms(2) o(1)] exec_statement_log [OF assms(2) o(3)] o(4) s r un by simp
  qed
qed

text \<open>
  A store of one counter: whether no transaction is open, the durable count of statements and the count of
  this connection, with the statements it was sent. Every SELECT finds one row.
\<close>

fun toy_count :: "string \<Rightarrow> bool \<times> nat \<times> nat \<Rightarrow> (db_exn + nat \<times> string row list) \<times> (bool \<times> nat \<times> nat)" where
  "toy_count text (auto, c, w) =
     (if text = begin_sql then (if auto then (Inr (0, []), (False, c, c)) else (Inl (SqliteError ''begin''), (auto, c, w)))
      else if text = commit_sql then (if auto then (Inl (SqliteError ''commit''), (auto, c, w)) else (Inr (0, []), (True, w, w)))
      else if text = rollback_sql then (if auto then (Inl (SqliteError ''rollback''), (auto, c, w)) else (Inr (0, []), (True, c, c)))
      else if take 7 text = ''SELECT '' then (Inr (0, [[(''id'', SqlV ''abc'')]]), (auto, c, w))
      else (Inr (1, []), (auto, if auto then w + 1 else c, w + 1)))"

type_synonym toy_store = "(bool \<times> nat \<times> nat) \<times> (string \<times> string params) list"

definition toy_query :: "string \<Rightarrow> string params \<Rightarrow> toy_store \<Rightarrow> (db_exn + nat \<times> string row list) \<times> toy_store" where
  "toy_query text ps h = (case toy_count text (fst h) of (r, n) \<Rightarrow> (r, n, snd h @ [(text, ps)]))"

definition toy_env :: "(toy_store, string, string) dbenv" where
  "toy_env = \<lparr>e_val = text_values, e_json = text_json, e_sql = \<lparr>s_query = toy_query, s_autocommit = \<lambda>h. fst (fst h)\<rparr>\<rparr>"

definition toy_class :: "string dbclass" where
  "toy_class = \<lparr>cl_name = ''Toy'', cl_fields = [scalar_field ''name'' StrT]\<rparr>"

lemma toy_laws:
  "rows_distinct (e_sql toy_env)" "ids_distinct toy_env" "sql_laws (e_sql toy_env) (\<lambda>h. fst (snd (fst h)))" "keeps_log (e_sql toy_env) snd"
  by (auto simp: rows_distinct_def ids_distinct_def sql_laws_def toy_env_def toy_query_def keeps_log_def dml_def begin_sql_def commit_sql_def
      rollback_sql_def split: if_splits prod.splits)

definition toy_new :: toy_store where
  "toy_new = ((True, 0, 0), [])"

definition toy_state :: "(toy_store, string) objdb" where
  "toy_state = snd (create_object toy_env toy_class ''x'' (new_objdb toy_new))"

lemma toy_state_ok: "od_ok toy_state"
proof -
  have "plain toy_class" by (simp add: plain_def toy_class_def scalar_field_def)
  then show ?thesis using create_object_ok [OF new_objdb_ok, of toy_class toy_env "''x''" toy_new] by (auto simp: toy_state_def)
qed

lemma toy_state_eq:
  "toy_state = \<lparr>od_sql = toy_new,
     od_objs = (\<lambda>_. \<lparr>ob_class = [], ob_fields = []\<rparr>)(0 := \<lparr>ob_class = ''Toy'',
       ob_fields = [(''id'', snd (set_scalar (TStr ''x'') False (scalar_field ''id'' StrT))), (''name'', scalar_field ''name'' StrT)]\<rparr>),
     od_next = 1, od_modified = om_enqueue_back 0 () om_empty, od_created = om_enqueue_back 0 () om_empty, od_loaded = [], od_atomic = False\<rparr>"
  by (simp add: toy_state_def create_object_def make_object_def construct_at_def toy_class_def new_objdb_def Let_def construct_def
      register_fields_def scalar_field_def sm_emplace_def change_field_def sm_find_def set_obj_def notify_modified_def om_exists_def om_empty_def)

lemma toy_one: "om_list (om_enqueue_back 0 () om_empty) = [(0 :: nat, ())]" "om_exists (om_enqueue_back 0 () om_empty) (0 :: nat)"
  "om_size (om_enqueue_back 0 () om_empty :: (nat, unit) omap) = 1"
  by code_simp+

lemma toy_lists: "om_list (od_created toy_state) = [(0, ())]" "om_list (od_modified toy_state) = [(0, ())]" "od_sql toy_state = toy_new"
  by (simp_all add: toy_state_eq toy_one)

lemma toy_statement: "insert_statement toy_env (od_objs toy_state 0) = [(''INSERT INTO '' @ class_table ''Toy'' @ '' (id) VALUES (:d0)'', [('':d0'', StrV ''x'')])]"
proof -
  have n: "nat_str 0 = ''0''" by (subst nat_str.simps) (simp, code_simp)
  have v: "obj_changes (od_objs toy_state 0) = [snd (set_scalar (TStr ''x'') False (scalar_field ''id'' StrT))]"
    by (simp add: toy_state_eq obj_changes_def is_modified_def scalar_field_def Let_def)
  have c: "ob_class (od_objs toy_state 0) = ''Toy''" by (simp add: toy_state_eq)
  have "insert_values text_json [snd (set_scalar (TStr ''x'') False (scalar_field ''id'' StrT))] 0 = Inr ([''id''], ['':d0''], [('':d0'', StrV ''x'' :: string mixed)])"
    by (simp add: scalar_field_def Let_def n)
  then show ?thesis by (simp add: insert_statement_def v c toy_env_def)
qed

lemma toy_insert:
  "insert_query toy_env 0 (obj_changes (od_objs toy_state 0)) (toy_state\<lparr>od_atomic := True, od_sql := ((False, 0, 0), lg)\<rparr>) =
    (Inr (), toy_state\<lparr>od_atomic := True, od_sql := ((False, 0, 1), lg @ insert_statement toy_env (od_objs toy_state 0))\<rparr>)"
  by (cases "insert_values text_json (obj_changes (od_objs toy_state 0)) 0 :: db_exn + (string list \<times> string list \<times> string params)")
    (use toy_statement in \<open>auto simp: insert_query_def insert_statement_def toy_env_def toy_query_def run_sql_def on_part_def exec_def begin_sql_def
      commit_sql_def rollback_sql_def\<close>)

lemma toy_inserted:
  "save_both toy_env (toy_state\<lparr>od_atomic := True, od_sql := ((False, 0, 0), lg)\<rparr>) =
    (Inr (), toy_state\<lparr>od_atomic := True, od_sql := ((False, 0, 1), lg @ insert_statement toy_env (od_objs toy_state 0))\<rparr>)"
proof -
  have o: "od_created toy_state = om_enqueue_back 0 () om_empty" "od_modified toy_state = om_enqueue_back 0 () om_empty" by (simp_all add: toy_state_eq)
  show ?thesis by (simp add: save_both_def o toy_one obj_save_def save_object_def toy_insert)
qed

lemma toy_saved: "fst (save_objects toy_env toy_state) = Inr ()"
proof -
  let ?lg = "[(begin_sql, [])] @ insert_statement toy_env (od_objs toy_state 0)"
  have t: "sql_transaction toy_env (toy_state\<lparr>od_atomic := True\<rparr>) =
      (Inr (), toy_state\<lparr>od_atomic := True, od_sql := ((True, 1, 1), ?lg @ [(commit_sql, [])])\<rparr>)"
  proof -
    have q: "run_sql (exec (e_sql toy_env) begin_sql []) (toy_state\<lparr>od_atomic := True\<rparr>) =
        (Inr 0, toy_state\<lparr>od_atomic := True, od_sql := ((False, 0, 0), [(begin_sql, [])])\<rparr>)"
      "run_sql (exec (e_sql toy_env) commit_sql []) (toy_state\<lparr>od_atomic := True, od_sql := ((False, 0, 1), lg)\<rparr>) =
        (Inr 0, toy_state\<lparr>od_atomic := True, od_sql := ((True, 1, 1), lg @ [(commit_sql, [])])\<rparr>)" for lg
      by (simp_all add: run_sql_def on_part_def exec_def toy_env_def toy_query_def begin_sql_def commit_sql_def toy_lists toy_new_def)
    have "s_autocommit (e_sql toy_env) (od_sql (toy_state\<lparr>od_atomic := True\<rparr>))" by (simp add: toy_env_def toy_lists toy_new_def)
    then show ?thesis unfolding sql_transaction_def transaction_def using q toy_inserted by simp
  qed
  show "fst (save_objects toy_env toy_state) = Inr ()"
    using save_objects_cases(3) [OF toy_state_ok t refl] by auto
qed

lemma save_all_or_nothing_witness:
  "snd (od_sql (snd (save_objects toy_env toy_state))) =
    [(begin_sql, []), (''INSERT INTO '' @ class_table ''Toy'' @ '' (id) VALUES (:d0)'', [('':d0'', StrV ''x'')]), (commit_sql, [])] \<and>
   om_list (od_created (snd (save_objects toy_env toy_state))) = [] \<and> om_list (od_modified (snd (save_objects toy_env toy_state))) = []"
proof -
  have "save_objects toy_env toy_state = (Inr (), snd (save_objects toy_env toy_state))" using toy_saved by (metis prod.collapse)
  from save_all_or_nothing [OF toy_laws(3,4) toy_state_ok this] show ?thesis by (simp add: toy_lists toy_statement toy_new_def)
qed

definition toy_history :: "(string, string) od_op list" where
  "toy_history = [Create toy_class ''x'', Change 0 ''name'' (set_scalar (TStr ''y'') False), Save 0, SaveAll,
     Load toy_class new_query, DeleteMatching toy_class new_query]"

lemma toy_history_runs: "fst (od_run toy_env toy_history (new_objdb toy_new))"
proof -
  have l: "0 \<in> live toy_state" by (simp add: toy_state_eq live_def keys_def toy_one)
  have c: "live (change_field 0 ''name'' op toy_state) = live toy_state" for op
    by (auto simp: change_field_def live_def loaded_def notify_modified_def Let_def split: option.split prod.split)
  have p: "plain toy_class" by (simp add: plain_def toy_class_def scalar_field_def)
  show ?thesis using l by (simp add: toy_history_def p toy_state_def [symmetric] c honest_setters)
qed

lemma objects_in_order_witness:
  "od_ok (snd (od_run toy_env toy_history (new_objdb toy_new))) \<and> \<not> od_atomic (snd (od_run toy_env toy_history (new_objdb toy_new)))"
  by (rule objects_in_order [OF toy_laws(1,2), of toy_history toy_new]) (use toy_history_runs in \<open>simp add: prod_eq_iff\<close>)

end
