(* ===== verification/Table_Install.thy ===== *)
theory Table_Install
  imports Object_Save
begin

text \<open>
  The tables of the local database (src/lib/andromeda/database): TableBuilder, VersionEntry and
  TableInstaller, which creates each table or brings it to the version of the code; and the SessionStore
  of src/lib/andromeda/backend, the class that is kept in such a table.
\<close>

section \<open>TableBuilder\<close>

record builder =
  tb_class :: string
  tb_columns :: "string list"
  tb_primary :: string
  tb_uniques :: "string list"
  tb_indexes :: "string list"
  tb_constraint_idx :: nat
  tb_constraints :: "string list"

definition table_for :: "string \<Rightarrow> builder" where
  "table_for cls = \<lparr>tb_class = cls, tb_columns = [], tb_primary = [], tb_uniques = [], tb_indexes = [],
     tb_constraint_idx = 1, tb_constraints = []\<rparr>"

definition quoted :: "string \<Rightarrow> string" where
  "quoted s = ''`'' @ s @ ''`''"

definition format_fields :: "string list \<Rightarrow> string" where
  "format_fields strs = ''('' @ implode '','' (map quoted strs) @ '')''"

definition add_column :: "string \<Rightarrow> string \<Rightarrow> bool \<Rightarrow> builder \<Rightarrow> builder" where
  "add_column name type null tb =
     tb\<lparr>tb_columns := tb_columns tb @ [quoted name @ '' '' @ type @ '' '' @ (if null then ''DEFAULT'' else ''NOT'') @ '' NULL'']\<rparr>"

definition set_primary :: "string \<Rightarrow> builder \<Rightarrow> builder" where
  "set_primary name tb = tb\<lparr>tb_primary := ''PRIMARY KEY ('' @ quoted name @ '')''\<rparr>"

definition add_unique :: "string list \<Rightarrow> builder \<Rightarrow> builder" where
  "add_unique strs tb = tb\<lparr>tb_uniques := tb_uniques tb @ [''UNIQUE '' @ format_fields strs]\<rparr>"

definition add_index :: "string list \<Rightarrow> builder \<Rightarrow> builder" where
  "add_index strs tb =
     (let table = class_table (tb_class tb)
      in tb\<lparr>tb_indexes := tb_indexes tb @
           [''CREATE INDEX '' @ [CHR 0x22] @ ''idx_'' @ table @ ''_'' @ implode ''_'' strs @ [CHR 0x22] @ '' ON '' @
            [CHR 0x22] @ table @ [CHR 0x22] @ '' '' @ format_fields strs]\<rparr>)"

datatype on_delete = Restrict | SetNull | Cascade

fun on_delete_str :: "on_delete \<Rightarrow> string" where
  "on_delete_str Restrict = ''RESTRICT''"
| "on_delete_str SetNull = ''SET NULL''"
| "on_delete_str Cascade = ''CASCADE''"

definition add_constraint :: "string \<Rightarrow> string \<Rightarrow> string \<Rightarrow> on_delete \<Rightarrow> builder \<Rightarrow> builder" where
  "add_constraint ref our_key ref_key del tb =
     (let table1 = class_table (tb_class tb); table2 = class_table ref
      in tb\<lparr>tb_constraint_idx := uadd (tb_constraint_idx tb) 1,
            tb_constraints := tb_constraints tb @
              [''CONSTRAINT `'' @ table1 @ ''_ibfk_'' @ nat_str (tb_constraint_idx tb) @ ''`'' @
               '' FOREIGN KEY (`'' @ our_key @ ''`) REFERENCES `'' @ table2 @ ''` (`'' @ ref_key @ ''`)'' @
               '' ON DELETE '' @ on_delete_str del]\<rparr>)"

definition get_queries :: "builder \<Rightarrow> string list" where
  "get_queries tb =
     (let props = tb_columns tb @ (if tb_primary tb \<noteq> [] then [tb_primary tb] else []) @ tb_uniques tb @ tb_constraints tb;
          table = class_table (tb_class tb)
      in (if props \<noteq> [] then [''CREATE TABLE `'' @ table @ ''` ('' @ implode '', '' props @ '')''] else []) @ tb_indexes tb)"

section \<open>VersionEntry\<close>

text \<open>What every class with a table has: its fields, the newest version, how to install and upgrade.\<close>

record 'j tclass =
  tc_class :: "'j dbclass"
  tc_version :: int
  tc_install :: builder
  tc_upgrade :: "int \<Rightarrow> builder"

definition version_name :: string where
  "version_name = ''Andromeda'' @ [CHR 0x5C] @ ''Database'' @ [CHR 0x5C] @ ''VersionEntry''"

definition version_entry :: "'j tclass" where
  "version_entry = \<lparr>tc_class = \<lparr>cl_name = version_name, cl_fields = [scalar_field ''tableName'' StrT, scalar_field ''version'' IntT]\<rparr>,
     tc_version = 1,
     tc_install =
       (add_column ''version'' ''integer'' False \<circ> add_unique [''tableName''] \<circ> add_column ''tableName'' ''varchar(255)'' False \<circ>
        set_primary ''id'' \<circ> add_column ''id'' ''varchar(16)'' False) (table_for version_name),
     tc_upgrade = (\<lambda>_. table_for version_name)\<rparr>"

definition create_entry :: "('h, 'v, 'j) dbenv \<Rightarrow> string \<Rightarrow> string \<Rightarrow> int \<Rightarrow> ('h, 'j) objdb \<Rightarrow> (nat, 'h, 'j) od_result" where
  "create_entry e rnd table v st =
     bindR (create_object e (tc_class version_entry) rnd st) (\<lambda>p st.
       (Inr p, change_field p ''version'' (set_scalar (TInt v) False) (change_field p ''tableName'' (set_scalar (TStr table) False) st)))"

definition try_load_by_table :: "('h, 'v, 'j) dbenv \<Rightarrow> string \<Rightarrow> ('h, 'j) objdb \<Rightarrow> (nat option, 'h, 'j) od_result" where
  "try_load_by_table e table st =
     (let (s, q) = q_equals ''tableName'' (StrV table) new_query
      in try_load_unique e (tc_class version_entry) (set_where (Some s) q) st)"

definition entry_version :: "nat \<Rightarrow> ('h, 'j) objdb \<Rightarrow> db_exn + int" where
  "entry_version p st =
     (case sm_find (ob_fields (od_objs st p)) ''version'' of None \<Rightarrow> Inl (Uninitialized ''version'')
      | Some f \<Rightarrow> map_sum id (\<lambda>v. case v of TInt n \<Rightarrow> n | _ \<Rightarrow> 0) (get_value True f))"

section \<open>TableInstaller\<close>

fun exec_each :: "('h, 'v, 'j) dbenv \<Rightarrow> string list \<Rightarrow> ('h, 'j) objdb \<Rightarrow> (unit, 'h, 'j) od_result" where
  "exec_each e [] st = (Inr (), st)"
| "exec_each e (q # qs) st = bindR (run_sql (exec (e_sql e) q []) st) (\<lambda>_ st. exec_each e qs st)"

text \<open>The loops over the versions from the one after that of the table to that of the code.\<close>

fun upgrade_versions :: "('h, 'v, 'j) dbenv \<Rightarrow> int list \<Rightarrow> ('h, 'j) objdb \<Rightarrow> (unit, 'h, 'j) od_result" where
  "upgrade_versions e [] st = (Inr (), st)"
| "upgrade_versions e (v # vs) st =
     bindR (exec_each e (get_queries (tc_upgrade (version_entry :: 'j tclass) v)) st) (\<lambda>_ st.
     bindR (run_sql (set_version (e_sql e) v) st) (\<lambda>_ st. upgrade_versions e vs st))"

text \<open>The constructor, which brings the table of the versions themselves up to date.\<close>

definition table_installer :: "('h, 'v, 'j) dbenv \<Rightarrow> ('h, 'j) objdb \<Rightarrow> (unit, 'h, 'j) od_result" where
  "table_installer e st =
     bindR (run_sql (get_version (e_val e) (e_sql e)) st) (\<lambda>db_ver st.
       let code_ver = tc_version (version_entry :: 'j tclass) in
       if db_ver = 0
       then bindR (exec_each e (get_queries (tc_install (version_entry :: 'j tclass))) st) (\<lambda>_ st.
              bindR (run_sql (set_version (e_sql e) code_ver) st) (\<lambda>_ st. (Inr (), st)))
       else if db_ver > code_ver then (Inl (TableVersion ''version table''), st)
       else upgrade_versions e [db_ver + 1..code_ver] st)"

fun upgrade_table :: "('h, 'v, 'j) dbenv \<Rightarrow> 'j tclass \<Rightarrow> nat \<Rightarrow> int list \<Rightarrow> ('h, 'j) objdb \<Rightarrow> (unit, 'h, 'j) od_result" where
  "upgrade_table e T p [] st = (Inr (), st)"
| "upgrade_table e T p (v # vs) st =
     bindR (exec_each e (get_queries (tc_upgrade T v)) st) (\<lambda>_ st.
     bindR (obj_save e p (change_field p ''version'' (set_scalar (TInt v) False) st)) (\<lambda>_ st. upgrade_table e T p vs st))"

definition install_table :: "('h, 'v, 'j) dbenv \<Rightarrow> 'j tclass \<Rightarrow> string \<Rightarrow> ('h, 'j) objdb \<Rightarrow> (unit, 'h, 'j) od_result" where
  "install_table e T rnd st =
     (let table = class_table (cl_name (tc_class T)); code_ver = tc_version T in
      bindR (try_load_by_table e table st) (\<lambda>entry st.
        case entry of
          None \<Rightarrow>
            bindR (exec_each e (get_queries (tc_install T)) st) (\<lambda>_ st.
            bindR (create_entry e rnd table code_ver st) (\<lambda>p st. obj_save e p st))
        | Some p \<Rightarrow>
            (case entry_version p st of Inl x \<Rightarrow> (Inl x, st)
             | Inr v \<Rightarrow> if v > code_ver then (Inl (TableVersion table), st)
                       else upgrade_table e T p [v + 1..code_ver] st)))"

section \<open>SessionStore\<close>

definition session_name :: string where
  "session_name = ''Andromeda'' @ [CHR 0x5C] @ ''Database'' @ [CHR 0x5C] @ ''SessionStore''"

definition session_store :: "'j tclass" where
  "session_store = \<lparr>tc_class = \<lparr>cl_name = session_name, cl_fields = [scalar_field ''serverUrl'' StrT, scalar_field ''accountID'' StrT,
        null_scalar ''sessionID'' StrT, null_scalar ''sessionKey'' StrT]\<rparr>,
     tc_version = 1,
     tc_install =
       (add_column ''sessionKey'' ''char(32)'' True \<circ> add_column ''sessionID'' ''char(12)'' True \<circ> add_unique [''accountID''] \<circ>
        add_column ''accountID'' ''char(12)'' False \<circ> add_column ''serverUrl'' ''text'' False \<circ>
        set_primary ''id'' \<circ> add_column ''id'' ''varchar(12)'' False) (table_for session_name),
     tc_upgrade = (\<lambda>_. table_for session_name)\<rparr>"

definition create_session :: "('h, 'v, 'j) dbenv \<Rightarrow> string \<Rightarrow> string \<Rightarrow> string \<Rightarrow> ('h, 'j) objdb \<Rightarrow> (nat, 'h, 'j) od_result" where
  "create_session e rnd url account st =
     bindR (create_object e (tc_class session_store) rnd st) (\<lambda>p st.
       (Inr p, change_field p ''accountID'' (set_scalar (TStr account) False) (change_field p ''serverUrl'' (set_scalar (TStr url) False) st)))"

definition load_all_sessions :: "('h, 'v, 'j) dbenv \<Rightarrow> ('h, 'j) objdb \<Rightarrow> (nat list, 'h, 'j) od_result" where
  "load_all_sessions e st = load_objects e (tc_class session_store) new_query st"

text \<open>SetSession, with None for the null pointer.\<close>

definition set_session :: "nat \<Rightarrow> (string \<times> string) option \<Rightarrow> ('h, 'j) objdb \<Rightarrow> ('h, 'j) objdb" where
  "set_session p s st =
     (case s of
        None \<Rightarrow> change_field p ''sessionKey'' (set_null False) (change_field p ''sessionID'' (set_null False) st)
      | Some (i, k) \<Rightarrow>
          change_field p ''sessionKey'' (set_scalar (TStr k) False) (change_field p ''sessionID'' (set_scalar (TStr i) False) st))"

text \<open>GetServerUrl and GetAccountID; GetSessionID and GetSessionKey.\<close>

definition session_text :: "nat \<Rightarrow> string \<Rightarrow> ('h, 'j) objdb \<Rightarrow> db_exn + string" where
  "session_text p name st =
     (case sm_find (ob_fields (od_objs st p)) name of None \<Rightarrow> Inl (Uninitialized name) | Some f \<Rightarrow> map_sum id scalar_str (get_value True f))"

definition session_option :: "nat \<Rightarrow> string \<Rightarrow> ('h, 'j) objdb \<Rightarrow> string option" where
  "session_option p name st =
     (case sm_find (ob_fields (od_objs st p)) name of None \<Rightarrow> None | Some f \<Rightarrow> map_option scalar_str (try_get True (f_val f)))"

section \<open>Upgrades run in order\<close>

text \<open>A record of the statements that a connection was given.\<close>

definition sends :: "('h, 'v) sql \<Rightarrow> ('h \<Rightarrow> string list) \<Rightarrow> bool" where
  "sends db sent \<longleftrightarrow> (\<forall>text ps h. sent (snd (s_query db text ps h)) = sent h @ [text])"

text \<open>The entry at p has the version v in the database and in memory.\<close>

definition entry_at :: "nat \<Rightarrow> int \<Rightarrow> ('h, 'j) objdb \<Rightarrow> bool" where
  "entry_at p v st \<longleftrightarrow> ob_class (od_objs st p) = version_name \<and> \<not> om_exists (od_created st) p \<and> \<not> od_atomic st \<and>
     (\<exists>i f g h. ob_fields (od_objs st p) = [(''id'', f), (''tableName'', g), (''version'', h)] \<and>
        f_val f = Scalar StrT True (TStr i) True (TStr i) \<and> f_delta f = 0 \<and> f_delta g = 0 \<and>
        h = \<lparr>f_name = ''version'', f_delta = 0, f_val = Scalar IntT True (TInt v) True (TInt v)\<rparr>)"

definition version_update :: string where
  "version_update = ''UPDATE '' @ class_table version_name @ '' SET version=:d0 WHERE id=:id''"

lemma entry_version_at: "entry_at p v st \<Longrightarrow> entry_version p st = Inr v"
  by (auto simp: entry_at_def entry_version_def sm_find_def)

lemma exec_log:
  assumes L: "sends (e_sql e) sent" and x: "run_sql (exec (e_sql e) text ps) st = (r, st')"
  shows "\<exists>h. st' = st\<lparr>od_sql := h\<rparr> \<and> sent h = sent (od_sql st) @ [text]"
proof -
  obtain h where h: "exec (e_sql e) text ps (od_sql st) = (r, h)" "st' = st\<lparr>od_sql := h\<rparr>" using run_sql_frame [OF x] by blast
  obtain r1 h1 where q: "s_query (e_sql e) text ps (od_sql st) = (r1, h1)" by force
  have "h = h1" using h(1) q by (cases r1) (auto simp: exec_def split: if_splits prod.splits)
  moreover have "sent (snd (s_query (e_sql e) text ps (od_sql st))) = sent (od_sql st) @ [text]" using L by (simp add: sends_def)
  ultimately show ?thesis using h(2) q by auto
qed

lemma exec_each_log:
  assumes L: "sends (e_sql e) sent"
  shows "exec_each e qs st = (r, st') \<Longrightarrow>
    \<exists>h k. st' = st\<lparr>od_sql := h\<rparr> \<and> sent h = sent (od_sql st) @ take k qs \<and> (r = Inr () \<longrightarrow> sent h = sent (od_sql st) @ qs)"
proof (induction qs arbitrary: st)
  case Nil
  then show ?case by (intro exI [of _ "od_sql st"]) simp
next
  case (Cons q qs)
  obtain r1 s where s: "run_sql (exec (e_sql e) q []) st = (r1, s)" by force
  obtain h1 where h1: "s = st\<lparr>od_sql := h1\<rparr>" "sent h1 = sent (od_sql st) @ [q]" using exec_log [OF L s] by blast
  show ?case
  proof (cases r1)
    case (Inl x)
    then show ?thesis using Cons.prems s h1 by (intro exI [of _ h1] exI [of _ 1]) auto
  next
    case (Inr n)
    then have "exec_each e qs s = (r, st')" using Cons.prems s by simp
    from Cons.IH [OF this] obtain h k where "st' = s\<lparr>od_sql := h\<rparr>" "sent h = sent (od_sql s) @ take k qs" "r = Inr () \<longrightarrow> sent h = sent (od_sql s) @ qs"
      by blast
    then show ?thesis using h1 by (intro exI [of _ h] exI [of _ "Suc k"]) auto
  qed
qed

lemma entry_at_sql: "entry_at p v (st\<lparr>od_sql := h\<rparr>) = entry_at p v st"
  by (simp add: entry_at_def)

lemma version_saved:
  assumes L: "sends (e_sql e) sent" and at: "entry_at p v st" and n: "n \<noteq> v"
    and s: "obj_save e p (change_field p ''version'' (set_scalar (TInt n) False) st) = (r, st')"
  shows "sent (od_sql st') = sent (od_sql st) @ [version_update] \<and> (r = Inr () \<longrightarrow> entry_at p n st')"
proof -
  obtain i f g where f: "ob_fields (od_objs st p) = [(''id'', f), (''tableName'', g),
      (''version'', \<lparr>f_name = ''version'', f_delta = 0, f_val = Scalar IntT True (TInt v) True (TInt v)\<rparr>)]"
    "f_val f = Scalar StrT True (TStr i) True (TStr i)" "f_delta f = 0" "f_delta g = 0"
    and c: "ob_class (od_objs st p) = version_name" "\<not> om_exists (od_created st) p" "\<not> od_atomic st"
    using at by (auto simp: entry_at_def)
  define h :: "'c field" where "h = \<lparr>f_name = ''version'', f_delta = 1, f_val = Scalar IntT True (TInt n) True (TInt n)\<rparr>"
  define ob where "ob = (od_objs st p)\<lparr>ob_fields := [(''id'', f), (''tableName'', g), (''version'', h)]\<rparr>"
  define s1 where "s1 = set_obj p ob (notify_modified p st)"
  have s1: "change_field p ''version'' (set_scalar (TInt n) False) st = s1"
    using n by (simp add: change_field_def f(1) sm_find_def h_def ob_def s1_def Let_def notify_modified_def)
  have o1: "od_objs s1 p = ob" "od_created s1 = od_created st" "od_atomic s1 = od_atomic st" "od_sql s1 = od_sql st"
    by (simp_all add: s1_def notify_modified_def)
  have ch: "obj_changes ob = [h]" using f by (simp add: obj_changes_def ob_def is_modified_def h_def)
  have id: "obj_id ob = Inr i" using f(2) by (simp add: obj_id_def ob_def sm_find_def scalar_str_def)
  have cl: "ob_class ob = version_name" using c by (simp add: ob_def)
  have sv: "obj_save e p s1 = bindR (update_query e p [h] s1) (\<lambda>_ st. if \<not> od_atomic st then (Inr (), update_register p st) else (Inr (), st))"
    using c o1 ch by (simp add: obj_save_def save_object_def)
  obtain r2 s2 where q2: "update_query e p [h] s1 = (r2, s2)" by force
  have na: "\<not> od_atomic s2" using query_frames(1) [of e p "[h]" s1] q2 o1 c by auto
  have st': "(r2 = Inr () \<longrightarrow> st' = update_register p s2 \<and> r = Inr ()) \<and> (\<forall>x. r2 = Inl x \<longrightarrow> st' = s2 \<and> r = Inl x)"
    using s [unfolded s1 sv] q2 na by (cases r2) auto
  have u: "update_sets (e_json e) [h] 0 = Inr ([''version=:d0''], [('':d0'', IntV n :: 'b mixed)])"
  proof -
    have "nat_str 0 = ''0''" by code_simp
    then show ?thesis by (simp add: h_def use_increment_def Let_def)
  qed
  obtain r3 s3 where m: "run_sql (exec (e_sql e) version_update [('':id'', StrV i), ('':d0'', IntV n)]) s1 = (r3, s3)" by force
  obtain k where k: "s3 = s1\<lparr>od_sql := k\<rparr>" "sent k = sent (od_sql s1) @ [version_update]" using exec_log [OF L m] by blast
  have "s2 = s3"
    using q2 id cl u o1(1) m by (cases r3) (auto simp: update_query_def Let_def version_update_def split: if_splits)
  then have *: "sent (od_sql st') = sent (od_sql st) @ [version_update]" "r = Inr () \<Longrightarrow> st' = update_register p s2"
    using st' k o1(4) by (cases r2; simp add: update_register_def)+
  have "entry_at p n (update_register p s2)"
    using o1 c f cl by (auto simp: \<open>s2 = s3\<close> k(1) entry_at_def update_register_def obj_set_unmodified_def ob_def h_def set_unmodified_def)
  then show ?thesis using * by simp
qed

text \<open>The statements of the upgrades to the versions vs.\<close>

definition upgrade_plan :: "'j tclass \<Rightarrow> int list \<Rightarrow> string list" where
  "upgrade_plan T vs = concat (map (\<lambda>n. get_queries (tc_upgrade T n) @ [version_update]) vs)"

lemma upgrade_table_plan:
  assumes L: "sends (e_sql e) sent"
  shows "upgrade_table e T p vs st = (r, st') \<Longrightarrow> entry_at p v st \<Longrightarrow> distinct (v # vs) \<Longrightarrow>
    (\<exists>k. sent (od_sql st') = sent (od_sql st) @ take k (upgrade_plan T vs)) \<and>
    (r = Inr () \<longrightarrow> sent (od_sql st') = sent (od_sql st) @ upgrade_plan T vs \<and> entry_at p (last (v # vs)) st')"
proof (induction vs arbitrary: v st)
  case (Cons n vs)
  let ?qs = "get_queries (tc_upgrade T n)"
  have plan: "upgrade_plan T (n # vs) = ?qs @ version_update # upgrade_plan T vs" by (simp add: upgrade_plan_def)
  obtain r1 s1 where x1: "exec_each e ?qs st = (r1, s1)" by force
  obtain h k where h: "s1 = st\<lparr>od_sql := h\<rparr>" "sent h = sent (od_sql st) @ take k ?qs" "r1 = Inr () \<longrightarrow> sent h = sent (od_sql st) @ ?qs"
    using exec_each_log [OF L x1] by blast
  show ?case
  proof (cases r1)
    case (Inl x)
    have "take k ?qs = take (min k (length ?qs)) (upgrade_plan T (n # vs))" by (simp add: plan min_def)
    then have "\<exists>j. take k ?qs = take j (upgrade_plan T (n # vs))" by blast
    moreover have "st' = s1" "r = Inl x" using Cons.prems(1) x1 Inl by simp_all
    ultimately show ?thesis using h(1,2) by auto
  next
    case (Inr u)
    obtain r2 s2 where x2: "obj_save e p (change_field p ''version'' (set_scalar (TInt n) False) s1) = (r2, s2)" by force
    have at1: "entry_at p v s1" using Cons.prems(2) by (simp add: h(1) entry_at_sql)
    have S: "sent (od_sql s2) = sent (od_sql s1) @ [version_update] \<and> (r2 = Inr () \<longrightarrow> entry_at p n s2)"
      using version_saved [OF L at1 _ x2] Cons.prems(3) by auto
    then have s2: "sent (od_sql s2) = sent (od_sql st) @ ?qs @ [version_update]" using h Inr by simp
    show ?thesis
    proof (cases r2)
      case (Inl x)
      then have "st' = s2" "r = Inl x" using Cons.prems(1) x1 x2 Inr by simp_all
      moreover have "?qs @ [version_update] = take (Suc (length ?qs)) (upgrade_plan T (n # vs))" by (simp add: plan)
      ultimately show ?thesis using s2 by (intro conjI exI [of _ "Suc (length ?qs)"]) simp_all
    next
      case r2: (Inr u)
      then have "upgrade_table e T p vs s2 = (r, st')" "entry_at p n s2" using Cons.prems(1) x1 x2 Inr S by simp_all
      have "distinct (n # vs)" using Cons.prems(3) by simp
      from Cons.IH [OF \<open>upgrade_table e T p vs s2 = _\<close> \<open>entry_at p n s2\<close> this] obtain k where IH: "sent (od_sql st') = sent (od_sql s2) @ take k (upgrade_plan T vs)"
        "r = Inr () \<longrightarrow> sent (od_sql st') = sent (od_sql s2) @ upgrade_plan T vs \<and> entry_at p (last (n # vs)) st'"
        by blast
      then show ?thesis using s2 by (intro conjI exI [of _ "length ?qs + Suc k"]) (auto simp: plan)
    qed
  qed
qed (simp add: upgrade_plan_def)

text \<open>C18: a table that is too new is refused and nothing is sent; else the upgrades of all missing versions are
  sent, each once and in order, each followed by the statement that records it. An error stops the sequence;
  when there is none, the entry of the table has the version of the code.\<close>

theorem table_upgrades:
  assumes "sends (e_sql e) sent" and "try_load_by_table e (class_table (cl_name (tc_class T))) st = (Inr (Some p), st1)"
    and "entry_at p v st1" and "install_table e T rnd st = (r, st')"
  shows "if v > tc_version T then r = Inl (TableVersion (class_table (cl_name (tc_class T)))) \<and> st' = st1
    else (\<exists>k. sent (od_sql st') = sent (od_sql st1) @ take k (upgrade_plan T [v + 1..tc_version T])) \<and>
      (r = Inr () \<longrightarrow> sent (od_sql st') = sent (od_sql st1) @ upgrade_plan T [v + 1..tc_version T] \<and> entry_at p (tc_version T) st')"
proof (cases "v > tc_version T")
  case True
  then show ?thesis using assms by (simp add: install_table_def entry_version_at Let_def)
next
  case False
  then have u: "upgrade_table e T p [v + 1..tc_version T] st1 = (r, st')"
    using assms by (simp add: install_table_def entry_version_at Let_def)
  have "last (v # [v + 1..tc_version T]) = tc_version T"
  proof (cases "v = tc_version T")
    case False
    then have "[v + 1..tc_version T] = [v + 1..tc_version T - 1] @ [tc_version T]" using \<open>\<not> v > _\<close> upto_rec2 [of "v + 1" "tc_version T"] by simp
    then show ?thesis by (metis last.simps last_snoc snoc_eq_iff_butlast)
  qed simp
  then show ?thesis using upgrade_table_plan [OF assms(1) u assms(3)] False by simp
qed

text \<open>A class whose newest version is 3; a connection that records what it is sent and knows version 1 of its table.\<close>

definition plan_class :: "string tclass" where
  "plan_class = \<lparr>tc_class = toy_class, tc_version = 3, tc_install = table_for ''Toy'', tc_upgrade = (\<lambda>n. add_index [''name''] (table_for ''Toy''))\<rparr>"

definition record_query :: "string \<Rightarrow> string params \<Rightarrow> string list \<Rightarrow> (db_exn + nat \<times> string row list) \<times> string list" where
  "record_query text ps h =
     (Inr (1, if take 7 text = ''SELECT '' then [[(''id'', StrV ''x''), (''tableName'', StrV ''t''), (''version'', IntV 1)]] else []), h @ [text])"

definition record_env :: "(string list, string, string) dbenv" where
  "record_env = \<lparr>e_val = text_values, e_json = text_json, e_sql = \<lparr>s_query = record_query, s_autocommit = (\<lambda>_. True)\<rparr>\<rparr>"

lemma record_loads:
  "\<exists>st1. try_load_by_table record_env table (new_objdb []) = (Inr (Some 0), st1) \<and> entry_at 0 1 st1"
proof -
  have s: "sends (e_sql record_env) id" by (simp add: sends_def record_env_def record_query_def)
  show ?thesis
    by (simp add: try_load_by_table_def q_equals_def q_compare_def add_param_def Let_def try_load_unique_def load_objects_def run_sql_def
      on_part_def record_env_def record_query_def construct_object_def new_objdb_def make_object_def construct_at_def version_entry_def
      construct_def register_fields_def scalar_field_def sm_emplace_def sm_find_def is_null_def set_obj_def entry_at_def om_exists_def om_empty_def)
qed

lemma table_upgrades_witness:
  "\<exists>(st1 :: (string list, string) objdb) k. entry_at 0 1 st1 \<and>
     od_sql (snd (install_table record_env plan_class ''r'' (new_objdb []))) = od_sql st1 @ take k (upgrade_plan plan_class [2..3])"
proof -
  have s: "sends (e_sql record_env) id" by (simp add: sends_def record_env_def record_query_def)
  obtain st1 where st1: "try_load_by_table record_env (class_table (cl_name (tc_class plan_class))) (new_objdb []) = (Inr (Some 0), st1)" "entry_at 0 1 st1"
    using record_loads by blast
  have v: "\<not> 1 > tc_version plan_class" "[1 + 1..tc_version plan_class] = [2..3]" by (simp_all add: plan_class_def)
  obtain r st' where i: "install_table record_env plan_class ''r'' (new_objdb []) = (r, st')" by force
  obtain k where "id (od_sql st') = id (od_sql st1) @ take k (upgrade_plan plan_class [2..3])"
    using table_upgrades [OF s st1 i] unfolding if_not_P [OF v(1)] v(2) by blast
  then show ?thesis using st1(2) i by (intro exI [of _ st1] exI [of _ k]) simp
qed

end
