(* ===== verification/Crypto.thy ===== *)
theory Crypto
  imports A2_Prelude String_Util
begin

text \<open>
  Cryptography: src/lib/andromeda/Crypto.cpp over the functions of libsodium, which are a parameter,
  and the buffers of SecureBuffer.hpp and SecureBuffer.cpp.
\<close>

section \<open>SecureBuffer\<close>

text \<open>
  The content of a buffer; its length is mSize. New memory of sodium_allocarray is filled with the byte 0xdb.
  Reading outside of a buffer is None.
\<close>

type_synonym sbuf = "8 word list"

definition sb_alloc :: "nat \<Rightarrow> sbuf" where
  "sb_alloc n = replicate n 0xdb"

definition sb_copy :: "sbuf \<Rightarrow> sbuf" where
  "sb_copy src = take (length src) (src @ drop (length src) (sb_alloc (length src)))"

text \<open>The new buffer, and the old one afterwards.\<close>

definition sb_move :: "sbuf \<Rightarrow> sbuf \<times> sbuf" where
  "sb_move old = (old, [])"

definition sb_equal :: "sbuf \<Rightarrow> sbuf \<Rightarrow> bool" where
  "sb_equal a b \<longleftrightarrow> length a = length b \<and> list_all2 (=) a b"

definition sb_resize :: "nat \<Rightarrow> sbuf \<Rightarrow> sbuf" where
  "sb_resize n b = (let m = min n (length b) in take m b @ drop m (sb_alloc n))"

definition sb_substr :: "nat \<Rightarrow> nat \<Rightarrow> sbuf \<Rightarrow> sbuf option" where
  "sb_substr offset n b = (if offset + n > length b then None else Some (take n (drop offset b)))"

section \<open>The library\<close>

text \<open>
  The lengths that libsodium defines, and its functions. A function that fills a buffer returns its code and the
  bytes that it writes at the start of the buffer; 'g is the state of the random numbers.
\<close>

record 'g sodium =
  z_salt :: nat
  z_secret_key :: nat
  z_secret_nonce :: nat
  z_secret_over :: nat
  z_public_nonce :: nat
  z_private_key :: nat
  z_public_key :: nat
  z_public_over :: nat
  z_auth_key :: nat
  z_auth_tag :: nat
  so_init :: int
  so_random :: "nat \<Rightarrow> 'g \<Rightarrow> sbuf \<times> 'g"
  so_pwhash :: "nat \<Rightarrow> sbuf \<Rightarrow> sbuf \<Rightarrow> int \<times> sbuf"
  so_encrypt :: "sbuf \<Rightarrow> sbuf \<Rightarrow> sbuf \<Rightarrow> sbuf \<Rightarrow> int \<times> sbuf"
  so_decrypt :: "sbuf \<Rightarrow> sbuf \<Rightarrow> sbuf \<Rightarrow> sbuf \<Rightarrow> int \<times> sbuf"
  so_keypair :: "'g \<Rightarrow> (int \<times> sbuf \<times> sbuf) \<times> 'g"
  so_box :: "sbuf \<Rightarrow> sbuf \<Rightarrow> sbuf \<Rightarrow> sbuf \<Rightarrow> int \<times> sbuf"
  so_box_open :: "sbuf \<Rightarrow> sbuf \<Rightarrow> sbuf \<Rightarrow> sbuf \<Rightarrow> int \<times> sbuf"
  so_auth :: "sbuf \<Rightarrow> sbuf \<Rightarrow> int \<times> sbuf"
  so_auth_verify :: "sbuf \<Rightarrow> sbuf \<Rightarrow> sbuf \<Rightarrow> int"

datatype crypto_exn = BadArgument string | SodiumFailed int | DecryptFailed int

type_synonym 'a crypto = "crypto_exn + 'a"

definition bindC :: "'a crypto \<Rightarrow> ('a \<Rightarrow> 'b crypto) \<Rightarrow> 'b crypto" where
  "bindC m f = (case m of Inl e \<Rightarrow> Inl e | Inr x \<Rightarrow> f x)"

lemma bindC_simps [simp]: "bindC (Inl e) f = Inl e" "bindC (Inr x) f = f x"
  by (simp_all add: bindC_def)

text \<open>Writing out at the start of a buffer of n bytes.\<close>

definition written :: "nat \<Rightarrow> sbuf \<Rightarrow> sbuf" where
  "written n out = take n (out @ drop (length out) (sb_alloc n))"

section \<open>Crypto\<close>

definition sodium_init :: "'g sodium \<Rightarrow> unit crypto" where
  "sodium_init L = (if so_init L < 0 then Inl (SodiumFailed (so_init L)) else Inr ())"

text \<open>The check of the length of an argument.\<close>

definition check_len :: "string \<Rightarrow> nat \<Rightarrow> nat \<Rightarrow> unit crypto" where
  "check_len what n expected =
     (if n \<noteq> expected then Inl (BadArgument (what @ '' was '' @ nat_str n @ '' bytes, expected '' @ nat_str expected)) else Inr ())"

definition generate_random :: "'g sodium \<Rightarrow> nat \<Rightarrow> 'g \<Rightarrow> sbuf crypto \<times> 'g" where
  "generate_random L len g =
     (case sodium_init L of Inl e \<Rightarrow> (Inl e, g) | Inr u \<Rightarrow> (let (r, g) = so_random L len g in (Inr (written len r), g)))"

definition generate_salt :: "'g sodium \<Rightarrow> 'g \<Rightarrow> sbuf crypto \<times> 'g" where
  "generate_salt L = generate_random L (z_salt L)"

definition generate_secret_key :: "'g sodium \<Rightarrow> 'g \<Rightarrow> sbuf crypto \<times> 'g" where
  "generate_secret_key L = generate_random L (z_secret_key L)"

definition generate_secret_nonce :: "'g sodium \<Rightarrow> 'g \<Rightarrow> sbuf crypto \<times> 'g" where
  "generate_secret_nonce L = generate_random L (z_secret_nonce L)"

definition generate_public_nonce :: "'g sodium \<Rightarrow> 'g \<Rightarrow> sbuf crypto \<times> 'g" where
  "generate_public_nonce L = generate_random L (z_public_nonce L)"

definition generate_auth_key :: "'g sodium \<Rightarrow> 'g \<Rightarrow> sbuf crypto \<times> 'g" where
  "generate_auth_key L = generate_random L (z_auth_key L)"

definition derive_key :: "'g sodium \<Rightarrow> sbuf \<Rightarrow> sbuf \<Rightarrow> nat \<Rightarrow> sbuf crypto" where
  "derive_key L password salt bytes =
     bindC (check_len ''salt'' (length salt) (z_salt L)) (\<lambda>_.
     bindC (sodium_init L) (\<lambda>_.
       let (err, out) = so_pwhash L bytes password salt
       in if err \<noteq> 0 then Inl (SodiumFailed err) else Inr (written bytes out)))"

definition encrypt_secret :: "'g sodium \<Rightarrow> sbuf \<Rightarrow> sbuf \<Rightarrow> sbuf \<Rightarrow> sbuf \<Rightarrow> sbuf crypto" where
  "encrypt_secret L msg nonce key extra =
     bindC (check_len ''nonce'' (length nonce) (z_secret_nonce L)) (\<lambda>_.
     bindC (check_len ''key'' (length key) (z_secret_key L)) (\<lambda>_.
     bindC (sodium_init L) (\<lambda>_.
       let n = length msg + z_secret_over L; (err, out) = so_encrypt L msg extra nonce key; clen = length out
       in if err \<noteq> 0 then Inl (SodiumFailed err)
          else if clen = 0 \<or> clen > n then Inl (SodiumFailed 0)
          else Inr (take clen (written n out)))))"

definition decrypt_secret :: "'g sodium \<Rightarrow> sbuf \<Rightarrow> sbuf \<Rightarrow> sbuf \<Rightarrow> sbuf \<Rightarrow> sbuf crypto" where
  "decrypt_secret L enc nonce key extra =
     bindC (check_len ''nonce'' (length nonce) (z_secret_nonce L)) (\<lambda>_.
     bindC (check_len ''key'' (length key) (z_secret_key L)) (\<lambda>_.
     bindC (sodium_init L) (\<lambda>_.
       let n = length enc; (err, out) = so_decrypt L enc extra nonce key; mlen = length out
       in if err \<noteq> 0 then Inl (DecryptFailed err)
          else if mlen = 0 \<or> mlen > n then Inl (SodiumFailed 0)
          else Inr (sb_resize mlen (written n out)))))"

definition generate_key_pair :: "'g sodium \<Rightarrow> 'g \<Rightarrow> (sbuf \<times> sbuf) crypto \<times> 'g" where
  "generate_key_pair L g =
     (case sodium_init L of Inl e \<Rightarrow> (Inl e, g)
      | Inr u \<Rightarrow>
          (let ((err, pub, priv), g) = so_keypair L g
           in if err \<noteq> 0 then (Inl (SodiumFailed err), g)
              else (Inr (written (z_public_key L) pub, written (z_private_key L) priv), g)))"

definition encrypt_public :: "'g sodium \<Rightarrow> sbuf \<Rightarrow> sbuf \<Rightarrow> sbuf \<Rightarrow> sbuf \<Rightarrow> sbuf crypto" where
  "encrypt_public L msg nonce priv pub =
     bindC (check_len ''nonce'' (length nonce) (z_public_nonce L)) (\<lambda>_.
     bindC (check_len ''privkey'' (length priv) (z_private_key L)) (\<lambda>_.
     bindC (check_len ''pubkey'' (length pub) (z_public_key L)) (\<lambda>_.
     bindC (sodium_init L) (\<lambda>_.
       let (err, out) = so_box L msg nonce pub priv
       in if err \<noteq> 0 then Inl (SodiumFailed err) else Inr (written (length msg + z_public_over L) out)))))"

text \<open>The length of the result is computed with size_t, before the library looks at the message.\<close>

definition decrypt_public :: "'g sodium \<Rightarrow> sbuf \<Rightarrow> sbuf \<Rightarrow> sbuf \<Rightarrow> sbuf \<Rightarrow> sbuf crypto" where
  "decrypt_public L enc nonce priv pub =
     bindC (check_len ''nonce'' (length nonce) (z_public_nonce L)) (\<lambda>_.
     bindC (check_len ''privkey'' (length priv) (z_private_key L)) (\<lambda>_.
     bindC (check_len ''pubkey'' (length pub) (z_public_key L)) (\<lambda>_.
     bindC (sodium_init L) (\<lambda>_.
       let n = usub (length enc) (z_public_over L); (err, out) = so_box_open L enc nonce pub priv
       in if err \<noteq> 0 then Inl (DecryptFailed err) else Inr (written n out)))))"

definition make_auth_code :: "'g sodium \<Rightarrow> sbuf \<Rightarrow> sbuf \<Rightarrow> sbuf crypto" where
  "make_auth_code L msg key =
     bindC (check_len ''key'' (length key) (z_auth_key L)) (\<lambda>_.
     bindC (sodium_init L) (\<lambda>_.
       let (err, out) = so_auth L msg key
       in if err \<noteq> 0 then Inl (SodiumFailed err) else Inr (written (z_auth_tag L) out)))"

definition try_check_auth_code :: "'g sodium \<Rightarrow> sbuf \<Rightarrow> sbuf \<Rightarrow> sbuf \<Rightarrow> bool crypto" where
  "try_check_auth_code L mac msg key =
     bindC (check_len ''key'' (length key) (z_auth_key L)) (\<lambda>_.
     bindC (check_len ''mac'' (length mac) (z_auth_tag L)) (\<lambda>_.
     bindC (sodium_init L) (\<lambda>_. Inr (so_auth_verify L mac msg key = 0))))"

definition check_auth_code :: "'g sodium \<Rightarrow> sbuf \<Rightarrow> sbuf \<Rightarrow> sbuf \<Rightarrow> unit crypto" where
  "check_auth_code L mac msg key =
     bindC (try_check_auth_code L mac msg key) (\<lambda>good. if \<not> good then Inl (DecryptFailed 0) else Inr ())"

section \<open>Buffers\<close>

lemma length_buffers [simp]: "length (sb_alloc n) = n" "length (sb_copy b) = length b" "length (sb_resize n b) = n" "length (written n out) = n"
  by (simp_all add: sb_alloc_def sb_copy_def sb_resize_def written_def Let_def min_def)

lemma sb_copy_equal: "sb_copy b = b" and sb_equal_iff: "sb_equal a b \<longleftrightarrow> a = b"
  by (auto simp: sb_copy_def sb_equal_def list_all2_eq dest: list_all2_lengthD)

lemma written_exact [simp]: "written (length out) out = out"
  by (simp add: written_def)

lemma resize_written: "length out \<le> n \<Longrightarrow> sb_resize (length out) (written n out) = out" "length out \<le> n \<Longrightarrow> take (length out) (written n out) = out"
  by (simp_all add: sb_resize_def written_def Let_def min_def)

section \<open>What the library promises\<close>

text \<open>
  The documented laws: what was encrypted decrypts to the message, with the overhead that the library names; the
  keys of a pair open what was closed with them; the code of a message is verified.
\<close>

definition sodium_laws :: "'g sodium \<Rightarrow> (sbuf \<Rightarrow> sbuf \<Rightarrow> bool) \<Rightarrow> bool" where
  "sodium_laws L pair \<longleftrightarrow> so_init L \<ge> 0 \<and> z_secret_over L > 0 \<and>
     (\<forall>m x n k c. so_encrypt L m x n k = (0, c) \<longrightarrow> length c = length m + z_secret_over L \<and> so_decrypt L c x n k = (0, m)) \<and>
     (\<forall>m n k1 k2 p1 p2 c. pair p1 k1 \<and> pair p2 k2 \<and> so_box L m n p2 k1 = (0, c) \<longrightarrow>
        length c = length m + z_public_over L \<and> so_box_open L c n p1 k2 = (0, m)) \<and>
     (\<forall>m k c. so_auth L m k = (0, c) \<longrightarrow> length c = z_auth_tag L \<and> so_auth_verify L c m k = 0)"

lemma sodium_lawsD:
  assumes "sodium_laws L pair"
  shows "sodium_init L = Inr ()"
    and "so_encrypt L m x n k = (0, c) \<Longrightarrow> length c = length m + z_secret_over L \<and> so_decrypt L c x n k = (0, m)"
    and "pair p1 k1 \<Longrightarrow> pair p2 k2 \<Longrightarrow> so_box L m n p2 k1 = (0, c) \<Longrightarrow> length c = length m + z_public_over L \<and> so_box_open L c n p1 k2 = (0, m)"
    and "so_auth L m k = (0, c) \<Longrightarrow> length c = z_auth_tag L \<and> so_auth_verify L c m k = 0"
    and "z_secret_over L > 0"
  using assms by (auto simp: sodium_laws_def sodium_init_def)

lemma bindC_done: "bindC m f = Inr y \<longleftrightarrow> (\<exists>x. m = Inr x \<and> f x = Inr y)"
  by (cases m) auto

lemma check_len_done: "check_len what n e = Inr u \<longleftrightarrow> n = e"
  by (simp add: check_len_def)

lemma encrypt_secret_done:
  assumes "sodium_laws L pair" and "encrypt_secret L msg nonce key extra = Inr enc"
  shows "so_encrypt L msg extra nonce key = (0, enc) \<and> length nonce = z_secret_nonce L \<and> length key = z_secret_key L"
proof -
  obtain err out where o: "so_encrypt L msg extra nonce key = (err, out)" by force
  have *: "length nonce = z_secret_nonce L \<and> length key = z_secret_key L \<and> err = 0 \<and> length out \<le> length msg + z_secret_over L \<and>
      enc = take (length out) (written (length msg + z_secret_over L) out)"
    using assms(2) o by (auto simp: encrypt_secret_def bindC_done check_len_done Let_def split: if_splits)
  then have "enc = out" by (simp add: resize_written(2))
  then show ?thesis using * o by simp
qed

text \<open>C25: A message that was encrypted with a secret key decrypts to itself with the same nonce, key and extra data, unless it is empty: then encryption succeeds, but decryption throws.\<close>

theorem secret_round_trip:
  assumes "sodium_laws L pair" and "encrypt_secret L msg nonce key extra = Inr enc"
  shows "decrypt_secret L enc nonce key extra = (if msg = [] then Inl (SodiumFailed 0) else Inr msg)"
proof -
  note E = encrypt_secret_done [OF assms]
  have d: "length enc = length msg + z_secret_over L" "so_decrypt L enc extra nonce key = (0, msg)"
    using sodium_lawsD(2) [OF assms(1)] E by blast+
  show ?thesis using E d sodium_lawsD(1) [OF assms(1)]
    by (simp add: decrypt_secret_def check_len_def Let_def resize_written(1))
qed

lemma public_round_trip:
  assumes L: "sodium_laws L pair" and k: "pair p1 k1" "pair p2 k2" and len: "length k2 = z_private_key L" "length p1 = z_public_key L"
    and e: "encrypt_public L msg nonce k1 p2 = Inr enc" and small: "length enc < 2 ^ 64"
  shows "decrypt_public L enc nonce k2 p1 = Inr msg"
proof -
  obtain err out where o: "so_box L msg nonce p2 k1 = (err, out)" by force
  have *: "length nonce = z_public_nonce L \<and> err = 0 \<and> enc = written (length msg + z_public_over L) out"
    using e o by (auto simp: encrypt_public_def bindC_done check_len_done Let_def split: if_splits)
  have l: "length out = length msg + z_public_over L \<and> so_box_open L out nonce p1 k2 = (0, msg)"
    using sodium_lawsD(3) [OF L k] o * by blast
  then have enc: "enc = out" using * by (metis written_exact)
  have "usub (length enc) (z_public_over L) = length msg" using l small enc by (simp add: usub_small)
  then show ?thesis using * l enc len sodium_lawsD(1) [OF L] by (simp add: decrypt_public_def check_len_def)
qed

lemma auth_round_trip:
  assumes L: "sodium_laws L pair" and m: "make_auth_code L msg key = Inr mac"
  shows "try_check_auth_code L mac msg key = Inr True" and "check_auth_code L mac msg key = Inr ()"
proof -
  obtain err out where o: "so_auth L msg key = (err, out)" by force
  have *: "length key = z_auth_key L \<and> err = 0 \<and> mac = written (z_auth_tag L) out"
    using m o by (auto simp: make_auth_code_def bindC_done check_len_done Let_def split: if_splits)
  have l: "length out = z_auth_tag L \<and> so_auth_verify L out msg key = 0" using sodium_lawsD(4) [OF L] o * by blast
  then have "mac = out" using * by (metis written_exact)
  then show "try_check_auth_code L mac msg key = Inr True" using * l sodium_lawsD(1) [OF L]
    by (simp add: try_check_auth_code_def check_len_def)
  then show "check_auth_code L mac msg key = Inr ()" by (simp add: check_auth_code_def)
qed

text \<open>A library that appends a tag of two bytes.\<close>

definition tag_sodium :: "nat sodium" where
  "tag_sodium = \<lparr>z_salt = 2, z_secret_key = 2, z_secret_nonce = 1, z_secret_over = 2, z_public_nonce = 1, z_private_key = 1, z_public_key = 1,
     z_public_over = 2, z_auth_key = 1, z_auth_tag = 2, so_init = 0, so_random = (\<lambda>n g. (replicate n 7, g + 1)),
     so_pwhash = (\<lambda>n p s. (0, replicate n 5)),
     so_encrypt = (\<lambda>m x n k. (0, m @ [1, 2])),
     so_decrypt = (\<lambda>c x n k. if length c < 2 then (-1, []) else (0, take (length c - 2) c)),
     so_keypair = (\<lambda>g. ((0, [3], [3]), g)),
     so_box = (\<lambda>m n p k. (0, m @ [1, 2])),
     so_box_open = (\<lambda>c n p k. if length c < 2 then (-1, []) else (0, take (length c - 2) c)),
     so_auth = (\<lambda>m k. (0, [1, 2])), so_auth_verify = (\<lambda>t m k. if t = [1, 2] then 0 else -1)\<rparr>"

lemma tag_laws: "sodium_laws tag_sodium (\<lambda>p k. p = k)"
  by (auto simp: sodium_laws_def tag_sodium_def)

lemma secret_round_trip_witness:
  "decrypt_secret tag_sodium [9, 8, 1, 2] [4] [5, 6] [] = Inr [9, 8] \<and> decrypt_secret tag_sodium [1, 2] [4] [5, 6] [] = Inl (SodiumFailed 0)"
proof -
  have "encrypt_secret tag_sodium [9, 8] [4] [5, 6] [] = Inr [9, 8, 1, 2]" "encrypt_secret tag_sodium [] [4] [5, 6] [] = Inr [1, 2]"
    by (simp_all add: encrypt_secret_def check_len_def sodium_init_def tag_sodium_def Let_def written_def)
  then show ?thesis using secret_round_trip [OF tag_laws] by fastforce
qed

lemma public_example: "decrypt_public tag_sodium [9, 1, 2] [4] [3] [3] = Inr [9]"
proof -
  have "encrypt_public tag_sodium [9] [4] [3] [3] = Inr [9, 1, 2]"
    by (simp add: encrypt_public_def check_len_def sodium_init_def tag_sodium_def Let_def written_def)
  from public_round_trip [OF tag_laws _ _ _ _ this] show ?thesis by (simp add: tag_sodium_def)
qed

end
