(* ===== verification/Command_Line.thy ===== *)
theory Command_Line
  imports Option_Structs Std_Map "HOL-Library.List_Lexorder" "HOL-Library.Char_ord"
begin

text \<open>
  The command line of andromeda-cli (src/bin/andromeda-cli/CommandLine.cpp), with the environment of
  PlatformUtil.cpp: options, then app and action, then the parameters of the action.
\<close>

section \<open>Environment\<close>

text \<open>GetEnvironment of a POSIX system: the variables as they stand, of which the first of a name counts.\<close>

definition get_environment :: "string list \<Rightarrow> string \<Rightarrow> (string \<times> string) list" where
  "get_environment vars prefix =
     fold (\<lambda>var m. let pair = split_pair var ''='' 0 False
        in if (prefix = [] \<or> starts_with_impl (fst pair) prefix) \<and> map_of m (fst pair) = None then m @ [pair] else m) vars []"

text \<open>GetHomeDirectory, from getenv.\<close>

definition get_home :: "(string \<Rightarrow> string option) \<Rightarrow> string" where
  "get_home getenv =
     (case getenv ''HOME'' of Some p \<Rightarrow> p
      | None \<Rightarrow> (case getenv ''HOMEDIR'' of Some p \<Rightarrow> p
      | None \<Rightarrow> (case getenv ''HOMEPATH'' of Some p \<Rightarrow> p | None \<Rightarrow> [])))"

text \<open>
  RunPosixCommand: run is fork, execvp and waitpid; an error of fork, or how the process ended. The texts of
  errors and signals come from the system.
\<close>

datatype wait_status = Exited nat | Signaled nat | UnknownStatus

definition run_posix_command :: "(nat \<Rightarrow> string) \<Rightarrow> (nat \<Rightarrow> string) \<Rightarrow> (string list \<Rightarrow> nat + wait_status) \<Rightarrow> string list \<Rightarrow> string + nat" where
  "run_posix_command strerror strsignal run args =
     (if args = [] then Inl ''empty argument list''
      else case run args of
        Inl err \<Rightarrow> Inl (''fork: '' @ strerror err)
      | Inr (Exited code) \<Rightarrow>
          if code \<ge> 128 then Inl (''exec: '' @ nat_str (code - 128) @ '' '' @ strerror (code - 128)) else Inr code
      | Inr (Signaled sig) \<Rightarrow> Inl (''signal: '' @ nat_str sig @ '' '' @ strsignal sig)
      | Inr UnknownStatus \<Rightarrow> Inl ''unknown status'')"

section \<open>Parameters\<close>

text \<open>Undefined stands for back() of an empty string, which has no defined behaviour.\<close>

datatype cli_exn = CliOption opt_error | Inaccessible string | PrivateData string | IncompatibleIO | Undefined

text \<open>Where a stream of input comes from; the path of an opened file, or standard input.\<close>

datatype source = OpenFile string | StandardIn

type_synonym string_params = "(string, string) smap"

record cli_state =
  cs_plain :: string_params
  cs_data :: string_params
  cs_streams :: "(string, string \<times> source) smap"
  cs_stdin :: "string list"

text \<open>The files that can be read as such, with their content.\<close>

type_synonym file_system = "string \<Rightarrow> string option"

definition get_next_value :: "string list \<Rightarrow> nat \<Rightarrow> string \<times> nat" where
  "get_next_value argv i =
     (if starts_with_impl (argv ! i) ''--'' \<and> CHR ''='' \<in> set (argv ! i) then (snd (split_pair (argv ! i) ''='' 0 False), i)
      else if length argv > i + 1 \<and> \<not> starts_with_impl (argv ! (i + 1)) ''--'' then (argv ! (i + 1), i + 1)
      else ([], i))"

definition bad_usage :: "string \<Rightarrow> nat \<Rightarrow> cli_exn" where
  "bad_usage text i = CliOption (BadUsage (text @ '' at action arg '' @ nat_str i))"

text \<open>A line of standard input; an empty one at its end.\<close>

definition get_line :: "cli_state \<Rightarrow> string \<times> cli_state" where
  "get_line s = (case cs_stdin s of [] \<Rightarrow> ([], s) | l # ls \<Rightarrow> (l, s\<lparr>cs_stdin := ls\<rparr>))"

text \<open>The body of the loop of ProcessArgList, with the index of the last argument that it used.\<close>

definition process_arg :: "file_system \<Rightarrow> bool \<Rightarrow> bool \<Rightarrow> string list \<Rightarrow> nat \<Rightarrow> cli_state \<Rightarrow> (cli_exn + nat) \<times> cli_state" where
  "process_arg fs unsafe priv args i s =
     (let param = args ! i in
      if length param < 2 \<or> \<not> starts_with_impl param ''--'' then (Inl (bad_usage ''expected key'' i), s)
      else if length param < 3 \<or> is_space (param ! 2) then (Inl (bad_usage ''empty key'' i), s)
      else let param = fst (split_pair (drop 2 param) ''='' 0 False) in
        if param = [] then (Inl Undefined, s)
        else if last param = CHR ''@'' then
          (let param = butlast param in
           if param = [] then (Inl (bad_usage ''empty @ key'' i), s)
           else let (val, j) = get_next_value args i in
             if val = [] then (Inl (bad_usage ''expected @ value'' j), s)
             else (case fs val of None \<Rightarrow> (Inl (Inaccessible val), s)
                   | Some data \<Rightarrow> (Inr j, s\<lparr>cs_data := sm_assign param data (cs_data s)\<rparr>)))
        else if last param = CHR ''!'' then
          (let param = butlast param in
           if param = [] then (Inl (bad_usage ''empty ! key'' i), s)
           else let (val, s) = get_line s in (Inr i, s\<lparr>cs_data := sm_assign param (trim val) (cs_data s)\<rparr>))
        else if last param = CHR ''%'' then
          (let param = butlast param in
           if param = [] then (Inl (bad_usage ''empty % key'' i), s)
           else let (path, j) = get_next_value args i in
             if path = [] then (Inl (bad_usage ''expected % value'' j), s)
             else (case fs path of None \<Rightarrow> (Inl (Inaccessible path), s)
                   | Some data \<Rightarrow>
                       (let (name, k) = get_next_value args j;
                            name = (if name = [] then snd (split_path path) else name)
                        in (Inr k, s\<lparr>cs_streams := sm_emplace param (name, OpenFile path) (cs_streams s)\<rparr>))))
        else if last param = CHR ''-'' then
          (let param = butlast param in
           if param = [] then (Inl (bad_usage ''empty - key'' i), s)
           else let (name, j) = get_next_value args i; name = (if name = [] then ''data'' else name)
                in (Inr j, s\<lparr>cs_streams := sm_emplace param (name, StandardIn) (cs_streams s)\<rparr>))
        else if \<not> priv \<and> \<not> unsafe \<and> (str_find ''password'' param \<noteq> None \<or> str_find ''auth_'' param \<noteq> None)
        then (Inl (PrivateData param), s)
        else let (val, j) = get_next_value args i in
          (Inr j, if priv then s\<lparr>cs_data := sm_assign param val (cs_data s)\<rparr> else s\<lparr>cs_plain := sm_assign param val (cs_plain s)\<rparr>))"

lemma get_next_value_le: "get_next_value argv i = (v, j) \<Longrightarrow> i \<le> j"
  by (auto simp: get_next_value_def split: if_splits)

lemma process_arg_le: "process_arg fs unsafe priv args i s = (Inr j, s') \<Longrightarrow> i \<le> j"
  by (auto simp: process_arg_def Let_def split: if_splits prod.splits option.splits dest!: get_next_value_le)

function process_args :: "file_system \<Rightarrow> bool \<Rightarrow> bool \<Rightarrow> string list \<Rightarrow> nat \<Rightarrow> cli_state \<Rightarrow> (cli_exn + unit) \<times> cli_state" where
  "process_args fs unsafe priv args i s =
     (if \<not> i < length args then (Inr (), s)
      else case process_arg fs unsafe priv args i s of
        (Inl e, s) \<Rightarrow> (Inl e, s)
      | (Inr j, s) \<Rightarrow> process_args fs unsafe priv args (j + 1) s)"
  by pat_completeness auto
termination
proof (relation "measure (\<lambda>(fs, unsafe, priv, args, i, s). length args - i)", goal_cases)
  case (2 fs unsafe priv args i s x y j)
  then show ?case using process_arg_le [of fs unsafe priv args i s j y] by auto
qed simp

declare process_args.simps [simp del]

text \<open>Splitting at the first of a character.\<close>

lemma split_char: "split_pair s [c] 0 False = (takeWhile (\<lambda>d. d \<noteq> c) s, drop 1 (dropWhile (\<lambda>d. d \<noteq> c) s))"
proof (cases "c \<in> set s")
  case True
  define i where "i = length (takeWhile (\<lambda>d. d \<noteq> c) s)"
  have f: "str_find [c] s = Some i" using True by (simp add: find_char i_def)
  have "explode_loop [c] 0 2 s [] 0 [] = explode_loop [c] 0 2 (drop (i + 1) s) [] 0 [take i s]"
    by (subst explode_loop.simps) (simp add: f)
  also have "\<dots> = [take i s, drop (i + 1) s]" by (subst explode_loop.simps) simp
  finally have "explode s [c] 0 False 2 = [take i s, drop (i + 1) s]" using True by (auto simp: explode_def)
  moreover have "take i s = takeWhile (\<lambda>d. d \<noteq> c) s" "drop i s = dropWhile (\<lambda>d. d \<noteq> c) s"
    by (simp_all add: i_def takeWhile_eq_take [symmetric] dropWhile_eq_drop [symmetric])
  moreover have "drop (i + 1) s = drop 1 (drop i s)" by simp
  ultimately show ?thesis by (simp add: split_pair_def)
next
  case False
  then have f: "str_find [c] s = None" by (simp add: find_char)
  have "explode_loop [c] 0 2 s [] 0 [] = [s]" by (subst explode_loop.simps) (simp add: f)
  then have "split_pair s [c] 0 False = (s, [])" by (cases "s = []") (simp_all add: split_pair_def explode_def)
  moreover have "takeWhile (\<lambda>d. d \<noteq> c) s = s" "dropWhile (\<lambda>d. d \<noteq> c) s = []" using False by auto
  ultimately show ?thesis by (simp only: drop_Nil)
qed

section \<open>The command\<close>

record run_input =
  ri_app :: string
  ri_action :: string
  ri_plain :: string_params
  ri_data :: string_params

datatype command = PlainInput run_input | StreamIn run_input "(string, string \<times> source) smap" | StreamOut run_input

text \<open>The variables of the environment as arguments.\<close>

definition env_args :: "string list \<Rightarrow> string list" where
  "env_args vars =
     concat (map (\<lambda>(name, val). let key = snd (split_pair name ''_'' 0 False) in if key \<noteq> [] then [''--'' @ key, val] else [])
       (get_environment vars ''andromeda_''))"

text \<open>The constructor; parse is what ParseArgs makes of the arguments and the options.\<close>

definition command_line :: "(string list \<Rightarrow> cli_opts \<Rightarrow> (opt_error + nat) \<times> cli_opts) \<Rightarrow> file_system \<Rightarrow> string list \<Rightarrow> string list \<Rightarrow>
    string list \<Rightarrow> cli_opts \<Rightarrow> cli_exn + command \<times> cli_opts" where
  "command_line parse fs vars stdin argv opts =
     (case parse argv opts of
        (Inl e, opts) \<Rightarrow> Inl (CliOption e)
      | (Inr shift, opts) \<Rightarrow>
          (let argv = drop shift argv in
           case cli_validate opts of Some e \<Rightarrow> Inl (CliOption e)
           | None \<Rightarrow>
               if length argv < 2 then Inl (CliOption (BadUsage ''missing app/action''))
               else (case process_args fs (cl_unsafe opts) True (env_args vars) 0 \<lparr>cs_plain = [], cs_data = [], cs_streams = [], cs_stdin = stdin\<rparr> of
                 (Inl e, s) \<Rightarrow> Inl e
               | (Inr u, s) \<Rightarrow>
                   (case process_args fs (cl_unsafe opts) False (drop 2 argv) 0 s of
                      (Inl e, s) \<Rightarrow> Inl e
                    | (Inr u, s) \<Rightarrow>
                        (let input = \<lparr>ri_app = argv ! 0, ri_action = argv ! 1, ri_plain = cs_plain s, ri_data = cs_data s\<rparr> in
                         if cl_streamout opts \<and> cs_streams s \<noteq> [] then Inl IncompatibleIO
                         else Inr (if cl_streamout opts then StreamOut input
                                   else if cs_streams s \<noteq> [] then StreamIn input (cs_streams s)
                                   else PlainInput input, opts))))))"

text \<open>RunInputAction, over the methods of the runner: the answer and whether it is JSON.\<close>

definition run_input_action :: "(run_input \<Rightarrow> 'w \<Rightarrow> ('e + string \<times> bool) \<times> 'w) \<Rightarrow>
    (run_input \<Rightarrow> (string, string \<times> source) smap \<Rightarrow> 'w \<Rightarrow> ('e + string \<times> bool) \<times> 'w) \<Rightarrow>
    (run_input \<Rightarrow> 'w \<Rightarrow> ('e + bool) \<times> 'w) \<Rightarrow> command \<Rightarrow> 'w \<Rightarrow> ('e + string \<times> bool) \<times> 'w" where
  "run_input_action run_write run_stream_in run_stream_out c w =
     (case c of
        PlainInput i \<Rightarrow> run_write i w
      | StreamIn i ins \<Rightarrow> run_stream_in i ins w
      | StreamOut i \<Rightarrow> bindR (run_stream_out i w) (\<lambda>_ w. (Inr ([], False), w)))"

section \<open>The main function\<close>

datatype exit_code = ExitSuccess | ExitBadUsage | ExitEndpoint | ExitJson | ExitResponse

text \<open>The exceptions of the options and arguments.\<close>

definition usage_exit :: "cli_exn \<Rightarrow> exit_code option" where
  "usage_exit e = (case e of CliOption ShowHelp \<Rightarrow> Some ExitSuccess | CliOption ShowVersion \<Rightarrow> Some ExitSuccess
     | Undefined \<Rightarrow> None | _ \<Rightarrow> Some ExitBadUsage)"

text \<open>
  The outcome of the request: an exception, which is an EndpointException or not, or an answer. ok is the Boolean at
  the key ok of the answer as JSON, where it has one; None is a process that an uncaught exception ends.
\<close>

definition answer_exit :: "('e \<Rightarrow> bool) \<Rightarrow> (string \<Rightarrow> bool option) \<Rightarrow> 'e + string \<times> bool \<Rightarrow> exit_code option" where
  "answer_exit is_endpoint ok r =
     (case r of Inl e \<Rightarrow> if is_endpoint e then Some ExitEndpoint else None
      | Inr (resp, is_json) \<Rightarrow>
          if \<not> is_json then Some ExitSuccess
          else (case ok resp of None \<Rightarrow> Some ExitJson | Some b \<Rightarrow> Some (if b then ExitSuccess else ExitResponse)))"

section \<open>No private parameter in a URL\<close>

fun input_of :: "command \<Rightarrow> run_input" where
  "input_of (PlainInput i) = i"
| "input_of (StreamIn i ins) = i"
| "input_of (StreamOut i) = i"

definition public_key :: "string \<Rightarrow> bool" where
  "public_key k \<longleftrightarrow> str_find ''password'' k = None \<and> str_find ''auth_'' k = None"

definition public_plain :: "cli_state \<Rightarrow> bool" where
  "public_plain s \<longleftrightarrow> (\<forall>k \<in> fst ` set (cs_plain s). public_key k)"

lemma public_plain_parts [simp]:
  "public_plain (s\<lparr>cs_data := d\<rparr>) = public_plain s" "public_plain (s\<lparr>cs_streams := t\<rparr>) = public_plain s" "public_plain (s\<lparr>cs_stdin := l\<rparr>) = public_plain s"
  by (simp_all add: public_plain_def)

lemma process_arg_public:
  assumes "public_plain s" and "process_arg fs False priv args i s = (r, s')"
  shows "public_plain s'"
proof -
  have a: "public_plain (s\<lparr>cs_plain := sm_assign k v (cs_plain s)\<rparr>)" if "public_key k" for k v
    using assms(1) that by (auto simp: public_plain_def keys_assign)
  have g: "public_plain (snd (get_line s))" using assms(1) by (simp add: get_line_def split: list.split)
  show ?thesis using assms a g unfolding process_arg_def Let_def
    by (auto simp: public_key_def split: if_splits prod.splits option.splits)
qed

lemma process_args_public:
  "public_plain s \<Longrightarrow> process_args fs False priv args i s = (r, s') \<Longrightarrow> public_plain s'"
proof (induction fs "False" priv args i s arbitrary: r s' rule: process_args.induct)
  case (1 fs priv args i s)
  show ?case
  proof (cases "i < length args")
    case False
    then show ?thesis using 1(3) 1(2) by (simp add: process_args.simps)
  next
    case True
    obtain r1 s1 where p: "process_arg fs False priv args i s = (r1, s1)" by force
    note P = process_arg_public [OF 1(2) p]
    show ?thesis
    proof (cases r1)
      case (Inl e)
      then show ?thesis using 1(3) True p P by (subst (asm) process_args.simps) simp
    next
      case (Inr j)
      then have "process_args fs False priv args (j + 1) s1 = (r, s')" using 1(3) True p by (subst (asm) process_args.simps) simp
      then show ?thesis using 1(1) True p Inr P by simp
    qed
  qed
qed

text \<open>C24: unless the option allow-unsafe-url is given, no parameter whose name contains password or auth_ is among those that go into
  a URL, whatever the command line and the environment are.\<close>

theorem private_params_hidden:
  assumes "command_line parse fs vars stdin argv opts = Inr (c, opts')" and "\<not> cl_unsafe opts'" and "k \<in> fst ` set (ri_plain (input_of c))"
  shows "str_find ''password'' k = None \<and> str_find ''auth_'' k = None"
proof -
  obtain n where n: "parse argv opts = (Inr n, opts')"
    using assms(1) by (auto simp: command_line_def Let_def split: prod.splits sum.splits option.splits if_splits)
  define s0 where "s0 = \<lparr>cs_plain = [], cs_data = [], cs_streams = [], cs_stdin = stdin\<rparr>"
  obtain u1 s1 u2 s2 where p: "process_args fs False True (env_args vars) 0 s0 = (Inr u1, s1)"
      "process_args fs False False (drop 2 (drop n argv)) 0 s1 = (Inr u2, s2)" and c: "ri_plain (input_of c) = cs_plain s2"
    using assms(1,2) n by (auto simp: command_line_def Let_def s0_def split: prod.splits sum.splits option.splits if_splits)
  have "public_plain s0" by (simp add: public_plain_def s0_def)
  then have "public_plain s2" using process_args_public p by blast
  then show ?thesis using assms(3) c by (force simp: public_plain_def public_key_def)
qed

definition toy_parse :: "string list \<Rightarrow> cli_opts \<Rightarrow> (opt_error + nat) \<times> cli_opts" where
  "toy_parse argv opts = (Inr 1, opts\<lparr>cl_url := ''u'', cl_unsafe := False\<rparr>)"

definition toy_opts :: cli_opts where
  "toy_opts = \<lparr>cl_base = base_default, cl_http = http_default, cl_runner = runner_default, cl_url = [], cl_streamout = False, cl_unsafe = False\<rparr>"

lemma toy_command:
  "command_line toy_parse Map.empty [''andromeda_auth_k=s''] [] [''cli'', ''app'', ''act'', ''--k'', ''v''] toy_opts =
     Inr (PlainInput \<lparr>ri_app = ''app'', ri_action = ''act'', ri_plain = [(''k'', ''v'')], ri_data = [(''auth_k'', ''s'')]\<rparr>, toy_opts\<lparr>cl_url := ''u''\<rparr>)"
proof -
  have e: "env_args [''andromeda_auth_k=s''] = [''--auth_k'', ''s'']"
    by (simp add: env_args_def get_environment_def split_char starts_with_impl_def)
  have f: "str_find ''password'' ''k'' = None" "str_find ''auth_'' ''k'' = None" by code_simp+
  show ?thesis unfolding command_line_def e
    by (simp add: toy_parse_def cli_validate_def toy_opts_def process_args.simps process_arg_def get_next_value_def starts_with_impl_def is_space_def split_char f)
qed

lemma private_params_hidden_witness: "str_find ''password'' ''k'' = None \<and> str_find ''auth_'' ''k'' = None"
  by (rule private_params_hidden [OF toy_command]) (simp_all add: toy_opts_def)

end
