(* ===== verification/Cli_Runner.thy ===== *)
theory Cli_Runner
  imports Command_Line Runner_Input
begin

text \<open>
  CLIRunner (src/lib/andromeda/backend/CLIRunner.cpp), which runs the server as a process of the same
  machine. The library that starts processes and moves their input and output is a parameter.
\<close>

section \<open>The library\<close>

text \<open>
  The functions of reproc that are called, with their error code, where 0 is no error: start gets arguments and the
  variables that are added to the environment; drain gives the pieces of the output in order; fill calls a
  function for each piece of the input until it says that no more comes, here with an offset as its state.
\<close>

record 'p reproc =
  rp_start :: "string list \<Rightarrow> (string \<times> string) list \<Rightarrow> 'p \<Rightarrow> int \<times> 'p"
  rp_fill :: "(nat \<Rightarrow> nat \<Rightarrow> (bool \<times> bytes) \<times> nat) \<Rightarrow> nat \<Rightarrow> nat \<Rightarrow> 'p \<Rightarrow> int \<times> 'p"
  rp_close :: "'p \<Rightarrow> 'p"
  rp_drain :: "nat \<Rightarrow> 'p \<Rightarrow> int \<times> bytes list \<times> 'p"
  rp_wait :: "int \<Rightarrow> 'p \<Rightarrow> int \<times> int \<times> 'p"
  rp_terminate :: "'p \<Rightarrow> 'p"
  rp_message :: "int \<Rightarrow> string"

text \<open>Exception of CLIRunner, which is an EndpointException.\<close>

type_synonym cli_error = string

record cli_runner =
  cr_path :: string
  cr_opts :: runner_opts

section \<open>The code\<close>

definition fix_api_path :: "(string \<Rightarrow> bool) \<Rightarrow> string \<Rightarrow> string" where
  "fix_api_path is_dir path =
     (if path = [] then ''andromeda-server'' else if is_dir path then path @ ''/andromeda-server'' else path)"

definition new_cli_runner :: "(string \<Rightarrow> bool) \<Rightarrow> string \<Rightarrow> runner_opts \<Rightarrow> cli_runner" where
  "new_cli_runner is_dir path opts = \<lparr>cr_path = fix_api_path is_dir path, cr_opts = opts\<rparr>"

definition clone_cli_runner :: "(string \<Rightarrow> bool) \<Rightarrow> cli_runner \<Rightarrow> cli_runner" where
  "clone_cli_runner is_dir r = new_cli_runner is_dir (cr_path r) (cr_opts r)"

definition check_error :: "'p reproc \<Rightarrow> int \<Rightarrow> 'p \<Rightarrow> (cli_error + unit) \<times> 'p" where
  "check_error L err p = (if err \<noteq> 0 then (Inl (rp_message L err), rp_terminate L p) else (Inr (), p))"

definition param_args :: "string_params \<Rightarrow> string list" where
  "param_args params = concat (map (\<lambda>(k, v). [''--'' @ k, v]) params)"

definition get_arguments :: "cli_runner \<Rightarrow> run_input \<Rightarrow> string list" where
  "get_arguments r input =
     (if ends_with (cr_path r) ''.php'' then [''php''] else []) @
     [cr_path r, ''--json'', ri_app input, ri_action input] @ param_args (ri_plain input)"

definition cli_environment :: "run_input \<Rightarrow> (string \<times> string) list" where
  "cli_environment input = map (\<lambda>(k, v). (''andromeda_'' @ k, v)) (ri_data input)"

definition start_proc :: "'p reproc \<Rightarrow> string list \<Rightarrow> (string \<times> string) list \<Rightarrow> 'p \<Rightarrow> (cli_error + unit) \<times> 'p" where
  "start_proc L args env p = (let (err, p) = rp_start L args env p in check_error L err p)"

definition drain_proc :: "'p reproc \<Rightarrow> nat \<Rightarrow> 'p \<Rightarrow> (cli_error + bytes) \<times> 'p" where
  "drain_proc L bufsz p =
     (let (err, out, p) = rp_drain L bufsz p in bindR (check_error L err p) (\<lambda>_ p. (Inr (concat out), p)))"

definition finish_proc :: "'p reproc \<Rightarrow> int \<Rightarrow> 'p \<Rightarrow> (cli_error + int) \<times> 'p" where
  "finish_proc L timeout p =
     (let (status, err, p) = rp_wait L timeout p in bindR (check_error L err p) (\<lambda>_ p. (Inr status, p)))"

definition cli_write :: "'p reproc \<Rightarrow> cli_runner \<Rightarrow> run_input \<Rightarrow> 'p \<Rightarrow> (cli_error + bytes) \<times> 'p" where
  "cli_write L r input p =
     bindR (start_proc L (get_arguments r input) (cli_environment input) p) (\<lambda>_ p.
     bindR (drain_proc L (ro_bufsize (cr_opts r)) p) (\<lambda>out p.
     bindR (finish_proc L (1000 * ro_timeout (cr_opts r)) p) (\<lambda>_ p. (Inr out, p))))"

text \<open>
  The two functions with input share what follows the choice of the input: given, with its parameter and name,
  as a function that fills a buffer.
\<close>

definition cli_filled :: "'p reproc \<Rightarrow> cli_runner \<Rightarrow> run_input \<Rightarrow> (string \<times> string \<times> (nat \<Rightarrow> nat \<Rightarrow> bool \<times> bytes)) option \<Rightarrow> 'p \<Rightarrow>
    (cli_error + bytes) \<times> 'p" where
  "cli_filled L r input file p =
     (let args = get_arguments r input @ (case file of None \<Rightarrow> [] | Some (key, name, func) \<Rightarrow> [''--'' @ key @ ''-'', name]) in
      bindR (start_proc L args (cli_environment input) p) (\<lambda>_ p.
        let (fill_err, p) = (case file of None \<Rightarrow> (0, p)
          | Some (key, name, func) \<Rightarrow>
              (let (err, p) = rp_fill L (\<lambda>offset n. let (more, buf) = func offset n in ((more, buf), offset + length buf))
                   (ro_bufsize (cr_opts r)) 0 p
               in (err, rp_close L p)))
        in bindR (drain_proc L (ro_bufsize (cr_opts r)) p) (\<lambda>out p.
           bindR (finish_proc L (1000 * ro_timeout (cr_opts r)) p) (\<lambda>status p.
           bindR (if status = 0 \<and> fill_err \<noteq> 0 then check_error L fill_err p else (Inr (), p)) (\<lambda>_ p. (Inr out, p))))))"

definition cli_files_in :: "'p reproc \<Rightarrow> cli_runner \<Rightarrow> run_input \<Rightarrow> (string, string \<times> bytes) smap \<Rightarrow> 'p \<Rightarrow> (cli_error + bytes) \<times> 'p" where
  "cli_files_in L r input files p =
     (case files of
        [] \<Rightarrow> cli_filled L r input None p
      | [(key, name, data)] \<Rightarrow> cli_filled L r input (Some (key, name, \<lambda>offset n. (offset + n < length data, take n (drop offset data)))) p
      | _ \<Rightarrow> (Inl ''Multiple Files'', p))"

definition cli_stream_in :: "'p reproc \<Rightarrow> cli_runner \<Rightarrow> run_input \<Rightarrow> (string, string \<times> bytes) smap \<Rightarrow>
    (string, string \<times> (nat \<Rightarrow> nat \<Rightarrow> bool \<times> bytes)) smap \<Rightarrow> 'p \<Rightarrow> (cli_error + bytes) \<times> 'p" where
  "cli_stream_in L r input files streams p =
     (if files \<noteq> [] then (Inl ''Multiple Files'', p)
      else (case streams of
        [] \<Rightarrow> cli_filled L r input None p
      | [(key, name, func)] \<Rightarrow> cli_filled L r input (Some (key, name, func)) p
      | _ \<Rightarrow> (Inl ''Multiple Files'', p)))"

text \<open>The pieces of the output go to a function with their offset; u is the state of the function.\<close>

fun stream_out_pieces :: "(nat \<Rightarrow> bytes \<Rightarrow> 'u \<Rightarrow> 'u) \<Rightarrow> nat \<Rightarrow> bytes list \<Rightarrow> 'u \<Rightarrow> 'u" where
  "stream_out_pieces f offset [] u = u"
| "stream_out_pieces f offset (buf # bufs) u = stream_out_pieces f (offset + length buf) bufs (f offset buf u)"

definition cli_stream_out :: "'p reproc \<Rightarrow> cli_runner \<Rightarrow> run_input \<Rightarrow> (nat \<Rightarrow> bytes \<Rightarrow> 'u \<Rightarrow> 'u) \<Rightarrow> 'u \<Rightarrow> 'p \<Rightarrow>
    (cli_error + unit) \<times> 'u \<times> 'p" where
  "cli_stream_out L r input streamer u p =
     (case start_proc L (get_arguments r input) (cli_environment input) p of
        (Inl e, p) \<Rightarrow> (Inl e, u, p)
      | (Inr v, p) \<Rightarrow>
          (let (err, out, p) = rp_drain L (ro_bufsize (cr_opts r)) p;
               u = stream_out_pieces streamer 0 out u;
               (r, p) = bindR (check_error L err p) (\<lambda>_ p. bindR (finish_proc L (1000 * ro_timeout (cr_opts r)) p) (\<lambda>_ p. (Inr (), p)))
           in (r, u, p)))"

section \<open>The request arrives\<close>

text \<open>Names and values of parameters that the syntax of the command line can carry.\<close>

definition plain_key :: "bool \<Rightarrow> string \<Rightarrow> bool" where
  "plain_key private_ok k \<longleftrightarrow> k \<noteq> [] \<and> CHR ''='' \<notin> set k \<and> \<not> is_space (hd k) \<and>
     last k \<notin> {CHR ''@'', CHR ''!'', CHR ''%'', CHR ''-''} \<and> (private_ok \<or> str_find ''password'' k = None \<and> str_find ''auth_'' k = None)"

definition plain_value :: "string \<Rightarrow> bool" where
  "plain_value v \<longleftrightarrow> \<not> starts_with_impl v ''--''"

definition put_param :: "bool \<Rightarrow> string \<times> string \<Rightarrow> cli_state \<Rightarrow> cli_state" where
  "put_param priv kv s =
     (if priv then s\<lparr>cs_data := sm_assign (fst kv) (snd kv) (cs_data s)\<rparr> else s\<lparr>cs_plain := sm_assign (fst kv) (snd kv) (cs_plain s)\<rparr>)"

lemma process_param:
  assumes k: "plain_key (priv \<or> unsafe) k" and v: "plain_value v"
  shows "process_arg fs unsafe priv (pre @ (''--'' @ k) # v # rest) (length pre) s = (Inr (length pre + 1), put_param priv (k, v) s)"
proof -
  let ?args = "pre @ (''--'' @ k) # v # rest"
  have a: "?args ! length pre = ''--'' @ k" "?args ! (length pre + 1) = v" by (simp_all add: nth_append)
  have st: "starts_with_impl (''--'' @ k) ''--''" by (simp add: starts_with_impl_def)
  have eq: "CHR ''='' \<notin> set (''--'' @ k)" using k by (simp add: plain_key_def)
  have n: "get_next_value ?args (length pre) = (v, length pre + 1)"
    using a eq v by (simp add: get_next_value_def plain_value_def)
  have "takeWhile (\<lambda>d. d \<noteq> CHR ''='') k = k" using k by (auto simp: plain_key_def takeWhile_eq_all_conv)
  then have sp: "fst (split_pair (drop 2 (''--'' @ k)) ''='' 0 False) = k" by (simp add: split_char)
  obtain c t where c: "k = c # t" using k by (cases k) (auto simp: plain_key_def)
  have ln: "\<not> length (''--'' @ k) < 2" "\<not> length (''--'' @ k) < 3" "\<not> is_space ((''--'' @ k) ! 2)" "k \<noteq> []"
    using k by (auto simp: plain_key_def c)
  have la: "last k \<noteq> CHR ''@''" "last k \<noteq> CHR ''!''" "last k \<noteq> CHR ''%''" "last k \<noteq> CHR ''-''" using k by (auto simp: plain_key_def)
  have pr: "\<not> (\<not> priv \<and> \<not> unsafe \<and> (str_find ''password'' k \<noteq> None \<or> str_find ''auth_'' k \<noteq> None))" using k by (auto simp: plain_key_def)
  show ?thesis
    unfolding process_arg_def Let_def a(1) sp n prod.case
    using st ln la pr by (simp add: put_param_def)
qed

lemma process_params:
  "\<forall>(k, v) \<in> set ps. plain_key (priv \<or> unsafe) k \<and> plain_value v \<Longrightarrow>
   process_args fs unsafe priv (pre @ param_args ps) (length pre) s = (Inr (), fold (put_param priv) ps s)"
proof (induction ps arbitrary: pre s)
  case (Cons kv ps)
  obtain k v where kv: "kv = (k, v)" by force
  have a: "pre @ param_args (kv # ps) = pre @ (''--'' @ k) # v # param_args ps" by (simp add: param_args_def kv)
  have p: "process_arg fs unsafe priv (pre @ (''--'' @ k) # v # param_args ps) (length pre) s = (Inr (length pre + 1), put_param priv (k, v) s)"
    using Cons.prems by (intro process_param) (auto simp: kv)
  have IH: "process_args fs unsafe priv ((pre @ [''--'' @ k, v]) @ param_args ps) (length (pre @ [''--'' @ k, v])) (put_param priv (k, v) s) =
      (Inr (), fold (put_param priv) ps (put_param priv (k, v) s))"
    using Cons.prems by (intro Cons.IH) simp
  show ?case unfolding a by (subst process_args.simps) (use p IH in \<open>simp add: kv\<close>)
qed (simp add: param_args_def process_args.simps)

text \<open>The parameters come in the order of a map, so that each is put at the end.\<close>

lemma assign_last: "\<forall>x \<in> set m. fst x < k \<Longrightarrow> sm_assign k v m = m @ [(k, v)]" for k :: string
  by (induction m) auto

lemma put_params:
  assumes "smap_ok (m @ ps)"
  shows "cs_data s = m \<Longrightarrow> fold (put_param True) ps s = s\<lparr>cs_data := m @ ps\<rparr>"
    and "cs_plain s = m \<Longrightarrow> fold (put_param False) ps s = s\<lparr>cs_plain := m @ ps\<rparr>"
proof -
  have *: "smap_ok (m @ ps) \<Longrightarrow> (cs_data s = m \<longrightarrow> fold (put_param True) ps s = s\<lparr>cs_data := m @ ps\<rparr>) \<and>
      (cs_plain s = m \<longrightarrow> fold (put_param False) ps s = s\<lparr>cs_plain := m @ ps\<rparr>)" for m s
  proof (induction ps arbitrary: m s)
    case (Cons kv ps)
    obtain k v where kv: "kv = (k, v)" by force
    have "\<forall>x \<in> set m. fst x < k" using Cons.prems by (auto simp: kv smap_ok_def sorted_wrt_append)
    then have a: "sm_assign k v m = m @ [(k, v)]" by (rule assign_last)
    have "smap_ok ((m @ [(k, v)]) @ ps)" using Cons.prems by (simp add: kv)
    note IH = Cons.IH [OF this]
    show ?case using IH [of "s\<lparr>cs_data := m @ [(k, v)]\<rparr>"] IH [of "s\<lparr>cs_plain := m @ [(k, v)]\<rparr>"] a by (auto simp: kv put_param_def)
  qed auto
  show "cs_data s = m \<Longrightarrow> fold (put_param True) ps s = s\<lparr>cs_data := m @ ps\<rparr>"
    and "cs_plain s = m \<Longrightarrow> fold (put_param False) ps s = s\<lparr>cs_plain := m @ ps\<rparr>" using * assms by blast+
qed

text \<open>The environment: variables of others come first.\<close>

definition env_var :: "string \<times> string \<Rightarrow> string" where
  "env_var kv = fst kv @ ''='' @ snd kv"

definition foreign :: "string \<Rightarrow> bool" where
  "foreign var \<longleftrightarrow> \<not> starts_with_impl (fst (split_pair var ''='' 0 False)) ''andromeda_''"

lemma env_var_split: "CHR ''='' \<notin> set k \<Longrightarrow> split_pair (env_var (k, v)) ''='' 0 False = (k, v)"
proof -
  assume k: "CHR ''='' \<notin> set k"
  have "takeWhile (\<lambda>d. d \<noteq> CHR ''='') (k @ ''='' @ v) = k" "dropWhile (\<lambda>d. d \<noteq> CHR ''='') (k @ ''='' @ v) = ''='' @ v"
    using k by (induction k) auto
  then show ?thesis by (simp add: env_var_def split_char)
qed

lemma get_environment_own:
  assumes "\<forall>x \<in> set others. foreign x" and "distinct (map fst ps)" and "\<forall>(k, v) \<in> set ps. CHR ''='' \<notin> set k"
  shows "get_environment (others @ map (\<lambda>kv. env_var (''andromeda_'' @ fst kv, snd kv)) ps) ''andromeda_'' =
    map (\<lambda>(k, v). (''andromeda_'' @ k, v)) ps"
proof -
  define step where "step = (\<lambda>var (m :: (string \<times> string) list). let pair = split_pair var ''='' 0 False
        in if (''andromeda_'' = [] \<or> starts_with_impl (fst pair) ''andromeda_'') \<and> map_of m (fst pair) = None then m @ [pair] else m)"
  have o: "fold step others m = m" for m using assms(1) by (induction others) (auto simp: step_def foreign_def Let_def)
  have "distinct (map fst qs @ map fst ps) \<Longrightarrow> \<forall>(k, v) \<in> set ps. CHR ''='' \<notin> set k \<Longrightarrow>
      fold step (map (\<lambda>kv. env_var (''andromeda_'' @ fst kv, snd kv)) ps) (map (\<lambda>(k, v). (''andromeda_'' @ k, v)) qs) =
      map (\<lambda>(k, v). (''andromeda_'' @ k, v)) (qs @ ps)" for qs
  proof (induction ps arbitrary: qs)
    case (Cons kv ps)
    obtain k v where kv: "kv = (k, v)" by force
    have sp: "split_pair (env_var (''andromeda_'' @ k, v)) ''='' 0 False = (''andromeda_'' @ k, v)"
      using Cons.prems(2) by (intro env_var_split) (simp add: kv)
    have st: "starts_with_impl (''andromeda_'' @ k) ''andromeda_''" by (simp add: starts_with_impl_def)
    have "map_of (map (\<lambda>(k, v). (''andromeda_'' @ k, v)) qs) (''andromeda_'' @ k) = None"
      using Cons.prems(1) by (force simp: kv map_of_eq_None_iff)
    then have "step (env_var (''andromeda_'' @ k, v)) (map (\<lambda>(k, v). (''andromeda_'' @ k, v)) qs) = map (\<lambda>(k, v). (''andromeda_'' @ k, v)) (qs @ [(k, v)])"
      using sp st by (simp add: step_def)
    moreover have "distinct (map fst (qs @ [(k, v)]) @ map fst ps)" using Cons.prems(1) by (auto simp: kv)
    ultimately show ?case using Cons.IH [of "qs @ [(k, v)]"] Cons.prems(2) by (simp add: kv)
  qed simp
  from this [of "[]"] have "fold step (map (\<lambda>kv. env_var (''andromeda_'' @ fst kv, snd kv)) ps) [] = map (\<lambda>(k, v). (''andromeda_'' @ k, v)) ps"
    using assms(2,3) by (simp only: list.map append_Nil)
  moreover have "get_environment vars ''andromeda_'' = fold step vars []" for vars unfolding get_environment_def step_def ..
  ultimately show ?thesis by (simp only: fold_append comp_apply o)
qed

lemma env_args_own:
  assumes "\<forall>x \<in> set others. foreign x" and "smap_ok ps" and "\<forall>(k, v) \<in> set ps. plain_key True k"
  shows "env_args (others @ map env_var (cli_environment \<lparr>ri_app = a, ri_action = b, ri_plain = c, ri_data = ps\<rparr>)) = param_args ps"
proof -
  have e: "map env_var (cli_environment \<lparr>ri_app = a, ri_action = b, ri_plain = c, ri_data = ps\<rparr>) = map (\<lambda>kv. env_var (''andromeda_'' @ fst kv, snd kv)) ps"
    by (simp add: cli_environment_def split_beta)
  have "get_environment (others @ map (\<lambda>kv. env_var (''andromeda_'' @ fst kv, snd kv)) ps) ''andromeda_'' = map (\<lambda>(k, v). (''andromeda_'' @ k, v)) ps"
    using assms smap_ok_distinct by (intro get_environment_own) (auto simp: plain_key_def)
  moreover have "snd (split_pair (''andromeda_'' @ k) ''_'' 0 False) = k" for k by (simp add: split_char)
  ultimately show ?thesis using assms(3)
    unfolding env_args_def param_args_def e by (auto simp: plain_key_def Let_def comp_def split_beta intro!: arg_cong [of _ _ concat] map_cong)
qed

text \<open>The arguments that CLIRunner writes after its own, and its environment, are read by the loops of ProcessArgList as the parameters.\<close>

lemma params_arrive:
  assumes "smap_ok (ri_plain i)" and "smap_ok (ri_data i)" and "\<forall>x \<in> set others. foreign x"
    and "\<forall>(k, v) \<in> set (ri_plain i). plain_key unsafe k \<and> plain_value v" and "\<forall>(k, v) \<in> set (ri_data i). plain_key True k \<and> plain_value v"
    and "cs_plain s = []" and "cs_data s = []"
  shows "process_args fs unsafe True (env_args (others @ map env_var (cli_environment i))) 0 s = (Inr (), s\<lparr>cs_data := ri_data i\<rparr>)"
    and "process_args fs unsafe False (param_args (ri_plain i)) 0 (s\<lparr>cs_data := ri_data i\<rparr>) =
      (Inr (), s\<lparr>cs_data := ri_data i, cs_plain := ri_plain i\<rparr>)"
proof -
  have e: "env_args (others @ map env_var (cli_environment i)) = param_args (ri_data i)"
    using env_args_own [OF assms(3,2), of "ri_app i" "ri_action i" "ri_plain i"] assms(5) by (cases i) (auto simp: split_beta)
  have d: "process_args fs unsafe True (param_args (ri_data i)) 0 s = (Inr (), s\<lparr>cs_data := ri_data i\<rparr>)"
    using process_params [of "ri_data i" True unsafe fs "[]" s] put_params(1) [of "[]" "ri_data i" s] assms by simp
  have p: "process_args fs unsafe False (param_args (ri_plain i)) 0 (s\<lparr>cs_data := ri_data i\<rparr>) = (Inr (), s\<lparr>cs_data := ri_data i, cs_plain := ri_plain i\<rparr>)"
    using process_params [of "ri_plain i" False unsafe fs "[]" "s\<lparr>cs_data := ri_data i\<rparr>"]
      put_params(2) [of "[]" "ri_plain i" "s\<lparr>cs_data := ri_data i\<rparr>"] assms by simp
  show "process_args fs unsafe True (env_args (others @ map env_var (cli_environment i))) 0 s = (Inr (), s\<lparr>cs_data := ri_data i\<rparr>)"
    unfolding e by (rule d)
  show "process_args fs unsafe False (param_args (ri_plain i)) 0 (s\<lparr>cs_data := ri_data i\<rparr>) =
      (Inr (), s\<lparr>cs_data := ri_data i, cs_plain := ri_plain i\<rparr>)" by (rule p)
qed

text \<open>C23: Once its own options are parsed, andromeda-cli reads the app, the action and the parameters, written as CLIRunner writes them after its options, and the environment that CLIRunner makes, as exactly the request they were made from; provided that no value starts with two dashes, the names are not empty and have no space in front, no equals sign and none of the marks of the syntax, and the names of a password or an auth key are only in the environment.\<close>

theorem cli_request_arrives:
  assumes "smap_ok (ri_plain i)" and "smap_ok (ri_data i)" and "\<forall>x \<in> set others. foreign x"
    and "\<forall>(k, v) \<in> set (ri_plain i). plain_key (cl_unsafe opts') k \<and> plain_value v"
    and "\<forall>(k, v) \<in> set (ri_data i). plain_key True k \<and> plain_value v"
    and "parse argv opts = (Inr shift, opts')" and "cli_validate opts' = None" and "\<not> cl_streamout opts'"
    and "get_arguments r i = front @ drop shift argv" and "length front = (if ends_with (cr_path r) ''.php'' then 3 else 2)"
  shows "command_line parse fs (others @ map env_var (cli_environment i)) stdin argv opts = Inr (PlainInput i, opts')"
proof -
  have argv: "drop shift argv = [ri_app i, ri_action i] @ param_args (ri_plain i)"
    using assms(9,10) by (auto simp: get_arguments_def length_Suc_conv numeral_2_eq_2 numeral_3_eq_3 split: if_splits)
  then have "length argv - shift = length ([ri_app i, ri_action i] @ param_args (ri_plain i))" by (metis length_drop)
  with argv show ?thesis
    using params_arrive [OF assms(1-5), where s = "\<lparr>cs_plain = [], cs_data = [], cs_streams = [], cs_stdin = stdin\<rparr>" and fs = fs] assms(6-8)
    by (simp add: command_line_def Let_def)
qed

definition toy_request :: run_input where
  "toy_request = \<lparr>ri_app = ''files'', ri_action = ''rename'', ri_plain = [(''file'', ''7''), (''name'', ''a b'')], ri_data = [(''pw'', ''x=-'')]\<rparr>"

definition toy_rest :: "string list \<Rightarrow> cli_opts \<Rightarrow> (opt_error + nat) \<times> cli_opts" where
  "toy_rest argv opts = (Inr 2, opts\<lparr>cl_url := ''u''\<rparr>)"

lemma cli_request_arrives_witness:
  "command_line toy_rest Map.empty [''HOME=/root'', ''andromeda_pw=x=-''] [] [''andromeda-cli'', ''--'', ''files'', ''rename'', ''--file'', ''7'', ''--name'', ''a b''] toy_opts =
     Inr (PlainInput toy_request, toy_opts\<lparr>cl_url := ''u''\<rparr>)"
proof -
  have f: "str_find ''password'' k = None \<and> str_find ''auth_'' k = None" if "k \<in> {''file'', ''name'', ''pw''}" for k
    using that by (elim insertE emptyE; hypsubst) code_simp+
  have k: "plain_key False ''file''" "plain_key False ''name''" "plain_key True ''pw''"
    using f by (simp_all add: plain_key_def is_space_def)
  have v: "plain_value ''7''" "plain_value ''a b''" "plain_value ''x=-''" by (simp_all add: plain_value_def starts_with_impl_def)
  have s: "smap_ok (ri_plain toy_request)" "smap_ok (ri_data toy_request)" by (simp_all add: toy_request_def smap_ok_def)
  have o: "foreign ''HOME=/root''" by (simp add: foreign_def split_char starts_with_impl_def)
  let ?r = "new_cli_runner (\<lambda>_. False) ''server'' runner_default"
  have a: "get_arguments ?r toy_request = [''server'', ''--json''] @ [''files'', ''rename'', ''--file'', ''7'', ''--name'', ''a b'']"
    "\<not> ends_with (cr_path ?r) ''.php''"
    by (simp_all add: get_arguments_def new_cli_runner_def fix_api_path_def param_args_def toy_request_def ends_with_def)
  have "command_line toy_rest Map.empty ([''HOME=/root''] @ map env_var (cli_environment toy_request)) [] [''andromeda-cli'', ''--'', ''files'', ''rename'', ''--file'', ''7'', ''--name'', ''a b''] toy_opts =
      Inr (PlainInput toy_request, toy_opts\<lparr>cl_url := ''u''\<rparr>)"
    by (rule cli_request_arrives [where r = ?r and front = "[''server'', ''--json'']" and shift = 2])
      (use a k v o s in \<open>simp_all add: toy_request_def toy_rest_def toy_opts_def cli_validate_def\<close>)
  moreover have "map env_var (cli_environment toy_request) = [''andromeda_pw=x=-'']"
    by code_simp
  ultimately show ?thesis by simp
qed

text \<open>A value that starts with two dashes is read as the name of another parameter.\<close>

lemma dashed_value_misread:
  "process_args fs False False (param_args [(''name'', ''--x'')]) 0 \<lparr>cs_plain = [], cs_data = [], cs_streams = [], cs_stdin = []\<rparr> =
    (Inr (), \<lparr>cs_plain = [(''name'', []), (''x'', [])], cs_data = [], cs_streams = [], cs_stdin = []\<rparr>)"
proof -
  have n: "fst (split_pair ''name'' ''='' 0 False) = ''name''" "fst (split_pair ''x'' ''='' 0 False) = ''x''" by (simp_all add: split_char)
  have f: "str_find ''password'' k = None" "str_find ''auth_'' k = None" if "k \<in> {''name'', ''x''}" for k
    using that by (elim insertE emptyE; hypsubst; code_simp)+
  show ?thesis
    by (simp add: param_args_def process_args.simps process_arg_def Let_def get_next_value_def starts_with_impl_def is_space_def n f)
qed

text \<open>A file that is given in the form --key%=path gets the whole path as its name.\<close>

lemma equals_path_named:
  assumes "fs ''/a/b'' = Some data"
  shows "\<exists>s. process_args fs False False [''--f%=/a/b''] 0 \<lparr>cs_plain = [], cs_data = [], cs_streams = [], cs_stdin = []\<rparr> = (Inr (), s) \<and>
     cs_streams s = [(''f'', ''/a/b'', OpenFile ''/a/b'')]"
proof -
  have n: "split_pair ''f%=/a/b'' ''='' 0 False = (''f%'', ''/a/b'')" "split_pair ''--f%=/a/b'' ''='' 0 False = (''--f%'', ''/a/b'')" by (simp_all add: split_char)
  show ?thesis using assms
    by (simp add: process_args.simps process_arg_def Let_def get_next_value_def starts_with_impl_def is_space_def n sm_emplace_def)
qed

end
