(* ===== verification/Spec2Isabelle.thy ===== *)
theory Spec2Isabelle
  imports Memory_Server Base64 Options_Correct Shared_Mutex Semaphor Runner_Pool Runner_Input Backend_Correct
    Tree_Claims Fuse_Correct Fuse_Adapter Alloc_Correct Table_Install Crypto Cli_Runner
begin

text \<open>
  Verification library of the Andromeda desktop clients. The program mounts and drives a remote
  file server: src/lib/andromeda is the core, src/lib/andromeda-fuse connects it to FUSE, and
  src/bin holds the programs. Paths below are relative to src/src.

  \<^bold>\<open>The parts and how they interact.\<close> A File (lib/andromeda/filesystem/File.cpp) has a PageManager that
  keeps the pages of the file in memory, fetches them on demand through a PageBackend, and writes
  the changed ones back through it. All PageManagers share a CacheManager, which counts the memory
  of the pages and of the changed pages and tells the managers what to evict and to write. A
  PageBackend makes its requests to BackendImpl, which adds the session, encodes the request for a
  runner of the RunnerPool (an HTTPRunner), decodes the answer and splits uploads that are too large.
  Files and folders are Items of a tree that is loaded from the backend on demand and refreshed; the
  calls of FUSE look their item up by path and hold its scope lock while they work on it. The
  options of the programs say how all of them behave.

  \<^bold>\<open>Common ground.\<close>
  A2_Prelude: bytes, exceptions as values, results with a state, size_t arithmetic with its
  wrap-around. Std_Map: std::map as a sorted list, with its contract ordered_map.
  Ordered_Map: OrderedMap.hpp, both the list of nodes and the hash index, with the contract
  lru_queue that CacheManager uses; any history of calls refines a plain list.
  String_Util, Base64: StringUtil.cpp and base64.hpp, with round trips.

  \<^bold>\<open>File data\<close> (lib/andromeda/filesystem/filedata).
  Cache_Manager: the queues, counters and decisions of CacheManager.cpp, BandwidthMeasure.cpp.
  File_Page: Page.cpp and the bytes that a page map stands for.
  Page_Backend, Page_Flush, Page_Fetch, Page_Manager: PageBackend.cpp and PageManager.cpp, on one
  state (world) for an open file, its cache and the outside. Flush_Correct, Manager_Correct,
  Write_Correct, Read_Correct: the invariant of an open file, and that every operation, whether it
  succeeds or throws, leaves the bytes of the file as they are except for what it is to change.
  File_IO: File.cpp, over the contract paged_store; any history of reads, writes and flushes is
  that of a plain byte array, and what a flush stores is that array. Memory_Server: a server that
  meets the assumptions (backend_ok), and runs of the whole model on it.

  \<^bold>\<open>The item tree\<close> (lib/andromeda/filesystem). Item_Tree: FSConfig.cpp, Item.cpp, the constructors and
  refreshing of File.cpp and of the folder classes. Folder_Tree: Folder.cpp and folders: loading and
  refreshing the contents, lookup by path, creating, deleting, renaming, moving. Items are at
  addresses of a store, so an item and the parent it points to are the objects of the code; the data
  of a file is a parameter with the operations of file_ops. Tree_Correct: the invariant tree_ok, kept
  by every operation on success and on failure; fine and sound are its two forms, the first for
  operations that leave every item where it is. Tree_Claims: histories, and what the operations do
  to the maps of the folders.

  \<^bold>\<open>FUSE\<close> (lib/andromeda-fuse). Fuse_Ops: the calls of FuseOperations.cpp, with the handlers that turn
  exceptions into error numbers. Fuse_Correct: runs of calls, and what single calls promise.
  Fuse_Adapter: FuseAdapter.cpp, with libfuse as a parameter; what is set up is taken down.

  \<^bold>\<open>Requests\<close> (lib/andromeda/backend).
  Runner_Input: the stream functions of RunnerInput.cpp. Http_Runner: HTTPRunner.cpp, with the
  retry loops, redirects, and the encoding of parameters. Runner_Pool: RunnerPool.cpp as a step
  relation over all threads. Backend_Api: BackendImpl.cpp and Config.cpp. Backend_Correct: guards,
  sessions, and streamed reads and uploads under retries and limits.

  \<^bold>\<open>Locks.\<close> Ticket_Queue, Shared_Mutex, Semaphor: SharedMutex.hpp and Semaphor.hpp as step relations
  over all threads; exclusion, order, and that no wakeup is lost.

  \<^bold>\<open>Options.\<close> Options_Parse: BaseOptions.cpp. Option_Structs: the option structures and the options
  of the two programs. Options_Correct: what parsing guarantees, and when it ends.

  \<^bold>\<open>Fuel and bounds.\<close> Loops that may run for ever are partial functions with None for no result
  (streams, SendFile), and the theorems say when they return. evict_deferred has fuel for the
  entries there are at its start; nested configuration files have a depth, and config_files_end
  gives a depth that is enough. Going down the item tree (scope_free, flush_tree) has fuel for the
  number of items there are. size_t and uint64_t values are natural numbers with the wrap-around
  written out where the code adds or subtracts them (uadd, usub).

  \<^bold>\<open>Parameters.\<close> The server, the clock, httplib, the JSON parser, and the memory an allocator hands out
  are parameters. What is assumed of them is in backend_ok (the server keeps what is written to it
  and serves it) and in the hypotheses of the theorems; each has a witness on a concrete instance.

  \<^bold>\<open>Not modelled.\<close> A fetch thread of PageManager runs to its end when it is started, and the cleanup
  threads of CacheManager are a parameter, so races between the threads of one file are not
  covered. The item tree is used by one thread at a time; a wait for a scope lock that this thread
  holds is the result FSDeadlock, and None for a FUSE call, and write locks of items are not part of
  the state. Dates are whole numbers, so a date_created with a fraction is outside of the model.
  FuseAdapter in a thread of its own and the unmounting from another thread. RunAction_StreamIn of HTTPRunner, which only hands a buffer to httplib. The Qt program,
  the database classes, the command line client, the allocator, encryption, logging and system calls
  are outside of the model.
\<close>

end
